(* ===== verification/Gunyah_Prelude.thy ===== *)
theory Gunyah_Prelude
  imports Main "HOL-Library.Word" "HOL-Library.Monad_Syntax"
begin

unbundle bit_operations_syntax

text \<open>
  Shared vocabulary of the development: the machine integer types of the hypervisor, its
  error codes (\<^verbatim>\<open>hyp/core/base/types.tc\<close> and its extensions), the outcome of code that may
  panic, and the bit and alignment macros of \<^verbatim>\<open>hyp/interfaces/util/include/util.h\<close> with the
  arithmetic facts the components use.

  Words of 64 bits model \<^verbatim>\<open>uint64_t\<close>, \<^verbatim>\<open>size_t\<close>, \<^verbatim>\<open>uintptr_t\<close>, \<^verbatim>\<open>register_t\<close> and pointers
  (AArch64 is an LP64 target); the null pointer is \<open>0\<close>. Arithmetic on words wraps, as
  unsigned arithmetic does in C.

  Code that can fail an assertion, panic, or loop forever returns an \<open>option\<close>: \<open>None\<close>
  stands for "the hypervisor panics or the loop does not end", so a theorem with
  conclusion \<open>f x = Some r\<close> also states that neither happens.
\<close>

section \<open>Types and error codes\<close>

type_synonym u8 = "8 word"
type_synonym u16 = "16 word"
type_synonym u32 = "32 word"
type_synonym u64 = "64 word"
type_synonym ptr = "64 word"

abbreviation NULL :: ptr where
  "NULL \<equiv> 0"

datatype error_t =
    OK
  | ERROR_UNIMPLEMENTED
  | ERROR_RETRY
  | ERROR_ARGUMENT_INVALID
  | ERROR_ARGUMENT_SIZE
  | ERROR_ARGUMENT_ALIGNMENT
  | ERROR_NOMEM
  | ERROR_NORESOURCES
  | ERROR_ADDR_OVERFLOW
  | ERROR_ADDR_INVALID
  | ERROR_DENIED
  | ERROR_BUSY
  | ERROR_FAILURE
  | ERROR_OBJECT_STATE
  | ERROR_OBJECT_CONFIG
  | ERROR_CSPACE_CAP_NULL
  | ERROR_CSPACE_CAP_REVOKED
  | ERROR_CSPACE_WRONG_OBJECT_TYPE
  | ERROR_CSPACE_INSUFFICIENT_RIGHTS
  | ERROR_CSPACE_FULL
  | ERROR_MSGQUEUE_EMPTY
  | ERROR_MSGQUEUE_FULL
  | ERROR_ALLOCATOR_RANGE_OVERLAPPING
  | ERROR_ALLOCATOR_MEM_INUSE
  | ERROR_MEMDB_EMPTY
  | ERROR_MEMDB_NOT_OWNER

text \<open>
  The generated \<^verbatim>\<open>T_result_t\<close> structures carry an error and, when it is \<^verbatim>\<open>OK\<close>, a value.
\<close>

type_synonym 'a result = "error_t + 'a"

fun result_e :: "'a result \<Rightarrow> error_t" where
  "result_e (Inl e) = e"
| "result_e (Inr _) = OK"

text \<open>\<^verbatim>\<open>assert()\<close>: a failed assertion aborts the hypervisor.\<close>

definition c_assert :: "bool \<Rightarrow> unit option" where
  "c_assert b = (if b then Some () else None)"

lemma c_assert_simps [simp]:
  "c_assert True = Some ()" "c_assert False = None"
  "c_assert b = Some u \<longleftrightarrow> b" "c_assert b = None \<longleftrightarrow> \<not> b"
  by (auto simp: c_assert_def)

lemma bind_c_assert [simp]: "b \<Longrightarrow> Option.bind (c_assert b) f = f ()"
  by (simp add: c_assert_def)

section \<open>Bit and alignment macros\<close>

named_theorems word_nat "facts that move statements about words to natural numbers"

definition util_bit :: "nat \<Rightarrow> u64" where
  "util_bit b = push_bit b 1"

definition util_mask :: "nat \<Rightarrow> u64" where
  "util_mask n = util_bit n - 1"

definition util_mask_safe :: "nat \<Rightarrow> u64" where
  "util_mask_safe n = (if n < 64 then util_mask n else NOT 0)"

definition util_max :: "'a::linorder \<Rightarrow> 'a \<Rightarrow> 'a" where
  "util_max x y = (if x > y then x else y)"

definition util_min :: "'a::linorder \<Rightarrow> 'a \<Rightarrow> 'a" where
  "util_min x y = (if x < y then x else y)"

definition util_is_p2_or_zero :: "'a::len word \<Rightarrow> bool" where
  "util_is_p2_or_zero x \<longleftrightarrow> x AND (x - 1) = 0"

definition util_is_p2 :: "'a::len word \<Rightarrow> bool" where
  "util_is_p2 x \<longleftrightarrow> x \<noteq> 0 \<and> util_is_p2_or_zero x"

definition util_add_overflows :: "'a::len word \<Rightarrow> 'a word \<Rightarrow> bool" where
  "util_add_overflows a b \<longleftrightarrow> a > NOT b"

definition util_is_baligned :: "'a::len word \<Rightarrow> 'a word \<Rightarrow> bool" where
  "util_is_baligned x a \<longleftrightarrow> x AND (a - 1) = 0"

definition util_is_p2aligned :: "u64 \<Rightarrow> nat \<Rightarrow> bool" where
  "util_is_p2aligned x b \<longleftrightarrow> x AND (util_bit b - 1) = 0"

definition util_balign_down :: "'a::len word \<Rightarrow> 'a word \<Rightarrow> 'a word" where
  "util_balign_down x a = x AND NOT (a - 1)"

definition util_balign_up :: "'a::len word \<Rightarrow> 'a word \<Rightarrow> 'a word" where
  "util_balign_up x a = util_balign_down (x + (a - 1)) a"

subsection \<open>Words as natural numbers\<close>

lemma unat_lt: "unat (w::'a::len word) < 2 ^ LENGTH('a)"
  by (fact unsigned_less)

lemma unat_not: "unat (NOT (b::'a::len word)) = 2 ^ LENGTH('a) - 1 - unat b"
proof -
  have "NOT b = - 1 - b" by (simp add: not_eq_complement)
  moreover have "unat (- 1 - b) = unat (- 1 :: 'a word) - unat b"
    by (rule unat_sub) simp
  ultimately show ?thesis
    by (simp add: unsigned_minus_1_eq_mask mask_eq_exp_minus_1)
qed

lemma unat_p2 [simp]: "k < LENGTH('a) \<Longrightarrow> unat ((2::'a::len word) ^ k) = 2 ^ k"
  using uint_2p [where ?'a = 'a, of k]
  by (simp add: word_neq_0_conv [symmetric] unat_eq_nat_uint nat_power_eq)

lemma unat_add_no_overflow:
  "unat a + unat b < 2 ^ LENGTH('a) \<Longrightarrow> unat (a + b :: 'a::len word) = unat a + unat b"
  by (simp add: unat_plus_if')

lemma unat_diff_le: "unat b \<le> unat a \<Longrightarrow> unat (a - b :: 'a::len word) = unat a - unat b"
  by (simp add: unat_sub word_le_nat_alt)

lemma util_add_overflows_iff [word_nat]:
  "util_add_overflows a b \<longleftrightarrow> unat a + unat (b::'a::len word) \<ge> 2 ^ LENGTH('a)"
  unfolding util_add_overflows_def word_less_nat_alt unat_not
  using unat_lt [of a] unat_lt [of b] by linarith

lemma util_max_eq [simp]: "util_max x y = max x y"
  by (auto simp: util_max_def max_def)

lemma util_min_eq [simp]: "util_min x y = min x y"
  by (auto simp: util_min_def min_def)

subsection \<open>Powers of two\<close>

lemma nat_and_pred_0:
  "n > 0 \<Longrightarrow> n AND (n - 1) = (0::nat) \<Longrightarrow> \<exists>k. n = 2 ^ k"
proof (induction n rule: less_induct)
  case (less n)
  show ?case
  proof (cases "odd n")
    case True
    then obtain m where m: "n = 2 * m + 1" by (auto elim: oddE)
    have "n AND (n - 1) = 2 * m"
      unfolding m by (simp add: and_nat_unfold [of "Suc (2 * m)"])
    with less.prems m have "m = 0" by simp
    then show ?thesis using m by (intro exI [of _ 0]) simp
  next
    case False
    then obtain m where m: "n = 2 * m" by auto
    with less.prems have m0: "m > 0" by simp
    have "(2 * m - 1) div 2 = m - 1" using m0 by arith
    then have "n AND (n - 1) = 2 * (m AND (m - 1))"
      unfolding m using m0 by (subst and_nat_unfold) simp
    with less.prems have "m AND (m - 1) = 0" by simp
    with less.IH [of m] m m0 obtain k where "m = 2 ^ k" by auto
    then show ?thesis using m by (intro exI [of _ "Suc k"]) simp
  qed
qed

lemma util_is_p2_ex:
  assumes "util_is_p2 (a :: 'a::len word)"
  shows "\<exists>k < LENGTH('a). a = 2 ^ k"
proof -
  from assms have a0: "a \<noteq> 0" and a: "a AND (a - 1) = 0"
    by (auto simp: util_is_p2_def util_is_p2_or_zero_def)
  have "unat a AND (unat a - 1) = 0"
    using a a0 by (metis unat_0 unsigned_and_eq unat_minus_one)
  moreover have "unat a > 0" using a0 by (simp add: unat_gt_0)
  ultimately obtain k where k: "unat a = 2 ^ k" using nat_and_pred_0 by blast
  have "(2::nat) ^ k < 2 ^ LENGTH('a)" using k unat_lt [of a] by simp
  then have "k < LENGTH('a)" by simp
  moreover have "a = 2 ^ k"
    using k \<open>k < LENGTH('a)\<close> by (simp add: word_unat_eq_iff)
  ultimately show ?thesis by blast
qed

lemma util_is_p2_pos: "util_is_p2 a \<Longrightarrow> 0 < unat a"
  by (simp add: util_is_p2_def unat_gt_0)

lemma word_and_not_mask: "(x::'a::len word) AND NOT (mask k) = x - take_bit k x"
proof -
  have "(x AND NOT (mask k)) + (x AND mask k) = (x AND NOT (mask k)) OR (x AND mask k)"
    by (rule disjunctive_add_eq_or) (simp add: bit_eq_iff bit_simps)
  also have "\<dots> = x"
    by (simp add: bit_eq_iff bit_simps) auto
  finally have "x = (x AND NOT (mask k)) + (x AND mask k)" by simp
  then show ?thesis by (simp add: take_bit_eq_mask eq_diff_eq)
qed

lemma unat_take_bit: "unat (take_bit k (x::'a::len word)) = unat x mod 2 ^ k"
  by (subst unsigned_take_bit_eq) (rule take_bit_eq_mod)

subsection \<open>Alignment\<close>

lemma unat_balign_down:
  assumes "util_is_p2 (a::'a::len word)"
  shows "unat (util_balign_down x a) = unat x div unat a * unat a"
proof -
  from util_is_p2_ex [OF assms] obtain k where k: "k < LENGTH('a)" "a = 2 ^ k" by blast
  have "util_balign_down x a = x - take_bit k x"
    by (simp add: k util_balign_down_def mask_eq_decr_exp [symmetric] word_and_not_mask)
  moreover have "unat (x - take_bit k x) = unat x - unat (take_bit k x)"
    by (rule unat_sub) (simp add: word_le_nat_alt unsigned_take_bit_eq)
  ultimately show ?thesis
    using k by (simp only: unat_take_bit minus_mod_eq_div_mult unat_p2)
qed

lemma unat_balign_up:
  assumes "util_is_p2 (a::'a::len word)" and "unat x + unat a \<le> 2 ^ LENGTH('a)"
  shows "unat (util_balign_up x a) = (unat x + unat a - 1) div unat a * unat a"
proof -
  have a: "0 < unat a" using assms(1) by (rule util_is_p2_pos)
  have a1: "unat (a - 1) = unat a - 1"
    using a by (metis unat_minus_one unat_gt_0)
  have "unat (x + (a - 1)) = unat x + (unat a - 1)"
    using assms(2) a a1 by (subst unat_add_no_overflow) simp_all
  then show ?thesis
    using a by (simp add: util_balign_up_def unat_balign_down [OF assms(1)])
qed

text \<open>Rounding up on natural numbers: the least multiple of the alignment that is not below.\<close>

definition align_up_nat :: "nat \<Rightarrow> nat \<Rightarrow> nat" where
  "align_up_nat x a = (x + a - 1) div a * a"

lemma align_up_nat_bounds:
  assumes "0 < a"
  shows "x \<le> align_up_nat x a" "align_up_nat x a < x + a" "a dvd align_up_nat x a"
proof -
  have "align_up_nat x a = (x + a - 1) - (x + a - 1) mod a"
    by (simp add: align_up_nat_def minus_mod_eq_div_mult)
  moreover have "(x + a - 1) mod a < a" using assms by simp
  moreover have "(x + a - 1) mod a \<le> x + a - 1" by simp
  ultimately show "x \<le> align_up_nat x a" "align_up_nat x a < x + a"
    using assms by linarith+
  show "a dvd align_up_nat x a" by (simp add: align_up_nat_def)
qed

lemma align_up_nat_least:
  assumes "0 < a" "a dvd y" "x \<le> y"
  shows "align_up_nat x a \<le> y"
proof -
  from assms(2) obtain q where q: "y = q * a" by (metis dvdE mult.commute)
  have "x + a - 1 < (q + 1) * a" using assms q by (simp add: algebra_simps)
  then have "(x + a - 1) div a < q + 1" using assms(1) by (simp add: less_mult_imp_div_less)
  then show ?thesis using q by (simp add: align_up_nat_def)
qed

lemma align_up_nat_id: "0 < a \<Longrightarrow> a dvd x \<Longrightarrow> align_up_nat x a = x"
  using align_up_nat_least [of a x x] align_up_nat_bounds(1) [of a x] by simp

lemma unat_balign_up_align:
  "util_is_p2 a \<Longrightarrow> unat x + unat a \<le> 2 ^ LENGTH('a) \<Longrightarrow>
    unat (util_balign_up x (a::'a::len word)) = align_up_nat (unat x) (unat a)"
  by (simp add: unat_balign_up align_up_nat_def)

lemma util_is_baligned_dvd:
  assumes "util_is_p2 (a::'a::len word)"
  shows "util_is_baligned x a \<longleftrightarrow> unat a dvd unat x"
proof -
  from util_is_p2_ex [OF assms] obtain k where k: "k < LENGTH('a)" "a = 2 ^ k" by blast
  have "util_is_baligned x a \<longleftrightarrow> x AND mask k = 0"
    by (simp add: util_is_baligned_def k mask_eq_decr_exp)
  also have "\<dots> \<longleftrightarrow> 2 ^ k dvd unat x" by (simp add: and_mask_dvd_nat)
  finally show ?thesis using k by simp
qed

end
