(* ===== verification/Allocator_Interface.thy ===== *)
theory Allocator_Interface
  imports Gunyah_Prelude
begin

text \<open>
  The contract of a memory allocator, as its clients rely on it: \<open>block_allocator\<close> for the
  allocator that only hands memory out (the boot allocator), \<open>freeing_allocator\<close> for the one
  that also takes it back (the heap). The client of an allocator is an arbitrary sequence
  of requests; what holds of it is proved once, here, from the contract.
\<close>

section \<open>Clients\<close>

text \<open>The bytes of a block at \<open>p\<close> of a request for \<open>sz\<close> bytes, rounded to \<open>len sz\<close>.\<close>

fun blk :: "(u64 \<Rightarrow> nat) \<Rightarrow> ptr \<times> u64 \<Rightarrow> nat set" where
  "blk len (p, sz) = {unat p ..< unat p + len sz}"

definition disjoint_blks :: "(u64 \<Rightarrow> nat) \<Rightarrow> (ptr \<times> u64) list \<Rightarrow> bool" where
  "disjoint_blks len bs \<longleftrightarrow> sorted_wrt (\<lambda>b c. blk len b \<inter> blk len c = {}) bs"

definition blks :: "(u64 \<Rightarrow> nat) \<Rightarrow> (ptr \<times> u64) list \<Rightarrow> nat set" where
  "blks len bs = (\<Union>b \<in> set bs. blk len b)"

lemma blks_simps [simp]:
  "blks len [] = {}" "blks len (b # bs) = blk len b \<union> blks len bs"
  "blks len (bs @ cs) = blks len bs \<union> blks len cs"
  by (auto simp: blks_def)

lemma disjoint_blks_simps [simp]:
  "disjoint_blks len []"
  "disjoint_blks len (b # bs) \<longleftrightarrow> blk len b \<inter> blks len bs = {} \<and> disjoint_blks len bs"
  by (auto simp: disjoint_blks_def blks_def)

lemma disjoint_blks_append [simp]:
  "disjoint_blks len (bs @ cs) \<longleftrightarrow>
     disjoint_blks len bs \<and> disjoint_blks len cs \<and> blks len bs \<inter> blks len cs = {}"
  by (induction bs) auto

text \<open>One operation of a client: a request, or the return of its \<open>i\<close>th live block.\<close>

datatype heap_op = Alloc u64 u64 | Free nat

type_synonym 's alloc_fn = "'s \<Rightarrow> u64 \<Rightarrow> u64 \<Rightarrow> (ptr result \<times> 's) option"
type_synonym 's dealloc_fn = "'s \<Rightarrow> ptr \<Rightarrow> u64 \<Rightarrow> 's option"

fun client_step :: "'s alloc_fn \<Rightarrow> 's dealloc_fn \<Rightarrow> (ptr \<times> u64) list \<times> 's \<Rightarrow> heap_op \<Rightarrow>
    ((ptr \<times> u64) list \<times> 's) option" where
  "client_step alloc dealloc (live, s) (Alloc sz al) =
     map_option (\<lambda>(r, s'). (case r of Inl _ \<Rightarrow> live | Inr p \<Rightarrow> (p, sz) # live, s')) (alloc s sz al)"
| "client_step alloc dealloc (live, s) (Free i) =
     (if i < length live
      then map_option (\<lambda>s'. (take i live @ drop (Suc i) live, s'))
             (dealloc s (fst (live ! i)) (snd (live ! i)))
      else Some (live, s))"

fun client_run :: "'s alloc_fn \<Rightarrow> 's dealloc_fn \<Rightarrow> (ptr \<times> u64) list \<times> 's \<Rightarrow> heap_op list \<Rightarrow>
    ((ptr \<times> u64) list \<times> 's) option" where
  "client_run alloc dealloc c [] = Some c"
| "client_run alloc dealloc c (op # ops) =
     Option.bind (client_step alloc dealloc c op) (\<lambda>c'. client_run alloc dealloc c' ops)"

fun no_free :: "heap_op \<Rightarrow> bool" where
  "no_free (Alloc _ _) = True"
| "no_free (Free _) = False"

section \<open>Allocation\<close>

text \<open>
  \<open>inv s F\<close>: the state is well formed and its free bytes are \<open>F\<close>; \<open>ok s sz al\<close>: the request
  is one the allocator is specified for. A block that is handed out was free and is not free
  afterwards; a failed request changes nothing; no request panics.
\<close>

locale block_allocator =
  fixes inv :: "'s \<Rightarrow> nat set \<Rightarrow> bool"
    and ok :: "'s \<Rightarrow> u64 \<Rightarrow> u64 \<Rightarrow> bool"
    and len :: "u64 \<Rightarrow> nat"
    and alloc :: "'s alloc_fn"
  assumes alloc_total: "inv s F \<Longrightarrow> ok s sz al \<Longrightarrow> alloc s sz al \<noteq> None"
    and alloc_ok: "inv s F \<Longrightarrow> ok s sz al \<Longrightarrow> alloc s sz al = Some (Inr p, s') \<Longrightarrow>
      \<exists>F'. inv s' F' \<and> blk len (p, sz) \<subseteq> F \<and> F' \<subseteq> F - blk len (p, sz)"
    and alloc_err: "inv s F \<Longrightarrow> ok s sz al \<Longrightarrow> alloc s sz al = Some (Inl e, s') \<Longrightarrow> s' = s"
    and ok_alloc: "inv s F \<Longrightarrow> ok s sz al \<Longrightarrow> alloc s sz al = Some (r, s') \<Longrightarrow> ok s' = ok s"
begin

text \<open>
  Whatever sequence of requests a client makes, it is answered, and the blocks it holds are
  pairwise disjoint parts of the memory that was free at the start.
\<close>

lemma requests_disjoint:
  assumes "inv s F" "\<forall>op \<in> set ops. no_free op"
    "\<forall>sz al. Alloc sz al \<in> set ops \<longrightarrow> ok s sz al"
    "disjoint_blks len live" "blks len live \<inter> F = {}"
  shows "\<exists>live' s' F'. client_run alloc dealloc (live, s) ops = Some (live', s') \<and> inv s' F' \<and>
    F' \<subseteq> F \<and> disjoint_blks len live' \<and> blks len live' \<inter> F' = {} \<and>
    blks len live' \<subseteq> blks len live \<union> F"
  using assms
proof (induction ops arbitrary: live s F)
  case Nil
  then show ?case by auto
next
  case (Cons op ops)
  then obtain sz al where op: "op = Alloc sz al" by (cases op) auto
  have ok: "ok s sz al" using Cons.prems op by simp
  obtain r s1 where r: "alloc s sz al = Some (r, s1)"
    using alloc_total [OF Cons.prems(1) ok] by auto
  have oks: "\<forall>sz al. Alloc sz al \<in> set ops \<longrightarrow> ok s1 sz al"
    using ok_alloc [OF Cons.prems(1) ok r] Cons.prems(3) by simp
  show ?case
  proof (cases r)
    case (Inl e)
    then have "s1 = s" using alloc_err [OF Cons.prems(1) ok] r by simp
    then show ?thesis
      using Cons.IH [OF Cons.prems(1)] Cons.prems Inl r op by simp
  next
    case (Inr p)
    from alloc_ok [OF Cons.prems(1) ok r [unfolded Inr]] obtain F1 where
      F1: "inv s1 F1" "blk len (p, sz) \<subseteq> F" "F1 \<subseteq> F - blk len (p, sz)" by blast
    have "disjoint_blks len ((p, sz) # live)" "blks len ((p, sz) # live) \<inter> F1 = {}"
      using Cons.prems F1 by auto
    then obtain live' s' F' where
      run: "client_run alloc dealloc ((p, sz) # live, s1) ops = Some (live', s')"
        "inv s' F'" "disjoint_blks len live'" "blks len live' \<inter> F' = {}" and
      "F' \<subseteq> F1" "blks len live' \<subseteq> blks len ((p, sz) # live) \<union> F1"
      using Cons.IH [OF F1(1) _ oks] Cons.prems(2) by (meson list.set_intros(2))
    moreover have "blks len ((p, sz) # live) \<union> F1 \<subseteq> blks len live \<union> F" "F1 \<subseteq> F"
      using F1 by auto
    ultimately have "F' \<subseteq> F \<and> blks len live' \<subseteq> blks len live \<union> F" by blast
    then show ?thesis using r op Inr run by (auto simp del: blk.simps blks_simps)
  qed
qed

end

section \<open>Allocation and deallocation\<close>

text \<open>
  \<open>placed p sz\<close>: the block lies where the allocator puts blocks. Exactly the bytes of a
  block leave the free memory, and exactly those come back when it is returned.
\<close>

locale freeing_allocator = block_allocator inv ok len alloc
  for inv :: "'s \<Rightarrow> nat set \<Rightarrow> bool" and ok len alloc +
  fixes placed :: "ptr \<Rightarrow> u64 \<Rightarrow> bool"
    and dealloc :: "'s dealloc_fn"
  assumes alloc_exact: "inv s F \<Longrightarrow> ok s sz al \<Longrightarrow> alloc s sz al = Some (Inr p, s') \<Longrightarrow>
      inv s' (F - blk len (p, sz)) \<and> placed p sz"
    and dealloc_ok: "inv s F \<Longrightarrow> placed p sz \<Longrightarrow> blk len (p, sz) \<inter> F = {} \<Longrightarrow>
      \<exists>s'. dealloc s p sz = Some s' \<and> inv s' (F \<union> blk len (p, sz)) \<and> ok s' = ok s"
begin

definition client_inv :: "nat set \<Rightarrow> (ptr \<times> u64) list \<times> 's \<Rightarrow> bool" where
  "client_inv F0 c \<longleftrightarrow> (case c of (live, s) \<Rightarrow>
     \<exists>F. inv s F \<and> F \<union> blks len live = F0 \<and> F \<inter> blks len live = {} \<and>
       disjoint_blks len live \<and> (\<forall>(p, sz) \<in> set live. placed p sz))"

definition ok_op :: "'s \<Rightarrow> heap_op \<Rightarrow> bool" where
  "ok_op s op \<longleftrightarrow> (\<forall>sz al. op = Alloc sz al \<longrightarrow> ok s sz al)"

lemma client_inv_init: "inv s F \<Longrightarrow> client_inv F ([], s)"
  by (simp add: client_inv_def)

lemma client_step_inv:
  assumes c: "client_inv F0 (live, s)" and op: "ok_op s op"
  shows "\<exists>live' s'. client_step alloc dealloc (live, s) op = Some (live', s') \<and>
    client_inv F0 (live', s') \<and> ok s' = ok s"
proof -
  from c obtain F where F: "inv s F" "F \<union> blks len live = F0" "F \<inter> blks len live = {}"
    "disjoint_blks len live" "\<forall>(p, sz) \<in> set live. placed p sz"
    by (auto simp: client_inv_def)
  show ?thesis
  proof (cases op)
    case (Alloc sz al)
    then have ok: "ok s sz al" using op by (simp add: ok_op_def)
    obtain r s1 where r: "alloc s sz al = Some (r, s1)" using alloc_total [OF F(1) ok] by auto
    have oks: "ok s1 = ok s" by (rule ok_alloc [OF F(1) ok r])
    show ?thesis
    proof (cases r)
      case (Inl e)
      then have "s1 = s" using alloc_err [OF F(1) ok] r by simp
      then show ?thesis using c r Alloc Inl by simp
    next
      case (Inr p)
      have a: "inv s1 (F - blk len (p, sz))" "placed p sz"
        using alloc_exact [OF F(1) ok r [unfolded Inr]] by auto
      have "blk len (p, sz) \<subseteq> F" using alloc_ok [OF F(1) ok r [unfolded Inr]] by blast
      then have "client_inv F0 ((p, sz) # live, s1)"
        unfolding client_inv_def prod.case
        using F a by (intro exI [of _ "F - blk len (p, sz)"]) (auto simp del: blk.simps)
      then show ?thesis using r Alloc Inr oks by simp
    qed
  next
    case (Free i)
    show ?thesis
    proof (cases "i < length live")
      case True
      obtain p sz where b: "live ! i = (p, sz)" by force
      have live: "live = take i live @ (p, sz) # drop (Suc i) live"
        using id_take_nth_drop [OF True] b by simp
      let ?rest = "take i live @ drop (Suc i) live"
      have "disjoint_blks len (take i live @ (p, sz) # drop (Suc i) live)"
        using F(4) live by metis
      moreover have "blks len live = blks len (take i live @ (p, sz) # drop (Suc i) live)"
        using live by metis
      ultimately have parts: "blks len live = blks len ?rest \<union> blk len (p, sz)"
        "disjoint_blks len ?rest" "blk len (p, sz) \<inter> blks len ?rest = {}"
        by (auto simp del: blk.simps)
      have "(p, sz) \<in> set live" using nth_mem [OF True] b by simp
      then have "placed p sz" "\<forall>(p, sz) \<in> set ?rest. placed p sz"
        using F(5) by (auto dest: in_set_takeD in_set_dropD)
      moreover have "blk len (p, sz) \<inter> F = {}" using F(3) parts by blast
      ultimately obtain s1 where
        s1: "dealloc s p sz = Some s1" "inv s1 (F \<union> blk len (p, sz))" "ok s1 = ok s"
        using dealloc_ok [OF F(1), of p sz] by blast
      have "client_inv F0 (?rest, s1)"
        unfolding client_inv_def prod.case
        using F parts s1(2) \<open>\<forall>(p, sz) \<in> set ?rest. placed p sz\<close>
        by (intro exI [of _ "F \<union> blk len (p, sz)"]) blast
      then show ?thesis using s1 Free True b by simp
    next
      case False
      then show ?thesis using c Free by simp
    qed
  qed
qed

lemma client_run_inv:
  assumes "client_inv F0 (live, s)" "\<forall>op \<in> set ops. ok_op s op"
  shows "\<exists>live' s'. client_run alloc dealloc (live, s) ops = Some (live', s') \<and>
    client_inv F0 (live', s')"
  using assms
proof (induction ops arbitrary: live s)
  case Nil
  then show ?case by simp
next
  case (Cons op ops)
  then obtain live1 s1 where "client_step alloc dealloc (live, s) op = Some (live1, s1)"
    "client_inv F0 (live1, s1)" "ok s1 = ok s"
    using client_step_inv [of F0 live s op] by auto
  then show ?case using Cons by (simp add: ok_op_def)
qed

text \<open>
  No sequence of requests and returns panics; the live blocks are pairwise disjoint, and
  together with the free memory they are always exactly the memory the heap started with.
\<close>

lemma client_safe:
  assumes "inv s F" "\<forall>op \<in> set ops. ok_op s op"
  shows "\<exists>live s'. client_run alloc dealloc ([], s) ops = Some (live, s') \<and>
    disjoint_blks len live \<and> blks len live \<subseteq> F \<and> inv s' (F - blks len live)"
proof -
  from client_run_inv [OF client_inv_init [OF assms(1)] assms(2)] obtain live s' F' where
    r: "client_run alloc dealloc ([], s) ops = Some (live, s')" "inv s' F'" "F' \<union> blks len live = F"
      "F' \<inter> blks len live = {}" "disjoint_blks len live"
    by (auto simp: client_inv_def)
  then have "F' = F - blks len live" "blks len live \<subseteq> F" by auto
  then show ?thesis using r by auto
qed

end

end
