(* ===== verification/Bootmem.thy ===== *)
theory Bootmem
  imports Allocator_Interface
begin

text \<open>
  The boot-time allocator, \<^verbatim>\<open>hyp/mem/allocator_boot/src/bootmem.c\<close>: a bump allocator over the
  part of the private heap that is mapped during early boot. Its state is the static
  \<^verbatim>\<open>bootmem_allocator\<close>; the linker symbols and platform sizes that its initialisation reads
  are arguments of the model.
\<close>

section \<open>State and operations\<close>

record bootmem_allocator_t =
  pool_base :: ptr
  pool_size :: u64
  alloc_offset :: u64

definition allocator_boot_handle_boot_runtime_first_init ::
    "ptr \<Rightarrow> ptr \<Rightarrow> ptr \<Rightarrow> u64 \<Rightarrow> u64 \<Rightarrow> bootmem_allocator_t option" where
  "allocator_boot_handle_boot_runtime_first_init heap_private_start heap_private_end
      image_virt_end PLATFORM_RW_DATA_SIZE PLATFORM_HEAP_PRIVATE_SIZE =
    do {
      c_assert (heap_private_end > heap_private_start);
      let base = heap_private_start;
      let map_end = util_balign_up base 0x200000;
      let hyp_priv_end = (image_virt_end - PLATFORM_RW_DATA_SIZE) + PLATFORM_HEAP_PRIVATE_SIZE;
      let end = util_min map_end hyp_priv_end;
      c_assert (base < end);
      let sz = end - base;
      c_assert (base \<noteq> NULL);
      c_assert (sz \<ge> 0x1000);
      Some \<lparr>pool_base = base, pool_size = sz, alloc_offset = 0\<rparr>
    }"

definition bootmem_allocate ::
    "u64 \<Rightarrow> u64 \<Rightarrow> bootmem_allocator_t \<Rightarrow> (ptr result \<times> bootmem_allocator_t) option" where
  "bootmem_allocate sz align s =
    do {
      c_assert (alloc_offset s \<le> pool_size s);
      let loc = pool_base s;
      c_assert (\<not> util_add_overflows loc (alloc_offset s));
      let loc = loc + alloc_offset s;
      if \<not> util_is_p2_or_zero align then Some (Inl ERROR_ARGUMENT_ALIGNMENT, s)
      else do {
        let loc = (if util_is_p2 align then util_balign_up loc align else loc);
        let free_boot = pool_size s - (loc - pool_base s);
        if sz > free_boot then Some (Inl ERROR_NOMEM, s)
        else Some (Inr loc, s\<lparr>alloc_offset := loc - pool_base s + sz\<rparr>)
      }
    }"

definition bootmem_allocate_remaining ::
    "bootmem_allocator_t \<Rightarrow> ((ptr \<times> u64) result \<times> bootmem_allocator_t) option" where
  "bootmem_allocate_remaining s =
    do {
      c_assert (alloc_offset s \<le> pool_size s);
      let free_boot = pool_size s - alloc_offset s;
      if free_boot = 0 then Some (Inl ERROR_NOMEM, s)
      else do {
        let loc = pool_base s;
        c_assert (\<not> util_add_overflows loc (alloc_offset s));
        let loc = loc + alloc_offset s;
        Some (Inr (loc, free_boot), s\<lparr>alloc_offset := pool_size s\<rparr>)
      }
    }"

definition bootmem_get_region :: "bootmem_allocator_t \<Rightarrow> ptr \<times> u64" where
  "bootmem_get_region s = (pool_base s, pool_size s)"

section \<open>Invariant and address sets\<close>

text \<open>The pool does not wrap around the address space and the offset stays inside it.\<close>

definition bootmem_inv :: "bootmem_allocator_t \<Rightarrow> bool" where
  "bootmem_inv s \<longleftrightarrow> unat (pool_base s) + unat (pool_size s) < 2 ^ 64 \<and>
     alloc_offset s \<le> pool_size s"

definition pool_end :: "bootmem_allocator_t \<Rightarrow> nat" where
  "pool_end s = unat (pool_base s) + unat (pool_size s)"

text \<open>The bytes the pool still has to give out.\<close>

definition bootmem_free :: "bootmem_allocator_t \<Rightarrow> nat set" where
  "bootmem_free s = {unat (pool_base s) + unat (alloc_offset s) ..< pool_end s}"

abbreviation block :: "ptr \<Rightarrow> u64 \<Rightarrow> nat set" where
  "block p n \<equiv> {unat p ..< unat p + unat n}"

text \<open>The location a request is served from: the next free byte, rounded up.\<close>

definition bootmem_loc :: "bootmem_allocator_t \<Rightarrow> u64 \<Rightarrow> nat" where
  "bootmem_loc s align =
     (let p = unat (pool_base s) + unat (alloc_offset s)
      in if align = 0 then p else align_up_nat p (unat align))"

text \<open>
  An alignment suits the pool when it is zero (no constraint) or a power of two that
  divides the end of the pool: then rounding up never leaves the pool.
\<close>

definition suits_pool :: "bootmem_allocator_t \<Rightarrow> u64 \<Rightarrow> bool" where
  "suits_pool s align \<longleftrightarrow> align = 0 \<or> (util_is_p2 align \<and> unat align dvd pool_end s)"

lemma bootmem_loc_bounds:
  assumes "bootmem_inv s" and "suits_pool s align"
  shows "unat (pool_base s) + unat (alloc_offset s) \<le> bootmem_loc s align"
    and "bootmem_loc s align \<le> pool_end s"
proof -
  have le: "unat (pool_base s) + unat (alloc_offset s) \<le> pool_end s"
    using assms(1) by (simp add: bootmem_inv_def pool_end_def word_le_nat_alt)
  show "unat (pool_base s) + unat (alloc_offset s) \<le> bootmem_loc s align"
    using assms(2)
    by (auto simp: bootmem_loc_def suits_pool_def Let_def
        intro!: align_up_nat_bounds(1) util_is_p2_pos)
  show "bootmem_loc s align \<le> pool_end s"
    using assms(2) le
    by (auto simp: bootmem_loc_def suits_pool_def Let_def
        intro!: align_up_nat_least util_is_p2_pos)
qed

lemma align_no_wrap:
  assumes "util_is_p2 (a::u64)" "unat a dvd e" "p \<le> e" "e < 2 ^ 64"
  shows "p + unat a \<le> 2 ^ 64"
proof -
  from util_is_p2_ex [OF assms(1)] obtain k where k: "k < 64" "a = 2 ^ k" by auto
  have "(2::nat) ^ k dvd 2 ^ 64" by (rule le_imp_power_dvd) (use k in simp)
  then have "unat a dvd 2 ^ 64" using k by simp
  with assms(2) have "unat a dvd 2 ^ 64 - e" by (rule dvd_diff_nat [rotated])
  moreover have "0 < 2 ^ 64 - e" using assms(4) by simp
  ultimately have "unat a \<le> 2 ^ 64 - e" by (rule dvd_imp_le)
  then show ?thesis using assms(3,4) by linarith
qed

lemma bootmem_next_nat:
  assumes "bootmem_inv s"
  shows "unat (pool_base s + alloc_offset s) = unat (pool_base s) + unat (alloc_offset s)"
  using assms by (subst unat_add_no_overflow) (auto simp: bootmem_inv_def word_le_nat_alt)

lemma bootmem_aligned_loc:
  assumes "bootmem_inv s" and "suits_pool s align"
  defines "loc \<equiv> pool_base s + alloc_offset s"
  shows "unat (if util_is_p2 align then util_balign_up loc align else loc) = bootmem_loc s align"
proof (cases "align = 0")
  case True
  then show ?thesis
    using bootmem_next_nat [OF assms(1)]
    by (simp add: loc_def bootmem_loc_def util_is_p2_def)
next
  case False
  then have p2: "util_is_p2 align" and dv: "unat align dvd pool_end s"
    using assms(2) by (auto simp: suits_pool_def)
  have le: "unat loc \<le> pool_end s"
    using assms(1) bootmem_next_nat [OF assms(1)]
    by (simp add: loc_def bootmem_inv_def pool_end_def word_le_nat_alt)
  have "unat loc + unat align \<le> 2 ^ 64"
    using align_no_wrap [OF p2 dv le] assms(1) by (simp add: bootmem_inv_def pool_end_def)
  then have "unat (util_balign_up loc align) = align_up_nat (unat loc) (unat align)"
    using unat_balign_up_align [OF p2] by simp
  then show ?thesis
    using p2 False bootmem_next_nat [OF assms(1)] by (simp add: loc_def bootmem_loc_def Let_def)
qed

text \<open>The whole behaviour of \<^const>\<open>bootmem_allocate\<close> for alignments that suit the pool.\<close>

lemma bootmem_allocate_cases:
  assumes "bootmem_inv s" and "suits_pool s align"
  shows "if bootmem_loc s align + unat sz \<le> pool_end s
    then (\<exists>loc. bootmem_allocate sz align s =
           Some (Inr loc, s\<lparr>alloc_offset := loc - pool_base s + sz\<rparr>) \<and>
           unat loc = bootmem_loc s align \<and>
           unat (loc - pool_base s + sz) = bootmem_loc s align + unat sz - unat (pool_base s))
    else bootmem_allocate sz align s = Some (Inl ERROR_NOMEM, s)"
proof -
  let ?loc0 = "pool_base s + alloc_offset s"
  let ?loc = "if util_is_p2 align then util_balign_up ?loc0 align else ?loc0"
  have loc: "unat ?loc = bootmem_loc s align" by (rule bootmem_aligned_loc [OF assms])
  note b = bootmem_loc_bounds [OF assms]
  have inv: "unat (pool_base s) + unat (pool_size s) < 2 ^ 64" "alloc_offset s \<le> pool_size s"
    using assms(1) by (auto simp: bootmem_inv_def)
  have no: "\<not> util_add_overflows (pool_base s) (alloc_offset s)"
    using inv by (simp add: util_add_overflows_iff word_le_nat_alt)
  have p2z: "util_is_p2_or_zero align"
    using assms(2) by (auto simp: suits_pool_def util_is_p2_def util_is_p2_or_zero_def)
  have off: "unat (?loc - pool_base s) = bootmem_loc s align - unat (pool_base s)"
    using loc b by (subst unat_diff_le) simp_all
  have free: "unat (pool_size s - (?loc - pool_base s)) = pool_end s - bootmem_loc s align"
    using off b by (subst unat_diff_le) (auto simp: pool_end_def)
  have fits: "sz > pool_size s - (?loc - pool_base s) \<longleftrightarrow> \<not> bootmem_loc s align + unat sz \<le> pool_end s"
    using free b by (simp add: word_less_nat_alt) linarith
  have "bootmem_loc s align + unat sz \<le> pool_end s \<Longrightarrow>
      unat (?loc - pool_base s + sz) = bootmem_loc s align + unat sz - unat (pool_base s)"
    using off b inv by (subst unat_add_no_overflow) (auto simp: pool_end_def)
  then show ?thesis
    using no p2z fits inv(2) loc by (auto simp: bootmem_allocate_def Let_def simp del: not_less)
qed


lemma bootmem_allocate_OK:
  assumes inv: "bootmem_inv s" "suits_pool s align" and r: "bootmem_allocate sz align s = Some (Inr p, s')"
  shows "unat p = bootmem_loc s align" "block p sz \<subseteq> bootmem_free s" "bootmem_inv s'"
    "bootmem_free s' \<subseteq> bootmem_free s - block p sz" "suits_pool s' = suits_pool s"
    "pool_end s' = pool_end s"
proof -
  note c = bootmem_allocate_cases [OF inv, of sz]
  note b = bootmem_loc_bounds [OF inv]
  have fits: "bootmem_loc s align + unat sz \<le> pool_end s" using c r by (auto split: if_splits)
  then have loc: "unat p = bootmem_loc s align"
    and s': "s' = s\<lparr>alloc_offset := p - pool_base s + sz\<rparr>"
    and off: "unat (p - pool_base s + sz) = bootmem_loc s align + unat sz - unat (pool_base s)"
    using c r by auto
  show "unat p = bootmem_loc s align" by (rule loc)
  show "block p sz \<subseteq> bootmem_free s" using loc b fits by (auto simp: bootmem_free_def)
  show "pool_end s' = pool_end s" by (simp add: s' pool_end_def)
  show "bootmem_inv s'"
    using inv(1) off fits b by (auto simp: bootmem_inv_def s' word_le_nat_alt pool_end_def)
  show "suits_pool s' = suits_pool s" by (auto simp: suits_pool_def s' pool_end_def)
  show "bootmem_free s' \<subseteq> bootmem_free s - block p sz"
    using off b loc by (auto simp: bootmem_free_def s' pool_end_def)
qed

lemma bootmem_allocate_err:
  "bootmem_inv s \<Longrightarrow> suits_pool s align \<Longrightarrow> bootmem_allocate sz align s = Some (Inl e, s') \<Longrightarrow>
    e = ERROR_NOMEM \<and> s' = s"
  using bootmem_allocate_cases [of s align sz] by (auto split: if_splits)

interpretation bootmem: block_allocator "\<lambda>s F. bootmem_inv s \<and> F = bootmem_free s"
  "\<lambda>s sz align. suits_pool s align" unat "\<lambda>s sz align. bootmem_allocate sz align s"
proof
  fix s F sz al
  assume inv: "bootmem_inv s \<and> F = bootmem_free s" and ok: "suits_pool s al"
  show "bootmem_allocate sz al s \<noteq> None"
    using bootmem_allocate_cases [of s al sz] inv ok by (auto split: if_splits)
  fix p s' assume r: "bootmem_allocate sz al s = Some (Inr p, s')"
  show "\<exists>F'. (bootmem_inv s' \<and> F' = bootmem_free s') \<and> blk unat (p, sz) \<subseteq> F \<and> F' \<subseteq> F - blk unat (p, sz)"
    using bootmem_allocate_OK [OF _ ok r] inv by simp
next
  fix s F sz al e s'
  assume "bootmem_inv s \<and> F = bootmem_free s" "suits_pool s al" "bootmem_allocate sz al s = Some (Inl e, s')"
  then show "s' = s" using bootmem_allocate_err by blast
next
  fix s F sz al r s'
  assume a: "bootmem_inv s \<and> F = bootmem_free s" "suits_pool s al" "bootmem_allocate sz al s = Some (r, s')"
  show "(\<lambda>sz. suits_pool s') = (\<lambda>sz::u64. suits_pool s)"
  proof (cases r)
    case (Inl e)
    then show ?thesis using a bootmem_allocate_err by blast
  next
    case (Inr p)
    then show ?thesis using a bootmem_allocate_OK(5) by blast
  qed
qed

section \<open>Properties\<close>

definition boot_pool :: bootmem_allocator_t where
  "boot_pool = \<lparr>pool_base = 0x80010000, pool_size = 0x10000, alloc_offset = 0x28\<rparr>"

lemma boot_pool_ok: "bootmem_inv boot_pool" "suits_pool boot_pool 0x40" "suits_pool boot_pool 0"
  by (simp_all add: boot_pool_def bootmem_inv_def suits_pool_def pool_end_def util_is_p2_def
      util_is_p2_or_zero_def)

text \<open>
  C25. A boot-time request with an alignment that suits the pool is served if and only if the
  pool still holds that many bytes behind the next aligned location; it then returns that
  location, the block was free and is not free afterwards, and the pool invariant is kept. A
  request that is not served returns \<^verbatim>\<open>ERROR_NOMEM\<close> and changes nothing.
\<close>

theorem bootmem_allocate_exact:
  assumes "bootmem_inv s" and "suits_pool s align"
  shows "if bootmem_loc s align + unat sz \<le> pool_end s
    then \<exists>p s'. bootmem_allocate sz align s = Some (Inr p, s') \<and> unat p = bootmem_loc s align \<and>
      {unat p ..< unat p + unat sz} \<subseteq> bootmem_free s \<and>
      bootmem_free s' = {unat p + unat sz ..< pool_end s} \<and> bootmem_inv s'
    else bootmem_allocate sz align s = Some (Inl ERROR_NOMEM, s)"
proof -
  note c = bootmem_allocate_cases [OF assms, of sz]
  show ?thesis
  proof (cases "bootmem_loc s align + unat sz \<le> pool_end s")
    case True
    then obtain p where p: "bootmem_allocate sz align s =
        Some (Inr p, s\<lparr>alloc_offset := p - pool_base s + sz\<rparr>)"
      and off: "unat (p - pool_base s + sz) = bootmem_loc s align + unat sz - unat (pool_base s)"
      using c by auto
    note ok = bootmem_allocate_OK [OF assms p]
    have "bootmem_free (s\<lparr>alloc_offset := p - pool_base s + sz\<rparr>) = {unat p + unat sz ..< pool_end s}"
      using off bootmem_loc_bounds [OF assms] ok(1) by (auto simp: bootmem_free_def pool_end_def)
    then show ?thesis using p ok True by auto
  next
    case False
    then show ?thesis using c by simp
  qed
qed

theorem bootmem_allocate_exact_witness:
  "\<exists>s'. bootmem_allocate 100 0x40 boot_pool = Some (Inr 0x80010040, s') \<and> bootmem_inv s'"
proof -
  have "bootmem_loc boot_pool 0x40 = 0x80010040" "pool_end boot_pool = 0x80020000"
    by (simp_all add: bootmem_loc_def boot_pool_def align_up_nat_def pool_end_def)
  then show ?thesis
    using bootmem_allocate_exact [OF boot_pool_ok(1,2), of 100] by (auto simp: word_unat_eq_iff)
qed

text \<open>
  C26. Whatever sequence of boot-time requests is made whose alignments suit the pool (each is zero, or a
  power of two that divides the end of the pool), every one is answered and the blocks handed out
  are pairwise disjoint and lie in the memory that was free at the start.
\<close>

theorem bootmem_blocks_disjoint:
  assumes "bootmem_inv s" and "\<forall>op \<in> set ops. no_free op"
    and "\<forall>sz al. Alloc sz al \<in> set ops \<longrightarrow> suits_pool s al"
  shows "\<exists>live s'. client_run (\<lambda>s sz al. bootmem_allocate sz al s) dealloc ([], s) ops = Some (live, s') \<and>
    bootmem_inv s' \<and> disjoint_blks unat live \<and> blks unat live \<subseteq> bootmem_free s \<and>
    blks unat live \<inter> bootmem_free s' = {}"
  using bootmem.requests_disjoint [of s "bootmem_free s" ops "[]" dealloc] assms by fastforce

theorem bootmem_blocks_disjoint_witness:
  "\<exists>live s'. client_run (\<lambda>s sz al. bootmem_allocate sz al s) (\<lambda>s _ _. Some s) ([], boot_pool)
      [Alloc 100 0x40, Alloc 8 0, Alloc 0x800 0x40] = Some (live, s') \<and>
    bootmem_inv s' \<and> disjoint_blks unat live \<and> blks unat live \<subseteq> bootmem_free boot_pool \<and>
    blks unat live \<inter> bootmem_free s' = {}"
  by (rule bootmem_blocks_disjoint) (auto simp: boot_pool_ok)

text \<open>
  C27. An alignment larger than what the pool end allows is not checked against the pool: when
  the aligned location lies behind the end of the pool, the remaining size wraps around and
  the request succeeds with a block outside the pool.
\<close>

theorem bootmem_allocate_escapes:
  assumes "bootmem_inv s" and "util_is_p2 align"
    and "pool_end s < align_up_nat (unat (pool_base s) + unat (alloc_offset s)) (unat align)"
    and "unat (pool_base s) + unat (alloc_offset s) + unat align \<le> 2 ^ 64"
    and "unat sz \<le> pool_end s"
  shows "\<exists>p s'. bootmem_allocate sz align s = Some (Inr p, s') \<and> pool_end s < unat p"
proof -
  let ?l = "pool_base s + alloc_offset s"
  let ?p = "util_balign_up ?l align"
  have l: "unat ?l = unat (pool_base s) + unat (alloc_offset s)" by (rule bootmem_next_nat [OF assms(1)])
  then have p: "unat ?p = align_up_nat (unat (pool_base s) + unat (alloc_offset s)) (unat align)"
    using unat_balign_up_align [OF assms(2), of ?l] assms(4) by simp
  have inv: "unat (pool_base s) + unat (pool_size s) < 2 ^ 64" "alloc_offset s \<le> pool_size s"
    using assms(1) by (auto simp: bootmem_inv_def)
  have no: "\<not> util_add_overflows (pool_base s) (alloc_offset s)"
    using inv by (simp add: util_add_overflows_iff word_le_nat_alt)
  have d: "unat (?p - pool_base s) = unat ?p - unat (pool_base s)"
    using p assms(3) by (subst unat_diff_le) (simp_all add: pool_end_def)
  then have gt: "unat (pool_size s) < unat (?p - pool_base s)"
    using p assms(3) by (simp add: pool_end_def)
  have "unat (pool_size s - (?p - pool_base s)) = 2 ^ 64 + unat (pool_size s) - unat (?p - pool_base s)"
    using gt by (simp add: unat_sub_if')
  moreover have "unat (pool_base s) \<le> unat ?p" using p assms(3) by (simp add: pool_end_def)
  moreover have "unat ?p < 2 ^ 64" using unat_lt [of ?p] by simp
  ultimately have "unat sz \<le> unat (pool_size s - (?p - pool_base s))"
    using assms(5) d unfolding pool_end_def by linarith
  then have "\<not> sz > pool_size s - (?p - pool_base s)" by (simp add: word_less_nat_alt)
  then have "bootmem_allocate sz align s = Some (Inr ?p, s\<lparr>alloc_offset := ?p - pool_base s + sz\<rparr>)"
    using inv(2) no assms(2) by (simp add: bootmem_allocate_def Let_def util_is_p2_def util_is_p2_or_zero_def)
  then show ?thesis using p assms(3) by auto
qed

theorem bootmem_allocate_escapes_witness:
  "\<exists>p s'. bootmem_allocate 0x1000 0x100000 boot_pool = Some (Inr p, s') \<and> 0x80020000 < unat p"
  using bootmem_allocate_escapes [of boot_pool "0x100000" "0x1000"]
  by (simp add: boot_pool_ok boot_pool_def pool_end_def align_up_nat_def util_is_p2_def
      util_is_p2_or_zero_def bootmem_inv_def)

text \<open>
  What is left of the boot pool is handed over once: the rest of the pool is returned as one
  block that is exactly the free memory, after which nothing is free and a second call
  fails with \<^verbatim>\<open>ERROR_NOMEM\<close>.
\<close>

theorem bootmem_remaining_once:
  assumes "bootmem_inv s" and "alloc_offset s < pool_size s"
  shows "\<exists>p n s'. bootmem_allocate_remaining s = Some (Inr (p, n), s') \<and>
    {unat p ..< unat p + unat n} = bootmem_free s \<and> bootmem_inv s' \<and> bootmem_free s' = {} \<and>
    bootmem_allocate_remaining s' = Some (Inl ERROR_NOMEM, s')"
proof -
  have inv: "unat (pool_base s) + unat (pool_size s) < 2 ^ 64" "alloc_offset s \<le> pool_size s"
    using assms(1) by (auto simp: bootmem_inv_def)
  have no: "\<not> util_add_overflows (pool_base s) (alloc_offset s)"
    using inv by (simp add: util_add_overflows_iff word_le_nat_alt)
  have n: "unat (pool_size s - alloc_offset s) = unat (pool_size s) - unat (alloc_offset s)"
    using inv(2) by (simp add: unat_diff_le word_le_nat_alt)
  have nz: "pool_size s - alloc_offset s \<noteq> 0" using assms(2) by auto
  let ?s' = "s\<lparr>alloc_offset := pool_size s\<rparr>"
  have r: "bootmem_allocate_remaining s =
      Some (Inr (pool_base s + alloc_offset s, pool_size s - alloc_offset s), ?s')"
    using inv(2) no nz by (simp add: bootmem_allocate_remaining_def Let_def)
  have "bootmem_allocate_remaining ?s' = Some (Inl ERROR_NOMEM, ?s')"
    by (simp add: bootmem_allocate_remaining_def Let_def)
  moreover have "bootmem_inv ?s'" "bootmem_free ?s' = {}"
    using inv by (simp_all add: bootmem_inv_def bootmem_free_def pool_end_def)
  moreover have "{unat (pool_base s + alloc_offset s) ..<
      unat (pool_base s + alloc_offset s) + unat (pool_size s - alloc_offset s)} = bootmem_free s"
    using n inv(2) bootmem_next_nat [OF assms(1)]
    by (simp add: bootmem_free_def pool_end_def word_le_nat_alt)
  ultimately show ?thesis using r by blast
qed

theorem bootmem_remaining_once_witness:
  "\<exists>p n s'. bootmem_allocate_remaining boot_pool = Some (Inr (p, n), s') \<and> bootmem_free s' = {}"
  using bootmem_remaining_once [OF boot_pool_ok(1)] by (auto simp: boot_pool_def)

end
