(* ===== verification/Freelist.thy ===== *)
theory Freelist
  imports Gunyah_Prelude
begin

text \<open>
  The hypervisor heap, \<^verbatim>\<open>hyp/mem/allocator_list/src/freelist.c\<close>: a first-fit allocator whose
  free blocks form an address-ordered singly linked list that is stored in the free
  memory itself.

  The memory that holds the list nodes is an explicit store, a function from the address
  of a node to its two fields; a node is \<^verbatim>\<open>NODE_HEADER_SIZE\<close> = 16 bytes long and every node
  the code creates is 16-byte aligned, so distinct nodes never share bytes. Functions that
  take \<^verbatim>\<open>allocator_node_t **head\<close> return the new value of \<^verbatim>\<open>*head\<close>. Each operation runs with
  \<^verbatim>\<open>allocator->lock\<close> held, so operations are atomic here. The configuration is the default
  one: neither \<^verbatim>\<open>ALLOCATOR_DEBUG\<close> nor the separate S2PT and TZFFI heaps are enabled.
\<close>

section \<open>Data\<close>

record allocator_node =
  an_size :: u64
  an_next :: ptr

type_synonym node_mem = "ptr \<Rightarrow> allocator_node"

record allocator_list =
  heap :: ptr
  total_size :: u64
  alloc_size :: u64

definition MAX_ALLOC_SIZE :: u64 where
  "MAX_ALLOC_SIZE = 256 * 1024 * 1024"

definition MAX_ALIGNMENT_SIZE :: u64 where
  "MAX_ALIGNMENT_SIZE = 16 * 1024 * 1024"

abbreviation NODE_HEADER_SIZE :: u64 where
  "NODE_HEADER_SIZE \<equiv> 16"

abbreviation HEAP_MIN_ALLOC :: u64 where
  "HEAP_MIN_ALLOC \<equiv> NODE_HEADER_SIZE"

abbreviation HEAP_MIN_ALIGN :: u64 where
  "HEAP_MIN_ALIGN \<equiv> NODE_HEADER_SIZE"

section \<open>Adding memory to the heap\<close>

text \<open>The \<^verbatim>\<open>while\<close> loop of \<^verbatim>\<open>list_add\<close>.\<close>

partial_function (option) list_add_seek ::
    "node_mem \<Rightarrow> ptr \<Rightarrow> ptr \<Rightarrow> ptr \<Rightarrow> (ptr \<times> ptr) option" where
  [code]: "list_add_seek m node previous current =
    (if current \<noteq> NULL \<and> node \<ge> current
     then list_add_seek m node current (an_next (m current))
     else Some (previous, current))"

text \<open>
  Two of the comparisons of the source are made on \<^verbatim>\<open>allocator_node_t *\<close> pointers before
  any cast: there \<^verbatim>\<open>node + size\<close> advances by \<^verbatim>\<open>size\<close> nodes, that is by \<open>sz * 16\<close> bytes.
\<close>

definition list_add ::
    "node_mem \<Rightarrow> ptr \<Rightarrow> ptr \<Rightarrow> u64 \<Rightarrow> (error_t \<times> node_mem \<times> ptr) option" where
  "list_add m head node sz =
    (if head = NULL then
       Some (OK, m(node := \<lparr>an_size = sz, an_next = NULL\<rparr>), node)
     else if node + sz < head then
       Some (OK, m(node := \<lparr>an_size = sz, an_next = head\<rparr>), node)
     else if node + sz = head then
       Some (OK, m(node := \<lparr>an_size = sz + an_size (m head), an_next = an_next (m head)\<rparr>), node)
     else do {
       (previous, current) \<leftarrow> list_add_seek m node head (an_next (m head));
       if current \<noteq> NULL then
         if previous + an_size (m previous) = node then
           if node + sz * NODE_HEADER_SIZE < current then
             Some (OK, m(previous := (m previous)\<lparr>an_size := an_size (m previous) + sz\<rparr>), head)
           else if node + sz = current then
             Some (OK, m(previous :=
               \<lparr>an_size = an_size (m previous) + (sz + an_size (m current)),
                an_next = an_next (m current)\<rparr>), head)
           else Some (ERROR_ALLOCATOR_RANGE_OVERLAPPING, m, head)
         else if previous + an_size (m previous) < node then
           if node + sz < current then
             Some (OK, (m(node := \<lparr>an_size = sz, an_next = current\<rparr>))
               (previous := \<lparr>an_size = an_size (m previous), an_next = node\<rparr>), head)
           else if node + sz * NODE_HEADER_SIZE = current then
             Some (OK, (m(node := \<lparr>an_size = sz + an_size (m current),
                 an_next = an_next (m current)\<rparr>))
               (previous := \<lparr>an_size = an_size (m previous), an_next = node\<rparr>), head)
           else Some (ERROR_ALLOCATOR_RANGE_OVERLAPPING, m, head)
         else Some (ERROR_ALLOCATOR_RANGE_OVERLAPPING, m, head)
       else
         if previous + an_size (m previous) = node then
           Some (OK, m(previous := (m previous)\<lparr>an_size := an_size (m previous) + sz\<rparr>), head)
         else if previous + an_size (m previous) < node then
           Some (OK, (m(node := \<lparr>an_size = sz, an_next = NULL\<rparr>))
             (previous := \<lparr>an_size = an_size (m previous), an_next = node\<rparr>), head)
         else Some (ERROR_ALLOCATOR_RANGE_OVERLAPPING, m, head)
     })"

definition freelist_heap_add_memory ::
    "node_mem \<Rightarrow> allocator_list \<Rightarrow> ptr \<Rightarrow> u64 \<Rightarrow> (error_t \<times> node_mem \<times> allocator_list) option" where
  "freelist_heap_add_memory m allocator addr sz =
    do {
      c_assert (addr \<noteq> 0);
      if util_add_overflows addr sz then Some (ERROR_ADDR_OVERFLOW, m, allocator)
      else if sz < NODE_HEADER_SIZE then Some (ERROR_ARGUMENT_SIZE, m, allocator)
      else do {
        let block_addr = util_balign_up addr NODE_HEADER_SIZE;
        let block_size = sz - (block_addr - addr);
        let block_size = util_balign_down block_size NODE_HEADER_SIZE;
        if block_size < NODE_HEADER_SIZE + HEAP_MIN_ALLOC
        then Some (ERROR_ARGUMENT_SIZE, m, allocator)
        else do {
          (ret, m', head') \<leftarrow> list_add m (heap allocator) block_addr block_size;
          let allocator' = allocator\<lparr>heap := head'\<rparr>;
          Some (ret, m',
            if ret = OK then allocator'\<lparr>total_size := total_size allocator' + block_size\<rparr>
            else allocator')
        }
      }
    }"

section \<open>Allocation\<close>

definition allocate_from_node ::
    "node_mem \<Rightarrow> ptr \<Rightarrow> ptr \<Rightarrow> ptr \<Rightarrow> u64 \<Rightarrow> u64 \<Rightarrow> (ptr result \<times> node_mem \<times> ptr) option" where
  "allocate_from_node m head previous current alloc_sz alloc_alignment =
    do {
      c_assert (current \<noteq> NULL);
      c_assert (util_is_p2 alloc_alignment);
      c_assert (alloc_sz \<ge> NODE_HEADER_SIZE);
      c_assert (alloc_sz mod NODE_HEADER_SIZE = 0);
      let node_start = current;
      let node_end = current + an_size (m current);
      let aligned_alloc_start = util_balign_up node_start alloc_alignment;
      let aligned_alloc_end = aligned_alloc_start + alloc_sz;
      if util_add_overflows aligned_alloc_start alloc_sz then
        Some (Inl ERROR_ADDR_OVERFLOW, m, head)
      else if aligned_alloc_end > node_end \<or> aligned_alloc_start > node_end then
        Some (Inl ERROR_NOMEM, m, head)
      else
        Some (Inr aligned_alloc_start,
          (if node_end = aligned_alloc_end then
             if node_start = aligned_alloc_start then
               if previous \<noteq> NULL
               then (m(previous := (m previous)\<lparr>an_next := an_next (m current)\<rparr>), head)
               else (m, an_next (m current))
             else (m(current := (m current)\<lparr>an_size := an_size (m current) - alloc_sz\<rparr>), head)
           else
             if node_start = aligned_alloc_start then
               (let nxt = aligned_alloc_end;
                    m' = m(nxt := \<lparr>an_size = an_size (m current) - alloc_sz,
                                   an_next = an_next (m current)\<rparr>)
                in if previous \<noteq> NULL
                   then (m'(previous := (m' previous)\<lparr>an_next := nxt\<rparr>), head)
                   else (m', nxt))
             else
               (let nxt = aligned_alloc_end;
                    m' = m(nxt := \<lparr>an_size = node_end - aligned_alloc_end,
                                   an_next = an_next (m current)\<rparr>)
                in (m'(current := \<lparr>an_size = aligned_alloc_start - node_start,
                                   an_next = nxt\<rparr>), head))))
    }"

text \<open>The \<^verbatim>\<open>while\<close> loop of \<^verbatim>\<open>allocate_block\<close>.\<close>

partial_function (option) allocate_block_loop ::
    "node_mem \<Rightarrow> ptr \<Rightarrow> ptr \<Rightarrow> ptr \<Rightarrow> u64 \<Rightarrow> u64 \<Rightarrow> (ptr result \<times> node_mem \<times> ptr) option" where
  [code]: "allocate_block_loop m head previous current sz alignment =
    (if current \<noteq> NULL then
       Option.bind (allocate_from_node m head previous current sz alignment)
         (\<lambda>(result, m', head').
            if result_e result = OK then Some (result, m', head')
            else allocate_block_loop m' head' current (an_next (m' current)) sz alignment)
     else Some (Inl ERROR_NOMEM, m, head))"

definition allocate_block ::
    "node_mem \<Rightarrow> ptr \<Rightarrow> u64 \<Rightarrow> u64 \<Rightarrow> (ptr result \<times> node_mem \<times> ptr) option" where
  "allocate_block m head sz alignment =
    do {
      c_assert (head \<noteq> NULL);
      c_assert (sz mod NODE_HEADER_SIZE = 0);
      c_assert (sz > 0);
      c_assert (util_is_p2 alignment);
      c_assert (alignment \<ge> 8);
      allocate_block_loop m head NULL head sz alignment
    }"

definition freelist_allocate_object ::
    "node_mem \<Rightarrow> allocator_list \<Rightarrow> u64 \<Rightarrow> u64 \<Rightarrow> (ptr result \<times> node_mem \<times> allocator_list) option" where
  "freelist_allocate_object m allocator sz min_alignment =
    (let alignment = util_max min_alignment 8 in
     if heap allocator = NULL then Some (Inl ERROR_NOMEM, m, allocator)
     else do {
       c_assert (sz > 0);
       c_assert (alignment > 0);
       c_assert (alignment AND (alignment - 1) = 0);
       c_assert (alignment \<ge> 8);
       if sz > MAX_ALLOC_SIZE \<or> alignment > MAX_ALIGNMENT_SIZE
       then Some (Inl ERROR_ARGUMENT_INVALID, m, allocator)
       else do {
         let alloc_sz = util_balign_up sz HEAP_MIN_ALLOC;
         let alignment = (if alignment < HEAP_MIN_ALIGN then HEAP_MIN_ALIGN else alignment);
         (ret, m', head') \<leftarrow> allocate_block m (heap allocator) alloc_sz alignment;
         let allocator' = allocator\<lparr>heap := head'\<rparr>;
         if result_e ret \<noteq> OK then Some (ret, m', allocator')
         else Some (ret, m', allocator'\<lparr>alloc_size := alloc_size allocator' + alloc_sz\<rparr>)
       }
     })"

section \<open>Removing memory from the heap\<close>

definition list_remove :: "node_mem \<Rightarrow> ptr \<Rightarrow> ptr \<Rightarrow> ptr \<Rightarrow> node_mem \<times> ptr" where
  "list_remove m head remove_ptr previous =
    (if previous = NULL then (m, an_next (m remove_ptr))
     else (m(previous := (m previous)\<lparr>an_next := an_next (m remove_ptr)\<rparr>), head))"

text \<open>The \<^verbatim>\<open>while\<close> loop of \<^verbatim>\<open>freelist_heap_remove_memory\<close>, with the assertion in its body.\<close>

partial_function (option) remove_seek ::
    "node_mem \<Rightarrow> ptr \<Rightarrow> ptr \<Rightarrow> ptr \<Rightarrow> (ptr \<times> ptr) option" where
  [code]: "remove_seek m addr previous current =
    (if addr > current \<and> current \<noteq> NULL then
       Option.bind (c_assert (previous < addr))
         (\<lambda>_. remove_seek m addr current (an_next (m current)))
     else Some (previous, current))"

definition freelist_heap_remove_memory ::
    "node_mem \<Rightarrow> allocator_list \<Rightarrow> ptr \<Rightarrow> u64 \<Rightarrow> (error_t \<times> node_mem \<times> allocator_list) option" where
  "freelist_heap_remove_memory m allocator addr sz =
    do {
      c_assert (addr \<noteq> 0);
      c_assert (heap allocator \<noteq> NULL);
      if sz < HEAP_MIN_ALLOC then Some (ERROR_ARGUMENT_SIZE, m, allocator)
      else if \<not> util_is_baligned sz NODE_HEADER_SIZE
      then Some (ERROR_ARGUMENT_ALIGNMENT, m, allocator)
      else do {
        (previous, current) \<leftarrow> remove_seek m addr NULL (heap allocator);
        c_assert (\<not> util_add_overflows addr sz);
        let aligned_alloc_end = addr + sz;
        c_assert (addr \<le> current \<or> current = 0);
        c_assert (addr > previous);
        let inuse = Some (ERROR_ALLOCATOR_MEM_INUSE, m, allocator);
        let done = (\<lambda>m' head'. Some (OK, m',
              allocator\<lparr>heap := head', total_size := total_size allocator - sz\<rparr>));
        if current = addr then
          if current + an_size (m current) < aligned_alloc_end then inuse
          else if current + an_size (m current) = aligned_alloc_end then
            (case list_remove m (heap allocator) current previous of (m', head') \<Rightarrow> done m' head')
          else
            (let new = aligned_alloc_end;
                 m1 = m(new := \<lparr>an_size = an_size (m current) - sz, an_next = an_next (m current)\<rparr>);
                 m2 = m1(current := \<lparr>an_size = sz, an_next = new\<rparr>)
             in case list_remove m2 (heap allocator) current previous of (m', head') \<Rightarrow> done m' head')
        else if previous \<noteq> NULL then
          if previous + an_size (m previous) < aligned_alloc_end then inuse
          else if previous + an_size (m previous) = aligned_alloc_end then
            done (m(previous := (m previous)\<lparr>an_size := an_size (m previous) - sz\<rparr>))
              (heap allocator)
          else
            (let new = aligned_alloc_end;
                 m1 = m(new := \<lparr>an_size = previous + an_size (m previous) - aligned_alloc_end,
                                an_next = current\<rparr>);
                 m2 = m1(previous := \<lparr>an_size = addr - previous, an_next = new\<rparr>)
             in done m2 (heap allocator))
        else inuse
      }
    }"

section \<open>Deallocation\<close>

text \<open>The \<^verbatim>\<open>while\<close> loop of \<^verbatim>\<open>deallocate_block\<close>, with the assertion in its body.\<close>

partial_function (option) deallocate_seek ::
    "node_mem \<Rightarrow> ptr \<Rightarrow> ptr \<Rightarrow> ptr \<Rightarrow> (ptr \<times> ptr) option" where
  [code]: "deallocate_seek m object previous nxt =
    (if object > nxt \<and> nxt \<noteq> NULL then
       Option.bind (c_assert (previous < nxt))
         (\<lambda>_. deallocate_seek m object nxt (an_next (m nxt)))
     else Some (previous, nxt))"

text \<open>
  The last step of all three branches of \<^verbatim>\<open>deallocate_block\<close>: the freed node absorbs the
  node after it when the two are adjacent.
\<close>

definition connect_next :: "node_mem \<Rightarrow> ptr \<Rightarrow> ptr \<Rightarrow> node_mem" where
  "connect_next m freed_node nxt =
    (if nxt \<noteq> NULL \<and> freed_node + an_size (m freed_node) = nxt
     then m(freed_node := \<lparr>an_size = an_size (m freed_node) + an_size (m nxt),
                           an_next = an_next (m nxt)\<rparr>)
     else m)"

definition deallocate_block ::
    "node_mem \<Rightarrow> ptr \<Rightarrow> ptr \<Rightarrow> u64 \<Rightarrow> (node_mem \<times> ptr) option" where
  "deallocate_block m head object sz =
    do {
      c_assert (object \<noteq> NULL);
      c_assert (sz \<ge> NODE_HEADER_SIZE);
      c_assert (sz mod NODE_HEADER_SIZE = 0);
      if head = NULL then Some (m(object := \<lparr>an_size = sz, an_next = NULL\<rparr>), object)
      else do {
        (previous, nxt) \<leftarrow> deallocate_seek m object head (an_next (m head));
        let previous_location = (if previous \<noteq> NULL then previous else NOT 0);
        c_assert (object \<le> nxt \<or> nxt = 0);
        if previous \<noteq> NULL \<and> previous_location + an_size (m previous) = object then
          do {
            c_assert (\<not> util_add_overflows (an_size (m previous)) sz);
            let m1 = m(previous := (m previous)\<lparr>an_size := an_size (m previous) + sz\<rparr>);
            Some (connect_next m1 previous nxt, head)
          }
        else if previous = NULL \<or> object < previous_location then
          do {
            let m1 = m(object := \<lparr>an_size = sz, an_next = previous\<rparr>);
            Some (connect_next m1 object previous, object)
          }
        else
          do {
            c_assert (previous \<noteq> NULL);
            let m1 = m(object := \<lparr>an_size = sz, an_next = nxt\<rparr>);
            let m2 = m1(previous := (m1 previous)\<lparr>an_next := object\<rparr>);
            Some (connect_next m2 object nxt, head)
          }
      }
    }"

definition freelist_deallocate_object ::
    "node_mem \<Rightarrow> allocator_list \<Rightarrow> ptr \<Rightarrow> u64 \<Rightarrow> (node_mem \<times> allocator_list) option" where
  "freelist_deallocate_object m allocator object sz =
    do {
      c_assert (object \<noteq> NULL);
      c_assert (sz > 0);
      let alloc_sz = util_balign_up sz HEAP_MIN_ALLOC;
      (m', head') \<leftarrow> deallocate_block m (heap allocator) object alloc_sz;
      Some (m', allocator\<lparr>heap := head', alloc_size := alloc_size allocator - alloc_sz\<rparr>)
    }"

section \<open>Queries and initialisation\<close>

partial_function (option) is_free_seek :: "node_mem \<Rightarrow> ptr \<Rightarrow> ptr \<Rightarrow> ptr option" where
  [code]: "is_free_seek m addr cur =
    (if cur \<noteq> NULL \<and> addr < cur then is_free_seek m addr (an_next (m cur)) else Some cur)"

definition freelist_heap_memory_is_free ::
    "node_mem \<Rightarrow> allocator_list \<Rightarrow> ptr \<Rightarrow> u64 \<Rightarrow> error_t option" where
  "freelist_heap_memory_is_free m allocator addr sz =
    (if util_add_overflows addr sz then Some ERROR_ADDR_OVERFLOW
     else do {
       cur \<leftarrow> is_free_seek m addr (heap allocator);
       if cur \<noteq> NULL \<and> addr \<ge> cur \<and> addr + sz \<le> cur + an_size (m cur) then Some OK
       else Some ERROR_ALLOCATOR_MEM_INUSE
     })"

record allocator_stats =
  stats_total :: u64
  stats_allocated :: u64
  stats_reserved :: u64
  stats_largest_free :: u64

partial_function (option) largest_free_loop :: "node_mem \<Rightarrow> ptr \<Rightarrow> u64 \<Rightarrow> u64 option" where
  [code]: "largest_free_loop m cur largest_free =
    (if cur \<noteq> NULL
     then largest_free_loop m (an_next (m cur)) (util_max (an_size (m cur)) largest_free)
     else Some largest_free)"

definition freelist_heap_stats ::
    "node_mem \<Rightarrow> allocator_list \<Rightarrow> (error_t \<times> allocator_stats) option" where
  "freelist_heap_stats m allocator =
    do {
      largest_free \<leftarrow> largest_free_loop m (heap allocator) 0;
      Some (OK, \<lparr>stats_total = total_size allocator, stats_allocated = alloc_size allocator,
                 stats_reserved = 0, stats_largest_free = largest_free\<rparr>)
    }"

definition freelist_init :: "allocator_list \<Rightarrow> allocator_list option" where
  "freelist_init allocator =
    do {
      c_assert (heap allocator = NULL);
      Some (allocator\<lparr>total_size := 0, alloc_size := 0\<rparr>)
    }"

section \<open>The allocator interface\<close>

text \<open>
  \<^verbatim>\<open>allocator_t\<close> holds one list, \<^verbatim>\<open>hyp\<close>, in this configuration. A memory type other than
  \<^verbatim>\<open>ALLOCATOR_MEMTYPE_HYPERVISOR\<close> is refused by the range events and falls back to the
  hypervisor heap on allocation unless the hint is strict.
\<close>

datatype allocator_memtype =
    ALLOCATOR_MEMTYPE_HYPERVISOR
  | ALLOCATOR_MEMTYPE_VM_PAGE_TABLE
  | ALLOCATOR_MEMTYPE_TZ_FFI

record allocator_hint =
  hint_memtype :: allocator_memtype
  hint_strict :: bool

definition allocator_list_handle_allocator_add_ram_range ::
    "node_mem \<Rightarrow> allocator_list \<Rightarrow> ptr \<Rightarrow> u64 \<Rightarrow> allocator_memtype \<Rightarrow>
     (error_t \<times> node_mem \<times> allocator_list) option" where
  "allocator_list_handle_allocator_add_ram_range m hyp virt_base sz memtype =
    (if memtype = ALLOCATOR_MEMTYPE_HYPERVISOR then freelist_heap_add_memory m hyp virt_base sz
     else Some (ERROR_ARGUMENT_INVALID, m, hyp))"

definition allocator_allocate_object ::
    "node_mem \<Rightarrow> allocator_list \<Rightarrow> u64 \<Rightarrow> u64 \<Rightarrow> allocator_hint \<Rightarrow>
     (ptr result \<times> node_mem \<times> allocator_list) option" where
  "allocator_allocate_object m hyp sz min_alignment hint =
    (if hint_memtype hint \<noteq> ALLOCATOR_MEMTYPE_HYPERVISOR \<and> hint_strict hint
     then Some (Inl ERROR_NOMEM, m, hyp)
     else freelist_allocate_object m hyp sz min_alignment)"

definition allocator_list_handle_allocator_remove_ram_range ::
    "node_mem \<Rightarrow> allocator_list \<Rightarrow> ptr \<Rightarrow> u64 \<Rightarrow> allocator_memtype \<Rightarrow>
     (error_t \<times> node_mem \<times> allocator_list) option" where
  "allocator_list_handle_allocator_remove_ram_range m hyp virt_base sz memtype =
    (if memtype = ALLOCATOR_MEMTYPE_HYPERVISOR then freelist_heap_remove_memory m hyp virt_base sz
     else Some (ERROR_ARGUMENT_INVALID, m, hyp))"

definition allocator_deallocate_object ::
    "node_mem \<Rightarrow> allocator_list \<Rightarrow> ptr \<Rightarrow> u64 \<Rightarrow> allocator_memtype \<Rightarrow>
     (node_mem \<times> allocator_list) option" where
  "allocator_deallocate_object m hyp object sz memtype =
    do {
      c_assert (memtype = ALLOCATOR_MEMTYPE_HYPERVISOR);
      freelist_deallocate_object m hyp object sz
    }"

definition allocator_list_handle_allocator_range_is_free ::
    "node_mem \<Rightarrow> allocator_list \<Rightarrow> ptr \<Rightarrow> u64 \<Rightarrow> allocator_memtype \<Rightarrow> error_t option" where
  "allocator_list_handle_allocator_range_is_free m hyp virt_base sz memtype =
    (if memtype = ALLOCATOR_MEMTYPE_HYPERVISOR
     then freelist_heap_memory_is_free m hyp virt_base sz
     else Some ERROR_ARGUMENT_INVALID)"

definition allocator_get_stats ::
    "node_mem \<Rightarrow> allocator_list \<Rightarrow> allocator_memtype \<Rightarrow> (error_t \<times> allocator_stats option) option" where
  "allocator_get_stats m hyp memtype =
    (if memtype = ALLOCATOR_MEMTYPE_HYPERVISOR
     then map_option (\<lambda>(e, st). (e, Some st)) (freelist_heap_stats m hyp)
     else Some (ERROR_ARGUMENT_INVALID, None))"

definition allocator_init :: "allocator_list \<Rightarrow> (error_t \<times> allocator_list) option" where
  "allocator_init hyp = map_option (\<lambda>a. (OK, a)) (freelist_init hyp)"

end
