(* ===== verification/Freelist_Spec.thy ===== *)
theory Freelist_Spec
  imports Gunyah_Prelude
begin

text \<open>
  The abstract heap: a list of free blocks \<open>(address, size)\<close> over natural numbers, its
  well-formedness (aligned, non-empty, strictly separated, hence fully coalesced blocks),
  and three reference operations on it: first-fit allocation, coalescing insertion and
  removal of a range. The pointer-level code of theory Freelist is proved to implement
  them in theory Freelist\_Refine.
\<close>

section \<open>Free blocks\<close>

type_synonym blocks = "(nat \<times> nat) list"

text \<open>
  No free block reaches into the last 16 MiB (the largest alignment) of the address space:
  rounding a block address up to an alignment cannot wrap then.
\<close>

definition HEAP_TOP :: nat where
  "HEAP_TOP = 2 ^ 64 - 2 ^ 24"

fun node_ok :: "nat \<times> nat \<Rightarrow> bool" where
  "node_ok (a, s) \<longleftrightarrow> 0 < a \<and> 16 dvd a \<and> 16 dvd s \<and> 0 < s \<and> a + s \<le> HEAP_TOP"

fun before :: "nat \<times> nat \<Rightarrow> nat \<times> nat \<Rightarrow> bool" where
  "before (a, s) (b, t) \<longleftrightarrow> a + s < b"

definition fl_wf :: "blocks \<Rightarrow> bool" where
  "fl_wf xs \<longleftrightarrow> list_all node_ok xs \<and> sorted_wrt before xs"

fun span :: "nat \<times> nat \<Rightarrow> nat set" where
  "span (a, s) = {a ..< a + s}"

definition bytes :: "blocks \<Rightarrow> nat set" where
  "bytes xs = (\<Union>b \<in> set xs. span b)"

lemma bytes_simps [simp]:
  "bytes [] = {}"
  "bytes (b # xs) = span b \<union> bytes xs"
  "bytes (xs @ ys) = bytes xs \<union> bytes ys"
  by (auto simp: bytes_def)

lemma fl_wf_Nil [simp]: "fl_wf []"
  by (simp add: fl_wf_def)

lemma fl_wf_Cons:
  "fl_wf (b # xs) \<longleftrightarrow> node_ok b \<and> (\<forall>c \<in> set xs. before b c) \<and> fl_wf xs"
  by (auto simp: fl_wf_def)

lemma fl_wf_append:
  "fl_wf (xs @ ys) \<longleftrightarrow> fl_wf xs \<and> fl_wf ys \<and> (\<forall>b \<in> set xs. \<forall>c \<in> set ys. before b c)"
  by (auto simp: fl_wf_def sorted_wrt_append)

lemma before_trans:
  "node_ok c \<Longrightarrow> before b c \<Longrightarrow> before c d \<Longrightarrow> before b d"
  by (cases b; cases c; cases d) auto

lemma before_disjoint: "before b c \<Longrightarrow> span b \<inter> span c = {}"
  by (cases b; cases c) auto

lemma fl_wf_disjoint:
  "fl_wf (b # xs) \<Longrightarrow> span b \<inter> bytes xs = {}"
  using before_disjoint [of b] by (fastforce simp: fl_wf_Cons bytes_def simp del: span.simps)

lemma bytes_above:
  assumes "\<forall>c \<in> set xs. before (a, s) c" and "x \<in> bytes xs"
  shows "a + s < x"
proof -
  from assms(2) obtain b t where b: "(b, t) \<in> set xs" "b \<le> x" by (auto simp: bytes_def)
  with assms(1) have "a + s < b" by fastforce
  with b show ?thesis by simp
qed

text \<open>
  A run of free bytes lies in a single block: coalescing is complete.
\<close>

lemma run_in_block:
  assumes wf: "fl_wf xs" and sub: "{p ..< p + n} \<subseteq> bytes xs" and n: "0 < n"
  shows "\<exists>(a, s) \<in> set xs. a \<le> p \<and> p + n \<le> a + s"
  using wf sub
proof (induction xs)
  case Nil
  then show ?case using n by auto
next
  case (Cons b xs)
  obtain a s where b: "b = (a, s)" by force
  have up: "x \<in> bytes xs \<Longrightarrow> a + s < x" for x
    using Cons.prems(1) bytes_above by (auto simp: fl_wf_Cons b)
  show ?case
  proof (cases "p < a + s")
    case True
    have "p \<in> {p ..< p + n}" using n by simp
    then have "p \<in> bytes (b # xs)" using Cons.prems(2) by blast
    then have "a \<le> p" using up [of p] True by (auto simp: b)
    moreover have "p + n \<le> a + s"
    proof (rule ccontr)
      assume "\<not> p + n \<le> a + s"
      then have "a + s \<in> {p ..< p + n}" using True by simp
      then have "a + s \<in> bytes (b # xs)" using Cons.prems(2) by blast
      then show False using up [of "a + s"] by (auto simp: b)
    qed
    ultimately show ?thesis by (auto simp: b)
  next
    case False
    then have "{p ..< p + n} \<subseteq> bytes xs" using Cons.prems(2) by (auto simp: b)
    moreover have "fl_wf xs" using Cons.prems(1) by (simp add: fl_wf_Cons)
    ultimately show ?thesis using Cons.IH by auto
  qed
qed

section \<open>First-fit allocation\<close>

text \<open>What is left of a free block \<open>(a, s)\<close> when \<open>n\<close> bytes at \<open>p\<close> are taken out of it.\<close>

definition carve :: "nat \<Rightarrow> nat \<Rightarrow> nat \<Rightarrow> nat \<Rightarrow> blocks" where
  "carve a s p n =
     (if p = a then [] else [(a, p - a)]) @
     (if p + n = a + s then [] else [(p + n, a + s - (p + n))])"

fun fl_alloc :: "nat \<Rightarrow> nat \<Rightarrow> blocks \<Rightarrow> (nat \<times> blocks) option" where
  "fl_alloc n al [] = None"
| "fl_alloc n al ((a, s) # xs) =
     (let p = align_up_nat a al
      in if p + n \<le> a + s then Some (p, carve a s p n @ xs)
         else map_option (\<lambda>(q, ys). (q, (a, s) # ys)) (fl_alloc n al xs))"

lemma carve_bytes:
  "a \<le> p \<Longrightarrow> p + n \<le> a + s \<Longrightarrow> bytes (carve a s p n) = span (a, s) - {p ..< p + n}"
  by (auto simp: carve_def)

lemma carve_wf:
  assumes "node_ok (a, s)" "a \<le> p" "p + n \<le> a + s" "16 dvd p" "16 dvd n" "0 < n"
  shows "fl_wf (carve a s p n)"
  using assms by (auto simp: carve_def fl_wf_def intro!: dvd_diff_nat)

lemma carve_before:
  assumes "a \<le> p" "p + n \<le> a + s" "0 < n" "c \<in> set (carve a s p n)"
  shows "before (a, s) d \<Longrightarrow> before c d" "before d (a, s) \<Longrightarrow> before d c"
  using assms by (cases d; auto simp: carve_def split: if_splits)+

lemma carve_size:
  "a \<le> p \<Longrightarrow> p + n \<le> a + s \<Longrightarrow> sum_list (map snd (carve a s p n)) + n = s"
  by (auto simp: carve_def)

lemma carve_in_place:
  assumes wf: "fl_wf (us @ (a, s) # vs)" and p: "a \<le> p" "p + n \<le> a + s"
    and d: "16 dvd p" "16 dvd n" "0 < n"
  shows "fl_wf (us @ carve a s p n @ vs)"
    "bytes (us @ carve a s p n @ vs) = bytes (us @ (a, s) # vs) - {p ..< p + n}"
proof -
  have w: "fl_wf us" "fl_wf vs" "node_ok (a, s)"
    "\<forall>b \<in> set us. before b (a, s)" "\<forall>c \<in> set vs. before (a, s) c"
    "\<forall>b \<in> set us. \<forall>c \<in> set vs. before b c"
    using wf by (auto simp: fl_wf_append fl_wf_Cons)
  have "fl_wf (carve a s p n)" using carve_wf w(3) p d by blast
  then show "fl_wf (us @ carve a s p n @ vs)"
    using w carve_before [OF p d(3)] by (simp add: fl_wf_append) blast
  have "span b \<inter> {p ..< p + n} = {}" if "b \<in> set us \<union> set vs" for b
    using that w(4,5) p by (cases b) fastforce
  then have "(bytes us \<union> bytes vs) \<inter> {p ..< p + n} = {}" by (auto simp: bytes_def)
  then show "bytes (us @ carve a s p n @ vs) = bytes (us @ (a, s) # vs) - {p ..< p + n}"
    using carve_bytes [OF p] by auto
qed

lemma fl_alloc_SomeD:
  assumes "fl_alloc n al xs = Some (p, ys)" and "0 < al"
  shows "\<exists>us a s vs. xs = us @ (a, s) # vs \<and> ys = us @ carve a s p n @ vs \<and>
           p = align_up_nat a al \<and> p + n \<le> a + s \<and>
           (\<forall>(b, t) \<in> set us. \<not> align_up_nat b al + n \<le> b + t)"
  using assms(1)
proof (induction xs arbitrary: ys)
  case Nil
  then show ?case by simp
next
  case (Cons b xs)
  obtain a s where b: "b = (a, s)" by force
  show ?case
  proof (cases "align_up_nat a al + n \<le> a + s")
    case True
    then show ?thesis using Cons.prems b
      by (intro exI [of _ "[]"] exI [of _ a] exI [of _ s] exI [of _ xs]) (auto simp: Let_def)
  next
    case False
    then obtain zs where zs: "fl_alloc n al xs = Some (p, zs)" "ys = (a, s) # zs"
      using Cons.prems b by (auto simp: Let_def)
    from Cons.IH [OF zs(1)] obtain us c t vs where
      "xs = us @ (c, t) # vs" "zs = us @ carve c t p n @ vs" "p = align_up_nat c al"
      "p + n \<le> c + t" "\<forall>(b, t) \<in> set us. \<not> align_up_nat b al + n \<le> b + t" by blast
    then show ?thesis using False b zs
      by (intro exI [of _ "(a, s) # us"] exI [of _ c] exI [of _ t] exI [of _ vs]) auto
  qed
qed

lemma fl_alloc_NoneD:
  "fl_alloc n al xs = None \<Longrightarrow> (a, s) \<in> set xs \<Longrightarrow> \<not> align_up_nat a al + n \<le> a + s"
  by (induction xs) (auto simp: Let_def split: if_splits)

text \<open>
  A successful allocation is aligned, was free, and exactly its bytes leave the free set.
\<close>

lemma fl_alloc_sound:
  assumes "fl_alloc n al xs = Some (p, ys)" and "fl_wf xs"
    and "16 dvd n" "0 < n" "16 dvd al" "0 < al"
  shows "al dvd p" and "{p ..< p + n} \<subseteq> bytes xs" and "fl_wf ys"
    and "bytes ys = bytes xs - {p ..< p + n}"
    and "sum_list (map snd ys) + n = sum_list (map snd xs)"
proof -
  from fl_alloc_SomeD [OF assms(1,6)] obtain us a s vs where
    xs: "xs = us @ (a, s) # vs" and ys: "ys = us @ carve a s p n @ vs" and
    p: "p = align_up_nat a al" "p + n \<le> a + s" by blast
  have ap: "a \<le> p" and alp: "al dvd p"
    using align_up_nat_bounds [OF assms(6)] p by auto
  show "al dvd p" by fact
  show "{p ..< p + n} \<subseteq> bytes xs" using ap p by (auto simp: xs)
  have "16 dvd p" using alp assms(5) by (rule dvd_trans [rotated])
  then show "fl_wf ys" "bytes ys = bytes xs - {p ..< p + n}"
    using carve_in_place [OF assms(2) [unfolded xs] ap p(2) _ assms(3,4)] by (simp_all add: xs ys)
  show "sum_list (map snd ys) + n = sum_list (map snd xs)"
    using carve_size [OF ap p(2)] by (simp add: xs ys)
qed

text \<open>Allocation fails only when no aligned range of that size is free.\<close>

lemma fl_alloc_complete:
  assumes "fl_alloc n al xs = None" "fl_wf xs" "0 < n" "0 < al" "al dvd p"
  shows "\<not> {p ..< p + n} \<subseteq> bytes xs"
proof
  assume "{p ..< p + n} \<subseteq> bytes xs"
  from run_in_block [OF assms(2) this assms(3)] obtain a s where
    as: "(a, s) \<in> set xs" "a \<le> p" "p + n \<le> a + s" by auto
  have "align_up_nat a al \<le> p"
    using align_up_nat_least assms(4,5) as(2) by blast
  then show False using fl_alloc_NoneD [OF assms(1) as(1)] as(3) by simp
qed

section \<open>Coalescing insertion\<close>

fun fl_insert :: "nat \<Rightarrow> nat \<Rightarrow> blocks \<Rightarrow> blocks" where
  "fl_insert a s [] = [(a, s)]"
| "fl_insert a s ((b, t) # xs) =
     (if a + s < b then (a, s) # (b, t) # xs
      else if a + s = b then (a, s + t) # xs
      else if b + t = a then fl_insert b (t + s) xs
      else (b, t) # fl_insert a s xs)"

lemma fl_insert_set:
  "c \<in> set (fl_insert a s xs) \<Longrightarrow> before d (a, s) \<Longrightarrow> \<forall>b \<in> set xs. before d b \<Longrightarrow> before d c"
proof (induction a s xs rule: fl_insert.induct)
  case (1 a s)
  then show ?case by simp
next
  case (2 a s b t xs)
  then show ?case by (cases d) (auto split: if_splits)
qed

lemma fl_insert_bytes:
  "fl_wf xs \<Longrightarrow> bytes (fl_insert a s xs) = bytes xs \<union> {a ..< a + s}"
proof (induction a s xs rule: fl_insert.induct)
  case (1 a s)
  then show ?case by auto
next
  case (2 a s b t xs)
  then show ?case by (auto simp: fl_wf_Cons)
qed

lemma fl_insert_size:
  "sum_list (map snd (fl_insert a s xs)) = sum_list (map snd xs) + s"
  by (induction a s xs rule: fl_insert.induct) auto

lemma fl_insert_wf:
  assumes "fl_wf xs" "node_ok (a, s)" "{a ..< a + s} \<inter> bytes xs = {}"
  shows "fl_wf (fl_insert a s xs)"
  using assms
proof (induction a s xs rule: fl_insert.induct)
  case (1 a s)
  then show ?case by (simp add: fl_wf_def)
next
  case (2 a s b t xs)
  have wf: "node_ok (b, t)" "\<forall>c \<in> set xs. before (b, t) c" "fl_wf xs"
    using "2.prems"(1) by (auto simp: fl_wf_Cons)
  consider "a + s < b" | "a + s = b" | "b + t = a" "\<not> a + s \<le> b"
    | "b + t \<noteq> a" "\<not> a + s \<le> b" by linarith
  then show ?case
  proof cases
    case 1
    then have "\<forall>c \<in> set xs. before (a, s) c"
      using wf(2) before_trans [OF wf(1), of "(a, s)"] by auto
    then show ?thesis using 1 "2.prems"(2) wf by (auto simp: fl_wf_Cons)
  next
    case 2
    then have "node_ok (a, s + t)" using wf(1) "2.prems"(2) by auto
    moreover have "\<forall>c \<in> set xs. before (a, s + t) c" using wf(2) 2 by fastforce
    ultimately show ?thesis using 2 wf(3) by (auto simp: fl_wf_Cons)
  next
    case 3
    have "node_ok (b, t + s)" using 3 wf(1) "2.prems"(2) by auto
    moreover have "{b ..< b + (t + s)} \<inter> bytes xs = {}"
    proof -
      have "{b ..< b + (t + s)} = span (b, t) \<union> {a ..< a + s}" using 3 by auto
      then show ?thesis using "2.prems"(1,3) fl_wf_disjoint by fastforce
    qed
    ultimately show ?thesis using "2.IH"(1) wf(3) 3 by auto
  next
    case 4
    have "b + t < a"
    proof (rule ccontr)
      assume "\<not> b + t < a"
      then have "a < b + t" using 4 by simp
      then have "max a b \<in> {a ..< a + s}" "max a b \<in> bytes ((b, t) # xs)"
        using 4 "2.prems"(2) wf(1) by auto
      then show False using "2.prems"(3) by blast
    qed
    moreover have "fl_wf (fl_insert a s xs)"
      using "2.IH"(2) wf(3) "2.prems" 4 by auto
    moreover have "before (b, t) c" if "c \<in> set (fl_insert a s xs)" for c
      using fl_insert_set [OF that, of "(b, t)"] wf(2) \<open>b + t < a\<close> by simp
    ultimately show ?thesis using 4 wf(1) by (auto simp: fl_wf_Cons)
  qed
qed

section \<open>Removal of a range\<close>

text \<open>The free block that contains the range is cut; anything else is refused.\<close>

fun fl_remove :: "nat \<Rightarrow> nat \<Rightarrow> blocks \<Rightarrow> blocks option" where
  "fl_remove p n [] = None"
| "fl_remove p n ((a, s) # xs) =
     (if a \<le> p \<and> p + n \<le> a + s then Some (carve a s p n @ xs)
      else map_option (\<lambda>ys. (a, s) # ys) (fl_remove p n xs))"

lemma fl_remove_SomeD:
  "fl_remove p n xs = Some ys \<Longrightarrow>
    \<exists>us a s vs. xs = us @ (a, s) # vs \<and> ys = us @ carve a s p n @ vs \<and> a \<le> p \<and> p + n \<le> a + s"
proof (induction xs arbitrary: ys)
  case Nil
  then show ?case by simp
next
  case (Cons b xs)
  obtain a s where b: "b = (a, s)" by force
  show ?case
  proof (cases "a \<le> p \<and> p + n \<le> a + s")
    case True
    then show ?thesis using Cons.prems b
      by (intro exI [of _ "[]"] exI [of _ a] exI [of _ s] exI [of _ xs]) auto
  next
    case False
    then obtain zs where zs: "fl_remove p n xs = Some zs" "ys = (a, s) # zs"
      using Cons.prems b by auto
    from Cons.IH [OF zs(1)] obtain us c t vs where
      "xs = us @ (c, t) # vs" "zs = us @ carve c t p n @ vs" "c \<le> p" "p + n \<le> c + t" by blast
    then show ?thesis using b zs
      by (intro exI [of _ "(a, s) # us"] exI [of _ c] exI [of _ t] exI [of _ vs]) auto
  qed
qed

lemma fl_remove_iff:
  assumes "fl_wf xs" "0 < n"
  shows "fl_remove p n xs = None \<longleftrightarrow> \<not> {p ..< p + n} \<subseteq> bytes xs"
proof
  assume none: "fl_remove p n xs = None"
  show "\<not> {p ..< p + n} \<subseteq> bytes xs"
  proof
    assume "{p ..< p + n} \<subseteq> bytes xs"
    from run_in_block [OF assms(1) this assms(2)] obtain a s where
      as: "(a, s) \<in> set xs" "a \<le> p" "p + n \<le> a + s" by auto
    have "(a, s) \<in> set xs \<Longrightarrow> fl_remove p n xs = None \<Longrightarrow> \<not> (a \<le> p \<and> p + n \<le> a + s)"
      by (induction xs) (auto split: if_splits)
    then show False using as none by simp
  qed
next
  assume ns: "\<not> {p ..< p + n} \<subseteq> bytes xs"
  show "fl_remove p n xs = None"
  proof (rule ccontr)
    assume "fl_remove p n xs \<noteq> None"
    then obtain us a s vs where "xs = us @ (a, s) # vs" "a \<le> p" "p + n \<le> a + s"
      using fl_remove_SomeD by (metis option.exhaust)
    then show False using ns by auto
  qed
qed

end
