(* ===== verification/Freelist_Refine.thy ===== *)
theory Freelist_Refine
  imports Freelist Freelist_Spec
begin

text \<open>
  The linked list of free nodes refines the abstract list of free blocks: every
  pointer-level function of theory Freelist computes the corresponding operation of
  theory Freelist\_Spec, terminates, fails no assertion, and writes only to free memory.
\<close>

section \<open>Lists in the store\<close>

fun seg :: "node_mem \<Rightarrow> ptr \<Rightarrow> blocks \<Rightarrow> ptr \<Rightarrow> bool" where
  "seg m p [] q \<longleftrightarrow> p = q"
| "seg m p ((a, s) # xs) q \<longleftrightarrow>
     unat p = a \<and> a \<noteq> 0 \<and> unat (an_size (m p)) = s \<and> seg m (an_next (m p)) xs q"

abbreviation freelist :: "node_mem \<Rightarrow> ptr \<Rightarrow> blocks \<Rightarrow> bool" where
  "freelist m p xs \<equiv> seg m p xs NULL"

lemma seg_append: "seg m p (xs @ ys) r \<longleftrightarrow> (\<exists>q. seg m p xs q \<and> seg m q ys r)"
  by (induction xs arbitrary: p) auto

lemma seg_appendI: "seg m p xs q \<Longrightarrow> seg m q ys r \<Longrightarrow> seg m p (xs @ ys) r"
  by (auto simp: seg_append)

lemma seg_upd [simp]:
  "unat k \<notin> fst ` set xs \<Longrightarrow> seg (m(k := v)) p xs q \<longleftrightarrow> seg m p xs q"
  by (induction xs arbitrary: p) auto

lemma freelist_NULL [simp]: "freelist m NULL xs \<longleftrightarrow> xs = []"
  by (cases xs) auto

lemma freelist_notNULL: "freelist m p xs \<Longrightarrow> p \<noteq> NULL \<longleftrightarrow> xs \<noteq> []"
  by (cases xs) auto

lemma unat_inj: "unat (p::u64) = unat q \<Longrightarrow> p = q"
  by (simp add: word_unat_eq_iff)

lemma wf_keys:
  assumes "fl_wf (us @ (a, s) # vs)"
  shows "a \<notin> fst ` set us" "a \<notin> fst ` set vs"
proof -
  have "before u (a, s)" if "u \<in> set us" for u
    using assms that by (auto simp: fl_wf_append)
  then show "a \<notin> fst ` set us" by fastforce
  have "before (a, s) v" if "v \<in> set vs" for v
    using assms that by (auto simp: fl_wf_append fl_wf_Cons)
  then show "a \<notin> fst ` set vs" by fastforce
qed

lemma key_in_bytes: "fl_wf xs \<Longrightarrow> (a, s) \<in> set xs \<Longrightarrow> a \<in> bytes xs"
proof -
  assume "fl_wf xs" "(a, s) \<in> set xs"
  then have "0 < s" by (auto simp: fl_wf_def list_all_iff)
  then have "a \<in> span (a, s)" by simp
  then show ?thesis using \<open>(a, s) \<in> set xs\<close> unfolding bytes_def by blast
qed

lemma keys_subset_bytes: "fl_wf xs \<Longrightarrow> fst ` set xs \<subseteq> bytes xs"
  using key_in_bytes by auto

lemma HEAP_TOP_lt: "x \<le> HEAP_TOP \<Longrightarrow> x < 2 ^ 64"
  by (simp add: HEAP_TOP_def)

lemma wf_node:
  assumes "fl_wf (us @ (a, s) # vs)"
  shows "0 < a" "16 dvd a" "16 dvd s" "0 < s" "a + s \<le> HEAP_TOP" "a + s < 2 ^ 64"
  using assms HEAP_TOP_lt by (auto simp: fl_wf_append fl_wf_Cons)

text \<open>The pointer to the node before the current one, null at the start of the list.\<close>

definition prev_of :: "blocks \<Rightarrow> ptr \<Rightarrow> bool" where
  "prev_of us prev \<longleftrightarrow> (if us = [] then prev = NULL else unat prev = fst (last us))"

lemma prev_of_snoc [simp]: "prev_of (us @ [b]) prev \<longleftrightarrow> unat prev = fst b"
  by (simp add: prev_of_def)

lemma prev_of_Nil [simp]: "prev_of [] prev \<longleftrightarrow> prev = NULL"
  by (simp add: prev_of_def)

text \<open>Redirecting the last link of a list segment.\<close>

lemma seg_relink:
  assumes "seg m head (us @ [(b, t)]) cur" "unat prev = b" "b \<notin> fst ` set us"
  shows "seg (m(prev := \<lparr>an_size = an_size (m prev), an_next = q\<rparr>)) head (us @ [(b, t)]) q"
proof -
  from assms(1) obtain r where r: "seg m head us r" "unat r = b" "b \<noteq> 0"
    "unat (an_size (m r)) = t"
    by (auto simp: seg_append)
  have "r = prev" using r(2) assms(2) unat_inj by metis
  then show ?thesis using r assms by (auto simp: seg_append)
qed

lemma node_upd_next: "(n::allocator_node)\<lparr>an_next := q\<rparr> = \<lparr>an_size = an_size n, an_next = q\<rparr>"
  by (cases n) simp

lemma node_upd_size: "(n::allocator_node)\<lparr>an_size := q\<rparr> = \<lparr>an_size = q, an_next = an_next n\<rparr>"
  by (cases n) simp

lemmas node_upds = node_upd_next node_upd_size

section \<open>Allocation\<close>

subsection \<open>The four ways to take a block out of a node\<close>

text \<open>
  A position in the list: the node \<open>(a, s)\<close> at \<open>cur\<close> with the nodes \<open>us\<close> before it, \<open>vs\<close>
  after it, and \<open>prev\<close> pointing to the last node of \<open>us\<close>.
\<close>

definition at_node ::
    "node_mem \<Rightarrow> ptr \<Rightarrow> ptr \<Rightarrow> ptr \<Rightarrow> blocks \<Rightarrow> nat \<Rightarrow> nat \<Rightarrow> blocks \<Rightarrow> bool" where
  "at_node m head prev cur us a s vs \<longleftrightarrow>
     seg m head us cur \<and> unat cur = a \<and> unat (an_size (m cur)) = s \<and>
     freelist m (an_next (m cur)) vs \<and> fl_wf (us @ (a, s) # vs) \<and> prev_of us prev"

lemma at_nodeD:
  assumes "at_node m head prev cur us a s vs"
  shows "seg m head us cur" "unat cur = a" "unat (an_size (m cur)) = s"
    "freelist m (an_next (m cur)) vs" "fl_wf (us @ (a, s) # vs)" "prev_of us prev"
    "0 < a" "16 dvd a" "16 dvd s" "0 < s" "a + s \<le> HEAP_TOP" "a + s < 2 ^ 64"
    "unat cur \<notin> fst ` set us" "unat cur \<notin> fst ` set vs"
proof -
  show wf: "fl_wf (us @ (a, s) # vs)" using assms by (simp add: at_node_def)
  show "0 < a" "16 dvd a" "16 dvd s" "0 < s" "a + s \<le> HEAP_TOP" "a + s < 2 ^ 64"
    using wf_node [OF wf] by auto
  show "unat cur \<notin> fst ` set us" "unat cur \<notin> fst ` set vs"
    using wf_keys [OF wf] assms by (auto simp: at_node_def)
qed (use assms in \<open>auto simp: at_node_def\<close>)

lemma at_node_prev:
  assumes "at_node m head prev cur us a s vs" and "us = ws @ [(c, t)]"
  shows "unat prev = c" "prev \<noteq> NULL" "c \<notin> fst ` set ws" "c \<in> bytes us"
proof -
  have wf: "fl_wf (ws @ (c, t) # (a, s) # vs)" using at_nodeD(5) [OF assms(1)] assms(2) by simp
  show p: "unat prev = c" using at_nodeD(6) [OF assms(1)] assms(2) by simp
  show "prev \<noteq> NULL" using wf_node(1) [OF wf] p by auto
  show "c \<notin> fst ` set ws" by (rule wf_keys [OF wf])
  show "c \<in> bytes us" using wf_node(4) [OF wf] assms(2) by auto
qed

lemma at_node_prev_NULL:
  assumes "at_node m head prev cur us a s vs"
  shows "prev = NULL \<longleftrightarrow> us = []"
proof (cases us rule: rev_cases)
  case Nil
  then show ?thesis using at_nodeD(6) [OF assms] by simp
next
  case (snoc ws b)
  then show ?thesis using at_node_prev(2) [OF assms, of ws "fst b" "snd b"] by simp
qed

lemma at_node_prev_bytes:
  assumes "at_node m head prev cur us a s vs" and "prev \<noteq> NULL"
  shows "unat prev \<in> bytes us"
proof (cases us rule: rev_cases)
  case Nil
  then show ?thesis using at_node_prev_NULL [OF assms(1)] assms(2) by simp
next
  case (snoc ws b)
  then show ?thesis using at_node_prev(1,4) [OF assms(1), of ws "fst b" "snd b"] by simp
qed

text \<open>Linking the nodes before the current one to \<open>q\<close>, in a store that agrees on them.\<close>

lemma relink:
  assumes at: "at_node m head prev cur us a s vs"
    and us': "seg m' head us cur" and ys: "freelist m' q ys"
    and keys: "\<forall>b \<in> set us. fst b \<notin> fst ` set ys"
  shows "if prev \<noteq> NULL
    then freelist (m'(prev := (m' prev)\<lparr>an_next := q\<rparr>)) head (us @ ys)
    else freelist m' q (us @ ys)"
proof (cases us rule: rev_cases)
  case Nil
  then show ?thesis using at_node_prev_NULL [OF at] ys by simp
next
  case (snoc ws b)
  obtain c t where b: "b = (c, t)" by force
  note pr = at_node_prev [OF at snoc [unfolded b]]
  let ?m = "m'(prev := \<lparr>an_size = an_size (m' prev), an_next = q\<rparr>)"
  have "seg ?m head us q"
    using seg_relink [of m' head ws c t cur prev q] us' snoc b pr by simp
  moreover have "unat prev \<notin> fst ` set ys" using keys snoc b pr(1) by auto
  then have "freelist ?m q ys" using ys by simp
  ultimately have "freelist ?m head (us @ ys)" by (rule seg_appendI)
  then show ?thesis using pr(2) by (simp add: node_upd_next)
qed

lemma inner_key:
  assumes "fl_wf (us @ (a, s) # vs)" "a \<le> x" "x < a + s"
  shows "x \<notin> fst ` set us" "x \<notin> fst ` set vs"
proof -
  have "before u (a, s)" if "u \<in> set us" for u
    using assms(1) that by (auto simp: fl_wf_append)
  then show "x \<notin> fst ` set us" using assms by fastforce
  have "before (a, s) v" if "v \<in> set vs" for v
    using assms(1) that by (auto simp: fl_wf_append fl_wf_Cons)
  then show "x \<notin> fst ` set vs" using assms by fastforce
qed

lemma outer_keys:
  assumes "fl_wf (us @ (a, s) # vs)" and "b \<in> set us"
  shows "fst b \<notin> fst ` set vs"
proof
  assume "fst b \<in> fst ` set vs"
  then obtain c where c: "c \<in> set vs" "fst b = fst c" by auto
  have "before b c" using assms c(1) by (auto simp: fl_wf_append)
  then show False using c(2) by (cases b; cases c) auto
qed

text \<open>Take the whole node.\<close>

lemma take_all:
  assumes at: "at_node m head prev cur us a s vs"
  defines "r \<equiv> (if prev \<noteq> NULL then (m(prev := (m prev)\<lparr>an_next := an_next (m cur)\<rparr>), head)
                else (m, an_next (m cur)))"
  shows "freelist (fst r) (snd r) (us @ vs)"
    and "unat q \<notin> bytes (us @ (a, s) # vs) \<Longrightarrow> fst r q = m q"
proof -
  note d = at_nodeD [OF at]
  show "freelist (fst r) (snd r) (us @ vs)"
    using relink [OF at d(1,4)] outer_keys [OF d(5)] by (auto simp: r_def split: if_splits)
  show "unat q \<notin> bytes (us @ (a, s) # vs) \<Longrightarrow> fst r q = m q"
    using at_node_prev_bytes [OF at] by (auto simp: r_def)
qed

text \<open>Take the end of the node: it shrinks.\<close>

lemma take_end:
  assumes at: "at_node m head prev cur us a s vs" and x: "unat x = n" "n < s"
  defines "m' \<equiv> m(cur := (m cur)\<lparr>an_size := an_size (m cur) - x\<rparr>)"
  shows "freelist m' head (us @ (a, s - n) # vs)"
    and "unat q \<notin> bytes (us @ (a, s) # vs) \<Longrightarrow> m' q = m q"
proof -
  note d = at_nodeD [OF at]
  have "unat (an_size (m cur) - x) = s - n" using x d by (subst unat_diff_le) auto
  then have "freelist m' cur ((a, s - n) # vs)"
    using d by (simp add: m'_def node_upds)
  moreover have "seg m' head us cur" using d by (simp add: m'_def)
  ultimately show "freelist m' head (us @ (a, s - n) # vs)" by (rule seg_appendI [rotated])
  show "unat q \<notin> bytes (us @ (a, s) # vs) \<Longrightarrow> m' q = m q"
    using d by (auto simp: m'_def)
qed

text \<open>Take the start of the node: a new node \<open>nxt\<close> behind the block replaces it.\<close>

lemma take_start:
  assumes at: "at_node m head prev cur us a s vs"
    and x: "unat x = n" "0 < n" "n < s" "unat nxt = a + n"
  defines "m1 \<equiv> m(nxt := \<lparr>an_size = an_size (m cur) - x, an_next = an_next (m cur)\<rparr>)"
  defines "r \<equiv> (if prev \<noteq> NULL then (m1(prev := (m1 prev)\<lparr>an_next := nxt\<rparr>), head) else (m1, nxt))"
  shows "freelist (fst r) (snd r) (us @ (a + n, s - n) # vs)"
    and "unat q \<notin> bytes (us @ (a, s) # vs) \<Longrightarrow> fst r q = m q"
proof -
  note d = at_nodeD [OF at]
  have k: "a + n \<notin> fst ` set us" "a + n \<notin> fst ` set vs"
    using inner_key [OF d(5), of "a + n"] x by auto
  have us1: "seg m1 head us cur" using d k x by (simp add: m1_def)
  have "unat (an_size (m cur) - x) = s - n" using x d by (subst unat_diff_le) auto
  then have vs1: "freelist m1 nxt ((a + n, s - n) # vs)"
    using d k x by (simp add: m1_def)
  have "\<forall>b \<in> set us. fst b \<notin> fst ` set ((a + n, s - n) # vs)"
  proof
    fix b assume b: "b \<in> set us"
    then have "fst b \<noteq> a + n" using k(1) by (metis imageI)
    then show "fst b \<notin> fst ` set ((a + n, s - n) # vs)" using outer_keys [OF d(5) b] by simp
  qed
  from relink [OF at us1 vs1 this]
  show "freelist (fst r) (snd r) (us @ (a + n, s - n) # vs)"
    by (auto simp: r_def split: if_splits)
  have "unat nxt \<in> bytes (us @ (a, s) # vs)" using x by simp
  then show "unat q \<notin> bytes (us @ (a, s) # vs) \<Longrightarrow> fst r q = m q"
    using at_node_prev_bytes [OF at] by (auto simp: r_def m1_def)
qed

text \<open>Take the middle of the node: it keeps the front, a new node holds the rest.\<close>

lemma take_middle:
  assumes at: "at_node m head prev cur us a s vs"
    and x: "unat w = p" "a < p" "unat nxt = p + n" "p + n < a + s" "unat rest = a + s - (p + n)"
  defines "m' \<equiv> m(nxt := \<lparr>an_size = rest, an_next = an_next (m cur)\<rparr>,
                   cur := \<lparr>an_size = w - cur, an_next = nxt\<rparr>)"
  shows "freelist m' head (us @ (a, p - a) # (p + n, a + s - (p + n)) # vs)"
    and "unat q \<notin> bytes (us @ (a, s) # vs) \<Longrightarrow> m' q = m q"
proof -
  note d = at_nodeD [OF at]
  have k: "p + n \<notin> fst ` set us" "p + n \<notin> fst ` set vs"
    using inner_key [OF d(5), of "p + n"] x by auto
  have ne: "nxt \<noteq> cur" using x d by auto
  have sz: "unat (w - cur) = p - a" using x d by (subst unat_diff_le) auto
  have seg1: "seg m' head us cur" "freelist m' (an_next (m cur)) vs"
    using k d x by (simp_all add: m'_def)
  have cells: "m' cur = \<lparr>an_size = w - cur, an_next = nxt\<rparr>"
    "m' nxt = \<lparr>an_size = rest, an_next = an_next (m cur)\<rparr>"
    using ne by (simp_all add: m'_def)
  have "freelist m' cur ((a, p - a) # (p + n, a + s - (p + n)) # vs)"
    using seg1(2) sz x d by (simp add: cells)
  with seg1(1) show "freelist m' head (us @ (a, p - a) # (p + n, a + s - (p + n)) # vs)"
    by (rule seg_appendI)
  have "unat nxt \<in> bytes (us @ (a, s) # vs)" using x by simp
  then show "unat q \<notin> bytes (us @ (a, s) # vs) \<Longrightarrow> m' q = m q"
    using d by (auto simp: m'_def)
qed

subsection \<open>The search for a node\<close>


lemma p2_ge16_dvd:
  assumes "util_is_p2 (al::u64)" "16 \<le> unat al"
  shows "16 dvd unat al"
proof -
  from util_is_p2_ex [OF assms(1)] obtain k where k: "k < 64" "al = 2 ^ k" by auto
  then have "(2::nat) ^ 4 \<le> 2 ^ k" using assms(2) by simp
  then have "4 \<le> k" using power_le_imp_le_exp [of 2 4 k] by simp
  then have "(2::nat) ^ 4 dvd 2 ^ k" by (rule le_imp_power_dvd)
  then show ?thesis using k by simp
qed

text \<open>The comparisons of \<^const>\<open>allocate_from_node\<close>, read as natural numbers.\<close>

lemma alloc_guards:
  assumes at: "at_node m head prev cur us a s vs"
    and al: "util_is_p2 al" "unat al \<le> 2 ^ 24"
  defines "w \<equiv> util_balign_up cur al"
  shows "unat w = align_up_nat a (unat al)" "unat (cur + an_size (m cur)) = a + s"
    "\<not> util_add_overflows w x \<Longrightarrow> unat (w + x) = align_up_nat a (unat al) + unat x"
    "util_add_overflows w x \<Longrightarrow> \<not> align_up_nat a (unat al) + unat x \<le> a + s"
proof -
  note d = at_nodeD [OF at]
  have top: "HEAP_TOP + 2 ^ 24 = 2 ^ 64" by (simp add: HEAP_TOP_def)
  have "unat cur + unat al \<le> 2 ^ LENGTH(64)"
    using d(2,11) al(2) top by simp
  then show w: "unat w = align_up_nat a (unat al)"
    using unat_balign_up_align [OF al(1), of cur] d(2) by (simp add: w_def)
  show "unat (cur + an_size (m cur)) = a + s"
    using d by (subst unat_add_no_overflow) simp_all
  show "\<not> util_add_overflows w x \<Longrightarrow> unat (w + x) = align_up_nat a (unat al) + unat x"
    using w by (subst unat_add_no_overflow) (simp_all add: util_add_overflows_iff)
  show "util_add_overflows w x \<Longrightarrow> \<not> align_up_nat a (unat al) + unat x \<le> a + s"
    using w d(12) by (simp add: util_add_overflows_iff)
qed

lemma allocate_from_node_fit:
  assumes at: "at_node m head prev cur us a s vs"
    and al: "util_is_p2 al" "unat al \<le> 2 ^ 24"
    and sz: "unat sz = n" "16 dvd n" "0 < n"
    and fit: "align_up_nat a (unat al) + n \<le> a + s"
  shows "\<exists>w m' head'. allocate_from_node m head prev cur sz al = Some (Inr w, m', head') \<and>
    unat w = align_up_nat a (unat al) \<and>
    freelist m' head' (us @ carve a s (align_up_nat a (unat al)) n @ vs) \<and>
    (\<forall>q. unat q \<notin> bytes (us @ (a, s) # vs) \<longrightarrow> m' q = m q)"
proof -
  note d = at_nodeD [OF at]
  define p where "p = align_up_nat a (unat al)"
  define w where "w = util_balign_up cur al"
  define e where "e = cur + an_size (m cur)"
  note g = alloc_guards [OF at al, folded w_def p_def e_def]
  have nov: "\<not> util_add_overflows w sz" using g(4) [of sz] fit sz by (auto simp: p_def)
  have we: "unat (w + sz) = p + n" using g(3) [OF nov] sz by simp
  have ap: "a \<le> p" using align_up_nat_bounds(1) util_is_p2_pos [OF al(1)] by (simp add: p_def)
  have pre: "cur \<noteq> NULL" "16 \<le> sz" "sz mod 16 = 0"
    using d(2,7) sz by (auto simp: word_le_nat_alt word_unat_eq_iff unat_mod dest: dvd_imp_le)
  have eqs: "\<not> e < w + sz" "\<not> e < w" "e = w + sz \<longleftrightarrow> a + s = p + n" "cur = w \<longleftrightarrow> p = a"
    using g(1,2) we fit d(2) by (auto simp: word_less_nat_alt word_unat_eq_iff p_def)
  have rest: "unat (e - (w + sz)) = a + s - (p + n)"
    using g(2) we fit by (subst unat_diff_le) (auto simp: p_def)
  let ?r = "if e = w + sz then
             if cur = w then
               if prev \<noteq> NULL
               then (m(prev := (m prev)\<lparr>an_next := an_next (m cur)\<rparr>), head)
               else (m, an_next (m cur))
             else (m(cur := (m cur)\<lparr>an_size := an_size (m cur) - sz\<rparr>), head)
           else
             if cur = w then
               (let m' = m(w + sz := \<lparr>an_size = an_size (m cur) - sz, an_next = an_next (m cur)\<rparr>)
                in if prev \<noteq> NULL
                   then (m'(prev := (m' prev)\<lparr>an_next := w + sz\<rparr>), head)
                   else (m', w + sz))
             else
               (m(w + sz := \<lparr>an_size = e - (w + sz), an_next = an_next (m cur)\<rparr>,
                  cur := \<lparr>an_size = w - cur, an_next = w + sz\<rparr>), head)"
  have run: "allocate_from_node m head prev cur sz al = Some (Inr w, fst ?r, snd ?r)"
    using pre al(1) nov eqs(1,2)
    unfolding allocate_from_node_def Let_def w_def [symmetric] e_def [symmetric]
    by (simp split del: if_split)
  have "freelist (fst ?r) (snd ?r) (us @ carve a s p n @ vs) \<and>
      (\<forall>q. unat q \<notin> bytes (us @ (a, s) # vs) \<longrightarrow> fst ?r q = m q)"
  proof -
    consider "a + s = p + n" "p = a" | "a + s = p + n" "p \<noteq> a"
      | "a + s \<noteq> p + n" "p = a" | "a + s \<noteq> p + n" "p \<noteq> a" by blast
    then show ?thesis
    proof cases
      case 1
      then show ?thesis using take_all [OF at] eqs(3,4) by (simp add: carve_def)
    next
      case 2
      then have "n < s" "s - n = p - a" using ap fit by (auto simp: p_def)
      then show ?thesis using take_end [OF at sz(1)] 2 eqs(3,4) by (simp add: carve_def)
    next
      case 3
      then have ns: "n < s" and w: "w = cur" and e: "e \<noteq> cur + sz"
        using fit eqs(3,4) by (auto simp: p_def)
      have "unat (cur + sz) = a + n" using we 3 w by simp
      from take_start [OF at sz(1,3) ns this] show ?thesis
        using 3 e unfolding w by (simp add: carve_def Let_def split del: if_split)
    next
      case 4
      then have "a < p" "p + n < a + s" using ap fit by (auto simp: p_def)
      then show ?thesis
        using take_middle [OF at, of w p "w + sz" n "e - (w + sz)"] g(1) we rest 4 eqs(3,4)
        by (simp add: carve_def)
    qed
  qed
  with run g(1) show ?thesis unfolding p_def by blast
qed

lemma allocate_from_node_nofit:
  assumes at: "at_node m head prev cur us a s vs"
    and al: "util_is_p2 al" "unat al \<le> 2 ^ 24"
    and sz: "unat sz = n" "16 dvd n" "0 < n"
    and fit: "\<not> align_up_nat a (unat al) + n \<le> a + s"
  shows "\<exists>e. allocate_from_node m head prev cur sz al = Some (Inl e, m, head) \<and> e \<noteq> OK"
proof -
  note d = at_nodeD [OF at]
  note g = alloc_guards [OF at al]
  have pre: "cur \<noteq> NULL" "16 \<le> sz" "sz mod 16 = 0"
    using d(2,7) sz by (auto simp: word_le_nat_alt word_unat_eq_iff unat_mod dest: dvd_imp_le)
  show ?thesis
  proof (cases "util_add_overflows (util_balign_up cur al) sz")
    case True
    then show ?thesis using pre al(1) by (simp add: allocate_from_node_def Let_def)
  next
    case False
    then have "util_balign_up cur al + sz > cur + an_size (m cur)"
      using g(2) g(3) [OF False] fit sz(1) by (simp add: word_less_nat_alt)
    then show ?thesis using False pre al(1) by (simp add: allocate_from_node_def Let_def)
  qed
qed


lemma allocate_block_loop_refines:
  assumes al: "util_is_p2 al" "unat al \<le> 2 ^ 24"
    and sz: "unat sz = n" "16 dvd n" "0 < n"
    and "seg m head us cur" "freelist m cur xs" "fl_wf (us @ xs)" "prev_of us prev"
  shows "case fl_alloc n (unat al) xs of
      None \<Rightarrow> allocate_block_loop m head prev cur sz al = Some (Inl ERROR_NOMEM, m, head)
    | Some (p, ys) \<Rightarrow> (\<exists>w m' head'.
        allocate_block_loop m head prev cur sz al = Some (Inr w, m', head') \<and> unat w = p \<and>
        freelist m' head' (us @ ys) \<and> (\<forall>q. unat q \<notin> bytes (us @ xs) \<longrightarrow> m' q = m q))"
  using assms(6-9)
proof (induction xs arbitrary: us cur prev)
  case Nil
  then show ?case by (simp add: allocate_block_loop.simps)
next
  case (Cons b xs)
  obtain a s where b: "b = (a, s)" by force
  have at: "at_node m head prev cur us a s xs"
    using Cons.prems b by (auto simp: at_node_def)
  have cur: "cur \<noteq> NULL" using at_nodeD(2,7) [OF at] by auto
  show ?case
  proof (cases "align_up_nat a (unat al) + n \<le> a + s")
    case True
    from allocate_from_node_fit [OF at al sz True] obtain w m' head' where
      r: "allocate_from_node m head prev cur sz al = Some (Inr w, m', head')"
        "unat w = align_up_nat a (unat al)"
        "freelist m' head' (us @ carve a s (align_up_nat a (unat al)) n @ xs)"
        "\<forall>q. unat q \<notin> bytes (us @ (a, s) # xs) \<longrightarrow> m' q = m q" by blast
    have "allocate_block_loop m head prev cur sz al = Some (Inr w, m', head')"
      using r(1) cur by (subst allocate_block_loop.simps) simp
    then show ?thesis using r True b by (simp add: Let_def)
  next
    case False
    from allocate_from_node_nofit [OF at al sz False] obtain e where
      r: "allocate_from_node m head prev cur sz al = Some (Inl e, m, head)" "e \<noteq> OK" by blast
    have step: "allocate_block_loop m head prev cur sz al =
        allocate_block_loop m head cur (an_next (m cur)) sz al"
      using r cur by (subst allocate_block_loop.simps) simp
    have "seg m head (us @ [(a, s)]) (an_next (m cur))"
      using at_nodeD(1,2,3,7) [OF at] by (auto simp: seg_append)
    moreover have "freelist m (an_next (m cur)) xs" using at_nodeD(4) [OF at] .
    moreover have "fl_wf ((us @ [(a, s)]) @ xs)" using at_nodeD(5) [OF at] by simp
    moreover have "prev_of (us @ [(a, s)]) cur" using at_nodeD(2) [OF at] by simp
    ultimately have IH: "case fl_alloc n (unat al) xs of
      None \<Rightarrow> allocate_block_loop m head cur (an_next (m cur)) sz al = Some (Inl ERROR_NOMEM, m, head)
    | Some (p, ys) \<Rightarrow> (\<exists>w m' head'.
        allocate_block_loop m head cur (an_next (m cur)) sz al = Some (Inr w, m', head') \<and>
        unat w = p \<and> freelist m' head' ((us @ [(a, s)]) @ ys) \<and>
        (\<forall>q. unat q \<notin> bytes ((us @ [(a, s)]) @ xs) \<longrightarrow> m' q = m q))"
      by (rule Cons.IH)
    then show ?thesis using False b step by (auto simp: Let_def split: option.splits)
  qed
qed

lemma allocate_block_refines:
  assumes "freelist m head xs" "fl_wf xs" "xs \<noteq> []"
    and al: "util_is_p2 al" "8 \<le> unat al" "unat al \<le> 2 ^ 24"
    and sz: "unat sz = n" "16 dvd n" "0 < n"
  shows "case fl_alloc n (unat al) xs of
      None \<Rightarrow> allocate_block m head sz al = Some (Inl ERROR_NOMEM, m, head)
    | Some (p, ys) \<Rightarrow> (\<exists>w m' head'.
        allocate_block m head sz al = Some (Inr w, m', head') \<and> unat w = p \<and>
        freelist m' head' ys \<and> (\<forall>q. unat q \<notin> bytes xs \<longrightarrow> m' q = m q))"
proof -
  have "head \<noteq> NULL" using freelist_notNULL [OF assms(1)] assms(3) by simp
  moreover have "sz mod 16 = 0" "0 < sz" "8 \<le> al"
    using sz al by (auto simp: word_le_nat_alt word_less_nat_alt word_unat_eq_iff unat_mod)
  ultimately have "allocate_block m head sz al = allocate_block_loop m head NULL head sz al"
    using al(1) by (simp add: allocate_block_def)
  then show ?thesis
    using allocate_block_loop_refines [OF al(1,3) sz, of m head "[]" head xs NULL] assms(1,2)
    by (auto split: option.splits)
qed

subsection \<open>Object allocation\<close>

text \<open>
  The heap invariant: the list represents well-formed free blocks. The sizes the caller
  asks for are rounded up to whole nodes.
\<close>

definition object_size :: "u64 \<Rightarrow> nat" where
  "object_size sz = align_up_nat (unat sz) 16"

definition object_align :: "u64 \<Rightarrow> nat" where
  "object_align al = max (unat al) 16"

lemma p2_16: "util_is_p2 (16::u64)"
  by (simp add: util_is_p2_def util_is_p2_or_zero_def)

lemma object_size_eq:
  assumes "sz \<le> MAX_ALLOC_SIZE"
  shows "unat (util_balign_up sz 16) = object_size sz"
proof -
  have "unat sz + unat (16::u64) \<le> 2 ^ LENGTH(64)"
    using assms by (simp add: MAX_ALLOC_SIZE_def word_le_nat_alt)
  then show ?thesis
    using unat_balign_up_align [OF p2_16, of sz] by (simp add: object_size_def)
qed

lemma object_size_props:
  "16 dvd object_size sz" "unat sz \<le> object_size sz" "0 < sz \<Longrightarrow> 0 < object_size sz"
proof -
  show "16 dvd object_size sz" "unat sz \<le> object_size sz"
    using align_up_nat_bounds [of 16 "unat sz"] by (simp_all add: object_size_def)
  then show "0 < sz \<Longrightarrow> 0 < object_size sz" by (simp add: word_less_nat_alt)
qed

text \<open>A request the code accepts: a size within the limit, and a power-of-two (or no) alignment.\<close>

definition request_ok :: "u64 \<Rightarrow> u64 \<Rightarrow> bool" where
  "request_ok sz al \<longleftrightarrow> 0 < sz \<and> sz \<le> MAX_ALLOC_SIZE \<and> al \<le> MAX_ALIGNMENT_SIZE \<and>
     util_is_p2_or_zero al"

lemma request_align:
  assumes "util_is_p2_or_zero al" "al \<le> MAX_ALIGNMENT_SIZE"
  defines "a1 \<equiv> util_max al 8"
  defines "a2 \<equiv> if a1 < 16 then 16 else a1"
  shows "0 < a1" "a1 AND (a1 - 1) = 0" "8 \<le> a1" "a1 \<le> MAX_ALIGNMENT_SIZE"
    "util_is_p2 a2" "unat a2 = object_align al" "unat a2 \<le> 2 ^ 24"
proof -
  have p8: "(8::u64) AND (8 - 1) = 0" by simp
  show "8 \<le> a1" by (simp add: a1_def)
  then show "0 < a1" by (simp add: word_le_nat_alt word_less_nat_alt)
  show a1: "a1 AND (a1 - 1) = 0"
    using assms(1) p8 by (auto simp: a1_def max_def util_is_p2_or_zero_def)
  show "a1 \<le> MAX_ALIGNMENT_SIZE"
    using assms(2) by (simp add: a1_def MAX_ALIGNMENT_SIZE_def)
  then have "unat a1 \<le> 2 ^ 24" by (simp add: MAX_ALIGNMENT_SIZE_def word_le_nat_alt)
  then show "unat a2 \<le> 2 ^ 24" by (simp add: a2_def)
  show "util_is_p2 a2"
    using a1 \<open>0 < a1\<close> p2_16 by (auto simp: a2_def util_is_p2_def util_is_p2_or_zero_def)
  have "unat a1 = max (unat al) 8"
    by (auto simp: a1_def max_def word_le_nat_alt)
  then show "unat a2 = object_align al"
    by (auto simp: a2_def object_align_def word_less_nat_alt max_def)
qed

lemma freelist_allocate_object_refines:
  assumes "freelist m (heap A) xs" "fl_wf xs" "request_ok sz al"
  shows "case fl_alloc (object_size sz) (object_align al) xs of
      None \<Rightarrow> freelist_allocate_object m A sz al = Some (Inl ERROR_NOMEM, m, A)
    | Some (p, ys) \<Rightarrow> (\<exists>w m' head'.
        freelist_allocate_object m A sz al =
          Some (Inr w, m', A\<lparr>heap := head', alloc_size := alloc_size A + of_nat (object_size sz)\<rparr>) \<and>
        unat w = p \<and> freelist m' head' ys \<and> (\<forall>q. unat q \<notin> bytes xs \<longrightarrow> m' q = m q))"
proof (cases "xs = []")
  case True
  then show ?thesis using assms(1) by (simp add: freelist_allocate_object_def Let_def)
next
  case False
  have rq: "0 < sz" "sz \<le> MAX_ALLOC_SIZE" "al \<le> MAX_ALIGNMENT_SIZE" "util_is_p2_or_zero al"
    using assms(3) by (auto simp: request_ok_def)
  note ra = request_align [OF rq(4,3)]
  let ?sz = "util_balign_up sz 16"
  let ?al = "if util_max al 8 < 16 then 16 else util_max al 8"
  have h: "heap A \<noteq> NULL" using freelist_notNULL [OF assms(1)] False by simp
  have "8 \<le> unat ?al" using ra(6) by (simp add: object_align_def)
  note blk = allocate_block_refines [OF assms(1,2) False ra(5) this ra(7)
      object_size_eq [OF rq(2)] object_size_props(1) object_size_props(3) [OF rq(1)]]
  have run: "freelist_allocate_object m A sz al =
      Option.bind (allocate_block m (heap A) ?sz ?al) (\<lambda>(ret, m', head').
        let A' = A\<lparr>heap := head'\<rparr> in
        if result_e ret \<noteq> OK then Some (ret, m', A')
        else Some (ret, m', A'\<lparr>alloc_size := alloc_size A' + ?sz\<rparr>))"
    using h rq ra(1-4)
    unfolding freelist_allocate_object_def Let_def
    by (simp add: not_less [symmetric] del: util_max_eq)
  have sz: "?sz = of_nat (object_size sz)"
    using object_size_eq [OF rq(2)] by (metis of_nat_unat ucast_id)
  show ?thesis
    using blk unfolding ra(6) run sz
    by (auto split: option.splits simp: Let_def)
qed

end
