(* ===== verification/Freelist_Dealloc.thy ===== *)
theory Freelist_Dealloc
  imports Freelist_Refine
begin

text \<open>
  The deallocation half of the refinement: \<^verbatim>\<open>deallocate_block\<close> of
  \<^verbatim>\<open>hyp/mem/allocator_list/src/freelist.c\<close> inserts the freed block into the abstract list
  of free blocks and coalesces it with its neighbours.
\<close>

section \<open>Deallocation\<close>

text \<open>
  \<^const>\<open>connect_next\<close> finishes a coalescing insertion: the node at \<open>p\<close> absorbs the next one
  when they touch.
\<close>

lemma connect_next_refines:
  assumes us: "seg m head us p" and p: "unat p = a" "0 < a" "unat (an_size (m p)) = s"
    and vs: "freelist m (an_next (m p)) vs" "fl_wf vs"
    and keys: "a \<notin> fst ` set us" "a \<notin> fst ` set vs"
    and sep: "vs = [] \<or> a + s \<le> fst (hd vs)"
  shows "freelist (connect_next m p (an_next (m p))) head (us @ fl_insert a s vs)"
    and "q \<noteq> p \<Longrightarrow> connect_next m p (an_next (m p)) q = m q"
proof -
  show "q \<noteq> p \<Longrightarrow> connect_next m p (an_next (m p)) q = m q"
    by (simp add: connect_next_def)
  show "freelist (connect_next m p (an_next (m p))) head (us @ fl_insert a s vs)"
  proof (cases vs)
    case Nil
    then have "an_next (m p) = NULL" using vs by simp
    then show ?thesis using us p Nil by (auto simp: connect_next_def intro!: seg_appendI)
  next
    case (Cons v ws)
    obtain c t where v: "v = (c, t)" by force
    let ?n = "an_next (m p)"
    have c: "unat ?n = c" "unat (an_size (m ?n)) = t" "freelist m (an_next (m ?n)) ws" "c \<noteq> 0"
      using vs Cons v by auto
    have ct: "c + t < 2 ^ 64"
      using vs(2) Cons v HEAP_TOP_lt by (auto simp: fl_wf_Cons)
    have as: "a + s \<le> c" using sep Cons v by simp
    have nn: "?n \<noteq> NULL" using c by auto
    have "unat (p + an_size (m p)) = a + s"
      using p as ct by (subst unat_add_no_overflow) auto
    then have touch: "p + an_size (m p) = ?n \<longleftrightarrow> a + s = c"
      using c(1) by (metis unat_inj)
    show ?thesis
    proof (cases "a + s = c")
      case True
      have "unat (an_size (m p) + an_size (m ?n)) = s + t"
        using p c True ct by (subst unat_add_no_overflow) auto
      moreover have "unat p \<notin> fst ` set ws" using keys p Cons by auto
      ultimately show ?thesis
        using us p c True v Cons keys touch nn
        by (auto simp: connect_next_def intro!: seg_appendI)
    next
      case False
      then have "fl_insert a s vs = (a, s) # vs" using as Cons v by simp
      moreover have "connect_next m p ?n = m" using False touch by (simp add: connect_next_def)
      ultimately show ?thesis using us p vs by (auto intro!: seg_appendI)
    qed
  qed
qed

lemma fl_insert_skip:
  "\<forall>u \<in> set us. before u (a, s) \<Longrightarrow> fl_insert a s (us @ vs) = us @ fl_insert a s vs"
  by (induction us) auto

text \<open>
  The search stops at a node \<open>(b, t)\<close> below the freed object (or at the head of the list)
  whose successor is not below it.
\<close>

lemma deallocate_seek_refines:
  assumes "at_node m head pp prev us b t vs"
  shows "\<exists>us' b' t' vs' pp' prev'. us @ (b, t) # vs = us' @ (b', t') # vs' \<and>
    deallocate_seek m object prev (an_next (m prev)) = Some (prev', an_next (m prev')) \<and>
    at_node m head pp' prev' us' b' t' vs' \<and>
    (vs' = [] \<or> unat object \<le> fst (hd vs')) \<and> (us' = us \<or> b' < unat object)"
  using assms
proof (induction vs arbitrary: us b t pp prev)
  case Nil
  have "an_next (m prev) = NULL" using at_nodeD(4) [OF Nil] by simp
  then have "deallocate_seek m object prev (an_next (m prev)) = Some (prev, an_next (m prev))"
    by (subst deallocate_seek.simps) simp
  then show ?case using Nil by blast
next
  case (Cons v vs)
  obtain c r where v: "v = (c, r)" by force
  note d = at_nodeD [OF Cons.prems]
  let ?n = "an_next (m prev)"
  have n: "unat ?n = c" "unat (an_size (m ?n)) = r" "freelist m (an_next (m ?n)) vs"
    using d(4) v by auto
  have wf: "fl_wf ((us @ [(b, t)]) @ (c, r) # vs)" using d(5) v by simp
  have bc: "b < c" using wf by (auto simp: fl_wf_append fl_wf_Cons)
  have nn: "?n \<noteq> NULL" using n bc by auto
  show ?case
  proof (cases "c < unat object")
    case True
    have "seg m head (us @ [(b, t)]) ?n" using d by (auto intro!: seg_appendI)
    then have "at_node m head prev ?n (us @ [(b, t)]) c r vs"
      using n wf d(2) by (auto simp: at_node_def)
    from Cons.IH [OF this] obtain us' b' t' vs' pp' prev' where
      r: "(us @ [(b, t)]) @ (c, r) # vs = us' @ (b', t') # vs'"
        "deallocate_seek m object ?n (an_next (m ?n)) = Some (prev', an_next (m prev'))"
        "at_node m head pp' prev' us' b' t' vs'"
        "vs' = [] \<or> unat object \<le> fst (hd vs')"
        "us' = us @ [(b, t)] \<or> b' < unat object" by blast
    have "prev < ?n" using d(2) n bc by (simp add: word_less_nat_alt)
    moreover have "object > ?n" using True n by (simp add: word_less_nat_alt)
    ultimately have "deallocate_seek m object prev ?n = Some (prev', an_next (m prev'))"
      using r(2) nn by (subst deallocate_seek.simps) simp
    moreover have "b' < unat object"
      using r(1,5) True by auto
    moreover have "us @ (b, t) # v # vs = us' @ (b', t') # vs'" using r(1) v by simp
    ultimately show ?thesis using r(3,4) by blast
  next
    case False
    then have "deallocate_seek m object prev ?n = Some (prev, ?n)"
      using n by (subst deallocate_seek.simps) (simp add: word_less_nat_alt)
    then show ?thesis using Cons.prems False v
      by (intro exI [of _ us] exI [of _ b] exI [of _ t] exI [of _ "v # vs"] exI [of _ pp]
          exI [of _ prev]) auto
  qed
qed

text \<open>The freed block and where the search stopped.\<close>

lemma dealloc_position:
  assumes at: "at_node m head pp prev us b t vs" and ok: "node_ok (a, s)"
    and disj: "{a ..< a + s} \<inter> bytes (us @ (b, t) # vs) = {}"
    and stop: "vs = [] \<or> a \<le> fst (hd vs)" "us = [] \<or> b < a"
  shows "vs = [] \<or> a + s \<le> fst (hd vs)" "a < b \<or> b + t \<le> a" "a < b \<Longrightarrow> a + s \<le> b"
    "\<forall>u \<in> set us. before u (a, s) \<or> a < b" "a \<notin> fst ` set (us @ (b, t) # vs)"
proof -
  note d = at_nodeD [OF at]
  have in_bytes: "x \<in> span c \<Longrightarrow> c \<in> set (us @ (b, t) # vs) \<Longrightarrow> x < a \<or> a + s \<le> x" for x c
  proof -
    assume "x \<in> span c" "c \<in> set (us @ (b, t) # vs)"
    then have "x \<in> bytes (us @ (b, t) # vs)" unfolding bytes_def by (rule UN_I [rotated])
    then have "x \<notin> {a ..< a + s}" using disj by blast
    then show ?thesis by auto
  qed
  have s: "0 < s" using ok by simp
  show "vs = [] \<or> a + s \<le> fst (hd vs)"
  proof (cases vs)
    case (Cons v ws)
    obtain c r where v: "v = (c, r)" by force
    have "0 < r" using d(5) Cons v by (auto simp: fl_wf_append fl_wf_Cons)
    then have "c \<in> span (c, r)" by simp
    from in_bytes [OF this] show ?thesis using stop(1) Cons v by auto
  qed simp
  show "a < b \<or> b + t \<le> a"
  proof (rule ccontr)
    assume "\<not> (a < b \<or> b + t \<le> a)"
    then have "a \<in> span (b, t)" by simp
    from in_bytes [OF this] show False using s by simp
  qed
  show "a + s \<le> b" if "a < b"
  proof -
    have "b \<in> span (b, t)" using d(10) by simp
    from in_bytes [OF this] show ?thesis using that by simp
  qed
  show "\<forall>u \<in> set us. before u (a, s) \<or> a < b"
  proof
    fix u assume u: "u \<in> set us"
    then have "before u (b, t)" using d(5) by (auto simp: fl_wf_append)
    then show "before u (a, s) \<or> a < b" by (cases u) auto
  qed
  have "a \<in> {a ..< a + s}" using s by simp
  then have "a \<notin> bytes (us @ (b, t) # vs)" using disj by blast
  then show "a \<notin> fst ` set (us @ (b, t) # vs)" using keys_subset_bytes [OF d(5)] by blast
qed


text \<open>The three branches of \<^const>\<open>deallocate_block\<close>, after the search.\<close>

definition dealloc_site ::
    "node_mem \<Rightarrow> ptr \<Rightarrow> ptr \<Rightarrow> blocks \<Rightarrow> nat \<Rightarrow> nat \<Rightarrow> blocks \<Rightarrow> ptr \<Rightarrow> u64 \<Rightarrow> nat \<Rightarrow> nat \<Rightarrow> bool" where
  "dealloc_site m head prev us b t vs object sz a s \<longleftrightarrow>
     (\<exists>pp. at_node m head pp prev us b t vs) \<and> node_ok (a, s) \<and>
     {a ..< a + s} \<inter> bytes (us @ (b, t) # vs) = {} \<and>
     (vs = [] \<or> a \<le> fst (hd vs)) \<and> (us = [] \<or> b < a) \<and> unat object = a \<and> unat sz = s"

lemma dealloc_siteD:
  assumes "dealloc_site m head prev us b t vs object sz a s"
  shows "seg m head us prev" "unat prev = b" "unat (an_size (m prev)) = t"
    "freelist m (an_next (m prev)) vs" "fl_wf (us @ (b, t) # vs)" "fl_wf vs"
    "b \<notin> fst ` set us" "b \<notin> fst ` set vs" "0 < b" "b + t < 2 ^ 64"
    "a \<notin> fst ` set us" "a \<notin> fst ` set vs" "a \<noteq> b" "0 < a" "0 < s" "a + s < 2 ^ 64"
    "unat object = a" "unat sz = s" "vs = [] \<or> a + s \<le> fst (hd vs)" "us = [] \<or> b < a"
    "a < b \<Longrightarrow> a + s \<le> b" "a < b \<or> b + t \<le> a" "0 < t"
proof -
  from assms obtain pp where at: "at_node m head pp prev us b t vs" and ok: "node_ok (a, s)"
    and disj: "{a ..< a + s} \<inter> bytes (us @ (b, t) # vs) = {}"
    and stop: "vs = [] \<or> a \<le> fst (hd vs)" "us = [] \<or> b < a"
    and w: "unat object = a" "unat sz = s" unfolding dealloc_site_def by blast
  note d = at_nodeD [OF at]
  note pos = dealloc_position [OF at ok disj stop]
  show "seg m head us prev" "unat prev = b" "unat (an_size (m prev)) = t"
    "freelist m (an_next (m prev)) vs" "fl_wf (us @ (b, t) # vs)"
    "0 < b" "b + t < 2 ^ 64" "0 < t" using d by auto
  show "b \<notin> fst ` set us" "b \<notin> fst ` set vs" using d(2,13,14) by auto
  show "fl_wf vs" using d(5) by (auto simp: fl_wf_append fl_wf_Cons)
  show "a \<notin> fst ` set us" "a \<notin> fst ` set vs" "a \<noteq> b" using pos(5) by auto
  show "0 < a" "0 < s" "a + s < 2 ^ 64" using ok HEAP_TOP_lt by auto
  show "unat object = a" "unat sz = s" "us = [] \<or> b < a" by fact+
  show "vs = [] \<or> a + s \<le> fst (hd vs)" "a < b \<Longrightarrow> a + s \<le> b" "a < b \<or> b + t \<le> a"
    using pos by blast+
qed

lemma dealloc_site_skip:
  assumes "dealloc_site m head prev us b t vs object sz a s" "b + t \<le> a"
  shows "fl_insert a s (us @ (b, t) # vs) = us @ fl_insert a s ((b, t) # vs)"
proof (rule fl_insert_skip, rule ballI)
  fix u assume "u \<in> set us"
  then have "before u (b, t)" using dealloc_siteD(5) [OF assms(1)] by (auto simp: fl_wf_append)
  then show "before u (a, s)" using assms(2) dealloc_siteD(23) [OF assms(1)] by (cases u) auto
qed

lemma dealloc_merge:
  assumes site: "dealloc_site m head prev us b t vs object sz a s" and merge: "b + t = a"
  defines "m1 \<equiv> m(prev := (m prev)\<lparr>an_size := an_size (m prev) + sz\<rparr>)"
  shows "freelist (connect_next m1 prev (an_next (m prev))) head (fl_insert a s (us @ (b, t) # vs))"
    and "q \<noteq> prev \<Longrightarrow> connect_next m1 prev (an_next (m prev)) q = m q"
    and "\<not> util_add_overflows (an_size (m prev)) sz"
proof -
  note d = dealloc_siteD [OF site]
  have sum: "unat (an_size (m prev) + sz) = t + s"
    using d merge by (subst unat_add_no_overflow) auto
  show "\<not> util_add_overflows (an_size (m prev)) sz"
    using d merge by (auto simp: util_add_overflows_iff)
  have nxt: "an_next (m1 prev) = an_next (m prev)" by (simp add: m1_def)
  have "seg m1 head us prev" "unat (an_size (m1 prev)) = t + s" "freelist m1 (an_next (m1 prev)) vs"
    using d sum by (simp_all add: m1_def)
  moreover have "vs = [] \<or> b + (t + s) \<le> fst (hd vs)" using d(19) merge by auto
  ultimately have fl: "freelist (connect_next m1 prev (an_next (m1 prev))) head (us @ fl_insert b (t + s) vs)"
    using d by (intro connect_next_refines(1)) simp_all
  have "fl_insert a s ((b, t) # vs) = fl_insert b (t + s) vs"
    using merge d by simp
  with fl dealloc_site_skip [OF site] merge nxt
  show "freelist (connect_next m1 prev (an_next (m prev))) head (fl_insert a s (us @ (b, t) # vs))"
    by simp
  show "q \<noteq> prev \<Longrightarrow> connect_next m1 prev (an_next (m prev)) q = m q"
    by (simp add: connect_next_def m1_def)
qed

lemma dealloc_front:
  assumes site: "dealloc_site m head prev us b t vs object sz a s" and front: "a < b"
  defines "m1 \<equiv> m(object := \<lparr>an_size = sz, an_next = prev\<rparr>)"
  shows "freelist (connect_next m1 object prev) object (fl_insert a s (us @ (b, t) # vs))"
    and "q \<noteq> object \<Longrightarrow> connect_next m1 object prev q = m q"
proof -
  note d = dealloc_siteD [OF site]
  have us: "us = []" using d front by auto
  have nxt: "an_next (m1 object) = prev" by (simp add: m1_def)
  have "freelist m prev ((b, t) # vs)" using d by simp
  then have "freelist m1 (an_next (m1 object)) ((b, t) # vs)" unfolding nxt unfolding m1_def
    using d by (subst seg_upd) auto
  moreover have "fl_wf ((b, t) # vs)" using d us by simp
  ultimately have "freelist (connect_next m1 object (an_next (m1 object))) object
      ([] @ fl_insert a s ((b, t) # vs))"
    using d front by (intro connect_next_refines(1)) (simp_all add: m1_def)
  then show "freelist (connect_next m1 object prev) object (fl_insert a s (us @ (b, t) # vs))"
    using us nxt by simp
  show "q \<noteq> object \<Longrightarrow> connect_next m1 object prev q = m q"
    by (simp add: connect_next_def m1_def)
qed

lemma dealloc_mid:
  assumes site: "dealloc_site m head prev us b t vs object sz a s" and mid: "b + t < a"
  defines "m1 \<equiv> m(object := \<lparr>an_size = sz, an_next = an_next (m prev)\<rparr>)"
  defines "m2 \<equiv> m1(prev := (m1 prev)\<lparr>an_next := object\<rparr>)"
  shows "freelist (connect_next m2 object (an_next (m prev))) head (fl_insert a s (us @ (b, t) # vs))"
    and "q \<noteq> object \<Longrightarrow> q \<noteq> prev \<Longrightarrow> connect_next m2 object (an_next (m prev)) q = m q"
proof -
  note d = dealloc_siteD [OF site]
  have ne: "object \<noteq> prev" using d by auto
  have nxt: "an_next (m2 object) = an_next (m prev)" using ne by (simp add: m1_def m2_def)
  have "seg m2 head us prev" using d by (simp add: m1_def m2_def)
  moreover have "seg m2 prev [(b, t)] object" using d ne by (simp add: m1_def m2_def)
  ultimately have seg: "seg m2 head (us @ [(b, t)]) object" by (rule seg_appendI)
  have vs: "freelist m2 (an_next (m2 object)) vs" unfolding nxt using d by (simp add: m1_def m2_def)
  have sz: "unat (an_size (m2 object)) = s" using d ne by (simp add: m1_def m2_def)
  have keys: "a \<notin> fst ` set (us @ [(b, t)])" using d by auto
  have fl: "freelist (connect_next m2 object (an_next (m2 object))) head
      ((us @ [(b, t)]) @ fl_insert a s vs)"
    using connect_next_refines(1) [OF seg d(17,14) sz vs d(6) keys d(12,19)] .
  have "fl_insert a s ((b, t) # vs) = (b, t) # fl_insert a s vs" using mid by simp
  with fl nxt dealloc_site_skip [OF site] mid
  show "freelist (connect_next m2 object (an_next (m prev))) head (fl_insert a s (us @ (b, t) # vs))"
    by simp
  show "q \<noteq> object \<Longrightarrow> q \<noteq> prev \<Longrightarrow> connect_next m2 object (an_next (m prev)) q = m q"
    by (simp add: connect_next_def m1_def m2_def)
qed


lemma deallocate_block_refines:
  assumes fl: "freelist m head xs" "fl_wf xs" and ok: "node_ok (a, s)"
    and disj: "{a ..< a + s} \<inter> bytes xs = {}"
    and w: "unat object = a" "unat sz = s"
  shows "\<exists>m' head'. deallocate_block m head object sz = Some (m', head') \<and>
    freelist m' head' (fl_insert a s xs) \<and>
    (\<forall>q. unat q \<notin> bytes xs \<union> {a ..< a + s} \<longrightarrow> m' q = m q)"
proof -
  have pre: "object \<noteq> NULL" "NODE_HEADER_SIZE \<le> sz" "sz mod NODE_HEADER_SIZE = 0"
    using ok w by (auto simp: word_le_nat_alt word_unat_eq_iff unat_mod dest: dvd_imp_le)
  have obj: "unat object \<in> {a ..< a + s}" using ok w by simp
  show ?thesis
  proof (cases xs)
    case Nil
    then have "head = NULL" using fl by simp
    then show ?thesis using pre w Nil obj ok by (auto simp: deallocate_block_def)
  next
    case (Cons x ys)
    obtain b0 t0 where x: "x = (b0, t0)" by force
    have h: "head \<noteq> NULL" using freelist_notNULL [OF fl(1)] Cons by simp
    have "at_node m head NULL head [] b0 t0 ys"
      using fl Cons x by (auto simp: at_node_def)
    from deallocate_seek_refines [OF this, of object] obtain us b t vs pp prev where
      xs': "[] @ (b0, t0) # ys = us @ (b, t) # vs" and
      seek: "deallocate_seek m object head (an_next (m head)) = Some (prev, an_next (m prev))" and
      at: "at_node m head pp prev us b t vs" and
      stop: "vs = [] \<or> a \<le> fst (hd vs)" "us = [] \<or> b < a"
      unfolding w by blast
    have xs: "xs = us @ (b, t) # vs" using xs' Cons x by simp
    have site: "dealloc_site m head prev us b t vs object sz a s"
      unfolding dealloc_site_def using at ok disj stop w xs by blast
    note d = dealloc_siteD [OF site]
    have nx: "object \<le> an_next (m prev) \<or> an_next (m prev) = 0"
      using d(4) stop(1) w by (cases vs) (auto simp: word_le_nat_alt)
    have pn: "prev \<noteq> NULL" using d by auto
    have "unat (prev + an_size (m prev)) = b + t"
      using d by (subst unat_add_no_overflow) simp_all
    then have adj: "prev + an_size (m prev) = object \<longleftrightarrow> b + t = a"
      using w by (metis unat_inj)
    have lt: "object < prev \<longleftrightarrow> a < b" using d by (simp add: word_less_nat_alt)
    have frame: "q \<noteq> prev" "q \<noteq> object" if "unat q \<notin> bytes xs \<union> {a ..< a + s}" for q
      using d that by (auto simp: xs)
    note run = deallocate_block_def [of m head object sz] pre h seek nx pn adj lt
    consider "b + t = a" | "a < b" | "b + t < a" using d(22) by linarith
    then show ?thesis
    proof cases
      case 1
      then show ?thesis using dealloc_merge [OF site 1, folded xs] frame by (simp add: run)
    next
      case 2
      then show ?thesis using dealloc_front(1,2) [OF site 2, folded xs] frame by (simp add: run)
    next
      case 3
      then show ?thesis using dealloc_mid [OF site 3, folded xs] frame by (simp add: run)
    qed
  qed
qed

text \<open>
  Freeing an object gives its rounded-up size back to the free blocks, coalesced with its
  neighbours, and takes it off the allocated size.
\<close>

lemma freelist_deallocate_object_refines:
  assumes fl: "freelist m (heap al) xs" "fl_wf xs"
    and ok: "node_ok (unat object, object_size sz)"
    and disj: "{unat object ..< unat object + object_size sz} \<inter> bytes xs = {}"
    and sz: "0 < sz" "sz \<le> MAX_ALLOC_SIZE"
  shows "\<exists>m' al'. freelist_deallocate_object m al object sz = Some (m', al') \<and>
    freelist m' (heap al') (fl_insert (unat object) (object_size sz) xs) \<and>
    total_size al' = total_size al \<and>
    alloc_size al' = alloc_size al - of_nat (object_size sz) \<and>
    (\<forall>q. unat q \<notin> bytes xs \<union> {unat object ..< unat object + object_size sz} \<longrightarrow> m' q = m q)"
proof -
  have u: "unat (util_balign_up sz HEAP_MIN_ALLOC) = object_size sz"
    using object_size_eq sz by simp
  then have szw: "util_balign_up sz HEAP_MIN_ALLOC = of_nat (object_size sz)"
    by (metis of_nat_unat ucast_id)
  from deallocate_block_refines [OF fl ok disj refl u] obtain m' head' where
    r: "deallocate_block m (heap al) object (util_balign_up sz HEAP_MIN_ALLOC) = Some (m', head')"
      "freelist m' head' (fl_insert (unat object) (object_size sz) xs)"
      "\<forall>q. unat q \<notin> bytes xs \<union> {unat object ..< unat object + object_size sz} \<longrightarrow> m' q = m q"
    by blast
  have "object \<noteq> NULL" using ok by auto
  then show ?thesis using r sz unfolding szw by (simp add: freelist_deallocate_object_def szw)
qed

end
