(* ===== verification/Freelist_Add.thy ===== *)
theory Freelist_Add
  imports Freelist_Dealloc
begin

text \<open>
  Adding memory to the heap: exactly which blocks \<^verbatim>\<open>list_add\<close> of
  \<^verbatim>\<open>hyp/mem/allocator_list/src/freelist.c\<close> accepts, and that an accepted block is inserted and
  coalesced while a refused one changes nothing.
\<close>

section \<open>Adding memory\<close>

text \<open>
  Which blocks \<^const>\<open>list_add\<close> accepts, over the list of free blocks: \<open>touching b t a s c\<close>
  is its decision for a block \<open>(a, s)\<close> between the free blocks \<open>(b, t)\<close> and \<open>(c, _)\<close>. The
  factor 16 is the pointer arithmetic of the source.
\<close>

definition touching :: "nat \<Rightarrow> nat \<Rightarrow> nat \<Rightarrow> nat \<Rightarrow> nat \<Rightarrow> bool" where
  "touching b t a s c \<longleftrightarrow>
     (if b + t = a then a + 16 * s < c \<or> a + s = c else b + t < a \<and> a + s < c)"

fun accepts_after :: "nat \<Rightarrow> nat \<Rightarrow> blocks \<Rightarrow> bool" where
  "accepts_after a s [] = False"
| "accepts_after a s [(b, t)] = (b + t \<le> a)"
| "accepts_after a s ((b, t) # (c, r) # xs) =
     (if c \<le> a then accepts_after a s ((c, r) # xs) else touching b t a s c)"

fun list_add_accepts :: "nat \<Rightarrow> nat \<Rightarrow> blocks \<Rightarrow> bool" where
  "list_add_accepts a s [] = True"
| "list_add_accepts a s ((b, t) # xs) = (a + s \<le> b \<or> accepts_after a s ((b, t) # xs))"

text \<open>Where the search of \<^const>\<open>list_add\<close> stops.\<close>

lemma list_add_seek_refines:
  assumes "at_node m head pp prev us b t vs"
  shows "\<exists>us' b' t' vs' pp' prev'. us @ (b, t) # vs = us' @ (b', t') # vs' \<and>
    list_add_seek m node prev (an_next (m prev)) = Some (prev', an_next (m prev')) \<and>
    at_node m head pp' prev' us' b' t' vs' \<and>
    (vs' = [] \<or> unat node < fst (hd vs')) \<and> (us' = us \<or> b' \<le> unat node) \<and>
    accepts_after (unat node) s ((b, t) # vs) = accepts_after (unat node) s ((b', t') # vs')"
  using assms
proof (induction vs arbitrary: us b t pp prev)
  case Nil
  have "an_next (m prev) = NULL" using at_nodeD(4) [OF Nil] by simp
  then have "list_add_seek m node prev (an_next (m prev)) = Some (prev, an_next (m prev))"
    by (subst list_add_seek.simps) simp
  then show ?case using Nil by blast
next
  case (Cons v vs)
  obtain c r where v: "v = (c, r)" by force
  note d = at_nodeD [OF Cons.prems]
  let ?n = "an_next (m prev)"
  have n: "unat ?n = c" "unat (an_size (m ?n)) = r" "freelist m (an_next (m ?n)) vs" "c \<noteq> 0"
    using d(4) v by auto
  have wf: "fl_wf ((us @ [(b, t)]) @ (c, r) # vs)" using d(5) v by simp
  have nn: "?n \<noteq> NULL" using n by auto
  show ?case
  proof (cases "c \<le> unat node")
    case True
    have "seg m head (us @ [(b, t)]) ?n" using d by (auto intro!: seg_appendI)
    then have "at_node m head prev ?n (us @ [(b, t)]) c r vs"
      using n wf d(2) by (auto simp: at_node_def)
    from Cons.IH [OF this] obtain us' b' t' vs' pp' prev' where
      r: "(us @ [(b, t)]) @ (c, r) # vs = us' @ (b', t') # vs'"
        "list_add_seek m node ?n (an_next (m ?n)) = Some (prev', an_next (m prev'))"
        "at_node m head pp' prev' us' b' t' vs'"
        "vs' = [] \<or> unat node < fst (hd vs')"
        "us' = us @ [(b, t)] \<or> b' \<le> unat node"
        "accepts_after (unat node) s ((c, r) # vs) = accepts_after (unat node) s ((b', t') # vs')"
      by blast
    have "list_add_seek m node prev ?n = Some (prev', an_next (m prev'))"
      using r(2) nn True n by (subst list_add_seek.simps) (simp add: word_le_nat_alt)
    moreover have "b' \<le> unat node" using r(1,5) True by auto
    moreover have "us @ (b, t) # v # vs = us' @ (b', t') # vs'" using r(1) v by simp
    moreover have "accepts_after (unat node) s ((b, t) # v # vs) =
        accepts_after (unat node) s ((b', t') # vs')" using r(6) True v by simp
    ultimately show ?thesis using r(3,4) by blast
  next
    case False
    then have "list_add_seek m node prev ?n = Some (prev, ?n)"
      using n by (subst list_add_seek.simps) (simp add: word_le_nat_alt)
    then show ?thesis using Cons.prems False v
      by (intro exI [of _ us] exI [of _ b] exI [of _ t] exI [of _ "v # vs"] exI [of _ pp]
          exI [of _ prev]) auto
  qed
qed

lemma between_disjoint:
  assumes wf: "fl_wf (us @ (b, t) # vs)" and "b + t \<le> a" "vs = [] \<or> a + s \<le> fst (hd vs)"
  shows "{a ..< a + s} \<inter> bytes (us @ (b, t) # vs) = {}"
proof -
  have us: "x < b" if "x \<in> bytes us" for x
  proof -
    from that obtain u where u: "u \<in> set us" "x \<in> span u" by (auto simp: bytes_def)
    then have "before u (b, t)" using wf by (auto simp: fl_wf_append)
    then show ?thesis using u by (cases u) auto
  qed
  have vs: "fst (hd vs) \<le> x" if "x \<in> bytes vs" for x
  proof (cases vs)
    case (Cons v ws)
    then have "\<forall>w \<in> set ws. before v w" using wf by (auto simp: fl_wf_append fl_wf_Cons)
    then show ?thesis using that Cons bytes_above [of ws "fst v" "snd v" x] by (cases v) auto
  qed (use that in simp)
  show ?thesis using us vs assms(2,3) by fastforce
qed

lemma front_disjoint:
  assumes wf: "fl_wf xs" and "xs = [] \<or> a + s \<le> fst (hd xs)"
  shows "{a ..< a + s} \<inter> bytes xs = {}"
proof (cases xs)
  case (Cons v ws)
  then have "\<forall>w \<in> set ws. before v w" using wf by (auto simp: fl_wf_Cons)
  then have "x \<in> bytes ws \<Longrightarrow> fst v + snd v < x" for x
    using bytes_above [of ws "fst v" "snd v"] by simp
  then show ?thesis using assms(2) Cons by (cases v) fastforce
qed simp

lemma not_front_search:
  "0 < s \<Longrightarrow> \<not> a + s \<le> b \<Longrightarrow> a < b \<Longrightarrow> (vs = [] \<or> a < fst (hd vs)) \<Longrightarrow> \<not> accepts_after a s ((b, t) # vs)"
  by (cases vs) (auto simp: touching_def)

definition list_add_spec ::
    "node_mem \<Rightarrow> ptr \<Rightarrow> blocks \<Rightarrow> nat \<Rightarrow> nat \<Rightarrow> (error_t \<times> node_mem \<times> ptr) option \<Rightarrow> bool" where
  "list_add_spec m head xs a s r \<longleftrightarrow>
     (if list_add_accepts a s xs
      then \<exists>m' head'. r = Some (OK, m', head') \<and> {a ..< a + s} \<inter> bytes xs = {} \<and>
        freelist m' head' (fl_insert a s xs) \<and>
        (\<forall>q. unat q \<notin> bytes xs \<union> {a ..< a + s} \<longrightarrow> m' q = m q)
      else r = Some (ERROR_ALLOCATOR_RANGE_OVERLAPPING, m, head))"


text \<open>The comparisons of \<^const>\<open>list_add\<close>, over natural numbers.\<close>

lemma list_add_words:
  fixes node sz x :: u64
  assumes "unat node = a" "unat sz = s" "a + 16 * s < 2 ^ 64"
  shows "node + sz < x \<longleftrightarrow> a + s < unat x" "node + sz = x \<longleftrightarrow> a + s = unat x"
    "node + sz * 16 < x \<longleftrightarrow> a + 16 * s < unat x" "node + sz * 16 = x \<longleftrightarrow> a + 16 * s = unat x"
proof -
  have 1: "unat (node + sz) = a + s"
    using assms by (subst unat_add_no_overflow) auto
  have "unat (sz * 16) = 16 * s" using assms by (simp add: unat_mult_lem [THEN iffD1])
  then have 2: "unat (node + sz * 16) = a + 16 * s"
    using assms by (subst unat_add_no_overflow) auto
  show "node + sz < x \<longleftrightarrow> a + s < unat x" "node + sz = x \<longleftrightarrow> a + s = unat x"
    "node + sz * 16 < x \<longleftrightarrow> a + 16 * s < unat x" "node + sz * 16 = x \<longleftrightarrow> a + 16 * s = unat x"
    using 1 2 by (simp_all add: word_less_nat_alt word_unat_eq_iff)
qed

lemma list_add_tail:
  assumes at: "at_node m head pp prev us b t vs" and ok: "node_ok (a, s)" "a + 16 * s < 2 ^ 64"
    and stop: "vs = [] \<or> a < fst (hd vs)" "us = [] \<or> b \<le> a"
    and w: "unat node = a" "unat sz = s"
    and front: "head \<noteq> NULL" "\<not> a + s \<le> unat head"
    and seek: "list_add_seek m node head (an_next (m head)) = Some (prev, an_next (m prev))"
    and xs: "xs = us @ (b, t) # vs" "list_add_accepts a s xs = accepts_after a s ((b, t) # vs)"
  shows "list_add_spec m head xs a s (list_add m head node sz)"
proof -
  note d = at_nodeD [OF at]
  note ww = list_add_words [OF w ok(2)]
  have pe: "unat (prev + an_size (m prev)) = b + t"
    using d by (subst unat_add_no_overflow) simp_all
  have pw: "prev + an_size (m prev) = node \<longleftrightarrow> b + t = a" "prev + an_size (m prev) < node \<longleftrightarrow> b + t < a"
    using pe w by (auto simp: word_less_nat_alt word_unat_eq_iff)
  have nx: "an_next (m prev) = NULL \<longleftrightarrow> vs = []" "vs \<noteq> [] \<Longrightarrow> unat (an_next (m prev)) = fst (hd vs)"
    using d(4) by (cases vs; auto)+
  have fr: "\<not> a + s < unat head" "a + s \<noteq> unat head" using front(2) by auto
  have run: "list_add m head node sz = Some
      (if vs \<noteq> [] then
         if b + t = a then
           if a + 16 * s < fst (hd vs) then
             (OK, m(prev := (m prev)\<lparr>an_size := an_size (m prev) + sz\<rparr>), head)
           else if a + s = fst (hd vs) then
             (OK, m(prev := \<lparr>an_size = an_size (m prev) + (sz + an_size (m (an_next (m prev)))),
                an_next = an_next (m (an_next (m prev)))\<rparr>), head)
           else (ERROR_ALLOCATOR_RANGE_OVERLAPPING, m, head)
         else if b + t < a \<and> a + s < fst (hd vs) then
           (OK, (m(node := \<lparr>an_size = sz, an_next = an_next (m prev)\<rparr>))
             (prev := \<lparr>an_size = an_size (m prev), an_next = node\<rparr>), head)
         else (ERROR_ALLOCATOR_RANGE_OVERLAPPING, m, head)
       else if b + t = a then (OK, m(prev := (m prev)\<lparr>an_size := an_size (m prev) + sz\<rparr>), head)
       else if b + t < a then
         (OK, (m(node := \<lparr>an_size = sz, an_next = NULL\<rparr>))
           (prev := \<lparr>an_size = an_size (m prev), an_next = node\<rparr>), head)
       else (ERROR_ALLOCATOR_RANGE_OVERLAPPING, m, head))"
    using fr nx ok(1) by (simp add: list_add_def front(1) seek ww pw)
  have site: "dealloc_site m head prev us b t vs node sz a s"
    if "b + t \<le> a" "vs = [] \<or> a + s \<le> fst (hd vs)"
    unfolding dealloc_site_def
    using at ok between_disjoint [OF d(5) that] stop w that d(10) by auto
  show ?thesis
  proof (cases "accepts_after a s ((b, t) # vs)")
    case True
    then have fits: "b + t \<le> a" "vs = [] \<or> a + s \<le> fst (hd vs)"
      using stop ok by (cases vs; auto simp: touching_def split: if_splits)+
    note S = site [OF fits] and D = dealloc_siteD [OF site [OF fits]]
    have ne: "node \<noteq> prev" using D by auto
    have T: "vs \<noteq> [] \<Longrightarrow> touching b t a s (fst (hd vs))"
      using True stop(1) by (cases vs) auto
    have nn: "vs \<noteq> [] \<Longrightarrow> an_next (m prev) \<noteq> prev"
      using nx(2) D(2,8) by (cases vs) auto
    have frame: "q \<noteq> prev" "q \<noteq> node" if "unat q \<notin> bytes xs \<union> {a ..< a + s}" for q
      using D that by (auto simp: xs)
    have disj: "{a ..< a + s} \<inter> bytes xs = {}"
      using between_disjoint [OF d(5) fits] by (simp add: xs)
    show ?thesis
    proof (cases "b + t = a")
      case merge: True
      then have "prev + (an_size (m prev) + sz) = node + sz"
        using pw(1) by (metis add.assoc)
      then have next_end: "vs \<noteq> [] \<Longrightarrow>
          prev + (an_size (m prev) + sz) = an_next (m prev) \<longleftrightarrow> a + s = fst (hd vs)"
        using ww(2) [of "an_next (m prev)"] nx(2) by metis
      have "list_add m head node sz = Some (OK, connect_next
          (m(prev := (m prev)\<lparr>an_size := an_size (m prev) + sz\<rparr>)) prev (an_next (m prev)), head)"
        unfolding run using T merge next_end nn
        by (cases "vs = []") (auto simp: touching_def connect_next_def nx(1) node_upds add.assoc)
      then show ?thesis
        using dealloc_merge [OF S merge, folded xs] frame disj True xs(2)
        by (simp add: list_add_spec_def)
    next
      case False
      then have mid: "b + t < a" using fits by simp
      have "list_add m head node sz = Some (OK, connect_next
          ((m(node := \<lparr>an_size = sz, an_next = an_next (m prev)\<rparr>))
             (prev := ((m(node := \<lparr>an_size = sz, an_next = an_next (m prev)\<rparr>)) prev)\<lparr>an_next := node\<rparr>))
          node (an_next (m prev)), head)"
        unfolding run using T mid ne nx(1)
        by (cases "vs = []") (auto simp: touching_def connect_next_def nx ww node_upds)
      then show ?thesis
        using dealloc_mid [OF S mid, folded xs] frame disj True xs(2)
        by (simp add: list_add_spec_def)
    qed
  next
    case False
    then have "list_add m head node sz = Some (ERROR_ALLOCATOR_RANGE_OVERLAPPING, m, head)"
      using stop unfolding run by (cases vs) (auto simp: touching_def split: if_splits)
    then show ?thesis using False xs(2) by (simp add: list_add_spec_def)
  qed
qed

lemma list_add_refines:
  assumes fl: "freelist m head xs" "fl_wf xs" and ok: "node_ok (a, s)" "a + 16 * s < 2 ^ 64"
    and w: "unat node = a" "unat sz = s"
  shows "list_add_spec m head xs a s (list_add m head node sz)"
proof (cases xs)
  case Nil
  then have "head = NULL" using fl by simp
  then show ?thesis using w ok Nil by (auto simp: list_add_def list_add_spec_def)
next
  case (Cons x ys)
  obtain b t where x: "x = (b, t)" by force
  have h: "head \<noteq> NULL" "unat head = b" using fl(1) Cons x by auto
  note ww = list_add_words [OF w ok(2)]
  have at: "at_node m head NULL head [] b t ys"
    using fl Cons x by (auto simp: at_node_def)
  show ?thesis
  proof (cases "a + s \<le> b")
    case True
    have before: "ys = [] \<or> a \<le> fst (hd ys)"
      using fl(2) True Cons x by (cases ys) (auto simp: fl_wf_Cons)
    have site: "dealloc_site m head head [] b t ys node sz a s"
      unfolding dealloc_site_def
      using at ok w front_disjoint [OF fl(2), of a s] True Cons x before by auto
    note D = dealloc_siteD [OF site]
    have lt: "a < b" using True ok by simp
    have frame: "q \<noteq> node" if "unat q \<notin> bytes xs \<union> {a ..< a + s}" for q
      using D that by auto
    have "list_add m head node sz = Some (OK, connect_next
        (m(node := \<lparr>an_size = sz, an_next = head\<rparr>)) node head, node)"
      using h True ww D(13,2) w by (auto simp: list_add_def connect_next_def)
    then show ?thesis
      using dealloc_front [OF site lt] frame front_disjoint [OF fl(2), of a s] True Cons x
      by (simp add: list_add_spec_def)
  next
    case False
    from list_add_seek_refines [OF at, of node s] obtain us b' t' vs pp prev where
      r: "[] @ (b, t) # ys = us @ (b', t') # vs"
        "list_add_seek m node head (an_next (m head)) = Some (prev, an_next (m prev))"
        "at_node m head pp prev us b' t' vs"
        "vs = [] \<or> a < fst (hd vs)" "us = [] \<or> b' \<le> a"
        "accepts_after a s ((b, t) # ys) = accepts_after a s ((b', t') # vs)"
      unfolding w by blast
    have "list_add_accepts a s xs = accepts_after a s ((b', t') # vs)" "xs = us @ (b', t') # vs"
      using r(1,6) False Cons x by (metis append_Nil list_add_accepts.simps(2))+
    then show ?thesis
      using r(2) False h by (intro list_add_tail [OF r(3) ok r(4,5) w]) simp_all
  qed
qed

end
