(* ===== verification/Freelist_Remove.thy ===== *)
theory Freelist_Remove
  imports Freelist_Dealloc
begin

text \<open>
  Taking memory out of the heap again: \<^verbatim>\<open>freelist_heap_remove_memory\<close> of
  \<^verbatim>\<open>hyp/mem/allocator_list/src/freelist.c\<close> refines the removal of a range from the list of
  free blocks.
\<close>

section \<open>Removing memory\<close>

text \<open>Where the search of \<^const>\<open>freelist_heap_remove_memory\<close> stops.\<close>

lemma remove_seek_refines:
  assumes "seg m head us cur" "freelist m cur vs" "fl_wf (us @ vs)" "prev_of us prev"
    "\<forall>u \<in> set us. fst u < unat addr" "addr \<noteq> 0"
  shows "\<exists>us' vs' prev' cur'. us @ vs = us' @ vs' \<and>
    remove_seek m addr prev cur = Some (prev', cur') \<and>
    seg m head us' cur' \<and> freelist m cur' vs' \<and> prev_of us' prev' \<and>
    (\<forall>u \<in> set us'. fst u < unat addr) \<and> (vs' = [] \<or> unat addr \<le> fst (hd vs'))"
  using assms
proof (induction vs arbitrary: us prev cur)
  case Nil
  then have "remove_seek m addr prev cur = Some (prev, cur)"
    by (subst remove_seek.simps) simp
  then show ?case using Nil by auto
next
  case (Cons v vs)
  obtain c r where v: "v = (c, r)" by force
  have n: "unat cur = c" "unat (an_size (m cur)) = r" "freelist m (an_next (m cur)) vs" "cur \<noteq> NULL"
    using Cons.prems(2) v by auto
  show ?case
  proof (cases "c < unat addr")
    case True
    have "prev < addr"
    proof (cases us rule: rev_cases)
      case Nil
      then show ?thesis using Cons.prems by (simp add: word_gt_0)
    next
      case (snoc ws u)
      then show ?thesis using Cons.prems(4,5) by (simp add: word_less_nat_alt)
    qed
    then have step: "remove_seek m addr prev cur = remove_seek m addr cur (an_next (m cur))"
      using True n by (subst remove_seek.simps) (simp add: word_less_nat_alt)
    have "seg m head (us @ [(c, r)]) (an_next (m cur))"
      using Cons.prems(1,2) n v by (auto intro!: seg_appendI)
    moreover have "fl_wf ((us @ [(c, r)]) @ vs)" using Cons.prems(3) v by simp
    moreover have "prev_of (us @ [(c, r)]) cur" using n by simp
    moreover have "\<forall>u \<in> set (us @ [(c, r)]). fst u < unat addr" using Cons.prems(5) True by auto
    ultimately obtain us' vs' prev' cur' where
      r: "(us @ [(c, r)]) @ vs = us' @ vs'"
        "remove_seek m addr cur (an_next (m cur)) = Some (prev', cur')"
        "seg m head us' cur'" "freelist m cur' vs'" "prev_of us' prev'"
        "\<forall>u \<in> set us'. fst u < unat addr" "vs' = [] \<or> unat addr \<le> fst (hd vs')"
      using Cons.IH [of "us @ [(c, r)]" "an_next (m cur)" cur] n(3) Cons.prems(6) by blast
    have "us @ v # vs = us' @ vs'" using r(1) v by simp
    then show ?thesis unfolding step using r(2-7) by blast
  next
    case False
    then have "remove_seek m addr prev cur = Some (prev, cur)"
      using n by (subst remove_seek.simps) (simp add: word_less_nat_alt)
    moreover have "v # vs = [] \<or> unat addr \<le> fst (hd (v # vs))" using False v by simp
    ultimately show ?thesis using Cons.prems by blast
  qed
qed

lemma fl_remove_skip:
  "\<forall>(b, t) \<in> set us. \<not> (b \<le> p \<and> p + n \<le> b + t) \<Longrightarrow>
    fl_remove p n (us @ vs) = map_option (\<lambda>ys. us @ ys) (fl_remove p n vs)"
  by (induction us; cases "fl_remove p n vs") auto

lemma fl_remove_above:
  "\<forall>(b, t) \<in> set vs. p < b \<Longrightarrow> fl_remove p n vs = None"
  by (induction vs) auto

definition remove_spec ::
    "node_mem \<Rightarrow> allocator_list \<Rightarrow> blocks \<Rightarrow> nat \<Rightarrow> u64 \<Rightarrow>
      (error_t \<times> node_mem \<times> allocator_list) option \<Rightarrow> bool" where
  "remove_spec m A xs p sz r \<longleftrightarrow> (case fl_remove p (unat sz) xs of
      None \<Rightarrow> r = Some (ERROR_ALLOCATOR_MEM_INUSE, m, A)
    | Some ys \<Rightarrow> \<exists>m' head'. r = Some (OK, m', A\<lparr>heap := head', total_size := total_size A - sz\<rparr>) \<and>
        freelist m' head' ys \<and> (\<forall>q. unat q \<notin> bytes xs \<longrightarrow> m' q = m q))"

lemma prev_of_ex:
  assumes "fl_wf us" shows "\<exists>pp. prev_of us pp"
proof (cases us rule: rev_cases)
  case (snoc ws u)
  obtain a s where u: "u = (a, s)" by force
  have "a < 2 ^ 64" using wf_node(6) [of ws a s "[]"] assms snoc u by simp
  then have "unat (word_of_nat a :: u64) = a" by (simp add: unat_of_nat take_bit_nat_eq_self)
  then show ?thesis using snoc u by auto
qed simp

lemma remove_words:
  fixes addr sz x y :: u64
  assumes "\<not> util_add_overflows addr sz" "unat x + unat y < 2 ^ 64"
  shows "unat (addr + sz) = unat addr + unat sz"
    "x + y < addr + sz \<longleftrightarrow> unat x + unat y < unat addr + unat sz"
    "x + y = addr + sz \<longleftrightarrow> unat x + unat y = unat addr + unat sz"
proof -
  show 1: "unat (addr + sz) = unat addr + unat sz"
    using assms(1) by (subst unat_add_no_overflow) (simp_all add: util_add_overflows_iff)
  have 2: "unat (x + y) = unat x + unat y" using assms(2) by (subst unat_add_no_overflow) simp_all
  show "x + y < addr + sz \<longleftrightarrow> unat x + unat y < unat addr + unat sz"
    "x + y = addr + sz \<longleftrightarrow> unat x + unat y = unat addr + unat sz"
    using 1 2 by (simp_all add: word_less_nat_alt word_unat_eq_iff)
qed

lemma remove_specI:
  assumes "fl_remove p (unat sz) xs = Some ys" "freelist m' head' ys"
    "\<And>q. unat q \<notin> bytes xs \<Longrightarrow> m' q = m q"
  shows "remove_spec m A xs p sz (Some (OK, m', A\<lparr>heap := head', total_size := total_size A - sz\<rparr>))"
  using assms unfolding remove_spec_def by auto

lemma remove_specI_head:
  assumes "fl_remove p (unat sz) xs = Some ys" "freelist m' (heap A) ys"
    "\<And>q. unat q \<notin> bytes xs \<Longrightarrow> m' q = m q"
  shows "remove_spec m A xs p sz (Some (OK, m', A\<lparr>total_size := total_size A - sz\<rparr>))"
  using remove_specI [OF assms, of A] by simp

text \<open>The range starts at the node the search stopped at.\<close>

lemma remove_at:
  assumes at: "at_node m (heap A) prev cur us p t vs" and cur: "cur = addr" and sz: "unat sz = n" "0 < n"
    and ov: "\<not> util_add_overflows addr sz"
    and run: "freelist_heap_remove_memory m A addr sz =
      (let e = addr + sz; inuse = Some (ERROR_ALLOCATOR_MEM_INUSE, m, A);
           done = (\<lambda>r. Some (OK, fst r, A\<lparr>heap := snd r, total_size := total_size A - sz\<rparr>)) in
       if cur + an_size (m cur) < e then inuse
       else if cur + an_size (m cur) = e then done (list_remove m (heap A) cur prev)
       else done (list_remove (m(e := \<lparr>an_size = an_size (m cur) - sz, an_next = an_next (m cur)\<rparr>,
                                 cur := \<lparr>an_size = sz, an_next = e\<rparr>)) (heap A) cur prev))"
  shows "remove_spec m A (us @ (p, t) # vs) p sz (freelist_heap_remove_memory m A addr sz)"
proof -
  note d = at_nodeD [OF at]
  have pa: "unat addr = p" using d cur by simp
  have u: "\<forall>(b, t') \<in> set us. \<not> (b \<le> p \<and> p + n \<le> b + t')"
    using d(5) by (fastforce simp: fl_wf_append)
  have v: "\<forall>(b, t') \<in> set vs. p < b"
    using d(5) by (fastforce simp: fl_wf_append fl_wf_Cons)
  have fl: "fl_remove p n (us @ (p, t) # vs) =
      (if n \<le> t then Some (us @ carve p t p n @ vs) else None)"
    using fl_remove_skip [OF u, of "(p, t) # vs"] fl_remove_above [OF v] by auto
  note w = remove_words [OF ov, of cur "an_size (m cur)", unfolded d(2,3) pa sz, OF d(12)]
  consider "t < n" | "t = n" | "n < t" by linarith
  then show ?thesis
  proof cases
    case 1
    then show ?thesis using fl sz by (simp add: remove_spec_def run w)
  next
    case 2
    have lr: "list_remove m (heap A) cur prev =
        (if prev \<noteq> NULL then (m(prev := (m prev)\<lparr>an_next := an_next (m cur)\<rparr>), heap A)
         else (m, an_next (m cur)))" by (simp add: list_remove_def)
    have "freelist_heap_remove_memory m A addr sz = Some (OK, fst (list_remove m (heap A) cur prev),
        A\<lparr>heap := snd (list_remove m (heap A) cur prev), total_size := total_size A - sz\<rparr>)"
      using 2 by (simp add: run w Let_def)
    then show ?thesis using fl sz 2 take_all [OF at, folded lr]
      by (auto simp: carve_def intro!: remove_specI simp del: bytes_simps)
  next
    case 3
    let ?e = "addr + sz"
    let ?m1 = "m(?e := \<lparr>an_size = an_size (m cur) - sz, an_next = an_next (m cur)\<rparr>)"
    let ?n = "\<lparr>an_size = sz, an_next = ?e\<rparr>"
    note ts = take_start [OF at sz 3 w(1)]
    have pc: "prev \<noteq> cur"
    proof (cases us rule: rev_cases)
      case Nil
      then show ?thesis using d(6,7,2) by auto
    next
      case (snoc ws b)
      then show ?thesis using at_node_prev(1) [OF at, of ws "fst b" "snd b"] d(2,13) by auto
    qed
    have cu: "unat cur \<notin> fst ` set (us @ (p + n, t - n) # vs)" using d sz by auto
    have cb: "unat cur \<in> bytes (us @ (p, t) # vs)" using d by simp
    define r where "r = (if prev \<noteq> NULL then (?m1(prev := (?m1 prev)\<lparr>an_next := ?e\<rparr>), heap A)
                         else (?m1, ?e))"
    have eq: "list_remove (?m1(cur := ?n)) (heap A) cur prev = ((fst r)(cur := ?n), snd r)"
      using pc by (auto simp: list_remove_def r_def fun_upd_twist)
    have run': "freelist_heap_remove_memory m A addr sz =
        Some (OK, (fst r)(cur := ?n), A\<lparr>heap := snd r, total_size := total_size A - sz\<rparr>)"
      using 3 by (simp add: run w eq Let_def)
    have "fl_remove p (unat sz) (us @ (p, t) # vs) = Some (us @ (p + n, t - n) # vs)"
      using fl 3 sz by (simp add: carve_def)
    then show ?thesis unfolding run' using ts [folded r_def] cu cb
      by (intro remove_specI) (auto simp del: bytes_simps)
  qed
qed

text \<open>The range starts inside or behind the node before the one the search stopped at.\<close>

lemma remove_within:
  assumes at: "at_node m (heap A) pp prev us b t vs" and b: "b < p" "unat addr = p"
    and sz: "unat sz = n" "0 < n" and vs: "\<forall>(c, r) \<in> set vs. p < c"
    and ov: "\<not> util_add_overflows addr sz"
    and run: "freelist_heap_remove_memory m A addr sz =
      (let e = addr + sz; inuse = Some (ERROR_ALLOCATOR_MEM_INUSE, m, A);
           done = (\<lambda>r. Some (OK, fst r, A\<lparr>heap := snd r, total_size := total_size A - sz\<rparr>)) in
       if prev + an_size (m prev) < e then inuse
       else if prev + an_size (m prev) = e
       then done (m(prev := (m prev)\<lparr>an_size := an_size (m prev) - sz\<rparr>), heap A)
       else done (m(e := \<lparr>an_size = prev + an_size (m prev) - e, an_next = an_next (m prev)\<rparr>,
                    prev := \<lparr>an_size = addr - prev, an_next = e\<rparr>), heap A))"
  shows "remove_spec m A (us @ (b, t) # vs) p sz (freelist_heap_remove_memory m A addr sz)"
proof -
  note d = at_nodeD [OF at]
  have "before u (b, t)" if "u \<in> set us" for u
    using d(5) that by (auto simp: fl_wf_append)
  then have u: "\<forall>(c, r) \<in> set us. \<not> (c \<le> p \<and> p + n \<le> c + r)"
    using b by fastforce
  have fl: "fl_remove p n (us @ (b, t) # vs) =
      (if p + n \<le> b + t then Some (us @ carve b t p n @ vs) else None)"
    using fl_remove_skip [OF u, of "(b, t) # vs"] fl_remove_above [OF vs] b by auto
  note w = remove_words [OF ov, of prev "an_size (m prev)", unfolded d(2,3) b sz, OF d(12)]
  consider "b + t < p + n" | "b + t = p + n" | "p + n < b + t" by linarith
  then show ?thesis
  proof cases
    case 1
    then show ?thesis using fl sz by (simp add: remove_spec_def run w)
  next
    case 2
    have nt: "n < t" using 2 b by simp
    have "fl_remove p (unat sz) (us @ (b, t) # vs) = Some (us @ (b, t - n) # vs)"
      using fl 2 b sz by (auto simp: carve_def)
    then show ?thesis using take_end [OF at sz(1) nt] 2
      by (auto simp: run w Let_def intro!: remove_specI_head simp del: bytes_simps)
  next
    case 3
    have rest: "unat (prev + an_size (m prev) - (addr + sz)) = b + t - (p + n)"
      using w(1) 3 d by (subst unat_diff_le) (simp_all add: unat_add_no_overflow)
    have "fl_remove p (unat sz) (us @ (b, t) # vs) =
        Some (us @ (b, p - b) # (p + n, b + t - (p + n)) # vs)"
      using fl 3 b sz by (auto simp: carve_def)
    then show ?thesis using take_middle [OF at b(2,1) w(1) 3 rest] 3
      by (auto simp: run w Let_def intro!: remove_specI_head simp del: bytes_simps)
  qed
qed

lemma search_above:
  assumes "fl_wf vs" "vs = [] \<or> p < fst (hd vs)"
  shows "\<forall>(c, r) \<in> set vs. p < c"
proof (cases vs)
  case (Cons v ws)
  then have "\<forall>w \<in> set ws. before v w" using assms(1) by (simp add: fl_wf_Cons)
  then show ?thesis using assms(2) Cons by (cases v) fastforce
qed simp

lemma freelist_heap_remove_memory_refines:
  assumes fl: "freelist m (heap A) xs" "fl_wf xs" "xs \<noteq> []"
    and addr: "addr \<noteq> 0" "\<not> util_add_overflows addr sz" and sz: "16 \<le> unat sz" "16 dvd unat sz"
  shows "remove_spec m A xs (unat addr) sz (freelist_heap_remove_memory m A addr sz)"
proof -
  have "seg m (heap A) [] (heap A)" "fl_wf ([] @ xs)" "prev_of [] NULL"
    "\<forall>u \<in> set []. fst u < unat addr" using fl by simp_all
  from remove_seek_refines [OF this(1) fl(1) this(2-4) addr(1)] obtain us vs prev cur where
    xs: "xs = us @ vs" and r: "remove_seek m addr NULL (heap A) = Some (prev, cur)"
      "seg m (heap A) us cur" "freelist m cur vs" "prev_of us prev"
      "\<forall>u \<in> set us. fst u < unat addr" "vs = [] \<or> unat addr \<le> fst (hd vs)"
    by auto
  have h: "heap A \<noteq> NULL" using freelist_notNULL [OF fl(1)] fl(3) by simp
  have cn: "addr \<le> cur \<or> cur = 0" using r(3,6) by (cases vs) (auto simp: word_le_nat_alt)
  have pn: "prev < addr"
  proof (cases us rule: rev_cases)
    case Nil
    then show ?thesis using r(4) addr by (simp add: word_gt_0)
  next
    case (snoc ws u)
    then show ?thesis using r(4,5) by (simp add: word_less_nat_alt)
  qed
  have al: "\<not> sz < 16" "util_is_baligned sz 16"
    using sz by (simp_all add: word_less_nat_alt util_is_baligned_dvd p2_16)
  note run = freelist_heap_remove_memory_def [of m A addr sz] h addr al r(1) cn pn
  consider (at) t ws where "vs = (unat addr, t) # ws" "cur = addr"
    | (within) ws b t where "us = ws @ [(b, t)]" "vs = [] \<or> unat addr < fst (hd vs)" "cur \<noteq> addr"
    | (none) "us = []" "vs = [] \<or> unat addr < fst (hd vs)" "cur \<noteq> addr"
  proof (cases "cur = addr")
    case True
    then have "vs \<noteq> []" using r(3) addr(1) by auto
    then obtain v ws where "vs = v # ws" by (cases vs) auto
    then show thesis using at [of "snd v" ws] True r(3) by (cases v) auto
  next
    case False
    have "vs = [] \<or> unat addr < fst (hd vs)"
      using r(3,6) False by (cases vs) (auto simp: word_unat_eq_iff)
    then show thesis using within none False by (cases us rule: rev_cases) auto
  qed
  then show ?thesis
  proof cases
    case at
    have "at_node m (heap A) prev cur us (unat addr) t ws"
      using r fl(2) xs at by (simp add: at_node_def)
    then show ?thesis unfolding xs at(1)
      by (rule remove_at [OF _ at(2) refl _ addr(2)])
        (use sz at in \<open>simp_all add: run Let_def split_beta\<close>)
  next
    case within
    have wf: "fl_wf (ws @ (b, t) # vs)" using fl(2) xs within(1) by simp
    then have "fl_wf ws" by (simp add: fl_wf_append)
    then obtain pp where pp: "prev_of ws pp" using prev_of_ex by blast
    obtain q where q: "seg m (heap A) ws q" "unat q = b" "unat (an_size (m q)) = t" "an_next (m q) = cur"
      using r(2) within(1) by (auto simp: seg_append)
    have qp: "q = prev" using q(2) r(4) within(1) by (simp add: unat_inj)
    have at: "at_node m (heap A) pp prev ws b t vs"
      using q r(3) wf pp by (simp add: at_node_def qp)
    have nz: "prev \<noteq> NULL" using at_nodeD(2,7) [OF at] by auto
    have lo: "b < unat addr" using r(5) within(1) by simp
    have hi: "\<forall>(c, r) \<in> set vs. unat addr < c"
      using search_above [OF _ within(2)] wf by (auto simp: fl_wf_append fl_wf_Cons)
    have "0 < unat sz" using sz by simp
    then have "remove_spec m A (ws @ (b, t) # vs) (unat addr) sz (freelist_heap_remove_memory m A addr sz)"
      by (rule remove_within [OF at lo refl refl _ hi addr(2)])
        (use within(3) nz q(4) qp in \<open>simp add: run Let_def\<close>)
    then show ?thesis by (simp add: xs within(1))
  next
    case none
    have "\<forall>(c, r) \<in> set vs. unat addr < c"
      using search_above [OF _ none(2)] fl(2) xs none(1) by simp
    then have "fl_remove (unat addr) (unat sz) xs = None"
      using fl_remove_above xs none(1) by simp
    moreover have "prev = NULL" using none(1) r(4) by simp
    then have "freelist_heap_remove_memory m A addr sz = Some (ERROR_ALLOCATOR_MEM_INUSE, m, A)"
      using none(3) pn by (simp add: run Let_def)
    ultimately show ?thesis by (simp add: remove_spec_def)
  qed
qed
end
