(* ===== verification/Heap.thy ===== *)
theory Heap
  imports Freelist_Add Freelist_Remove Allocator_Interface
begin

text \<open>
  The hypervisor heap as its clients see it: the invariant that ties the free list of
  \<^verbatim>\<open>hyp/mem/allocator_list/src/freelist.c\<close> to a set of free bytes and to the two counters of
  \<^verbatim>\<open>allocator_list\<close>, its preservation by every operation, the interpretation of the
  allocator contract, and the properties of the allocator.
\<close>

section \<open>The free list is determined by the free bytes\<close>

lemma fl_wf_first:
  assumes "fl_wf ((a, s) # xs)" "x \<in> bytes ((a, s) # xs)"
  shows "a \<le> x"
  using assms bytes_above [of xs a s x] by (auto simp: fl_wf_Cons)

lemma fl_wf_unique:
  "fl_wf xs \<Longrightarrow> fl_wf ys \<Longrightarrow> bytes xs = bytes ys \<Longrightarrow> xs = ys"
proof (induction xs arbitrary: ys)
  case Nil
  then show ?case using keys_subset_bytes [of ys] by (cases ys) auto
next
  case (Cons x xs)
  obtain a s where x: "x = (a, s)" by force
  have a: "a \<in> bytes (x # xs)" using Cons.prems(1) x by (auto simp: fl_wf_Cons)
  then obtain b t zs where ys: "ys = (b, t) # zs" using Cons.prems(3) by (cases ys) auto
  have b: "b \<in> bytes ys" using Cons.prems(2) ys by (auto simp: fl_wf_Cons)
  have ab: "a = b"
    using fl_wf_first [of a s xs b] fl_wf_first [of b t zs a] a b Cons.prems x ys
    by (simp del: bytes_simps)
  have ends: "a + s \<notin> bytes (x # xs)" "b + t \<notin> bytes ys"
    using Cons.prems(1,2) bytes_above [of xs a s "a + s"] bytes_above [of zs b t "b + t"] x ys
    by (auto simp: fl_wf_Cons)
  have st: "s = t"
  proof (rule ccontr)
    assume "s \<noteq> t"
    then consider "s < t" | "t < s" by linarith
    then show False
    proof cases
      case 1
      then have "a + s \<in> bytes ys" using ab ys by simp
      then show False using ends(1) Cons.prems(3) by blast
    next
      case 2
      then have "b + t \<in> bytes (x # xs)" using ab x by simp
      then show False using ends(2) Cons.prems(3) by blast
    qed
  qed
  have "bytes xs = bytes (x # xs) - span x" "bytes zs = bytes ys - span (b, t)"
    using fl_wf_disjoint [OF Cons.prems(1)] fl_wf_disjoint [of "(b, t)" zs] Cons.prems(2) ys by auto
  then have "bytes xs = bytes zs" using Cons.prems(3) ab st x by simp
  then have "xs = zs" using Cons.IH [of zs] Cons.prems(1,2) ys by (simp add: fl_wf_Cons)
  then show ?case using ab st x ys by simp
qed

lemma sum_sizes_card: "fl_wf xs \<Longrightarrow> finite (bytes xs) \<and> sum_list (map snd xs) = card (bytes xs)"
proof (induction xs)
  case (Cons x xs)
  then have "fl_wf xs" by (simp add: fl_wf_Cons)
  with Cons fl_wf_disjoint [OF Cons.prems] show ?case
    by (cases x) (simp add: card_Un_disjoint)
qed simp

section \<open>The heap invariant\<close>

text \<open>
  \<open>heap_inv R (m, A) F\<close>: the heap manages the bytes \<open>R\<close>, of which \<open>F\<close> are free; its list is
  the coalesced list of \<open>F\<close> and its two counters are exact.
\<close>

type_synonym heap_state = "node_mem \<times> allocator_list"

fun heap_inv :: "nat set \<Rightarrow> heap_state \<Rightarrow> nat set \<Rightarrow> bool" where
  "heap_inv R (m, A) F \<longleftrightarrow>
     (\<exists>xs. freelist m (heap A) xs \<and> fl_wf xs \<and> bytes xs = F) \<and> F \<subseteq> R \<and> R \<subseteq> {..< HEAP_TOP} \<and>
     unat (alloc_size A) = card (R - F) \<and> unat (total_size A) = card R"

definition hyp_hint :: allocator_hint where
  "hyp_hint = \<lparr>hint_memtype = ALLOCATOR_MEMTYPE_HYPERVISOR, hint_strict = False\<rparr>"

fun heap_alloc :: "heap_state alloc_fn" where
  "heap_alloc (m, A) sz al =
     map_option (\<lambda>(r, m', A'). (r, (m', A'))) (allocator_allocate_object m A sz al hyp_hint)"

fun heap_dealloc :: "heap_state dealloc_fn" where
  "heap_dealloc (m, A) p sz = allocator_deallocate_object m A p sz ALLOCATOR_MEMTYPE_HYPERVISOR"

definition heap_placed :: "nat set \<Rightarrow> ptr \<Rightarrow> u64 \<Rightarrow> bool" where
  "heap_placed R p sz \<longleftrightarrow> node_ok (unat p, object_size sz) \<and> blk object_size (p, sz) \<subseteq> R \<and>
     0 < sz \<and> sz \<le> MAX_ALLOC_SIZE"

lemma HEAP_TOP_card:
  assumes "R \<subseteq> {..< HEAP_TOP}"
  shows "finite R" "card R < 2 ^ 64"
proof -
  show "finite R" using assms finite_subset by blast
  have "card R \<le> HEAP_TOP" using card_mono [OF _ assms] by simp
  then show "card R < 2 ^ 64" by (rule HEAP_TOP_lt)
qed

lemma object_align_props:
  assumes "request_ok sz al" shows "16 dvd object_align al" "0 < object_align al"
proof -
  show "0 < object_align al" by (simp add: object_align_def)
  show "16 dvd object_align al"
  proof (cases "unat al \<le> 16")
    case True
    then show ?thesis by (simp add: object_align_def max_def)
  next
    case False
    then have "al \<noteq> 0" by auto
    then have "util_is_p2 al" using assms by (simp add: request_ok_def util_is_p2_def)
    then show ?thesis using False p2_ge16_dvd by (simp add: object_align_def max_def)
  qed
qed

lemma card_allocated:
  assumes "F \<subseteq> R" "finite R" "B \<subseteq> F"
  shows "card (R - (F - B)) = card (R - F) + card B" "card (R - F) + card B \<le> card R"
proof -
  have eq: "R - (F - B) = (R - F) \<union> B" using assms by auto
  have "card ((R - F) \<union> B) = card (R - F) + card B"
    using assms by (intro card_Un_disjoint) (auto intro: finite_subset)
  then show 1: "card (R - (F - B)) = card (R - F) + card B" using eq by simp
  have "card (R - (F - B)) \<le> card R" using assms by (intro card_mono) auto
  then show "card (R - F) + card B \<le> card R" using 1 by simp
qed

lemma heap_alloc_refines:
  assumes inv: "heap_inv R (m, A) F" and ok: "request_ok sz al"
  shows "(\<exists>p. object_align al dvd p \<and> {p ..< p + object_size sz} \<subseteq> F) \<Longrightarrow>
      \<exists>p m' A'. heap_alloc (m, A) sz al = Some (Inr p, (m', A')) \<and>
        object_align al dvd unat p \<and> blk object_size (p, sz) \<subseteq> F \<and>
        heap_inv R (m', A') (F - blk object_size (p, sz)) \<and> heap_placed R p sz \<and>
        (\<forall>q. unat q \<notin> F \<longrightarrow> m' q = m q)"
    and "(\<nexists>p. object_align al dvd p \<and> {p ..< p + object_size sz} \<subseteq> F) \<Longrightarrow>
      heap_alloc (m, A) sz al = Some (Inl ERROR_NOMEM, (m, A))"
proof -
  from inv obtain xs where xs: "freelist m (heap A) xs" "fl_wf xs" "bytes xs = F" by auto
  have R: "F \<subseteq> R" "R \<subseteq> {..< HEAP_TOP}" "unat (alloc_size A) = card (R - F)"
    "unat (total_size A) = card R" using inv by auto
  have sz: "0 < sz" "sz \<le> MAX_ALLOC_SIZE" using ok by (auto simp: request_ok_def)
  note os = object_size_props [of sz] object_size_props(3) [OF sz(1)]
  note oa = object_align_props [OF ok]
  have ho: "heap_alloc (m, A) sz al =
      map_option (\<lambda>(r, m', A'). (r, (m', A'))) (freelist_allocate_object m A sz al)"
    by (simp add: allocator_allocate_object_def hyp_hint_def)
  note ref = freelist_allocate_object_refines [OF xs(1,2) ok]
  show "heap_alloc (m, A) sz al = Some (Inl ERROR_NOMEM, (m, A))"
    if none: "\<nexists>p. object_align al dvd p \<and> {p ..< p + object_size sz} \<subseteq> F"
  proof (cases "fl_alloc (object_size sz) (object_align al) xs")
    case None
    then show ?thesis using ref by (simp add: ho del: heap_alloc.simps)
  next
    case (Some r)
    then obtain p ys where "fl_alloc (object_size sz) (object_align al) xs = Some (p, ys)"
      by (cases r) auto
    from fl_alloc_sound(1,2) [OF this xs(2) os(1,4) oa] show ?thesis using none xs(3) by blast
  qed
  show "\<exists>p m' A'. heap_alloc (m, A) sz al = Some (Inr p, (m', A')) \<and>
        object_align al dvd unat p \<and> blk object_size (p, sz) \<subseteq> F \<and>
        heap_inv R (m', A') (F - blk object_size (p, sz)) \<and> heap_placed R p sz \<and>
        (\<forall>q. unat q \<notin> F \<longrightarrow> m' q = m q)"
    if "\<exists>p. object_align al dvd p \<and> {p ..< p + object_size sz} \<subseteq> F"
  proof -
    have "fl_alloc (object_size sz) (object_align al) xs \<noteq> None"
      using that fl_alloc_complete [OF _ xs(2) os(4) oa(2)] xs(3) by blast
    then obtain p ys where py: "fl_alloc (object_size sz) (object_align al) xs = Some (p, ys)"
      by auto
    note snd = fl_alloc_sound [OF py xs(2) os(1,4) oa]
    from ref py obtain w m' head' where
      run: "freelist_allocate_object m A sz al =
          Some (Inr w, m', A\<lparr>heap := head', alloc_size := alloc_size A + of_nat (object_size sz)\<rparr>)"
        "unat w = p" "freelist m' head' ys" "\<forall>q. unat q \<notin> bytes xs \<longrightarrow> m' q = m q" by auto
    have b: "blk object_size (w, sz) = {p ..< p + object_size sz}" using run(2) by simp
    have cnt: "unat (alloc_size A + of_nat (object_size sz)) = card (R - (F - blk object_size (w, sz)))"
      using card_allocated [OF R(1) HEAP_TOP_card(1) [OF R(2)], of "blk object_size (w, sz)"]
        HEAP_TOP_card(2) [OF R(2)] snd(2) R(3) xs(3) b
      by (subst unat_add_no_overflow) (simp_all add: unat_of_nat take_bit_nat_eq_self)
    have "16 dvd p" using oa(1) snd(1) dvd_trans by blast
    then have "node_ok (p, object_size sz)"
      using run_in_block [OF xs(2) snd(2) os(4)] xs(2) os(1,4) by (fastforce simp: fl_wf_def list_all_iff)
    then have pl: "heap_placed R w sz"
      using snd(2) sz R(1) xs(3) b run(2) by (auto simp: heap_placed_def)
    have "heap_inv R (m', A\<lparr>heap := head', alloc_size := alloc_size A + of_nat (object_size sz)\<rparr>)
        (F - blk object_size (w, sz))"
      using run(3) snd(3,4) R cnt xs(3) by (auto simp: b simp del: blk.simps)
    then show ?thesis
      using run snd(1,2) b xs(3) pl by (auto simp: ho simp del: heap_alloc.simps blk.simps heap_inv.simps)
  qed
qed

lemma heap_dealloc_refines:
  assumes inv: "heap_inv R (m, A) F" and pl: "heap_placed R p sz"
    and disj: "blk object_size (p, sz) \<inter> F = {}"
  shows "\<exists>m' A'. heap_dealloc (m, A) p sz = Some (m', A') \<and>
    heap_inv R (m', A') (F \<union> blk object_size (p, sz)) \<and>
    (\<forall>q. unat q \<notin> F \<union> blk object_size (p, sz) \<longrightarrow> m' q = m q)"
proof -
  from inv obtain xs where xs: "freelist m (heap A) xs" "fl_wf xs" "bytes xs = F" by auto
  have R: "F \<subseteq> R" "R \<subseteq> {..< HEAP_TOP}" "unat (alloc_size A) = card (R - F)"
    "unat (total_size A) = card R" using inv by auto
  have ok: "node_ok (unat p, object_size sz)" "blk object_size (p, sz) \<subseteq> R"
    "0 < sz" "sz \<le> MAX_ALLOC_SIZE" using pl by (auto simp: heap_placed_def)
  from freelist_deallocate_object_refines [OF xs(1,2) ok(1) _ ok(3,4)] disj xs(3) obtain m' A' where
    run: "freelist_deallocate_object m A p sz = Some (m', A')"
      "freelist m' (heap A') (fl_insert (unat p) (object_size sz) xs)"
      "total_size A' = total_size A" "alloc_size A' = alloc_size A - of_nat (object_size sz)"
      "\<forall>q. unat q \<notin> F \<union> blk object_size (p, sz) \<longrightarrow> m' q = m q"
    by auto
  have sub: "blk object_size (p, sz) \<subseteq> R - F" using ok(2) disj by blast
  have fin: "finite R" by (rule HEAP_TOP_card [OF R(2)])
  have "card (R - (F \<union> blk object_size (p, sz))) = card ((R - F) - blk object_size (p, sz))"
    by (simp add: Diff_eq Int_assoc)
  also have "\<dots> = card (R - F) - object_size sz"
    using card_Diff_subset [OF _ sub] by simp
  finally have cd: "card (R - (F \<union> blk object_size (p, sz))) = card (R - F) - object_size sz" .
  have "object_size sz \<le> card (R - F)" using card_mono [OF _ sub] fin by simp
  moreover have "card (R - F) < 2 ^ 64"
    using HEAP_TOP_card [of "R - F"] R(2) by blast
  ultimately have cnt: "unat (alloc_size A') = card (R - (F \<union> blk object_size (p, sz)))"
    using R(3) run(4) cd by (simp add: unat_diff_le unat_of_nat take_bit_nat_eq_self)
  have "fl_wf (fl_insert (unat p) (object_size sz) xs)"
    using fl_insert_wf [OF xs(2) ok(1)] disj xs(3) by simp
  then have "heap_inv R (m', A') (F \<union> blk object_size (p, sz))"
    using run(2,3) fl_insert_bytes [OF xs(2)] xs(3) R ok(2) cnt by auto
  then show ?thesis using run by (simp add: allocator_deallocate_object_def)
qed

interpretation heap: freeing_allocator "heap_inv R" "\<lambda>_. request_ok" object_size heap_alloc
  "heap_placed R" heap_dealloc for R
proof
  fix s F sz al
  assume inv: "heap_inv R s F" and ok: "request_ok sz al"
  obtain m A where s: "s = (m, A)" by force
  note cases = heap_alloc_refines [OF inv [unfolded s] ok, folded s]
  show "heap_alloc s sz al \<noteq> None" using cases by force
  fix s'
  show "s' = s" if "heap_alloc s sz al = Some (Inl e, s')" for e
    using cases that by force
  fix p assume r: "heap_alloc s sz al = Some (Inr p, s')"
  then have ex: "blk object_size (p, sz) \<subseteq> F \<and> heap_inv R s' (F - blk object_size (p, sz)) \<and> heap_placed R p sz"
    using cases by fastforce
  then show "heap_inv R s' (F - blk object_size (p, sz)) \<and> heap_placed R p sz" by blast
  show "\<exists>F'. heap_inv R s' F' \<and> blk object_size (p, sz) \<subseteq> F \<and> F' \<subseteq> F - blk object_size (p, sz)"
    using ex by blast
next
  fix s F p sz
  assume "heap_inv R s F" "heap_placed R p sz" "blk object_size (p, sz) \<inter> F = {}"
  then show "\<exists>s'. heap_dealloc s p sz = Some s' \<and> heap_inv R s' (F \<union> blk object_size (p, sz)) \<and>
      request_ok = request_ok"
    using heap_dealloc_refines by (cases s) blast
qed simp

section \<open>Queries\<close>

lemma largest_free_loop_refines:
  "freelist m p xs \<Longrightarrow>
    \<exists>w. largest_free_loop m p v = Some w \<and> unat w = fold max (map snd xs) (unat v)"
proof (induction xs arbitrary: p v)
  case Nil
  then show ?case by (simp add: largest_free_loop.simps)
next
  case (Cons x xs)
  obtain a s where x: "x = (a, s)" by force
  have p: "p \<noteq> NULL" "unat (an_size (m p)) = s" "freelist m (an_next (m p)) xs"
    using Cons.prems x by auto
  have "unat (util_max (an_size (m p)) v) = max s (unat v)"
    using p(2) by (auto simp: max_def word_le_nat_alt)
  then show ?case
    using Cons.IH [OF p(3), of "util_max (an_size (m p)) v"] p(1) x
    by (subst largest_free_loop.simps) simp
qed

lemma fold_max_0: "fold max ns (0::nat) = (if ns = [] then 0 else Max (set ns))"
  by (cases ns) (simp_all add: Max.set_eq_fold [symmetric])

text \<open>The search of \<^const>\<open>freelist_heap_memory_is_free\<close> walks to the end or not at all.\<close>

lemma is_free_seek_below:
  "freelist m p xs \<Longrightarrow> \<forall>(a, s) \<in> set xs. unat addr < a \<Longrightarrow> is_free_seek m addr p = Some NULL"
proof (induction xs arbitrary: p)
  case Nil
  then show ?case by (simp add: is_free_seek.simps)
next
  case (Cons x xs)
  then show ?case
    by (cases x) (auto simp: is_free_seek.simps [of m addr p] word_less_nat_alt)
qed

lemma freelist_heap_memory_is_free_refines:
  assumes fl: "freelist m (heap A) xs" "fl_wf xs" and ov: "unat addr + unat sz < 2 ^ 64"
  shows "freelist_heap_memory_is_free m A addr sz =
    Some (case xs of [] \<Rightarrow> ERROR_ALLOCATOR_MEM_INUSE
      | (a, s) # _ \<Rightarrow> if a \<le> unat addr \<and> unat addr + unat sz \<le> a + s then OK
                     else ERROR_ALLOCATOR_MEM_INUSE)"
proof -
  have nov: "\<not> util_add_overflows addr sz" using ov by (simp add: util_add_overflows_iff)
  show ?thesis
  proof (cases xs)
    case Nil
    then show ?thesis using fl nov by (simp add: freelist_heap_memory_is_free_def is_free_seek.simps)
  next
    case (Cons x ys)
    obtain a s where x: "x = (a, s)" by force
    have p: "heap A \<noteq> NULL" "unat (heap A) = a" "unat (an_size (m (heap A))) = s"
      using fl Cons x by auto
    have as: "a + s < 2 ^ 64" using wf_node(6) [of "[]" a s ys] fl(2) Cons x by simp
    have cmp: "addr + sz \<le> heap A + an_size (m (heap A)) \<longleftrightarrow> unat addr + unat sz \<le> a + s"
      using ov as p by (simp add: word_le_nat_alt unat_add_no_overflow)
    show ?thesis
    proof (cases "unat addr < a")
      case True
      have "\<forall>(b, t) \<in> set xs. unat addr < b"
        using search_above [OF fl(2)] True Cons x by simp
      then show ?thesis
        using is_free_seek_below [OF fl(1)] True nov Cons x by (simp add: freelist_heap_memory_is_free_def)
    next
      case False
      then have "is_free_seek m addr (heap A) = Some (heap A)"
        using p by (simp add: is_free_seek.simps [of m addr "heap A"] word_less_nat_alt)
      then show ?thesis
        using False p cmp nov Cons x by (simp add: freelist_heap_memory_is_free_def word_le_nat_alt)
    qed
  qed
qed

section \<open>Growing and shrinking the heap\<close>

text \<open>The block that an added range is trimmed to.\<close>

definition trimmed_base :: "ptr \<Rightarrow> nat" where
  "trimmed_base addr = align_up_nat (unat addr) 16"

definition trimmed_size :: "ptr \<Rightarrow> u64 \<Rightarrow> nat" where
  "trimmed_size addr sz = (unat sz - (trimmed_base addr - unat addr)) div 16 * 16"

lemma trimmed_words:
  assumes "unat addr + unat sz \<le> HEAP_TOP" "16 \<le> unat sz"
  defines "w \<equiv> util_balign_up addr 16"
  defines "v \<equiv> util_balign_down (sz - (w - addr)) 16"
  shows "unat w = trimmed_base addr" "unat v = trimmed_size addr sz"
    "trimmed_base addr + trimmed_size addr sz \<le> unat addr + unat sz"
    "unat addr \<le> trimmed_base addr" "16 dvd trimmed_base addr" "16 dvd trimmed_size addr sz"
proof -
  have "unat addr + unat (16::u64) \<le> 2 ^ LENGTH(64)"
    using assms(1,2) HEAP_TOP_lt [OF assms(1)] by simp
  then show w: "unat w = trimmed_base addr"
    using unat_balign_up_align [OF p2_16, of addr] by (simp add: w_def trimmed_base_def)
  show le: "unat addr \<le> trimmed_base addr" and "16 dvd trimmed_base addr"
    using align_up_nat_bounds [of 16 "unat addr"] by (simp_all add: trimmed_base_def)
  have lt: "trimmed_base addr < unat addr + 16"
    using align_up_nat_bounds [of 16 "unat addr"] by (simp add: trimmed_base_def)
  have d: "unat (w - addr) = trimmed_base addr - unat addr"
    using w le by (subst unat_diff_le) simp_all
  have e: "unat (sz - (w - addr)) = unat sz - (trimmed_base addr - unat addr)"
    using d lt assms(2) by (subst unat_diff_le) simp_all
  show "unat v = trimmed_size addr sz"
    unfolding v_def using unat_balign_down [OF p2_16, of "sz - (w - addr)"] e
    by (simp add: trimmed_size_def)
  show "16 dvd trimmed_size addr sz" by (simp add: trimmed_size_def)
  have "trimmed_size addr sz \<le> unat sz - (trimmed_base addr - unat addr)"
    by (simp add: trimmed_size_def)
  then show "trimmed_base addr + trimmed_size addr sz \<le> unat addr + unat sz"
    using le lt assms(2) by linarith
qed

lemma heap_grow:
  assumes inv: "heap_inv R (m, A) (bytes xs)" and ok: "node_ok (a, s)"
    and B: "{a ..< a + s} \<inter> R = {}" and fl: "fl_wf xs" "freelist m' head' (fl_insert a s xs)"
    and n: "unat n = s"
  shows "heap_inv (R \<union> {a ..< a + s}) (m', A\<lparr>heap := head', total_size := total_size A + n\<rparr>)
    (bytes xs \<union> {a ..< a + s})"
proof -
  have R: "bytes xs \<subseteq> R" "R \<subseteq> {..< HEAP_TOP}" "unat (alloc_size A) = card (R - bytes xs)"
    "unat (total_size A) = card R" using inv by auto
  have R': "R \<union> {a ..< a + s} \<subseteq> {..< HEAP_TOP}" using R(2) ok by auto
  have "card (R \<union> {a ..< a + s}) = card R + s"
    using card_Un_disjoint [of R "{a ..< a + s}"] HEAP_TOP_card [OF R(2)] B by (simp add: Int_commute)
  moreover have "card (R \<union> {a ..< a + s}) < 2 ^ 64" by (rule HEAP_TOP_card [OF R'])
  ultimately have "unat (total_size A + n) = card (R \<union> {a ..< a + s})"
    using R(4) n by (subst unat_add_no_overflow) simp_all
  moreover have "R \<union> {a ..< a + s} - (bytes xs \<union> {a ..< a + s}) = R - bytes xs" using B by blast
  moreover have "{a ..< a + s} \<inter> bytes xs = {}" using B R(1) by blast
  ultimately show ?thesis
    using R R' fl fl_insert_wf [OF fl(1) ok] fl_insert_bytes [OF fl(1)] by auto
qed

lemma freelist_heap_add_memory_refines:
  assumes inv: "heap_inv R (m, A) (bytes xs)" and fl: "freelist m (heap A) xs" "fl_wf xs"
    and addr: "addr \<noteq> 0" "unat addr + unat sz \<le> HEAP_TOP"
    and top: "trimmed_base addr + 16 * trimmed_size addr sz < 2 ^ 64"
  defines "a \<equiv> trimmed_base addr" and "s \<equiv> trimmed_size addr sz"
  shows "if unat sz < 16 \<or> s < 32
    then freelist_heap_add_memory m A addr sz = Some (ERROR_ARGUMENT_SIZE, m, A)
    else if list_add_accepts a s xs
    then \<exists>m' A'. freelist_heap_add_memory m A addr sz = Some (OK, m', A') \<and>
      freelist m' (heap A') (fl_insert a s xs) \<and> {a ..< a + s} \<inter> bytes xs = {} \<and>
      (\<forall>q. unat q \<notin> bytes xs \<union> {a ..< a + s} \<longrightarrow> m' q = m q) \<and>
      ({a ..< a + s} \<inter> R = {} \<longrightarrow>
        heap_inv (R \<union> {a ..< a + s}) (m', A') (bytes xs \<union> {a ..< a + s}))
    else freelist_heap_add_memory m A addr sz =
      Some (ERROR_ALLOCATOR_RANGE_OVERLAPPING, m, A)"
proof (cases "unat sz < 16")
  case True
  then show ?thesis using addr HEAP_TOP_lt [OF addr(2)]
    by (auto simp: freelist_heap_add_memory_def word_less_nat_alt util_add_overflows_iff)
next
  case False
  let ?w = "util_balign_up addr 16"
  let ?v = "util_balign_down (sz - (?w - addr)) 16"
  note t = trimmed_words [OF addr(2)] False
  have w: "unat ?w = a" "unat ?v = s" using t by (simp_all add: a_def s_def)
  have nov: "\<not> util_add_overflows addr sz" "\<not> sz < 16"
    using addr(2) HEAP_TOP_lt [OF addr(2)] False
    by (simp_all add: util_add_overflows_iff word_less_nat_alt)
  have lt: "?v < 32 \<longleftrightarrow> s < 32" using w by (simp add: word_less_nat_alt)
  note run = freelist_heap_add_memory_def [of m A addr sz] addr(1) nov lt
  show ?thesis
  proof (cases "s < 32")
    case True
    then show ?thesis using False by (simp add: run Let_def)
  next
    case big: False
    have c: "\<not> (unat sz < 16 \<or> s < 32)" using big False by simp
    have ok: "node_ok (a, s)"
      using t big addr by (auto simp: a_def s_def word_unat_eq_iff)
    have spec: "list_add_spec m (heap A) xs a s (list_add m (heap A) ?w ?v)"
      using list_add_refines [OF fl ok _ w] top by (simp add: a_def s_def)
    show ?thesis
    proof (cases "list_add_accepts a s xs")
      case True
      then obtain m' head' where
        la: "list_add m (heap A) ?w ?v = Some (OK, m', head')" "{a ..< a + s} \<inter> bytes xs = {}"
          "freelist m' head' (fl_insert a s xs)"
          "\<forall>q. unat q \<notin> bytes xs \<union> {a ..< a + s} \<longrightarrow> m' q = m q"
        using spec by (auto simp: list_add_spec_def)
      let ?A = "A\<lparr>heap := head', total_size := total_size A + ?v\<rparr>"
      have r: "freelist_heap_add_memory m A addr sz = Some (OK, m', ?A)"
        using la(1) big by (simp add: run Let_def)
      have g: "{a ..< a + s} \<inter> R = {} \<longrightarrow>
          heap_inv (R \<union> {a ..< a + s}) (m', ?A) (bytes xs \<union> {a ..< a + s})"
        using heap_grow [OF inv ok _ fl(2) la(3) w(2)] by blast
      have f: "freelist m' (heap ?A) (fl_insert a s xs)" using la(3) by simp
      show ?thesis unfolding if_P [OF True] if_not_P [OF c] using r f la(2,4) g by blast
    next
      case no: False
      then have la: "list_add m (heap A) ?w ?v = Some (ERROR_ALLOCATOR_RANGE_OVERLAPPING, m, heap A)"
        using spec by (simp add: list_add_spec_def)
      have "freelist_heap_add_memory m A addr sz = Some (ERROR_ALLOCATOR_RANGE_OVERLAPPING, m, A)"
        using la big by (simp add: run Let_def)
      then show ?thesis unfolding if_not_P [OF c] if_not_P [OF no] .
    qed
  qed
qed

lemma heap_shrink:
  assumes inv: "heap_inv R (m, A) (bytes xs)" and fl: "fl_wf ys" "freelist m' head' ys"
    and B: "B \<subseteq> bytes xs" "bytes ys = bytes xs - B" and n: "unat n = card B"
  shows "heap_inv (R - B) (m', A\<lparr>heap := head', total_size := total_size A - n\<rparr>) (bytes xs - B)"
proof -
  have R: "bytes xs \<subseteq> R" "R \<subseteq> {..< HEAP_TOP}" "unat (alloc_size A) = card (R - bytes xs)"
    "unat (total_size A) = card R" using inv by auto
  have sub: "B \<subseteq> R" using B R by blast
  have fin: "finite R" by (rule HEAP_TOP_card [OF R(2)])
  have finB: "finite B" by (rule finite_subset [OF sub fin])
  have "unat (total_size A - n) = card (R - B)"
    using R(4) n card_Diff_subset [OF finB sub] card_mono [OF fin sub] by (subst unat_diff_le) simp_all
  moreover have "R - B - (bytes xs - B) = R - bytes xs" using B by blast
  ultimately show ?thesis using R fl B by auto
qed

lemma fl_remove_sound:
  assumes "fl_remove p n xs = Some ys" "fl_wf xs" "16 dvd p" "16 dvd n" "0 < n"
  shows "{p ..< p + n} \<subseteq> bytes xs" "fl_wf ys" "bytes ys = bytes xs - {p ..< p + n}"
proof -
  from fl_remove_SomeD [OF assms(1)] obtain us a s vs where
    xs: "xs = us @ (a, s) # vs" and ys: "ys = us @ carve a s p n @ vs" and p: "a \<le> p" "p + n \<le> a + s"
    by blast
  show "{p ..< p + n} \<subseteq> bytes xs" using p by (auto simp: xs)
  show "fl_wf ys" "bytes ys = bytes xs - {p ..< p + n}"
    using carve_in_place [OF assms(2) [unfolded xs] p assms(3-5)] by (simp_all add: xs ys)
qed

lemma heap_remove_refines:
  assumes inv: "heap_inv R (m, A) F" and F: "F \<noteq> {}" and addr: "addr \<noteq> 0" "unat addr + unat sz < 2 ^ 64"
    and sz: "16 dvd unat addr" "16 \<le> unat sz" "16 dvd unat sz"
  defines "B \<equiv> {unat addr ..< unat addr + unat sz}"
  shows "if B \<subseteq> F
    then \<exists>m' A'. freelist_heap_remove_memory m A addr sz = Some (OK, m', A') \<and>
      heap_inv (R - B) (m', A') (F - B) \<and> (\<forall>q. unat q \<notin> F \<longrightarrow> m' q = m q)
    else freelist_heap_remove_memory m A addr sz = Some (ERROR_ALLOCATOR_MEM_INUSE, m, A)"
proof -
  from inv obtain xs where xs: "freelist m (heap A) xs" "fl_wf xs" "bytes xs = F" by auto
  have ne: "xs \<noteq> []" using xs(3) F by auto
  have ov: "\<not> util_add_overflows addr sz" using addr(2) by (simp add: util_add_overflows_iff)
  note spec = freelist_heap_remove_memory_refines [OF xs(1,2) ne addr(1) ov sz(2,3)]
  have iff: "fl_remove (unat addr) (unat sz) xs = None \<longleftrightarrow> \<not> B \<subseteq> F"
    using fl_remove_iff [OF xs(2)] sz xs(3) by (simp add: B_def)
  show ?thesis
  proof (cases "fl_remove (unat addr) (unat sz) xs")
    case None
    then show ?thesis using spec iff by (simp add: remove_spec_def)
  next
    case (Some ys)
    have B: "B \<subseteq> bytes xs" "bytes ys = bytes xs - B" and wf: "fl_wf ys"
      using fl_remove_sound [OF Some xs(2) sz(1,3)] sz(2) by (auto simp: B_def)
    from spec Some obtain m' head' where
      r: "freelist_heap_remove_memory m A addr sz =
          Some (OK, m', A\<lparr>heap := head', total_size := total_size A - sz\<rparr>)"
        "freelist m' head' ys" "\<forall>q. unat q \<notin> bytes xs \<longrightarrow> m' q = m q"
      by (auto simp: remove_spec_def)
    have "unat sz = card B" by (simp add: B_def)
    then have "heap_inv (R - B) (m', A\<lparr>heap := head', total_size := total_size A - sz\<rparr>) (bytes xs - B)"
      using heap_shrink [OF inv [folded xs(3)] wf r(2) B] by blast
    then have "\<exists>m' A'. freelist_heap_remove_memory m A addr sz = Some (OK, m', A') \<and>
      heap_inv (R - B) (m', A') (F - B) \<and> (\<forall>q. unat q \<notin> F \<longrightarrow> m' q = m q)"
      using r xs(3) by blast
    then show ?thesis using iff Some by (simp del: heap_inv.simps)
  qed
qed
end
