(* ===== verification/Heap_Properties.thy ===== *)
theory Heap_Properties
  imports Heap
begin

text \<open>
  What the hypervisor heap guarantees, stated on the functions of
  \<^verbatim>\<open>hyp/mem/allocator_list/src/freelist.c\<close>, and one heap on which the guarantees are
  exercised: a single free block of one page at \<open>0x10000\<close>.
\<close>

section \<open>An example heap\<close>

definition page_mem :: node_mem where
  "page_mem = (\<lambda>_. \<lparr>an_size = 0x1000, an_next = 0\<rparr>)(0x10000 := \<lparr>an_size = 0x1000, an_next = 0\<rparr>)"

definition page_list :: allocator_list where
  "page_list = \<lparr>heap = 0x10000, total_size = 0x1000, alloc_size = 0\<rparr>"

abbreviation page_heap :: heap_state where
  "page_heap \<equiv> (page_mem, page_list)"

definition page_bytes :: "nat set" where
  "page_bytes = {0x10000 ..< 0x11000}"

lemma page_heap_inv: "heap_inv page_bytes page_heap page_bytes"
proof -
  have "fl_wf [(0x10000, 0x1000)]" by (simp add: fl_wf_def HEAP_TOP_def)
  moreover have "bytes [(0x10000, 0x1000)] = page_bytes" by (simp add: page_bytes_def)
  moreover have "freelist page_mem (heap page_list) [(0x10000, 0x1000)]"
    by (simp add: page_mem_def page_list_def)
  ultimately have "\<exists>xs. freelist page_mem (heap page_list) xs \<and> fl_wf xs \<and> bytes xs = page_bytes"
    by blast
  then show ?thesis by (auto simp: page_mem_def page_list_def page_bytes_def HEAP_TOP_def)
qed

lemma example_request: "request_ok 100 64"
  by (simp add: request_ok_def MAX_ALLOC_SIZE_def MAX_ALIGNMENT_SIZE_def util_is_p2_or_zero_def)

lemmas heap_eval = page_mem_def page_list_def allocator_allocate_object_def hyp_hint_def
  freelist_allocate_object_def MAX_ALLOC_SIZE_def MAX_ALIGNMENT_SIZE_def allocate_block_def
  util_is_p2_def util_is_p2_or_zero_def allocate_block_loop.simps [where current = "0x10000"]
  allocate_from_node_def util_balign_up_def util_balign_down_def util_add_overflows_def Let_def
  allocator_deallocate_object_def freelist_deallocate_object_def deallocate_block_def
  deallocate_seek.simps [where nxt = 0] connect_next_def

lemma accepts_after_skip:
  "fl_wf (us @ (b, t) # vs) \<Longrightarrow> b \<le> a \<Longrightarrow>
    accepts_after a s (us @ (b, t) # vs) = accepts_after a s ((b, t) # vs)"
proof (induction us)
  case (Cons u us)
  then have IH: "accepts_after a s (us @ (b, t) # vs) = accepts_after a s ((b, t) # vs)"
    by (simp add: fl_wf_Cons)
  have "fst (hd (us @ (b, t) # vs)) \<le> a"
    using Cons.prems by (cases us) (auto simp: fl_wf_append fl_wf_Cons)
  then show ?case using IH by (cases u; cases us) auto
qed simp

lemma accepts_skip:
  assumes "fl_wf (us @ (b, t) # vs)" "b < a"
  shows "list_add_accepts a s (us @ (b, t) # vs) = accepts_after a s ((b, t) # vs)"
proof -
  have "\<not> a + s \<le> fst (hd (us @ (b, t) # vs))"
    using assms by (cases us) (auto simp: fl_wf_append fl_wf_Cons)
  then show ?thesis using accepts_after_skip [OF assms(1), of a s] assms(2)
    by (cases "us @ (b, t) # vs") auto
qed

section \<open>Properties\<close>

lemma freelist_unique: "freelist m p xs \<Longrightarrow> freelist m p ys \<Longrightarrow> xs = ys"
proof (induction xs arbitrary: p ys)
  case Nil
  then show ?case by simp
next
  case (Cons x xs)
  then show ?case by (cases x; cases ys) auto
qed

text \<open>
  C1. Safety of the heap for every client: whatever sequence of allocations and frees a client
  performs on a well-formed heap, no call panics or diverges, the blocks it holds are
  pairwise disjoint parts of the memory that was free at the start, and the rest of that
  memory is exactly what the heap still has free, with its counters exact.
\<close>

theorem heap_client_safe:
  assumes "heap_inv R s F" and "\<forall>sz al. Alloc sz al \<in> set ops \<longrightarrow> request_ok sz al"
  shows "\<exists>live s'. client_run heap_alloc heap_dealloc ([], s) ops = Some (live, s') \<and>
    disjoint_blks object_size live \<and> blks object_size live \<subseteq> F \<and>
    heap_inv R s' (F - blks object_size live)"
  using assms(2) by (intro heap.client_safe [OF assms(1)]) (auto simp: heap.ok_op_def)

theorem heap_client_safe_witness:
  "\<exists>live s'. client_run heap_alloc heap_dealloc ([], page_heap)
      [Alloc 100 64, Alloc 32 0, Free 1, Alloc 48 16, Free 0] = Some (live, s') \<and>
    disjoint_blks object_size live \<and> blks object_size live \<subseteq> page_bytes \<and>
    heap_inv page_bytes s' (page_bytes - blks object_size live)"
  by (rule heap_client_safe [OF page_heap_inv])
    (auto simp: request_ok_def MAX_ALLOC_SIZE_def MAX_ALIGNMENT_SIZE_def util_is_p2_or_zero_def)

text \<open>
  C2. No fragmentation is left behind: when a client has returned every block it was given, the
  free list is the list it started from, block for block, and nothing counts as allocated
  that was not allocated before.
\<close>

theorem heap_no_fragmentation:
  assumes "heap_inv R (m, A) F" and "\<forall>sz al. Alloc sz al \<in> set ops \<longrightarrow> request_ok sz al"
    and "client_run heap_alloc heap_dealloc ([], (m, A)) ops = Some ([], (m', A'))"
    and "freelist m (heap A) xs" "fl_wf xs"
  shows "freelist m' (heap A') xs \<and> alloc_size A' = alloc_size A \<and> total_size A' = total_size A"
proof -
  have "heap_inv R (m', A') F"
    using heap.client_safe [OF assms(1), of ops] assms(2,3)
    by (auto simp: heap.ok_op_def simp del: heap_inv.simps)
  moreover have "bytes xs = F"
    using assms(1,4) freelist_unique by auto
  ultimately show ?thesis
    using assms(1,4,5) fl_wf_unique by (auto simp: word_unat_eq_iff)
qed

theorem heap_no_fragmentation_witness:
  "\<exists>m' A'. client_run heap_alloc heap_dealloc ([], page_heap) [Alloc 100 64, Free 0] = Some ([], (m', A')) \<and>
    freelist m' (heap A') [(0x10000, 0x1000)] \<and> alloc_size A' = 0"
proof -
  obtain m' A' where run:
    "client_run heap_alloc heap_dealloc ([], page_heap) [Alloc 100 64, Free 0] =
      Some ([], (m', A'))"
    by (simp add: heap_eval)
  have "freelist m' (heap A') [(0x10000, 0x1000)] \<and> alloc_size A' = alloc_size page_list \<and>
      total_size A' = total_size page_list"
    by (rule heap_no_fragmentation [OF _ _ run])
      (use page_heap_inv example_request in \<open>auto simp: page_mem_def page_list_def fl_wf_def HEAP_TOP_def
         simp del: heap_inv.simps\<close>)
  then show ?thesis using run by (simp add: page_mem_def page_list_def del: client_run.simps)
qed

text \<open>
  C3. Allocation is exact, for a size that is not zero and within the limits of the heap and an alignment
  that is zero or a power of two within them: a request is served, with an aligned block of free bytes that then stop being free, if and only if the free memory contains such a block at all; otherwise it
  fails with \<^verbatim>\<open>ERROR_NOMEM\<close> and changes nothing. Only free memory is written.
\<close>

theorem heap_allocate_exact:
  assumes "heap_inv R (m, A) F" and "request_ok sz al"
  shows "if \<exists>p. object_align al dvd p \<and> {p ..< p + object_size sz} \<subseteq> F
    then \<exists>p m' A'. heap_alloc (m, A) sz al = Some (Inr p, (m', A')) \<and>
      object_align al dvd unat p \<and> {unat p ..< unat p + object_size sz} \<subseteq> F \<and>
      heap_inv R (m', A') (F - {unat p ..< unat p + object_size sz}) \<and>
      (\<forall>q. unat q \<notin> F \<longrightarrow> m' q = m q)
    else heap_alloc (m, A) sz al = Some (Inl ERROR_NOMEM, (m, A))"
  using heap_alloc_refines [OF assms] unfolding blk.simps by (split if_split) blast


theorem heap_allocate_exact_witness:
  "\<exists>p m' A'. heap_alloc page_heap 100 64 = Some (Inr p, (m', A')) \<and> 64 dvd unat p \<and>
    heap_inv page_bytes (m', A') (page_bytes - {unat p ..< unat p + 112})"
proof -
  have sz: "object_align 64 = 64" "object_size 100 = 112"
    by (simp_all add: object_align_def object_size_def align_up_nat_def)
  have "\<exists>p. 64 dvd p \<and> {p ..< p + 112} \<subseteq> page_bytes"
    by (rule exI [of _ "0x10000"]) (auto simp: page_bytes_def)
  then show ?thesis
    using heap_allocate_exact [OF page_heap_inv example_request] unfolding sz by auto
qed

text \<open>
  C4. Freeing is exact: returning a block that the heap placed and that is not free makes
  exactly its bytes free again; the call cannot fail, keeps the invariant and writes only to
  memory that is free or in the returned block.
\<close>

theorem heap_deallocate_exact:
  assumes "heap_inv R (m, A) F" and "heap_placed R p sz"
    and "{unat p ..< unat p + object_size sz} \<inter> F = {}"
  shows "\<exists>m' A'. heap_dealloc (m, A) p sz = Some (m', A') \<and>
    heap_inv R (m', A') (F \<union> {unat p ..< unat p + object_size sz}) \<and>
    (\<forall>q. unat q \<notin> F \<union> {unat p ..< unat p + object_size sz} \<longrightarrow> m' q = m q)"
  using heap_dealloc_refines [OF assms(1,2)] assms(3) by simp

theorem heap_deallocate_exact_witness:
  "\<exists>m' A'. heap_dealloc (page_mem, page_list\<lparr>heap := 0, alloc_size := 0x1000\<rparr>) 0x10000 0x1000 =
      Some (m', A') \<and> heap_inv page_bytes (m', A') page_bytes"
proof -
  have sz: "object_size 0x1000 = 0x1000"
    by (simp add: object_size_def align_up_nat_def)
  have "heap_inv page_bytes (page_mem, page_list\<lparr>heap := 0, alloc_size := 0x1000\<rparr>) {}"
    by (auto simp: page_list_def page_bytes_def HEAP_TOP_def intro: exI [of _ "[]"])
  moreover have "heap_placed page_bytes 0x10000 0x1000"
    by (simp add: heap_placed_def sz page_bytes_def HEAP_TOP_def MAX_ALLOC_SIZE_def)
  ultimately show ?thesis
    using heap_deallocate_exact [of page_bytes page_mem "page_list\<lparr>heap := 0, alloc_size := 0x1000\<rparr>"
        "{}" "0x10000" "0x1000"]
    by (auto simp: sz page_bytes_def simp del: heap_inv.simps heap_dealloc.simps)
qed

text \<open>
  C6. Adding memory is exact: a range is trimmed to whole 16-byte units; if less than two units
  are left it is refused with \<^verbatim>\<open>ERROR_ARGUMENT_SIZE\<close>; otherwise it is accepted precisely
  when \<^const>\<open>list_add_accepts\<close> holds, which implies that it overlaps no free block, and then
  it is coalesced into the free list; a refused range changes nothing.
\<close>

theorem heap_add_memory_exact:
  assumes "heap_inv R (m, A) (bytes xs)" "freelist m (heap A) xs" "fl_wf xs"
    and "addr \<noteq> 0" "unat addr + unat sz \<le> HEAP_TOP"
    and "trimmed_base addr + 16 * trimmed_size addr sz < 2 ^ 64"
  shows "let a = trimmed_base addr; s = trimmed_size addr sz in
    if unat sz < 16 \<or> s < 32
    then freelist_heap_add_memory m A addr sz = Some (ERROR_ARGUMENT_SIZE, m, A)
    else if list_add_accepts a s xs
    then \<exists>m' A'. freelist_heap_add_memory m A addr sz = Some (OK, m', A') \<and>
      freelist m' (heap A') (fl_insert a s xs) \<and> {a ..< a + s} \<inter> bytes xs = {} \<and>
      (\<forall>q. unat q \<notin> bytes xs \<union> {a ..< a + s} \<longrightarrow> m' q = m q) \<and>
      ({a ..< a + s} \<inter> R = {} \<longrightarrow>
        heap_inv (R \<union> {a ..< a + s}) (m', A') (bytes xs \<union> {a ..< a + s}))
    else freelist_heap_add_memory m A addr sz =
      Some (ERROR_ALLOCATOR_RANGE_OVERLAPPING, m, A)"
  unfolding Let_def by (rule freelist_heap_add_memory_refines [OF assms])

theorem heap_add_memory_exact_witness:
  "\<exists>m' A'. freelist_heap_add_memory page_mem page_list 0x11008 0x200 = Some (OK, m', A') \<and>
    freelist m' (heap A') [(0x10000, 0x1000), (0x11010, 0x1f0)]"
proof -
  have t: "trimmed_base 0x11008 = 0x11010" "trimmed_size 0x11008 0x200 = 0x1f0"
    by (simp_all add: trimmed_base_def trimmed_size_def align_up_nat_def)
  have wf: "fl_wf [(0x10000, 0x1000)]" by (simp add: fl_wf_def HEAP_TOP_def)
  have "heap_inv page_bytes page_heap (bytes [(0x10000, 0x1000)])"
    using page_heap_inv by (simp add: page_bytes_def del: heap_inv.simps)
  moreover have "freelist page_mem (heap page_list) [(0x10000, 0x1000)]"
    by (simp add: page_mem_def page_list_def)
  ultimately show ?thesis
    using heap_add_memory_exact [of page_bytes page_mem page_list "[(0x10000, 0x1000)]" "0x11008" "0x200"] wf
    by (auto simp: t HEAP_TOP_def simp del: heap_inv.simps)
qed

text \<open>
  C7. A block that ends exactly where a free block begins, and does not touch the free block
  before it, is refused as overlapping although it overlaps nothing: the comparison that
  should recognise it advances a node pointer by \<^verbatim>\<open>size\<close> elements instead of \<^verbatim>\<open>size\<close> bytes.
\<close>

theorem list_add_refuses_adjacent:
  assumes "freelist m head (us @ (b, t) # (c, r) # vs)" "fl_wf (us @ (b, t) # (c, r) # vs)"
    and "node_ok (unat node, unat sz)" "unat node + 16 * unat sz < 2 ^ 64"
    and "b + t < unat node" "unat node + unat sz = c"
  shows "list_add m head node sz = Some (ERROR_ALLOCATOR_RANGE_OVERLAPPING, m, head) \<and>
    {unat node ..< unat node + unat sz} \<inter> bytes (us @ (b, t) # (c, r) # vs) = {}"
proof -
  let ?xs = "us @ (b, t) # (c, r) # vs"
  have "\<not> accepts_after (unat node) (unat sz) ((b, t) # (c, r) # vs)"
    using assms(3,5,6) by (auto simp: touching_def)
  then have "\<not> list_add_accepts (unat node) (unat sz) ?xs"
    using accepts_skip [OF assms(2)] assms(5) by auto
  moreover have "{unat node ..< unat node + unat sz} \<inter> bytes ?xs = {}"
    by (rule between_disjoint [OF assms(2)]) (use assms(5,6) in auto)
  ultimately show ?thesis
    using list_add_refines [OF assms(1-4) refl refl] by (simp add: list_add_spec_def)
qed

theorem list_add_refuses_adjacent_witness:
  "list_add (page_mem(0x10000 := \<lparr>an_size = 0x1000, an_next = 0x20000\<rparr>)) 0x10000 0x1f000 0x1000 =
    Some (ERROR_ALLOCATOR_RANGE_OVERLAPPING, page_mem(0x10000 := \<lparr>an_size = 0x1000, an_next = 0x20000\<rparr>), 0x10000)"
  by (rule list_add_refuses_adjacent [of _ _ "[]" "0x10000" "0x1000" "0x20000" "0x1000" "[]",
        THEN conjunct1])
    (simp_all add: page_mem_def fl_wf_def HEAP_TOP_def)

text \<open>
  C5. Removing memory is exact: a range of whole units leaves the heap if and only if all of it
  is free; otherwise the call fails with \<^verbatim>\<open>ERROR_ALLOCATOR_MEM_INUSE\<close> and changes nothing.
\<close>

theorem heap_remove_memory_exact:
  assumes "heap_inv R (m, A) F" "F \<noteq> {}" "addr \<noteq> 0" "unat addr + unat sz < 2 ^ 64"
    and "16 dvd unat addr" "16 \<le> unat sz" "16 dvd unat sz"
  shows "let B = {unat addr ..< unat addr + unat sz} in
    if B \<subseteq> F
    then \<exists>m' A'. freelist_heap_remove_memory m A addr sz = Some (OK, m', A') \<and>
      heap_inv (R - B) (m', A') (F - B) \<and> (\<forall>q. unat q \<notin> F \<longrightarrow> m' q = m q)
    else freelist_heap_remove_memory m A addr sz = Some (ERROR_ALLOCATOR_MEM_INUSE, m, A)"
  unfolding Let_def by (rule heap_remove_refines [OF assms])

theorem heap_remove_memory_exact_witness:
  "\<exists>m' A'. freelist_heap_remove_memory page_mem page_list 0x10400 0x100 = Some (OK, m', A') \<and>
    heap_inv (page_bytes - {0x10400 ..< 0x10500}) (m', A') (page_bytes - {0x10400 ..< 0x10500})"
proof -
  have "{0x10400 ..< 0x10500} \<subseteq> page_bytes" "page_bytes \<noteq> {}" by (auto simp: page_bytes_def)
  then show ?thesis
    using heap_remove_memory_exact [OF page_heap_inv, of "0x10400" "0x100"]
    by (auto simp: Let_def simp del: heap_inv.simps)
qed

text \<open>
  C8. The query \<^verbatim>\<open>freelist_heap_memory_is_free\<close> answers \<^verbatim>\<open>OK\<close> exactly when the range lies in the
  first block of the free list: it never calls used memory free, but free memory that lies
  in a later block is reported as in use.
\<close>

theorem heap_memory_is_free_exact:
  assumes "freelist m (heap A) ((a, s) # xs)" "fl_wf ((a, s) # xs)" "unat addr + unat sz < 2 ^ 64"
  shows "freelist_heap_memory_is_free m A addr sz =
    Some (if a \<le> unat addr \<and> unat addr + unat sz \<le> a + s then OK
          else ERROR_ALLOCATOR_MEM_INUSE)"
  using freelist_heap_memory_is_free_refines [OF assms] by simp

theorem heap_memory_is_free_exact_witness:
  "freelist_heap_memory_is_free (page_mem(0x10000 := \<lparr>an_size = 0x1000, an_next = 0x20000\<rparr>))
     page_list 0x20000 0x100 = Some ERROR_ALLOCATOR_MEM_INUSE"
  using heap_memory_is_free_exact [of "page_mem(0x10000 := \<lparr>an_size = 0x1000, an_next = 0x20000\<rparr>)"
      page_list "0x10000" "0x1000" "[(0x20000, 0x1000)]" "0x20000" "0x100"]
  by (simp add: page_mem_def page_list_def fl_wf_def HEAP_TOP_def)

text \<open>
  The statistics are exact: the numbers of bytes managed and allocated, and the size of the
  largest free block, which bounds every run of free bytes.
\<close>

theorem heap_stats_exact:
  assumes "heap_inv R (m, A) F"
  shows "\<exists>st. freelist_heap_stats m A = Some (OK, st) \<and> unat (stats_total st) = card R \<and>
    unat (stats_allocated st) = card (R - F) \<and>
    (\<forall>p n. {p ..< p + n} \<subseteq> F \<longrightarrow> n \<le> unat (stats_largest_free st)) \<and>
    (\<exists>p. {p ..< p + unat (stats_largest_free st)} \<subseteq> F)"
proof -
  from assms obtain xs where xs: "freelist m (heap A) xs" "fl_wf xs" "bytes xs = F" by auto
  from largest_free_loop_refines [OF xs(1), of 0] obtain w where
    w: "largest_free_loop m (heap A) 0 = Some w" "unat w = (if xs = [] then 0 else Max (snd ` set xs))"
    by (auto simp: fold_max_0)
  have "n \<le> unat w" if sub: "{p ..< p + n} \<subseteq> F" for p n
  proof (cases "n = 0")
    case False
    from run_in_block [OF xs(2) sub [folded xs(3)]] False obtain a s where
      b: "(a, s) \<in> set xs" "a \<le> p" "p + n \<le> a + s" by auto
    then have "s \<in> snd ` set xs" by force
    then have "s \<le> Max (snd ` set xs)" by simp
    then show ?thesis using b w(2) by auto
  qed simp
  moreover have "\<exists>p. {p ..< p + unat w} \<subseteq> F"
  proof (cases "xs = []")
    case False
    then have "Max (snd ` set xs) \<in> snd ` set xs" by (intro Max_in) auto
    then obtain a where "(a, Max (snd ` set xs)) \<in> set xs" by auto
    then have "span (a, unat w) \<subseteq> F" using w(2) False xs(3) unfolding bytes_def by auto
    then show ?thesis by auto
  qed (use w in simp)
  ultimately show ?thesis using w assms by (auto simp: freelist_heap_stats_def)
qed

theorem heap_stats_exact_witness:
  "\<exists>st. freelist_heap_stats page_mem page_list = Some (OK, st) \<and> unat (stats_total st) = 0x1000 \<and>
    unat (stats_allocated st) = 0"
  using heap_stats_exact [OF page_heap_inv] by (auto simp: page_bytes_def)

end
