(* ===== verification/RangeTree.thy ===== *)
theory RangeTree
  imports Gunyah_Prelude
begin

text \<open>
  The range tree, \<^verbatim>\<open>hyp/misc/range_tree_avl/src/range_tree_avl.c\<close>: an AVL tree of disjoint
  address ranges whose nodes are embedded in their owners' objects.

  The tree is modelled at the level of its pointers. The store maps the address of a node to its
  fields; a C pointer to a link (\<^verbatim>\<open>range_tree_node_t *_Atomic *subtree\<close>) is a \<open>rt_loc\<close>: the root
  pointer of the tree or one of the two child pointers of a node. Updates run with the write lock
  held. The stored balance is a signed byte in the code; it stays between -1 and 1.
\<close>

section \<open>Data\<close>

record range_tree_node =
  rn_base :: u64
  rn_size :: u64
  rn_left :: ptr
  rn_right :: ptr
  rn_balance :: int

record range_tree =
  rt_root :: ptr
  rt_node :: "ptr \<Rightarrow> range_tree_node"

datatype rt_loc = RootLink | LeftLink ptr | RightLink ptr

fun load :: "range_tree \<Rightarrow> rt_loc \<Rightarrow> ptr" where
  "load t RootLink = rt_root t"
| "load t (LeftLink p) = rn_left (rt_node t p)"
| "load t (RightLink p) = rn_right (rt_node t p)"

fun store :: "range_tree \<Rightarrow> rt_loc \<Rightarrow> ptr \<Rightarrow> range_tree" where
  "store t RootLink q = t\<lparr>rt_root := q\<rparr>"
| "store t (LeftLink p) q = t\<lparr>rt_node := (rt_node t)(p := (rt_node t p)\<lparr>rn_left := q\<rparr>)\<rparr>"
| "store t (RightLink p) q = t\<lparr>rt_node := (rt_node t)(p := (rt_node t p)\<lparr>rn_right := q\<rparr>)\<rparr>"

abbreviation balance :: "range_tree \<Rightarrow> ptr \<Rightarrow> int" where
  "balance t p \<equiv> rn_balance (rt_node t p)"

definition set_balance :: "range_tree \<Rightarrow> ptr \<Rightarrow> int \<Rightarrow> range_tree" where
  "set_balance t p b = t\<lparr>rt_node := (rt_node t)(p := (rt_node t p)\<lparr>rn_balance := b\<rparr>)\<rparr>"

text \<open>The last address of the range of a node.\<close>

definition rn_last :: "range_tree_node \<Rightarrow> u64" where
  "rn_last n = rn_base n + rn_size n - 1"

section \<open>Rotations\<close>

definition range_tree_rotate_right :: "rt_loc \<Rightarrow> ptr \<Rightarrow> ptr \<Rightarrow> range_tree \<Rightarrow> range_tree" where
  "range_tree_rotate_right subtree root left t =
    (let centre = load t (RightLink left);
         t = store t (RightLink left) root;
         t = store t subtree left
     in store t (LeftLink root) centre)"

definition range_tree_rotate_left :: "rt_loc \<Rightarrow> ptr \<Rightarrow> ptr \<Rightarrow> range_tree \<Rightarrow> range_tree" where
  "range_tree_rotate_left subtree root right t =
    (let centre = load t (LeftLink right);
         t = store t (LeftLink right) root;
         t = store t subtree right
     in store t (RightLink root) centre)"

definition range_tree_rebalance_leftwards ::
    "rt_loc \<Rightarrow> ptr \<Rightarrow> range_tree \<Rightarrow> (bool \<times> range_tree) option" where
  "range_tree_rebalance_leftwards subtree root t =
    do {
      let right = load t (RightLink root);
      c_assert (right \<noteq> NULL);
      if balance t right \<le> 0 then
        do {
          let t = range_tree_rotate_left subtree root right t;
          let t = set_balance t root (- 1 - balance t right);
          let t = set_balance t right (balance t right + 1);
          Some (balance t right = 0, t)
        }
      else
        do {
          let centre = load t (LeftLink right);
          c_assert (centre \<noteq> NULL);
          let t = range_tree_rotate_right (RightLink root) right centre t;
          let t = range_tree_rotate_left subtree root centre t;
          let t = set_balance t root (if balance t centre < 0 then 1 else 0);
          let t = set_balance t right (if balance t centre > 0 then - 1 else 0);
          let t = set_balance t centre 0;
          Some (True, t)
        }
    }"

definition range_tree_rebalance_rightwards ::
    "rt_loc \<Rightarrow> ptr \<Rightarrow> range_tree \<Rightarrow> (bool \<times> range_tree) option" where
  "range_tree_rebalance_rightwards subtree root t =
    do {
      let left = load t (LeftLink root);
      c_assert (left \<noteq> NULL);
      if balance t left \<ge> 0 then
        do {
          let t = range_tree_rotate_right subtree root left t;
          let t = set_balance t root (1 - balance t left);
          let t = set_balance t left (balance t left - 1);
          Some (balance t left = 0, t)
        }
      else
        do {
          let centre = load t (RightLink left);
          c_assert (centre \<noteq> NULL);
          let t = range_tree_rotate_left (LeftLink root) left centre t;
          let t = range_tree_rotate_right subtree root centre t;
          let t = set_balance t root (if balance t centre > 0 then - 1 else 0);
          let t = set_balance t left (if balance t centre < 0 then 1 else 0);
          let t = set_balance t centre 0;
          Some (True, t)
        }
    }"

section \<open>Insertion\<close>

partial_function (option) range_tree_insert_node ::
    "rt_loc \<Rightarrow> ptr \<Rightarrow> range_tree \<Rightarrow> (bool result \<times> range_tree) option" where
  [code]: "range_tree_insert_node subtree node t =
    (let subtree_root = load t subtree in
     if subtree_root = NULL then
       Some (Inr True, set_balance (store t subtree node) node 0)
     else if rn_last (rt_node t node) < rn_base (rt_node t subtree_root) then
       Option.bind (range_tree_insert_node (LeftLink subtree_root) node t) (\<lambda>(r, t).
         case r of
           Inl e \<Rightarrow> Some (Inl e, t)
         | Inr increased \<Rightarrow>
             if increased \<and> balance t subtree_root \<le> 0 then
               (let t = set_balance t subtree_root (balance t subtree_root + 1)
                in Some (Inr (balance t subtree_root \<noteq> 0), t))
             else if increased then
               Option.bind (range_tree_rebalance_rightwards subtree subtree_root t)
                 (\<lambda>(height_reduced, t).
                    Option.bind (c_assert height_reduced) (\<lambda>_. Some (Inr False, t)))
             else Some (Inr False, t))
     else if rn_base (rt_node t node) > rn_last (rt_node t subtree_root) then
       Option.bind (range_tree_insert_node (RightLink subtree_root) node t) (\<lambda>(r, t).
         case r of
           Inl e \<Rightarrow> Some (Inl e, t)
         | Inr increased \<Rightarrow>
             if increased \<and> balance t subtree_root \<ge> 0 then
               (let t = set_balance t subtree_root (balance t subtree_root - 1)
                in Some (Inr (balance t subtree_root \<noteq> 0), t))
             else if increased then
               Option.bind (range_tree_rebalance_leftwards subtree subtree_root t)
                 (\<lambda>(height_reduced, t).
                    Option.bind (c_assert height_reduced) (\<lambda>_. Some (Inr False, t)))
             else Some (Inr False, t))
     else Some (Inl ERROR_BUSY, t))"

definition range_tree_insert ::
    "range_tree \<Rightarrow> ptr \<Rightarrow> u64 \<Rightarrow> u64 \<Rightarrow> (error_t \<times> range_tree) option" where
  "range_tree_insert t node base sz =
    (if util_add_overflows base (sz - 1) then Some (ERROR_ARGUMENT_SIZE, t)
     else do {
       let t = t\<lparr>rt_node := (rt_node t)(node :=
           \<lparr>rn_base = base, rn_size = sz, rn_left = NULL, rn_right = NULL, rn_balance = 0\<rparr>)\<rparr>;
       (r, t) \<leftarrow> range_tree_insert_node RootLink node t;
       Some (result_e r, t)
     })"

section \<open>Removal\<close>

text \<open>The argument \<^verbatim>\<open>parent_left\<close> may be null in the code, hence an option here.\<close>

partial_function (option) range_tree_replace_with_successor ::
    "rt_loc \<Rightarrow> ptr \<Rightarrow> ptr \<Rightarrow> rt_loc option \<Rightarrow> ptr \<Rightarrow> range_tree \<Rightarrow> (bool \<times> range_tree) option" where
  [code]: "range_tree_replace_with_successor subtree left right parent_left node t =
    (let succ_left = load t (LeftLink node) in
     if succ_left \<noteq> NULL then
       Option.bind (range_tree_replace_with_successor subtree left right
           (Some (LeftLink node)) succ_left t) (\<lambda>(left_height_reduced, t).
         let new_subtree = (case parent_left of
               None \<Rightarrow> RightLink (load t subtree) | Some l \<Rightarrow> l) in
         if left_height_reduced \<and> balance t node \<ge> 0 then
           (let t = set_balance t node (balance t node - 1)
            in Some (balance t node = 0, t))
         else if left_height_reduced then range_tree_rebalance_leftwards new_subtree node t
         else Some (False, t))
     else
       (let t = store t (LeftLink node) left in
        case parent_left of
          Some parent_left \<Rightarrow>
            (let succ_right = load t (RightLink node);
                 t = store t (RightLink node) right;
                 t = store t subtree node;
                 t = store t parent_left succ_right
             in Some (True, t))
        | None \<Rightarrow>
            Option.bind (c_assert (node = right)) (\<lambda>_. Some (True, store t subtree right))))"

definition range_tree_remove_subtree_root ::
    "rt_loc \<Rightarrow> ptr \<Rightarrow> range_tree \<Rightarrow> (bool \<times> range_tree) option" where
  "range_tree_remove_subtree_root subtree root t =
    (let left = load t (LeftLink root); right = load t (RightLink root) in
     if left = NULL then Some (True, store t subtree right)
     else if right = NULL then Some (True, store t subtree left)
     else do {
       (right_height_reduced, t) \<leftarrow>
         range_tree_replace_with_successor subtree left right None right t;
       let node = load t subtree;
       let t = set_balance t node (balance t root);
       if right_height_reduced \<and> balance t node \<le> 0 then
         do {
           let t = set_balance t node (balance t node + 1);
           Some (balance t node = 0, t)
         }
       else if right_height_reduced then range_tree_rebalance_rightwards subtree node t
       else Some (False, t)
     })"

partial_function (option) range_tree_remove_node ::
    "rt_loc \<Rightarrow> ptr \<Rightarrow> range_tree \<Rightarrow> (bool result \<times> range_tree) option" where
  [code]: "range_tree_remove_node subtree removed_node t =
    (let subtree_root = load t subtree in
     if subtree_root = NULL then Some (Inl ERROR_ADDR_INVALID, t)
     else if rn_last (rt_node t removed_node) < rn_base (rt_node t subtree_root) then
       Option.bind (range_tree_remove_node (LeftLink subtree_root) removed_node t) (\<lambda>(r, t).
         case r of
           Inl e \<Rightarrow> Some (Inl e, t)
         | Inr reduced \<Rightarrow>
             if reduced \<and> balance t subtree_root \<ge> 0 then
               (let t = set_balance t subtree_root (balance t subtree_root - 1)
                in Some (Inr (balance t subtree_root = 0), t))
             else if reduced then
               Option.bind (range_tree_rebalance_leftwards subtree subtree_root t)
                 (\<lambda>(height_reduced, t). Some (Inr height_reduced, t))
             else Some (Inr False, t))
     else if rn_base (rt_node t removed_node) > rn_last (rt_node t subtree_root) then
       Option.bind (range_tree_remove_node (RightLink subtree_root) removed_node t) (\<lambda>(r, t).
         case r of
           Inl e \<Rightarrow> Some (Inl e, t)
         | Inr reduced \<Rightarrow>
             if reduced \<and> balance t subtree_root \<le> 0 then
               (let t = set_balance t subtree_root (balance t subtree_root + 1)
                in Some (Inr (balance t subtree_root = 0), t))
             else if reduced then
               Option.bind (range_tree_rebalance_rightwards subtree subtree_root t)
                 (\<lambda>(height_reduced, t). Some (Inr height_reduced, t))
             else Some (Inr False, t))
     else if subtree_root \<noteq> removed_node then Some (Inl ERROR_BUSY, t)
     else Option.bind (range_tree_remove_subtree_root subtree removed_node t)
            (\<lambda>(height_reduced, t). Some (Inr height_reduced, t)))"

definition range_tree_remove :: "range_tree \<Rightarrow> ptr \<Rightarrow> (error_t \<times> range_tree) option" where
  "range_tree_remove t node =
    do {
      (r, t) \<leftarrow> range_tree_remove_node RootLink node t;
      Some (result_e r, t)
    }"

section \<open>Lookup, iteration, destruction\<close>

record range_tree_lookup_result =
  rl_node :: ptr
  rl_size :: u64

text \<open>The \<^verbatim>\<open>while\<close> loop of \<^verbatim>\<open>range_tree_lookup\<close>.\<close>

partial_function (option) range_tree_lookup_loop ::
    "range_tree \<Rightarrow> u64 \<Rightarrow> u64 \<Rightarrow> ptr \<Rightarrow> range_tree_lookup_result option" where
  [code]: "range_tree_lookup_loop t base size_limit node =
    (if node \<noteq> NULL then
       if base < rn_base (rt_node t node) then
         range_tree_lookup_loop t base (util_min size_limit (rn_base (rt_node t node) - base))
           (load t (LeftLink node))
       else if base \<le> rn_last (rt_node t node) then
         Some \<lparr>rl_node = node,
               rl_size = util_min size_limit
                 (rn_size (rt_node t node) - (base - rn_base (rt_node t node)))\<rparr>
       else range_tree_lookup_loop t base size_limit (load t (RightLink node))
     else Some \<lparr>rl_node = NULL, rl_size = size_limit\<rparr>)"

definition range_tree_lookup ::
    "range_tree \<Rightarrow> u64 \<Rightarrow> u64 \<Rightarrow> range_tree_lookup_result option" where
  "range_tree_lookup t base max_size =
    (let size_limit = util_min max_size (if base = 0 then - 1 else - 1 - base + 1)
     in range_tree_lookup_loop t base size_limit (load t RootLink))"

partial_function (option) range_tree_next_subtree_node ::
    "range_tree \<Rightarrow> ptr \<Rightarrow> u64 \<Rightarrow> ptr option" where
  [code]: "range_tree_next_subtree_node t root start =
    (if root = NULL then Some NULL
     else if start > rn_base (rt_node t root) then
       range_tree_next_subtree_node t (load t (RightLink root)) start
     else Option.bind (range_tree_next_subtree_node t (load t (LeftLink root)) start)
       (\<lambda>left_next. if left_next \<noteq> NULL then Some left_next else Some root))"

definition range_tree_next_node :: "range_tree \<Rightarrow> u64 \<Rightarrow> ptr option" where
  "range_tree_next_node t start = range_tree_next_subtree_node t (load t RootLink) start"

text \<open>
  Destruction hands every node to the \<^verbatim>\<open>range_tree_release_node\<close> event, whose handlers belong to
  the owners of the nodes: \<open>release\<close> says whether the event succeeds for a node. The result lists
  the released nodes in order.
\<close>

partial_function (option) range_tree_destroy_node ::
    "(ptr \<Rightarrow> bool) \<Rightarrow> ptr \<Rightarrow> range_tree \<Rightarrow> (ptr list \<times> range_tree) option" where
  [code]: "range_tree_destroy_node release node t =
    Option.bind (c_assert (node \<noteq> NULL)) (\<lambda>_.
      let left = load t (LeftLink node) in
      Option.bind (if left \<noteq> NULL
          then range_tree_destroy_node release left (store t (LeftLink node) NULL)
          else Some ([], t)) (\<lambda>(ls, t).
        let right = load t (RightLink node) in
        Option.bind (if right \<noteq> NULL
            then range_tree_destroy_node release right (store t (RightLink node) NULL)
            else Some ([], t)) (\<lambda>(rs, t).
          Option.bind (c_assert (release node)) (\<lambda>_. Some (ls @ rs @ [node], t)))))"

definition range_tree_destroy ::
    "(ptr \<Rightarrow> bool) \<Rightarrow> range_tree \<Rightarrow> (ptr list \<times> range_tree) option" where
  "range_tree_destroy release t =
    (let root = load t RootLink in
     if root \<noteq> NULL then range_tree_destroy_node release root t else Some ([], t))"

text \<open>
  The loop header of \<^verbatim>\<open>range_tree_foreach\<close>: from one visited node to the next. The result lists the
  visited nodes.
\<close>

partial_function (option) range_tree_foreach_from :: "range_tree \<Rightarrow> ptr \<Rightarrow> ptr list option" where
  [code]: "range_tree_foreach_from t node =
    (if node \<noteq> NULL then
       Option.bind (if util_add_overflows (rn_base (rt_node t node)) 1 then Some NULL
           else range_tree_next_node t (rn_base (rt_node t node) + 1)) (\<lambda>next.
         Option.bind (range_tree_foreach_from t next) (\<lambda>ns. Some (node # ns)))
     else Some [])"

definition range_tree_foreach :: "range_tree \<Rightarrow> ptr list option" where
  "range_tree_foreach t =
    Option.bind (range_tree_next_node t 0) (\<lambda>node. range_tree_foreach_from t node)"

definition range_tree_init :: "range_tree \<Rightarrow> error_t \<times> range_tree" where
  "range_tree_init t = (OK, t\<lparr>rt_root := NULL\<rparr>)"

end
