(* ===== verification/RangeTree_Spec.thy ===== *)
theory RangeTree_Spec
  imports Gunyah_Prelude
begin

text \<open>
  Reference operations for the range tree on an algebraic tree: insertion and removal in an AVL
  tree with a stored balance, over disjoint address ranges. They return, like the code, whether
  the height of the tree changed. The pointer code of theory RangeTree is proved to implement them
  in theory RangeTree\_Refine.
\<close>

section \<open>Trees of ranges\<close>

text \<open>A node is its address, the base of its range and the size of its range.\<close>

type_synonym rnode = "ptr \<times> u64 \<times> u64"

fun addr :: "rnode \<Rightarrow> ptr" where "addr (p, b, s) = p"
fun lo :: "rnode \<Rightarrow> u64" where "lo (p, b, s) = b"
fun hi :: "rnode \<Rightarrow> u64" where "hi (p, b, s) = b + s - 1"

datatype rtree = Lf | Nd rtree rnode int rtree

fun inorder :: "rtree \<Rightarrow> rnode list" where
  "inorder Lf = []"
| "inorder (Nd l n b r) = inorder l @ n # inorder r"

fun height :: "rtree \<Rightarrow> int" where
  "height Lf = 0"
| "height (Nd l n b r) = max (height l) (height r) + 1"

fun avl :: "rtree \<Rightarrow> bool" where
  "avl Lf = True"
| "avl (Nd l n b r) \<longleftrightarrow> b = height l - height r \<and> \<bar>b\<bar> \<le> 1 \<and> avl l \<and> avl r"

text \<open>Ranges that do not wrap, in ascending order and without overlap.\<close>

definition ranges :: "rnode list \<Rightarrow> bool" where
  "ranges xs \<longleftrightarrow> (\<forall>x \<in> set xs. lo x \<le> hi x) \<and> sorted_wrt (\<lambda>x y. hi x < lo y) xs"

definition overlaps :: "rnode \<Rightarrow> rnode \<Rightarrow> bool" where
  "overlaps x y \<longleftrightarrow> lo x \<le> hi y \<and> lo y \<le> hi x"

lemma height_nonneg: "0 \<le> height t"
  by (induction t) auto

lemma height_0: "height t = 0 \<longleftrightarrow> t = Lf"
proof (cases t)
  case (Nd l n b r)
  have "0 < height t" unfolding Nd height.simps using height_nonneg [of l] by linarith
  then show ?thesis using Nd by (metis less_irrefl rtree.distinct(1))
qed simp

text \<open>A tree with a difference of two has the shape that rebalancing needs.\<close>

lemma avl_high:
  assumes "avl r" "0 < height r"
  obtains c x b d where "r = Nd c x b d" "avl c" "avl d" "b = height c - height d" "\<bar>b\<bar> \<le> 1"
    "height r = max (height c) (height d) + 1"
  using assms by (cases r) auto

lemma ranges_simps [simp]:
  "ranges []"
  "ranges (x # xs) \<longleftrightarrow> lo x \<le> hi x \<and> (\<forall>y \<in> set xs. hi x < lo y) \<and> ranges xs"
  "ranges (xs @ ys) \<longleftrightarrow> ranges xs \<and> ranges ys \<and> (\<forall>x \<in> set xs. \<forall>y \<in> set ys. hi x < lo y)"
  by (auto simp: ranges_def sorted_wrt_append)

section \<open>Rebalancing\<close>

text \<open>The tree with subtrees \<open>l\<close> and \<open>r\<close> after the right (left) one became two levels too high.\<close>

fun rebl :: "rtree \<Rightarrow> rnode \<Rightarrow> rtree \<Rightarrow> bool \<times> rtree" where
  "rebl l n (Nd c x bx d) =
     (if bx \<le> 0 then (bx + 1 = 0, Nd (Nd l n (- 1 - bx) c) x (bx + 1) d)
      else case c of
        Nd c1 y by' c2 \<Rightarrow> (True, Nd (Nd l n (if by' < 0 then 1 else 0) c1) y 0
                                  (Nd c2 x (if by' > 0 then - 1 else 0) d))
      | Lf \<Rightarrow> (False, Nd l n 0 (Nd c x bx d)))"
| "rebl l n Lf = (False, Nd l n 0 Lf)"

fun rebr :: "rtree \<Rightarrow> rnode \<Rightarrow> rtree \<Rightarrow> bool \<times> rtree" where
  "rebr (Nd a x bx c) n r =
     (if bx \<ge> 0 then (bx - 1 = 0, Nd a x (bx - 1) (Nd c n (1 - bx) r))
      else case c of
        Nd c1 y by' c2 \<Rightarrow> (True, Nd (Nd a x (if by' < 0 then 1 else 0) c1) y 0
                                  (Nd c2 n (if by' > 0 then - 1 else 0) r))
      | Lf \<Rightarrow> (False, Nd (Nd a x bx c) n 0 r))"
| "rebr Lf n r = (False, Nd Lf n 0 r)"

definition rebl_ok :: "rtree \<Rightarrow> rtree \<Rightarrow> bool" where
  "rebl_ok l r \<longleftrightarrow> avl l \<and> avl r \<and> height r = height l + 2"

lemma rebl_avl:
  assumes "rebl_ok l r"
  shows "avl (snd (rebl l n r)) \<and>
    height (snd (rebl l n r)) = height r + (if fst (rebl l n r) then 0 else 1) \<and>
    inorder (snd (rebl l n r)) = inorder l @ n # inorder r"
proof -
  have ok: "avl l" "avl r" "height r = height l + 2" using assms by (auto simp: rebl_ok_def)
  have "0 < height r" using ok height_nonneg [of l] by linarith
  with ok(2) obtain c x b d where r: "r = Nd c x b d" "avl c" "avl d" "b = height c - height d"
    "\<bar>b\<bar> \<le> 1" "height r = max (height c) (height d) + 1" by (rule avl_high)
  show ?thesis
  proof (cases "b \<le> 0")
    case True
    then show ?thesis using r ok by (auto simp: max_def)
  next
    case False
    then have "0 < height c" using r height_nonneg [of d] by linarith
    with r(2) obtain c1 y e c2 where c: "c = Nd c1 y e c2" "avl c1" "avl c2" "e = height c1 - height c2"
      "\<bar>e\<bar> \<le> 1" "height c = max (height c1) (height c2) + 1" by (rule avl_high)
    then show ?thesis using False r ok by (auto simp: max_def split: if_splits)
  qed
qed

lemma rebr_avl:
  assumes "rebl_ok r l"
  shows "avl (snd (rebr l n r)) \<and>
    height (snd (rebr l n r)) = height l + (if fst (rebr l n r) then 0 else 1) \<and>
    inorder (snd (rebr l n r)) = inorder l @ n # inorder r"
proof -
  have ok: "avl r" "avl l" "height l = height r + 2" using assms by (auto simp: rebl_ok_def)
  have "0 < height l" using ok height_nonneg [of r] by linarith
  with ok(2) obtain a x b c where l: "l = Nd a x b c" "avl a" "avl c" "b = height a - height c"
    "\<bar>b\<bar> \<le> 1" "height l = max (height a) (height c) + 1" by (rule avl_high)
  show ?thesis
  proof (cases "b \<ge> 0")
    case True
    then show ?thesis using l ok by (auto simp: max_def)
  next
    case False
    then have "0 < height c" using l height_nonneg [of a] by linarith
    with l(3) obtain c1 y e c2 where c: "c = Nd c1 y e c2" "avl c1" "avl c2" "e = height c1 - height c2"
      "\<bar>e\<bar> \<le> 1" "height c = max (height c1) (height c2) + 1" by (rule avl_high)
    then show ?thesis using False l ok by (auto simp: max_def split: if_splits)
  qed
qed

section \<open>Insertion\<close>

fun ins :: "rnode \<Rightarrow> rtree \<Rightarrow> bool result \<times> rtree" where
  "ins x Lf = (Inr True, Nd Lf x 0 Lf)"
| "ins x (Nd l n b r) =
     (if hi x < lo n then
        case ins x l of
          (Inl e, l') \<Rightarrow> (Inl e, Nd l n b r)
        | (Inr inc, l') \<Rightarrow>
            if inc \<and> b \<le> 0 then (Inr (b + 1 \<noteq> 0), Nd l' n (b + 1) r)
            else if inc then (Inr False, snd (rebr l' n r))
            else (Inr False, Nd l' n b r)
      else if lo x > hi n then
        case ins x r of
          (Inl e, r') \<Rightarrow> (Inl e, Nd l n b r)
        | (Inr inc, r') \<Rightarrow>
            if inc \<and> b \<ge> 0 then (Inr (b - 1 \<noteq> 0), Nd l n (b - 1) r')
            else if inc then (Inr False, snd (rebl l n r'))
            else (Inr False, Nd l n b r')
      else (Inl ERROR_BUSY, Nd l n b r))"

text \<open>A successful insertion keeps the balance and reports the change of height.\<close>

definition heavy :: "rtree \<Rightarrow> bool" where
  "heavy t \<longleftrightarrow> (case t of Lf \<Rightarrow> False | Nd l n b r \<Rightarrow> b \<noteq> 0)"

lemma rebr_heavy: "rebl_ok r l \<Longrightarrow> heavy l \<Longrightarrow> fst (rebr l n r)"
proof -
  assume ok: "rebl_ok r l" and h: "heavy l"
  then obtain a x b c where l: "l = Nd a x b c" "b \<noteq> 0" "\<bar>b\<bar> \<le> 1" "b = height a - height c"
    by (cases l) (auto simp: heavy_def rebl_ok_def)
  show ?thesis
  proof (cases "b \<ge> 0")
    case False
    then have "c \<noteq> Lf" using l(4) height_nonneg [of a] by fastforce
    then show ?thesis using False l by (cases c) auto
  qed (use l in auto)
qed

lemma rebl_heavy: "rebl_ok l r \<Longrightarrow> heavy r \<Longrightarrow> fst (rebl l n r)"
proof -
  assume ok: "rebl_ok l r" and h: "heavy r"
  then obtain c x b d where r: "r = Nd c x b d" "b \<noteq> 0" "\<bar>b\<bar> \<le> 1" "b = height c - height d"
    by (cases r) (auto simp: heavy_def rebl_ok_def)
  show ?thesis
  proof (cases "b \<le> 0")
    case False
    then have "c \<noteq> Lf" using r(4) height_nonneg [of d] by fastforce
    then show ?thesis using False r by (cases c) auto
  qed (use r in auto)
qed

lemma ins_avl:
  "avl t \<Longrightarrow> ins x t = (Inr inc, t') \<Longrightarrow>
    avl t' \<and> height t' = height t + (if inc then 1 else 0) \<and> (inc \<longrightarrow> t = Lf \<or> heavy t')"
proof (induction t arbitrary: inc t')
  case Lf
  then show ?case by auto
next
  case (Nd l n b r)
  have b: "b = height l - height r" "\<bar>b\<bar> \<le> 1" "avl l" "avl r" using Nd.prems(1) by auto
  consider (left) "hi x < lo n" | (right) "\<not> hi x < lo n" "lo x > hi n"
    using Nd.prems(2) by (auto split: if_splits)
  then show ?case
  proof cases
    case left
    obtain r1 l' where l': "ins x l = (r1, l')" by force
    with left Nd.prems(2) obtain i where i: "r1 = Inr i" by (cases r1) auto
    have IH: "avl l'" "height l' = height l + (if i then 1 else 0)" "i \<Longrightarrow> l = Lf \<or> heavy l'"
      using Nd.IH(1) [OF b(3) l' [unfolded i]] by auto
    show ?thesis
    proof (cases "i \<and> \<not> b \<le> 0")
      case True
      then have ok: "rebl_ok r l'" and "l \<noteq> Lf"
        using IH b height_nonneg [of r] by (auto simp: rebl_ok_def)
      then have "fst (rebr l' n r)" using IH(3) True rebr_heavy by blast
      then show ?thesis using rebr_avl [OF ok, of n] Nd.prems(2) left l' i True IH(2) b
        by (auto simp: max_def)
    next
      case False
      then show ?thesis using Nd.prems(2) left l' i IH b height_nonneg [of r]
        by (auto simp: max_def heavy_def split: if_splits)
    qed
  next
    case right
    obtain r1 r' where r': "ins x r = (r1, r')" by force
    with right Nd.prems(2) obtain i where i: "r1 = Inr i" by (cases r1) auto
    have IH: "avl r'" "height r' = height r + (if i then 1 else 0)" "i \<Longrightarrow> r = Lf \<or> heavy r'"
      using Nd.IH(2) [OF b(4) r' [unfolded i]] by auto
    show ?thesis
    proof (cases "i \<and> \<not> b \<ge> 0")
      case True
      then have ok: "rebl_ok l r'" and "r \<noteq> Lf"
        using IH b height_nonneg [of l] by (auto simp: rebl_ok_def)
      then have "fst (rebl l n r')" using IH(3) True rebl_heavy by blast
      then show ?thesis using rebl_avl [OF ok, of n] Nd.prems(2) right r' i True IH(2) b
        by (auto simp: max_def)
    next
      case False
      then show ?thesis using Nd.prems(2) right r' i IH b height_nonneg [of l]
        by (auto simp: max_def heavy_def split: if_splits)
    qed
  qed
qed

text \<open>Where the new range goes, and when there is no place for it.\<close>

lemma ins_inorder:
  assumes "avl t" "ranges (inorder t)" "lo x \<le> hi x"
  shows "case ins x t of
      (Inl e, t') \<Rightarrow> e = ERROR_BUSY \<and> t' = t \<and> (\<exists>n \<in> set (inorder t). overlaps x n)
    | (Inr _, t') \<Rightarrow> (\<forall>n \<in> set (inorder t). \<not> overlaps x n) \<and>
        inorder t' = filter (\<lambda>n. hi n < lo x) (inorder t) @ x # filter (\<lambda>n. hi x < lo n) (inorder t)"
  using assms
proof (induction t)
  case Lf
  then show ?case by simp
next
  case (Nd l n b r)
  have p: "avl l" "avl r" "ranges (inorder l)" "ranges (inorder r)" "lo n \<le> hi n"
    "\<forall>y \<in> set (inorder l). hi y < lo n" "\<forall>y \<in> set (inorder r). hi n < lo y"
    using Nd.prems by auto
  have b: "b = height l - height r" "\<bar>b\<bar> \<le> 1" using Nd.prems(1) by auto
  have rl: "\<forall>y \<in> set (inorder l). lo y \<le> hi y" "\<forall>y \<in> set (inorder r). lo y \<le> hi y"
    using p(3,4) by (auto simp: ranges_def)
  consider (left) "hi x < lo n" | (right) "\<not> hi x < lo n" "lo x > hi n"
    | (over) "\<not> hi x < lo n" "\<not> lo x > hi n" by blast
  then show ?case
  proof cases
    case left
    have "hi x < lo y" "\<not> hi y < lo x" if "y \<in> set (inorder r)" for y
      using left p(5) p(7) [rule_format, OF that] rl(2) [rule_format, OF that] Nd.prems(3) by order+
    moreover have "\<not> hi n < lo x" using left p(5) Nd.prems(3) by order
    ultimately have f: "filter (\<lambda>n. hi x < lo n) (inorder r) = inorder r"
      "filter (\<lambda>n. hi n < lo x) (inorder r) = []" "\<not> hi n < lo x" "\<forall>y \<in> set (inorder r). \<not> overlaps x y"
      by (auto simp: filter_id_conv filter_empty_conv overlaps_def not_le simp del: lo.simps hi.simps)
    obtain r1 l' where l': "ins x l = (r1, l')" by force
    show ?thesis
    proof (cases r1)
      case (Inl e)
      then show ?thesis using Nd.IH(1) [OF p(1,3) Nd.prems(3)] l' left by auto
    next
      case (Inr i)
      have A: "avl l'" "height l' = height l + (if i then 1 else 0)"
        using ins_avl [OF p(1) l' [unfolded Inr]] by auto
      have "i \<Longrightarrow> \<not> b \<le> 0 \<Longrightarrow> inorder (snd (rebr l' n r)) = inorder l' @ n # inorder r"
        using rebr_avl [of r l' n] A b p(2) by (auto simp: rebl_ok_def)
      then show ?thesis
        using Nd.IH(1) [OF p(1,3) Nd.prems(3)] l' Inr left f by (auto simp: overlaps_def)
    qed
  next
    case right
    have "hi y < lo x" "\<not> hi x < lo y" if "y \<in> set (inorder l)" for y
      using right p(5) p(6) [rule_format, OF that] rl(1) [rule_format, OF that] Nd.prems(3) by order+
    then have f: "filter (\<lambda>n. hi x < lo n) (inorder l) = []"
      "filter (\<lambda>n. hi n < lo x) (inorder l) = inorder l" "\<not> hi x < lo n" "\<forall>y \<in> set (inorder l). \<not> overlaps x y"
      using right(1) by (auto simp: filter_id_conv filter_empty_conv overlaps_def not_le simp del: lo.simps hi.simps)
    obtain r1 r' where r': "ins x r = (r1, r')" by force
    show ?thesis
    proof (cases r1)
      case (Inl e)
      then show ?thesis using Nd.IH(2) [OF p(2,4) Nd.prems(3)] r' right by auto
    next
      case (Inr i)
      have A: "avl r'" "height r' = height r + (if i then 1 else 0)"
        using ins_avl [OF p(2) r' [unfolded Inr]] by auto
      have "i \<Longrightarrow> \<not> b \<ge> 0 \<Longrightarrow> inorder (snd (rebl l n r')) = inorder l @ n # inorder r'"
        using rebl_avl [of l r' n] A b p(1) by (auto simp: rebl_ok_def)
      then show ?thesis
        using Nd.IH(2) [OF p(2,4) Nd.prems(3)] r' Inr right f by (auto simp: overlaps_def)
    qed
  next
    case over
    then show ?thesis by (auto simp: overlaps_def)
  qed
qed


section \<open>Removal\<close>

text \<open>Taking the leftmost node out: the node, whether the height shrank, and the rest.\<close>

fun del_min :: "rtree \<Rightarrow> rnode \<times> bool \<times> rtree" where
  "del_min (Nd Lf n b r) = (n, True, r)"
| "del_min (Nd l n b r) =
     (case del_min l of (m, red, l') \<Rightarrow>
        if red \<and> b \<ge> 0 then (m, b - 1 = 0, Nd l' n (b - 1) r)
        else if red then (m, rebl l' n r)
        else (m, False, Nd l' n b r))"
| "del_min Lf = ((0, 0, 0), False, Lf)"

fun del_root :: "rtree \<Rightarrow> bool \<times> rtree" where
  "del_root (Nd l n b r) =
     (if l = Lf then (True, r)
      else if r = Lf then (True, l)
      else case del_min r of (m, red, r') \<Rightarrow>
        if red \<and> b \<le> 0 then (b + 1 = 0, Nd l m (b + 1) r')
        else if red then rebr l m r'
        else (False, Nd l m b r'))"
| "del_root Lf = (False, Lf)"

fun del :: "rnode \<Rightarrow> rtree \<Rightarrow> bool result \<times> rtree" where
  "del x Lf = (Inl ERROR_ADDR_INVALID, Lf)"
| "del x (Nd l n b r) =
     (if hi x < lo n then
        case del x l of
          (Inl e, l') \<Rightarrow> (Inl e, Nd l n b r)
        | (Inr red, l') \<Rightarrow>
            if red \<and> b \<ge> 0 then (Inr (b - 1 = 0), Nd l' n (b - 1) r)
            else if red then (case rebl l' n r of (h, t') \<Rightarrow> (Inr h, t'))
            else (Inr False, Nd l' n b r)
      else if lo x > hi n then
        case del x r of
          (Inl e, r') \<Rightarrow> (Inl e, Nd l n b r)
        | (Inr red, r') \<Rightarrow>
            if red \<and> b \<le> 0 then (Inr (b + 1 = 0), Nd l n (b + 1) r')
            else if red then (case rebr l n r' of (h, t') \<Rightarrow> (Inr h, t'))
            else (Inr False, Nd l n b r')
      else if addr n \<noteq> addr x then (Inl ERROR_BUSY, Nd l n b r)
      else (case del_root (Nd l n b r) of (h, t') \<Rightarrow> (Inr h, t')))"

text \<open>How the height changes, in all removals.\<close>

definition shrunk :: "rtree \<Rightarrow> bool \<Rightarrow> rtree \<Rightarrow> bool" where
  "shrunk t red t' \<longleftrightarrow> avl t' \<and> height t' = height t - (if red then 1 else 0)"

lemma shrink_left:
  assumes "avl (Nd l n b r)" "shrunk l red l'"
  shows "red \<Longrightarrow> b \<ge> 0 \<Longrightarrow> shrunk (Nd l n b r) (b - 1 = 0) (Nd l' n (b - 1) r)"
    "red \<Longrightarrow> \<not> b \<ge> 0 \<Longrightarrow> rebl_ok l' r"
    "red \<Longrightarrow> \<not> b \<ge> 0 \<Longrightarrow> shrunk (Nd l n b r) (fst (rebl l' n r)) (snd (rebl l' n r))"
    "\<not> red \<Longrightarrow> shrunk (Nd l n b r) False (Nd l' n b r)"
proof -
  have b: "b = height l - height r" "\<bar>b\<bar> \<le> 1" "avl l" "avl r" "avl l'"
    "height l' = height l - (if red then 1 else 0)"
    using assms by (auto simp: shrunk_def)
  show "red \<Longrightarrow> b \<ge> 0 \<Longrightarrow> shrunk (Nd l n b r) (b - 1 = 0) (Nd l' n (b - 1) r)"
    "\<not> red \<Longrightarrow> shrunk (Nd l n b r) False (Nd l' n b r)"
    using b by (auto simp: shrunk_def max_def)
  show ok: "red \<Longrightarrow> \<not> b \<ge> 0 \<Longrightarrow> rebl_ok l' r"
    using b by (auto simp: rebl_ok_def)
  show "red \<Longrightarrow> \<not> b \<ge> 0 \<Longrightarrow> shrunk (Nd l n b r) (fst (rebl l' n r)) (snd (rebl l' n r))"
    using rebl_avl [OF ok, of n] b by (auto simp: shrunk_def max_def)
qed

lemma shrink_right:
  assumes "avl (Nd l n b r)" "shrunk r red r'"
  shows "red \<Longrightarrow> b \<le> 0 \<Longrightarrow> shrunk (Nd l n b r) (b + 1 = 0) (Nd l m (b + 1) r')"
    "red \<Longrightarrow> \<not> b \<le> 0 \<Longrightarrow> rebl_ok r' l"
    "red \<Longrightarrow> \<not> b \<le> 0 \<Longrightarrow> shrunk (Nd l n b r) (fst (rebr l m r')) (snd (rebr l m r'))"
    "\<not> red \<Longrightarrow> shrunk (Nd l n b r) False (Nd l m b r')"
proof -
  have b: "b = height l - height r" "\<bar>b\<bar> \<le> 1" "avl l" "avl r" "avl r'"
    "height r' = height r - (if red then 1 else 0)"
    using assms by (auto simp: shrunk_def)
  show "red \<Longrightarrow> b \<le> 0 \<Longrightarrow> shrunk (Nd l n b r) (b + 1 = 0) (Nd l m (b + 1) r')"
    "\<not> red \<Longrightarrow> shrunk (Nd l n b r) False (Nd l m b r')"
    using b by (auto simp: shrunk_def max_def)
  show ok: "red \<Longrightarrow> \<not> b \<le> 0 \<Longrightarrow> rebl_ok r' l"
    using b by (auto simp: rebl_ok_def)
  show "red \<Longrightarrow> \<not> b \<le> 0 \<Longrightarrow> shrunk (Nd l n b r) (fst (rebr l m r')) (snd (rebr l m r'))"
    using rebr_avl [OF ok, of m] b by (auto simp: shrunk_def max_def)
qed

lemma del_min_avl:
  "avl t \<Longrightarrow> t \<noteq> Lf \<Longrightarrow> del_min t = (m, red, t') \<Longrightarrow>
    shrunk t red t' \<and> inorder t = m # inorder t'"
proof (induction t arbitrary: m red t' rule: del_min.induct)
  case (1 n b r)
  then show ?case using height_nonneg [of r] by (auto simp: shrunk_def max_def)
next
  case (2 a na bb aa n b r)
  let ?l = "Nd a na bb aa"
  obtain m1 red1 l' where l': "del_min ?l = (m1, red1, l')" by (metis prod_cases3)
  have IH: "shrunk ?l red1 l'" "inorder ?l = m1 # inorder l'"
    using "2.IH" [OF _ _ l'] "2.prems" by auto
  note s = shrink_left [OF "2.prems"(1) IH(1)]
  consider "red1" "b \<ge> 0" | "red1" "\<not> b \<ge> 0" | "\<not> red1" by blast
  then show ?case
  proof cases
    case 1
    then show ?thesis using "2.prems"(3) s(1) l' IH(2) by auto
  next
    case 2
    then show ?thesis using "2.prems"(3) s(2,3) rebl_avl [OF s(2), of n] l' IH(2) by auto
  next
    case 3
    then show ?thesis using "2.prems"(3) s(4) l' IH(2) by auto
  qed
qed simp

lemma del_root_avl:
  assumes "avl (Nd l n b r)" "del_root (Nd l n b r) = (red, t')"
  shows "shrunk (Nd l n b r) red t' \<and> inorder t' = inorder l @ inorder r"
proof -
  have b: "b = height l - height r" "\<bar>b\<bar> \<le> 1" "avl l" "avl r" using assms by auto
  consider "l = Lf" | "l \<noteq> Lf" "r = Lf" | "l \<noteq> Lf" "r \<noteq> Lf" by blast
  then show ?thesis
  proof cases
    case 1
    then show ?thesis using assms height_nonneg [of r] by (auto simp: shrunk_def max_def)
  next
    case 2
    then show ?thesis using assms height_nonneg [of l] by (auto simp: shrunk_def max_def)
  next
    case 3
    obtain m red1 r' where r': "del_min r = (m, red1, r')" by (metis prod_cases3)
    have IH: "shrunk r red1 r'" "inorder r = m # inorder r'" using del_min_avl [OF b(4) 3(2) r'] by auto
    note s = shrink_right(1) [where m = m, OF assms(1) IH(1)] shrink_right(2) [OF assms(1) IH(1)]
      shrink_right(3,4) [where m = m, OF assms(1) IH(1)]
    consider "red1" "b \<le> 0" | "red1" "\<not> b \<le> 0" | "\<not> red1" by blast
    then show ?thesis
    proof cases
      case 1
      then show ?thesis using assms(2) 3 s(1) r' IH(2) by auto
    next
      case 2
      then show ?thesis using assms(2) 3 s(2,3) rebr_avl [OF s(2), of m] r' IH(2) by auto
    next
      case no: 3
      then show ?thesis using assms(2) 3 s(4) r' IH(2) by auto
    qed
  qed
qed

text \<open>
  Removal succeeds for a node of the tree, and takes out exactly that node; any other range is
  refused, with an error that tells whether it overlaps a node of the tree.
\<close>

definition addrs_ok :: "rnode list \<Rightarrow> rnode \<Rightarrow> bool" where
  "addrs_ok xs x \<longleftrightarrow> (\<forall>n \<in> set xs. addr n = addr x \<longrightarrow> n = x)"

lemma del_spec:
  assumes "avl t" "ranges (inorder t)" "lo x \<le> hi x" "addrs_ok (inorder t) x"
  shows "case del x t of
      (Inl e, t') \<Rightarrow> t' = t \<and> x \<notin> set (inorder t) \<and>
        e = (if \<exists>n \<in> set (inorder t). overlaps x n then ERROR_BUSY else ERROR_ADDR_INVALID)
    | (Inr red, t') \<Rightarrow> x \<in> set (inorder t) \<and> shrunk t red t' \<and>
        inorder t' = filter (\<lambda>n. n \<noteq> x) (inorder t)"
  using assms
proof (induction t)
  case Lf
  then show ?case by simp
next
  case (Nd l n b r)
  have p: "avl l" "avl r" "ranges (inorder l)" "ranges (inorder r)" "lo n \<le> hi n"
    "\<forall>y \<in> set (inorder l). hi y < lo n" "\<forall>y \<in> set (inorder r). hi n < lo y"
    "addrs_ok (inorder l) x" "addrs_ok (inorder r) x" "addr n = addr x \<Longrightarrow> n = x"
    using Nd.prems by (auto simp: addrs_ok_def)
  have rl: "\<forall>y \<in> set (inorder l). lo y \<le> hi y" "\<forall>y \<in> set (inorder r). lo y \<le> hi y"
    using p(3,4) by (auto simp: ranges_def)
  have far_r: "\<not> overlaps x y" "y \<noteq> x" if "y \<in> set (n # inorder r)" "hi x < lo n" for y
  proof -
    have "lo n \<le> lo y" using that(1) p(5) p(7) by (auto simp del: lo.simps hi.simps intro: order.trans less_imp_le)
    then show "\<not> overlaps x y" using that(2) by (auto simp: overlaps_def simp del: lo.simps hi.simps)
    then show "y \<noteq> x" using Nd.prems(3) by (auto simp: overlaps_def)
  qed
  have far_l: "\<not> overlaps x y" "y \<noteq> x" if "y \<in> set (inorder l @ [n])" "hi n < lo x" for y
  proof -
    have "hi y \<le> hi n" using that(1) p(5) p(6) by (auto simp del: lo.simps hi.simps intro: order.trans less_imp_le)
    then show "\<not> overlaps x y" using that(2) by (auto simp: overlaps_def simp del: lo.simps hi.simps)
    then show "y \<noteq> x" using Nd.prems(3) by (auto simp: overlaps_def)
  qed
  consider (left) "hi x < lo n" | (right) "\<not> hi x < lo n" "lo x > hi n"
    | (over) "\<not> hi x < lo n" "\<not> lo x > hi n" "addr n \<noteq> addr x"
    | (hit) "\<not> hi x < lo n" "\<not> lo x > hi n" "addr n = addr x" by blast
  then show ?case
  proof cases
    case left
    have f: "filter (\<lambda>y. y \<noteq> x) (n # inorder r) = n # inorder r"
      using far_r(2) left by (auto simp: filter_id_conv)
    obtain r1 l' where l': "del x l = (r1, l')" by force
    note IH = Nd.IH(1) [OF p(1,3) Nd.prems(3) p(8)]
    show ?thesis
    proof (cases r1)
      case (Inl e)
      have "x \<noteq> n" "x \<notin> set (inorder r)" using far_r(2) [OF _ left, of x] by auto
      moreover have "(\<exists>y \<in> set (inorder (Nd l n b r)). overlaps x y) \<longleftrightarrow>
          (\<exists>y \<in> set (inorder l). overlaps x y)" using far_r(1) [OF _ left] by fastforce
      ultimately show ?thesis using IH l' left Inl by simp
    next
      case (Inr red)
      have sh: "shrunk l red l'" using IH l' Inr by simp
      note s = shrink_left [OF Nd.prems(1) sh]
      have "red \<Longrightarrow> \<not> b \<ge> 0 \<Longrightarrow> inorder (snd (rebl l' n r)) = inorder l' @ n # inorder r"
        using rebl_avl [OF s(2), of n] by blast
      then show ?thesis using IH l' Inr left f s by (auto split: prod.splits)
    qed
  next
    case right
    have f: "filter (\<lambda>y. y \<noteq> x) (inorder l @ [n]) = inorder l @ [n]"
      using far_l(2) right by (auto simp: filter_id_conv)
    obtain r1 r' where r': "del x r = (r1, r')" by force
    note IH = Nd.IH(2) [OF p(2,4) Nd.prems(3) p(9)]
    show ?thesis
    proof (cases r1)
      case (Inl e)
      have "x \<noteq> n" "x \<notin> set (inorder l)" using far_l(2) [OF _ right(2), of x] by auto
      moreover have "(\<exists>y \<in> set (inorder (Nd l n b r)). overlaps x y) \<longleftrightarrow>
          (\<exists>y \<in> set (inorder r). overlaps x y)" using far_l(1) [OF _ right(2)] by fastforce
      ultimately show ?thesis using IH r' right Inl by simp
    next
      case (Inr red)
      have sh: "shrunk r red r'" using IH r' Inr by simp
      note s = shrink_right(1) [where m = n, OF Nd.prems(1) sh] shrink_right(2) [OF Nd.prems(1) sh]
        shrink_right(3,4) [where m = n, OF Nd.prems(1) sh]
      have "red \<Longrightarrow> \<not> b \<le> 0 \<Longrightarrow> inorder (snd (rebr l n r')) = inorder l @ n # inorder r'"
        using rebr_avl [OF s(2), of n] by blast
      then show ?thesis using IH r' Inr right f s by (auto split: prod.splits)
    qed
  next
    case over
    then have "overlaps x n" by (auto simp: overlaps_def)
    then show ?thesis using over p(6) [rule_format, of x] p(7) [rule_format, of x] by auto
  next
    case hit
    then have "n = x" using p(10) by simp
    moreover have "y \<noteq> n" if "y \<in> set (inorder l) \<union> set (inorder r)" for y
      using that p(5,6,7) by (auto simp del: lo.simps hi.simps)
    ultimately have "filter (\<lambda>y. y \<noteq> x) (inorder (Nd l n b r)) = inorder l @ inorder r"
      by (auto simp: filter_id_conv)
    moreover obtain red t' where d: "del_root (Nd l n b r) = (red, t')" by force
    ultimately show ?thesis using hit \<open>n = x\<close> del_root_avl [OF Nd.prems(1) d] by simp
  qed
qed

end
