(* ===== verification/RangeTree_Refine.thy ===== *)
theory RangeTree_Refine
  imports RangeTree RangeTree_Spec "HOL-Library.Multiset"
begin

text \<open>
  The pointer code of \<^verbatim>\<open>range_tree_avl.c\<close> implements the operations on algebraic trees: on a tree
  in the store every function returns, fails no assertion, leaves the tree that the reference
  operation computes, and changes no link, key or balance outside of it.
\<close>

section \<open>Trees in the store\<close>

definition key :: "range_tree \<Rightarrow> ptr \<Rightarrow> u64 \<times> u64" where
  "key t p = (rn_base (rt_node t p), rn_size (rt_node t p))"

fun extent :: "rnode \<Rightarrow> u64 \<times> u64" where "extent (p, b, s) = (b, s)"

fun loc_in :: "rt_loc \<Rightarrow> ptr set \<Rightarrow> bool" where
  "loc_in RootLink X \<longleftrightarrow> False"
| "loc_in (LeftLink p) X \<longleftrightarrow> p \<in> X"
| "loc_in (RightLink p) X \<longleftrightarrow> p \<in> X"

fun ptrs :: "rtree \<Rightarrow> ptr set" where
  "ptrs Lf = {}"
| "ptrs (Nd l n b r) = insert (addr n) (ptrs l \<union> ptrs r)"

fun sep :: "rtree \<Rightarrow> bool" where
  "sep Lf = True"
| "sep (Nd l n b r) \<longleftrightarrow> addr n \<notin> ptrs l \<union> ptrs r \<and> ptrs l \<inter> ptrs r = {} \<and> sep l \<and> sep r"

fun tree_at :: "range_tree \<Rightarrow> ptr \<Rightarrow> rtree \<Rightarrow> bool" where
  "tree_at t p Lf \<longleftrightarrow> p = NULL"
| "tree_at t p (Nd l n b r) \<longleftrightarrow> p = addr n \<and> addr n \<noteq> NULL \<and> key t (addr n) = extent n \<and>
     balance t (addr n) = b \<and> tree_at t (load t (LeftLink (addr n))) l \<and>
     tree_at t (load t (RightLink (addr n))) r"

lemma load_store [simp]: "load (store t l v) l' = (if l' = l then v else load t l')"
  by (cases l; cases l') auto

lemma balance_store [simp]: "balance (store t l v) p = balance t p"
  by (cases l) auto

lemma key_store [simp]: "key (store t l v) = key t"
  by (cases l) (auto simp: key_def)

lemma load_set_balance [simp]: "load (set_balance t p b) l = load t l"
  by (cases l) (auto simp: set_balance_def)

lemma balance_set_balance [simp]: "balance (set_balance t p b) q = (if q = p then b else balance t q)"
  by (auto simp: set_balance_def)

lemma key_set_balance [simp]: "key (set_balance t p b) = key t"
  by (auto simp: key_def set_balance_def)

declare load.simps [simp del] store.simps [simp del]

lemma tree_at_cong:
  assumes "\<forall>l. loc_in l (ptrs T) \<longrightarrow> load t l = load t' l" "\<forall>q \<in> ptrs T. balance t q = balance t' q"
    "key t = key t'"
  shows "tree_at t p T \<longleftrightarrow> tree_at t' p T"
  using assms
proof (induction T arbitrary: p)
  case (Nd l n b r)
  have "loc_in x (ptrs l) \<or> loc_in x (ptrs r) \<Longrightarrow> load t x = load t' x" for x
    using Nd.prems(1) by (cases x) auto
  then have IH: "tree_at t q l \<longleftrightarrow> tree_at t' q l" "tree_at t q r \<longleftrightarrow> tree_at t' q r" for q
    using Nd by auto
  have "load t (LeftLink (addr n)) = load t' (LeftLink (addr n))"
    "load t (RightLink (addr n)) = load t' (RightLink (addr n))" "balance t (addr n) = balance t' (addr n)"
    using Nd.prems(1,2) by auto
  then show ?case using IH Nd.prems(3) by auto
qed simp

lemma tree_at_store [simp]: "\<not> loc_in l (ptrs T) \<Longrightarrow> tree_at (store t l v) p T \<longleftrightarrow> tree_at t p T"
  by (rule tree_at_cong) auto

lemma tree_at_set_balance [simp]: "q \<notin> ptrs T \<Longrightarrow> tree_at (set_balance t q b) p T \<longleftrightarrow> tree_at t p T"
  by (rule tree_at_cong) auto

lemma tree_at_NULL: "tree_at t p T \<Longrightarrow> p = NULL \<longleftrightarrow> T = Lf"
  by (cases T) auto

lemma ptrs_inorder: "ptrs T = addr ` set (inorder T)"
  by (induction T) auto

lemma sep_distinct: "sep T \<longleftrightarrow> distinct (map addr (inorder T))"
  by (induction T) (auto simp: ptrs_inorder)

text \<open>A change that is confined to the nodes \<open>X\<close> and the link \<open>l\<close>.\<close>

definition upd :: "ptr set \<Rightarrow> rt_loc \<Rightarrow> range_tree \<Rightarrow> range_tree \<Rightarrow> bool" where
  "upd X l t t' \<longleftrightarrow> key t' = key t \<and> (\<forall>l'. \<not> loc_in l' X \<and> l' \<noteq> l \<longrightarrow> load t' l' = load t l') \<and>
     (\<forall>q. q \<notin> X \<longrightarrow> balance t' q = balance t q)"

lemma upd_trans: "upd X l t t1 \<Longrightarrow> upd X l t1 t2 \<Longrightarrow> upd X l t t2"
  by (auto simp: upd_def)

lemma loc_in_mono: "X \<subseteq> Y \<Longrightarrow> loc_in l X \<Longrightarrow> loc_in l Y"
  by (cases l) auto

lemma loc_in_Un [simp]: "loc_in l (X \<union> Y) \<longleftrightarrow> loc_in l X \<or> loc_in l Y"
  by (cases l) auto

lemma loc_in_insert [simp]:
  "loc_in l (insert p X) \<longleftrightarrow> l = LeftLink p \<or> l = RightLink p \<or> loc_in l X"
  by (cases l) auto

lemma upd_mono: "upd X l t t' \<Longrightarrow> X \<subseteq> Y \<Longrightarrow> upd Y l t t'"
  unfolding upd_def using loc_in_mono by blast

text \<open>A change of a subtree, seen from the link to the whole tree.\<close>

lemma upd_child: "upd X l t t' \<Longrightarrow> X \<subseteq> Y \<Longrightarrow> loc_in l Y \<Longrightarrow> upd Y l' t t'"
  unfolding upd_def using loc_in_mono by blast

lemma upd_refl [simp]: "upd X l t t"
  by (simp add: upd_def)

lemma upd_store: "upd X l t (store t l v)"
  by (simp add: upd_def)

lemma upd_store_in: "loc_in l' X \<Longrightarrow> upd X l t (store t l' v)"
  by (auto simp: upd_def)

lemma upd_set_balance: "p \<in> X \<Longrightarrow> upd X l t (set_balance t p b)"
  by (auto simp: upd_def)

lemma upd_tree:
  assumes "upd X l t t'" "ptrs T \<inter> X = {}" "\<not> loc_in l (ptrs T)"
  shows "tree_at t' p T \<longleftrightarrow> tree_at t p T"
proof (rule tree_at_cong)
  show "\<forall>l. loc_in l (ptrs T) \<longrightarrow> load t' l = load t l"
  proof (intro allI impI)
    fix l' assume l': "loc_in l' (ptrs T)"
    then have "\<not> loc_in l' X" using assms(2) by (cases l') auto
    moreover have "l' \<noteq> l" using l' assms(3) by auto
    ultimately show "load t' l' = load t l'" using assms(1) by (simp add: upd_def)
  qed
qed (use assms in \<open>auto simp: upd_def\<close>)

section \<open>Rotations and rebalancing\<close>

lemma rotate_right_refines:
  assumes "tree_at t (load t l) (Nd (Nd a x bx c) n b d)" "sep (Nd (Nd a x bx c) n b d)"
    "\<not> loc_in l (ptrs (Nd (Nd a x bx c) n b d))"
  defines "t' \<equiv> range_tree_rotate_right l (addr n) (addr x) t"
  shows "tree_at t' (load t' l) (Nd a x bx (Nd c n b d))"
    "upd (ptrs (Nd (Nd a x bx c) n b d)) l t t'"
  using assms(1-3)
  by (auto simp: t'_def range_tree_rotate_right_def Let_def upd_def)

lemma rotate_left_refines:
  assumes "tree_at t (load t l) (Nd a n b (Nd c x bx d))" "sep (Nd a n b (Nd c x bx d))"
    "\<not> loc_in l (ptrs (Nd a n b (Nd c x bx d)))"
  defines "t' \<equiv> range_tree_rotate_left l (addr n) (addr x) t"
  shows "tree_at t' (load t' l) (Nd (Nd a n b c) x bx d)"
    "upd (ptrs (Nd a n b (Nd c x bx d))) l t t'"
  using assms(1-3)
  by (auto simp: t'_def range_tree_rotate_left_def Let_def upd_def)

text \<open>A change below one child link, seen at the node.\<close>

lemma right_child:
  assumes at: "tree_at t (load t l) (Nd a n b r)" "sep (Nd a n b r)" "\<not> loc_in l (ptrs (Nd a n b r))"
    and u: "upd X (RightLink (addr n)) t t1" "addr n \<notin> X" "ptrs a \<inter> X = {}" "\<not> loc_in l X"
    and r': "tree_at t1 (load t1 (RightLink (addr n))) r'"
  shows "tree_at t1 (load t1 l) (Nd a n b r')" "upd (insert (addr n) X) l t t1"
    "load t1 l = addr n" "balance t1 (addr n) = b"
proof -
  have "l \<noteq> RightLink (addr n)" using at(3) by auto
  then show ld: "load t1 l = addr n" using u at(1) by (auto simp: upd_def)
  have "load t1 (LeftLink (addr n)) = load t (LeftLink (addr n))" "balance t1 (addr n) = balance t (addr n)"
    "key t1 = key t" using u(1,2) by (auto simp: upd_def)
  moreover have "tree_at t1 p a \<longleftrightarrow> tree_at t p a" for p
    using upd_tree [OF u(1)] u(3) at(2) by auto
  ultimately show "tree_at t1 (load t1 l) (Nd a n b r')" "balance t1 (addr n) = b"
    using ld at(1) r' by simp_all
  show "upd (insert (addr n) X) l t t1" using u(1) by (rule upd_child) auto
qed

lemma left_child:
  assumes at: "tree_at t (load t l) (Nd a n b r)" "sep (Nd a n b r)" "\<not> loc_in l (ptrs (Nd a n b r))"
    and u: "upd X (LeftLink (addr n)) t t1" "addr n \<notin> X" "ptrs r \<inter> X = {}" "\<not> loc_in l X"
    and a': "tree_at t1 (load t1 (LeftLink (addr n))) a'"
  shows "tree_at t1 (load t1 l) (Nd a' n b r)" "upd (insert (addr n) X) l t t1"
    "load t1 l = addr n" "balance t1 (addr n) = b"
proof -
  have "l \<noteq> LeftLink (addr n)" using at(3) by auto
  then show ld: "load t1 l = addr n" using u at(1) by (auto simp: upd_def)
  have "load t1 (RightLink (addr n)) = load t (RightLink (addr n))" "balance t1 (addr n) = balance t (addr n)"
    "key t1 = key t" using u(1,2) by (auto simp: upd_def)
  moreover have "tree_at t1 p r \<longleftrightarrow> tree_at t p r" for p
    using upd_tree [OF u(1)] u(3) at(2) by auto
  ultimately show "tree_at t1 (load t1 l) (Nd a' n b r)" "balance t1 (addr n) = b"
    using ld at(1) a' by simp_all
  show "upd (insert (addr n) X) l t t1" using u(1) by (rule upd_child) auto
qed

lemma tree_at_rebalance:
  "tree_at t p (Nd l n b r) \<Longrightarrow> addr n \<notin> ptrs l \<union> ptrs r \<Longrightarrow> q = addr n \<Longrightarrow>
    tree_at (set_balance t q b') p (Nd l n b' r)"
  by auto

lemma rebalance_leftwards_refines:
  assumes at: "tree_at t (load t l) (Nd a n b r)" "sep (Nd a n b r)" "\<not> loc_in l (ptrs (Nd a n b r))"
    and ok: "rebl_ok a r"
  shows "\<exists>t'. range_tree_rebalance_leftwards l (addr n) t = Some (fst (rebl a n r), t') \<and>
    tree_at t' (load t' l) (snd (rebl a n r)) \<and> upd (ptrs (Nd a n b r)) l t t'"
proof -
  have "avl r" "0 < height r" using ok height_nonneg [of a] by (auto simp: rebl_ok_def)
  then obtain c x bx d where r: "r = Nd c x bx d" "avl c" "bx = height c - height d" by (rule avl_high)
  have p: "load t (RightLink (addr n)) = addr x" "addr x \<noteq> NULL" "balance t (addr x) = bx"
    "load t (LeftLink (addr x)) = (case c of Lf \<Rightarrow> NULL | Nd c1 y e c2 \<Rightarrow> addr y)"
    using at(1) r by (auto split: rtree.split)
  show ?thesis
  proof (cases "bx \<le> 0")
    case True
    let ?t = "range_tree_rotate_left l (addr n) (addr x) t"
    note rot = rotate_left_refines [OF at [unfolded r(1)]]
    have bal: "balance ?t (addr x) = bx" using rot(1) by simp
    have ne: "addr x \<noteq> addr n" using at(2) r by auto
    have "range_tree_rebalance_leftwards l (addr n) t =
        Some (bx + 1 = 0, set_balance (set_balance ?t (addr n) (- 1 - bx)) (addr x) (bx + 1))"
      using p True bal ne by (simp add: range_tree_rebalance_leftwards_def Let_def)
    moreover have "tree_at (set_balance (set_balance ?t (addr n) (- 1 - bx)) (addr x) (bx + 1)) (load ?t l)
        (Nd (Nd a n (- 1 - bx) c) x (bx + 1) d)"
      using rot(1) at(2) r by auto
    moreover have "upd (ptrs (Nd a n b r)) l t (set_balance (set_balance ?t (addr n) (- 1 - bx)) (addr x) (bx + 1))"
      using rot(2) r by (auto intro!: upd_trans [OF _ upd_set_balance])
    ultimately show ?thesis using True r by simp
  next
    case False
    have "0 < height c" using r(3) False height_nonneg [of d] by linarith
    with r(2) obtain c1 y e c2 where c: "c = Nd c1 y e c2" by (rule avl_high)
    let ?r = "Nd (Nd c1 y e c2) x bx d"
    define t1 where "t1 = range_tree_rotate_right (RightLink (addr n)) (addr x) (addr y) t"
    define t2 where "t2 = range_tree_rotate_left l (addr n) (addr y) t1"
    have at': "tree_at t (load t l) (Nd a n b ?r)" "sep (Nd a n b ?r)" "\<not> loc_in l (ptrs (Nd a n b ?r))"
      using at r c by simp_all
    have r1: "tree_at t1 (load t1 (RightLink (addr n))) (Nd c1 y e (Nd c2 x bx d))"
      "upd (ptrs ?r) (RightLink (addr n)) t t1"
      unfolding t1_def by (rule rotate_right_refines; use at' in auto)+
    have "addr n \<notin> ptrs ?r" "ptrs a \<inter> ptrs ?r = {}" "\<not> loc_in l (ptrs ?r)" using at' by auto
    note w1 = right_child [OF at' r1(2) this r1(1)]
    have sep1: "sep (Nd a n b (Nd c1 y e (Nd c2 x bx d)))"
      "\<not> loc_in l (ptrs (Nd a n b (Nd c1 y e (Nd c2 x bx d))))" using at' by auto
    note w2 = rotate_left_refines [OF w1(1) sep1, folded t2_def]
    have "upd (ptrs (Nd a n b r)) l t t1" using w1(2) r c by (auto elim!: upd_mono)
    moreover have "upd (ptrs (Nd a n b r)) l t1 t2" using w2(2) r c by (auto elim!: upd_mono)
    ultimately have u: "upd (ptrs (Nd a n b r)) l t t2" by (rule upd_trans)
    have be: "balance t2 (addr y) = e" using w2(1) by simp
    let ?t3 = "set_balance t2 (addr n) (if e < 0 then 1 else 0)"
    let ?t4 = "set_balance ?t3 (addr x) (if e > 0 then - 1 else 0)"
    have ne: "addr y \<noteq> addr n" "addr x \<noteq> addr y" "addr x \<noteq> addr n" using at'(2) by auto
    have nz: "addr y \<noteq> NULL" using at'(1) by simp
    have "range_tree_rebalance_leftwards l (addr n) t = Some (True, set_balance ?t4 (addr y) 0)"
      using p False be ne nz c
      by (simp add: range_tree_rebalance_leftwards_def Let_def t1_def [symmetric] t2_def [symmetric])
    moreover have "tree_at (set_balance ?t4 (addr y) 0) (load t2 l)
        (Nd (Nd a n (if e < 0 then 1 else 0) c1) y 0 (Nd c2 x (if e > 0 then - 1 else 0) d))"
      using w2(1) at'(2) by auto
    moreover have "upd (ptrs (Nd a n b r)) l t (set_balance ?t4 (addr y) 0)"
      using u r c by (auto intro!: upd_trans [OF _ upd_set_balance])
    ultimately show ?thesis using False r(1) c by simp
  qed
qed

lemma rebalance_rightwards_refines:
  assumes at: "tree_at t (load t l) (Nd a n b r)" "sep (Nd a n b r)" "\<not> loc_in l (ptrs (Nd a n b r))"
    and ok: "rebl_ok r a"
  shows "\<exists>t'. range_tree_rebalance_rightwards l (addr n) t = Some (fst (rebr a n r), t') \<and>
    tree_at t' (load t' l) (snd (rebr a n r)) \<and> upd (ptrs (Nd a n b r)) l t t'"
proof -
  have "avl a" "0 < height a" using ok height_nonneg [of r] by (auto simp: rebl_ok_def)
  then obtain d x bx c where a: "a = Nd d x bx c" "avl c" "bx = height d - height c" by (rule avl_high)
  have p: "load t (LeftLink (addr n)) = addr x" "addr x \<noteq> NULL" "balance t (addr x) = bx"
    "load t (RightLink (addr x)) = (case c of Lf \<Rightarrow> NULL | Nd c1 y e c2 \<Rightarrow> addr y)"
    using at(1) a by (auto split: rtree.split)
  show ?thesis
  proof (cases "bx \<ge> 0")
    case True
    let ?t = "range_tree_rotate_right l (addr n) (addr x) t"
    note rot = rotate_right_refines [OF at [unfolded a(1)]]
    have bal: "balance ?t (addr x) = bx" using rot(1) by simp
    have ne: "addr x \<noteq> addr n" using at(2) a by auto
    have "range_tree_rebalance_rightwards l (addr n) t =
        Some (bx - 1 = 0, set_balance (set_balance ?t (addr n) (1 - bx)) (addr x) (bx - 1))"
      using p True bal ne by (simp add: range_tree_rebalance_rightwards_def Let_def)
    moreover have "tree_at (set_balance (set_balance ?t (addr n) (1 - bx)) (addr x) (bx - 1)) (load ?t l)
        (Nd d x (bx - 1) (Nd c n (1 - bx) r))"
      using rot(1) at(2) a by auto
    moreover have "upd (ptrs (Nd a n b r)) l t (set_balance (set_balance ?t (addr n) (1 - bx)) (addr x) (bx - 1))"
      using rot(2) a by (auto intro!: upd_trans [OF _ upd_set_balance])
    ultimately show ?thesis using True a by simp
  next
    case False
    have "0 < height c" using a(3) False height_nonneg [of d] by linarith
    with a(2) obtain c1 y e c2 where c: "c = Nd c1 y e c2" by (rule avl_high)
    let ?a = "Nd d x bx (Nd c1 y e c2)"
    define t1 where "t1 = range_tree_rotate_left (LeftLink (addr n)) (addr x) (addr y) t"
    define t2 where "t2 = range_tree_rotate_right l (addr n) (addr y) t1"
    have at': "tree_at t (load t l) (Nd ?a n b r)" "sep (Nd ?a n b r)" "\<not> loc_in l (ptrs (Nd ?a n b r))"
      using at a c by simp_all
    have r1: "tree_at t1 (load t1 (LeftLink (addr n))) (Nd (Nd d x bx c1) y e c2)"
      "upd (ptrs ?a) (LeftLink (addr n)) t t1"
      unfolding t1_def by (rule rotate_left_refines; use at' in auto)+
    have "addr n \<notin> ptrs ?a" "ptrs r \<inter> ptrs ?a = {}" "\<not> loc_in l (ptrs ?a)" using at' by auto
    note w1 = left_child [OF at' r1(2) this r1(1)]
    have sep1: "sep (Nd (Nd (Nd d x bx c1) y e c2) n b r)"
      "\<not> loc_in l (ptrs (Nd (Nd (Nd d x bx c1) y e c2) n b r))" using at' by auto
    note w2 = rotate_right_refines [OF w1(1) sep1, folded t2_def]
    have "upd (ptrs (Nd a n b r)) l t t1" using w1(2) a c by (auto elim!: upd_mono)
    moreover have "upd (ptrs (Nd a n b r)) l t1 t2" using w2(2) a c by (auto elim!: upd_mono)
    ultimately have u: "upd (ptrs (Nd a n b r)) l t t2" by (rule upd_trans)
    have be: "balance t2 (addr y) = e" using w2(1) by simp
    let ?t3 = "set_balance t2 (addr n) (if e > 0 then - 1 else 0)"
    let ?t4 = "set_balance ?t3 (addr x) (if e < 0 then 1 else 0)"
    have ne: "addr y \<noteq> addr n" "addr x \<noteq> addr y" "addr x \<noteq> addr n" using at'(2) by auto
    have nz: "addr y \<noteq> NULL" using at'(1) by simp
    have "range_tree_rebalance_rightwards l (addr n) t = Some (True, set_balance ?t4 (addr y) 0)"
      using p False be ne nz c
      by (simp add: range_tree_rebalance_rightwards_def Let_def t1_def [symmetric] t2_def [symmetric])
    moreover have "tree_at (set_balance ?t4 (addr y) 0) (load t2 l)
        (Nd (Nd d x (if e < 0 then 1 else 0) c1) y 0 (Nd c2 n (if e > 0 then - 1 else 0) r))"
      using w2(1) at'(2) by auto
    moreover have "upd (ptrs (Nd a n b r)) l t (set_balance ?t4 (addr y) 0)"
      using u a c by (auto intro!: upd_trans [OF _ upd_set_balance])
    ultimately show ?thesis using False a(1) c by simp
  qed
qed

section \<open>Insertion\<close>

lemma key_extent:
  assumes "key t p = extent n"
  shows "rn_base (rt_node t p) = lo n" "rn_last (rt_node t p) = hi n"
  using assms by (cases n; simp add: key_def rn_last_def)+

lemma ins_mset:
  "avl T \<Longrightarrow> ins x T = (Inr i, T') \<Longrightarrow> mset (inorder T') = add_mset x (mset (inorder T))"
proof (induction T arbitrary: i T')
  case (Nd l n b r)
  have b: "avl l" "avl r" "b = height l - height r" "\<bar>b\<bar> \<le> 1" using Nd.prems(1) by auto
  consider (left) "hi x < lo n" | (right) "\<not> hi x < lo n" "lo x > hi n"
    using Nd.prems(2) by (auto split: if_splits)
  then show ?case
  proof cases
    case left
    then obtain j l' where l': "ins x l = (Inr j, l')"
      using Nd.prems(2) by (cases "ins x l"; cases "fst (ins x l)") auto
    have "rebl_ok r l'" if "j" "\<not> b \<le> 0"
      using ins_avl [OF b(1) l'] b that by (auto simp: rebl_ok_def)
    then show ?thesis using Nd.IH(1) [OF b(1) l'] Nd.prems(2) left l' rebr_avl [of r l' n]
      by (auto split: if_splits)
  next
    case right
    then obtain j r' where r': "ins x r = (Inr j, r')"
      using Nd.prems(2) by (cases "ins x r"; cases "fst (ins x r)") auto
    have "rebl_ok l r'" if "j" "\<not> b \<ge> 0"
      using ins_avl [OF b(2) r'] b that by (auto simp: rebl_ok_def)
    then show ?thesis using Nd.IH(2) [OF b(2) r'] Nd.prems(2) right r' rebl_avl [of l r' n]
      by (auto split: if_splits)
  qed
qed auto

lemma mset_sep:
  assumes "mset (inorder T') = mset (inorder T)"
  shows "ptrs T' = ptrs T" "sep T' \<longleftrightarrow> sep T"
proof -
  have "set (inorder T') = set (inorder T)" using assms by (metis set_mset_mset)
  then show "ptrs T' = ptrs T" by (simp add: ptrs_inorder)
  have "mset (map addr (inorder T')) = mset (map addr (inorder T))" using assms by simp
  then show "sep T' \<longleftrightarrow> sep T" unfolding sep_distinct by (rule mset_eq_imp_distinct_iff)
qed

lemma ins_sep:
  assumes "avl T" "ins x T = (Inr i, T')" "sep T" "addr x \<notin> ptrs T"
  shows "ptrs T' = insert (addr x) (ptrs T)" "sep T'"
proof -
  have "mset (inorder T') = mset (inorder (Nd Lf x 0 T))" using ins_mset [OF assms(1,2)] by simp
  from mset_sep [OF this] show "ptrs T' = insert (addr x) (ptrs T)" "sep T'" using assms(3,4) by auto
qed

lemma ins_err: "ins x T = (Inl e, T') \<Longrightarrow> T' = T"
  by (cases T) (auto split: if_splits prod.splits sum.splits)

definition inserted :: "range_tree \<Rightarrow> rt_loc \<Rightarrow> rnode \<Rightarrow> rtree \<Rightarrow> bool" where
  "inserted t l x T \<longleftrightarrow> (\<exists>t'. range_tree_insert_node l (addr x) t = Some (fst (ins x T), t') \<and>
    tree_at t' (load t' l) (snd (ins x T)) \<and> upd (insert (addr x) (ptrs T)) l t t' \<and>
    ((\<exists>e. fst (ins x T) = Inl e) \<longrightarrow> t' = t))"

lemma insert_left:
  assumes P: "tree_at t (load t l) (Nd a n b r)" "sep (Nd a n b r)" "avl (Nd a n b r)"
      "addr x \<notin> ptrs (Nd a n b r)" "\<not> loc_in l (insert (addr x) (ptrs (Nd a n b r)))"
    and k: "key t (addr x) = extent x" and left: "hi x < lo n"
    and IH: "\<exists>t'. range_tree_insert_node (LeftLink (addr n)) (addr x) t = Some (fst (ins x a), t') \<and>
        tree_at t' (load t' (LeftLink (addr n))) (snd (ins x a)) \<and>
        upd (insert (addr x) (ptrs a)) (LeftLink (addr n)) t t' \<and> ((\<exists>e. fst (ins x a) = Inl e) \<longrightarrow> t' = t)"
  shows "inserted t l x (Nd a n b r)"
proof -
  let ?p = "addr n"
  have ld: "load t l = ?p" "?p \<noteq> NULL" "key t ?p = extent n" "balance t ?p = b" using P(1) by auto
  note run = range_tree_insert_node.simps [of l "addr x" t] ld(1,2) key_extent [OF ld(3)] key_extent [OF k]
    Let_def inserted_def
  have nl: "\<not> loc_in l (ptrs (Nd a n b r))" using P(5) by auto
  obtain r1 a' where a': "ins x a = (r1, a')" by force
  from IH obtain t1 where t1: "range_tree_insert_node (LeftLink ?p) (addr x) t = Some (r1, t1)"
    "tree_at t1 (load t1 (LeftLink ?p)) a'" "upd (insert (addr x) (ptrs a)) (LeftLink ?p) t t1"
    "(\<exists>e. r1 = Inl e) \<longrightarrow> t1 = t" using a' by auto
  have "?p \<notin> insert (addr x) (ptrs a)" "ptrs r \<inter> insert (addr x) (ptrs a) = {}"
    "\<not> loc_in l (insert (addr x) (ptrs a))" using P by auto
  note w = left_child [OF P(1,2) nl t1(3) this t1(2)]
  have u: "upd (insert (addr x) (ptrs (Nd a n b r))) l t t1"
    using w(2) by (rule upd_mono) auto
  show ?thesis
  proof (cases r1)
    case (Inl e)
    then show ?thesis using left a' t1 P(1) by (auto simp: run)
  next
    case (Inr i)
    have s: "ptrs a' = insert (addr x) (ptrs a)" "sep a'"
      using ins_sep [OF _ a' [unfolded Inr]] P by auto
    consider "i" "b \<le> 0" | "i" "\<not> b \<le> 0" | "\<not> i" by blast
    then show ?thesis
    proof cases
      case 1
      let ?t = "set_balance t1 ?p (b + 1)"
      have "tree_at ?t (load ?t l) (Nd a' n (b + 1) r)" using w P(2,4) s by auto
      moreover have "upd (insert (addr x) (ptrs (Nd a n b r))) l t ?t"
        using upd_trans [OF u upd_set_balance] by simp
      ultimately show ?thesis using 1 left a' t1(1) Inr w(4) by (simp add: run)
    next
      case 2
      have ok: "rebl_ok r a'" using ins_avl [OF _ a' [unfolded Inr]] P(3) 2 by (auto simp: rebl_ok_def)
      have "heavy a'" using ins_avl [OF _ a' [unfolded Inr]] P(3) 2 height_nonneg [of r] by auto
      then have h: "fst (rebr a' n r)" using rebr_heavy [OF ok] by blast
      have "sep (Nd a' n b r)" "\<not> loc_in l (ptrs (Nd a' n b r))" using P s by auto
      from rebalance_rightwards_refines [OF w(1) this ok] obtain t2 where
        t2: "range_tree_rebalance_rightwards l ?p t1 = Some (True, t2)"
          "tree_at t2 (load t2 l) (snd (rebr a' n r))" "upd (ptrs (Nd a' n b r)) l t1 t2"
        using h by auto
      have "upd (insert (addr x) (ptrs (Nd a n b r))) l t1 t2"
        using t2(3) by (rule upd_mono) (auto simp: s)
      with u have "upd (insert (addr x) (ptrs (Nd a n b r))) l t t2" by (rule upd_trans)
      then show ?thesis using 2 left a' t1(1) Inr w(4) t2 by (simp add: run)
    next
      case 3
      then show ?thesis using left a' t1(1) Inr w(1,4) u by (simp add: run)
    qed
  qed
qed

lemma insert_right:
  assumes P: "tree_at t (load t l) (Nd a n b r)" "sep (Nd a n b r)" "avl (Nd a n b r)"
      "addr x \<notin> ptrs (Nd a n b r)" "\<not> loc_in l (insert (addr x) (ptrs (Nd a n b r)))"
    and k: "key t (addr x) = extent x" and right: "\<not> hi x < lo n" "lo x > hi n"
    and IH: "\<exists>t'. range_tree_insert_node (RightLink (addr n)) (addr x) t = Some (fst (ins x r), t') \<and>
        tree_at t' (load t' (RightLink (addr n))) (snd (ins x r)) \<and>
        upd (insert (addr x) (ptrs r)) (RightLink (addr n)) t t' \<and> ((\<exists>e. fst (ins x r) = Inl e) \<longrightarrow> t' = t)"
  shows "inserted t l x (Nd a n b r)"
proof -
  let ?p = "addr n"
  have ld: "load t l = ?p" "?p \<noteq> NULL" "key t ?p = extent n" "balance t ?p = b" using P(1) by auto
  note run = range_tree_insert_node.simps [of l "addr x" t] ld(1,2) key_extent [OF ld(3)] key_extent [OF k]
    Let_def inserted_def
  have nl: "\<not> loc_in l (ptrs (Nd a n b r))" using P(5) by auto
  obtain r1 r' where r': "ins x r = (r1, r')" by force
  from IH obtain t1 where t1: "range_tree_insert_node (RightLink ?p) (addr x) t = Some (r1, t1)"
    "tree_at t1 (load t1 (RightLink ?p)) r'" "upd (insert (addr x) (ptrs r)) (RightLink ?p) t t1"
    "(\<exists>e. r1 = Inl e) \<longrightarrow> t1 = t" using r' by auto
  have "?p \<notin> insert (addr x) (ptrs r)" "ptrs a \<inter> insert (addr x) (ptrs r) = {}"
    "\<not> loc_in l (insert (addr x) (ptrs r))" using P by auto
  note w = right_child [OF P(1,2) nl t1(3) this t1(2)]
  have u: "upd (insert (addr x) (ptrs (Nd a n b r))) l t t1"
    using w(2) by (rule upd_mono) auto
  show ?thesis
  proof (cases r1)
    case (Inl e)
    then show ?thesis using right r' t1 P(1) by (auto simp: run)
  next
    case (Inr i)
    have s: "ptrs r' = insert (addr x) (ptrs r)" "sep r'"
      using ins_sep [OF _ r' [unfolded Inr]] P by auto
    consider "i" "b \<ge> 0" | "i" "\<not> b \<ge> 0" | "\<not> i" by blast
    then show ?thesis
    proof cases
      case 1
      let ?t = "set_balance t1 ?p (b - 1)"
      have "tree_at ?t (load ?t l) (Nd a n (b - 1) r')" using w P(2,4) s by auto
      moreover have "upd (insert (addr x) (ptrs (Nd a n b r))) l t ?t"
        using upd_trans [OF u upd_set_balance] by simp
      ultimately show ?thesis using 1 right r' t1(1) Inr w(4) by (simp add: run)
    next
      case 2
      have ok: "rebl_ok a r'" using ins_avl [OF _ r' [unfolded Inr]] P(3) 2 by (auto simp: rebl_ok_def)
      have "heavy r'" using ins_avl [OF _ r' [unfolded Inr]] P(3) 2 height_nonneg [of a] by auto
      then have h: "fst (rebl a n r')" using rebl_heavy [OF ok] by blast
      have "sep (Nd a n b r')" "\<not> loc_in l (ptrs (Nd a n b r'))" using P s by auto
      from rebalance_leftwards_refines [OF w(1) this ok] obtain t2 where
        t2: "range_tree_rebalance_leftwards l ?p t1 = Some (True, t2)"
          "tree_at t2 (load t2 l) (snd (rebl a n r'))" "upd (ptrs (Nd a n b r')) l t1 t2"
        using h by auto
      have "upd (insert (addr x) (ptrs (Nd a n b r))) l t1 t2"
        using t2(3) by (rule upd_mono) (auto simp: s)
      with u have "upd (insert (addr x) (ptrs (Nd a n b r))) l t t2" by (rule upd_trans)
      then show ?thesis using 2 right r' t1(1) Inr w(4) t2 by (simp add: run)
    next
      case 3
      then show ?thesis using right r' t1(1) Inr w(1,4) u by (simp add: run)
    qed
  qed
qed

lemma insert_node_refines:
  assumes "tree_at t (load t l) T" "sep T" "avl T" "addr x \<noteq> NULL" "addr x \<notin> ptrs T"
    "\<not> loc_in l (insert (addr x) (ptrs T))" "key t (addr x) = extent x"
    "load t (LeftLink (addr x)) = NULL" "load t (RightLink (addr x)) = NULL"
  shows "inserted t l x T"
  using assms(1-3,5,6)
proof (induction T arbitrary: l)
  case Lf
  let ?t = "set_balance (store t l (addr x)) (addr x) 0"
  have "range_tree_insert_node l (addr x) t = Some (Inr True, ?t)"
    using Lf.prems(1) by (subst range_tree_insert_node.simps) simp
  moreover have "tree_at ?t (load ?t l) (Nd Lf x 0 Lf)" using Lf.prems assms(4,7-9) by auto
  moreover have "upd {addr x} l t ?t" by (rule upd_trans [OF upd_store upd_set_balance]) simp
  ultimately show ?case by (simp add: inserted_def)
next
  case (Nd a n b r)
  have IH: "inserted t (LeftLink (addr n)) x a" "inserted t (RightLink (addr n)) x r"
    using Nd.prems by (auto intro!: Nd.IH)
  consider (left) "hi x < lo n" | (right) "\<not> hi x < lo n" "lo x > hi n"
    | (over) "\<not> hi x < lo n" "\<not> lo x > hi n" by blast
  then show ?case
  proof cases
    case left
    then show ?thesis using insert_left [OF Nd.prems assms(7)] IH(1) by (simp add: inserted_def)
  next
    case right
    then show ?thesis using insert_right [OF Nd.prems assms(7)] IH(2) by (simp add: inserted_def)
  next
    case over
    have ld: "load t l = addr n" "addr n \<noteq> NULL" "key t (addr n) = extent n" using Nd.prems(1) by auto
    show ?thesis unfolding inserted_def
      using over Nd.prems(1) range_tree_insert_node.simps [of l "addr x" t]
      by (simp add: ld(1,2) key_extent [OF ld(3)] key_extent [OF assms(7)])
  qed
qed


section \<open>Removal\<close>

lemma tree_at_key:
  "tree_at t p T \<Longrightarrow> x \<in> set (inorder T) \<Longrightarrow> key t (addr x) = extent x \<and> addr x \<noteq> NULL"
  by (induction T arbitrary: p) auto

lemma del_min_sep:
  assumes "avl T" "T \<noteq> Lf" "del_min T = (m, red, T')" "sep T"
  shows "ptrs T = insert (addr m) (ptrs T')" "addr m \<notin> ptrs T'" "sep T'" "m \<in> set (inorder T)"
proof -
  have i: "inorder T = m # inorder T'" using del_min_avl [OF assms(1-3)] by simp
  show "ptrs T = insert (addr m) (ptrs T')" "m \<in> set (inorder T)" by (auto simp: ptrs_inorder i)
  show "addr m \<notin> ptrs T'" "sep T'" using assms(4) by (auto simp: sep_distinct ptrs_inorder i)
qed

text \<open>The link below which the successor was taken out.\<close>

definition succ_link :: "rt_loc option \<Rightarrow> rnode \<Rightarrow> rt_loc" where
  "succ_link pl m = (case pl of None \<Rightarrow> RightLink (addr m) | Some q \<Rightarrow> q)"

definition upd2 :: "ptr set \<Rightarrow> rt_loc \<Rightarrow> rt_loc option \<Rightarrow> range_tree \<Rightarrow> range_tree \<Rightarrow> bool" where
  "upd2 X l pl t t' \<longleftrightarrow> key t' = key t \<and>
     (\<forall>l'. \<not> loc_in l' X \<and> l' \<noteq> l \<and> pl \<noteq> Some l' \<longrightarrow> load t' l' = load t l') \<and>
     (\<forall>q. q \<notin> X \<longrightarrow> balance t' q = balance t q)"

definition succ_out :: "rt_loc \<Rightarrow> ptr \<Rightarrow> ptr \<Rightarrow> rt_loc option \<Rightarrow> rtree \<Rightarrow> range_tree \<Rightarrow> bool \<Rightarrow> range_tree \<Rightarrow> bool" where
  "succ_out l left right pl T t red t' \<longleftrightarrow> (\<exists>m T'. del_min T = (m, red, T') \<and>
     load t' l = addr m \<and> load t' (LeftLink (addr m)) = left \<and>
     (pl \<noteq> None \<longrightarrow> load t' (RightLink (addr m)) = right) \<and>
     tree_at t' (load t' (succ_link pl m)) T' \<and> upd2 (ptrs T) l pl t t')"

lemma replace_with_successor_leaf:
  assumes at: "tree_at t (addr n) (Nd Lf n b r)" "sep (Nd Lf n b r)" "\<not> loc_in l (ptrs (Nd Lf n b r))"
    and pl: "pl = None \<Longrightarrow> right = addr n" "\<forall>q. pl = Some q \<longrightarrow> \<not> loc_in q (ptrs (Nd Lf n b r)) \<and> q \<noteq> l"
  shows "\<exists>t'. range_tree_replace_with_successor l left right pl (addr n) t = Some (True, t') \<and>
    succ_out l left right pl (Nd Lf n b r) t True t'"
proof -
  have ll: "load t (LeftLink (addr n)) = NULL" using at(1) by simp
  note run = range_tree_replace_with_successor.simps [of l left right pl "addr n" t] ll Let_def
  show ?thesis
  proof (cases pl)
    case None
    have "range_tree_replace_with_successor l left right pl (addr n) t =
        Some (True, store (store t (LeftLink (addr n)) left) l (addr n))"
      unfolding run using None pl(1) by simp
    then show ?thesis
      using at None by (auto simp: succ_out_def succ_link_def upd2_def)
  next
    case (Some q)
    then have q: "\<not> loc_in q (ptrs (Nd Lf n b r))" "q \<noteq> l" using pl(2) by auto
    let ?t = "store (store (store (store t (LeftLink (addr n)) left) (RightLink (addr n)) right)
        l (addr n)) q (load t (RightLink (addr n)))"
    have "range_tree_replace_with_successor l left right pl (addr n) t = Some (True, ?t)"
      unfolding run using Some by simp
    moreover have "succ_out l left right pl (Nd Lf n b r) t True ?t"
      using at Some q by (auto simp: succ_out_def succ_link_def upd2_def)
    ultimately show ?thesis by blast
  qed
qed


lemma succ_link_props:
  assumes l: "\<not> loc_in l (ptrs (Nd a n b r))" and ne: "addr m \<noteq> addr n" "addr m \<notin> ptrs (Nd a' n b r)"
      "addr m \<in> ptrs a" "ptrs a' \<subseteq> ptrs a"
    and t1: "load t1 (RightLink (addr m)) = right" "upd2 (ptrs a) l (Some (LeftLink (addr n))) t t1"
    and pl: "pl = None \<Longrightarrow> right = addr n"
      "\<forall>q. pl = Some q \<longrightarrow> \<not> loc_in q (ptrs (Nd a n b r)) \<and> q \<noteq> l \<and> load t q = addr n"
  shows "\<not> loc_in (succ_link pl m) (ptrs (Nd a' n b r))" "succ_link pl m \<noteq> l"
    "load t1 (succ_link pl m) = addr n" "succ_link pl m \<noteq> LeftLink (addr m)"
    "pl \<noteq> None \<Longrightarrow> succ_link pl m \<noteq> RightLink (addr m)"
proof -
  have lm: "l \<noteq> RightLink (addr m)" using l ne(3) by (cases l) auto
  have q: "\<not> loc_in q (ptrs a')" "q \<noteq> LeftLink (addr m)" "q \<noteq> RightLink (addr m)"
    if "\<not> loc_in q (ptrs (Nd a n b r))" for q
  proof -
    have "\<not> loc_in q (ptrs a)" using that by simp
    then show "\<not> loc_in q (ptrs a')" "q \<noteq> LeftLink (addr m)" "q \<noteq> RightLink (addr m)"
      using loc_in_mono [OF ne(4)] ne(3) by auto
  qed
  show "\<not> loc_in (succ_link pl m) (ptrs (Nd a' n b r))"
    using ne(2) pl(2) q(1) by (cases pl) (auto simp: succ_link_def)
  show "succ_link pl m \<noteq> l" "succ_link pl m \<noteq> LeftLink (addr m)"
    "pl \<noteq> None \<Longrightarrow> succ_link pl m \<noteq> RightLink (addr m)"
    using pl(2) q(2,3) lm by (cases pl; auto simp: succ_link_def)+
  show "load t1 (succ_link pl m) = addr n"
    using t1 pl by (cases pl) (auto simp: succ_link_def upd2_def)
qed

lemma upd2_tree:
  assumes "upd2 X l pl t t'" "ptrs T \<inter> X = {}" "\<not> loc_in l (ptrs T)" "\<forall>q. pl = Some q \<longrightarrow> \<not> loc_in q (ptrs T)"
  shows "tree_at t' p T \<longleftrightarrow> tree_at t p T"
proof (rule tree_at_cong)
  show "\<forall>l. loc_in l (ptrs T) \<longrightarrow> load t' l = load t l"
  proof (intro allI impI)
    fix l' assume l': "loc_in l' (ptrs T)"
    then have "\<not> loc_in l' X" using assms(2) by (cases l') auto
    moreover have "l' \<noteq> l" "pl \<noteq> Some l'" using l' assms(3,4) by auto
    ultimately show "load t' l' = load t l'" using assms(1) by (simp add: upd2_def)
  qed
qed (use assms in \<open>auto simp: upd2_def\<close>)

lemma upd2_upd:
  assumes "upd2 X l (Some (LeftLink p)) t t1" "upd Y q t1 t2"
    "X \<subseteq> Z" "Y \<subseteq> Z" "p \<in> Z" "loc_in q Z \<or> pl = Some q"
  shows "upd2 Z l pl t t2"
  using assms loc_in_mono [OF assms(3)] loc_in_mono [OF assms(4)]
  unfolding upd_def upd2_def by (metis loc_in.simps(2) option.inject subset_iff)

lemma replace_with_successor_step:
  assumes at: "tree_at t (addr n) (Nd a n b r)" "sep (Nd a n b r)" "avl (Nd a n b r)"
      "\<not> loc_in l (ptrs (Nd a n b r))" and a: "a \<noteq> Lf"
    and pl: "pl = None \<Longrightarrow> right = addr n"
      "\<forall>q. pl = Some q \<longrightarrow> \<not> loc_in q (ptrs (Nd a n b r)) \<and> q \<noteq> l \<and> load t q = addr n"
    and IH: "range_tree_replace_with_successor l left right (Some (LeftLink (addr n)))
        (load t (LeftLink (addr n))) t = Some (red1, t1)"
      "succ_out l left right (Some (LeftLink (addr n))) a t red1 t1"
  shows "\<exists>red t'. range_tree_replace_with_successor l left right pl (addr n) t = Some (red, t') \<and>
    succ_out l left right pl (Nd a n b r) t red t'"
proof -
  from IH(2) obtain m a' where m: "del_min a = (m, red1, a')" "load t1 l = addr m"
    "load t1 (LeftLink (addr m)) = left" "load t1 (RightLink (addr m)) = right"
    "tree_at t1 (load t1 (LeftLink (addr n))) a'" "upd2 (ptrs a) l (Some (LeftLink (addr n))) t t1"
    by (auto simp: succ_out_def succ_link_def)
  have av: "avl a" "sep a" using at by auto
  note ms = del_min_sep [OF av(1) a m(1) av(2)] and sh = del_min_avl [OF av(1) a m(1)]
  let ?q = "succ_link pl m"
  have ne: "addr m \<noteq> addr n" "addr m \<notin> ptrs (Nd a' n b r)" "addr m \<in> ptrs a"
    "ptrs (Nd a' n b r) \<subseteq> ptrs (Nd a n b r)" using ms at(2) by auto
  have lm: "l \<noteq> RightLink (addr m)" "l \<noteq> LeftLink (addr m)" "l \<noteq> RightLink (addr n)"
    using at(4) ms(1) by auto
  have "ptrs a' \<subseteq> ptrs a" using ms(1) by auto
  note q = succ_link_props [OF at(4) ne(1-3) this m(4,6) pl]
  have nod: "key t1 = key t" "balance t1 (addr n) = b" "load t1 (RightLink (addr n)) = load t (RightLink (addr n))"
    using m(6) at lm by (auto simp: upd2_def)
  have rr: "tree_at t1 p r \<longleftrightarrow> tree_at t p r" for p
    by (rule upd2_tree [OF m(6)]) (use at in auto)
  have w: "tree_at t1 (load t1 ?q) (Nd a' n b r)" using q(3) nod rr m(5) at(1) by simp
  have sep': "sep (Nd a' n b r)" using at(2) ms by auto
  have lnz: "load t (LeftLink (addr n)) \<noteq> NULL" using at(1) a tree_at_NULL by auto
  have run: "range_tree_replace_with_successor l left right pl (addr n) t =
      (if red1 \<and> b \<ge> 0 then Some (b - 1 = 0, set_balance t1 (addr n) (b - 1))
       else if red1 then range_tree_rebalance_leftwards ?q (addr n) t1
       else Some (False, t1))"
    unfolding range_tree_replace_with_successor.simps [of l left right pl "addr n" t]
    using lnz IH(1) m(2) nod(2) by (simp add: succ_link_def Let_def cong: option.case_cong)
  have dm: "del_min (Nd a n b r) =
      (if red1 \<and> b \<ge> 0 then (m, b - 1 = 0, Nd a' n (b - 1) r)
       else if red1 then (m, rebl a' n r) else (m, False, Nd a' n b r))"
    using a m(1) by (cases a) auto
  have out: "succ_out l left right pl (Nd a n b r) t red t2"
    if "del_min (Nd a n b r) = (m, red, T')" "tree_at t2 (load t2 ?q) T'" "upd (ptrs (Nd a' n b r)) ?q t1 t2"
    for red T' t2
  proof -
    have la: "\<not> loc_in l (ptrs (Nd a' n b r))" using at(4) loc_in_mono [OF ne(4)] by blast
    have ld: "load t2 x = load t1 x" if "\<not> loc_in x (ptrs (Nd a' n b r))" "x \<noteq> ?q" for x
      using that \<open>upd _ _ t1 t2\<close> by (simp add: upd_def)
    have "load t2 l = addr m" using ld [OF la] q(2) m(2) by simp
    moreover have "load t2 (LeftLink (addr m)) = left" using ld [of "LeftLink (addr m)"] q(4) m(3) ne(2) by simp
    moreover have "pl \<noteq> None \<Longrightarrow> load t2 (RightLink (addr m)) = right"
      using ld [of "RightLink (addr m)"] q(5) m(4) ne(2) by simp
    moreover have "upd2 (ptrs (Nd a n b r)) l pl t t2"
    proof (rule upd2_upd [OF m(6) that(3) _ ne(4)])
      show "loc_in ?q (ptrs (Nd a n b r)) \<or> pl = Some ?q" using ne(3) by (cases pl) (auto simp: succ_link_def)
    qed auto
    ultimately show ?thesis using that(1,2) unfolding succ_out_def by blast
  qed
  consider "red1" "b \<ge> 0" | "red1" "\<not> b \<ge> 0" | "\<not> red1" by blast
  then show ?thesis
  proof cases
    case 1
    let ?t = "set_balance t1 (addr n) (b - 1)"
    have "tree_at ?t (load ?t ?q) (Nd a' n (b - 1) r)" using w sep' by auto
    moreover have "upd (ptrs (Nd a' n b r)) ?q t1 ?t" by (rule upd_set_balance) simp
    ultimately show ?thesis using out dm run 1 by auto
  next
    case 2
    have "rebl_ok a' r" using shrink_left(2) [OF at(3)] sh 2 by blast
    from rebalance_leftwards_refines [OF w sep' q(1) this] obtain t2 where
      t2: "range_tree_rebalance_leftwards ?q (addr n) t1 = Some (fst (rebl a' n r), t2)"
        "tree_at t2 (load t2 ?q) (snd (rebl a' n r))" "upd (ptrs (Nd a' n b r)) ?q t1 t2" by blast
    then show ?thesis using out [of "fst (rebl a' n r)" "snd (rebl a' n r)" t2] dm run 2 by auto
  next
    case 3
    then show ?thesis using out w dm run by auto
  qed
qed


lemma replace_with_successor_refines:
  assumes "tree_at t p T" "sep T" "avl T" "T \<noteq> Lf" "\<not> loc_in l (ptrs T)"
    "pl = None \<Longrightarrow> right = p"
    "\<forall>q. pl = Some q \<longrightarrow> \<not> loc_in q (ptrs T) \<and> q \<noteq> l \<and> load t q = p"
  shows "\<exists>red t'. range_tree_replace_with_successor l left right pl p t = Some (red, t') \<and>
    succ_out l left right pl T t red t'"
  using assms
proof (induction T arbitrary: p pl)
  case (Nd a n b r)
  have p: "p = addr n" using Nd.prems(1) by simp
  show ?case
  proof (cases "a = Lf")
    case True
    have "\<exists>t'. range_tree_replace_with_successor l left right pl (addr n) t = Some (True, t') \<and>
        succ_out l left right pl (Nd Lf n b r) t True t'"
      using Nd.prems True p by (intro replace_with_successor_leaf) auto
    then show ?thesis using True p by blast
  next
    case False
    have "LeftLink (addr n) \<noteq> l" using Nd.prems(5) by auto
    then have "\<exists>red t'. range_tree_replace_with_successor l left right (Some (LeftLink (addr n)))
          (load t (LeftLink (addr n))) t = Some (red, t') \<and>
        succ_out l left right (Some (LeftLink (addr n))) a t red t'"
      using Nd.prems False by (intro Nd.IH(1)) auto
    then obtain red1 t1 where "range_tree_replace_with_successor l left right (Some (LeftLink (addr n)))
          (load t (LeftLink (addr n))) t = Some (red1, t1)"
        "succ_out l left right (Some (LeftLink (addr n))) a t red1 t1" by blast
    from replace_with_successor_step [OF _ Nd.prems(2,3,5) False _ _ this] show ?thesis
      using Nd.prems(1,6,7) p by auto
  qed
qed simp

lemma remove_subtree_root_refines:
  assumes at: "tree_at t (load t l) (Nd a n b r)" "sep (Nd a n b r)" "avl (Nd a n b r)"
    "\<not> loc_in l (ptrs (Nd a n b r))"
  shows "\<exists>t'. range_tree_remove_subtree_root l (addr n) t = Some (fst (del_root (Nd a n b r)), t') \<and>
    tree_at t' (load t' l) (snd (del_root (Nd a n b r))) \<and> upd (ptrs (Nd a n b r)) l t t'"
proof -
  let ?L = "load t (LeftLink (addr n))" and ?R = "load t (RightLink (addr n))"
  have ar: "tree_at t ?L a" "tree_at t ?R r" using at(1) by auto
  note nz = tree_at_NULL [OF ar(1)] tree_at_NULL [OF ar(2)]
  consider "a = Lf" | "a \<noteq> Lf" "r = Lf" | "a \<noteq> Lf" "r \<noteq> Lf" by blast
  then show ?thesis
  proof cases
    case 1
    then show ?thesis using at nz by (auto simp: range_tree_remove_subtree_root_def upd_store)
  next
    case 2
    then show ?thesis using at nz by (auto simp: range_tree_remove_subtree_root_def upd_store)
  next
    case 3
    obtain red t1 where
      t1: "range_tree_replace_with_successor l ?L ?R None ?R t = Some (red, t1)" "succ_out l ?L ?R None r t red t1"
      using replace_with_successor_refines [OF ar(2), of l None ?R ?L] at 3 by auto
    obtain m r' where m: "del_min r = (m, red, r')" "load t1 l = addr m" "load t1 (LeftLink (addr m)) = ?L"
      "tree_at t1 (load t1 (RightLink (addr m))) r'" "upd2 (ptrs r) l None t t1"
      using t1(2) by (auto simp: succ_out_def succ_link_def)
    have sr: "avl r" "sep r" using at by auto
    note ms = del_min_sep [OF sr(1) 3(2) m(1) sr(2)]
    have "tree_at t1 ?L a" using upd2_tree [OF m(5)] ar(1) at by auto
    moreover have bn: "balance t1 (addr n) = b" and key: "key t1 = key t"
      using m(5) at by (auto simp: upd2_def)
    moreover have "key t (addr m) = extent m" "addr m \<noteq> NULL" using tree_at_key [OF ar(2) ms(4)] by auto
    moreover have fresh: "addr m \<notin> ptrs a" "addr m \<notin> ptrs r'" using ms at(2) by auto
    define t2 where "t2 = set_balance t1 (addr m) b"
    ultimately have w: "tree_at t2 (load t2 l) (Nd a m b r')" using m fresh by (simp add: t2_def)
    have sep': "sep (Nd a m b r')" "\<not> loc_in l (ptrs (Nd a m b r'))" "ptrs (Nd a m b r') \<subseteq> ptrs (Nd a n b r)"
      using at ms fresh by auto
    have u: "upd (ptrs (Nd a n b r)) l t t2"
      using m(5) ms(1) loc_in_mono [of "ptrs r" "ptrs (Nd a n b r)"]
      by (auto simp: upd_def upd2_def t2_def)
    have run: "range_tree_remove_subtree_root l (addr n) t =
        (if red \<and> b \<le> 0 then Some (b + 1 = 0, set_balance t2 (addr m) (b + 1))
         else if red then range_tree_rebalance_rightwards l (addr m) t2 else Some (False, t2))"
      using nz 3 t1(1) m(2) bn by (simp add: range_tree_remove_subtree_root_def Let_def t2_def)
    consider "red" "b \<le> 0" | "red" "\<not> b \<le> 0" | "\<not> red" by blast
    then show ?thesis
    proof cases
      case one: 1
      have "tree_at (set_balance t2 (addr m) (b + 1)) (load t2 l) (Nd a m (b + 1) r')" using w sep' by auto
      moreover have "upd (ptrs (Nd a n b r)) l t (set_balance t2 (addr m) (b + 1))"
        using upd_trans [OF u upd_set_balance] ms(1) by auto
      ultimately show ?thesis using run one 3 m(1) by simp
    next
      case two: 2
      have "rebl_ok r' a" using shrink_right(2) [OF at(3)] del_min_avl [OF sr(1) 3(2) m(1)] two by blast
      from rebalance_rightwards_refines [OF w sep'(1,2) this] obtain t3 where
        t3: "range_tree_rebalance_rightwards l (addr m) t2 = Some (fst (rebr a m r'), t3)"
          "tree_at t3 (load t3 l) (snd (rebr a m r'))" "upd (ptrs (Nd a m b r')) l t2 t3" by blast
      have "upd (ptrs (Nd a n b r)) l t t3" by (rule upd_trans [OF u upd_mono [OF t3(3) sep'(3)]])
      then show ?thesis using run two 3 m(1) t3 by simp
    next
      case three: 3
      then show ?thesis using run 3 m(1) w u by simp
    qed
  qed
qed


lemma del_mset:
  "avl T \<Longrightarrow> del x T = (Inr red, T') \<Longrightarrow>
    shrunk T red T' \<and> (\<exists>y. mset (inorder T) = add_mset y (mset (inorder T')))"
proof (induction T arbitrary: red T')
  case (Nd l n b r)
  have b: "avl l" "avl r" using Nd.prems(1) by auto
  consider (left) "hi x < lo n" | (right) "\<not> hi x < lo n" "lo x > hi n"
    | (hit) "\<not> hi x < lo n" "\<not> lo x > hi n" "addr n = addr x"
    using Nd.prems(2) by (auto split: if_splits)
  then show ?case
  proof cases
    case left
    then obtain j l' where l': "del x l = (Inr j, l')"
      using Nd.prems(2) by (cases "del x l"; cases "fst (del x l)") auto
    have IH: "shrunk l j l'" "\<exists>y. mset (inorder l) = add_mset y (mset (inorder l'))"
      using Nd.IH(1) [OF b(1) l'] by auto
    note s = shrink_left [OF Nd.prems(1) IH(1)]
    consider "j" "b \<ge> 0" | "j" "\<not> b \<ge> 0" | "\<not> j" by blast
    then show ?thesis
    proof cases
      case 2
      then show ?thesis using Nd.prems(2) left l' s(3) rebl_avl [OF s(2), of n] IH(2)
        by (auto split: prod.splits)
    qed (use Nd.prems(2) left l' s(1,4) IH(2) in auto)
  next
    case right
    then obtain j r' where r': "del x r = (Inr j, r')"
      using Nd.prems(2) by (cases "del x r"; cases "fst (del x r)") auto
    have IH: "shrunk r j r'" "\<exists>y. mset (inorder r) = add_mset y (mset (inorder r'))"
      using Nd.IH(2) [OF b(2) r'] by auto
    note s = shrink_right(1) [where m = n, OF Nd.prems(1) IH(1)] shrink_right(2) [OF Nd.prems(1) IH(1)]
      shrink_right(3,4) [where m = n, OF Nd.prems(1) IH(1)]
    consider "j" "b \<le> 0" | "j" "\<not> b \<le> 0" | "\<not> j" by blast
    then show ?thesis
    proof cases
      case 2
      then show ?thesis using Nd.prems(2) right r' s(3) rebr_avl [OF s(2), of n] IH(2)
        by (auto split: prod.splits)
    qed (use Nd.prems(2) right r' s(1,4) IH(2) in auto)
  next
    case hit
    then have "del_root (Nd l n b r) = (red, T')"
      using Nd.prems(2) by (cases "del_root (Nd l n b r)") auto
    from del_root_avl [OF Nd.prems(1) this] show ?thesis by (intro conjI exI [of _ n]; simp)
  qed
qed simp

lemma del_sep:
  assumes "avl T" "del x T = (Inr red, T')" "sep T"
  shows "sep T'" "ptrs T' \<subseteq> ptrs T"
proof -
  from del_mset [OF assms(1,2)] obtain y where
    "mset (inorder (Nd Lf y 0 T')) = mset (inorder T)" by auto
  from mset_sep [OF this] show "sep T'" "ptrs T' \<subseteq> ptrs T" using assms(3) by auto
qed

definition removed :: "range_tree \<Rightarrow> rt_loc \<Rightarrow> rnode \<Rightarrow> rtree \<Rightarrow> bool" where
  "removed t l x T \<longleftrightarrow> (\<exists>t'. range_tree_remove_node l (addr x) t = Some (fst (del x T), t') \<and>
    tree_at t' (load t' l) (snd (del x T)) \<and> upd (ptrs T) l t t' \<and>
    ((\<exists>e. fst (del x T) = Inl e) \<longrightarrow> t' = t))"

lemma remove_left:
  assumes P: "tree_at t (load t l) (Nd a n b r)" "sep (Nd a n b r)" "avl (Nd a n b r)"
      "\<not> loc_in l (ptrs (Nd a n b r))"
    and k: "key t (addr x) = extent x" and left: "hi x < lo n"
    and IH: "removed t (LeftLink (addr n)) x a"
  shows "removed t l x (Nd a n b r)"
proof -
  let ?p = "addr n"
  have ld: "load t l = ?p" "?p \<noteq> NULL" "key t ?p = extent n" "balance t ?p = b" using P(1) by auto
  note run = range_tree_remove_node.simps [of l "addr x" t] ld(1,2) key_extent [OF ld(3)] key_extent [OF k]
    Let_def removed_def
  obtain r1 a' where a': "del x a = (r1, a')" by force
  with IH obtain t1 where t1: "range_tree_remove_node (LeftLink ?p) (addr x) t = Some (r1, t1)"
    "tree_at t1 (load t1 (LeftLink ?p)) a'" "upd (ptrs a) (LeftLink ?p) t t1"
    "(\<exists>e. r1 = Inl e) \<longrightarrow> t1 = t" by (auto simp: removed_def)
  have "?p \<notin> ptrs a" "ptrs r \<inter> ptrs a = {}" "\<not> loc_in l (ptrs a)" using P by auto
  note w = left_child [OF P(1,2,4) t1(3) this t1(2)]
  have u: "upd (ptrs (Nd a n b r)) l t t1" using w(2) by (rule upd_mono) auto
  show ?thesis
  proof (cases r1)
    case (Inl e)
    then show ?thesis using left a' t1 P(1) by (auto simp: run)
  next
    case (Inr i)
    have s: "sep a'" "ptrs a' \<subseteq> ptrs a" using del_sep [OF _ a' [unfolded Inr]] P by auto
    have sep': "sep (Nd a' n b r)" "\<not> loc_in l (ptrs (Nd a' n b r))" "ptrs (Nd a' n b r) \<subseteq> ptrs (Nd a n b r)"
      using P s loc_in_mono [OF s(2)] by auto
    consider "i" "b \<ge> 0" | "i" "\<not> b \<ge> 0" | "\<not> i" by blast
    then show ?thesis
    proof cases
      case 1
      let ?t = "set_balance t1 ?p (b - 1)"
      have "tree_at ?t (load ?t l) (Nd a' n (b - 1) r)" using w sep'(1) by auto
      moreover have "upd (ptrs (Nd a n b r)) l t ?t" using upd_trans [OF u upd_set_balance] by simp
      ultimately show ?thesis using 1 left a' t1(1) Inr w(4) by (simp add: run)
    next
      case 2
      have "shrunk a True a'" using del_mset [OF _ a' [unfolded Inr]] P(3) 2 by auto
      then have ok: "rebl_ok a' r" using shrink_left(2) [OF P(3)] 2 by blast
      from rebalance_leftwards_refines [OF w(1) sep'(1,2) ok] obtain t2 where
        t2: "range_tree_rebalance_leftwards l ?p t1 = Some (fst (rebl a' n r), t2)"
          "tree_at t2 (load t2 l) (snd (rebl a' n r))" "upd (ptrs (Nd a' n b r)) l t1 t2" by blast
      have "upd (ptrs (Nd a n b r)) l t t2" by (rule upd_trans [OF u upd_mono [OF t2(3) sep'(3)]])
      then show ?thesis using 2 left a' t1(1) Inr w(4) t2 by (simp add: run split_beta)
    next
      case 3
      then show ?thesis using left a' t1(1) Inr w(1,4) u by (simp add: run)
    qed
  qed
qed

lemma remove_right:
  assumes P: "tree_at t (load t l) (Nd a n b r)" "sep (Nd a n b r)" "avl (Nd a n b r)"
      "\<not> loc_in l (ptrs (Nd a n b r))"
    and k: "key t (addr x) = extent x" and right: "\<not> hi x < lo n" "lo x > hi n"
    and IH: "removed t (RightLink (addr n)) x r"
  shows "removed t l x (Nd a n b r)"
proof -
  let ?p = "addr n"
  have ld: "load t l = ?p" "?p \<noteq> NULL" "key t ?p = extent n" "balance t ?p = b" using P(1) by auto
  note run = range_tree_remove_node.simps [of l "addr x" t] ld(1,2) key_extent [OF ld(3)] key_extent [OF k]
    Let_def removed_def
  obtain r1 r' where r': "del x r = (r1, r')" by force
  with IH obtain t1 where t1: "range_tree_remove_node (RightLink ?p) (addr x) t = Some (r1, t1)"
    "tree_at t1 (load t1 (RightLink ?p)) r'" "upd (ptrs r) (RightLink ?p) t t1"
    "(\<exists>e. r1 = Inl e) \<longrightarrow> t1 = t" by (auto simp: removed_def)
  have "?p \<notin> ptrs r" "ptrs a \<inter> ptrs r = {}" "\<not> loc_in l (ptrs r)" using P by auto
  note w = right_child [OF P(1,2,4) t1(3) this t1(2)]
  have u: "upd (ptrs (Nd a n b r)) l t t1" using w(2) by (rule upd_mono) auto
  show ?thesis
  proof (cases r1)
    case (Inl e)
    then show ?thesis using right r' t1 P(1) by (auto simp: run)
  next
    case (Inr i)
    have s: "sep r'" "ptrs r' \<subseteq> ptrs r" using del_sep [OF _ r' [unfolded Inr]] P by auto
    have sep': "sep (Nd a n b r')" "\<not> loc_in l (ptrs (Nd a n b r'))" "ptrs (Nd a n b r') \<subseteq> ptrs (Nd a n b r)"
      using P s loc_in_mono [OF s(2)] by auto
    consider "i" "b \<le> 0" | "i" "\<not> b \<le> 0" | "\<not> i" by blast
    then show ?thesis
    proof cases
      case 1
      let ?t = "set_balance t1 ?p (b + 1)"
      have "tree_at ?t (load ?t l) (Nd a n (b + 1) r')" using w sep'(1) by auto
      moreover have "upd (ptrs (Nd a n b r)) l t ?t" using upd_trans [OF u upd_set_balance] by simp
      ultimately show ?thesis using 1 right r' t1(1) Inr w(4) by (simp add: run)
    next
      case 2
      have "shrunk r True r'" using del_mset [OF _ r' [unfolded Inr]] P(3) 2 by auto
      then have ok: "rebl_ok r' a" using shrink_right(2) [OF P(3)] 2 by blast
      from rebalance_rightwards_refines [OF w(1) sep'(1,2) ok] obtain t2 where
        t2: "range_tree_rebalance_rightwards l ?p t1 = Some (fst (rebr a n r'), t2)"
          "tree_at t2 (load t2 l) (snd (rebr a n r'))" "upd (ptrs (Nd a n b r')) l t1 t2" by blast
      have "upd (ptrs (Nd a n b r)) l t t2" by (rule upd_trans [OF u upd_mono [OF t2(3) sep'(3)]])
      then show ?thesis using 2 right r' t1(1) Inr w(4) t2 by (simp add: run split_beta)
    next
      case 3
      then show ?thesis using right r' t1(1) Inr w(1,4) u by (simp add: run)
    qed
  qed
qed

lemma remove_node_refines:
  assumes "tree_at t (load t l) T" "sep T" "avl T" "\<not> loc_in l (ptrs T)" "key t (addr x) = extent x"
  shows "removed t l x T"
  using assms(1-4)
proof (induction T arbitrary: l)
  case Lf
  then show ?case using range_tree_remove_node.simps [of l "addr x" t] by (simp add: removed_def)
next
  case (Nd a n b r)
  have IH: "removed t (LeftLink (addr n)) x a" "removed t (RightLink (addr n)) x r"
    using Nd.prems by (auto intro!: Nd.IH)
  have ld: "load t l = addr n" "addr n \<noteq> NULL" "key t (addr n) = extent n" using Nd.prems(1) by auto
  note run = range_tree_remove_node.simps [of l "addr x" t] ld(1,2) key_extent [OF ld(3)]
    key_extent [OF assms(5)] Let_def removed_def
  consider (left) "hi x < lo n" | (right) "\<not> hi x < lo n" "lo x > hi n"
    | (over) "\<not> hi x < lo n" "\<not> lo x > hi n" "addr n \<noteq> addr x"
    | (hit) "\<not> hi x < lo n" "\<not> lo x > hi n" "addr n = addr x" by blast
  then show ?case
  proof cases
    case left
    then show ?thesis by (rule remove_left [OF Nd.prems assms(5) _ IH(1)])
  next
    case right
    then show ?thesis by (rule remove_right [OF Nd.prems assms(5) _ _ IH(2)])
  next
    case over
    then show ?thesis using Nd.prems(1) by (simp add: run)
  next
    case hit
    then have nx: "n = x" using ld(3) assms(5) by (cases n; cases x) auto
    obtain h T' where dr: "del_root (Nd a n b r) = (h, T')" by force
    with remove_subtree_root_refines [OF Nd.prems] obtain t' where
      t': "range_tree_remove_subtree_root l (addr x) t = Some (h, t')" "tree_at t' (load t' l) T'"
        "upd (ptrs (Nd a n b r)) l t t'" using nx by auto
    have "range_tree_remove_node l (addr x) t = Some (Inr h, t')"
      using hit t'(1) ld(1,2) nx key_extent [OF assms(5)]
      by (subst range_tree_remove_node.simps) (simp add: Let_def)
    moreover have "del x (Nd a n b r) = (Inr h, T')" using hit dr by (simp del: del_root.simps)
    ultimately show ?thesis using t'(2,3) unfolding removed_def by auto
  qed
qed

end
