(* ===== verification/RangeTree_Query.thy ===== *)
theory RangeTree_Query
  imports RangeTree_Refine
begin

text \<open>
  Lookup, iteration and destruction of the range tree, and what a lookup that runs concurrently
  with a rotation can return.
\<close>

section \<open>Lookup\<close>

definition holds :: "u64 \<Rightarrow> rnode \<Rightarrow> bool" where
  "holds base x \<longleftrightarrow> lo x \<le> base \<and> base \<le> hi x"

text \<open>The distance to the first range above an address, at most \<open>lim\<close>.\<close>

fun clamp :: "u64 \<Rightarrow> rnode list \<Rightarrow> u64 \<Rightarrow> u64" where
  "clamp base [] lim = lim"
| "clamp base (x # xs) lim = (if base < lo x then min lim (lo x - base) else clamp base xs lim)"

lemma clamp_append:
  assumes "\<forall>x \<in> set xs. base < lo x \<longrightarrow> lo x \<le> lo n" "base < lo n"
  shows "clamp base (xs @ n # ys) lim = clamp base xs (min lim (lo n - base))"
  using assms(1)
proof (induction xs)
  case Nil
  then show ?case using assms(2) by simp
next
  case (Cons x xs)
  have "base < lo x \<Longrightarrow> lo x \<le> lo n" using Cons.prems by simp
  then have "base < lo x \<Longrightarrow> lo x - base \<le> lo n - base"
    by (simp add: word_le_minus_mono_left)
  then show ?case using Cons by (auto simp: min_def)
qed

lemma clamp_skip: "\<forall>x \<in> set xs. \<not> base < lo x \<Longrightarrow> clamp base (xs @ ys) lim = clamp base ys lim"
  by (induction xs) auto

fun rsize :: "rnode \<Rightarrow> u64" where "rsize (p, b, s) = s"

definition lookup_in :: "u64 \<Rightarrow> u64 \<Rightarrow> rnode list \<Rightarrow> range_tree_lookup_result" where
  "lookup_in base lim xs = (case find (holds base) xs of
     Some x \<Rightarrow> \<lparr>rl_node = addr x, rl_size = min lim (rsize x - (base - lo x))\<rparr>
   | None \<Rightarrow> \<lparr>rl_node = NULL, rl_size = clamp base xs lim\<rparr>)"

lemma find_app: "find P (xs @ ys) = (case find P xs of None \<Rightarrow> find P ys | Some x \<Rightarrow> Some x)"
  by (induction xs) auto

lemma find_none: "\<forall>x \<in> set xs. \<not> P x \<Longrightarrow> find P xs = None"
  by (simp add: find_None_iff)

lemma ranges_le: "ranges xs \<Longrightarrow> \<forall>x \<in> set xs. lo x \<le> hi x"
  by (simp add: ranges_def)

lemma rest_of_range:
  assumes "lo x \<le> base" "base \<le> hi x" "hi x < b"
  shows "rsize x - (base - lo x) \<le> b - base"
proof -
  obtain p c s where x: "x = (p, c, s)" by (metis prod_cases3)
  have "rsize x - (base - lo x) = (hi x + 1) - base" by (simp add: x)
  also have "\<dots> \<le> b - base"
  proof (rule word_le_minus_mono_left)
    have "unat (hi x + 1) = unat (hi x) + 1"
      using assms(3) unat_lt [of b] by (subst unat_add_no_overflow) (simp_all add: word_less_nat_alt)
    then show "hi x + 1 \<le> b" "base \<le> hi x + 1"
      using assms by (simp_all add: word_le_nat_alt word_less_nat_alt)
  qed
  finally show ?thesis .
qed

lemma lookup_left:
  assumes "ranges (xs @ n # ys)" "base < lo n"
  shows "lookup_in base (min lim (lo n - base)) xs = lookup_in base lim (xs @ n # ys)"
proof -
  have p: "\<forall>x \<in> set xs. hi x < lo n" "\<forall>y \<in> set ys. hi n < lo y" "lo n \<le> hi n" "\<forall>x \<in> set xs. lo x \<le> hi x"
    using assms(1) ranges_le [of xs] by simp_all
  have nys: "\<not> holds base y" if "y \<in> set (n # ys)" for y
  proof -
    have "lo n \<le> lo y" using that p(2,3) by (auto simp del: lo.simps hi.simps intro: order.trans less_imp_le)
    then have "\<not> lo y \<le> base" using assms(2) by order
    then show ?thesis by (simp add: holds_def del: lo.simps hi.simps)
  qed
  have find: "find (holds base) (xs @ n # ys) = find (holds base) xs"
    using find_none [of "n # ys" "holds base"] nys by (auto simp: find_app split: option.split)
  show ?thesis
  proof (cases "find (holds base) xs")
    case None
    have "clamp base (xs @ n # ys) lim = clamp base xs (min lim (lo n - base))"
    proof (rule clamp_append [OF _ assms(2)], intro ballI impI)
      fix x assume "x \<in> set xs"
      then have "lo x \<le> hi x" "hi x < lo n" using p(1,4) by blast+
      then show "lo x \<le> lo n" by order
    qed
    then show ?thesis using None find by (simp add: lookup_in_def)
  next
    case (Some x)
    then have x: "x \<in> set xs" "holds base x" by (auto simp: find_Some_iff)
    then have "rsize x - (base - lo x) \<le> lo n - base"
      using p(1) by (intro rest_of_range) (auto simp: holds_def)
    then show ?thesis using Some find by (auto simp: lookup_in_def min_def)
  qed
qed

lemma lookup_right:
  assumes "ranges (xs @ n # ys)" "hi n < base"
  shows "lookup_in base lim ys = lookup_in base lim (xs @ n # ys)"
proof -
  have p: "\<forall>x \<in> set xs. hi x < lo n" "lo n \<le> hi n" "\<forall>x \<in> set xs. lo x \<le> hi x"
    using assms(1) ranges_le [of xs] by simp_all
  have far: "lo x \<le> hi x \<and> hi x < base" if "x \<in> set (xs @ [n])" for x
    using that p assms(2) by (auto simp del: lo.simps hi.simps intro: order.strict_trans2)
  have "find (holds base) (xs @ [n]) = None"
  proof (rule find_none, rule ballI)
    fix x assume "x \<in> set (xs @ [n])"
    from far [OF this] have "\<not> base \<le> hi x" by (simp only: not_le)
    then show "\<not> holds base x" by (simp add: holds_def del: lo.simps hi.simps)
  qed
  then have "find (holds base) ((xs @ [n]) @ ys) = find (holds base) ys"
    unfolding find_app [of _ "xs @ [n]" ys] by simp
  moreover have "clamp base ((xs @ [n]) @ ys) lim = clamp base ys lim"
  proof (rule clamp_skip, rule ballI)
    fix x assume "x \<in> set (xs @ [n])"
    from far [OF this] have "lo x \<le> hi x" "hi x < base" by simp_all
    then show "\<not> base < lo x" by order
  qed
  ultimately show ?thesis by (auto simp: lookup_in_def split: option.split)
qed

lemma lookup_hit:
  assumes "ranges (xs @ n # ys)" "lo n \<le> base" "base \<le> hi n"
  shows "lookup_in base lim (xs @ n # ys) =
    \<lparr>rl_node = addr n, rl_size = min lim (rsize n - (base - lo n))\<rparr>"
proof -
  have "\<forall>x \<in> set xs. \<not> holds base x"
    using assms by (auto simp: holds_def simp del: lo.simps hi.simps)
  then show ?thesis
    using find_none [of xs "holds base"] assms(2,3) by (simp add: lookup_in_def find_app holds_def)
qed

lemma lookup_loop_refines:
  "tree_at t p T \<Longrightarrow> ranges (inorder T) \<Longrightarrow>
    range_tree_lookup_loop t base lim p = Some (lookup_in base lim (inorder T))"
proof (induction T arbitrary: p lim)
  case Lf
  then show ?case by (simp add: range_tree_lookup_loop.simps lookup_in_def)
next
  case (Nd l n b r)
  have at: "p = addr n" "addr n \<noteq> NULL" "key t (addr n) = extent n"
    "tree_at t (load t (LeftLink (addr n))) l" "tree_at t (load t (RightLink (addr n))) r"
    using Nd.prems(1) by auto
  have rg: "ranges (inorder l)" "ranges (inorder r)" "ranges (inorder l @ n # inorder r)"
    using Nd.prems(2) by auto
  have sz: "rn_size (rt_node t (addr n)) = rsize n" using at(3) by (cases n) (simp add: key_def)
  note run = range_tree_lookup_loop.simps [of t base lim "addr n"] at(1,2) key_extent [OF at(3)] sz
  consider "base < lo n" | "\<not> base < lo n" "base \<le> hi n" | "\<not> base < lo n" "\<not> base \<le> hi n" by blast
  then show ?case
  proof cases
    case 1
    then show ?thesis
      using Nd.IH(1) [OF at(4) rg(1), of "min lim (lo n - base)"] lookup_left [OF rg(3) 1, of lim]
      by (simp add: run)
  next
    case 2
    then show ?thesis using lookup_hit [OF rg(3), of base lim] by (simp add: run)
  next
    case 3
    then show ?thesis
      using Nd.IH(2) [OF at(5) rg(2), of lim] lookup_right [OF rg(3), of base lim] by (simp add: run)
  qed
qed

section \<open>Iteration and destruction\<close>

lemma next_subtree_node_refines:
  "tree_at t p T \<Longrightarrow> ranges (inorder T) \<Longrightarrow>
    range_tree_next_subtree_node t p start =
      Some (case find (\<lambda>x. start \<le> lo x) (inorder T) of None \<Rightarrow> NULL | Some x \<Rightarrow> addr x)"
proof (induction T arbitrary: p)
  case Lf
  then show ?case by (simp add: range_tree_next_subtree_node.simps)
next
  case (Nd l n b r)
  let ?P = "\<lambda>x. start \<le> lo x"
  have at: "p = addr n" "addr n \<noteq> NULL" "key t (addr n) = extent n"
    "tree_at t (load t (LeftLink (addr n))) l" "tree_at t (load t (RightLink (addr n))) r"
    using Nd.prems(1) by auto
  have rg: "ranges (inorder l)" "ranges (inorder r)" "\<forall>x \<in> set (inorder l). hi x < lo n"
    "\<forall>x \<in> set (inorder l). lo x \<le> hi x"
    using Nd.prems(2) ranges_le [of "inorder l"] by simp_all
  note run = range_tree_next_subtree_node.simps [of t "addr n" start] at(1,2) key_extent [OF at(3)]
    Nd.IH(1) [OF at(4) rg(1)] Nd.IH(2) [OF at(5) rg(2)]
  show ?case
  proof (cases "start > lo n")
    case True
    have "find ?P (inorder l) = None"
    proof (rule find_none, rule ballI)
      fix x assume "x \<in> set (inorder l)"
      then have "lo x \<le> hi x" "hi x < lo n" using rg(3,4) by blast+
      then show "\<not> start \<le> lo x" using True by order
    qed
    moreover have "\<not> start \<le> lo n" using True by order
    ultimately show ?thesis using True by (simp add: run find_app)
  next
    case False
    have "addr x \<noteq> NULL" if "find ?P (inorder l) = Some x" for x
      using that tree_at_key [OF at(4), of x] by (auto simp: find_Some_iff simp del: addr.simps)
    moreover have "start \<le> lo n" using False by order
    ultimately show ?thesis using False
      by (cases "find ?P (inorder l)") (simp_all add: run find_app del: addr.simps)
  qed
qed

fun postorder :: "rtree \<Rightarrow> rnode list" where
  "postorder Lf = []"
| "postorder (Nd l n b r) = postorder l @ postorder r @ [n]"

lemma postorder_mset: "mset (postorder T) = mset (inorder T)"
  by (induction T) auto

definition destroyed :: "(ptr \<Rightarrow> bool) \<Rightarrow> range_tree \<Rightarrow> rtree \<Rightarrow> (ptr list \<times> range_tree) option \<Rightarrow> bool" where
  "destroyed release t T r \<longleftrightarrow>
     (if \<forall>x \<in> set (inorder T). release (addr x)
      then \<exists>t'. r = Some (map addr (postorder T), t') \<and> rt_root t' = rt_root t \<and>
        key t' = key t \<and> (\<forall>l. \<not> loc_in l (ptrs T) \<longrightarrow> load t' l = load t l) \<and>
        (\<forall>q. balance t' q = balance t q)
      else r = None)"

lemma root_store [simp]: "rt_root (store t (LeftLink p) v) = rt_root t" "rt_root (store t (RightLink p) v) = rt_root t"
  by (simp_all add: store.simps)

text \<open>One of the two recursive calls of the destruction.\<close>

lemma destroy_child:
  assumes "tree_at t (load t l) T" "l = LeftLink p \<or> l = RightLink p" "p \<notin> ptrs T"
    and IH: "T \<noteq> Lf \<Longrightarrow> destroyed release (store t l NULL) T
      (range_tree_destroy_node release (load t l) (store t l NULL))"
  defines "r \<equiv> (if load t l \<noteq> NULL
    then range_tree_destroy_node release (load t l) (store t l NULL) else Some ([], t))"
  shows "if \<forall>x \<in> set (inorder T). release (addr x)
    then \<exists>t'. r = Some (map addr (postorder T), t') \<and> rt_root t' = rt_root t \<and>
      key t' = key t \<and> (\<forall>l'. l' \<noteq> l \<and> \<not> loc_in l' (ptrs T) \<longrightarrow> load t' l' = load t l') \<and>
      (\<forall>q. balance t' q = balance t q)
    else r = None"
proof (cases T)
  case Lf
  then show ?thesis using assms(1) by (simp add: r_def)
next
  case (Nd a n b c)
  have r: "r = range_tree_destroy_node release (load t l) (store t l NULL)"
    using assms(1) Nd by (auto simp: r_def)
  have "rt_root (store t l NULL) = rt_root t" using assms(2) by auto
  with IH Nd show ?thesis by (auto simp: destroyed_def r split: if_splits)
qed

lemma destroy_node_refines:
  "tree_at t p T \<Longrightarrow> sep T \<Longrightarrow> T \<noteq> Lf \<Longrightarrow> destroyed release t T (range_tree_destroy_node release p t)"
proof (induction T arbitrary: t p)
  case (Nd l n b r)
  let ?p = "addr n"
  have at: "p = ?p" "?p \<noteq> NULL" "tree_at t (load t (LeftLink ?p)) l" "tree_at t (load t (RightLink ?p)) r"
    and sp: "?p \<notin> ptrs l" "?p \<notin> ptrs r" "ptrs l \<inter> ptrs r = {}" "sep l" "sep r"
    using Nd.prems(1,2) by auto
  define c1 where "c1 = (if load t (LeftLink ?p) \<noteq> NULL
    then range_tree_destroy_node release (load t (LeftLink ?p)) (store t (LeftLink ?p) NULL) else Some ([], t))"
  have c1: "if \<forall>x \<in> set (inorder l). release (addr x)
    then \<exists>t'. c1 = Some (map addr (postorder l), t') \<and> rt_root t' = rt_root t \<and>
      key t' = key t \<and> (\<forall>l'. l' \<noteq> LeftLink ?p \<and> \<not> loc_in l' (ptrs l) \<longrightarrow> load t' l' = load t l') \<and>
      (\<forall>q. balance t' q = balance t q)
    else c1 = None"
    unfolding c1_def
    by (rule destroy_child [OF at(3) _ sp(1)])
      (use Nd.IH(1) [of "store t (LeftLink ?p) NULL"] at(3) sp in auto)
  note run = range_tree_destroy_node.simps [of release ?p t] at(1,2) c1_def [symmetric]
  show ?case
  proof (cases "\<forall>x \<in> set (inorder l). release (addr x)")
    case False
    then have "c1 = None" using c1 by simp
    then show ?thesis using False by (auto simp: destroyed_def run Let_def)
  next
    case True
    then obtain t1 where t1: "c1 = Some (map addr (postorder l), t1)" "rt_root t1 = rt_root t" "key t1 = key t"
      "\<forall>l'. l' \<noteq> LeftLink ?p \<and> \<not> loc_in l' (ptrs l) \<longrightarrow> load t1 l' = load t l'" "\<forall>q. balance t1 q = balance t q"
      using c1 by auto
    have "upd (ptrs l) (LeftLink ?p) t t1" using t1 by (auto simp: upd_def)
    then have r1: "tree_at t1 q r \<longleftrightarrow> tree_at t q r" for q
      by (rule upd_tree) (use sp in auto)
    have R: "load t1 (RightLink ?p) = load t (RightLink ?p)" using t1(4) sp(1) by auto
    define c2 where "c2 = (if load t1 (RightLink ?p) \<noteq> NULL
      then range_tree_destroy_node release (load t1 (RightLink ?p)) (store t1 (RightLink ?p) NULL) else Some ([], t1))"
    have c2: "if \<forall>x \<in> set (inorder r). release (addr x)
      then \<exists>t'. c2 = Some (map addr (postorder r), t') \<and> rt_root t' = rt_root t1 \<and>
        key t' = key t1 \<and> (\<forall>l'. l' \<noteq> RightLink ?p \<and> \<not> loc_in l' (ptrs r) \<longrightarrow> load t' l' = load t1 l') \<and>
        (\<forall>q. balance t' q = balance t1 q)
      else c2 = None"
      unfolding c2_def
      by (rule destroy_child [OF _ _ sp(2)])
        (use Nd.IH(2) [of "store t1 (RightLink ?p) NULL"] at(4) r1 R sp in auto)
    have run2: "range_tree_destroy_node release p t = Option.bind c2 (\<lambda>(rs, t).
        Option.bind (c_assert (release ?p)) (\<lambda>_. Some (map addr (postorder l) @ rs @ [?p], t)))"
      by (simp add: run t1(1) Let_def c2_def)
    show ?thesis
    proof (cases "(\<forall>x \<in> set (inorder r). release (addr x)) \<and> release ?p")
      case False
      then show ?thesis using c2 True by (auto simp: destroyed_def run2 c_assert_def split: if_splits)
    next
      case rel: True
      then obtain t2 where "c2 = Some (map addr (postorder r), t2)" "rt_root t2 = rt_root t1" "key t2 = key t1"
        "\<forall>l'. l' \<noteq> RightLink ?p \<and> \<not> loc_in l' (ptrs r) \<longrightarrow> load t2 l' = load t1 l'" "\<forall>q. balance t2 q = balance t1 q"
        using c2 by auto
      then show ?thesis using rel True t1 by (auto simp: destroyed_def run2)
    qed
  qed
qed simp

section \<open>A lookup that races with a rotation\<close>

text \<open>
  A lookup holds no lock. One iteration of its loop reads one node; between two iterations the
  writer may perform any number of the three stores of a rotation. \<open>lookup_race\<close> relates the pending
  stores of the writer, the tree and the position of the reader to the results the reader can return.
\<close>

definition range_tree_lookup_iter ::
    "range_tree \<Rightarrow> u64 \<Rightarrow> ptr \<times> u64 \<Rightarrow> range_tree_lookup_result + ptr \<times> u64" where
  "range_tree_lookup_iter t base = (\<lambda>(node, size_limit).
    (if node \<noteq> NULL then
       if base < rn_base (rt_node t node) then
         Inr (load t (LeftLink node), util_min size_limit (rn_base (rt_node t node) - base))
       else if base \<le> rn_last (rt_node t node) then
         Inl \<lparr>rl_node = node,
               rl_size = util_min size_limit
                 (rn_size (rt_node t node) - (base - rn_base (rt_node t node)))\<rparr>
       else Inr (load t (RightLink node), size_limit)
     else Inl \<lparr>rl_node = NULL, rl_size = size_limit\<rparr>))"

lemma lookup_loop_iter:
  "range_tree_lookup_loop t base lim p =
    (case range_tree_lookup_iter t base (p, lim) of
       Inl r \<Rightarrow> Some r | Inr (q, lim') \<Rightarrow> range_tree_lookup_loop t base lim' q)"
  by (subst range_tree_lookup_loop.simps) (simp add: range_tree_lookup_iter_def)

definition rotate_right_stores :: "rt_loc \<Rightarrow> ptr \<Rightarrow> ptr \<Rightarrow> range_tree \<Rightarrow> (rt_loc \<times> ptr) list" where
  "rotate_right_stores subtree root left t =
    [(RightLink left, root), (subtree, left), (LeftLink root, load t (RightLink left))]"

lemma rotate_right_stores: "fold (\<lambda>(l, v) t. store t l v) (rotate_right_stores l r x t) t =
    range_tree_rotate_right l r x t"
  by (simp add: rotate_right_stores_def range_tree_rotate_right_def Let_def)

inductive lookup_race ::
    "u64 \<Rightarrow> (rt_loc \<times> ptr) list \<Rightarrow> range_tree \<Rightarrow> ptr \<times> u64 \<Rightarrow> range_tree_lookup_result \<Rightarrow> bool" for base where
  wr: "lookup_race base ws (store t l v) s r \<Longrightarrow> lookup_race base ((l, v) # ws) t s r"
| rd: "range_tree_lookup_iter t base s = Inr s' \<Longrightarrow> lookup_race base ws t s' r \<Longrightarrow> lookup_race base ws t s r"
| hit: "range_tree_lookup_iter t base s = Inl r \<Longrightarrow> lookup_race base ws t s r"

lemma race_quiet:
  assumes "range_tree_lookup_loop t base lim p = Some r"
  shows "lookup_race base [] t (p, lim) r"
  using assms
proof (induction t base lim p r rule: range_tree_lookup_loop.raw_induct [rotated, consumes 1])
  case (1 f t base lim p r)
  note it = range_tree_lookup_iter_def
  consider "p = NULL" | "p \<noteq> NULL" "base < rn_base (rt_node t p)"
    | "p \<noteq> NULL" "\<not> base < rn_base (rt_node t p)" "base \<le> rn_last (rt_node t p)"
    | "p \<noteq> NULL" "\<not> base < rn_base (rt_node t p)" "\<not> base \<le> rn_last (rt_node t p)" by blast
  then show ?case
  proof cases
    case 2
    then have "lookup_race base [] t (load t (LeftLink p), util_min lim (rn_base (rt_node t p) - base)) r"
      using 1 by simp
    then show ?thesis by (rule rd [rotated]) (simp add: it 2)
  next
    case 4
    then have "lookup_race base [] t (load t (RightLink p), lim) r" using 1 by simp
    then show ?thesis by (rule rd [rotated]) (simp add: it 4)
  qed (use 1(2) in \<open>simp_all add: it hit\<close>)
qed

lemma race_writes:
  "lookup_race base [] (fold (\<lambda>(l, v) t. store t l v) ws t) s r \<Longrightarrow> lookup_race base ws t s r"
proof (induction ws arbitrary: t)
  case (Cons w ws)
  then show ?case by (cases w) (auto intro: wr)
qed simp

text \<open>
  A reader that has loaded the old root before the rotation and reads its left link after it misses
  the node that moved up.
\<close>

lemma race_misses:
  assumes at: "tree_at t (load t RootLink) (Nd (Nd a x bx c) n b d)" "sep (Nd (Nd a x bx c) n b d)"
    and rg: "ranges (inorder (Nd (Nd a x bx c) n b d))" and x: "holds base x"
  shows "\<exists>sz. lookup_race base (rotate_right_stores RootLink (addr n) (addr x) t) t
    (load t RootLink, lim) \<lparr>rl_node = NULL, rl_size = sz\<rparr>"
proof -
  let ?t' = "range_tree_rotate_right RootLink (addr n) (addr x) t"
  have "tree_at ?t' (load ?t' RootLink) (Nd a x bx (Nd c n b d))"
    using rotate_right_refines(1) [OF at] by simp
  then have n: "tree_at ?t' (addr n) (Nd c n b d)" by auto
  have r: "ranges (inorder (Nd c n b d))" using rg by simp
  have far: "\<not> holds base y" if "y \<in> set (inorder (Nd c n b d))" for y
  proof -
    have "hi x < lo y" "base \<le> hi x" using that rg x by (auto simp: holds_def simp del: lo.simps hi.simps)
    then have "\<not> lo y \<le> base" by order
    then show ?thesis by (simp add: holds_def del: lo.simps hi.simps)
  qed
  have "find (holds base) (inorder (Nd c n b d)) = None"
    by (rule find_none) (use far in blast)
  then have "range_tree_lookup_loop ?t' base lim (addr n) =
      Some \<lparr>rl_node = NULL, rl_size = clamp base (inorder (Nd c n b d)) lim\<rparr>"
    using lookup_loop_refines [OF n r] by (simp add: lookup_in_def del: inorder.simps)
  then have "lookup_race base [] ?t' (addr n, lim) \<lparr>rl_node = NULL, rl_size = clamp base (inorder (Nd c n b d)) lim\<rparr>"
    by (rule race_quiet)
  moreover have "load t RootLink = addr n" using at(1) by simp
  ultimately show ?thesis
    using race_writes [of base "rotate_right_stores RootLink (addr n) (addr x) t" t] by (auto simp: rotate_right_stores)
qed

end
