(* ===== verification/RangeTree_Index.thy ===== *)
theory RangeTree_Index
  imports RangeTree_Query
begin

text \<open>
  The contract of the range tree with its users, as a locale, and the proof that the AVL
  implementation meets it: which ranges an insertion accepts, what a removal removes, and what a
  lookup reports, over the set of the ranges that are in the tree.
\<close>

section \<open>The contract\<close>

datatype range_op = Insert_range ptr u64 u64 | Remove_range ptr

definition insert_spec :: "rnode set \<Rightarrow> rnode \<Rightarrow> error_t \<times> rnode set" where
  "insert_spec N x = (if hi x < lo x then (ERROR_ARGUMENT_SIZE, N)
     else if \<exists>n \<in> N. overlaps x n then (ERROR_BUSY, N) else (OK, insert x N))"

fun spec_step :: "rnode set \<Rightarrow> range_op \<Rightarrow> error_t \<times> rnode set" where
  "spec_step N (Insert_range p b s) = insert_spec N (p, b, s)"
| "spec_step N (Remove_range p) = (OK, {n \<in> N. addr n \<noteq> p})"

text \<open>A node is inserted only while it is in no tree, and removed only while it is in this one.\<close>

fun legal_op :: "rnode set \<Rightarrow> range_op \<Rightarrow> bool" where
  "legal_op N (Insert_range p b s) \<longleftrightarrow> p \<noteq> NULL \<and> p \<notin> addr ` N"
| "legal_op N (Remove_range p) \<longleftrightarrow> p \<in> addr ` N"

fun legal_ops :: "rnode set \<Rightarrow> range_op list \<Rightarrow> bool" where
  "legal_ops N [] = True"
| "legal_ops N (op # ops) \<longleftrightarrow> legal_op N op \<and> legal_ops (snd (spec_step N op)) ops"

fun spec_run :: "rnode set \<Rightarrow> range_op list \<Rightarrow> error_t list \<times> rnode set" where
  "spec_run N [] = ([], N)"
| "spec_run N (op # ops) = (let (e, N') = spec_step N op; (es, N'') = spec_run N' ops in (e # es, N''))"

text \<open>A user of an index: its operations, one after the other.\<close>

type_synonym 't insert_fn = "'t \<Rightarrow> ptr \<Rightarrow> u64 \<Rightarrow> u64 \<Rightarrow> (error_t \<times> 't) option"
type_synonym 't remove_fn = "'t \<Rightarrow> ptr \<Rightarrow> (error_t \<times> 't) option"

fun index_step :: "'t insert_fn \<Rightarrow> 't remove_fn \<Rightarrow> 't \<Rightarrow> range_op \<Rightarrow> (error_t \<times> 't) option" where
  "index_step put rm t (Insert_range p b s) = put t p b s"
| "index_step put rm t (Remove_range p) = rm t p"

fun index_run :: "'t insert_fn \<Rightarrow> 't remove_fn \<Rightarrow> 't \<Rightarrow> range_op list \<Rightarrow> (error_t list \<times> 't) option" where
  "index_run put rm t [] = Some ([], t)"
| "index_run put rm t (op # ops) =
     Option.bind (index_step put rm t op) (\<lambda>(e, t).
       map_option (\<lambda>(es, t). (e # es, t)) (index_run put rm t ops))"

locale range_index =
  fixes inv :: "'t \<Rightarrow> rnode set \<Rightarrow> bool"
    and put :: "'t insert_fn"
    and rm :: "'t remove_fn"
    and look :: "'t \<Rightarrow> u64 \<Rightarrow> u64 \<Rightarrow> range_tree_lookup_result option"
  assumes ins_law: "inv t N \<Longrightarrow> p \<noteq> NULL \<Longrightarrow> p \<notin> addr ` N \<Longrightarrow>
      \<exists>t'. put t p b s = Some (fst (insert_spec N (p, b, s)), t') \<and> inv t' (snd (insert_spec N (p, b, s)))"
    and rem_law: "inv t N \<Longrightarrow> n \<in> N \<Longrightarrow>
      \<exists>t'. rm t (addr n) = Some (OK, t') \<and> inv t' (N - {n})"
    and inv_addr: "inv t N \<Longrightarrow> inj_on addr N"
    and look_hit: "inv t N \<Longrightarrow> n \<in> N \<Longrightarrow> holds base n \<Longrightarrow> \<exists>sz. look t base m = Some \<lparr>rl_node = addr n, rl_size = sz\<rparr>"
    and look_miss: "inv t N \<Longrightarrow> \<forall>n \<in> N. \<not> holds base n \<Longrightarrow> \<exists>sz. look t base m = Some \<lparr>rl_node = NULL, rl_size = sz\<rparr>"
begin

lemma step_follows_spec:
  assumes "inv t N" "legal_op N op"
  shows "\<exists>t'. index_step put rm t op = Some (fst (spec_step N op), t') \<and> inv t' (snd (spec_step N op))"
proof (cases op)
  case (Insert_range p b s)
  then show ?thesis using ins_law [OF assms(1), of p b s] assms(2) by simp
next
  case (Remove_range p)
  then obtain n where n: "n \<in> N" "addr n = p" using assms(2) by auto
  have "{m \<in> N. addr m \<noteq> p} = N - {n}" using n inv_addr [OF assms(1)] by (auto dest: inj_onD)
  then show ?thesis using rem_law [OF assms(1) n(1)] n(2) Remove_range by simp
qed

lemma run_follows_spec:
  "inv t N \<Longrightarrow> legal_ops N ops \<Longrightarrow>
    \<exists>t'. index_run put rm t ops = Some (fst (spec_run N ops), t') \<and> inv t' (snd (spec_run N ops))"
proof (induction ops arbitrary: t N)
  case (Cons op ops)
  obtain t1 where t1: "index_step put rm t op = Some (fst (spec_step N op), t1)" "inv t1 (snd (spec_step N op))"
    using step_follows_spec Cons.prems by fastforce
  from Cons.IH [OF t1(2)] Cons.prems(2) obtain t2 where
    "index_run put rm t1 ops = Some (fst (spec_run (snd (spec_step N op)) ops), t2)"
    "inv t2 (snd (spec_run (snd (spec_step N op)) ops))" by auto
  then show ?case using t1(1) by (auto simp: Let_def split: prod.split)
qed simp

text \<open>After any legal sequence of updates a lookup finds exactly the ranges of the specification.\<close>

lemma lookup_after_run:
  assumes "inv t N" "legal_ops N ops"
  defines "N' \<equiv> snd (spec_run N ops)"
  shows "\<exists>t'. index_run put rm t ops = Some (fst (spec_run N ops), t') \<and> inv t' N' \<and>
    (\<forall>base m. \<exists>p sz. look t' base m = Some \<lparr>rl_node = p, rl_size = sz\<rparr> \<and>
      (\<forall>n \<in> N'. holds base n \<longrightarrow> p = addr n) \<and> ((\<forall>n \<in> N'. \<not> holds base n) \<longrightarrow> p = NULL))"
proof -
  obtain t' where t': "index_run put rm t ops = Some (fst (spec_run N ops), t')" "inv t' N'"
    using run_follows_spec [OF assms(1,2)] by (auto simp: N'_def)
  have "\<exists>p sz. look t' base m = Some \<lparr>rl_node = p, rl_size = sz\<rparr> \<and>
      (\<forall>n \<in> N'. holds base n \<longrightarrow> p = addr n) \<and> ((\<forall>n \<in> N'. \<not> holds base n) \<longrightarrow> p = NULL)" for base m
  proof (cases "\<exists>n \<in> N'. holds base n")
    case True
    then obtain n sz where n: "n \<in> N'" "holds base n" "look t' base m = Some \<lparr>rl_node = addr n, rl_size = sz\<rparr>"
      using look_hit [OF t'(2)] by blast
    have "addr n = addr k" if "k \<in> N'" "holds base k" for k
      using look_hit [OF t'(2) that, of m] n(3) by auto
    then have "\<forall>k \<in> N'. holds base k \<longrightarrow> addr n = addr k" by simp
    moreover have "(\<forall>k \<in> N'. \<not> holds base k) \<longrightarrow> addr n = NULL" using n(1,2) by fast
    ultimately show ?thesis using n(3) by (intro exI conjI)
  next
    case False
    then have none: "\<forall>n \<in> N'. \<not> holds base n" by blast
    then obtain sz where "look t' base m = Some \<lparr>rl_node = NULL, rl_size = sz\<rparr>"
      using look_miss [OF t'(2)] by blast
    then show ?thesis using none by (intro exI [of _ NULL] exI [of _ sz]) simp
  qed
  then show ?thesis using t' by blast
qed

end

section \<open>The AVL tree meets the contract\<close>

definition rt_inv :: "range_tree \<Rightarrow> rnode set \<Rightarrow> bool" where
  "rt_inv t N \<longleftrightarrow> (\<exists>T. tree_at t (load t RootLink) T \<and> sep T \<and> avl T \<and> ranges (inorder T) \<and>
     set (inorder T) = N)"

lemma no_overflow_iff: "util_add_overflows b (s - 1) \<longleftrightarrow> hi (p, b, s) < lo (p, b, s)"
proof -
  have h: "b + s - 1 = b + (s - 1)" by simp
  have "unat b < 2 ^ 64" "unat (s - 1) < 2 ^ 64" using unat_lt [of b] unat_lt [of "s - 1"] by simp_all
  then show ?thesis
    unfolding util_add_overflows_iff hi.simps lo.simps h word_less_nat_alt unat_word_ariths(1)
    by (cases "unat b + unat (s - 1) < 2 ^ 64") (simp_all add: mod_if, linarith)
qed

text \<open>Writing the fields of a node that is not in the tree does not affect the tree.\<close>

lemma tree_at_fresh:
  assumes "p \<notin> ptrs T"
  shows "tree_at (t\<lparr>rt_node := (rt_node t)(p := v)\<rparr>) q T \<longleftrightarrow> tree_at t q T"
  using assms
  by (induction T arbitrary: q) (auto simp: key_def load.simps)

lemma insert_inv:
  assumes inv: "rt_inv t N" and p: "p \<noteq> NULL" "p \<notin> addr ` N"
  shows "\<exists>t'. range_tree_insert t p b s = Some (fst (insert_spec N (p, b, s)), t') \<and>
    rt_inv t' (snd (insert_spec N (p, b, s)))"
proof -
  let ?x = "(p, b, s)"
  from inv obtain T where T: "tree_at t (load t RootLink) T" "sep T" "avl T" "ranges (inorder T)"
    "set (inorder T) = N" by (auto simp: rt_inv_def)
  show ?thesis
  proof (cases "hi ?x < lo ?x")
    case True
    then show ?thesis using inv no_overflow_iff [of b s p]
      by (simp add: range_tree_insert_def insert_spec_def del: hi.simps lo.simps)
  next
    case False
    then have le: "lo ?x \<le> hi ?x" by (simp only: not_less)
    define u where "u = t\<lparr>rt_node := (rt_node t)(p :=
      \<lparr>rn_base = b, rn_size = s, rn_left = NULL, rn_right = NULL, rn_balance = 0\<rparr>)\<rparr>"
    have fresh: "p \<notin> ptrs T" using p(2) T(5) by (auto simp: ptrs_inorder)
    have u: "tree_at u (load u RootLink) T"
      unfolding u_def tree_at_fresh [OF fresh] using T(1) by (simp add: load.simps)
    have "inserted u RootLink ?x T"
      by (rule insert_node_refines [OF u T(2,3)])
        (use p fresh in \<open>simp_all add: u_def key_def load.simps\<close>)
    then obtain t' where t': "range_tree_insert_node RootLink p u = Some (fst (ins ?x T), t')"
      "tree_at t' (load t' RootLink) (snd (ins ?x T))" "(\<exists>e. fst (ins ?x T) = Inl e) \<longrightarrow> t' = u"
      by (auto simp: inserted_def)
    have run: "range_tree_insert t p b s = Some (result_e (fst (ins ?x T)), t')"
      using False no_overflow_iff [of b s p] t'(1)
      by (simp add: range_tree_insert_def u_def [symmetric] del: hi.simps lo.simps)
    obtain r T' where ins: "ins ?x T = (r, T')" by force
    note sp = ins_inorder [OF T(3,4) le, unfolded ins]
    show ?thesis
    proof (cases r)
      case (Inl e)
      then have "e = ERROR_BUSY" "T' = T" "\<exists>n \<in> N. overlaps ?x n" using sp T(5) by auto
      then show ?thesis using run t'(2) False T(2-5) ins Inl
        by (auto simp: insert_spec_def rt_inv_def simp del: hi.simps lo.simps)
    next
      case (Inr i)
      then have no: "\<forall>n \<in> N. \<not> overlaps ?x n" and
        io: "inorder T' = filter (\<lambda>n. hi n < lo ?x) (inorder T) @ ?x # filter (\<lambda>n. hi ?x < lo n) (inorder T)"
        using sp T(5) by auto
      have N': "set (inorder T') = insert ?x N"
        unfolding io using no T(5) by (auto simp: overlaps_def not_le simp del: hi.simps lo.simps)
      have rg: "ranges (inorder T')"
        unfolding io using T(4) le
        by (auto simp: ranges_def sorted_wrt_append sorted_wrt_filter simp del: hi.simps lo.simps
            intro: order.strict_trans order.strict_trans2)
      have sepT: "sep T'" "avl T'"
        using ins_sep [OF T(3) _ T(2), of ?x i T'] ins_avl [OF T(3), of ?x i T'] ins Inr fresh by auto
      have "rt_inv t' (insert ?x N)" unfolding rt_inv_def
        using t'(2) sepT rg N' ins by auto
      moreover have "insert_spec N ?x = (OK, insert ?x N)" using False no
        by (simp add: insert_spec_def del: hi.simps lo.simps)
      ultimately show ?thesis using run ins Inr by simp
    qed
  qed
qed

lemma rt_inv_key: "rt_inv t N \<Longrightarrow> n \<in> N \<Longrightarrow> key t (addr n) = extent n \<and> addr n \<noteq> NULL"
  unfolding rt_inv_def using tree_at_key by blast

lemma rt_inv_addr: "rt_inv t N \<Longrightarrow> inj_on addr N"
  unfolding rt_inv_def by (auto simp: sep_distinct distinct_map)

lemma rt_inv_le: "rt_inv t N \<Longrightarrow> n \<in> N \<Longrightarrow> lo n \<le> hi n"
  unfolding rt_inv_def using ranges_le by blast

text \<open>Removal of a node with the range \<open>x\<close>, whether it is in the tree or not.\<close>

definition remove_spec :: "rnode set \<Rightarrow> rnode \<Rightarrow> error_t \<times> rnode set" where
  "remove_spec N x = (if x \<in> N then (OK, N - {x})
     else (if \<exists>n \<in> N. overlaps x n then ERROR_BUSY else ERROR_ADDR_INVALID, N))"

lemma remove_inv:
  assumes inv: "rt_inv t N" and x: "key t (addr x) = extent x" "lo x \<le> hi x"
  shows "\<exists>t'. range_tree_remove t (addr x) = Some (fst (remove_spec N x), t') \<and>
    rt_inv t' (snd (remove_spec N x)) \<and> (fst (remove_spec N x) \<noteq> OK \<longrightarrow> t' = t)"
proof -
  from inv obtain T where T: "tree_at t (load t RootLink) T" "sep T" "avl T" "ranges (inorder T)"
    "set (inorder T) = N" by (auto simp: rt_inv_def)
  have "removed t RootLink x T" by (rule remove_node_refines [OF T(1-3) _ x(1)]) simp
  then obtain t' where t': "range_tree_remove_node RootLink (addr x) t = Some (fst (del x T), t')"
    "tree_at t' (load t' RootLink) (snd (del x T))" "(\<exists>e. fst (del x T) = Inl e) \<longrightarrow> t' = t"
    by (auto simp: removed_def)
  have run: "range_tree_remove t (addr x) = Some (result_e (fst (del x T)), t')"
    using t'(1) by (simp add: range_tree_remove_def)
  have ok: "addrs_ok (inorder T) x"
    unfolding addrs_ok_def
  proof (intro ballI impI)
    fix n assume n: "n \<in> set (inorder T)" "addr n = addr x"
    then have "extent n = extent x" using tree_at_key [OF T(1) n(1)] x(1) by simp
    with n(2) show "n = x" by (cases n; cases x) simp
  qed
  obtain r T' where del: "del x T = (r, T')" by force
  note sp = del_spec [OF T(3,4) x(2) ok, unfolded del]
  show ?thesis
  proof (cases r)
    case (Inl e)
    then show ?thesis using sp run t'(2,3) del T(2-5) by (auto simp: remove_spec_def rt_inv_def)
  next
    case (Inr red)
    then have "x \<in> N" "shrunk T red T'" and io: "inorder T' = filter (\<lambda>n. n \<noteq> x) (inorder T)"
      using sp T(5) by auto
    then have "avl T'" by (simp add: shrunk_def)
    moreover have "sep T'" using del_sep [OF T(3) _ T(2)] del Inr by blast
    moreover have "ranges (inorder T')" unfolding io using T(4) by (simp add: ranges_def sorted_wrt_filter)
    moreover have "set (inorder T') = N - {x}" using T(5) by (auto simp: io)
    ultimately have "rt_inv t' (N - {x})" using t'(2) del by (auto simp: rt_inv_def)
    then show ?thesis using run del Inr \<open>x \<in> N\<close> by (simp add: remove_spec_def)
  qed
qed

lemma lookup_inv:
  assumes "rt_inv t N"
  shows "\<exists>xs. ranges xs \<and> set xs = N \<and> (\<forall>base m. range_tree_lookup t base m =
    Some (lookup_in base (util_min m (if base = 0 then - 1 else - base)) xs))"
proof -
  from assms obtain T where T: "tree_at t (load t RootLink) T" "ranges (inorder T)" "set (inorder T) = N"
    by (auto simp: rt_inv_def)
  show ?thesis
    by (intro exI [of _ "inorder T"])
      (simp add: T(2,3) range_tree_lookup_def lookup_loop_refines [OF T(1,2)])
qed

lemma find_holds:
  assumes "ranges xs" "n \<in> set xs" "holds base n"
  shows "find (holds base) xs = Some n"
proof -
  from assms(2) obtain ys zs where xs: "xs = ys @ n # zs" by (meson split_list)
  have "\<not> holds base y" if "y \<in> set ys" for y
  proof -
    have "hi y < lo n" using assms(1) that xs by auto
    moreover have "lo n \<le> base" using assms(3) by (simp add: holds_def)
    ultimately have "\<not> base \<le> hi y" by order
    then show ?thesis by (simp add: holds_def del: lo.simps hi.simps)
  qed
  then show ?thesis using assms(3) find_none [of ys "holds base"] by (simp add: xs find_app)
qed

interpretation rt: range_index rt_inv range_tree_insert range_tree_remove range_tree_lookup
proof
  fix t N n
  assume a: "rt_inv t N" "n \<in> N"
  then show "\<exists>t'. range_tree_remove t (addr n) = Some (OK, t') \<and> rt_inv t' (N - {n})"
    using remove_inv [OF a(1), of n] rt_inv_key [OF a] rt_inv_le [OF a] by (auto simp: remove_spec_def)
next
  fix t N n base m
  assume a: "rt_inv t N" "n \<in> N" "holds base n"
  from lookup_inv [OF a(1)] obtain xs where "ranges xs" "set xs = N" "\<forall>base m. range_tree_lookup t base m =
    Some (lookup_in base (util_min m (if base = 0 then - 1 else - base)) xs)" by blast
  then show "\<exists>sz. range_tree_lookup t base m = Some \<lparr>rl_node = addr n, rl_size = sz\<rparr>"
    using find_holds [of xs n base] a by (simp add: lookup_in_def)
next
  fix t N base m
  assume a: "rt_inv t N" "\<forall>n \<in> N. \<not> holds base n"
  from lookup_inv [OF a(1)] obtain xs where "ranges xs" "set xs = N" "\<forall>base m. range_tree_lookup t base m =
    Some (lookup_in base (util_min m (if base = 0 then - 1 else - base)) xs)" by blast
  then show "\<exists>sz. range_tree_lookup t base m = Some \<lparr>rl_node = NULL, rl_size = sz\<rparr>"
    using find_none [of xs "holds base"] a by (simp add: lookup_in_def)
qed (auto intro: insert_inv rt_inv_addr)

end
