(* ===== verification/RangeTree_Properties.thy ===== *)
theory RangeTree_Properties
  imports RangeTree_Index
begin

text \<open>
  What the range tree guarantees to the parts of the hypervisor that use it, and one property it
  does not have: a lookup without the lock can miss a range during a rotation.
\<close>

section \<open>Auxiliary facts\<close>

text \<open>
  The size a lookup reports for an address outside all ranges: no range begins in the reported gap,
  and the gap ends at a range, at the requested size or at the end of the address space.
\<close>

definition gap_size :: "rnode set \<Rightarrow> u64 \<Rightarrow> u64 \<Rightarrow> u64 \<Rightarrow> bool" where
  "gap_size N base m sz \<longleftrightarrow> sz \<le> m \<and> unat base + unat sz \<le> 2 ^ 64 \<and>
     (\<forall>n \<in> N. base < lo n \<longrightarrow> unat base + unat sz \<le> unat (lo n)) \<and>
     (sz = m \<or> unat sz = 2 ^ 64 - 1 \<or> unat base + unat sz = 2 ^ 64 \<or>
      (\<exists>n \<in> N. base < lo n \<and> unat base + unat sz = unat (lo n)))"

lemma clamp_gap:
  assumes "ranges xs"
  shows "clamp base xs lim \<le> lim \<and>
    (\<forall>n \<in> set xs. base < lo n \<longrightarrow> clamp base xs lim \<le> lo n - base) \<and>
    (clamp base xs lim = lim \<or> (\<exists>n \<in> set xs. base < lo n \<and> clamp base xs lim = lo n - base))"
  using assms
proof (induction xs)
  case (Cons x xs)
  show ?case
  proof (cases "base < lo x")
    case True
    have "lo x \<le> lo n" if "n \<in> set xs" for n
    proof -
      have "lo x \<le> hi x" "hi x < lo n" using Cons.prems that by simp_all
      then show ?thesis by order
    qed
    then have "lo x \<le> lo n" if "n \<in> set (x # xs)" for n using that by (cases "n = x") auto
    then have "lo x - base \<le> lo n - base" if "n \<in> set (x # xs)" for n
      using that True by (intro word_le_minus_mono_left) (simp_all add: less_imp_le del: lo.simps)
    then show ?thesis using True by (auto simp: min_def simp del: lo.simps hi.simps intro: order.trans)
  next
    case False
    then show ?thesis using Cons by (simp del: lo.simps hi.simps)
  qed
qed simp

lemma unat_gap: "base < b \<Longrightarrow> unat (b - base) = unat b - unat base" for b base :: u64
  by (simp add: unat_sub word_less_nat_alt word_le_nat_alt)

lemma unat_above: "base \<noteq> 0 \<Longrightarrow> unat (- base) = 2 ^ 64 - unat base" for base :: u64
  using unat_sub_if' [of 0 base] by (simp add: unat_eq_0)

lemma gap_size_clamp:
  assumes "ranges xs" "lim = util_min m (if base = 0 then - 1 else - base)"
  shows "gap_size (set xs) base m (clamp base xs lim)"
proof -
  let ?c = "clamp base xs lim"
  note c = clamp_gap [OF assms(1), of base lim]
  have above: "unat (if base = 0 then - 1 else - base) = (if base = 0 then 2 ^ 64 - 1 else 2 ^ 64 - unat base)"
    using unat_sub_if' [of 0 "1 :: u64"] by (simp add: unat_above)
  have lim: "lim \<le> m" "unat lim \<le> unat (if base = 0 then - 1 else - base)"
    "lim = m \<or> lim = (if base = 0 then - 1 else - base)"
    unfolding assms(2) word_le_nat_alt [symmetric] by (auto simp: min_def)
  have b: "unat base < 2 ^ 64" using unat_lt [of base] by simp
  have fits: "unat base + unat lim \<le> 2 ^ 64"
    using lim(2) b unfolding above by (cases "base = 0") auto
  have cl: "unat ?c \<le> unat lim" "?c \<le> lim" using c by (simp_all add: word_le_nat_alt)
  have near: "unat base + unat ?c \<le> unat (lo n)" if "n \<in> set xs" "base < lo n" for n
  proof -
    have "unat ?c \<le> unat (lo n) - unat base" using c that unat_gap [OF that(2)] by (auto simp: word_le_nat_alt)
    then show ?thesis using that(2) by (simp add: word_less_nat_alt)
  qed
  have "?c = m \<or> unat ?c = 2 ^ 64 - 1 \<or> unat base + unat ?c = 2 ^ 64 \<or>
      (\<exists>n \<in> set xs. base < lo n \<and> unat base + unat ?c = unat (lo n))"
  proof (cases "?c = lim")
    case True
    then show ?thesis using lim(3) above b by (cases "base = 0") auto
  next
    case False
    then obtain n where n: "n \<in> set xs" "base < lo n" "?c = lo n - base" using c by blast
    then have "unat base + unat ?c = unat (lo n)" using unat_gap [OF n(2)] by (simp add: word_less_nat_alt)
    then show ?thesis using n by blast
  qed
  then show ?thesis
    unfolding gap_size_def using cl lim(1) fits near by auto
qed

lemma rest_size:
  assumes "holds base n"
  shows "unat (rsize n - (base - lo n)) = (unat (hi n) + 1 - unat base) mod 2 ^ 64"
proof -
  obtain p c s where n: "n = (p, c, s)" by (metis prod_cases3)
  have le: "unat base \<le> unat (hi n)" using assms by (simp add: holds_def word_le_nat_alt)
  have h: "unat (hi n) < 2 ^ 64" using unat_lt [of "hi n"] by simp
  have "rsize n - (base - lo n) = (hi n - base) + 1" by (simp add: n)
  then have "unat (rsize n - (base - lo n)) = unat ((hi n - base) + 1)" by (simp only:)
  also have "\<dots> = (unat (hi n - base) + 1) mod 2 ^ 64" by (simp add: unat_word_ariths(1))
  also have "unat (hi n - base) = unat (hi n) - unat base"
    using le by (simp add: unat_sub word_le_nat_alt)
  finally show ?thesis using le by (simp add: Suc_diff_le)
qed

lemma rest_above:
  assumes "holds base n"
  shows "rsize n - (base - lo n) \<le> (if base = 0 then - 1 else - base)"
proof (cases "base = 0")
  case False
  have "unat (hi n) + 1 - unat base \<le> 2 ^ 64 - unat base" using unat_lt [of "hi n"] by simp
  then have "(unat (hi n) + 1 - unat base) mod 2 ^ 64 \<le> 2 ^ 64 - unat base"
    using mod_less_eq_dividend order.trans by blast
  then show ?thesis using False rest_size [OF assms] unat_above [OF False] by (simp add: word_le_nat_alt)
qed simp

lemma unat_min: "unat (min a b) = min (unat a) (unat b)" for a b :: u64
  by (simp add: min_def word_le_nat_alt)

text \<open>The number of iterations of a lookup is bounded by the height of the tree.\<close>

fun lookup_within :: "nat \<Rightarrow> range_tree \<Rightarrow> u64 \<Rightarrow> ptr \<times> u64 \<Rightarrow> range_tree_lookup_result option" where
  "lookup_within 0 t base s = None"
| "lookup_within (Suc k) t base s = (case range_tree_lookup_iter t base s of
     Inl r \<Rightarrow> Some r | Inr s' \<Rightarrow> lookup_within k t base s')"

lemma lookup_within_height:
  "tree_at t p T \<Longrightarrow> nat (height T) < f \<Longrightarrow>
    lookup_within f t base (p, lim) = range_tree_lookup_loop t base lim p"
proof (induction T arbitrary: p f lim)
  case Lf
  then obtain k where "f = Suc k" by (cases f) auto
  then show ?case using Lf by (simp add: lookup_loop_iter [of t base lim NULL] range_tree_lookup_iter_def)
next
  case (Nd l n b r)
  then obtain k where k: "f = Suc k" "nat (height l) < k" "nat (height r) < k"
    using height_nonneg [of l] height_nonneg [of r] by (cases f) auto
  have at: "p = addr n" "tree_at t (load t (LeftLink (addr n))) l" "tree_at t (load t (RightLink (addr n))) r"
    "addr n \<noteq> NULL"
    using Nd.prems(1) by auto
  show ?case
    unfolding k(1) lookup_loop_iter [of t base lim p]
    by (auto simp: range_tree_lookup_iter_def at(1,4) Nd.IH(1) [OF at(2) k(2)] Nd.IH(2) [OF at(3) k(3)])
qed

lemma avl_size: "avl T \<Longrightarrow> 2 ^ (nat (height T) div 2) \<le> length (inorder T) + 1"
proof (induction T)
  case (Nd l n b r)
  let ?h = "nat (height (Nd l n b r))"
  let ?x = "nat (height l)" and ?y = "nat (height r)"
  have h: "?h = max ?x ?y + 1" "?x \<le> ?y + 1" "?y \<le> ?x + 1"
    using Nd.prems height_nonneg [of l] height_nonneg [of r] by auto
  have "(2::nat) ^ (?h div 2) \<le> 2 ^ (?x div 2) + 2 ^ (?y div 2)"
  proof -
    let ?m = "min ?x ?y"
    have "?h \<le> ?m + 2" using h by (simp add: min_def max_def)
    then have "?h div 2 \<le> Suc (?m div 2)" by linarith
    then have "(2::nat) ^ (?h div 2) \<le> 2 ^ Suc (?m div 2)" by (intro power_increasing) auto
    also have "\<dots> = 2 ^ (?m div 2) + 2 ^ (?m div 2)" by simp
    also have "\<dots> \<le> 2 ^ (?x div 2) + 2 ^ (?y div 2)"
      by (intro add_mono power_increasing div_le_mono) auto
    finally show ?thesis .
  qed
  also have "\<dots> \<le> length (inorder (Nd l n b r)) + 1" using Nd by auto
  finally show ?case .
qed simp

text \<open>Iteration visits the rest of the list of nodes.\<close>

lemma next_after:
  assumes "ranges (ys @ n # zs)" "\<not> util_add_overflows (lo n) 1"
  shows "find (\<lambda>x. lo n + 1 \<le> lo x) (ys @ n # zs) = (case zs of [] \<Rightarrow> None | z # _ \<Rightarrow> Some z)"
proof -
  have s: "unat (lo n + 1) = unat (lo n) + 1"
    using assms(2) by (subst unat_add_no_overflow) (simp_all add: util_add_overflows_iff)
  have "\<not> lo n + 1 \<le> lo y" if "y \<in> set (ys @ [n])" for y
  proof -
    have "y = n \<or> lo y \<le> hi y \<and> hi y < lo n" using that assms(1) ranges_le [OF assms(1)] by auto
    then have "unat (lo y) \<le> unat (lo n)" by (auto simp: word_le_nat_alt word_less_nat_alt)
    then show ?thesis using s by (simp add: word_le_nat_alt)
  qed
  then have "find (\<lambda>x. lo n + 1 \<le> lo x) (ys @ [n]) = None" by (intro find_none) blast
  then have "find (\<lambda>x. lo n + 1 \<le> lo x) ((ys @ [n]) @ zs) = find (\<lambda>x. lo n + 1 \<le> lo x) zs"
    unfolding find_app [of _ "ys @ [n]" zs] by simp
  moreover have "lo n + 1 \<le> lo z" if "z \<in> set zs" for z
  proof -
    have "unat (lo n) \<le> unat (hi n)" "unat (hi n) < unat (lo z)"
      using that assms(1) by (simp_all add: word_le_nat_alt word_less_nat_alt)
    then show ?thesis using s by (simp add: word_le_nat_alt)
  qed
  ultimately show ?thesis by (cases zs) auto
qed

lemma last_at_end:
  assumes "ranges (ys @ n # zs)" "util_add_overflows (lo n) 1"
  shows "zs = []"
proof (rule ccontr)
  assume "zs \<noteq> []"
  then obtain z where "z \<in> set zs" by (cases zs) auto
  then have "lo n \<le> hi n" "hi n < lo z" using assms(1) by simp_all
  then have "unat (lo n) < unat (lo z)" by (simp add: word_le_nat_alt word_less_nat_alt)
  then show False using assms(2) unat_lt [of "lo z"] by (simp add: util_add_overflows_iff)
qed

lemma foreach_from_list:
  assumes T: "tree_at t (load t RootLink) T" "ranges (inorder T)" and xs: "inorder T = ys @ zs"
  shows "range_tree_foreach_from t (case zs of [] \<Rightarrow> NULL | z # _ \<Rightarrow> addr z) = Some (map addr zs)"
  using xs
proof (induction zs arbitrary: ys)
  case Nil
  then show ?case by (simp add: range_tree_foreach_from.simps)
next
  case (Cons n zs)
  have n: "key t (addr n) = extent n" "addr n \<noteq> NULL"
    using tree_at_key [OF T(1), of n] Cons.prems by auto
  have rg: "ranges (ys @ n # zs)" using T(2) Cons.prems by simp
  have IH: "range_tree_foreach_from t (case zs of [] \<Rightarrow> NULL | z # _ \<Rightarrow> addr z) = Some (map addr zs)"
    using Cons.IH [of "ys @ [n]"] Cons.prems by simp
  have nx: "(if util_add_overflows (lo n) 1 then Some NULL else range_tree_next_node t (lo n + 1)) =
      Some (case zs of [] \<Rightarrow> NULL | z # _ \<Rightarrow> addr z)"
    using last_at_end [OF rg] next_after [OF rg] next_subtree_node_refines [OF T, of "lo n + 1"] Cons.prems
    by (cases zs) (auto simp: range_tree_next_node_def)
  have "range_tree_foreach_from t (addr n) =
      Option.bind (if util_add_overflows (lo n) 1 then Some NULL else range_tree_next_node t (lo n + 1))
        (\<lambda>next. Option.bind (range_tree_foreach_from t next) (\<lambda>ns. Some (addr n # ns)))"
    using n(2) key_extent(1) [OF n(1)]
    by (subst range_tree_foreach_from.simps) (simp only: not_False_eq_True if_True simp_thms)
  then show ?case unfolding nx using IH by simp
qed

section \<open>Example trees for the witnesses\<close>

definition tree_of :: "ptr \<Rightarrow> (ptr \<times> range_tree_node) list \<Rightarrow> range_tree" where
  "tree_of r ns = \<lparr>rt_root = r, rt_node = (\<lambda>p. case map_of ns p of Some n \<Rightarrow> n
     | None \<Rightarrow> \<lparr>rn_base = 0, rn_size = 0, rn_left = 0, rn_right = 0, rn_balance = 0\<rparr>)\<rparr>"

text \<open>Two ranges: \<open>0x1000\<close> to \<open>0x1fff\<close> in node 16, below node 32 with \<open>0x3000\<close> to \<open>0x3fff\<close>.\<close>

definition two_ranges :: range_tree where
  "two_ranges = tree_of 32
     [(16, \<lparr>rn_base = 0x1000, rn_size = 0x1000, rn_left = 0, rn_right = 0, rn_balance = 0\<rparr>),
      (32, \<lparr>rn_base = 0x3000, rn_size = 0x1000, rn_left = 16, rn_right = 0, rn_balance = 1\<rparr>)]"

abbreviation two_set :: "rnode set" where
  "two_set \<equiv> {(16, 0x1000, 0x1000), (32, 0x3000, 0x1000)}"

abbreviation two_tree :: rtree where
  "two_tree \<equiv> Nd (Nd Lf (16, 0x1000, 0x1000) 0 Lf) (32, 0x3000, 0x1000) 1 Lf"

lemma two_ranges_at: "tree_at two_ranges (load two_ranges RootLink) two_tree"
  by (simp add: two_ranges_def tree_of_def load.simps key_def)

lemma two_ranges_inv: "rt_inv two_ranges two_set"
  unfolding rt_inv_def using two_ranges_at by (intro exI [of _ two_tree]) simp

section \<open>Properties\<close>

text \<open>
  C19. Whatever sequence of insertions and removals its users perform, the tree answers each call as
  the set of ranges would: the calls return, an insertion is accepted exactly if the range does not
  wrap and overlaps no range of the tree, the tree stays a balanced search tree, and a lookup finds
  the node of the range that contains an address, or no node if there is no such range.
\<close>

theorem range_tree_client_exact:
  assumes "rt_inv t N" "legal_ops N ops"
  shows "\<exists>t'. index_run range_tree_insert range_tree_remove t ops = Some (fst (spec_run N ops), t') \<and>
    rt_inv t' (snd (spec_run N ops)) \<and>
    (\<forall>base m. \<exists>p sz. range_tree_lookup t' base m = Some \<lparr>rl_node = p, rl_size = sz\<rparr> \<and>
      (\<forall>n \<in> snd (spec_run N ops). holds base n \<longrightarrow> p = addr n) \<and>
      ((\<forall>n \<in> snd (spec_run N ops). \<not> holds base n) \<longrightarrow> p = NULL))"
  using assms by (rule rt.lookup_after_run)

theorem range_tree_client_exact_witness:
  "\<exists>t'. index_run range_tree_insert range_tree_remove two_ranges
      [Insert_range 48 0x2000 0x1000, Insert_range 64 0x2800 0x100, Remove_range 32] =
      Some ([OK, ERROR_BUSY, OK], t') \<and>
    rt_inv t' {(48, 0x2000, 0x1000), (16, 0x1000, 0x1000)}"
proof -
  let ?ops = "[Insert_range 48 0x2000 0x1000, Insert_range 64 0x2800 0x100, Remove_range 32]"
  have 1: "insert_spec two_set (48, 0x2000, 0x1000) = (OK, insert (48, 0x2000, 0x1000) two_set)"
    by (simp add: insert_spec_def overlaps_def)
  have 2: "insert_spec (insert (48, 0x2000, 0x1000) two_set) (64, 0x2800, 0x100) =
      (ERROR_BUSY, insert (48, 0x2000, 0x1000) two_set)"
    by (simp add: insert_spec_def overlaps_def)
  have 3: "{n \<in> insert (48, 0x2000, 0x1000) two_set. addr n \<noteq> 32} = {(48, 0x2000, 0x1000), (16, 0x1000, 0x1000)}"
    by auto
  have run: "spec_run two_set ?ops = ([OK, ERROR_BUSY, OK], {(48, 0x2000, 0x1000), (16, 0x1000, 0x1000)})"
    by (simp only: spec_run.simps spec_step.simps 1 2 3 Let_def prod.case)
  have "legal_ops two_set ?ops" by (simp add: 1 2)
  from range_tree_client_exact [OF two_ranges_inv this] show ?thesis unfolding run by auto
qed

text \<open>
  Inserting a node that is in no tree: a range that wraps is refused as too large, a range that
  overlaps one of the tree is refused as busy, and otherwise the range is added and nothing else
  changes.
\<close>

theorem range_tree_insert_exact:
  assumes "rt_inv t N" "p \<noteq> NULL" "p \<notin> addr ` N"
  shows "\<exists>e t'. range_tree_insert t p base sz = Some (e, t') \<and>
    (if util_add_overflows base (sz - 1) then e = ERROR_ARGUMENT_SIZE \<and> rt_inv t' N
     else if \<exists>n \<in> N. overlaps (p, base, sz) n then e = ERROR_BUSY \<and> rt_inv t' N
     else e = OK \<and> rt_inv t' (insert (p, base, sz) N))"
  using insert_inv [OF assms, of base sz] no_overflow_iff [of base sz p]
  by (auto simp: insert_spec_def simp del: hi.simps lo.simps split: if_splits)

theorem range_tree_insert_exact_witness:
  "\<exists>t'. range_tree_insert two_ranges 48 0x2000 0x1000 = Some (OK, t') \<and>
    rt_inv t' (insert (48, 0x2000, 0x1000) two_set)"
  using range_tree_insert_exact [OF two_ranges_inv, of 48 "0x2000" "0x1000"]
  by (simp add: overlaps_def util_add_overflows_def)

text \<open>
  C20. Removing a node: a node of the tree is removed; a node that is not in the tree is refused, as
  busy if another node covers part of its range and as an invalid address otherwise, and the tree is
  left as it was.
\<close>

theorem range_tree_remove_exact:
  assumes "rt_inv t N" "x = (p, rn_base (rt_node t p), rn_size (rt_node t p))" "lo x \<le> hi x"
  shows "\<exists>e t'. range_tree_remove t p = Some (e, t') \<and>
    (if x \<in> N then e = OK \<and> rt_inv t' (N - {x})
     else t' = t \<and> e = (if \<exists>n \<in> N. overlaps x n then ERROR_BUSY else ERROR_ADDR_INVALID))"
proof -
  have k: "key t (addr x) = extent x" and p: "addr x = p" by (simp_all add: assms(2) key_def)
  show ?thesis
    using remove_inv [OF assms(1) k assms(3), unfolded p] by (auto simp: remove_spec_def split: if_splits)
qed

theorem range_tree_remove_exact_witness:
  "\<exists>t'. range_tree_remove two_ranges 32 = Some (OK, t') \<and> rt_inv t' {(16, 0x1000, 0x1000)}"
proof -
  have "two_set - {(32, 0x3000, 0x1000)} = {(16, 0x1000, 0x1000)}" by auto
  then show ?thesis
    using range_tree_remove_exact [OF two_ranges_inv, of "(32, 0x3000, 0x1000)" 32]
    by (simp add: two_ranges_def tree_of_def)
qed

text \<open>
  C21. A lookup returns the node of the range that contains the address, with the number of bytes from
  the address to the end of that range, capped at the requested size; outside all ranges it returns
  no node and the size of the gap up to the next range, with the same cap. (For a range that covers
  the whole address space, looked up at address 0, the size wraps to 0.)
\<close>

theorem range_tree_lookup_exact:
  assumes "rt_inv t N"
  shows "\<exists>r. range_tree_lookup t base m = Some r \<and>
    (\<forall>n \<in> N. holds base n \<longrightarrow> rl_node r = addr n \<and>
       unat (rl_size r) = min (unat m) ((unat (hi n) + 1 - unat base) mod 2 ^ 64)) \<and>
    ((\<forall>n \<in> N. \<not> holds base n) \<longrightarrow> rl_node r = NULL \<and> gap_size N base m (rl_size r))"
proof -
  let ?lim = "util_min m (if base = 0 then - 1 else - base)"
  obtain xs where xs: "ranges xs" "set xs = N" "range_tree_lookup t base m = Some (lookup_in base ?lim xs)"
    using lookup_inv [OF assms] by blast
  have hit: "rl_node (lookup_in base ?lim xs) = addr n \<and>
      unat (rl_size (lookup_in base ?lim xs)) = min (unat m) ((unat (hi n) + 1 - unat base) mod 2 ^ 64)"
    if "n \<in> N" "holds base n" for n
  proof -
    have "find (holds base) xs = Some n" using find_holds [OF xs(1)] that xs(2) by simp
    then have "lookup_in base ?lim xs = \<lparr>rl_node = addr n, rl_size = min ?lim (rsize n - (base - lo n))\<rparr>"
      by (simp add: lookup_in_def)
    moreover have "min ?lim (rsize n - (base - lo n)) = min m (rsize n - (base - lo n))"
      using rest_above [OF that(2)] by (auto simp: min_def)
    ultimately show ?thesis using rest_size [OF that(2)] by (simp add: unat_min)
  qed
  have "rl_node (lookup_in base ?lim xs) = NULL \<and> gap_size N base m (rl_size (lookup_in base ?lim xs))"
    if "\<forall>n \<in> N. \<not> holds base n"
    using that find_none [of xs "holds base"] gap_size_clamp [OF xs(1) refl, of base m] xs(2)
    by (simp add: lookup_in_def)
  then show ?thesis using xs(3) hit by auto
qed

theorem range_tree_lookup_exact_witness:
  "\<exists>r. range_tree_lookup two_ranges 0x1100 0x2000 = Some r \<and> rl_node r = 16 \<and> unat (rl_size r) = 0xf00"
  using range_tree_lookup_exact [OF two_ranges_inv, of "0x1100" "0x2000"]
  by (auto simp: holds_def)

text \<open>
  C22. A lookup in a tree of fewer than \<open>2\<^sup>k\<close> ranges ends after at most \<open>2 k + 2\<close> iterations.
\<close>

theorem range_tree_lookup_bounded:
  assumes "rt_inv t N" "card N < 2 ^ k"
  shows "lookup_within (2 * k + 2) t base (load t RootLink, size_limit) =
      range_tree_lookup_loop t base size_limit (load t RootLink) \<and>
    range_tree_lookup_loop t base size_limit (load t RootLink) \<noteq> None"
proof -
  from assms(1) obtain T where T: "tree_at t (load t RootLink) T" "sep T" "avl T" "ranges (inorder T)"
    "set (inorder T) = N" by (auto simp: rt_inv_def)
  have "length (inorder T) = card N"
    using T(2,5) distinct_card [of "inorder T"] by (auto simp: sep_distinct distinct_map)
  then have "(2::nat) ^ (nat (height T) div 2) < 2 ^ Suc k"
    using avl_size [OF T(3)] assms(2) by simp
  then have "nat (height T) div 2 < Suc k" by (simp only: power_strict_increasing_iff)
  then have "nat (height T) < 2 * k + 2" by linarith
  from lookup_within_height [OF T(1) this] lookup_loop_refines [OF T(1,4)] show ?thesis by simp
qed

theorem range_tree_lookup_bounded_witness:
  "lookup_within 6 two_ranges 0x1100 (load two_ranges RootLink, 1) =
      range_tree_lookup_loop two_ranges 0x1100 1 (load two_ranges RootLink) \<and>
    range_tree_lookup_loop two_ranges 0x1100 1 (load two_ranges RootLink) \<noteq> None"
  using range_tree_lookup_bounded [OF two_ranges_inv, of 2] by simp

text \<open>
  C23. The iteration over a tree ends and visits every node exactly once, in ascending order of the
  ranges.
\<close>

theorem range_tree_foreach_exact:
  assumes "rt_inv t N"
  shows "\<exists>xs. range_tree_foreach t = Some (map addr xs) \<and> set xs = N \<and> distinct (map addr xs) \<and>
    sorted_wrt (\<lambda>x y. hi x < lo y) xs"
proof -
  from assms obtain T where T: "tree_at t (load t RootLink) T" "sep T" "ranges (inorder T)"
    "set (inorder T) = N" by (auto simp: rt_inv_def)
  have "find (\<lambda>x. 0 \<le> lo x) (inorder T) = (case inorder T of [] \<Rightarrow> None | z # _ \<Rightarrow> Some z)"
    by (cases "inorder T") auto
  then have "range_tree_next_node t 0 = Some (case inorder T of [] \<Rightarrow> NULL | z # _ \<Rightarrow> addr z)"
    using next_subtree_node_refines [OF T(1,3), of 0]
    by (auto simp: range_tree_next_node_def split: list.split)
  then have "range_tree_foreach t = Some (map addr (inorder T))"
    using foreach_from_list [OF T(1,3), of "[]"] by (simp add: range_tree_foreach_def)
  moreover have "sorted_wrt (\<lambda>x y. hi x < lo y) (inorder T)" using T(3) by (simp add: ranges_def)
  ultimately show ?thesis using T(2,4) sep_distinct [of T] by blast
qed

theorem range_tree_foreach_exact_witness:
  "\<exists>xs. range_tree_foreach two_ranges = Some (map addr xs) \<and> set xs = two_set"
  using range_tree_foreach_exact [OF two_ranges_inv] by blast

text \<open>
  Destroying a tree releases every node exactly once if the owners' handlers accept the nodes,
  and stops with a panic if one of them refuses.
\<close>

theorem range_tree_destroy_exact:
  assumes "rt_inv t N"
  shows "if \<forall>n \<in> N. release (addr n)
    then \<exists>ps t'. range_tree_destroy release t = Some (ps, t') \<and> distinct ps \<and> set ps = addr ` N
    else range_tree_destroy release t = None"
proof -
  from assms obtain T where T: "tree_at t (load t RootLink) T" "sep T" "set (inorder T) = N"
    by (auto simp: rt_inv_def)
  have post: "distinct (map addr (postorder T))" "set (postorder T) = N"
    using T(2,3) postorder_mset [of T] mset_eq_imp_distinct_iff [of "map addr (postorder T)" "map addr (inorder T)"]
      mset_eq_setD [OF postorder_mset]
    by (auto simp: sep_distinct)
  show ?thesis
  proof (cases "T = Lf")
    case True
    then show ?thesis using T by (simp add: range_tree_destroy_def)
  next
    case False
    then have "range_tree_destroy release t = range_tree_destroy_node release (load t RootLink) t"
      using tree_at_NULL [OF T(1)] by (simp add: range_tree_destroy_def)
    then show ?thesis using destroy_node_refines [OF T(1,2) False, of release] T(3) post
      by (auto simp: destroyed_def)
  qed
qed

theorem range_tree_destroy_exact_witness:
  "\<exists>ps t'. range_tree_destroy (\<lambda>_. True) two_ranges = Some (ps, t') \<and> distinct ps \<and> set ps = {16, 32}"
  using range_tree_destroy_exact [OF two_ranges_inv, of "\<lambda>_. True"] by simp

text \<open>
  C24. A lookup that runs while a rotation moves the left child of the root up can return no node for
  an address that a range of the tree contains throughout: the reader loads the old root before the
  rotation and the left link of that node after it.
\<close>

theorem range_tree_rotation_hides:
  assumes "tree_at t (load t RootLink) (Nd (Nd a x bx c) n b d)" "sep (Nd (Nd a x bx c) n b d)"
    "ranges (inorder (Nd (Nd a x bx c) n b d))" "holds base x"
  defines "ws \<equiv> rotate_right_stores RootLink (addr n) (addr x) t"
    and "t' \<equiv> range_tree_rotate_right RootLink (addr n) (addr x) t"
  shows "(\<exists>sz. lookup_race base ws t (load t RootLink, lim) \<lparr>rl_node = NULL, rl_size = sz\<rparr>) \<and>
    (\<exists>sz. range_tree_lookup_loop t base lim (load t RootLink) = Some \<lparr>rl_node = addr x, rl_size = sz\<rparr>) \<and>
    (\<exists>sz. range_tree_lookup_loop t' base lim (load t' RootLink) = Some \<lparr>rl_node = addr x, rl_size = sz\<rparr>)"
proof -
  have t': "tree_at t' (load t' RootLink) (Nd a x bx (Nd c n b d))"
    using rotate_right_refines(1) [OF assms(1,2)] by (simp add: t'_def)
  have i: "inorder (Nd a x bx (Nd c n b d)) = inorder (Nd (Nd a x bx c) n b d)" by simp
  have "find (holds base) (inorder (Nd (Nd a x bx c) n b d)) = Some x"
    using find_holds [OF assms(3) _ assms(4)] by simp
  then show ?thesis
    using race_misses [OF assms(1-4), of lim] lookup_loop_refines [OF assms(1,3)]
      lookup_loop_refines [OF t', unfolded i, OF assms(3)]
    by (simp add: ws_def lookup_in_def del: inorder.simps)
qed

theorem range_tree_rotation_hides_witness:
  "\<exists>sz. lookup_race 0x1100 (rotate_right_stores RootLink 32 16 two_ranges) two_ranges
    (load two_ranges RootLink, 1) \<lparr>rl_node = NULL, rl_size = sz\<rparr>"
  using range_tree_rotation_hides [OF two_ranges_at, of "0x1100" 1] by (simp add: holds_def)

end

