(* ===== verification/Bitmap.thy ===== *)
theory Bitmap
  imports Gunyah_Prelude
begin

text \<open>
  The bitmaps of \<^verbatim>\<open>hyp/core/util/src/bitmap.c\<close> and the iteration macros of
  \<^verbatim>\<open>hyp/interfaces/util/include/bitmap.h\<close>, over an array of 64-bit words.

  A bitmap is the list of its words; the size assertions compare against its length. Bit indices are
  natural numbers: the C type has 32 bits, and bitmaps of close to \<open>2\<^sup>3\<^sup>2\<close> bits do not exist. The
  atomic variants work on one word at a time; scans over several words are modelled on one snapshot.
\<close>

section \<open>Model\<close>

type_synonym bitmap = "u64 list"

abbreviation BITMAP_WORD_BITS :: nat where "BITMAP_WORD_BITS \<equiv> 64"

definition BITMAP_NUM_WORDS :: "nat \<Rightarrow> nat" where
  "BITMAP_NUM_WORDS x = (x + BITMAP_WORD_BITS - 1) div BITMAP_WORD_BITS"

definition BITMAP_SET_BIT :: "nat \<Rightarrow> u64" where
  "BITMAP_SET_BIT x = push_bit (x mod BITMAP_WORD_BITS) 1"

definition BITMAP_WORD :: "nat \<Rightarrow> nat" where
  "BITMAP_WORD x = x div BITMAP_WORD_BITS"

definition BITMAP_SIZE_ASSERT :: "bitmap \<Rightarrow> nat \<Rightarrow> unit option" where
  "BITMAP_SIZE_ASSERT bm b = c_assert (length bm > BITMAP_WORD b)"

definition bitmap_isset :: "bitmap \<Rightarrow> nat \<Rightarrow> bool option" where
  "bitmap_isset bm b = do {
     BITMAP_SIZE_ASSERT bm b;
     let i = BITMAP_WORD b;
     Some ((bm ! i) AND BITMAP_SET_BIT b \<noteq> 0)
   }"

definition bitmap_set :: "bitmap \<Rightarrow> nat \<Rightarrow> bitmap option" where
  "bitmap_set bm b = do {
     BITMAP_SIZE_ASSERT bm b;
     let i = BITMAP_WORD b;
     Some (bm[i := (bm ! i) OR BITMAP_SET_BIT b])
   }"

definition bitmap_clear :: "bitmap \<Rightarrow> nat \<Rightarrow> bitmap option" where
  "bitmap_clear bm b = do {
     BITMAP_SIZE_ASSERT bm b;
     let i = BITMAP_WORD b;
     Some (bm[i := (bm ! i) AND NOT (BITMAP_SET_BIT b)])
   }"

text \<open>The index of the last bit of a field, as 32-bit arithmetic computes it.\<close>

definition field_last :: "nat \<Rightarrow> nat \<Rightarrow> nat" where
  "field_last b width = (b + width + (2 ^ 32 - 1)) mod 2 ^ 32"

definition field_ok :: "nat \<Rightarrow> nat \<Rightarrow> bool" where
  "field_ok b width \<longleftrightarrow> width \<le> BITMAP_WORD_BITS \<and> BITMAP_WORD b = BITMAP_WORD (field_last b width)"

definition bitmap_extract :: "bitmap \<Rightarrow> nat \<Rightarrow> nat \<Rightarrow> u64 option" where
  "bitmap_extract bm b width = do {
     BITMAP_SIZE_ASSERT bm (field_last b width);
     c_assert (field_ok b width);
     let i = BITMAP_WORD b;
     let m = util_mask_safe width;
     Some (drop_bit (b mod BITMAP_WORD_BITS) (bm ! i) AND m)
   }"

definition bitmap_insert :: "bitmap \<Rightarrow> nat \<Rightarrow> nat \<Rightarrow> u64 \<Rightarrow> bitmap option" where
  "bitmap_insert bm b width v = do {
     BITMAP_SIZE_ASSERT bm (field_last b width);
     c_assert (field_ok b width);
     let i = BITMAP_WORD b;
     let m = util_mask_safe width;
     let bm = bm[i := (bm ! i) AND NOT (push_bit (b mod BITMAP_WORD_BITS) m)];
     Some (bm[i := (bm ! i) OR push_bit (b mod BITMAP_WORD_BITS) (v AND m)])
   }"

text \<open>The number of trailing zeros of a nonzero word.\<close>

definition compiler_ctz :: "u64 \<Rightarrow> nat" where
  "compiler_ctz r = (case find (bit r) [0..<64] of Some i \<Rightarrow> i | None \<Rightarrow> 64)"

text \<open>
  The loop of \<^verbatim>\<open>BITMAP__FOREACH_BEGIN\<close>: \<open>w\<close> is the next word to load with \<open>g\<close>, \<open>r\<close> holds the bits
  of the current word that are not visited yet. The result lists the indices the body is run for.
\<close>

lemma ctz_bit: "r \<noteq> 0 \<Longrightarrow> compiler_ctz r < 64 \<and> bit r (compiler_ctz r) \<and> (\<forall>j < compiler_ctz r. \<not> bit r j)"
proof -
  assume "r \<noteq> 0"
  then obtain k where k: "bit r k" by (auto simp: bit_eq_iff)
  then have "k < 64" using bit_imp_le_length [of r k] by simp
  have "find (bit r) [0..<64] \<noteq> None" using k \<open>k < 64\<close> by (auto simp: find_None_iff)
  then obtain i where i: "find (bit r) [0..<64] = Some i" by blast
  then have "i < 64 \<and> bit r i \<and> (\<forall>j < i. \<not> bit r j)" by (auto simp: find_Some_iff)
  then show ?thesis by (simp add: compiler_ctz_def i)
qed

text \<open>The visited bit and everything below it is cleared from the current word.\<close>

definition next_r :: "u64 \<Rightarrow> u64" where
  "next_r r = r AND push_bit (compiler_ctz r) (NOT 1)"

definition pop :: "u64 \<Rightarrow> nat" where
  "pop r = card {i. bit r i}"

lemma finite_bits [simp]: "finite {i. bit (r::u64) i}"
  by (rule finite_subset [of _ "{..<64}"]) (use bit_imp_le_length [of r] in auto)

lemma bit_next_r: "r \<noteq> 0 \<Longrightarrow> bit (next_r r) j \<longleftrightarrow> bit r j \<and> compiler_ctz r < j"
  using ctz_bit [of r] bit_imp_le_length [of r j]
  by (cases j "compiler_ctz r" rule: linorder_cases) (auto simp: next_r_def bit_simps)

lemma pop_next_r: "r \<noteq> 0 \<Longrightarrow> pop (next_r r) < pop r"
  unfolding pop_def using ctz_bit [of r]
  by (intro psubset_card_mono) (auto simp: bit_next_r)

lemma pop_0 [simp]: "pop 0 = 0" by (simp add: pop_def)

lemma pop_pos: "r \<noteq> 0 \<Longrightarrow> 0 < pop r"
  using pop_next_r [of r] by simp

text \<open>
  The loop of the iteration macros. The limit, the index of the next word and the visited index are
  32-bit numbers. The body is given the index and a state, and says whether it breaks; the loop need not end.
\<close>

partial_function (option) bitmap_foreach ::
    "(nat \<Rightarrow> u64) \<Rightarrow> (nat \<Rightarrow> 's \<Rightarrow> 's \<times> bool) \<Rightarrow> nat \<Rightarrow> nat \<Rightarrow> u64 \<Rightarrow> 's \<Rightarrow> 's option" where
  [code]: "bitmap_foreach g body n w r s =
    (if r \<noteq> 0 \<or> w * BITMAP_WORD_BITS mod 2 ^ 32 < n then
       (let (r, w) = (if r = 0 then (g w, (w + 1) mod 2 ^ 32) else (r, w)) in
        if r \<noteq> 0 then
          (let i = compiler_ctz r;
               r = next_r r;
               i = (i + (w + (2 ^ 32 - 1)) mod 2 ^ 32 * BITMAP_WORD_BITS) mod 2 ^ 32
           in if i \<ge> n then bitmap_foreach g body n w 0 s
              else (let (s, brk) = body i s in if brk then Some s else bitmap_foreach g body n w r s))
        else bitmap_foreach g body n w r s)
     else Some s)"

definition bitmap_ffs :: "bitmap \<Rightarrow> nat \<Rightarrow> nat option option" where
  "bitmap_ffs bm num_bits = do {
     c_assert (num_bits > 0);
     BITMAP_SIZE_ASSERT bm (num_bits - 1);
     bitmap_foreach (\<lambda>w. bm ! w) (\<lambda>i _. (Some i, True)) num_bits 0 0 None
   }"

definition bitmap_ffc :: "bitmap \<Rightarrow> nat \<Rightarrow> nat option option" where
  "bitmap_ffc bm num_bits = do {
     c_assert (num_bits > 0);
     BITMAP_SIZE_ASSERT bm (num_bits - 1);
     bitmap_foreach (\<lambda>w. NOT (bm ! w)) (\<lambda>i _. (Some i, True)) num_bits 0 0 None
   }"

text \<open>The loops of \<^verbatim>\<open>bitmap_empty\<close> and \<^verbatim>\<open>bitmap_full\<close>: the index they stop at, and the result.\<close>

function bitmap_scan :: "(u64 \<Rightarrow> bool) \<Rightarrow> bitmap \<Rightarrow> nat \<Rightarrow> nat \<Rightarrow> nat \<times> bool" where
  "bitmap_scan bad bm i words =
    (if i < words then if bad (bm ! i) then (i, False) else bitmap_scan bad bm (i + 1) words
     else (i, True))"
  by pat_completeness auto

termination
  by (relation "measure (\<lambda>(bad, bm, i, words). words - i)") auto

declare bitmap_scan.simps [simp del]

definition bitmap_empty :: "bitmap \<Rightarrow> nat \<Rightarrow> bool option" where
  "bitmap_empty bm num_bits = do {
     c_assert (num_bits > 0);
     BITMAP_SIZE_ASSERT bm (num_bits - 1);
     let (i, result) = bitmap_scan (\<lambda>w. w \<noteq> 0) bm 0 (BITMAP_WORD num_bits);
     Some (if i + 1 = BITMAP_NUM_WORDS num_bits \<and> (bm ! i) AND (BITMAP_SET_BIT num_bits - 1) \<noteq> 0
           then False else result)
   }"

definition bitmap_full :: "bitmap \<Rightarrow> nat \<Rightarrow> bool option" where
  "bitmap_full bm num_bits = do {
     c_assert (num_bits > 0);
     BITMAP_SIZE_ASSERT bm (num_bits - 1);
     let (i, result) = bitmap_scan (\<lambda>w. NOT w \<noteq> 0) bm 0 (BITMAP_WORD num_bits);
     Some (if i + 1 = BITMAP_NUM_WORDS num_bits \<and> NOT (bm ! i) AND (BITMAP_SET_BIT num_bits - 1) \<noteq> 0
           then False else result)
   }"

subsection \<open>Atomic variants\<close>

definition bitmap_atomic_isset :: "bitmap \<Rightarrow> nat \<Rightarrow> bool option" where
  "bitmap_atomic_isset bm b = do {
     BITMAP_SIZE_ASSERT bm b;
     let i = BITMAP_WORD b;
     Some ((bm ! i) AND BITMAP_SET_BIT b \<noteq> 0)
   }"

definition bitmap_atomic_test_and_set :: "bitmap \<Rightarrow> nat \<Rightarrow> (bool \<times> bitmap) option" where
  "bitmap_atomic_test_and_set bm b = do {
     BITMAP_SIZE_ASSERT bm b;
     let i = BITMAP_WORD b;
     let old = bm ! i;
     Some (old AND BITMAP_SET_BIT b \<noteq> 0, bm[i := old OR BITMAP_SET_BIT b])
   }"

definition bitmap_atomic_test_and_clear :: "bitmap \<Rightarrow> nat \<Rightarrow> (bool \<times> bitmap) option" where
  "bitmap_atomic_test_and_clear bm b = do {
     BITMAP_SIZE_ASSERT bm b;
     let i = BITMAP_WORD b;
     let old = bm ! i;
     Some (old AND BITMAP_SET_BIT b \<noteq> 0, bm[i := old AND NOT (BITMAP_SET_BIT b)])
   }"

definition bitmap_atomic_ffs :: "bitmap \<Rightarrow> nat \<Rightarrow> nat option option" where
  "bitmap_atomic_ffs bm num_bits = do {
     c_assert (num_bits > 0);
     BITMAP_SIZE_ASSERT bm (num_bits - 1);
     bitmap_foreach (\<lambda>w. bm ! w) (\<lambda>i _. (Some i, True)) num_bits 0 0 None
   }"

definition bitmap_atomic_ffc :: "bitmap \<Rightarrow> nat \<Rightarrow> nat option option" where
  "bitmap_atomic_ffc bm num_bits = do {
     c_assert (num_bits > 0);
     BITMAP_SIZE_ASSERT bm (num_bits - 1);
     bitmap_foreach (\<lambda>w. NOT (bm ! w)) (\<lambda>i _. (Some i, True)) num_bits 0 0 None
   }"

definition bitmap_atomic_empty :: "bitmap \<Rightarrow> nat \<Rightarrow> bool option" where
  "bitmap_atomic_empty bm num_bits = do {
     c_assert (num_bits > 0);
     BITMAP_SIZE_ASSERT bm (num_bits - 1);
     let (i, result) = bitmap_scan (\<lambda>w. w \<noteq> 0) bm 0 (BITMAP_WORD num_bits);
     Some (if i + 1 = BITMAP_NUM_WORDS num_bits \<and> (bm ! i) AND (BITMAP_SET_BIT num_bits - 1) \<noteq> 0
           then False else result)
   }"

definition bitmap_atomic_full :: "bitmap \<Rightarrow> nat \<Rightarrow> bool option" where
  "bitmap_atomic_full bm num_bits = do {
     c_assert (num_bits > 0);
     BITMAP_SIZE_ASSERT bm (num_bits - 1);
     let (i, result) = bitmap_scan (\<lambda>w. NOT w \<noteq> 0) bm 0 (BITMAP_WORD num_bits);
     Some (if i + 1 = BITMAP_NUM_WORDS num_bits \<and> NOT (bm ! i) AND (BITMAP_SET_BIT num_bits - 1) \<noteq> 0
           then False else result)
   }"

definition bitmap_atomic_extract :: "bitmap \<Rightarrow> nat \<Rightarrow> nat \<Rightarrow> u64 option" where
  "bitmap_atomic_extract bm b width = do {
     BITMAP_SIZE_ASSERT bm (field_last b width);
     c_assert (field_ok b width);
     let i = BITMAP_WORD b;
     let m = util_mask_safe width;
     Some (drop_bit (b mod BITMAP_WORD_BITS) (bm ! i) AND m)
   }"

text \<open>
  The compare-and-exchange loop of \<^verbatim>\<open>bitmap_atomic_insert\<close>. Between two of its memory accesses other
  CPUs may change the word, and the exchange may fail spuriously: each element of \<open>tries\<close> is the value
  of the word when one exchange is attempted, with \<open>True\<close> for a spurious failure. \<^const>\<open>None\<close> says
  that the loop is still running when the attempts are used up. The result is the value the exchange
  replaced and the value it stored.
\<close>

fun bitmap_atomic_insert_loop ::
    "nat \<Rightarrow> nat \<Rightarrow> u64 \<Rightarrow> u64 \<Rightarrow> (u64 \<times> bool) list \<Rightarrow> (u64 \<times> u64) option" where
  "bitmap_atomic_insert_loop b width v old_word [] = None"
| "bitmap_atomic_insert_loop b width v old_word ((cur, spurious) # tries) =
    (let m = util_mask_safe width;
         new_word = (old_word AND NOT (push_bit (b mod BITMAP_WORD_BITS) m))
           OR push_bit (b mod BITMAP_WORD_BITS) (v AND m)
     in if cur = old_word \<and> \<not> spurious then Some (cur, new_word)
        else bitmap_atomic_insert_loop b width v cur tries)"

text \<open>Without interference and without spurious failures the first exchange succeeds.\<close>

definition bitmap_atomic_insert :: "bitmap \<Rightarrow> nat \<Rightarrow> nat \<Rightarrow> u64 \<Rightarrow> bitmap option" where
  "bitmap_atomic_insert bm b width v = do {
     BITMAP_SIZE_ASSERT bm (field_last b width);
     c_assert (field_ok b width);
     let i = BITMAP_WORD b;
     let old_word = bm ! i;
     (cur, new_word) \<leftarrow> bitmap_atomic_insert_loop b width v old_word [(old_word, False)];
     Some (bm[i := new_word])
   }"

section \<open>The set of bits of a bitmap\<close>

definition bm_bit :: "bitmap \<Rightarrow> nat \<Rightarrow> bool" where
  "bm_bit bm i \<longleftrightarrow> bit (bm ! (i div 64)) (i mod 64)"

lemma and_set_bit: "(w::u64) AND 2 ^ k = 0 \<longleftrightarrow> \<not> bit w k"
  using bit_iff_and_push_bit_not_eq_0 [of w k] by simp

lemmas bitmap_macros = BITMAP_SIZE_ASSERT_def BITMAP_WORD_def BITMAP_SET_BIT_def

lemma word_index: "i < 64 * length bm \<longleftrightarrow> i div 64 < length bm"
  by (simp add: less_mult_imp_div_less div_less_iff_less_mult mult.commute)

lemma bitmap_isset_bit: "i < 64 * length bm \<Longrightarrow> bitmap_isset bm i = Some (bm_bit bm i)"
  by (simp add: bitmap_isset_def bitmap_macros word_index and_set_bit bm_bit_def Let_def)

lemma div_64I: "64 * q \<le> x \<Longrightarrow> x < 64 * q + 64 \<Longrightarrow> x div 64 = q" for x q :: nat
  by (rule div_nat_eqI) simp_all

lemma div_mod_64: "i div 64 = j div 64 \<Longrightarrow> i mod 64 = j mod 64 \<Longrightarrow> i = (j::nat)"
  by (metis div_mult_mod_eq)

lemma bm_bit_update:
  "i div 64 < length bm \<Longrightarrow> bm_bit (bm[i div 64 := w]) j \<longleftrightarrow>
    (if j div 64 = i div 64 then bit w (j mod 64) else bm_bit bm j)"
  by (auto simp: bm_bit_def)

lemma bitmap_set_bit:
  assumes "i < 64 * length bm"
  shows "\<exists>bm'. bitmap_set bm i = Some bm' \<and> length bm' = length bm \<and>
    (\<forall>j. bm_bit bm' j \<longleftrightarrow> j = i \<or> bm_bit bm j)"
proof -
  let ?bm = "bm[i div 64 := (bm ! (i div 64)) OR push_bit (i mod 64) 1]"
  have "bitmap_set bm i = Some ?bm"
    using assms by (simp add: bitmap_set_def bitmap_macros word_index Let_def)
  moreover have "bm_bit ?bm j \<longleftrightarrow> j = i \<or> bm_bit bm j" for j
    using assms div_mod_64 [of j i] unfolding word_index
    by (cases "j div 64 = i div 64") (auto simp: bm_bit_def bit_simps)
  ultimately show ?thesis by simp
qed

lemma bitmap_clear_bit:
  assumes "i < 64 * length bm"
  shows "\<exists>bm'. bitmap_clear bm i = Some bm' \<and> length bm' = length bm \<and>
    (\<forall>j. bm_bit bm' j \<longleftrightarrow> j \<noteq> i \<and> bm_bit bm j)"
proof -
  let ?bm = "bm[i div 64 := (bm ! (i div 64)) AND NOT (push_bit (i mod 64) 1)]"
  have "bitmap_clear bm i = Some ?bm"
    using assms by (simp add: bitmap_clear_def bitmap_macros word_index Let_def)
  moreover have "bm_bit ?bm j \<longleftrightarrow> j \<noteq> i \<and> bm_bit bm j" for j
    using assms div_mod_64 [of j i] unfolding word_index
    by (cases "j div 64 = i div 64") (auto simp: bm_bit_def bit_simps)
  ultimately show ?thesis by simp
qed

lemma bitmap_atomic_test_and_set_eq:
  "i < 64 * length bm \<Longrightarrow> bitmap_atomic_test_and_set bm i = map_option (\<lambda>bm'. (bm_bit bm i, bm')) (bitmap_set bm i)"
  by (simp add: bitmap_atomic_test_and_set_def bitmap_set_def bitmap_macros word_index and_set_bit bm_bit_def Let_def)

lemma bitmap_atomic_test_and_clear_eq:
  "i < 64 * length bm \<Longrightarrow> bitmap_atomic_test_and_clear bm i = map_option (\<lambda>bm'. (bm_bit bm i, bm')) (bitmap_clear bm i)"
  by (simp add: bitmap_atomic_test_and_clear_def bitmap_clear_def bitmap_macros word_index and_set_bit bm_bit_def Let_def)

section \<open>Iteration\<close>

lemma upt_split: "a \<le> b \<Longrightarrow> b \<le> c \<Longrightarrow> [a..<c] = [a..<b] @ [b..<c]"
  using upt_add_eq_append [of a b "c - b"] by simp

text \<open>The indices that the loop visits if it does not wrap around.\<close>

function bits_from :: "(nat \<Rightarrow> u64) \<Rightarrow> nat \<Rightarrow> nat \<Rightarrow> u64 \<Rightarrow> nat list" where
  "bits_from g n w r =
    (if r \<noteq> 0 \<or> w * 64 < n then
       (let (r, w) = (if r = 0 then (g w, w + 1) else (r, w)) in
        if r \<noteq> 0 then
          (let i = compiler_ctz r + (w - 1) * 64
           in if i \<ge> n then bits_from g n w 0 else i # bits_from g n w (next_r r))
        else bits_from g n w r)
     else [])"
  by pat_completeness auto

termination
  by (relation "measures [\<lambda>(g, n, w, r). n + 63 - w * 64, \<lambda>(g, n, w, r). pop r]")
    (auto simp: pop_next_r pop_pos split: if_splits)

declare bits_from.simps [simp del]

lemma foreach_end: "n \<le> w * 64 \<Longrightarrow> bits_from g n w 0 = []"
  by (simp add: bits_from.simps)

lemma foreach_visit:
  "r \<noteq> 0 \<Longrightarrow> compiler_ctz r + (w - 1) * 64 < n \<Longrightarrow>
    bits_from g n w r = (compiler_ctz r + (w - 1) * 64) # bits_from g n w (next_r r)"
  by (subst bits_from.simps) (simp add: Let_def)

lemma foreach_stop:
  "r \<noteq> 0 \<Longrightarrow> n \<le> compiler_ctz r + (w - 1) * 64 \<Longrightarrow> bits_from g n w r = bits_from g n w 0"
  by (subst bits_from.simps) (simp add: Let_def)

lemma foreach_load:
  assumes "w * 64 < n"
  shows "bits_from g n w 0 = bits_from g n (w + 1) (g w)"
proof (cases "g w = 0")
  case True
  then show ?thesis using assms by (subst bits_from.simps) simp
next
  case False
  then show ?thesis
    using assms bits_from.simps [of g n "w + 1" "g w"]
    by (subst bits_from.simps) (simp add: Let_def)
qed

text \<open>The bits of one word.\<close>

lemma foreach_word:
  "0 < w \<Longrightarrow> bits_from g n w r =
    filter (\<lambda>i. bit r (i - 64 * (w - 1))) [64 * (w - 1)..<min n (64 * w)] @ bits_from g n w 0"
proof (induction "pop r" arbitrary: r rule: less_induct)
  case less
  let ?a = "64 * (w - 1)" and ?m = "min n (64 * w)"
  show ?case
  proof (cases "r = 0")
    case False
    let ?c = "compiler_ctz r"
    have c: "?c < 64" "bit r ?c" "\<forall>j < ?c. \<not> bit r j" using ctz_bit [OF False] by auto
    show ?thesis
    proof (cases "n \<le> ?c + (w - 1) * 64")
      case True
      have "\<not> bit r (i - ?a)" if "i \<in> set [?a..<?m]" for i using that True c(3) by auto
      then have "filter (\<lambda>i. bit r (i - ?a)) [?a..<?m] = []" by (simp add: filter_empty_conv)
      then show ?thesis using foreach_stop [OF False True, of g] by simp
    next
      case visit: False
      let ?i = "?c + (w - 1) * 64"
      have i: "?a \<le> ?i" "?i < ?m" using visit c(1) less.prems by auto
      have sp: "[?a..<?m] = [?a..<?i] @ ?i # [Suc ?i..<?m]"
        using i upt_split [of ?a ?i ?m] upt_conv_Cons [of ?i ?m] by simp
      have 1: "filter (\<lambda>i. bit r (i - ?a)) [?a..<?i] = []" using c(3) by (auto simp: filter_empty_conv)
      have 2: "filter (\<lambda>i. bit (next_r r) (i - ?a)) [?a..<?i] = []"
        by (auto simp: filter_empty_conv bit_next_r [OF False])
      have 3: "filter (\<lambda>i. bit r (i - ?a)) [Suc ?i..<?m] = filter (\<lambda>i. bit (next_r r) (i - ?a)) [Suc ?i..<?m]"
        by (rule filter_cong) (auto simp: bit_next_r [OF False])
      have 4: "bit r (?i - ?a)" "\<not> bit (next_r r) (?i - ?a)" using c(2) by (simp_all add: bit_next_r [OF False] mult.commute)
      have "bits_from g n w (next_r r) =
          filter (\<lambda>i. bit (next_r r) (i - ?a)) [?a..<?m] @ bits_from g n w 0"
        by (rule less.hyps [OF pop_next_r [OF False] less.prems])
      then show ?thesis
        unfolding sp using foreach_visit [OF False, of w n g] visit 1 2 3 4 by simp
    qed
  qed simp
qed

lemma foreach_exact:
  "bits_from g n w 0 = filter (\<lambda>i. bit (g (i div 64)) (i mod 64)) [64 * w..<n]"
proof (induction "n - 64 * w" arbitrary: w rule: less_induct)
  case less
  let ?P = "\<lambda>i. bit (g (i div 64)) (i mod 64)"
  show ?case
  proof (cases "64 * w < n")
    case True
    let ?m = "min n (64 * (w + 1))"
    have "bits_from g n w 0 = bits_from g n (w + 1) (g w)" using True foreach_load [of w n g] by simp
    also have "\<dots> = filter (\<lambda>i. bit (g w) (i - 64 * w)) [64 * w..<?m] @ bits_from g n (w + 1) 0"
      using foreach_word [of "w + 1" g n "g w"] by simp
    also have "filter (\<lambda>i. bit (g w) (i - 64 * w)) [64 * w..<?m] = filter ?P [64 * w..<?m]"
    proof (rule filter_cong)
      fix i assume "i \<in> set [64 * w..<?m]"
      then have "64 * w \<le> i" "i < 64 * w + 64" by auto
      then have "i div 64 = w" "i mod 64 = i - 64 * w" by (simp_all add: div_nat_eqI modulo_nat_def)
      then show "bit (g w) (i - 64 * w) \<longleftrightarrow> ?P i" by simp
    qed simp
    also have "bits_from g n (w + 1) 0 = filter ?P [64 * (w + 1)..<n]"
      using True by (intro less.hyps) simp
    also have "filter ?P [64 * w..<?m] @ filter ?P [64 * (w + 1)..<n] = filter ?P [64 * w..<n]"
    proof (cases "n \<le> 64 * (w + 1)")
      case False
      have "[64 * w..<n] = [64 * w..<64 * (w + 1)] @ [64 * (w + 1)..<n]"
        using upt_split [of "64 * w" "64 * (w + 1)" n] False by simp
      then show ?thesis using False by simp
    qed simp
    finally show ?thesis .
  next
    case False
    then show ?thesis using foreach_end [of n w g] by (simp add: mult.commute)
  qed
qed

text \<open>The effect of the visits.\<close>

fun visit :: "(nat \<Rightarrow> 's \<Rightarrow> 's \<times> bool) \<Rightarrow> nat list \<Rightarrow> 's \<Rightarrow> 's" where
  "visit body [] s = s"
| "visit body (i # is) s = (let (s, brk) = body i s in if brk then s else visit body is s)"

lemma loop_end: "n \<le> w * 64 \<Longrightarrow> w * 64 < 2 ^ 32 \<Longrightarrow> bitmap_foreach g body n w 0 s = Some s"
  by (subst bitmap_foreach.simps) simp

lemma loop_index: "0 < w \<Longrightarrow> w * 64 \<le> 2 ^ 32 \<Longrightarrow> c < 64 \<Longrightarrow> (c + (w + (2 ^ 32 - 1)) mod 2 ^ 32 * 64) mod 2 ^ 32 = c + (w - 1) * (64::nat)"
proof -
  assume w: "0 < w" "w * 64 \<le> 2 ^ 32" "c < 64"
  have "w + (2 ^ 32 - 1) = w - 1 + 2 ^ 32" using w(1) by simp
  then have "(w + (2 ^ 32 - 1)) mod 2 ^ 32 = w - 1" using w(2) by (simp only: mod_add_self2) simp
  moreover have "c + (w - 1) * 64 < 2 ^ 32" using w by simp
  ultimately show ?thesis by simp
qed

lemma loop_visit:
  assumes "r \<noteq> 0" "0 < w" "w * 64 \<le> 2 ^ 32"
  shows "bitmap_foreach g body n w r s = (if n \<le> compiler_ctz r + (w - 1) * 64 then bitmap_foreach g body n w 0 s
    else let (s, brk) = body (compiler_ctz r + (w - 1) * 64) s in if brk then Some s else bitmap_foreach g body n w (next_r r) s)"
  using assms loop_index [OF assms(2,3) ctz_bit [OF assms(1), THEN conjunct1]] by (subst bitmap_foreach.simps) (simp add: Let_def)

lemma loop_load:
  assumes "w * 64 < n" "n \<le> 2 ^ 32 - 64"
  shows "bitmap_foreach g body n w 0 s = bitmap_foreach g body n (w + 1) (g w) s"
proof -
  have w: "w * 64 mod 2 ^ 32 = w * 64" "(w + 1) mod 2 ^ 32 = w + 1" "0 < w + 1" "(w + 1) * 64 \<le> 2 ^ 32" using assms by simp_all
  show ?thesis
  proof (cases "g w = 0")
    case True
    then show ?thesis using assms w by (subst bitmap_foreach.simps) simp
  next
    case False
    note i = loop_index [OF w(3,4) ctz_bit [OF False, THEN conjunct1]]
    show ?thesis
      using False assms w(1,2) i loop_visit [OF False w(3,4), of g body n s] by (subst bitmap_foreach.simps) (simp add: Let_def split: prod.split)
  qed
qed

lemma loop_word:
  assumes "0 < w" "w * 64 \<le> 2 ^ 32" "\<And>s. bitmap_foreach g body n w 0 s = Some (visit body (bits_from g n w 0) s)"
  shows "bitmap_foreach g body n w r s = Some (visit body (bits_from g n w r) s)"
proof (induction "pop r" arbitrary: r s rule: less_induct)
  case less
  show ?case
  proof (cases "r = 0")
    case False
    show ?thesis
    proof (cases "n \<le> compiler_ctz r + (w - 1) * 64")
      case True
      then show ?thesis using loop_visit [OF False assms(1,2), of g body n s] foreach_stop [OF False True, of g] assms(3) by simp
    next
      case visit: False
      then show ?thesis using loop_visit [OF False assms(1,2), of g body n s] foreach_visit [OF False, of w n g] less [OF pop_next_r [OF False]]
        by (simp add: Let_def split: prod.split)
    qed
  qed (simp add: assms(3))
qed

lemma foreach_bits:
  assumes "n \<le> 2 ^ 32 - 64" "w * 64 < n + 64"
  shows "bitmap_foreach g body n w 0 s = Some (visit body (bits_from g n w 0) s)"
  using assms(2)
proof (induction "n - 64 * w" arbitrary: w s rule: less_induct)
  case less
  show ?case
  proof (cases "w * 64 < n")
    case True
    have "bitmap_foreach g body n (w + 1) 0 s = Some (visit body (bits_from g n (w + 1) 0) s)" for s
      by (rule less.hyps) (use True in simp_all)
    note eq = this
    have "bitmap_foreach g body n (w + 1) (g w) s = Some (visit body (bits_from g n (w + 1) (g w)) s)"
      by (rule loop_word [OF _ _ eq]) (use True assms(1) in simp_all)
    then show ?thesis using loop_load [OF True assms(1), of g body s] foreach_load [OF True, of g] by simp
  next
    case False
    then show ?thesis using loop_end [of n w g body s] foreach_end [of n w g] less.prems assms(1) by simp
  qed
qed

lemma foreach_visits:
  "n \<le> 2 ^ 32 - 64 \<Longrightarrow> bitmap_foreach g body n 0 0 s = Some (visit body (filter (\<lambda>i. bit (g (i div 64)) (i mod 64)) [0..<n]) s)"
  using foreach_bits [of n 0 g body s] foreach_exact [of g n 0] by (cases "n = 0") (simp_all add: loop_end)

text \<open>With a larger limit the product of the word index wraps around before it reaches the limit.\<close>

lemma foreach_diverges:
  "bitmap_foreach g body n w r s = Some s' \<Longrightarrow> 2 ^ 32 - 64 < n \<longrightarrow> (\<forall>i s. \<not> snd (body i s)) \<longrightarrow> False"
proof (rule bitmap_foreach.raw_induct [where P = "\<lambda>g body n w r s s'. 2 ^ 32 - 64 < n \<longrightarrow> (\<forall>i s. \<not> snd (body i s)) \<longrightarrow> False", rotated], assumption)
  fix f g body n w r s and s' :: 'a
  assume 1: "\<And>g body n w r s s'. f g body n w r s = Some s' \<Longrightarrow> 2 ^ 32 - 64 < n \<longrightarrow> (\<forall>i s. \<not> snd (body i s)) \<longrightarrow> False"
    and eq: "(if r \<noteq> 0 \<or> w * 64 mod 2 ^ 32 < n then
       (let (r, w) = (if r = 0 then (g w, (w + 1) mod 2 ^ 32) else (r, w)) in
        if r \<noteq> 0 then
          (let i = compiler_ctz r; r = next_r r; i = (i + (w + (2 ^ 32 - 1)) mod 2 ^ 32 * 64) mod 2 ^ 32
           in if i \<ge> n then f g body n w 0 s else (let (s, brk) = body i s in if brk then Some s else f g body n w r s))
        else f g body n w r s)
     else Some s) = Some s'"
  have "w * 64 mod (2 ^ 26 * 64) = w mod 2 ^ 26 * 64" by (rule mult_mod_left [symmetric])
  moreover have "w mod 2 ^ 26 < 2 ^ 26" by simp
  ultimately have lt: "w * 64 mod 2 ^ 32 < n" if "2 ^ 32 - 64 < n" using that by simp
  have next': False if "f g body n w' r' s'' = Some s'" "2 ^ 32 - 64 < n" "\<forall>i s. \<not> snd (body i s)" for w' r' s'' using 1 [OF that(1)] that by blast
  show "2 ^ 32 - 64 < n \<longrightarrow> (\<forall>i s. \<not> snd (body i s)) \<longrightarrow> False"
  proof (intro impI)
    assume n: "2 ^ 32 - 64 < n" and b: "\<forall>i s. \<not> snd (body i s)"
    have body: "\<not> brk" if "body i s = (s'', brk)" for i s s'' brk using b [rule_format, of i s] that by simp
    show False using eq lt [OF n] next' [OF _ n b] by (auto simp: Let_def split: if_splits prod.splits dest: body)
  qed
qed

lemma visit_first: "visit (\<lambda>i _. (Some i, True)) xs None = (case xs of [] \<Rightarrow> None | i # _ \<Rightarrow> Some i)"
  by (cases xs) simp_all

lemma head_filter: "(case filter P xs of [] \<Rightarrow> None | i # _ \<Rightarrow> Some i) = find P xs"
  by (induction xs) auto

section \<open>Scans\<close>

lemma scan_exact:
  "i \<le> words \<Longrightarrow> bitmap_scan bad bm i words =
    (case find (\<lambda>k. bad (bm ! k)) [i..<words] of None \<Rightarrow> (words, True) | Some k \<Rightarrow> (k, False))"
proof (induction "words - i" arbitrary: i)
  case 0
  then show ?case by (simp add: bitmap_scan.simps)
next
  case (Suc d)
  then have "i < words" by simp
  then show ?case using Suc by (subst bitmap_scan.simps) (simp add: upt_conv_Cons)
qed

lemma word_zero_bits: "(w::u64) = 0 \<longleftrightarrow> (\<forall>j < 64. \<not> bit w j)"
proof
  assume a: "\<forall>j < 64. \<not> bit w j"
  show "w = 0" by (rule bit_word_eqI) (use a in simp)
qed simp

lemma word_low_bits: "k < 64 \<Longrightarrow> (w::u64) AND (push_bit k 1 - 1) = 0 \<longleftrightarrow> (\<forall>j < k. \<not> bit w j)"
proof -
  assume k: "k < 64"
  have m: "push_bit k 1 - 1 = (mask k :: u64)" by (simp add: mask_eq_exp_minus_1)
  have "(\<forall>j < 64. \<not> (bit w j \<and> j < k)) \<longleftrightarrow> (\<forall>j < k. \<not> bit w j)"
    using k order.strict_trans by blast
  then show ?thesis unfolding m word_zero_bits by (simp add: bit_simps)
qed

lemma round_up_64: "(n + 64 - 1) div 64 = n div 64 + (if n mod 64 = 0 then 0 else 1)" for n :: nat
proof -
  obtain q m where n: "n = 64 * q + m" "m < 64" using that [of "n div 64" "n mod 64"] by simp
  have "(64 * q + m + 64 - 1) div 64 = q + (if m = 0 then 0 else 1)"
    by (rule div_nat_eqI) (use n(2) in auto)
  then show ?thesis using n by simp
qed

text \<open>
  The common part of \<^verbatim>\<open>bitmap_empty\<close> and \<^verbatim>\<open>bitmap_full\<close>: \<open>f\<close> maps a word to the bits that must not
  be there.
\<close>

lemma scan_all:
  fixes f :: "u64 \<Rightarrow> u64"
  assumes n: "0 < n"
  shows "(case bitmap_scan (\<lambda>w. f w \<noteq> 0) bm 0 (n div 64) of (i, result) \<Rightarrow>
      if i + 1 = BITMAP_NUM_WORDS n \<and> f (bm ! i) AND (push_bit (n mod 64) 1 - 1) \<noteq> 0 then False else result)
    \<longleftrightarrow> (\<forall>i < n. \<not> bit (f (bm ! (i div 64))) (i mod 64))"
proof (cases "find (\<lambda>k. f (bm ! k) \<noteq> 0) [0..<n div 64]")
  case (Some k)
  then have k: "k < n div 64" "f (bm ! k) \<noteq> 0" by (auto simp: find_Some_iff)
  then obtain j where j: "j < 64" "bit (f (bm ! k)) j" using word_zero_bits by blast
  have "64 * k + j < n" using k(1) j(1) by linarith
  moreover have "(64 * k + j) div 64 = k" "(64 * k + j) mod 64 = j" using j(1) by simp_all
  ultimately have "\<not> (\<forall>i < n. \<not> bit (f (bm ! (i div 64))) (i mod 64))" using j(2) by metis
  then show ?thesis using Some by (simp add: scan_exact)
next
  case None
  then have z: "\<not> bit (f (bm ! k)) j" if "k < n div 64" for k j using that by (auto simp: find_None_iff)
  have q: "BITMAP_NUM_WORDS n = n div 64 + (if n mod 64 = 0 then 0 else 1)"
    unfolding BITMAP_NUM_WORDS_def by (rule round_up_64)
  have iff: "(\<forall>i < n. \<not> bit (f (bm ! (i div 64))) (i mod 64)) \<longleftrightarrow>
      (\<forall>j < n mod 64. \<not> bit (f (bm ! (n div 64))) j)"
  proof
    assume a: "\<forall>i < n. \<not> bit (f (bm ! (i div 64))) (i mod 64)"
    show "\<forall>j < n mod 64. \<not> bit (f (bm ! (n div 64))) j"
    proof (intro allI impI)
      fix j assume j: "j < n mod 64"
      then have "j < 64" by (meson mod_less_divisor order.strict_trans zero_less_numeral)
      have "64 * (n div 64) + j < n" using j by (metis add_less_cancel_left mult_div_mod_eq)
      with a have "\<not> bit (f (bm ! ((64 * (n div 64) + j) div 64))) ((64 * (n div 64) + j) mod 64)" by blast
      then show "\<not> bit (f (bm ! (n div 64))) j" using \<open>j < 64\<close> by simp
    qed
  next
    assume a: "\<forall>j < n mod 64. \<not> bit (f (bm ! (n div 64))) j"
    show "\<forall>i < n. \<not> bit (f (bm ! (i div 64))) (i mod 64)"
    proof (intro allI impI)
      fix i assume i: "i < n"
      then consider "i div 64 < n div 64" | "i div 64 = n div 64"
        using div_le_mono [of i n 64] by linarith
      then show "\<not> bit (f (bm ! (i div 64))) (i mod 64)"
      proof cases
        case 2
        then have "i mod 64 < n mod 64" using i by (metis add_less_cancel_left mult_div_mod_eq)
        then show ?thesis using a 2 by simp
      qed (use z in simp)
    qed
  qed
  have sc: "bitmap_scan (\<lambda>w. f w \<noteq> 0) bm 0 (n div 64) = (n div 64, True)" using None by (simp add: scan_exact)
  show ?thesis
  proof (cases "n mod 64 = 0")
    case True
    then show ?thesis using iff q by (simp add: sc)
  next
    case False
    then show ?thesis using iff q word_low_bits [of "n mod 64" "f (bm ! (n div 64))"] by (simp add: sc)
  qed
qed

lemma last_word: "0 < n \<Longrightarrow> n \<le> 64 * length bm \<Longrightarrow> (n - 1) div 64 < length bm"
  using word_index [of "n - 1" bm] by simp

lemma bitmap_empty_bits:
  "0 < n \<Longrightarrow> n \<le> 64 * length bm \<Longrightarrow> bitmap_empty bm n = Some (\<forall>i < n. \<not> bm_bit bm i)"
  using scan_all [of n "\<lambda>w. w" bm] last_word [of n bm]
  by (cases "bitmap_scan (\<lambda>w. w \<noteq> 0) bm 0 (n div 64)")
    (simp add: bitmap_empty_def bitmap_macros Let_def bm_bit_def)

lemma bitmap_full_bits:
  "0 < n \<Longrightarrow> n \<le> 64 * length bm \<Longrightarrow> bitmap_full bm n = Some (\<forall>i < n. bm_bit bm i)"
  using scan_all [of n "\<lambda>w. NOT w" bm] last_word [of n bm]
  by (cases "bitmap_scan (\<lambda>w. NOT w \<noteq> 0) bm 0 (n div 64)")
    (simp add: bitmap_full_def bitmap_macros Let_def bm_bit_def bit_simps)

section \<open>Fields\<close>

lemma bit_mask_safe: "k \<le> 64 \<Longrightarrow> bit (util_mask_safe k) j \<longleftrightarrow> j < k" for j
proof (cases "k = 64")
  case True
  then show ?thesis using bit_imp_le_length [of "NOT 0 :: u64" j] by (auto simp: util_mask_safe_def)
next
  case False
  assume "k \<le> 64"
  then have "util_mask_safe k = mask k" using False
    by (simp add: util_mask_safe_def util_mask_def util_bit_def mask_eq_exp_minus_1)
  then show ?thesis using \<open>k \<le> 64\<close> by (auto simp: bit_simps)
qed

lemma field_in_word:
  assumes "b < 2 ^ 32" "field_ok b width" "0 < width"
  shows "b mod 64 + width \<le> 64" "width \<le> 64" "field_last b width = b + width - 1"
proof -
  have w: "width \<le> 64" "b div 64 = field_last b width div 64" using assms(2) by (auto simp: field_ok_def BITMAP_WORD_def)
  have fl: "field_last b width = b + width - 1"
  proof (rule ccontr)
    assume "field_last b width \<noteq> b + width - 1"
    then have "2 ^ 32 \<le> b + width - 1"
      using assms(3) by (auto simp: field_last_def mod_if split: if_splits)
    then have "field_last b width < 64" "b \<ge> 2 ^ 32 - 64"
      using assms(1,3) w(1) by (auto simp: field_last_def mod_if)
    then show False using w(2) by auto
  qed
  show "width \<le> 64" "field_last b width = b + width - 1" using w fl by auto
  have "b div 64 = (b + width - 1) div 64" using w(2) fl by simp
  then show "b mod 64 + width \<le> 64"
    using assms(3) mult_div_mod_eq [of 64 b] mult_div_mod_eq [of 64 "b + width - 1"]
      mod_less_divisor [of 64 "b + width - 1"] by linarith
qed

lemma field_word:
  fixes w v :: u64
  assumes "k + width \<le> 64" "width \<le> 64"
  shows "bit ((w AND NOT (push_bit k (util_mask_safe width))) OR push_bit k (v AND util_mask_safe width)) j \<longleftrightarrow>
    (if k \<le> j \<and> j < k + width then bit v (j - k) else bit w j)"
  using assms bit_imp_le_length [of w j]
  by (auto simp: bit_simps bit_mask_safe)

text \<open>The effect of an insertion on the bits, and what an extraction reads.\<close>

lemma bitmap_insert_bits:
  assumes b: "b < 2 ^ 32" "field_ok b width" "0 < width" "b + width \<le> 64 * length bm"
  shows "\<exists>bm'. bitmap_insert bm b width v = Some bm' \<and> length bm' = length bm \<and>
    (\<forall>j. bm_bit bm' j \<longleftrightarrow> (if b \<le> j \<and> j < b + width then bit v (j - b) else bm_bit bm j))"
proof -
  let ?k = "b mod 64" and ?i = "b div 64"
  let ?w = "((bm ! ?i) AND NOT (push_bit ?k (util_mask_safe width))) OR push_bit ?k (v AND util_mask_safe width)"
  note f = field_in_word [OF b(1-3)]
  have i: "field_last b width div 64 = ?i" using b(2) by (simp add: field_ok_def BITMAP_WORD_def)
  have len: "?i < length bm" using b(3,4) i f(3) word_index [of "b + width - 1" bm] by simp
  have run: "bitmap_insert bm b width v = Some (bm[?i := ?w])"
    using b(2) len i by (simp add: bitmap_insert_def bitmap_macros Let_def)
  have "bm_bit (bm[?i := ?w]) j \<longleftrightarrow> (if b \<le> j \<and> j < b + width then bit v (j - b) else bm_bit bm j)" for j
  proof (cases "j div 64 = ?i")
    case True
    then have "?k \<le> j mod 64 \<longleftrightarrow> b \<le> j" "j mod 64 < ?k + width \<longleftrightarrow> j < b + width" "b \<le> j \<Longrightarrow> j mod 64 - ?k = j - b"
      using mult_div_mod_eq [of 64 j] mult_div_mod_eq [of 64 b] by linarith+
    then show ?thesis
      using True bm_bit_update [OF len, of ?w j] field_word [OF f(1,2), of "bm ! ?i" v "j mod 64"]
      by (auto simp: bm_bit_def)
  next
    case False
    have no: "(b \<le> j \<and> j < b + width) = False"
    proof (rule ccontr)
      assume "(b \<le> j \<and> j < b + width) \<noteq> False"
      then have "b \<le> j" "j < b + width" by auto
      then have "j div 64 = ?i"
        using f(1) mult_div_mod_eq [of 64 b] by (intro div_64I) linarith+
      then show False using False by simp
    qed
    have "bm_bit (bm[?i := ?w]) j = bm_bit bm j" using False bm_bit_update [OF len, of ?w j] by (simp only: if_False)
    then show ?thesis unfolding no by (simp only: if_False)
  qed
  then show ?thesis using run by simp
qed

lemma bitmap_extract_bits:
  assumes b: "b < 2 ^ 32" "field_ok b width" "0 < width" "b + width \<le> 64 * length bm"
  shows "\<exists>v. bitmap_extract bm b width = Some v \<and> (\<forall>j. bit v j \<longleftrightarrow> j < width \<and> bm_bit bm (b + j))"
proof -
  let ?k = "b mod 64" and ?i = "b div 64"
  let ?v = "drop_bit ?k (bm ! ?i) AND util_mask_safe width"
  note f = field_in_word [OF b(1-3)]
  have i: "field_last b width div 64 = ?i" using b(2) by (simp add: field_ok_def BITMAP_WORD_def)
  have len: "?i < length bm" using b(3,4) i f(3) word_index [of "b + width - 1" bm] by simp
  have run: "bitmap_extract bm b width = Some ?v"
    using b(2) len i by (simp add: bitmap_extract_def bitmap_macros Let_def)
  have "bit ?v j \<longleftrightarrow> j < width \<and> bm_bit bm (b + j)" for j
  proof (cases "j < width")
    case True
    then have d: "(b + j) div 64 = ?i"
      using f(1) mult_div_mod_eq [of 64 b] by (intro div_64I) linarith+
    then have "(b + j) mod 64 = ?k + j" using mult_div_mod_eq [of 64 b] mult_div_mod_eq [of 64 "b + j"] by linarith
    note d this
    then show ?thesis using True f(2) by (auto simp: bit_simps bit_mask_safe bm_bit_def)
  qed (use f(2) in \<open>auto simp: bit_simps bit_mask_safe\<close>)
  then show ?thesis using run by simp
qed

lemma insert_loop_exchange:
  "bitmap_atomic_insert_loop b width v old tries = Some (cur, new) \<Longrightarrow>
    new = (cur AND NOT (push_bit (b mod 64) (util_mask_safe width))) OR
      push_bit (b mod 64) (v AND util_mask_safe width) \<and> (cur, False) \<in> set tries"
proof (induction tries arbitrary: old)
  case (Cons t ts)
  obtain w f where t: "t = (w, f)" by (cases t)
  show ?case
  proof (cases "w = old \<and> \<not> f")
    case True
    then show ?thesis using Cons.prems t by (auto simp: Let_def)
  next
    case False
    have "bitmap_atomic_insert_loop b width v w ts = Some (cur, new)"
      using Cons.prems unfolding t bitmap_atomic_insert_loop.simps Let_def if_not_P [OF False] .
    from Cons.IH [OF this] show ?thesis by auto
  qed
qed simp

text \<open>Two consecutive attempts that find the same value, the second one not spuriously failing, end the loop.\<close>

lemma insert_loop_ends:
  "bitmap_atomic_insert_loop b width v old (tries @ [(w, f), (w, False)]) \<noteq> None"
  by (induction tries arbitrary: old) (auto simp: Let_def split: prod.splits)

section \<open>Bitmaps as sets\<close>

text \<open>
  The contract of a bitmap with its users: a set of small numbers with an atomic insertion that
  reports whether the element was there already.
\<close>

text \<open>Callers that try to claim bits one after the other, and the bits that were won.\<close>

fun claims :: "('b \<Rightarrow> nat \<Rightarrow> (bool \<times> 'b) option) \<Rightarrow> 'b \<Rightarrow> nat list \<Rightarrow> (nat list \<times> 'b) option" where
  "claims tset b [] = Some ([], b)"
| "claims tset b (i # is) = Option.bind (tset b i) (\<lambda>(old, b).
     map_option (\<lambda>(won, b). (if old then won else i # won, b)) (claims tset b is))"

locale bitset =
  fixes size :: "'b \<Rightarrow> nat"
    and elems :: "'b \<Rightarrow> nat set"
    and isset :: "'b \<Rightarrow> nat \<Rightarrow> bool option"
    and tset :: "'b \<Rightarrow> nat \<Rightarrow> (bool \<times> 'b) option"
    and tclear :: "'b \<Rightarrow> nat \<Rightarrow> (bool \<times> 'b) option"
  assumes isset_law: "i < size b \<Longrightarrow> isset b i = Some (i \<in> elems b)"
    and tset_law: "i < size b \<Longrightarrow> \<exists>b'. tset b i = Some (i \<in> elems b, b') \<and> size b' = size b \<and> elems b' = insert i (elems b)"
    and tclear_law: "i < size b \<Longrightarrow> \<exists>b'. tclear b i = Some (i \<in> elems b, b') \<and> size b' = size b \<and> elems b' = elems b - {i}"
begin

text \<open>However many callers race for however many bits, each free bit is won exactly once.\<close>

lemma claims_once:
  "\<forall>i \<in> set is. i < size b \<Longrightarrow> \<exists>won b'. claims tset b is = Some (won, b') \<and> distinct won \<and>
    set won = set is - elems b \<and> elems b' = elems b \<union> set is \<and> size b' = size b"
proof (induction "is" arbitrary: b)
  case (Cons i "is")
  obtain b1 where b1: "tset b i = Some (i \<in> elems b, b1)" "size b1 = size b" "elems b1 = insert i (elems b)"
    using tset_law [of i b] Cons.prems by auto
  obtain won b2 where "claims tset b1 is = Some (won, b2)" "distinct won" "set won = set is - elems b1"
      "elems b2 = elems b1 \<union> set is" "size b2 = size b1"
    using Cons.IH [of b1] Cons.prems b1(2) by auto
  then show ?case using b1 by auto
qed simp

end

definition bm_elems :: "bitmap \<Rightarrow> nat set" where
  "bm_elems bm = {i. i < 64 * length bm \<and> bm_bit bm i}"

interpretation bm: bitset "\<lambda>bm. 64 * length bm" bm_elems bitmap_atomic_isset
    bitmap_atomic_test_and_set bitmap_atomic_test_and_clear
proof
  fix i and b :: bitmap
  assume i: "i < 64 * length b"
  show "bitmap_atomic_isset b i = Some (i \<in> bm_elems b)"
    using bitmap_isset_bit [OF i] i by (simp add: bitmap_atomic_isset_def bitmap_isset_def bm_elems_def)
  show "\<exists>b'. bitmap_atomic_test_and_set b i = Some (i \<in> bm_elems b, b') \<and> 64 * length b' = 64 * length b \<and>
      bm_elems b' = insert i (bm_elems b)"
    using bitmap_set_bit [OF i] bitmap_atomic_test_and_set_eq [OF i] i by (auto simp: bm_elems_def)
  show "\<exists>b'. bitmap_atomic_test_and_clear b i = Some (i \<in> bm_elems b, b') \<and> 64 * length b' = 64 * length b \<and>
      bm_elems b' = bm_elems b - {i}"
    using bitmap_clear_bit [OF i] bitmap_atomic_test_and_clear_eq [OF i] i by (auto simp: bm_elems_def)
qed

lemma bitmap_ffs_find:
  "0 < n \<Longrightarrow> n \<le> 2 ^ 32 - 64 \<Longrightarrow> n \<le> 64 * length bm \<Longrightarrow> bitmap_ffs bm n = Some (find (bm_bit bm) [0..<n])"
  using last_word [of n bm] foreach_visits [of n "\<lambda>w. bm ! w" "\<lambda>i _. (Some i, True)" None]
  by (simp add: bitmap_ffs_def bitmap_macros visit_first head_filter bm_bit_def [abs_def])

lemma bitmap_ffc_find:
  "0 < n \<Longrightarrow> n \<le> 2 ^ 32 - 64 \<Longrightarrow> n \<le> 64 * length bm \<Longrightarrow> bitmap_ffc bm n = Some (find (\<lambda>i. \<not> bm_bit bm i) [0..<n])"
  using last_word [of n bm] foreach_visits [of n "\<lambda>w. NOT (bm ! w)" "\<lambda>i _. (Some i, True)" None]
  by (simp add: bitmap_ffc_def bitmap_macros visit_first head_filter bm_bit_def [abs_def] bit_simps)

lemma bitmap_atomic_search:
  "bitmap_atomic_ffs bm n = bitmap_ffs bm n" "bitmap_atomic_ffc bm n = bitmap_ffc bm n"
  by (simp_all add: bitmap_atomic_ffs_def bitmap_ffs_def bitmap_atomic_ffc_def bitmap_ffc_def)

section \<open>Properties\<close>

text \<open>
  The iteration over the set (or, with the inverted words, the clear) bits of a bitmap, for a limit
  up to the largest multiple of the word size below \<open>2\<^sup>3\<^sup>2\<close>: the loop ends, and the body has seen exactly
  these bits below the limit, each once and in ascending order, up to the one at which it breaks. For a
  larger limit, the 32-bit product in the condition wraps around and a loop that is not left by its
  body never ends.
\<close>

theorem bitmap_foreach_exact:
  assumes "n < 2 ^ 32"
  shows "if n \<le> 2 ^ 32 - 64
    then bitmap_foreach g body n 0 0 s = Some (visit body (filter (\<lambda>i. bit (g (i div 64)) (i mod 64)) [0..<n]) s)
    else (\<forall>i s. \<not> snd (body i s)) \<longrightarrow> bitmap_foreach g body n 0 0 s = None"
  using foreach_visits [of n g body s] foreach_diverges [of g body n 0 0 s]
  by (cases "bitmap_foreach g body n 0 0 s"; cases "n \<le> 2 ^ 32 - 64") auto

text \<open>
  The queries of a bitmap, plain and atomic, answer for all bits below the limit: the first set
  bit, the first clear bit, whether all are clear and whether all are set.
\<close>

theorem bitmap_queries_exact:
  assumes "0 < n" "n \<le> 2 ^ 32 - 64" "n \<le> 64 * length bm"
  shows "bitmap_ffs bm n = Some (find (bm_bit bm) [0..<n]) \<and>
    bitmap_ffc bm n = Some (find (\<lambda>i. \<not> bm_bit bm i) [0..<n]) \<and>
    bitmap_empty bm n = Some (\<forall>i < n. \<not> bm_bit bm i) \<and>
    bitmap_full bm n = Some (\<forall>i < n. bm_bit bm i) \<and>
    bitmap_atomic_ffs bm n = bitmap_ffs bm n \<and> bitmap_atomic_ffc bm n = bitmap_ffc bm n \<and>
    bitmap_atomic_empty bm n = bitmap_empty bm n \<and> bitmap_atomic_full bm n = bitmap_full bm n"
proof -
  note bitmap_ffs_find [OF assms]
  moreover note bitmap_ffc_find [OF assms]
  ultimately show ?thesis
    using bitmap_empty_bits [OF assms(1,3)] bitmap_full_bits [OF assms(1,3)]
    by (simp add: bitmap_atomic_ffs_def bitmap_ffs_def bitmap_atomic_ffc_def bitmap_ffc_def
        bitmap_atomic_empty_def bitmap_empty_def bitmap_atomic_full_def bitmap_full_def)
qed

theorem bitmap_queries_exact_witness:
  "bitmap_ffs [0x10, 0] 100 = Some (Some 4) \<and> bitmap_full [0x10, 0] 100 = Some False"
proof -
  have "find (bm_bit [0x10, 0]) [0..<100] = Some 4" by code_simp
  moreover have "\<not> bm_bit [0x10, 0] 0" by code_simp
  ultimately show ?thesis using bitmap_queries_exact [of 100 "[0x10, 0]"] by (auto intro: exI [of _ 0])
qed

text \<open>
  C37. A field written into a bitmap is read back, and no other bit of the bitmap changes.
\<close>

theorem bitmap_insert_extract:
  assumes "b < 2 ^ 32" "field_ok b width" "0 < width" "b + width \<le> 64 * length bm"
  shows "\<exists>bm'. bitmap_insert bm b width v = Some bm' \<and>
    bitmap_extract bm' b width = Some (v AND util_mask_safe width) \<and>
    (\<forall>j. j < b \<or> b + width \<le> j \<longrightarrow> bm_bit bm' j = bm_bit bm j) \<and>
    bitmap_atomic_insert bm b width v = Some bm' \<and>
    bitmap_atomic_extract bm' b width = bitmap_extract bm' b width"
proof -
  obtain bm' where bm': "bitmap_insert bm b width v = Some bm'" "length bm' = length bm"
    "\<forall>j. bm_bit bm' j \<longleftrightarrow> (if b \<le> j \<and> j < b + width then bit v (j - b) else bm_bit bm j)"
    using bitmap_insert_bits [OF assms] by blast
  obtain x where x: "bitmap_extract bm' b width = Some x" "\<forall>j. bit x j \<longleftrightarrow> j < width \<and> bm_bit bm' (b + j)"
    using bitmap_extract_bits [OF assms(1-3), of bm'] assms(4) bm'(2) by auto
  have "x = v AND util_mask_safe width"
    by (rule bit_word_eqI) (use x(2) bm'(3) bit_mask_safe [OF field_in_word(2) [OF assms(1-3)]] in \<open>auto simp: bit_simps\<close>)
  moreover have "bitmap_atomic_insert bm b width v = bitmap_insert bm b width v"
    by (simp add: bitmap_atomic_insert_def bitmap_insert_def Let_def BITMAP_SIZE_ASSERT_def c_assert_def
        field_ok_def)
  ultimately show ?thesis using bm' x by (auto simp: bitmap_atomic_extract_def bitmap_extract_def)
qed

theorem bitmap_insert_extract_witness:
  "\<exists>bm'. bitmap_insert [0, 0] 70 8 0x1ff = Some bm' \<and> bitmap_extract bm' 70 8 = Some 0xff"
  using bitmap_insert_extract [of 70 8 "[0, 0]" "0x1ff"]
  by (auto simp: field_ok_def field_last_def BITMAP_WORD_def util_mask_safe_def util_mask_def util_bit_def)

text \<open>
  C38. When several CPUs try to claim bits of a bitmap with atomic test-and-set operations, in whatever
  order, every bit that was clear is won exactly once and no bit that was set is won.
\<close>

theorem bitmap_claims_once:
  assumes "\<forall>i \<in> set is. i < 64 * length bm"
  shows "\<exists>won bm'. claims bitmap_atomic_test_and_set bm is = Some (won, bm') \<and> distinct won \<and> set won = set is - bm_elems bm \<and>
    bm_elems bm' = bm_elems bm \<union> set is"
  using bm.claims_once [OF assms] by blast

theorem bitmap_claims_once_witness:
  "\<exists>won bm'. claims bitmap_atomic_test_and_set [1] [0, 5, 5] = Some (won, bm') \<and> distinct won \<and> set won = {0, 5} - bm_elems [1]"
  using bitmap_claims_once [of "[0, 5, 5]" "[1]"] by auto

end
