(* ===== verification/LinkedList.thy ===== *)
theory LinkedList
  imports Gunyah_Prelude
begin

text \<open>
  The circular doubly linked lists of \<^verbatim>\<open>hyp/core/util/src/list.c\<close> over a store of list nodes. The head
  of a list is a node itself. The memory-order arguments of the code only matter to concurrent
  readers; every store is one step here.
\<close>

section \<open>Model\<close>

record list_node =
  ln_next :: ptr
  ln_prev :: ptr

type_synonym list_mem = "ptr \<Rightarrow> list_node"

definition set_next :: "ptr \<Rightarrow> ptr \<Rightarrow> list_mem \<Rightarrow> list_mem" where
  "set_next p q m = m(p := (m p)\<lparr>ln_next := q\<rparr>)"

definition set_prev :: "ptr \<Rightarrow> ptr \<Rightarrow> list_mem \<Rightarrow> list_mem" where
  "set_prev p q m = m(p := (m p)\<lparr>ln_prev := q\<rparr>)"

definition list_init :: "ptr \<Rightarrow> list_mem \<Rightarrow> list_mem option" where
  "list_init list m = do {
     c_assert (list \<noteq> NULL);
     let m = set_next list list m;
     Some (set_prev list list m)
   }"

definition list_is_empty :: "ptr \<Rightarrow> list_mem \<Rightarrow> bool option" where
  "list_is_empty list m = do {
     c_assert (list \<noteq> NULL);
     Some (ln_next (m list) = list)
   }"

definition list_get_head :: "ptr \<Rightarrow> list_mem \<Rightarrow> ptr option" where
  "list_get_head list m = do {
     c_assert (list \<noteq> NULL);
     let node = ln_next (m list);
     Some (if node \<noteq> list then node else NULL)
   }"

definition list_insert_at_head_explicit :: "ptr \<Rightarrow> ptr \<Rightarrow> list_mem \<Rightarrow> list_mem option" where
  "list_insert_at_head_explicit list node m = do {
     c_assert (list \<noteq> NULL);
     c_assert (node \<noteq> NULL);
     let prev = list;
     let nxt = ln_next (m prev);
     let m = set_prev node prev m;
     let m = set_next node nxt m;
     let m = set_next prev node m;
     Some (set_prev nxt node m)
   }"

definition list_insert_at_head :: "ptr \<Rightarrow> ptr \<Rightarrow> list_mem \<Rightarrow> list_mem option" where
  "list_insert_at_head list node m = list_insert_at_head_explicit list node m"

definition list_insert_at_tail_explicit :: "ptr \<Rightarrow> ptr \<Rightarrow> list_mem \<Rightarrow> list_mem option" where
  "list_insert_at_tail_explicit list node m = do {
     c_assert (list \<noteq> NULL);
     c_assert (node \<noteq> NULL);
     let nxt = list;
     let prev = ln_prev (m nxt);
     let m = set_prev node prev m;
     let m = set_next node nxt m;
     let m = set_next prev node m;
     Some (set_prev nxt node m)
   }"

definition list_insert_at_tail :: "ptr \<Rightarrow> ptr \<Rightarrow> list_mem \<Rightarrow> list_mem option" where
  "list_insert_at_tail list node m = list_insert_at_tail_explicit list node m"

definition list_insert_at_tail_release :: "ptr \<Rightarrow> ptr \<Rightarrow> list_mem \<Rightarrow> list_mem option" where
  "list_insert_at_tail_release list node m = list_insert_at_tail_explicit list node m"

text \<open>The search loop of the ordered insertion, from the current \<open>prev\<close> and \<open>next\<close>.\<close>

partial_function (option) list_insert_in_order_seek ::
    "(ptr \<Rightarrow> ptr \<Rightarrow> bool) \<Rightarrow> ptr \<Rightarrow> ptr \<Rightarrow> list_mem \<Rightarrow> ptr \<Rightarrow> ptr \<Rightarrow> (ptr \<times> ptr) option" where
  [code]: "list_insert_in_order_seek compare_fn node head m prev nxt =
    (if nxt \<noteq> head then
       if compare_fn node nxt then Some (prev, nxt)
       else list_insert_in_order_seek compare_fn node head m nxt (ln_next (m nxt))
     else Some (prev, nxt))"

definition list_insert_in_order_explicit ::
    "ptr \<Rightarrow> ptr \<Rightarrow> (ptr \<Rightarrow> ptr \<Rightarrow> bool) \<Rightarrow> list_mem \<Rightarrow> (bool \<times> list_mem) option" where
  "list_insert_in_order_explicit list node compare_fn m = do {
     c_assert (list \<noteq> NULL);
     c_assert (node \<noteq> NULL);
     let head = list;
     (prev, nxt) \<leftarrow> list_insert_in_order_seek compare_fn node head m head (ln_next (m head));
     let new_head = (prev = head);
     let m = set_prev node prev m;
     let m = set_next node nxt m;
     let m = set_next prev node m;
     Some (new_head, set_prev nxt node m)
   }"

definition list_insert_in_order ::
    "ptr \<Rightarrow> ptr \<Rightarrow> (ptr \<Rightarrow> ptr \<Rightarrow> bool) \<Rightarrow> list_mem \<Rightarrow> (bool \<times> list_mem) option" where
  "list_insert_in_order list node compare_fn m = list_insert_in_order_explicit list node compare_fn m"

definition list_insert_after_node_explicit :: "ptr \<Rightarrow> ptr \<Rightarrow> ptr \<Rightarrow> list_mem \<Rightarrow> list_mem option" where
  "list_insert_after_node_explicit list prev node m = do {
     c_assert (node \<noteq> NULL);
     c_assert (prev \<noteq> NULL);
     let nxt = ln_next (m prev);
     let m = set_prev node prev m;
     let m = set_next node nxt m;
     let m = set_next prev node m;
     Some (set_prev nxt node m)
   }"

definition list_insert_after_node :: "ptr \<Rightarrow> ptr \<Rightarrow> ptr \<Rightarrow> list_mem \<Rightarrow> list_mem option" where
  "list_insert_after_node list prev node m = list_insert_after_node_explicit list prev node m"

definition list_delete_node :: "ptr \<Rightarrow> ptr \<Rightarrow> list_mem \<Rightarrow> (bool \<times> list_mem) option" where
  "list_delete_node list node m = do {
     c_assert (list \<noteq> NULL);
     c_assert (node \<noteq> NULL);
     if ln_prev (m node) = NULL then Some (False, m)
     else do {
       let head = list;
       let nxt = ln_next (m node);
       let prev = ln_prev (m node);
       let m = set_next prev nxt m;
       let m = set_prev nxt prev m;
       let new_head = (prev = head \<and> nxt \<noteq> head);
       Some (new_head, set_prev node NULL m)
     }
   }"

text \<open>The iterator: the nodes that it visits, from a given position on.\<close>

partial_function (option) list_foreach_from :: "ptr \<Rightarrow> list_mem \<Rightarrow> ptr \<Rightarrow> ptr list option" where
  [code]: "list_foreach_from list m node =
    (if node \<noteq> list then
       Option.bind (list_foreach_from list m (ln_next (m node))) (\<lambda>ns. Some (node # ns))
     else Some [])"

definition list_foreach :: "ptr \<Rightarrow> list_mem \<Rightarrow> ptr list option" where
  "list_foreach list m = list_foreach_from list m (ln_next (m list))"

section \<open>The nodes of a list\<close>

definition linked :: "list_mem \<Rightarrow> ptr \<Rightarrow> ptr \<Rightarrow> bool" where
  "linked m p q \<longleftrightarrow> ln_next (m p) = q \<and> ln_prev (m q) = p"

definition is_list :: "list_mem \<Rightarrow> ptr \<Rightarrow> ptr list \<Rightarrow> bool" where
  "is_list m h xs \<longleftrightarrow> successively (linked m) (h # xs @ [h]) \<and> distinct (h # xs) \<and> NULL \<notin> set (h # xs)"

lemma successively_weaken:
  "successively P xs \<Longrightarrow> (\<And>u v. u \<in> set (butlast xs) \<Longrightarrow> v \<in> set (tl xs) \<Longrightarrow> P u v \<Longrightarrow> Q u v) \<Longrightarrow>
    successively Q xs"
proof (induction P xs rule: successively.induct)
  case (3 P x y xs)
  have "successively Q (y # xs)"
  proof (rule 3(1))
    show "successively P (y # xs)" using 3(2) by simp
    fix u v assume uv: "u \<in> set (butlast (y # xs))" "v \<in> set (tl (y # xs))" "P u v"
    show "Q u v" by (rule 3(3)) (use uv in \<open>auto split: if_splits\<close>)
  qed
  moreover have "Q x y" by (rule 3(3)) (use 3(2) in auto)
  ultimately show ?case by simp
qed auto

text \<open>The four stores every insertion performs.\<close>

definition splice :: "ptr \<Rightarrow> ptr \<Rightarrow> ptr \<Rightarrow> list_mem \<Rightarrow> list_mem" where
  "splice prev node nxt m = set_prev nxt node (set_next prev node (set_next node nxt (set_prev node prev m)))"

lemma splice_next: "node \<noteq> prev \<Longrightarrow> ln_next (splice prev node nxt m p) =
    (if p = prev then node else if p = node then nxt else ln_next (m p))"
  by (simp add: splice_def set_next_def set_prev_def)

lemma splice_prev: "node \<noteq> nxt \<Longrightarrow> ln_prev (splice prev node nxt m p) =
    (if p = nxt then node else if p = node then prev else ln_prev (m p))"
  by (simp add: splice_def set_next_def set_prev_def)

lemma splice_list:
  assumes "is_list m h (xs @ ys)" "node \<notin> set (h # xs @ ys)" "node \<noteq> NULL"
    "prev = last (h # xs)" "nxt = hd (ys @ [h])"
  shows "is_list (splice prev node nxt m) h (xs @ node # ys)"
proof -
  let ?m = "splice prev node nxt m"
  let ?A = "h # xs" and ?B = "ys @ [h]"
  have d: "distinct (h # xs @ ys)" "NULL \<notin> set (h # xs @ ys)" using assms(1) by (auto simp: is_list_def)
  have s: "successively (linked m) (?A @ ?B)" using assms(1) by (simp add: is_list_def)
  then have sA: "successively (linked m) ?A" and sB: "successively (linked m) ?B"
    unfolding successively_append_iff [of _ ?A ?B] by simp_all
  have p: "prev \<in> set ?A" unfolding assms(4) by (rule last_in_set) simp
  have n: "nxt \<in> set ?B" unfolding assms(5) by (rule hd_in_set) simp
  have ne: "node \<noteq> prev" "node \<noteq> nxt" using p n assms(2) by auto
  have dA: "distinct ?A" and dB: "distinct ?B" using d by auto
  have pA: "prev \<notin> set (butlast ?A)" using dA unfolding assms(4) by (metis append_butlast_last_id distinct_butlast not_distinct_conv_prefix list.distinct(1))
  have nB: "nxt \<notin> set (tl ?B)" using dB unfolding assms(5) by (metis append_is_Nil_conv distinct.simps(2) list.collapse not_Cons_self2)
  have "successively (linked ?m) ?A"
  proof (rule successively_weaken [OF sA])
    fix u v assume uv: "u \<in> set (butlast ?A)" "v \<in> set (tl ?A)" "linked m u v"
    have "u \<noteq> prev" "u \<noteq> node" using uv(1) pA assms(2) in_set_butlastD by fastforce+
    moreover have "v \<noteq> nxt" "v \<noteq> node" using uv(2) n d assms(2) by auto
    ultimately show "linked ?m u v" using uv(3) ne by (simp add: linked_def splice_next splice_prev)
  qed
  moreover have "successively (linked ?m) ?B"
  proof (rule successively_weaken [OF sB])
    fix u v assume uv: "u \<in> set (butlast ?B)" "v \<in> set (tl ?B)" "linked m u v"
    have "u \<in> set ys" using uv(1) by simp
    then have "u \<noteq> prev" "u \<noteq> node" using p d assms(2) by auto
    moreover have "v \<in> set ?B" using uv(2) by (meson list.set_sel(2) append_is_Nil_conv not_Cons_self2)
    then have "v \<noteq> nxt" "v \<noteq> node" using uv(2) nB assms(2) by auto
    ultimately show "linked ?m u v" using uv(3) ne by (simp add: linked_def splice_next splice_prev)
  qed
  moreover have "linked ?m prev node" "linked ?m node nxt"
    using ne by (auto simp: linked_def splice_next splice_prev)
  ultimately have "successively (linked ?m) (?A @ [node] @ ?B)"
    using assms(4,5) by (simp add: successively_append_iff successively_Cons del: append.simps)
  then show ?thesis using d assms(2,3) by (auto simp: is_list_def)
qed

text \<open>The four stores of a deletion.\<close>

definition unsplice :: "ptr \<Rightarrow> ptr \<Rightarrow> ptr \<Rightarrow> list_mem \<Rightarrow> list_mem" where
  "unsplice prev node nxt m = set_prev node NULL (set_prev nxt prev (set_next prev nxt m))"

lemma unsplice_next: "ln_next (unsplice prev node nxt m p) = (if p = prev then nxt else ln_next (m p))"
  by (simp add: unsplice_def set_next_def set_prev_def)

lemma unsplice_prev: "ln_prev (unsplice prev node nxt m p) =
    (if p = node then NULL else if p = nxt then prev else ln_prev (m p))"
  by (simp add: unsplice_def set_next_def set_prev_def)

lemma list_neighbours:
  assumes "is_list m h (xs @ x # ys)"
  shows "ln_prev (m x) = last (h # xs)" "ln_next (m x) = hd (ys @ [h])"
proof -
  have s: "successively (linked m) ((h # xs) @ x # (ys @ [h]))" using assms by (simp add: is_list_def)
  then have "linked m (last (h # xs)) x"
    unfolding successively_append_iff [of _ "h # xs"] by simp
  then show "ln_prev (m x) = last (h # xs)" by (simp add: linked_def)
  from s have "successively (linked m) (x # (ys @ [h]))"
    unfolding successively_append_iff [of _ "h # xs"] by simp
  then have "linked m x (hd (ys @ [h]))" by (cases ys) auto
  then show "ln_next (m x) = hd (ys @ [h])" by (simp add: linked_def)
qed

lemma unsplice_list:
  assumes "is_list m h (xs @ node # ys)" "prev = last (h # xs)" "nxt = hd (ys @ [h])"
  shows "is_list (unsplice prev node nxt m) h (xs @ ys)"
proof -
  let ?m = "unsplice prev node nxt m"
  let ?A = "h # xs" and ?B = "ys @ [h]"
  have d: "distinct (h # xs @ node # ys)" "NULL \<notin> set (h # xs @ node # ys)" using assms(1) by (auto simp: is_list_def)
  have s: "successively (linked m) (?A @ node # ?B)" using assms(1) by (simp add: is_list_def)
  then have sA: "successively (linked m) ?A" and "successively (linked m) (node # ?B)"
    unfolding successively_append_iff [of _ ?A "node # ?B"] by simp_all
  then have sB: "successively (linked m) ?B" by (simp add: successively_Cons)
  have p: "prev \<in> set ?A" unfolding assms(2) by (rule last_in_set) simp
  have n: "nxt \<in> set ?B" unfolding assms(3) by (rule hd_in_set) simp
  have pA: "prev \<notin> set (butlast ?A)" using d(1) unfolding assms(2) by (metis append_butlast_last_id distinct_append distinct_butlast not_distinct_conv_prefix list.distinct(1) append_Cons)
  have nB: "nxt \<notin> set (tl ?B)" using d(1) unfolding assms(3) by (cases ys) auto
  have "successively (linked ?m) ?A"
  proof (rule successively_weaken [OF sA])
    fix u v assume uv: "u \<in> set (butlast ?A)" "v \<in> set (tl ?A)" "linked m u v"
    have "u \<noteq> prev" using uv(1) pA by auto
    moreover have "v \<noteq> nxt" "v \<noteq> node" using uv(2) n d by auto
    ultimately show "linked ?m u v" using uv(3) by (simp add: linked_def unsplice_next unsplice_prev)
  qed
  moreover have "successively (linked ?m) ?B"
  proof (rule successively_weaken [OF sB])
    fix u v assume uv: "u \<in> set (butlast ?B)" "v \<in> set (tl ?B)" "linked m u v"
    have "u \<in> set ys" using uv(1) by simp
    then have "u \<noteq> prev" using p d by auto
    moreover have "v \<in> set ?B" using uv(2) by (cases ys) auto
    then have "v \<noteq> nxt" "v \<noteq> node" using uv(2) nB d by auto
    ultimately show "linked ?m u v" using uv(3) by (simp add: linked_def unsplice_next unsplice_prev)
  qed
  moreover have "linked ?m prev nxt" using n d by (auto simp: linked_def unsplice_next unsplice_prev)
  ultimately have "successively (linked ?m) (?A @ ?B)"
    unfolding successively_append_iff [of _ ?A ?B] using assms(2,3) by simp
  then show ?thesis using d by (auto simp: is_list_def)
qed

section \<open>The operations on the nodes of a list\<close>

lemma is_list_head: "is_list m h xs \<Longrightarrow> h \<noteq> NULL \<and> ln_next (m h) = hd (xs @ [h]) \<and> ln_prev (m h) = last (h # xs)"
proof -
  assume l: "is_list m h xs"
  have "successively (linked m) (h # (xs @ [h]))" "successively (linked m) ((h # xs) @ [h])"
    using l by (simp_all add: is_list_def)
  then have "linked m h (hd (xs @ [h]))" "linked m (last (h # xs)) h"
    unfolding successively_append_iff [of _ "h # xs"] by (cases xs; simp)+
  then show ?thesis using l by (simp add: is_list_def linked_def)
qed

lemma iter_from_list:
  assumes "is_list m h (xs @ ys)"
  shows "list_foreach_from h m (hd (ys @ [h])) = Some ys"
  using assms
proof (induction ys arbitrary: xs)
  case Nil
  then show ?case by (simp add: list_foreach_from.simps)
next
  case (Cons y ys)
  have "y \<noteq> h" using Cons.prems by (auto simp: is_list_def)
  moreover have "ln_next (m y) = hd (ys @ [h])" using list_neighbours(2) Cons.prems .
  moreover have "list_foreach_from h m (hd (ys @ [h])) = Some ys" using Cons.IH [of "xs @ [y]"] Cons.prems by simp
  ultimately show ?case by (simp add: list_foreach_from.simps [of h m y])
qed

lemma seek_in_order:
  assumes "is_list m h (xs @ ys)" "\<forall>x \<in> set xs. \<not> cmp node x"
  shows "\<exists>zs ws. ys = zs @ ws \<and> (\<forall>z \<in> set zs. \<not> cmp node z) \<and> (ws \<noteq> [] \<longrightarrow> cmp node (hd ws)) \<and>
    list_insert_in_order_seek cmp node h m (last (h # xs)) (hd (ys @ [h])) = Some (last (h # xs @ zs), hd (ws @ [h]))"
  using assms
proof (induction ys arbitrary: xs)
  case Nil
  then show ?case by (simp add: list_insert_in_order_seek.simps)
next
  case (Cons y ys)
  have yh: "y \<noteq> h" using Cons.prems by (auto simp: is_list_def)
  show ?case
  proof (cases "cmp node y")
    case True
    then show ?thesis using yh
      by (intro exI [of _ "[]"] exI [of _ "y # ys"]) (simp add: list_insert_in_order_seek.simps)
  next
    case False
    have nx: "ln_next (m y) = hd (ys @ [h])" using list_neighbours(2) Cons.prems(1) .
    obtain zs ws where zw: "ys = zs @ ws" "\<forall>z \<in> set zs. \<not> cmp node z" "ws \<noteq> [] \<longrightarrow> cmp node (hd ws)"
      "list_insert_in_order_seek cmp node h m (last (h # xs @ [y])) (hd (ys @ [h])) =
        Some (last (h # (xs @ [y]) @ zs), hd (ws @ [h]))"
    proof -
      have "is_list m h ((xs @ [y]) @ ys)" "\<forall>x \<in> set (xs @ [y]). \<not> cmp node x" using Cons.prems False by auto
      from Cons.IH [OF this] show thesis using that by blast
    qed
    have "list_insert_in_order_seek cmp node h m (last (h # xs)) y =
        list_insert_in_order_seek cmp node h m y (hd (ys @ [h]))"
      using yh False nx by (subst list_insert_in_order_seek.simps) simp
    then show ?thesis using zw False by (intro exI [of _ "y # zs"] exI [of _ ws]) simp
  qed
qed

lemma insert_in_order_splice:
  assumes l: "is_list m h xs" and node: "node \<noteq> NULL"
  shows "\<exists>ys zs. xs = ys @ zs \<and> (\<forall>y \<in> set ys. \<not> cmp node y) \<and> (zs \<noteq> [] \<longrightarrow> cmp node (hd zs)) \<and>
    list_insert_in_order h node cmp m = Some (ys = [], splice (last (h # ys)) node (hd (zs @ [h])) m)"
proof -
  obtain ys zs where yz: "xs = ys @ zs" "\<forall>y \<in> set ys. \<not> cmp node y" "zs \<noteq> [] \<longrightarrow> cmp node (hd zs)"
    "list_insert_in_order_seek cmp node h m h (hd (xs @ [h])) = Some (last (h # ys), hd (zs @ [h]))"
  proof -
    have "\<exists>ys zs. xs = ys @ zs \<and> (\<forall>y \<in> set ys. \<not> cmp node y) \<and> (zs \<noteq> [] \<longrightarrow> cmp node (hd zs)) \<and>
        list_insert_in_order_seek cmp node h m (last [h]) (hd (xs @ [h])) = Some (last (h # [] @ ys), hd (zs @ [h]))"
      by (rule seek_in_order) (use l in auto)
    then show thesis using that unfolding append_Nil last_ConsL [OF refl] by blast
  qed
  have "last (h # ys) = h \<longleftrightarrow> ys = []" using l yz(1) by (auto simp: is_list_def dest: last_in_set)
  moreover have "list_insert_in_order h node cmp m =
      Some (last (h # ys) = h, splice (last (h # ys)) node (hd (zs @ [h])) m)"
    using is_list_head [OF l] yz(4) node
    by (simp add: list_insert_in_order_def list_insert_in_order_explicit_def splice_def Let_def)
  ultimately show ?thesis using yz by (intro exI [of _ ys] exI [of _ zs]) simp
qed

lemma insert_in_order:
  assumes l: "is_list m h xs" and node: "node \<notin> set (h # xs)" "node \<noteq> NULL"
  shows "\<exists>ys zs m'. xs = ys @ zs \<and> (\<forall>y \<in> set ys. \<not> cmp node y) \<and> (zs \<noteq> [] \<longrightarrow> cmp node (hd zs)) \<and>
    list_insert_in_order h node cmp m = Some (ys = [], m') \<and> is_list m' h (ys @ node # zs)"
proof -
  obtain ys zs where yz: "xs = ys @ zs" "\<forall>y \<in> set ys. \<not> cmp node y" "zs \<noteq> [] \<longrightarrow> cmp node (hd zs)"
      "list_insert_in_order h node cmp m = Some (ys = [], splice (last (h # ys)) node (hd (zs @ [h])) m)"
    using insert_in_order_splice [OF l node(2), of cmp] by blast
  moreover have "is_list (splice (last (h # ys)) node (hd (zs @ [h])) m) h (ys @ node # zs)"
    using l node by (intro splice_list) (simp_all add: yz(1))
  ultimately show ?thesis by blast
qed

lemma insert_at_head_splice:
  "is_list m h xs \<Longrightarrow> node \<noteq> NULL \<Longrightarrow> list_insert_at_head h node m = Some (splice h node (hd (xs @ [h])) m)"
  using is_list_head [of m h xs]
  by (simp add: list_insert_at_head_def list_insert_at_head_explicit_def splice_def Let_def)

lemma insert_after_splice:
  "is_list m h (ys @ p # zs) \<Longrightarrow> node \<noteq> NULL \<Longrightarrow>
    list_insert_after_node h p node m = Some (splice p node (hd (zs @ [h])) m)"
  using list_neighbours(2) [of m h ys p zs]
  by (auto simp: list_insert_after_node_def list_insert_after_node_explicit_def splice_def Let_def is_list_def)

lemma delete_unsplice:
  assumes l: "is_list m h (xs @ node # ys)"
  shows "list_delete_node h node m = Some (xs = [] \<and> ys \<noteq> [], unsplice (last (h # xs)) node (hd (ys @ [h])) m)"
proof -
  let ?p = "last (h # xs)" and ?n = "hd (ys @ [h])"
  have d: "distinct (h # xs @ node # ys)" "NULL \<notin> set (h # xs @ node # ys)" using l by (auto simp: is_list_def)
  have "?p \<in> set (h # xs)" by (rule last_in_set) simp
  then have np: "?p \<noteq> NULL" using d by auto
  have "?p = h \<longleftrightarrow> xs = []" "?n = h \<longleftrightarrow> ys = []"
    using d last_in_set [of xs] by (auto, cases ys) auto
  then show ?thesis using list_neighbours [OF l] np d by (simp add: list_delete_node_def unsplice_def Let_def)
qed

lemma delete_node:
  assumes l: "is_list m h (xs @ node # ys)"
  shows "\<exists>m'. list_delete_node h node m = Some (xs = [] \<and> ys \<noteq> [], m') \<and> is_list m' h (xs @ ys) \<and>
    ln_prev (m' node) = NULL \<and> ln_next (m' node) = hd (ys @ [h])"
proof -
  let ?p = "last (h # xs)" and ?n = "hd (ys @ [h])"
  have d: "distinct (h # xs @ node # ys)" using l by (simp add: is_list_def)
  have "?p \<in> set (h # xs)" by (rule last_in_set) simp
  then have "?p \<noteq> node" using d by auto
  then have "ln_next (unsplice ?p node ?n m node) = ?n" "ln_prev (unsplice ?p node ?n m node) = NULL"
    using list_neighbours [OF l] by (simp_all add: unsplice_next unsplice_prev)
  then show ?thesis using delete_unsplice [OF l] unsplice_list [OF l refl refl] by simp
qed

lemma init_list: "h \<noteq> NULL \<Longrightarrow> \<exists>m'. list_init h m = Some m' \<and> is_list m' h []"
  by (simp add: list_init_def is_list_def linked_def set_next_def set_prev_def)

lemma list_queries:
  assumes "is_list m h xs"
  shows "list_is_empty h m = Some (xs = [])" "list_get_head h m = Some (case xs of [] \<Rightarrow> NULL | x # _ \<Rightarrow> x)"
proof -
  have "hd (xs @ [h]) = h \<longleftrightarrow> xs = []" using assms by (cases xs) (auto simp: is_list_def)
  then show "list_is_empty h m = Some (xs = [])" "list_get_head h m = Some (case xs of [] \<Rightarrow> NULL | x # _ \<Rightarrow> x)"
    using is_list_head [OF assms] by (auto simp: list_is_empty_def list_get_head_def split: list.split)
qed

section \<open>Families of lists\<close>

text \<open>The lists of a set of heads that share no node. An operation on one of them keeps the others.\<close>

definition lists :: "list_mem \<Rightarrow> ptr set \<Rightarrow> (ptr \<Rightarrow> ptr list) \<Rightarrow> bool" where
  "lists m H L \<longleftrightarrow> (\<forall>h \<in> H. is_list m h (L h)) \<and>
    (\<forall>h \<in> H. \<forall>h' \<in> H. h \<noteq> h' \<longrightarrow> set (h # L h) \<inter> set (h' # L h') = {})"

lemma lists_list: "lists m H L \<Longrightarrow> h \<in> H \<Longrightarrow> is_list m h (L h)"
  by (simp add: lists_def)

lemma lists_apart:
  "lists m H L \<Longrightarrow> h \<in> H \<Longrightarrow> h' \<in> H \<Longrightarrow> h' \<noteq> h \<Longrightarrow> p \<in> set (h' # L h') \<Longrightarrow> p \<notin> set (h # L h)"
  unfolding lists_def by blast

lemma is_list_cong:
  assumes "is_list m h xs" "\<And>p. p \<in> set (h # xs) \<Longrightarrow> m' p = m p"
  shows "is_list m' h xs"
proof -
  have "successively (linked m) (h # xs @ [h])" using assms(1) by (simp add: is_list_def)
  then have "successively (linked m') (h # xs @ [h])"
  proof (rule successively_weaken)
    fix u v assume uv: "u \<in> set (butlast (h # xs @ [h]))" "v \<in> set (tl (h # xs @ [h]))" "linked m u v"
    have "u \<in> set (h # xs)" "v \<in> set (h # xs)" using uv(1,2) by (auto simp: butlast_append split: if_splits)
    then show "linked m' u v" using uv(3) assms(2) by (simp add: linked_def)
  qed
  then show ?thesis using assms(1) by (simp add: is_list_def)
qed

lemma lists_cong:
  assumes "lists m H L" "\<And>h p. h \<in> H \<Longrightarrow> p \<in> set (h # L h) \<Longrightarrow> m' p = m p"
  shows "lists m' H L"
proof -
  have "is_list m' h (L h)" if "h \<in> H" for h
    by (rule is_list_cong [of m]) (use assms that in \<open>auto simp: lists_def\<close>)
  then show ?thesis using assms(1) unfolding lists_def by blast
qed

text \<open>One list changes, within its own nodes and fresh ones.\<close>

lemma lists_update:
  assumes l: "lists m H L" "h \<in> H" and new: "is_list m' h xs"
    and fresh: "\<And>h' p. h' \<in> H \<Longrightarrow> h' \<noteq> h \<Longrightarrow> p \<in> set (h' # L h') \<Longrightarrow> p \<notin> set (h # xs) \<and> m' p = m p"
  shows "lists m' H (L(h := xs))"
  unfolding lists_def
proof (intro conjI ballI impI)
  fix h' assume "h' \<in> H"
  then show "is_list m' h' ((L(h := xs)) h')"
  proof (cases "h' = h")
    case False
    have "is_list m' h' (L h')"
      by (rule is_list_cong [OF lists_list [OF l(1) \<open>h' \<in> H\<close>]]) (use fresh \<open>h' \<in> H\<close> False in blast)
    then show ?thesis using False by simp
  qed (simp add: new)
next
  fix h1 h2 assume h: "h1 \<in> H" "h2 \<in> H" "h1 \<noteq> h2"
  show "set (h1 # (L(h := xs)) h1) \<inter> set (h2 # (L(h := xs)) h2) = {}"
  proof (cases "h1 = h")
    case True
    then show ?thesis using h fresh [of h2] by fastforce
  next
    case h1: False
    show ?thesis
    proof (cases "h2 = h")
      case True
      then show ?thesis using h h1 fresh [of h1] by fastforce
    next
      case False
      then show ?thesis using h h1 l(1) unfolding lists_def by (metis fun_upd_other)
    qed
  qed
qed

lemma splice_other: "p \<notin> {prev, node, nxt} \<Longrightarrow> splice prev node nxt m p = m p"
  by (simp add: splice_def set_next_def set_prev_def)

lemma unsplice_other: "p \<notin> {prev, node, nxt} \<Longrightarrow> unsplice prev node nxt m p = m p"
  by (simp add: unsplice_def set_next_def set_prev_def)

lemma lists_splice:
  assumes l: "lists m H L" "h \<in> H" "L h = xs @ ys" and node: "node \<noteq> NULL" "\<forall>h' \<in> H. node \<notin> set (h' # L h')"
  shows "lists (splice (last (h # xs)) node (hd (ys @ [h])) m) H (L(h := xs @ node # ys))"
proof (rule lists_update [OF l(1,2)])
  have "is_list m h (xs @ ys)" using l by (metis lists_def)
  then show "is_list (splice (last (h # xs)) node (hd (ys @ [h])) m) h (xs @ node # ys)"
    using node l(2,3) by (intro splice_list) auto
  have in1: "last (h # xs) \<in> set (h # xs)" by (rule last_in_set) simp
  have in2: "hd (ys @ [h]) \<in> set (ys @ [h])" by (rule hd_in_set) simp
  fix h' p assume h': "h' \<in> H" "h' \<noteq> h" "p \<in> set (h' # L h')"
  then have "p \<notin> set (h # L h)" "p \<noteq> node" using lists_apart [OF l(1,2)] node by blast+
  then show "p \<notin> set (h # xs @ node # ys) \<and> splice (last (h # xs)) node (hd (ys @ [h])) m p = m p"
    using in1 in2 l(3) by (auto intro!: splice_other)
qed

lemma lists_insert_at_head:
  assumes "lists m H L" "h \<in> H" "node \<noteq> NULL" "\<forall>h' \<in> H. node \<notin> set (h' # L h')"
  shows "\<exists>m'. list_insert_at_head h node m = Some m' \<and> lists m' H (L(h := node # L h))"
  using lists_splice [of m H L h "[]" "L h" node] insert_at_head_splice [of m h "L h" node] assms
  by (simp add: lists_def)

lemma lists_insert_after:
  assumes "lists m H L" "h \<in> H" "node \<noteq> NULL" "\<forall>h' \<in> H. node \<notin> set (h' # L h')" "L h = ys @ p # zs"
  shows "\<exists>m'. list_insert_after_node h p node m = Some m' \<and> lists m' H (L(h := ys @ p # node # zs))"
proof -
  have "is_list m h (ys @ p # zs)" using assms(1,2,5) by (metis lists_def)
  then show ?thesis
    using lists_splice [of m H L h "ys @ [p]" zs node] insert_after_splice [of m h ys p zs node] assms by simp
qed

lemma lists_insert_in_order:
  assumes l: "lists m H L" "h \<in> H" and node: "node \<noteq> NULL" "\<forall>h' \<in> H. node \<notin> set (h' # L h')"
  shows "\<exists>ys zs m'. L h = ys @ zs \<and> (\<forall>y \<in> set ys. \<not> cmp node y) \<and> (zs \<noteq> [] \<longrightarrow> cmp node (hd zs)) \<and>
    list_insert_in_order h node cmp m = Some (ys = [], m') \<and> lists m' H (L(h := ys @ node # zs)) \<and>
    (\<forall>p. p \<notin> set (node # h # L h) \<longrightarrow> m' p = m p)"
proof -
  obtain ys zs where yz: "L h = ys @ zs" "\<forall>y \<in> set ys. \<not> cmp node y" "zs \<noteq> [] \<longrightarrow> cmp node (hd zs)"
      "list_insert_in_order h node cmp m = Some (ys = [], splice (last (h # ys)) node (hd (zs @ [h])) m)"
    using insert_in_order_splice [OF lists_list [OF l] node(1), of cmp] by blast
  have "last (h # ys) \<in> set (h # ys)" "hd (zs @ [h]) \<in> set (zs @ [h])" by (rule last_in_set hd_in_set, simp)+
  then have "splice (last (h # ys)) node (hd (zs @ [h])) m p = m p" if "p \<notin> set (node # h # L h)" for p
    using that by (intro splice_other) (auto simp: yz(1))
  then show ?thesis using yz lists_splice [OF l yz(1) node] by blast
qed

lemma lists_delete:
  assumes l: "lists m H L" "h \<in> H" "L h = xs @ node # ys"
  shows "\<exists>m'. list_delete_node h node m = Some (xs = [] \<and> ys \<noteq> [], m') \<and> lists m' H (L(h := xs @ ys)) \<and>
    ln_prev (m' node) = NULL \<and> (\<forall>p. p \<notin> set (h # L h) \<longrightarrow> m' p = m p)"
proof -
  let ?m = "unsplice (last (h # xs)) node (hd (ys @ [h])) m"
  have i: "is_list m h (xs @ node # ys)" using l by (metis lists_def)
  have in12: "last (h # xs) \<in> set (h # xs)" "hd (ys @ [h]) \<in> set (ys @ [h])" by (rule last_in_set hd_in_set, simp)+
  have other: "?m p = m p" if "p \<notin> set (h # L h)" for p
    using that in12 by (intro unsplice_other) (auto simp: l(3))
  have "lists ?m H (L(h := xs @ ys))"
  proof (rule lists_update [OF l(1,2) unsplice_list [OF i refl refl]])
    fix h' p assume h': "h' \<in> H" "h' \<noteq> h" "p \<in> set (h' # L h')"
    then have "p \<notin> set (h # L h)" using lists_apart [OF l(1,2)] by blast
    then show "p \<notin> set (h # xs @ ys) \<and> ?m p = m p" using other l(3) by auto
  qed
  moreover have "ln_prev (?m node) = NULL" by (simp add: unsplice_prev)
  ultimately show ?thesis using delete_unsplice [OF i] other by blast
qed

section \<open>Properties\<close>

text \<open>
  Insertions keep a list well formed and put the node where they say: at the head, at the tail,
  after a given node, or, in order, behind all nodes that do not compare greater and before the first
  one that does, reporting whether the node became the first one. An iteration then visits the nodes
  in that order.
\<close>

theorem list_insert_exact:
  assumes l: "is_list m h xs" and node: "node \<notin> set (h # xs)" "node \<noteq> NULL"
  shows "(\<exists>m'. list_insert_at_head h node m = Some m' \<and> is_list m' h (node # xs)) \<and>
    (\<exists>m'. list_insert_at_tail h node m = Some m' \<and> is_list m' h (xs @ [node])) \<and>
    (\<forall>ys p zs. xs = ys @ p # zs \<longrightarrow>
      (\<exists>m'. list_insert_after_node h p node m = Some m' \<and> is_list m' h (ys @ p # node # zs))) \<and>
    (\<exists>ys zs m'. xs = ys @ zs \<and> (\<forall>y \<in> set ys. \<not> cmp node y) \<and> (zs \<noteq> [] \<longrightarrow> cmp node (hd zs)) \<and>
      list_insert_in_order h node cmp m = Some (ys = [], m') \<and> is_list m' h (ys @ node # zs) \<and>
      list_foreach h m' = Some (ys @ node # zs))"
proof (intro conjI)
  note hd = is_list_head [OF l]
  have "is_list (splice h node (hd (xs @ [h])) m) h ([] @ node # xs)"
    using l node by (intro splice_list) simp_all
  then show "\<exists>m'. list_insert_at_head h node m = Some m' \<and> is_list m' h (node # xs)"
    using insert_at_head_splice [OF l node(2)] by simp
  have "is_list (splice (last (h # xs)) node h m) h (xs @ node # [])"
    using l node by (intro splice_list) simp_all
  then show "\<exists>m'. list_insert_at_tail h node m = Some m' \<and> is_list m' h (xs @ [node])"
    using hd node(2)
    by (simp add: list_insert_at_tail_def list_insert_at_tail_explicit_def splice_def Let_def)
  show "\<forall>ys p zs. xs = ys @ p # zs \<longrightarrow>
      (\<exists>m'. list_insert_after_node h p node m = Some m' \<and> is_list m' h (ys @ p # node # zs))"
  proof (intro allI impI)
    fix ys p zs assume xs: "xs = ys @ p # zs"
    have "is_list (splice p node (hd (zs @ [h])) m) h ((ys @ [p]) @ node # zs)"
      using l node by (intro splice_list) (simp_all add: xs)
    then show "\<exists>m'. list_insert_after_node h p node m = Some m' \<and> is_list m' h (ys @ p # node # zs)"
      using insert_after_splice [of m h ys p zs node] l xs node(2) by simp
  qed
  obtain ys zs m' where yz: "xs = ys @ zs" "\<forall>y \<in> set ys. \<not> cmp node y" "zs \<noteq> [] \<longrightarrow> cmp node (hd zs)"
    "list_insert_in_order h node cmp m = Some (ys = [], m')" "is_list m' h (ys @ node # zs)"
    using insert_in_order [OF assms] by blast
  have "list_foreach_from h m' (hd ((ys @ node # zs) @ [h])) = Some (ys @ node # zs)"
    by (rule iter_from_list [of m' h "[]"]) (use yz(5) in simp)
  then have "list_foreach h m' = Some (ys @ node # zs)"
    using is_list_head [OF yz(5)] by (simp add: list_foreach_def)
  then show "\<exists>ys zs m'. xs = ys @ zs \<and> (\<forall>y \<in> set ys. \<not> cmp node y) \<and> (zs \<noteq> [] \<longrightarrow> cmp node (hd zs)) \<and>
      list_insert_in_order h node cmp m = Some (ys = [], m') \<and> is_list m' h (ys @ node # zs) \<and>
      list_foreach h m' = Some (ys @ node # zs)"
    using yz by blast
qed

definition empty_mem :: list_mem where
  "empty_mem = (\<lambda>p. if p = 8 then \<lparr>ln_next = 8, ln_prev = 8\<rparr> else \<lparr>ln_next = 0, ln_prev = 0\<rparr>)"

lemma empty_mem_list: "is_list empty_mem 8 []"
  by (simp add: is_list_def linked_def empty_mem_def)

theorem list_insert_exact_witness:
  "\<exists>m'. list_insert_at_tail 8 16 empty_mem = Some m' \<and> is_list m' 8 [16]"
  using list_insert_exact [OF empty_mem_list, of 16 "\<lambda>_ _. True"] by simp

text \<open>
  Deleting a node takes exactly that node out of the list and reports whether the list has a new
  first node; deleting a node that is in no list changes nothing. An unlocked iterator that stands at
  the deleted node still visits every remaining node behind it.
\<close>

theorem list_delete_exact:
  assumes "is_list m h (xs @ node # ys)"
  shows "\<exists>m'. list_delete_node h node m = Some (xs = [] \<and> ys \<noteq> [], m') \<and> is_list m' h (xs @ ys) \<and>
    list_foreach h m' = Some (xs @ ys) \<and> list_foreach_from h m' node = Some (node # ys) \<and>
    list_delete_node h node m' = Some (False, m')"
proof -
  obtain m' where m': "list_delete_node h node m = Some (xs = [] \<and> ys \<noteq> [], m')" "is_list m' h (xs @ ys)"
    "ln_prev (m' node) = NULL" "ln_next (m' node) = hd (ys @ [h])"
    using delete_node [OF assms] by blast
  have d: "node \<noteq> h" "node \<noteq> NULL" "h \<noteq> NULL" using assms by (auto simp: is_list_def)
  have "list_foreach_from h m' (hd (ys @ [h])) = Some ys" using m'(2) by (rule iter_from_list)
  then have "list_foreach_from h m' node = Some (node # ys)"
    using d(1) m'(4) by (subst list_foreach_from.simps) simp
  moreover have "list_foreach_from h m' (hd ((xs @ ys) @ [h])) = Some (xs @ ys)"
    by (rule iter_from_list [of m' h "[]"]) (use m'(2) in simp)
  then have "list_foreach h m' = Some (xs @ ys)" using is_list_head [OF m'(2)] by (simp add: list_foreach_def)
  moreover have "list_delete_node h node m' = Some (False, m')" using m'(3) d by (simp add: list_delete_node_def)
  ultimately show ?thesis using m' by blast
qed

definition one_mem :: list_mem where
  "one_mem = (\<lambda>p. if p = 8 then \<lparr>ln_next = 16, ln_prev = 16\<rparr>
     else if p = 16 then \<lparr>ln_next = 8, ln_prev = 8\<rparr> else \<lparr>ln_next = 0, ln_prev = 0\<rparr>)"

theorem list_delete_exact_witness:
  "\<exists>m'. list_delete_node 8 16 one_mem = Some (False, m') \<and> is_list m' 8 []"
proof -
  have "is_list one_mem 8 ([] @ 16 # [])" by (simp add: is_list_def linked_def one_mem_def)
  from list_delete_exact [OF this] show ?thesis by auto
qed

end
