(* ===== verification/Spinlock.thy ===== *)
theory Spinlock
  imports Gunyah_Prelude
begin

text \<open>
  The ticket spinlock of \<^verbatim>\<open>hyp/core/spinlock_ticket/src/spinlock_ticket.c\<close>, used by any number of CPUs
  at once. Each CPU is at some point inside one of the lock functions; a step of a CPU is one atomic
  access to the lock, so that the steps of different CPUs interleave in every possible way. The
  trigger events of the code inform debugging modules only and are left out.
\<close>

section \<open>Model\<close>

record spinlock =
  now_serving :: u16
  next_ticket :: u16

text \<open>
  Where a CPU is. The flag says whether it entered through the function that also disables preemption
  (\<^verbatim>\<open>spinlock_acquire\<close>, \<^verbatim>\<open>spinlock_trylock\<close>, \<^verbatim>\<open>spinlock_release\<close>) or through the variant that does not.
\<close>

datatype pc =
    Outside
  | AcqTake bool
  | AcqWait bool u16
  | TryLoad bool
  | TryCas bool u16
  | Holding
  | RelLoad bool
  | RelStore bool u16

datatype spin_call = Acquire bool | Trylock bool | Release bool | Continue

text \<open>
  Besides the lock, the place of every CPU and its preemption count, the state has two counters that
  the code does not have: the number of tickets handed out, and for a CPU in \<^verbatim>\<open>spinlock_trylock\<close> the
  number of releases at the time it read \<^verbatim>\<open>now_serving\<close>.
\<close>

record spin_sys =
  lock :: spinlock
  at :: "nat \<Rightarrow> pc"
  preempt :: "nat \<Rightarrow> nat"
  taken :: nat
  served :: nat
  seen :: "nat \<Rightarrow> nat"

definition spinlock_init :: spinlock where
  "spinlock_init = \<lparr>now_serving = 0, next_ticket = 0\<rparr>"

definition go :: "nat \<Rightarrow> pc \<Rightarrow> spin_sys \<Rightarrow> spin_sys" where
  "go c l s = s\<lparr>at := (at s)(c := l)\<rparr>"

definition preempt_disable :: "nat \<Rightarrow> bool \<Rightarrow> spin_sys \<Rightarrow> spin_sys" where
  "preempt_disable c p s = (if p then s\<lparr>preempt := (preempt s)(c := preempt s c + 1)\<rparr> else s)"

definition preempt_enable :: "nat \<Rightarrow> bool \<Rightarrow> spin_sys \<Rightarrow> spin_sys" where
  "preempt_enable c p s = (if p then s\<lparr>preempt := (preempt s)(c := preempt s c - 1)\<rparr> else s)"

definition spinlock_acquire :: "nat \<Rightarrow> bool \<Rightarrow> spin_sys \<Rightarrow> spin_sys" where
  "spinlock_acquire c p s = go c (AcqTake p) (preempt_disable c p s)"

text \<open>The two accesses of \<^verbatim>\<open>spinlock_acquire_nopreempt\<close>: take a ticket, and look whether it is served.\<close>

definition acquire_take :: "nat \<Rightarrow> bool \<Rightarrow> spin_sys \<Rightarrow> spin_sys" where
  "acquire_take c p s =
    (let my_ticket = next_ticket (lock s)
     in go c (AcqWait p my_ticket)
          (s\<lparr>lock := (lock s)\<lparr>next_ticket := my_ticket + 1\<rparr>, taken := taken s + 1\<rparr>))"

definition acquire_wait :: "nat \<Rightarrow> u16 \<Rightarrow> spin_sys \<Rightarrow> spin_sys" where
  "acquire_wait c my_ticket s = (if now_serving (lock s) \<noteq> my_ticket then s else go c Holding s)"

definition spinlock_trylock :: "nat \<Rightarrow> bool \<Rightarrow> spin_sys \<Rightarrow> spin_sys" where
  "spinlock_trylock c p s = go c (TryLoad p) (preempt_disable c p s)"

definition trylock_load :: "nat \<Rightarrow> bool \<Rightarrow> spin_sys \<Rightarrow> spin_sys" where
  "trylock_load c p s =
    go c (TryCas p (now_serving (lock s))) (s\<lparr>seen := (seen s)(c := served s)\<rparr>)"

definition trylock_exchange :: "nat \<Rightarrow> bool \<Rightarrow> u16 \<Rightarrow> spin_sys \<Rightarrow> spin_sys" where
  "trylock_exchange c p now s =
    (if next_ticket (lock s) = now
     then go c Holding (s\<lparr>lock := (lock s)\<lparr>next_ticket := now + 1\<rparr>, taken := taken s + 1\<rparr>)
     else go c Outside (preempt_enable c p s))"

definition spinlock_release :: "nat \<Rightarrow> bool \<Rightarrow> spin_sys \<Rightarrow> spin_sys" where
  "spinlock_release c p s = go c (RelLoad p) s"

definition release_load :: "nat \<Rightarrow> bool \<Rightarrow> spin_sys \<Rightarrow> spin_sys" where
  "release_load c p s = go c (RelStore p (now_serving (lock s))) s"

definition release_store :: "nat \<Rightarrow> bool \<Rightarrow> u16 \<Rightarrow> spin_sys \<Rightarrow> spin_sys" where
  "release_store c p now s =
    preempt_enable c p (go c Outside
      (s\<lparr>lock := (lock s)\<lparr>now_serving := now + 1\<rparr>, served := served s + 1\<rparr>))"

text \<open>One step of a CPU: it starts a call, or continues the one it is in.\<close>

fun cpu_step :: "spin_call \<Rightarrow> nat \<Rightarrow> pc \<Rightarrow> spin_sys \<Rightarrow> spin_sys option" where
  "cpu_step (Acquire p) c Outside s = Some (spinlock_acquire c p s)"
| "cpu_step (Trylock p) c Outside s = Some (spinlock_trylock c p s)"
| "cpu_step (Release p) c Holding s = Some (spinlock_release c p s)"
| "cpu_step Continue c (AcqTake p) s = Some (acquire_take c p s)"
| "cpu_step Continue c (AcqWait p t) s = Some (acquire_wait c t s)"
| "cpu_step Continue c (TryLoad p) s = Some (trylock_load c p s)"
| "cpu_step Continue c (TryCas p t) s = Some (trylock_exchange c p t s)"
| "cpu_step Continue c (RelLoad p) s = Some (release_load c p s)"
| "cpu_step Continue c (RelStore p t) s = Some (release_store c p t s)"
| "cpu_step _ c _ s = None"

inductive spin_step :: "nat \<Rightarrow> spin_sys \<Rightarrow> spin_sys \<Rightarrow> bool" for n where
  cpu: "c < n \<Longrightarrow> cpu_step k c (at s c) s = Some s' \<Longrightarrow> spin_step n s s'"

definition spin_init :: "spin_sys \<Rightarrow> bool" where
  "spin_init s \<longleftrightarrow> lock s = spinlock_init \<and> at s = (\<lambda>_. Outside) \<and> taken s = 0 \<and> served s = 0"

text \<open>
  No CPU sits between the two accesses of \<^verbatim>\<open>spinlock_trylock\<close> while \<open>2\<^sup>1\<^sup>6\<close> tickets are handed out.
\<close>

definition prompt :: "spin_sys \<Rightarrow> bool" where
  "prompt s \<longleftrightarrow> (\<forall>c p t. at s c = TryCas p t \<longrightarrow> taken s < seen s c + 2 ^ 16)"

inductive reach :: "nat \<Rightarrow> (spin_sys \<Rightarrow> bool) \<Rightarrow> spin_sys \<Rightarrow> bool" for n P where
  init: "spin_init s \<Longrightarrow> P s \<Longrightarrow> reach n P s"
| step: "reach n P s \<Longrightarrow> spin_step n s s' \<Longrightarrow> P s' \<Longrightarrow> reach n P s'"

inductive_cases spin_stepE: "spin_step n s s'"

section \<open>Invariant\<close>

text \<open>The CPUs that have a ticket stand in a queue: the first one is served.\<close>

fun in_line :: "pc \<Rightarrow> bool" where
  "in_line (AcqWait p t) = True"
| "in_line Holding = True"
| "in_line (RelLoad p) = True"
| "in_line (RelStore p t) = True"
| "in_line _ = False"

fun owns :: "pc \<Rightarrow> bool" where
  "owns Holding = True"
| "owns (RelLoad p) = True"
| "owns (RelStore p t) = True"
| "owns _ = False"

fun place :: "u16 \<Rightarrow> nat \<Rightarrow> pc \<Rightarrow> bool" where
  "place now i (AcqWait p t) \<longleftrightarrow> t = now + of_nat i"
| "place now i (RelStore p t) \<longleftrightarrow> i = 0 \<and> t = now"
| "place now i l \<longleftrightarrow> i = 0 \<and> owns l"

definition spin_inv :: "nat \<Rightarrow> spin_sys \<Rightarrow> nat list \<Rightarrow> bool" where
  "spin_inv n s q \<longleftrightarrow> distinct q \<and> set q = {c. in_line (at s c)} \<and> set q \<subseteq> {..<n} \<and>
     taken s = served s + length q \<and> now_serving (lock s) = of_nat (served s) \<and>
     next_ticket (lock s) = of_nat (taken s) \<and>
     (\<forall>i < length q. place (now_serving (lock s)) i (at s (q ! i))) \<and>
     (\<forall>c p t. at s c = TryCas p t \<longrightarrow> t = of_nat (seen s c) \<and> seen s c \<le> served s)"

lemma spin_inv_init: "spin_init s \<Longrightarrow> spin_inv n s []"
  by (auto simp: spin_init_def spin_inv_def spinlock_init_def)

lemma go_simps [simp]:
  "lock (go c l s) = lock s" "at (go c l s) = (at s)(c := l)" "taken (go c l s) = taken s"
  "served (go c l s) = served s" "seen (go c l s) = seen s" "preempt (go c l s) = preempt s"
  by (simp_all add: go_def)

lemma preempt_simps [simp]:
  "lock (preempt_disable c p s) = lock s" "at (preempt_disable c p s) = at s"
  "taken (preempt_disable c p s) = taken s" "served (preempt_disable c p s) = served s"
  "seen (preempt_disable c p s) = seen s"
  "lock (preempt_enable c p s) = lock s" "at (preempt_enable c p s) = at s"
  "taken (preempt_enable c p s) = taken s" "served (preempt_enable c p s) = served s"
  "seen (preempt_enable c p s) = seen s"
  by (simp_all add: preempt_disable_def preempt_enable_def)

lemma spin_inv_length: "spin_inv n s q \<Longrightarrow> length q \<le> n"
  unfolding spin_inv_def by (metis card_lessThan card_mono distinct_card finite_lessThan)

lemma of_nat_u16_eq: "(of_nat a :: u16) = of_nat b \<Longrightarrow> a \<le> b \<Longrightarrow> b < a + 2 ^ 16 \<Longrightarrow> a = b"
proof -
  assume a: "(of_nat a :: u16) = of_nat b" "a \<le> b" "b < a + 2 ^ 16"
  have "a mod 2 ^ 16 = b mod 2 ^ 16"
    using arg_cong [OF a(1), of unat] by (simp add: unat_of_nat)
  then have "2 ^ 16 dvd b - a" using a(2) mod_eq_dvd_iff_nat by metis
  then show "a = b" using a(2,3) by (auto dest: dvd_imp_le)
qed

lemma spin_inv_place: "spin_inv n s q \<Longrightarrow> i < length q \<Longrightarrow> place (now_serving (lock s)) i (at s (q ! i))"
  unfolding spin_inv_def by blast

lemma spin_inv_line: "spin_inv n s q \<Longrightarrow> c \<in> set q \<longleftrightarrow> in_line (at s c)"
  unfolding spin_inv_def by blast

lemma spin_inv_cas:
  "spin_inv n s q \<Longrightarrow> at s c = TryCas p t \<Longrightarrow> t = of_nat (seen s c) \<and> seen s c \<le> served s"
  unfolding spin_inv_def by blast

lemma spin_inv_pos:
  assumes "spin_inv n s q" "in_line (at s c)"
  obtains i where "i < length q" "q ! i = c" "place (now_serving (lock s)) i (at s c)"
  using assms spin_inv_line [OF assms(1)] spin_inv_place [OF assms(1)] by (metis in_set_conv_nth)

text \<open>A step that leaves the queue as it is.\<close>

lemma spin_inv_move:
  assumes inv: "spin_inv n s q" and eq: "lock s' = lock s" "taken s' = taken s" "served s' = served s"
    and at: "at s' = (at s)(c := l)" and line: "in_line l = in_line (at s c)"
    and pl: "\<forall>i < length q. in_line l \<and> place (now_serving (lock s)) i (at s c) \<longrightarrow> place (now_serving (lock s)) i l"
    and see: "\<forall>d. d \<noteq> c \<longrightarrow> seen s' d = seen s d"
    and cas: "\<forall>p t. l = TryCas p t \<longrightarrow> t = of_nat (seen s' c) \<and> seen s' c \<le> served s"
  shows "spin_inv n s' q"
proof -
  have "place (now_serving (lock s)) i (at s' (q ! i))" if i: "i < length q" for i
  proof -
    have old: "place (now_serving (lock s)) i (at s (q ! i))" using inv i by (rule spin_inv_place)
    show ?thesis
    proof (cases "q ! i = c")
      case True
      have "in_line (at s (q ! i))" using nth_mem [OF i] spin_inv_line [OF inv] by blast
      then show ?thesis using True old pl line at i by auto
    qed (simp add: at old)
  qed
  moreover have "{d. in_line (at s' d)} = {d. in_line (at s d)}" using at line by auto
  moreover have "t = of_nat (seen s' d) \<and> seen s' d \<le> served s" if "at s' d = TryCas p t" for d p t
    using that at see cas inv by (cases "d = c") (auto simp: spin_inv_def)
  ultimately show ?thesis using inv eq by (auto simp: spin_inv_def)
qed

text \<open>A CPU takes the next ticket and joins the end of the queue.\<close>

lemma spin_inv_join:
  assumes inv: "spin_inv n s q" and c: "c < n" "\<not> in_line (at s c)"
    and s': "lock s' = (lock s)\<lparr>next_ticket := next_ticket (lock s) + 1\<rparr>" "taken s' = taken s + 1"
      "served s' = served s" "seen s' = seen s" "at s' = (at s)(c := l)"
    and l: "in_line l" "place (now_serving (lock s)) (length q) l" "\<forall>p t. l \<noteq> TryCas p t"
  shows "spin_inv n s' (q @ [c])"
proof -
  have cq: "c \<notin> set q" using inv c(2) by (simp add: spin_inv_def)
  have "place (now_serving (lock s)) i (at s' ((q @ [c]) ! i))" if i: "i < length q + 1" for i
  proof (cases "i < length q")
    case True
    then have "q ! i \<noteq> c" using cq nth_mem [OF True] by metis
    then show ?thesis using True spin_inv_place [OF inv True] s'(5) by (simp add: nth_append)
  qed (use i l(2) s'(5) in \<open>simp add: nth_append less_Suc_eq\<close>)
  moreover have "{d. in_line (at s' d)} = insert c {d. in_line (at s d)}" using s'(5) l(1) by auto
  moreover have "t = of_nat (seen s' d) \<and> seen s' d \<le> served s" if "at s' d = TryCas p t" for d p t
    using that s'(4,5) l(3) inv by (cases "d = c") (auto simp: spin_inv_def)
  ultimately show ?thesis using inv s' c cq by (auto simp: spin_inv_def)
qed

text \<open>The CPU at the front of the queue serves the next ticket and leaves.\<close>

lemma spin_inv_leave:
  assumes inv: "spin_inv n s q" and c: "in_line (at s c)" "\<forall>i. place (now_serving (lock s)) i (at s c) \<longrightarrow> i = 0"
    and s': "lock s' = (lock s)\<lparr>now_serving := now_serving (lock s) + 1\<rparr>" "taken s' = taken s"
      "served s' = served s + 1" "seen s' = seen s" "at s' = (at s)(c := Outside)"
  shows "spin_inv n s' (tl q) \<and> q = c # tl q"
proof -
  obtain i where i: "i < length q" "q ! i = c" "place (now_serving (lock s)) i (at s c)"
    using inv c(1) by (rule spin_inv_pos)
  then have "i = 0" using c(2) by blast
  then have q: "q = c # tl q" using i by (cases q) auto
  have cq: "c \<notin> set (tl q)" using inv q by (metis distinct.simps(2) spin_inv_def)
  have "place (now_serving (lock s) + 1) j (at s' (tl q ! j))" if j: "j < length (tl q)" for j
  proof -
    have j1: "Suc j < length q" "q ! Suc j = tl q ! j" using j q by (cases q; simp)+
    then have "place (now_serving (lock s)) (Suc j) (at s (tl q ! j))" using inv by (metis spin_inv_def)
    then have "place (now_serving (lock s) + 1) j (at s (tl q ! j))"
      by (cases "at s (tl q ! j)") (auto simp: algebra_simps)
    moreover have "tl q ! j \<noteq> c" using cq nth_mem [OF j] by metis
    ultimately show ?thesis using s'(5) by simp
  qed
  moreover have "set (tl q) = {d. in_line (at s' d)}"
  proof -
    have "set q = insert c (set (tl q))" using q by (metis list.simps(15))
    then have "set (tl q) = set q - {c}" using cq by blast
    moreover have "{d. in_line (at s' d)} = {d. in_line (at s d)} - {c}" using s'(5) by auto
    ultimately show ?thesis using inv by (simp add: spin_inv_def)
  qed
  moreover have "distinct (tl q)" "set (tl q) \<subseteq> {..<n}"
  proof -
    have "distinct q" "set q \<subseteq> {..<n}" using inv unfolding spin_inv_def by blast+
    moreover have "set (tl q) \<subseteq> set q" by (cases q) auto
    ultimately show "distinct (tl q)" "set (tl q) \<subseteq> {..<n}" by (simp_all add: distinct_tl order.trans)
  qed
  moreover have "taken s' = served s' + length (tl q)"
  proof -
    have "length q = Suc (length (tl q))" using q by (metis length_Cons)
    then show ?thesis using inv s'(2,3) by (simp add: spin_inv_def)
  qed
  moreover have "now_serving (lock s) = of_nat (served s)" "next_ticket (lock s) = of_nat (taken s)"
    using inv by (simp_all add: spin_inv_def)
  moreover have "t = of_nat (seen s' d) \<and> seen s' d \<le> served s'" if "at s' d = TryCas p t" for d p t
    using that s'(3-5) spin_inv_cas [OF inv, of d p t] by (cases "d = c") auto
  ultimately have "spin_inv n s' (tl q)" unfolding spin_inv_def using s'(1,2,3) by simp
  then show ?thesis using q by blast
qed

text \<open>The queue after a step of a CPU.\<close>

definition queue_after :: "nat \<Rightarrow> pc \<Rightarrow> spin_sys \<Rightarrow> nat list \<Rightarrow> nat list" where
  "queue_after c l s q = (case l of
       AcqTake p \<Rightarrow> q @ [c]
     | TryCas p t \<Rightarrow> if next_ticket (lock s) = t then q @ [c] else q
     | RelStore p t \<Rightarrow> tl q
     | _ \<Rightarrow> q)"

lemma wait_served:
  assumes "i < 2 ^ 16" "(t::u16) = t + of_nat i"
  shows "i = 0"
proof -
  have "(of_nat 0 :: u16) = of_nat i" using assms(2) by simp
  then show ?thesis using of_nat_u16_eq [of 0 i] assms(1) by simp
qed

lemma spin_inv_cpu:
  assumes inv: "spin_inv n s q" and c: "c < n" "n < 2 ^ 16"
    and st: "cpu_step k c (at s c) s = Some s'" and pr: "prompt s"
  shows "spin_inv n s' (queue_after c (at s c) s q)"
proof (cases "at s c")
  case Outside
  with st consider p where "k = Acquire p" | p where "k = Trylock p" by (cases k) auto
  then show ?thesis
    using st Outside by cases (auto simp: queue_after_def spinlock_acquire_def spinlock_trylock_def intro!: spin_inv_move [OF inv])
next
  case (AcqTake p)
  then have "s' = acquire_take c p s" using st by (cases k) auto
  moreover have "next_ticket (lock s) = now_serving (lock s) + of_nat (length q)"
    using inv by (simp add: spin_inv_def)
  ultimately show ?thesis using AcqTake c(1)
    by (auto simp: queue_after_def acquire_take_def Let_def intro!: spin_inv_join [OF inv])
next
  case (AcqWait p t)
  then have s': "s' = acquire_wait c t s" using st by (cases k) auto
  have "t = now_serving (lock s) + of_nat i \<Longrightarrow> now_serving (lock s) = t \<Longrightarrow> i < length q \<Longrightarrow> i = 0" for i
    using wait_served [of i t] spin_inv_length [OF inv] c(2) by simp
  then show ?thesis using s' AcqWait inv
    by (auto simp: queue_after_def acquire_wait_def intro!: spin_inv_move [OF inv])
next
  case (TryLoad p)
  then have "s' = trylock_load c p s" using st by (cases k) auto
  moreover have "now_serving (lock s) = of_nat (served s)" using inv by (simp add: spin_inv_def)
  ultimately show ?thesis using TryLoad
    by (auto simp: queue_after_def trylock_load_def intro!: spin_inv_move [OF inv])
next
  case (TryCas p t)
  then have s': "s' = trylock_exchange c p t s" using st by (cases k) auto
  have t: "t = of_nat (seen s c)" "seen s c \<le> served s" "taken s = served s + length q"
    "next_ticket (lock s) = of_nat (taken s)" "taken s < seen s c + 2 ^ 16"
    using inv pr TryCas by (auto simp: spin_inv_def prompt_def)
  show ?thesis
  proof (cases "next_ticket (lock s) = t")
    case True
    then have "seen s c = taken s" using t of_nat_u16_eq [of "seen s c" "taken s"] by simp
    then have "length q = 0" using t by simp
    then have "spin_inv n s' (q @ [c])" using s' True TryCas c(1)
      by (intro spin_inv_join [OF inv]) (auto simp: trylock_exchange_def)
    then show ?thesis using True TryCas by (simp add: queue_after_def)
  next
    case False
    then show ?thesis using s' TryCas
      by (auto simp: queue_after_def trylock_exchange_def intro!: spin_inv_move [OF inv])
  qed
next
  case Holding
  with st obtain p where "s' = spinlock_release c p s" by (cases k) auto
  then show ?thesis using Holding
    by (auto simp: queue_after_def spinlock_release_def intro!: spin_inv_move [OF inv])
next
  case (RelLoad p)
  then have "s' = release_load c p s" using st by (cases k) auto
  then show ?thesis using RelLoad
    by (auto simp: queue_after_def release_load_def intro!: spin_inv_move [OF inv])
next
  case (RelStore p t)
  then have s': "s' = release_store c p t s" using st by (cases k) auto
  have "in_line (at s c)" using RelStore by simp
  from inv this obtain i where "place (now_serving (lock s)) i (at s c)" by (rule spin_inv_pos)
  then have "t = now_serving (lock s)" using RelStore by simp
  then have "spin_inv n s' (tl q) \<and> q = c # tl q" using s' RelStore
    by (intro spin_inv_leave [OF inv]) (auto simp: release_store_def)
  then show ?thesis using RelStore by (simp add: queue_after_def)
qed

lemma reach_inv:
  assumes "reach n prompt s" "n < 2 ^ 16"
  shows "\<exists>q. spin_inv n s q"
  using assms(1)
proof (induction rule: reach.induct)
  case (init s)
  then show ?case using spin_inv_init by blast
next
  case (step s s')
  then obtain q where q: "spin_inv n s q" by blast
  from step.hyps(2) obtain c k where "c < n" "cpu_step k c (at s c) s = Some s'" by (rule spin_stepE)
  moreover have "prompt s" using step.hyps(1) by (cases rule: reach.cases) auto
  ultimately show ?case using spin_inv_cpu [OF q _ assms(2)] by blast
qed

lemma owner_first:
  assumes "spin_inv n s q" "owns (at s c)"
  shows "q \<noteq> [] \<and> hd q = c"
proof -
  have "in_line (at s c)" using assms(2) by (cases "at s c") auto
  with assms(1) obtain i where "i < length q" "q ! i = c" "place (now_serving (lock s)) i (at s c)" by (rule spin_inv_pos)
  moreover from this have "i = 0" using assms(2) by (cases "at s c") auto
  ultimately show ?thesis by (cases q) auto
qed

section \<open>Properties\<close>

lemma reach_cpu:
  "reach n (\<lambda>_. True) s \<Longrightarrow> c < n \<Longrightarrow> cpu_step k c (at s c) s = Some s' \<Longrightarrow> reach n (\<lambda>_. True) s'"
  by (rule reach.step) (auto intro: spin_step.cpu)

text \<open>
  C29. At most one CPU holds the lock, whatever calls the CPUs make and however their accesses
  interleave, as long as there are fewer than \<open>2\<^sup>1\<^sup>6\<close> CPUs and no CPU is delayed inside
  \<^verbatim>\<open>spinlock_trylock\<close> while \<open>2\<^sup>1\<^sup>6\<close> tickets are handed out.
\<close>

theorem spinlock_mutual_exclusion:
  assumes "reach n prompt s" "n < 2 ^ 16" "owns (at s c)" "owns (at s d)"
  shows "c = d"
  using reach_inv [OF assms(1,2)] owner_first assms(3,4) by metis

definition spin_start :: spin_sys where
  "spin_start = \<lparr>lock = spinlock_init, at = (\<lambda>_. Outside), preempt = (\<lambda>_. 0), taken = 0, served = 0, seen = (\<lambda>_. 0)\<rparr>"

lemma reach_start: "P spin_start \<Longrightarrow> reach n P spin_start"
  by (rule reach.init) (simp_all add: spin_init_def spin_start_def)

text \<open>A CPU that starts an acquisition, takes its ticket and finds it served.\<close>

definition spin_held :: spin_sys where
  "spin_held = acquire_wait 0 0 (acquire_take 0 True (spinlock_acquire 0 True spin_start))"

lemma reach_held: "reach 2 prompt spin_held"
proof -
  have 1: "reach 2 prompt spin_start" by (rule reach_start) (simp add: prompt_def spin_start_def)
  have 2: "reach 2 prompt (spinlock_acquire 0 True spin_start)"
    by (rule reach.step [OF 1 spin_step.cpu [of 0 _ "Acquire True"]])
      (auto simp: spin_start_def prompt_def spinlock_acquire_def)
  have 3: "reach 2 prompt (acquire_take 0 True (spinlock_acquire 0 True spin_start))"
    by (rule reach.step [OF 2 spin_step.cpu [of 0 _ Continue]])
      (auto simp: spin_start_def prompt_def spinlock_acquire_def acquire_take_def Let_def)
  show ?thesis unfolding spin_held_def
    by (rule reach.step [OF 3 spin_step.cpu [of 0 _ Continue]])
      (auto simp: spin_start_def prompt_def spinlock_acquire_def acquire_take_def acquire_wait_def
        spinlock_init_def Let_def)
qed

theorem spinlock_mutual_exclusion_witness:
  "owns (at spin_held 0) \<and> \<not> owns (at spin_held 1)"
proof -
  have "owns (at spin_held 0)"
    by (simp add: spin_held_def spin_start_def spinlock_acquire_def acquire_take_def acquire_wait_def
        spinlock_init_def Let_def)
  then show ?thesis using spinlock_mutual_exclusion [OF reach_held, of 0 1] by auto
qed

text \<open>The number of tickets that are served before ticket \<open>t\<close>.\<close>

definition ahead :: "u16 \<Rightarrow> spin_sys \<Rightarrow> nat" where
  "ahead t s = unat (t - now_serving (lock s))"

lemma ahead_place:
  assumes inv: "spin_inv n s q" "n < 2 ^ 16" and w: "at s c = AcqWait p t"
  shows "ahead t s < length q" "q ! ahead t s = c"
proof -
  have "in_line (at s c)" using w by simp
  with inv(1) obtain i where i: "i < length q" "q ! i = c" "place (now_serving (lock s)) i (at s c)"
    by (rule spin_inv_pos)
  then have "t - now_serving (lock s) = of_nat i" using w by simp
  then have "ahead t s = i" using i(1) spin_inv_length [OF inv(1)] inv(2)
    by (simp add: ahead_def unat_of_nat take_bit_nat_eq_self)
  then show "ahead t s < length q" "q ! ahead t s = c" using i by auto
qed

text \<open>
  C30. The lock is handed over in the order of the tickets, under the same two assumptions: there are fewer
  than \<open>2\<^sup>1\<^sup>6\<close> CPUs, and no CPU is delayed inside \<^verbatim>\<open>spinlock_trylock\<close> while \<open>2\<^sup>1\<^sup>6\<close> tickets are
  handed out. For a CPU that waits with ticket \<open>t\<close>, the number of CPUs ahead of it is below the number of CPUs and never grows, each release makes it
  smaller by one, the front of the queue is another CPU that owns the lock or is about to get it, and
  when the number reaches zero the next look at the lock ends the wait.
\<close>

theorem spinlock_fifo:
  assumes r: "reach n prompt s" and n: "n < 2 ^ 16" and w: "at s c = AcqWait p t"
  shows "ahead t s < n \<and>
    (ahead t s = 0 \<longrightarrow> at (acquire_wait c t s) c = Holding) \<and>
    (0 < ahead t s \<longrightarrow> (\<exists>d. d \<noteq> c \<and> (owns (at s d) \<or> (\<exists>p'. at s d = AcqWait p' (now_serving (lock s)))))) \<and>
    (\<forall>s'. spin_step n s s' \<and> at s' c = AcqWait p t \<longrightarrow> ahead t s = ahead t s' + (served s' - served s))"
proof -
  obtain q where q: "spin_inv n s q" using reach_inv [OF r n] by blast
  note a = ahead_place [OF q n w]
  have "ahead t s < n" using a(1) spin_inv_length [OF q] by simp
  moreover have "at (acquire_wait c t s) c = Holding" if "ahead t s = 0"
    using that by (simp add: ahead_def acquire_wait_def unat_eq_0)
  moreover have "\<exists>d. d \<noteq> c \<and> (owns (at s d) \<or> (\<exists>p'. at s d = AcqWait p' (now_serving (lock s))))"
    if "0 < ahead t s"
  proof (intro exI conjI)
    have 0: "0 < length q" using a(1) by linarith
    have "distinct q" using q by (simp add: spin_inv_def)
    then show "q ! 0 \<noteq> c" using a that nth_eq_iff_index_eq [of q 0 "ahead t s"] 0 by auto
    show "owns (at s (q ! 0)) \<or> (\<exists>p'. at s (q ! 0) = AcqWait p' (now_serving (lock s)))"
      using spin_inv_place [OF q 0] by (cases "at s (q ! 0)") auto
  qed
  moreover have "ahead t s = ahead t s' + (served s' - served s)"
    if st: "spin_step n s s'" and w': "at s' c = AcqWait p t" for s'
  proof -
    from st obtain d k where d: "d < n" "cpu_step k d (at s d) s = Some s'" by (rule spin_stepE)
    have pr: "prompt s" using r by (cases rule: reach.cases) auto
    have q': "spin_inv n s' (queue_after d (at s d) s q)" using spin_inv_cpu [OF q d(1) n d(2) pr] .
    note a' = ahead_place [OF q' n w']
    show ?thesis
    proof (cases "\<exists>p' t'. at s d = RelStore p' t'")
      case True
      then obtain p' t' where l: "at s d = RelStore p' t'" by blast
      then have s': "s' = release_store d p' t' s" using d(2) by (cases k) auto
      have "q ! 0 = d" using owner_first [OF q, of d] l by (cases q) auto
      moreover have "d \<noteq> c" using l w by auto
      ultimately have pos: "ahead t s \<noteq> 0" using a(2) by metis
      have "ahead t s' < length (tl q)" "tl q ! ahead t s' = c" using a' l by (simp_all add: queue_after_def)
      then have "Suc (ahead t s') < length q" "q ! Suc (ahead t s') = c" by (cases q; simp)+
      moreover have "distinct q" using q by (simp add: spin_inv_def)
      ultimately have "ahead t s = Suc (ahead t s')" using a nth_eq_iff_index_eq by metis
      moreover have "served s' = served s + 1" by (simp add: s' release_store_def)
      ultimately show ?thesis by simp
    next
      case False
      then have "served s' = served s \<and> now_serving (lock s') = now_serving (lock s)"
        using d(2)
        by (cases "at s d"; cases k) (auto simp: spinlock_acquire_def acquire_take_def acquire_wait_def
          spinlock_trylock_def trylock_load_def trylock_exchange_def spinlock_release_def release_load_def Let_def)
      then show ?thesis by (simp add: ahead_def)
    qed
  qed
  ultimately show ?thesis by blast
qed

text \<open>CPU 1 queues up behind CPU 0, which holds the lock.\<close>

definition spin_waiting :: spin_sys where
  "spin_waiting = acquire_take 1 True (spinlock_acquire 1 True spin_held)"

theorem spinlock_fifo_witness:
  "at spin_waiting 1 = AcqWait True 1 \<and> ahead 1 spin_waiting = 1 \<and>
    (\<exists>d. d \<noteq> 1 \<and> (owns (at spin_waiting d) \<or> (\<exists>p. at spin_waiting d = AcqWait p (now_serving (lock spin_waiting)))))"
proof -
  have 2: "reach 2 prompt (spinlock_acquire 1 True spin_held)"
    by (rule reach.step [OF reach_held spin_step.cpu [of 1 _ "Acquire True"]])
      (auto simp: spin_held_def spin_start_def prompt_def spinlock_acquire_def acquire_take_def acquire_wait_def spinlock_init_def Let_def)
  have 3: "reach 2 prompt spin_waiting" unfolding spin_waiting_def
    by (rule reach.step [OF 2 spin_step.cpu [of 1 _ Continue]])
      (auto simp: spin_held_def spin_start_def prompt_def spinlock_acquire_def acquire_take_def acquire_wait_def spinlock_init_def Let_def)
  have 4: "at spin_waiting 1 = AcqWait True 1" "ahead 1 spin_waiting = 1"
    by (simp_all add: spin_waiting_def spin_held_def spin_start_def spinlock_acquire_def acquire_take_def acquire_wait_def spinlock_init_def ahead_def Let_def)
  show ?thesis using spinlock_fifo [OF 3 _ 4(1)] 4 by simp
qed

definition delayed :: "nat \<Rightarrow> spin_sys" where
  "delayed k = \<lparr>lock = \<lparr>now_serving = of_nat k, next_ticket = of_nat k\<rparr>, at = (\<lambda>_. Outside)(0 := TryCas False 0),
     preempt = (\<lambda>_. 0), taken = k, served = k, seen = (\<lambda>_. 0)\<rparr>"

lemmas spin_ops = spinlock_acquire_def acquire_take_def acquire_wait_def spinlock_release_def
  release_load_def release_store_def go_def preempt_disable_def preempt_enable_def Let_def

lemma reach_delayed: "reach 2 (\<lambda>_. True) (delayed k)"
proof (induction k)
  case 0
  let ?s = "spinlock_trylock 0 False spin_start"
  have 1: "reach 2 (\<lambda>_. True) spin_start" by (rule reach_start) simp
  have 2: "reach 2 (\<lambda>_. True) ?s"
    by (rule reach_cpu [OF 1, of 0 "Trylock False"]) (simp_all add: spin_start_def)
  have 3: "reach 2 (\<lambda>_. True) (trylock_load 0 False ?s)"
    by (rule reach_cpu [OF 2, of 0 Continue]) (simp_all add: spinlock_trylock_def)
  have "trylock_load 0 False ?s = delayed 0"
    by (simp add: trylock_load_def spinlock_trylock_def delayed_def spin_start_def spinlock_init_def
        go_def preempt_disable_def fun_eq_iff)
  then show ?case using 3 by simp
next
  case (Suc k)
  let ?a = "spinlock_acquire 1 False (delayed k)"
  let ?b = "acquire_take 1 False ?a"
  let ?c = "acquire_wait 1 (of_nat k) ?b"
  let ?d = "spinlock_release 1 False ?c"
  let ?e = "release_load 1 False ?d"
  have a: "reach 2 (\<lambda>_. True) ?a"
    by (rule reach_cpu [OF Suc, of 1 "Acquire False"]) (simp_all add: delayed_def)
  have b: "reach 2 (\<lambda>_. True) ?b"
    by (rule reach_cpu [OF a, of 1 Continue]) (simp_all add: spinlock_acquire_def)
  have c: "reach 2 (\<lambda>_. True) ?c"
    by (rule reach_cpu [OF b, of 1 Continue]) (simp_all add: spin_ops delayed_def)
  have d: "reach 2 (\<lambda>_. True) ?d"
    by (rule reach_cpu [OF c, of 1 "Release False"]) (simp_all add: spin_ops delayed_def)
  have e: "reach 2 (\<lambda>_. True) ?e"
    by (rule reach_cpu [OF d, of 1 Continue]) (simp_all add: spin_ops delayed_def)
  have f: "reach 2 (\<lambda>_. True) (release_store 1 False (of_nat k) ?e)"
    by (rule reach_cpu [OF e, of 1 Continue]) (simp_all add: spin_ops delayed_def)
  have "release_store 1 False (of_nat k) ?e = delayed (Suc k)"
    by (simp add: spin_ops delayed_def fun_eq_iff)
  then show ?case using f by simp
qed

text \<open>
  C31. Without the assumption on \<^verbatim>\<open>spinlock_trylock\<close> mutual exclusion fails: a CPU that is delayed between
  its two accesses while the other one takes the lock \<open>2\<^sup>1\<^sup>6\<close> times gets the lock although it is held,
  because the ticket counter has come back to the value that was read.
\<close>

theorem spinlock_trylock_aba:
  "\<exists>s. reach 2 (\<lambda>_. True) s \<and> at s 0 = Holding \<and> at s 1 = Holding"
proof -
  let ?s = "delayed (2 ^ 16 - 1)"
  let ?a = "spinlock_acquire 1 False ?s"
  let ?b = "acquire_take 1 False ?a"
  let ?c = "acquire_wait 1 (of_nat (2 ^ 16 - 1)) ?b"
  have a: "reach 2 (\<lambda>_. True) ?a"
    by (rule reach_cpu [OF reach_delayed [of "2 ^ 16 - 1"], of 1 "Acquire False"]) (simp_all add: delayed_def)
  have b: "reach 2 (\<lambda>_. True) ?b"
    by (rule reach_cpu [OF a, of 1 Continue]) (simp_all add: spinlock_acquire_def)
  have c: "reach 2 (\<lambda>_. True) ?c"
    by (rule reach_cpu [OF b, of 1 Continue]) (simp_all add: spin_ops delayed_def)
  have "reach 2 (\<lambda>_. True) (trylock_exchange 0 False 0 ?c)"
    by (rule reach_cpu [OF c, of 0 Continue]) (simp_all add: spin_ops delayed_def)
  moreover have "at (trylock_exchange 0 False 0 ?c) 0 = Holding" "at (trylock_exchange 0 False 0 ?c) 1 = Holding"
    by (simp_all add: trylock_exchange_def spin_ops delayed_def)
  ultimately show ?thesis by blast
qed

end
