(* ===== verification/Fifo_Interface.thy ===== *)
theory Fifo_Interface
  imports Gunyah_Prelude
begin

text \<open>
  The contract of a queue that carries messages from senders to receivers, and what follows from it
  for any sequence of operations: the receivers get the messages in the order in which they were sent,
  none twice and none lost.
\<close>

datatype 'm fifo_event = Sent 'm | Got 'm | Quiet

fun sent_of :: "'m fifo_event list \<Rightarrow> 'm list" where
  "sent_of [] = []"
| "sent_of (Sent m # es) = m # sent_of es"
| "sent_of (_ # es) = sent_of es"

fun got_of :: "'m fifo_event list \<Rightarrow> 'm list" where
  "got_of [] = []"
| "got_of (Got m # es) = m # got_of es"
| "got_of (_ # es) = got_of es"

fun fifo_run :: "('op \<Rightarrow> 's \<Rightarrow> ('m fifo_event \<times> 's) option) \<Rightarrow> 'op list \<Rightarrow> 's \<Rightarrow> ('m fifo_event list \<times> 's) option" where
  "fifo_run step [] s = Some ([], s)"
| "fifo_run step (op # ops) s = Option.bind (step op s) (\<lambda>(e, s).
     map_option (\<lambda>(es, s). (e # es, s)) (fifo_run step ops s))"

text \<open>\<open>inv s ms\<close>: the messages \<open>ms\<close> are in the queue, the oldest first; \<open>ok s op\<close>: the operation is legal.\<close>

locale fifo_queue =
  fixes inv :: "'s \<Rightarrow> 'm list \<Rightarrow> bool"
    and ok :: "'s \<Rightarrow> 'op \<Rightarrow> bool"
    and step :: "'op \<Rightarrow> 's \<Rightarrow> ('m fifo_event \<times> 's) option"
  assumes step_law: "inv s ms \<Longrightarrow> ok s op \<Longrightarrow> \<exists>e s'. step op s = Some (e, s') \<and> ok s' = ok s \<and>
      (case e of Sent m \<Rightarrow> inv s' (ms @ [m]) | Got m \<Rightarrow> \<exists>ms'. ms = m # ms' \<and> inv s' ms' | Quiet \<Rightarrow> inv s' ms)"
begin

lemma run_in_order:
  "inv s ms \<Longrightarrow> \<forall>op \<in> set ops. ok s op \<Longrightarrow>
    \<exists>es s' ms'. fifo_run step ops s = Some (es, s') \<and> inv s' ms' \<and> ms @ sent_of es = got_of es @ ms'"
proof (induction ops arbitrary: s ms)
  case (Cons op ops)
  obtain e s1 where e: "step op s = Some (e, s1)" "ok s1 = ok s"
    "case e of Sent m \<Rightarrow> inv s1 (ms @ [m]) | Got m \<Rightarrow> \<exists>ms'. ms = m # ms' \<and> inv s1 ms' | Quiet \<Rightarrow> inv s1 ms"
    using step_law [OF Cons.prems(1), of op] Cons.prems(2) by auto
  obtain ms1 where ms1: "inv s1 ms1" "ms @ sent_of [e] = got_of [e] @ ms1"
    using e(3) by (cases e) auto
  obtain es s' ms' where r: "fifo_run step ops s1 = Some (es, s')" "inv s' ms'" "ms1 @ sent_of es = got_of es @ ms'"
    using Cons.IH [OF ms1(1)] Cons.prems(2) e(2) by auto
  have "sent_of (e # es) = sent_of [e] @ sent_of es" "got_of (e # es) = got_of [e] @ got_of es"
    by (cases e; simp)+
  then have "ms @ sent_of (e # es) = got_of (e # es) @ ms'"
    using ms1(2) r(3) by (metis append_assoc)
  then show ?case using e(1) r(1,2) by auto
qed simp

end

end
