(* ===== verification/Msgqueue.thy ===== *)
theory Msgqueue
  imports Fifo_Interface
begin

text \<open>
  Message queues: \<^verbatim>\<open>hyp/ipc/msgqueue/src/msgqueue_common.c\<close> and \<^verbatim>\<open>msgqueue.c\<close>. A queue is a ring buffer
  of fixed-size slots; a slot is a size header followed by the bytes of the message. The buffer is
  modelled byte by byte, and the header is stored little-endian as on AArch64. The object lock is held
  during each operation, so an operation is one step.

  Copies from and to guest memory (\<^verbatim>\<open>useraccess.h\<close>) are parameters; their documented behaviour is
  \<open>useraccess_from_doc\<close>. The calls that raise or clear the interrupts of the two ends are returned as a
  list of events.
\<close>

section \<open>Model\<close>

type_synonym bytes = "nat \<Rightarrow> u8"

text \<open>A 64-bit store and load at a byte offset.\<close>

definition store64 :: "bytes \<Rightarrow> nat \<Rightarrow> u64 \<Rightarrow> bytes" where
  "store64 m a v = (\<lambda>i. if a \<le> i \<and> i < a + 8 then ucast (drop_bit (8 * (i - a)) v) else m i)"

definition load64 :: "bytes \<Rightarrow> nat \<Rightarrow> u64" where
  "load64 m a = foldr (\<lambda>k w. push_bit (8 * k) (ucast (m (a + k))) OR w) [0..<8] 0"

definition write_bytes :: "bytes \<Rightarrow> nat \<Rightarrow> u8 list \<Rightarrow> bytes" where
  "write_bytes m a bs = (\<lambda>i. if a \<le> i \<and> i < a + length bs then bs ! (i - a) else m i)"

definition read_bytes :: "bytes \<Rightarrow> nat \<Rightarrow> nat \<Rightarrow> u8 list" where
  "read_bytes m a n = map (\<lambda>i. m (a + i)) [0..<n]"

abbreviation MSGQUEUE_DELAY_UNCHANGED :: u32 where "MSGQUEUE_DELAY_UNCHANGED \<equiv> - 1"
abbreviation MSGQUEUE_THRESHOLD_UNCHANGED :: u32 where "MSGQUEUE_THRESHOLD_UNCHANGED \<equiv> - 1"
abbreviation MSGQUEUE_THRESHOLD_MAXIMUM :: u32 where "MSGQUEUE_THRESHOLD_MAXIMUM \<equiv> - 2"
abbreviation MSGQUEUE_MAX_QUEUE_DEPTH :: u32 where "MSGQUEUE_MAX_QUEUE_DEPTH \<equiv> 256"
abbreviation MSGQUEUE_MAX_MAX_MSG_SIZE :: u64 where "MSGQUEUE_MAX_MAX_MSG_SIZE \<equiv> 1024"

record msgqueue =
  buf :: ptr
  contents :: bytes
  cnt :: u32
  queue_size :: u64
  max_msg_size :: u64
  queue_depth :: u32
  head :: u32
  tail :: u32
  notfull_thd :: u32
  notempty_thd :: u32

datatype mq_event = Assert_rcv | Assert_send | Clear_rcv | Clear_send | Unbind_rcv | Unbind_send

text \<open>A message comes from a buffer of the hypervisor or from guest memory.\<close>

datatype msg_source = Kernel_src "u8 list" | Guest_src u64
datatype msg_target = Kernel_dst | Guest_dst u64

type_synonym 'g ua_from = "'g \<Rightarrow> u64 \<Rightarrow> u64 \<Rightarrow> error_t \<times> u8 list"
type_synonym 'g ua_to = "'g \<Rightarrow> u64 \<Rightarrow> u64 \<Rightarrow> u8 list \<Rightarrow> error_t \<times> 'g"

text \<open>\<^verbatim>\<open>assert_debug\<close> is checked in debug builds only.\<close>

definition assert_debug :: "bool \<Rightarrow> bool \<Rightarrow> unit option" where
  "assert_debug dbg b = c_assert (dbg \<longrightarrow> b)"

definition msgqueue_send_msg ::
    "bool \<Rightarrow> 'g ua_from \<Rightarrow> 'g \<Rightarrow> msgqueue \<Rightarrow> u64 \<Rightarrow> msg_source \<Rightarrow> bool \<Rightarrow>
      (bool result \<times> msgqueue \<times> mq_event list) option" where
  "msgqueue_send_msg dbg copy_from g q sz msg push =
    (if cnt q = queue_depth q then Some (Inl ERROR_MSGQUEUE_FULL, q, [])
     else if sz > max_msg_size q then Some (Inl ERROR_ARGUMENT_SIZE, q, [])
     else do {
       let hyp_va = unat (tail q) + 8;
       let (e, bs) = (case msg of
           Kernel_src src \<Rightarrow> (OK, take (unat (util_min (max_msg_size q) sz)) src)
         | Guest_src a \<Rightarrow> copy_from g a sz);
       let q = q\<lparr>contents := write_bytes (contents q) hyp_va bs\<rparr>;
       if e \<noteq> OK then Some (Inl e, q, [])
       else do {
         assert_debug dbg (util_is_baligned (buf q + ucast (tail q)) 8);
         let q = q\<lparr>contents := store64 (contents q) (unat (tail q)) sz\<rparr>;
         let count = cnt q + 1;
         let q = q\<lparr>cnt := count\<rparr>;
         let q = q\<lparr>tail := tail q + ucast (max_msg_size q + 8)\<rparr>;
         assert_debug dbg (ucast (tail q) \<le> queue_size q);
         let q = (if ucast (tail q) = queue_size q then q\<lparr>tail := 0\<rparr> else q);
         let ev = (if push \<or> count = notempty_thd q then [Assert_rcv] else []);
         Some (Inr (count \<noteq> queue_depth q), q, ev)
       }
     })"

record 'g receive_out =
  ro_e :: error_t
  ro_size :: u64
  ro_notempty :: bool
  ro_kernel :: "u8 list"
  ro_guest :: 'g

definition msgqueue_receive_msg ::
    "bool \<Rightarrow> 'g ua_to \<Rightarrow> 'g \<Rightarrow> msgqueue \<Rightarrow> msg_target \<Rightarrow> u64 \<Rightarrow>
      ('g receive_out \<times> msgqueue \<times> mq_event list) option" where
  "msgqueue_receive_msg dbg copy_to g q dst max_size =
    do {
      c_assert (buf q \<noteq> NULL);
      let count = cnt q;
      if count = 0
      then Some (\<lparr>ro_e = ERROR_MSGQUEUE_EMPTY, ro_size = 0, ro_notempty = False, ro_kernel = [], ro_guest = g\<rparr>, q, [])
      else do {
        assert_debug dbg (util_is_baligned (buf q + ucast (head q)) 8);
        let sz = load64 (contents q) (unat (head q));
        assert_debug dbg (sz > 0 \<and> sz \<le> max_msg_size q);
        let data = read_bytes (contents q) (unat (head q) + 8) (unat sz);
        let (e, ker, g) = (case dst of
            Kernel_dst \<Rightarrow> if sz > max_size then (ERROR_ARGUMENT_SIZE, [], g)
              else (OK, take (unat (util_min max_size sz)) data, g)
          | Guest_dst a \<Rightarrow> (let (e, g) = copy_to g a max_size data in (e, [], g)));
        if e \<noteq> OK
        then Some (\<lparr>ro_e = e, ro_size = 0, ro_notempty = False, ro_kernel = ker, ro_guest = g\<rparr>, q, [])
        else do {
          let count = count - 1;
          let q = q\<lparr>cnt := count\<rparr>;
          let q = q\<lparr>head := head q + ucast (max_msg_size q + 8)\<rparr>;
          assert_debug dbg (ucast (head q) \<le> queue_size q);
          let q = (if ucast (head q) = queue_size q then q\<lparr>head := 0\<rparr> else q);
          let ev = (if count = notfull_thd q then [Assert_send] else []);
          Some (\<lparr>ro_e = OK, ro_size = sz, ro_notempty = count \<noteq> 0, ro_kernel = ker, ro_guest = g\<rparr>, q, ev)
        }
      }
    }"

definition msgqueue_flush_queue :: "msgqueue \<Rightarrow> (msgqueue \<times> mq_event list) option" where
  "msgqueue_flush_queue q =
    do {
      c_assert (buf q \<noteq> NULL);
      let (q, ev) = (if cnt q \<noteq> 0 then (q\<lparr>cnt := 0\<rparr>, [Assert_send, Clear_rcv]) else (q, []));
      let q = q\<lparr>head := 0\<rparr>;
      let q = q\<lparr>tail := 0\<rparr>;
      Some (q, ev)
    }"

definition msgqueue_send ::
    "bool \<Rightarrow> 'g ua_from \<Rightarrow> 'g \<Rightarrow> msgqueue \<Rightarrow> u64 \<Rightarrow> u64 \<Rightarrow> bool \<Rightarrow>
      (bool result \<times> msgqueue \<times> mq_event list) option" where
  "msgqueue_send dbg copy_from g q sz data push =
    msgqueue_send_msg dbg copy_from g q sz (Guest_src data) push"

definition msgqueue_receive ::
    "bool \<Rightarrow> 'g ua_to \<Rightarrow> 'g \<Rightarrow> msgqueue \<Rightarrow> u64 \<Rightarrow> u64 \<Rightarrow>
      ('g receive_out \<times> msgqueue \<times> mq_event list) option" where
  "msgqueue_receive dbg copy_to g q buffer max_size =
    msgqueue_receive_msg dbg copy_to g q (Guest_dst buffer) max_size"

definition msgqueue_flush :: "msgqueue \<Rightarrow> (msgqueue \<times> mq_event list) option" where
  "msgqueue_flush q = msgqueue_flush_queue q"

definition msgqueue_configure_send :: "msgqueue \<Rightarrow> u32 \<Rightarrow> u32 \<Rightarrow> error_t \<times> msgqueue \<times> mq_event list" where
  "msgqueue_configure_send q thd delay =
    (if delay \<noteq> MSGQUEUE_DELAY_UNCHANGED then (ERROR_UNIMPLEMENTED, q, [])
     else if thd \<ge> queue_depth q \<and> thd \<noteq> MSGQUEUE_THRESHOLD_UNCHANGED then (ERROR_ARGUMENT_INVALID, q, [])
     else if thd \<noteq> MSGQUEUE_THRESHOLD_UNCHANGED then
       (OK, q\<lparr>notfull_thd := thd\<rparr>, if cnt q \<le> thd then [Assert_send] else [Clear_send])
     else (OK, q, []))"

definition msgqueue_configure_receive :: "msgqueue \<Rightarrow> u32 \<Rightarrow> u32 \<Rightarrow> error_t \<times> msgqueue \<times> mq_event list" where
  "msgqueue_configure_receive q thd delay =
    (if delay \<noteq> MSGQUEUE_DELAY_UNCHANGED then (ERROR_UNIMPLEMENTED, q, [])
     else if thd = 0 \<or> (thd > queue_depth q \<and> thd \<noteq> MSGQUEUE_THRESHOLD_MAXIMUM \<and>
        thd \<noteq> MSGQUEUE_THRESHOLD_UNCHANGED) then (ERROR_ARGUMENT_INVALID, q, [])
     else if thd \<noteq> MSGQUEUE_THRESHOLD_UNCHANGED then
       (let new_thd = (if thd = MSGQUEUE_THRESHOLD_MAXIMUM then queue_depth q else thd)
        in (OK, q\<lparr>notempty_thd := new_thd\<rparr>, if cnt q \<ge> new_thd then [Assert_rcv] else [Clear_rcv]))
     else (OK, q, []))"

definition msgqueue_configure :: "msgqueue \<Rightarrow> u64 \<Rightarrow> u32 \<Rightarrow> error_t \<times> msgqueue" where
  "msgqueue_configure q max_size depth =
    (if depth \<noteq> 0 \<and> max_size \<noteq> 0 \<and> depth < MSGQUEUE_MAX_QUEUE_DEPTH \<and>
        max_size < MSGQUEUE_MAX_MAX_MSG_SIZE
     then (OK, q\<lparr>max_msg_size := max_size, queue_depth := depth\<rparr>)
     else (ERROR_ARGUMENT_INVALID, q))"

text \<open>The partition allocator is the heap of theory Heap; \<open>alloc\<close> stands for its answer.\<close>

definition msgqueue_handle_object_activate_msgqueue ::
    "(u64 \<Rightarrow> u64 \<Rightarrow> ptr result) \<Rightarrow> msgqueue \<Rightarrow> (error_t \<times> msgqueue) option" where
  "msgqueue_handle_object_activate_msgqueue alloc q =
    do {
      c_assert (buf q = NULL);
      if queue_depth q = 0 \<or> max_msg_size q = 0 then Some (ERROR_OBJECT_CONFIG, q)
      else do {
        let qsize = (max_msg_size q + 8) * ucast (queue_depth q);
        case alloc qsize 8 of
          Inl e \<Rightarrow> Some (e, q)
        | Inr p \<Rightarrow> Some (OK, q\<lparr>buf := p, cnt := 0, queue_size := qsize, head := 0, tail := 0,
            notfull_thd := queue_depth q - 1, notempty_thd := 1\<rparr>)
      }
    }"

text \<open>Deactivation returns the block to free, if any, and unbinds both interrupt sources.\<close>

definition msgqueue_handle_object_deactivate_msgqueue ::
    "msgqueue \<Rightarrow> (ptr \<times> u64) option \<times> msgqueue \<times> mq_event list" where
  "msgqueue_handle_object_deactivate_msgqueue q =
    (let (fr, q) = (if buf q \<noteq> NULL then (Some (buf q, queue_size q), q\<lparr>buf := NULL\<rparr>) else (None, q))
     in (fr, q, [Unbind_send, Unbind_rcv]))"

definition msgqueue_rx_handle_virq_check_pending :: "msgqueue \<Rightarrow> bool \<Rightarrow> bool" where
  "msgqueue_rx_handle_virq_check_pending q reasserted =
    (if reasserted then True else cnt q \<ge> notempty_thd q)"

definition msgqueue_tx_handle_virq_check_pending :: "msgqueue \<Rightarrow> bool \<Rightarrow> bool" where
  "msgqueue_tx_handle_virq_check_pending q reasserted =
    (if reasserted then True else cnt q \<le> notfull_thd q)"

section \<open>Bytes\<close>

lemma bit_load64: "bit (load64 m a) j \<longleftrightarrow> j < 64 \<and> bit (m (a + j div 8)) (j mod 8)"
proof -
  have "bit (foldr (\<lambda>k w. push_bit (8 * k) (ucast (m (a + k))) OR w) ks (0::u64)) j \<longleftrightarrow>
      (\<exists>k \<in> set ks. j < 64 \<and> 8 * k \<le> j \<and> j < 8 * k + 8 \<and> bit (m (a + k)) (j - 8 * k))" for ks
    by (induction ks) (auto simp: bit_simps dest: bit_imp_le_length)
  note fold = this
  show ?thesis
  proof
    assume "bit (load64 m a) j"
    then obtain k where k: "j < 64" "8 * k \<le> j" "j < 8 * k + 8" "bit (m (a + k)) (j - 8 * k)"
      unfolding load64_def fold by blast
    then have "j div 8 = k" by (intro div_nat_eqI) auto
    moreover from this have "j mod 8 = j - 8 * k" by (metis minus_mult_div_eq_mod)
    ultimately show "j < 64 \<and> bit (m (a + j div 8)) (j mod 8)" using k by simp
  next
    assume j: "j < 64 \<and> bit (m (a + j div 8)) (j mod 8)"
    then have "j div 8 \<in> set [0..<8]" by auto
    moreover have "8 * (j div 8) \<le> j" "j < 8 * (j div 8) + 8" "j mod 8 = j - 8 * (j div 8)"
      using mult_div_mod_eq [of 8 j] mod_less_divisor [of 8 j] by linarith+
    ultimately show "bit (load64 m a) j" unfolding load64_def fold using j by metis
  qed
qed

lemma load_store64 [simp]: "load64 (store64 m a v) a = v"
proof (rule bit_word_eqI)
  fix j assume "j < LENGTH(64)"
  then have j: "j < 64" by simp
  have "a \<le> a + j div 8 \<and> a + j div 8 < a + 8" using j less_mult_imp_div_less [of j 8 8] by simp
  then have "store64 m a v (a + j div 8) = ucast (drop_bit (8 * (j div 8)) v)"
    unfolding store64_def by (simp only: if_P add_diff_cancel_left')
  moreover have "8 * (j div 8) + j mod 8 = j" "j mod 8 < 8" by simp_all
  ultimately show "bit (load64 (store64 m a v) a) j \<longleftrightarrow> bit v j"
    using j by (simp add: bit_load64 bit_simps)
qed

lemma load64_cong: "(\<And>i. a \<le> i \<Longrightarrow> i < a + 8 \<Longrightarrow> m i = m' i) \<Longrightarrow> load64 m a = load64 m' a"
  by (rule bit_word_eqI) (auto simp: bit_load64)

lemma read_bytes_cong: "(\<And>i. a \<le> i \<Longrightarrow> i < a + n \<Longrightarrow> m i = m' i) \<Longrightarrow> read_bytes m a n = read_bytes m' a n"
  by (simp add: read_bytes_def)

lemma read_write [simp]: "read_bytes (write_bytes m a bs) a (length bs) = bs"
  by (rule nth_equalityI) (simp_all add: read_bytes_def write_bytes_def)

section \<open>The messages of a queue\<close>

text \<open>The message in a slot.\<close>

definition holds_msg :: "bytes \<Rightarrow> nat \<Rightarrow> u8 list \<Rightarrow> bool" where
  "holds_msg m off bs \<longleftrightarrow> load64 m off = of_nat (length bs) \<and> read_bytes m (off + 8) (length bs) = bs"

abbreviation slot :: "msgqueue \<Rightarrow> nat" where "slot q \<equiv> unat (max_msg_size q) + 8"
abbreviation depth :: "msgqueue \<Rightarrow> nat" where "depth q \<equiv> unat (queue_depth q)"

definition mq_wf :: "msgqueue \<Rightarrow> bool" where
  "mq_wf q \<longleftrightarrow> buf q \<noteq> NULL \<and> 0 < depth q \<and> depth q < 256 \<and> 0 < unat (max_msg_size q) \<and>
     unat (max_msg_size q) < 1024 \<and> unat (queue_size q) = slot q * depth q"

definition mq_inv :: "msgqueue \<Rightarrow> u8 list list \<Rightarrow> bool" where
  "mq_inv q ms \<longleftrightarrow> mq_wf q \<and> length ms \<le> depth q \<and> unat (cnt q) = length ms \<and>
     (\<forall>m \<in> set ms. 0 < length m \<and> length m \<le> unat (max_msg_size q)) \<and>
     (\<exists>h < depth q. unat (head q) = slot q * h \<and> unat (tail q) = slot q * ((h + length ms) mod depth q) \<and>
       (\<forall>i < length ms. holds_msg (contents q) (slot q * ((h + i) mod depth q)) (ms ! i)))"

text \<open>Advancing an end of the ring by one slot.\<close>

lemma ring_step:
  assumes wf: "mq_wf q" and p: "unat (p::u32) = slot q * t" "t < depth q"
  defines "p' \<equiv> p + ucast (max_msg_size q + 8)"
  shows "ucast p' \<le> queue_size q"
    "unat (if ucast p' = queue_size q then 0 else p') = slot q * ((t + 1) mod depth q)"
proof -
  have b: "depth q < 256" "unat (max_msg_size q) < 1024" "unat (queue_size q) = slot q * depth q"
    using wf by (auto simp: mq_wf_def)
  have le: "slot q * (t + 1) \<le> slot q * depth q" using p(2) by (intro mult_le_mono2) simp
  have "slot q * depth q \<le> 1031 * 255" using b by (intro mult_le_mono) auto
  from order.trans [OF le this] have lt: "slot q * (t + 1) < 2 ^ 32" by (rule le_less_trans) simp
  have "unat (max_msg_size q + 8) = slot q"
    using b(2) by (subst unat_add_no_overflow) auto
  then have "unat (ucast (max_msg_size q + 8) :: u32) = slot q"
    using b(2) by (simp add: unsigned_ucast_eq take_bit_nat_eq_self)
  then have sum: "unat p + unat (ucast (max_msg_size q + 8) :: u32) = slot q * (t + 1)"
    by (simp only: p(1) add_mult_distrib2 mult_1_right)
  have "unat p + unat (ucast (max_msg_size q + 8) :: u32) < 2 ^ LENGTH(32)" unfolding sum using lt by simp
  then have p': "unat p' = slot q * (t + 1)" unfolding p'_def by (simp only: unat_add_no_overflow sum)
  then have u: "unat (ucast p' :: u64) = slot q * (t + 1)"
    using lt by (simp add: unsigned_ucast_eq take_bit_nat_eq_self)
  show "ucast p' \<le> queue_size q" using u le b(3) by (simp add: word_le_nat_alt)
  have eq: "ucast p' = queue_size q \<longleftrightarrow> t + 1 = depth q"
    unfolding word_unat_eq_iff u b(3) mult_cancel1 by simp
  show "unat (if ucast p' = queue_size q then 0 else p') = slot q * ((t + 1) mod depth q)"
  proof (cases "t + 1 = depth q")
    case False
    then have "t + 1 < depth q" using p(2) by simp
    then show ?thesis using False eq p' by simp
  qed (simp add: eq)
qed

text \<open>Slots do not overlap.\<close>

lemma slots_apart:
  assumes "(a::nat) \<noteq> b" "s * a \<le> x" "x < s * a + s"
  shows "x < s * b \<or> s * b + s \<le> x"
proof (cases "a < b")
  case True
  then have "s * (a + 1) \<le> s * b" by (intro mult_le_mono2) simp
  then show ?thesis using assms(3) by simp
next
  case False
  then have "s * (b + 1) \<le> s * a" using assms(1) by (intro mult_le_mono2) simp
  then show ?thesis using assms(2) by simp
qed

lemma mod_apart: "i < n \<Longrightarrow> n < d \<Longrightarrow> (h + i) mod d \<noteq> (h + n) mod (d::nat)"
proof
  assume "i < n" "n < d" "(h + i) mod d = (h + n) mod d"
  then have "d dvd (h + n) - (h + i)" using mod_eq_dvd_iff_nat [of "h + i" "h + n" d] by simp
  then show False using \<open>i < n\<close> \<open>n < d\<close> by (auto dest: dvd_imp_le)
qed

lemma holds_msg_frame:
  assumes "holds_msg m off bs" "8 + length bs \<le> s" "\<And>i. off \<le> i \<Longrightarrow> i < off + s \<Longrightarrow> m' i = m i"
  shows "holds_msg m' off bs"
proof -
  have "load64 m' off = load64 m off" using assms(2,3) by (intro load64_cong) simp
  moreover have "read_bytes m' (off + 8) (length bs) = read_bytes m (off + 8) (length bs)"
    using assms(2,3) by (intro read_bytes_cong) simp
  ultimately show ?thesis using assms(1) by (simp add: holds_msg_def)
qed

text \<open>Filling a slot: the message, then the header.\<close>

lemma fill_slot:
  assumes "length bs = unat sz"
  shows "holds_msg (store64 (write_bytes m (off + 8) bs) off sz) off bs"
    "i < off \<or> off + 8 + length bs \<le> i \<Longrightarrow> store64 (write_bytes m (off + 8) bs) off sz i = m i"
proof -
  have "read_bytes (store64 (write_bytes m (off + 8) bs) off sz) (off + 8) (length bs) =
      read_bytes (write_bytes m (off + 8) bs) (off + 8) (length bs)"
    by (rule read_bytes_cong) (simp add: store64_def)
  then show "holds_msg (store64 (write_bytes m (off + 8) bs) off sz) off bs"
    using assms read_write [of m "off + 8" bs] by (simp add: holds_msg_def)
  show "i < off \<or> off + 8 + length bs \<le> i \<Longrightarrow> store64 (write_bytes m (off + 8) bs) off sz i = m i"
    by (auto simp: store64_def write_bytes_def)
qed

text \<open>A change of bytes outside the slots of the queued messages.\<close>

lemma mq_inv_bytes:
  assumes inv: "mq_inv q ms" and lt: "length ms < depth q"
    and ch: "\<And>i. i < unat (tail q) \<or> unat (tail q) + slot q \<le> i \<Longrightarrow> m' i = contents q i"
  shows "mq_inv (q\<lparr>contents := m'\<rparr>) ms"
proof -
  from inv obtain h where h: "h < depth q" "unat (head q) = slot q * h"
    "unat (tail q) = slot q * ((h + length ms) mod depth q)"
    "\<forall>i < length ms. holds_msg (contents q) (slot q * ((h + i) mod depth q)) (ms ! i)"
    by (auto simp: mq_inv_def)
  have "holds_msg m' (slot q * ((h + i) mod depth q)) (ms ! i)" if i: "i < length ms" for i
  proof (rule holds_msg_frame)
    show "holds_msg (contents q) (slot q * ((h + i) mod depth q)) (ms ! i)" using h(4) i by simp
    show "8 + length (ms ! i) \<le> slot q" using inv i by (auto simp: mq_inv_def)
    fix x assume "slot q * ((h + i) mod depth q) \<le> x" "x < slot q * ((h + i) mod depth q) + slot q"
    from slots_apart [OF mod_apart [OF i lt] this] show "m' x = contents q x" using h(3) ch by auto
  qed
  then show ?thesis using inv h by (auto simp: mq_inv_def mq_wf_def)
qed

text \<open>In a debug build the headers must be aligned, which needs slots of a multiple of eight bytes.\<close>

definition aligned_build :: "bool \<Rightarrow> msgqueue \<Rightarrow> bool" where
  "aligned_build dbg q \<longleftrightarrow> (dbg \<longrightarrow> 8 dvd unat (buf q) \<and> 8 dvd unat (max_msg_size q))"

lemma baligned_8: "util_is_baligned (x::u64) 8 \<longleftrightarrow> 8 dvd unat x"
proof -
  have "util_is_p2 (8::u64)" by (simp add: util_is_p2_def util_is_p2_or_zero_def)
  from util_is_baligned_dvd [OF this, of x] show ?thesis by simp
qed

lemma dvd_8_add: "8 dvd unat (a + b :: u64) \<longleftrightarrow> 8 dvd unat a + unat b"
  unfolding unat_word_ariths by (rule dvd_mod_iff) simp

lemma aligned_slot:
  assumes "aligned_build dbg q" "unat (p::u32) = slot q * t" "dbg"
  shows "util_is_baligned (buf q + ucast p) 8"
proof -
  have u: "unat (ucast p :: u64) = slot q * t"
    using assms(2) unat_lt [of p] by (simp add: unsigned_ucast_eq take_bit_nat_eq_self)
  have "8 dvd unat (buf q)" "8 dvd unat (max_msg_size q)" using assms(1,3) by (auto simp: aligned_build_def)
  then have "8 dvd unat (buf q) + slot q * t" by (intro dvd_add dvd_mult2) auto
  then show ?thesis unfolding baligned_8 dvd_8_add u .
qed

lemma ring_add: "(a mod d + 1) mod d = (a + 1) mod (d::nat)"
  by (simp add: mod_Suc_eq)

text \<open>The successful part of a send.\<close>

definition enqueued :: "msgqueue \<Rightarrow> u64 \<Rightarrow> u8 list \<Rightarrow> msgqueue" where
  "enqueued q sz bs =
    (let t = tail q + ucast (max_msg_size q + 8) in
     q\<lparr>contents := store64 (write_bytes (contents q) (unat (tail q) + 8) bs) (unat (tail q)) sz,
       cnt := cnt q + 1, tail := (if ucast t = queue_size q then 0 else t)\<rparr>)"

lemma enqueued_simps [simp]:
  "buf (enqueued q sz bs) = buf q" "max_msg_size (enqueued q sz bs) = max_msg_size q"
  "queue_depth (enqueued q sz bs) = queue_depth q" "queue_size (enqueued q sz bs) = queue_size q"
  "head (enqueued q sz bs) = head q" "cnt (enqueued q sz bs) = cnt q + 1"
  "notempty_thd (enqueued q sz bs) = notempty_thd q" "notfull_thd (enqueued q sz bs) = notfull_thd q"
  by (simp_all add: enqueued_def Let_def)

lemma enqueued_inv:
  assumes inv: "mq_inv q ms" and lt: "length ms < depth q"
    and bs: "length bs = unat sz" "0 < length bs" "sz \<le> max_msg_size q"
  shows "mq_inv (enqueued q sz bs) (ms @ [bs])"
proof -
  let ?q = "enqueued q sz bs" and ?n = "length ms" and ?m = "store64 (write_bytes (contents q) (unat (tail q) + 8) bs) (unat (tail q)) sz"
  have wf: "mq_wf q" using inv by (simp add: mq_inv_def)
  have len: "length bs \<le> unat (max_msg_size q)" using bs by (simp add: word_le_nat_alt)
  have c: "contents ?q = ?m" by (simp add: enqueued_def Let_def)
  note fill = fill_slot [OF bs(1), where m = "contents q" and off = "unat (tail q)"]
  have "mq_inv (q\<lparr>contents := ?m\<rparr>) ms"
    using inv lt by (rule mq_inv_bytes) (use fill(2) len in auto)
  then obtain h where h: "h < depth q" "unat (head q) = slot q * h" "unat (tail q) = slot q * ((h + ?n) mod depth q)"
    "\<forall>i < ?n. holds_msg ?m (slot q * ((h + i) mod depth q)) (ms ! i)"
    by (auto simp: mq_inv_def)
  have d: "(h + ?n) mod depth q < depth q" using h(1) by simp
  have "tail ?q = (if ucast (tail q + ucast (max_msg_size q + 8)) = queue_size q then 0
      else tail q + ucast (max_msg_size q + 8))" by (simp add: enqueued_def Let_def)
  then have t: "unat (tail ?q) = slot q * ((h + Suc ?n) mod depth q)"
    using ring_step(2) [OF wf h(3) d] ring_add [of "h + ?n" "depth q"] by simp
  have m: "holds_msg ?m (slot q * ((h + i) mod depth q)) ((ms @ [bs]) ! i)" if "i < Suc ?n" for i
    using that h(3,4) fill(1) by (cases "i = ?n") (auto simp: nth_append)
  have cn: "unat (cnt ?q) = Suc ?n"
    using inv lt unat_lt [of "queue_depth q"]
    by (simp, subst unat_add_no_overflow) (auto simp: mq_inv_def mq_wf_def)
  have ms: "\<forall>m \<in> set (ms @ [bs]). 0 < length m \<and> length m \<le> unat (max_msg_size q)"
    using inv bs(2) len by (auto simp: mq_inv_def)
  show ?thesis unfolding mq_inv_def
    using wf lt cn ms h(1,2) t m by (auto simp: mq_wf_def c intro!: exI [of _ h])
qed

lemma send_enqueues:
  assumes inv: "mq_inv q ms" and lt: "length ms < depth q" and al: "aligned_build dbg q"
    and sz: "sz \<le> max_msg_size q"
    and cp: "(case msg of Kernel_src src \<Rightarrow> (OK, take (unat (util_min (max_msg_size q) sz)) src)
       | Guest_src a \<Rightarrow> copy_from g a sz) = (OK, bs)"
  shows "msgqueue_send_msg dbg copy_from g q sz msg push =
    Some (Inr (length ms + 1 \<noteq> depth q), enqueued q sz bs,
      if push \<or> length ms + 1 = unat (notempty_thd q) then [Assert_rcv] else [])"
proof -
  have wf: "mq_wf q" using inv by (simp add: mq_inv_def)
  from inv obtain h where h: "h < depth q" "unat (tail q) = slot q * ((h + length ms) mod depth q)"
    by (auto simp: mq_inv_def)
  have d: "(h + length ms) mod depth q < depth q" using h(1) by simp
  note rs = ring_step [OF wf h(2) d]
  have cn: "unat (cnt q) = length ms" "unat (cnt q + 1) = length ms + 1"
    using inv lt unat_lt [of "queue_depth q"]
    by (auto simp: mq_inv_def unat_add_no_overflow mq_wf_def)
  have full: "cnt q \<noteq> queue_depth q" using cn(1) lt by (auto simp: word_unat_eq_iff)
  have al1: "assert_debug dbg (util_is_baligned (buf q + ucast (tail q)) 8) = Some ()"
    using aligned_slot [OF al h(2)] by (simp add: assert_debug_def)
  have al2: "assert_debug dbg (ucast (tail q + ucast (max_msg_size q + 8)) \<le> queue_size q) = Some ()"
    using rs(1) by (simp add: assert_debug_def)
  have eqs: "cnt q + 1 = queue_depth q \<longleftrightarrow> length ms + 1 = depth q"
    "cnt q + 1 = notempty_thd q \<longleftrightarrow> length ms + 1 = unat (notempty_thd q)"
    unfolding word_unat_eq_iff cn(2) by simp_all
  show ?thesis
    unfolding msgqueue_send_msg_def cp using full sz al1 al2
    by (simp add: Let_def eqs enqueued_def not_less [symmetric] word_unat_eq_iff [of "notempty_thd q"])
qed

text \<open>The successful part of a receive.\<close>

definition dequeued :: "msgqueue \<Rightarrow> msgqueue" where
  "dequeued q =
    (let h = head q + ucast (max_msg_size q + 8) in
     q\<lparr>cnt := cnt q - 1, head := (if ucast h = queue_size q then 0 else h)\<rparr>)"

lemma dequeued_simps [simp]:
  "buf (dequeued q) = buf q" "max_msg_size (dequeued q) = max_msg_size q"
  "queue_depth (dequeued q) = queue_depth q" "queue_size (dequeued q) = queue_size q"
  "tail (dequeued q) = tail q" "cnt (dequeued q) = cnt q - 1" "contents (dequeued q) = contents q"
  "notempty_thd (dequeued q) = notempty_thd q" "notfull_thd (dequeued q) = notfull_thd q"
  by (simp_all add: dequeued_def Let_def)

lemma first_msg:
  assumes "mq_inv q (m # ms)"
  obtains h where "h < depth q" "unat (head q) = slot q * h" "load64 (contents q) (unat (head q)) = of_nat (length m)"
    "read_bytes (contents q) (unat (head q) + 8) (length m) = m"
proof -
  from assms obtain h where h: "h < depth q" "unat (head q) = slot q * h"
    "\<forall>i < Suc (length ms). holds_msg (contents q) (slot q * ((h + i) mod depth q)) ((m # ms) ! i)"
    by (auto simp: mq_inv_def)
  from h(3) [rule_format, of 0] h(1,2) show thesis by (intro that [OF h(1,2)]) (auto simp: holds_msg_def)
qed

lemma unat_pred: "unat (c::u32) = Suc n \<Longrightarrow> unat (c - 1) = n"
  by (subst unat_diff_le) auto

lemma dequeued_inv:
  assumes inv: "mq_inv q (m # ms)"
  shows "mq_inv (dequeued q) ms"
proof -
  have wf: "mq_wf q" using inv by (simp add: mq_inv_def)
  from inv obtain h where h: "h < depth q" "unat (head q) = slot q * h"
    "unat (tail q) = slot q * ((h + Suc (length ms)) mod depth q)"
    "\<forall>i < Suc (length ms). holds_msg (contents q) (slot q * ((h + i) mod depth q)) ((m # ms) ! i)"
    by (auto simp: mq_inv_def)
  let ?h = "(h + 1) mod depth q"
  have "head (dequeued q) = (if ucast (head q + ucast (max_msg_size q + 8)) = queue_size q then 0
      else head q + ucast (max_msg_size q + 8))" by (simp add: dequeued_def Let_def)
  then have hd: "unat (head (dequeued q)) = slot q * ?h" using ring_step(2) [OF wf h(2,1)] by simp
  have add: "(?h + i) mod depth q = (h + Suc i) mod depth q" for i by (simp add: mod_add_left_eq)
  have "holds_msg (contents q) (slot q * ((?h + i) mod depth q)) (ms ! i)" if "i < length ms" for i
    using h(4) [rule_format, of "Suc i"] that unfolding add by simp
  moreover have "unat (tail q) = slot q * ((?h + length ms) mod depth q)" using h(3) unfolding add .
  moreover have "?h < depth q" using h(1) by simp
  moreover have "unat (cnt q - 1) = length ms" using inv by (intro unat_pred) (simp add: mq_inv_def)
  ultimately show ?thesis using inv wf hd by (auto simp: mq_inv_def mq_wf_def intro!: exI [of _ ?h])
qed

text \<open>The copy that a receive performs.\<close>

definition deliver :: "'g ua_to \<Rightarrow> 'g \<Rightarrow> msg_target \<Rightarrow> u64 \<Rightarrow> u8 list \<Rightarrow> error_t \<times> u8 list \<times> 'g" where
  "deliver copy_to g dst max_size m = (case dst of
     Kernel_dst \<Rightarrow> if unat max_size < length m then (ERROR_ARGUMENT_SIZE, [], g) else (OK, m, g)
   | Guest_dst a \<Rightarrow> (let (e, g) = copy_to g a max_size m in (e, [], g)))"

lemma receive_dequeues:
  assumes inv: "mq_inv q (m # ms)" and al: "aligned_build dbg q"
    and dl: "deliver copy_to g dst max_size m = (e, ker, g')"
  shows "msgqueue_receive_msg dbg copy_to g q dst max_size = Some (if e = OK
    then (\<lparr>ro_e = OK, ro_size = of_nat (length m), ro_notempty = ms \<noteq> [], ro_kernel = ker, ro_guest = g'\<rparr>,
      dequeued q, if length ms = unat (notfull_thd q) then [Assert_send] else [])
    else (\<lparr>ro_e = e, ro_size = 0, ro_notempty = False, ro_kernel = ker, ro_guest = g'\<rparr>, q, []))"
proof -
  have wf: "mq_wf q" using inv by (simp add: mq_inv_def)
  have len: "0 < length m" "length m \<le> unat (max_msg_size q)" "unat (max_msg_size q) < 1024"
    using inv by (auto simp: mq_inv_def mq_wf_def)
  from inv obtain h where h: "h < depth q" "unat (head q) = slot q * h"
    "load64 (contents q) (unat (head q)) = of_nat (length m)"
    "read_bytes (contents q) (unat (head q) + 8) (length m) = m" by (rule first_msg)
  have u: "unat (of_nat (length m) :: u64) = length m"
    using len by (simp add: unat_of_nat take_bit_nat_eq_self)
  have cn: "cnt q \<noteq> 0" "unat (cnt q - 1) = length ms"
    using inv unat_pred [of "cnt q" "length ms"] by (auto simp: mq_inv_def)
  have eqs: "cnt q - 1 = 0 \<longleftrightarrow> ms = []" "cnt q - 1 = notfull_thd q \<longleftrightarrow> length ms = unat (notfull_thd q)"
    unfolding word_unat_eq_iff cn(2) by simp_all
  have one: "cnt q = 1 \<longleftrightarrow> ms = []" using eqs(1) by (simp add: diff_eq_eq)
  have a1: "assert_debug dbg (util_is_baligned (buf q + ucast (head q)) 8) = Some ()"
    using aligned_slot [OF al h(2)] by (simp add: assert_debug_def)
  have a2: "assert_debug dbg (0 < (of_nat (length m) :: u64) \<and> of_nat (length m) \<le> max_msg_size q) = Some ()"
    using len u by (simp add: assert_debug_def word_less_nat_alt word_le_nat_alt)
  have a3: "assert_debug dbg (ucast (head q + ucast (max_msg_size q + 8)) \<le> queue_size q) = Some ()"
    using ring_step(1) [OF wf h(2,1)] by (simp add: assert_debug_def)
  have bf: "buf q \<noteq> NULL" using wf by (simp add: mq_wf_def)
  have copy: "(case dst of
       Kernel_dst \<Rightarrow> if (of_nat (length m) :: u64) > max_size then (ERROR_ARGUMENT_SIZE, [], g)
         else (OK, take (unat (util_min max_size (of_nat (length m)))) m, g)
     | Guest_dst a \<Rightarrow> (let (e, g) = copy_to g a max_size m in (e, [], g))) = (e, ker, g')"
    using dl u by (cases dst) (auto simp: deliver_def word_less_nat_alt word_le_nat_alt min_def split: if_splits)
  show ?thesis
    unfolding msgqueue_receive_msg_def Let_def h(3) u h(4) copy [unfolded Let_def] a1 a2
    using bf cn(1) a3 by (simp add: eqs one dequeued_def Let_def)
qed

lemma flush_inv:
  assumes "mq_inv q ms"
  shows "\<exists>q'. msgqueue_flush_queue q = Some (q', if ms = [] then [] else [Assert_send, Clear_rcv]) \<and> mq_inv q' []"
proof -
  have "cnt q = 0 \<longleftrightarrow> ms = []" using assms by (auto simp: mq_inv_def word_unat_eq_iff)
  then show ?thesis using assms
    by (auto simp: msgqueue_flush_queue_def mq_inv_def mq_wf_def Let_def)
qed

section \<open>The queue as a FIFO\<close>

text \<open>
  The documented behaviour of a copy from guest memory: it succeeds only with all the requested bytes,
  of which there is at least one, and never writes more than requested.
\<close>

definition useraccess_from_doc :: "'g ua_from \<Rightarrow> bool" where
  "useraccess_from_doc copy_from \<longleftrightarrow> (\<forall>g a n. length (snd (copy_from g a n)) \<le> unat n \<and>
     (fst (copy_from g a n) = OK \<longrightarrow> length (snd (copy_from g a n)) = unat n \<and> n \<noteq> 0))"

text \<open>
  An operation of a user: a send with the outcome of the copy from the sender, a receive with the
  outcome of the copy to the receiver. The guest that receives is the list of the delivered messages.
\<close>

datatype mq_op = Send u64 msg_source bool "error_t \<times> u8 list" | Receive msg_target u64 error_t

definition guest_copy :: "error_t \<Rightarrow> u8 list list ua_to" where
  "guest_copy e got a max_size m =
    (if e \<noteq> OK then (e, got) else if unat max_size < length m then (ERROR_ARGUMENT_SIZE, got)
     else (OK, got @ [m]))"

fun mq_step :: "bool \<Rightarrow> mq_op \<Rightarrow> msgqueue \<Rightarrow> (u8 list fifo_event \<times> msgqueue) option" where
  "mq_step dbg (Send sz src push copied) q =
    map_option (\<lambda>(r, q, ev). (case r of Inl e \<Rightarrow> Quiet
      | Inr _ \<Rightarrow> Sent (case src of Kernel_src b \<Rightarrow> take (unat sz) b | Guest_src _ \<Rightarrow> snd copied), q))
    (msgqueue_send_msg dbg (\<lambda>_ _ _. copied) () q sz src push)"
| "mq_step dbg (Receive dst max_size e) q =
    map_option (\<lambda>(r, q, ev). (if ro_e r = OK
      then Got (case dst of Kernel_dst \<Rightarrow> ro_kernel r | Guest_dst _ \<Rightarrow> hd (ro_guest r)) else Quiet, q))
    (msgqueue_receive_msg dbg (guest_copy e) [] q dst max_size)"

fun mq_ok :: "bool \<Rightarrow> msgqueue \<Rightarrow> mq_op \<Rightarrow> bool" where
  "mq_ok dbg q (Send sz src push copied) \<longleftrightarrow> aligned_build dbg q \<and>
     (case src of Kernel_src b \<Rightarrow> sz \<noteq> 0 \<and> unat sz \<le> length b
      | Guest_src _ \<Rightarrow> length (snd copied) \<le> unat sz \<and>
          (fst copied = OK \<longrightarrow> length (snd copied) = unat sz \<and> sz \<noteq> 0))"
| "mq_ok dbg q (Receive dst max_size e) \<longleftrightarrow> aligned_build dbg q"

lemma mq_ok_cong: "buf q' = buf q \<Longrightarrow> max_msg_size q' = max_msg_size q \<Longrightarrow> mq_ok dbg q' = mq_ok dbg q"
proof
  fix op assume "buf q' = buf q" "max_msg_size q' = max_msg_size q"
  then show "mq_ok dbg q' op = mq_ok dbg q op" by (cases op) (auto simp: aligned_build_def)
qed

text \<open>A send that the queue does not accept changes at most bytes of the slot at its tail.\<close>

lemma send_refused:
  assumes inv: "mq_inv q ms"
    and r: "msgqueue_send_msg dbg copy_from g q sz msg push = Some (Inl e, q', ev)"
    and doc: "\<And>a. msg = Guest_src a \<Longrightarrow> length (snd (copy_from g a sz)) \<le> unat sz"
  shows "mq_inv q' ms \<and> ev = [] \<and> buf q' = buf q \<and> max_msg_size q' = max_msg_size q"
proof (cases "cnt q = queue_depth q \<or> max_msg_size q < sz")
  case True
  then show ?thesis using r inv by (auto simp: msgqueue_send_msg_def split: if_splits)
next
  case False
  then have lt: "length ms < depth q" and sz: "unat sz \<le> unat (max_msg_size q)"
    using inv by (auto simp: mq_inv_def word_unat_eq_iff word_less_nat_alt)
  obtain e1 bs where cp: "(case msg of Kernel_src src \<Rightarrow> (OK, take (unat (util_min (max_msg_size q) sz)) src)
      | Guest_src a \<Rightarrow> copy_from g a sz) = (e1, bs)" by force
  have e1: "e1 \<noteq> OK"
  proof
    assume "e1 = OK"
    with r False show False unfolding msgqueue_send_msg_def cp
      by (auto simp: Let_def assert_debug_def c_assert_def split: if_splits)
  qed
  then have q': "q' = q\<lparr>contents := write_bytes (contents q) (unat (tail q) + 8) bs\<rparr>" "ev = []"
    using r False unfolding msgqueue_send_msg_def cp by (auto simp: Let_def split: if_splits)
  have "length bs \<le> unat sz" using cp e1 doc by (cases msg) (auto split: prod.splits)
  then have "mq_inv q' ms" unfolding q' by (intro mq_inv_bytes [OF inv lt]) (use sz in \<open>auto simp: write_bytes_def\<close>)
  then show ?thesis using q' by simp
qed

lemma send_bytes:
  assumes cp: "(case src of Kernel_src b \<Rightarrow> (OK, take (unat (util_min (max_msg_size q) sz)) b)
      | Guest_src a \<Rightarrow> copied) = (OK, bs)"
    and ok: "mq_ok dbg q (Send sz src push copied)" and le: "sz \<le> max_msg_size q"
  shows "length bs = unat sz \<and> 0 < length bs \<and>
    bs = (case src of Kernel_src b \<Rightarrow> take (unat sz) b | Guest_src _ \<Rightarrow> snd copied)"
proof (cases src)
  case (Kernel_src b)
  have "util_min (max_msg_size q) sz = sz" using le by (simp add: min.absorb2)
  then have bs: "bs = take (unat sz) b" using cp Kernel_src by simp
  have "sz \<noteq> 0" "unat sz \<le> length b" using ok Kernel_src by auto
  then show ?thesis using bs Kernel_src by (simp add: unat_gt_0)
next
  case (Guest_src a)
  then have c: "copied = (OK, bs)" using cp by simp
  then have "length bs = unat sz" "sz \<noteq> 0" using ok Guest_src by simp_all
  then show ?thesis using c Guest_src by (simp add: unat_gt_0)
qed

lemma send_step:
  assumes inv: "mq_inv q ms" and ok: "mq_ok dbg q (Send sz src push copied)"
  shows "\<exists>e q'. mq_step dbg (Send sz src push copied) q = Some (e, q') \<and> mq_ok dbg q' = mq_ok dbg q \<and>
    (case e of Sent m \<Rightarrow> mq_inv q' (ms @ [m]) | Got m \<Rightarrow> False | Quiet \<Rightarrow> mq_inv q' ms)"
proof -
  let ?f = "\<lambda>_ _ _. copied"
  have al: "aligned_build dbg q" using ok by simp
  obtain e1 bs where cp: "(case src of Kernel_src b \<Rightarrow> (OK, take (unat (util_min (max_msg_size q) sz)) b)
      | Guest_src a \<Rightarrow> ?f () a sz) = (e1, bs)" by force
  have doc: "length (snd (?f () a sz)) \<le> unat sz" if "src = Guest_src a" for a using ok that by auto
  show ?thesis
  proof (cases "length ms < depth q \<and> sz \<le> max_msg_size q \<and> e1 = OK")
    case True
    then have bs: "length bs = unat sz" "0 < length bs"
      "bs = (case src of Kernel_src b \<Rightarrow> take (unat sz) b | Guest_src _ \<Rightarrow> snd copied)"
      using send_bytes [OF _ ok, of bs] cp by blast+
    have "msgqueue_send_msg dbg ?f () q sz src push = Some (Inr (length ms + 1 \<noteq> depth q), enqueued q sz bs,
        if push \<or> length ms + 1 = unat (notempty_thd q) then [Assert_rcv] else [])"
      using True cp by (intro send_enqueues [OF inv _ al]) auto
    then show ?thesis
      using enqueued_inv [OF inv _ bs(1,2)] True bs(3) mq_ok_cong [of "enqueued q sz bs" q dbg] by simp
  next
    case False
    have "\<exists>e q'. msgqueue_send_msg dbg ?f () q sz src push = Some (Inl e, q', [])"
    proof (cases "cnt q = queue_depth q \<or> max_msg_size q < sz")
      case True
      then show ?thesis by (auto simp: msgqueue_send_msg_def)
    next
      case ok: False
      then have "length ms < depth q" "sz \<le> max_msg_size q"
        using inv by (auto simp: mq_inv_def word_unat_eq_iff)
      then have "e1 \<noteq> OK" using False by simp
      then show ?thesis unfolding msgqueue_send_msg_def cp using ok by (auto simp: Let_def)
    qed
    then obtain e q' where r: "msgqueue_send_msg dbg ?f () q sz src push = Some (Inl e, q', [])" by blast
    from send_refused [OF inv r doc] r show ?thesis using mq_ok_cong [of q' q dbg] by auto
  qed
qed

lemma receive_step:
  assumes inv: "mq_inv q ms" and al: "aligned_build dbg q"
  shows "\<exists>e q'. mq_step dbg (Receive dst max_size err) q = Some (e, q') \<and> mq_ok dbg q' = mq_ok dbg q \<and>
    (case e of Sent m \<Rightarrow> False | Got m \<Rightarrow> \<exists>ms'. ms = m # ms' \<and> mq_inv q' ms' | Quiet \<Rightarrow> mq_inv q' ms)"
proof (cases ms)
  case Nil
  then have "buf q \<noteq> NULL" "cnt q = 0" using inv by (auto simp: mq_inv_def mq_wf_def word_unat_eq_iff)
  then show ?thesis using inv by (simp add: msgqueue_receive_msg_def)
next
  case (Cons m ms')
  obtain e ker g' where dl: "deliver (guest_copy err) [] dst max_size m = (e, ker, g')" by (metis prod_cases3)
  have "e = OK \<Longrightarrow> (case dst of Kernel_dst \<Rightarrow> ker | Guest_dst _ \<Rightarrow> hd g') = m"
    using dl by (cases dst) (auto simp: deliver_def guest_copy_def split: if_splits)
  then show ?thesis
    using receive_dequeues [OF inv [unfolded Cons] al dl] dequeued_inv [OF inv [unfolded Cons]] Cons inv
      mq_ok_cong [of "dequeued q" q dbg]
    by (cases "e = OK"; cases dst) auto
qed

interpretation mq: fifo_queue mq_inv "mq_ok dbg" "mq_step dbg" for dbg
proof
  fix s ms op
  assume a: "mq_inv s ms" "mq_ok dbg s op"
  show "\<exists>e s'. mq_step dbg op s = Some (e, s') \<and> mq_ok dbg s' = mq_ok dbg s \<and>
    (case e of Sent m \<Rightarrow> mq_inv s' (ms @ [m]) | Got m \<Rightarrow> \<exists>ms'. ms = m # ms' \<and> mq_inv s' ms' | Quiet \<Rightarrow> mq_inv s' ms)"
  proof (cases op)
    case (Send sz src push copied)
    from send_step [OF a(1)] a(2) Send obtain e q' where
      "mq_step dbg op s = Some (e, q')" "mq_ok dbg q' = mq_ok dbg s"
      "case e of Sent m \<Rightarrow> mq_inv q' (ms @ [m]) | Got m \<Rightarrow> False | Quiet \<Rightarrow> mq_inv q' ms" by blast
    then show ?thesis by (cases e) auto
  next
    case (Receive dst max_size err)
    then have "aligned_build dbg s" using a(2) by simp
    from receive_step [OF a(1) this] Receive obtain e q' where
      "mq_step dbg op s = Some (e, q')" "mq_ok dbg q' = mq_ok dbg s"
      "case e of Sent m \<Rightarrow> False | Got m \<Rightarrow> \<exists>ms'. ms = m # ms' \<and> mq_inv q' ms' | Quiet \<Rightarrow> mq_inv q' ms" by blast
    then show ?thesis by (cases e) auto
  qed
qed

text \<open>A queue that was configured and activated is empty and well formed.\<close>

lemma activate_inv:
  assumes "msgqueue_configure q0 sz d = (OK, q)" "buf q = NULL" "alloc ((max_msg_size q + 8) * ucast (queue_depth q)) 8 = Inr p" "p \<noteq> NULL"
  shows "\<exists>q'. msgqueue_handle_object_activate_msgqueue alloc q = Some (OK, q') \<and> mq_inv q' [] \<and>
    max_msg_size q' = sz \<and> queue_depth q' = d"
proof -
  have c: "d \<noteq> 0" "sz \<noteq> 0" "d < 256" "sz < 1024" "max_msg_size q = sz" "queue_depth q = d"
    using assms(1) by (auto simp: msgqueue_configure_def split: if_splits)
  have u: "unat (sz + 8) = unat sz + 8" using c(4) by (subst unat_add_no_overflow) (auto simp: word_less_nat_alt)
  have ud: "unat (ucast d :: u64) = unat d" using unat_lt [of d] by (simp add: unsigned_ucast_eq take_bit_nat_eq_self)
  have "(unat sz + 8) * unat d \<le> 1031 * 255" using c(3,4) by (intro mult_le_mono) (auto simp: word_less_nat_alt)
  then have "(unat sz + 8) * unat d < 2 ^ 64" by simp
  then have "unat ((sz + 8) * ucast d) = (unat sz + 8) * unat d"
    unfolding unat_word_ariths(2) u ud by simp
  then show ?thesis using assms(2-4) c
    by (auto simp: msgqueue_handle_object_activate_msgqueue_def mq_inv_def mq_wf_def word_less_nat_alt
        unat_gt_0 Let_def)
qed

section \<open>Properties\<close>

text \<open>
  C28. Whatever the users of a message queue do, the call returns, and the receivers get exactly the
  messages that were accepted from the senders, byte for byte and in the same order; what has not been
  received is in the queue. In a debug build this needs slots of a multiple of eight bytes.
\<close>

theorem msgqueue_in_order:
  assumes "mq_inv q ms" "\<forall>op \<in> set ops. mq_ok dbg q op"
  shows "\<exists>es q' ms'. fifo_run (mq_step dbg) ops q = Some (es, q') \<and> mq_inv q' ms' \<and>
    ms @ sent_of es = got_of es @ ms'"
  using assms by (rule mq.run_in_order)

definition example_queue :: msgqueue where
  "example_queue = \<lparr>buf = 0x1000, contents = (\<lambda>_. 0), cnt = 0, queue_size = 48, max_msg_size = 16,
     queue_depth = 2, head = 0, tail = 0, notfull_thd = 1, notempty_thd = 1\<rparr>"

lemma example_inv: "mq_inv example_queue []"
  by (simp add: mq_inv_def mq_wf_def example_queue_def)

theorem msgqueue_in_order_witness:
  "\<exists>es q' ms'. fifo_run (mq_step True) [Send 3 (Guest_src 0) False (OK, [1, 2, 3]), Receive Kernel_dst 8 OK] example_queue =
    Some (es, q') \<and> mq_inv q' ms' \<and> sent_of es = got_of es @ ms'"
  using msgqueue_in_order [OF example_inv,
      of "[Send 3 (Guest_src 0) False (OK, [1, 2, 3]), Receive Kernel_dst 8 OK]" True]
  by (simp add: aligned_build_def example_queue_def)

text \<open>
  C32. A send from a guest: a full queue and a message that is too long are refused without a change; a
  failed copy from the guest is reported and leaves the queued messages as they were; otherwise the
  message is appended, the result says whether there is room for more, and the receiver is interrupted
  exactly if the sender asks for it or the number of messages reaches the threshold.
\<close>

theorem msgqueue_send_exact:
  assumes inv: "mq_inv q ms" and al: "aligned_build dbg q" and doc: "useraccess_from_doc copy_from"
  shows "\<exists>r q' ev. msgqueue_send dbg copy_from g q sz data push = Some (r, q', ev) \<and>
    (if length ms = depth q then r = Inl ERROR_MSGQUEUE_FULL \<and> q' = q \<and> ev = []
     else if max_msg_size q < sz then r = Inl ERROR_ARGUMENT_SIZE \<and> q' = q \<and> ev = []
     else if fst (copy_from g data sz) \<noteq> OK
     then r = Inl (fst (copy_from g data sz)) \<and> mq_inv q' ms \<and> ev = []
     else r = Inr (length ms + 1 \<noteq> depth q) \<and> mq_inv q' (ms @ [snd (copy_from g data sz)]) \<and>
       ev = (if push \<or> length ms + 1 = unat (notempty_thd q) then [Assert_rcv] else []))"
proof -
  have full: "cnt q = queue_depth q \<longleftrightarrow> length ms = depth q" using inv by (auto simp: mq_inv_def word_unat_eq_iff)
  have le: "length ms \<le> depth q" using inv by (simp add: mq_inv_def)
  obtain e bs where cp: "copy_from g data sz = (e, bs)" by force
  have d: "length bs \<le> unat sz" "e = OK \<longrightarrow> length bs = unat sz \<and> sz \<noteq> 0"
    using doc [unfolded useraccess_from_doc_def, rule_format, of g data sz] cp by auto
  consider "length ms = depth q" | "length ms < depth q" "max_msg_size q < sz"
    | "length ms < depth q" "sz \<le> max_msg_size q" "e \<noteq> OK" | "length ms < depth q" "sz \<le> max_msg_size q" "e = OK"
    using le by force
  then show ?thesis
  proof cases
    case 3
    then have r: "msgqueue_send_msg dbg copy_from g q sz (Guest_src data) push =
        Some (Inl e, q\<lparr>contents := write_bytes (contents q) (unat (tail q) + 8) bs\<rparr>, [])"
      using full cp by (simp add: msgqueue_send_msg_def Let_def not_less [symmetric])
    have "mq_inv (q\<lparr>contents := write_bytes (contents q) (unat (tail q) + 8) bs\<rparr>) ms"
      using send_refused [OF inv r] d(1) cp by simp
    then show ?thesis using 3 r cp by (simp add: msgqueue_send_def not_less [symmetric])
  next
    case 4
    then have bs: "length bs = unat sz" "0 < length bs" using d(2) by (auto simp: unat_gt_0)
    have "msgqueue_send_msg dbg copy_from g q sz (Guest_src data) push =
        Some (Inr (length ms + 1 \<noteq> depth q), enqueued q sz bs,
          if push \<or> length ms + 1 = unat (notempty_thd q) then [Assert_rcv] else [])"
      using 4 cp by (intro send_enqueues [OF inv _ al]) auto
    then show ?thesis using 4 enqueued_inv [OF inv _ bs] cp by (simp add: msgqueue_send_def not_less [symmetric])
  qed (auto simp: msgqueue_send_def msgqueue_send_msg_def full)
qed

theorem msgqueue_send_exact_witness:
  "\<exists>q'. msgqueue_send True (\<lambda>_ _ n. if n = 1 then (OK, [7]) else (ERROR_ARGUMENT_SIZE, [])) () example_queue 1 0 False =
    Some (Inr True, q', [Assert_rcv]) \<and> mq_inv q' [[7]]"
proof -
  let ?f = "\<lambda>_ _ n. if n = 1 then (OK, [7]) else (ERROR_ARGUMENT_SIZE, [])"
  have 1: "useraccess_from_doc (?f :: unit ua_from)" by (simp add: useraccess_from_doc_def)
  have 2: "aligned_build True example_queue" by (simp add: aligned_build_def example_queue_def)
  show ?thesis using msgqueue_send_exact [OF example_inv 2 1, of "()" 1 0 False] by (auto simp: example_queue_def)
qed

text \<open>
  C33. A receive: an empty queue is reported; if the copy to the receiver fails the message stays at the
  front of the queue; otherwise the oldest message is delivered and removed, its size and whether more
  messages wait are returned, and the sender is interrupted exactly if the number of messages falls to
  the threshold. A flush empties the queue; if there was a message in it, it asserts the interrupt of the
  sender and clears the one of the receiver. Assumed is the invariant of the queue, and in a debug build
  that its messages are aligned.
\<close>

theorem msgqueue_receive_exact:
  assumes inv: "mq_inv q ms" and al: "aligned_build dbg q"
  shows "(case ms of
      [] \<Rightarrow> \<exists>r. msgqueue_receive_msg dbg copy_to g q dst max_size = Some (r, q, []) \<and>
        ro_e r = ERROR_MSGQUEUE_EMPTY \<and> \<not> ro_notempty r \<and> ro_guest r = g
    | m # ms' \<Rightarrow> \<exists>r q' ev. msgqueue_receive_msg dbg copy_to g q dst max_size = Some (r, q', ev) \<and>
        (ro_e r, ro_kernel r, ro_guest r) = deliver copy_to g dst max_size m \<and>
        (if ro_e r = OK then mq_inv q' ms' \<and> unat (ro_size r) = length m \<and> ro_notempty r = (ms' \<noteq> []) \<and>
           ev = (if length ms' = unat (notfull_thd q) then [Assert_send] else [])
         else q' = q \<and> ev = [])) \<and>
    (\<exists>q'. msgqueue_flush q = Some (q', if ms = [] then [] else [Assert_send, Clear_rcv]) \<and> mq_inv q' [])"
proof (rule conjI)
  show "\<exists>q'. msgqueue_flush q = Some (q', if ms = [] then [] else [Assert_send, Clear_rcv]) \<and> mq_inv q' []"
    using flush_inv [OF inv] by (simp add: msgqueue_flush_def)
  show "case ms of
      [] \<Rightarrow> \<exists>r. msgqueue_receive_msg dbg copy_to g q dst max_size = Some (r, q, []) \<and>
        ro_e r = ERROR_MSGQUEUE_EMPTY \<and> \<not> ro_notempty r \<and> ro_guest r = g
    | m # ms' \<Rightarrow> \<exists>r q' ev. msgqueue_receive_msg dbg copy_to g q dst max_size = Some (r, q', ev) \<and>
        (ro_e r, ro_kernel r, ro_guest r) = deliver copy_to g dst max_size m \<and>
        (if ro_e r = OK then mq_inv q' ms' \<and> unat (ro_size r) = length m \<and> ro_notempty r = (ms' \<noteq> []) \<and>
           ev = (if length ms' = unat (notfull_thd q) then [Assert_send] else [])
         else q' = q \<and> ev = [])"
  proof (cases ms)
    case Nil
    then have "buf q \<noteq> NULL" "cnt q = 0" using inv by (auto simp: mq_inv_def mq_wf_def word_unat_eq_iff)
    then show ?thesis using Nil by (simp add: msgqueue_receive_msg_def)
  next
    case (Cons m ms')
    obtain e ker g' where dl: "deliver copy_to g dst max_size m = (e, ker, g')" by (metis prod_cases3)
    have "length m < 2 ^ 64" using inv Cons by (auto simp: mq_inv_def mq_wf_def)
    then have "unat (of_nat (length m) :: u64) = length m" by (simp add: unat_of_nat take_bit_nat_eq_self)
    then show ?thesis
      using receive_dequeues [OF inv [unfolded Cons] al dl] dequeued_inv [OF inv [unfolded Cons]] Cons dl by simp
  qed
qed

text \<open>A queue with one message in it.\<close>

lemma one_message: "mq_inv (enqueued example_queue 1 [7]) [[7]]"
  using enqueued_inv [OF example_inv, of "[7]" 1] by (simp add: example_queue_def)

theorem msgqueue_receive_exact_witness:
  "\<exists>r q'. msgqueue_receive_msg True (guest_copy OK) [] (enqueued example_queue 1 [7]) Kernel_dst 8 = Some (r, q', []) \<and>
    ro_e r = OK \<and> ro_kernel r = [7] \<and> mq_inv q' [] \<and> snd (the (msgqueue_flush (enqueued example_queue 1 [7]))) = [Assert_send, Clear_rcv]"
  using msgqueue_receive_exact [OF one_message, of True "guest_copy OK" "[]" Kernel_dst 8]
  by (auto simp: aligned_build_def example_queue_def deliver_def)

text \<open>
  C34. A queue can be configured with a message size that is not a multiple of eight. In a debug build
  the send that uses the second slot of such a queue then fails the alignment assertion and stops the
  hypervisor.
\<close>

theorem msgqueue_misaligned_panics:
  assumes inv: "mq_inv q ms" and lt: "length ms < depth q" and sz: "sz \<le> max_msg_size q"
    and t: "unat (tail q) = slot q" and al: "8 dvd unat (buf q)" "\<not> 8 dvd unat (max_msg_size q)"
    and cp: "copy_from g data sz = (OK, bs)"
  shows "msgqueue_send True copy_from g q sz data push = None"
proof -
  have "cnt q \<noteq> queue_depth q" using inv lt by (auto simp: mq_inv_def word_unat_eq_iff)
  moreover have "unat (ucast (tail q) :: u64) = slot q"
    using t unat_lt [of "tail q"] by (simp add: unsigned_ucast_eq take_bit_nat_eq_self)
  then have "\<not> util_is_baligned (buf q + ucast (tail q)) 8"
    unfolding baligned_8 dvd_8_add using al by (simp add: dvd_add_right_iff)
  ultimately show ?thesis using sz cp
    by (simp add: msgqueue_send_def msgqueue_send_msg_def Let_def assert_debug_def)
qed

definition odd_queue :: msgqueue where
  "odd_queue = \<lparr>buf = 0x1000, contents = (\<lambda>_. 0), cnt = 0, queue_size = 34, max_msg_size = 9,
     queue_depth = 2, head = 17, tail = 17, notfull_thd = 1, notempty_thd = 1\<rparr>"

theorem msgqueue_misaligned_panics_witness:
  "fst (msgqueue_configure odd_queue 9 2) = OK \<and>
    msgqueue_send True (\<lambda>_ _ _. (OK, [7])) () odd_queue 1 0 False = None"
proof -
  have "mq_inv odd_queue []" by (auto simp: mq_inv_def mq_wf_def odd_queue_def intro!: exI [of _ 1])
  from msgqueue_misaligned_panics [OF this, of 1 "\<lambda>_ _ _. (OK, [7])" "()" 0 "[7]" False]
  show ?thesis by (simp add: odd_queue_def msgqueue_configure_def)
qed

end
