(* ===== verification/Doorbell.thy ===== *)
theory Doorbell
  imports Gunyah_Prelude
begin

text \<open>
  Doorbells: \<^verbatim>\<open>hyp/ipc/doorbell/src/doorbell.c\<close>. A doorbell is a word of flags that senders set and a
  receiver reads and clears, with an enable mask and a mask of flags that are acknowledged
  automatically. The calls to the virtual interrupt source are returned as events. The flags are
  followed through arbitrary histories, and the interrupt through arbitrary interleavings of the stores
  of the operations with the loads of the handler that the interrupt controller calls without a lock.
\<close>

section \<open>Model\<close>

record doorbell =
  flags :: u64
  enable_mask :: u64
  ack_mask :: u64

text \<open>\<^verbatim>\<open>virq_assert\<close> with its edge-only argument, \<^verbatim>\<open>virq_clear\<close> and \<^verbatim>\<open>vic_unbind\<close>.\<close>

datatype db_event = Virq_assert bool | Virq_clear | Vic_unbind

definition doorbell_send :: "doorbell \<Rightarrow> u64 \<Rightarrow> u64 \<times> doorbell \<times> db_event list" where
  "doorbell_send d new_flags =
    (let fl = flags d;
         ret = fl;
         fl = fl OR new_flags;
         edge_only = (fl AND enable_mask d = 0);
         fl = (if \<not> edge_only then fl AND NOT (ack_mask d) else fl)
     in (ret, d\<lparr>flags := fl\<rparr>, [Virq_assert edge_only]))"

definition doorbell_receive :: "doorbell \<Rightarrow> u64 \<Rightarrow> u64 result \<times> doorbell" where
  "doorbell_receive d clear_flags =
    (if clear_flags = 0 then (Inl ERROR_ARGUMENT_INVALID, d)
     else (let fl = flags d;
               ret = fl;
               fl = fl AND NOT clear_flags
           in (Inr ret, d\<lparr>flags := fl\<rparr>)))"

definition doorbell_reset :: "doorbell \<Rightarrow> error_t \<times> doorbell \<times> db_event list" where
  "doorbell_reset d =
    (let d = d\<lparr>flags := 0\<rparr>;
         d = d\<lparr>ack_mask := 0\<rparr>;
         d = d\<lparr>enable_mask := NOT (ack_mask d)\<rparr>
     in (OK, d, [Virq_clear]))"

definition doorbell_mask :: "doorbell \<Rightarrow> u64 \<Rightarrow> u64 \<Rightarrow> error_t \<times> doorbell \<times> db_event list" where
  "doorbell_mask d new_enable_mask new_ack_mask =
    (let fl = flags d;
         was_asserted = (fl AND enable_mask d \<noteq> 0);
         now_asserted = (fl AND new_enable_mask \<noteq> 0);
         d = d\<lparr>enable_mask := new_enable_mask\<rparr>;
         d = d\<lparr>ack_mask := new_ack_mask\<rparr>
     in if was_asserted \<and> \<not> now_asserted then (OK, d, [Virq_clear])
        else if \<not> was_asserted \<and> now_asserted then
          (OK, d\<lparr>flags := fl AND NOT (ack_mask d)\<rparr>, [Virq_assert False])
        else if was_asserted \<and> now_asserted then (OK, d\<lparr>flags := fl AND NOT (ack_mask d)\<rparr>, [])
        else (OK, d, []))"

definition doorbell_handle_virq_check_pending :: "doorbell \<Rightarrow> bool \<Rightarrow> bool" where
  "doorbell_handle_virq_check_pending d reasserted =
    (if reasserted then True else flags d AND enable_mask d \<noteq> 0)"

definition doorbell_handle_object_create_doorbell :: "doorbell \<Rightarrow> error_t \<times> doorbell" where
  "doorbell_handle_object_create_doorbell d =
    (let d = d\<lparr>flags := 0\<rparr>;
         d = d\<lparr>ack_mask := 0\<rparr>
     in (OK, d\<lparr>enable_mask := NOT (ack_mask d)\<rparr>))"

definition doorbell_handle_object_deactivate_doorbell :: "doorbell \<Rightarrow> db_event list" where
  "doorbell_handle_object_deactivate_doorbell d = [Vic_unbind]"

section \<open>Histories\<close>

text \<open>The operations, which the spinlock of the doorbell serialises.\<close>

datatype db_op = Ring u64 | Take u64 | Mask u64 u64 | Reset

fun db_do :: "db_op \<Rightarrow> doorbell \<Rightarrow> doorbell" where
  "db_do (Ring f) d = fst (snd (doorbell_send d f))"
| "db_do (Take c) d = snd (doorbell_receive d c)"
| "db_do (Mask e a) d = fst (snd (doorbell_mask d e a))"
| "db_do Reset d = fst (snd (doorbell_reset d))"

text \<open>The operations that decide the state of flag \<open>j\<close>: sends of it, receives that clear it, and resets.\<close>

fun touches :: "nat \<Rightarrow> db_op \<Rightarrow> bool" where
  "touches j (Ring f) = bit f j"
| "touches j (Take c) = bit c j"
| "touches j (Mask e a) = False"
| "touches j Reset = True"

fun is_ring :: "db_op \<Rightarrow> bool" where
  "is_ring (Ring _) = True"
| "is_ring _ = False"

fun acks :: "nat \<Rightarrow> db_op \<Rightarrow> bool" where
  "acks j (Mask e a) = bit a j"
| "acks j _ = False"

lemma not_acked:
  assumes "\<not> bit (ack_mask d) j" "\<not> acks j op"
  shows "\<not> bit (ack_mask (db_do op d)) j"
  using assms by (cases op) (auto simp: doorbell_send_def doorbell_receive_def doorbell_mask_def doorbell_reset_def Let_def)

lemma flag_step:
  assumes "\<not> bit (ack_mask d) j" "\<not> acks j op" "j < 64"
  shows "bit (flags (db_do op d)) j \<longleftrightarrow> (if touches j op then is_ring op else bit (flags d) j)"
  using assms by (cases op) (auto simp: doorbell_send_def doorbell_receive_def doorbell_mask_def doorbell_reset_def Let_def bit_simps)

lemma flags_after:
  assumes "\<not> bit (ack_mask d) j" "\<forall>op \<in> set ops. \<not> acks j op" "j < 64"
  shows "bit (flags (fold db_do ops d)) j \<longleftrightarrow> (case find (touches j) (rev ops) of None \<Rightarrow> bit (flags d) j | Some op \<Rightarrow> is_ring op)"
    "\<not> bit (ack_mask (fold db_do ops d)) j"
  using assms(2)
proof (induction ops rule: rev_induct)
  case (snoc op ops)
  { case 1 then show ?case using snoc.IH flag_step [of "fold db_do ops d" j op] assms(3) by simp }
  { case 2 then show ?case using snoc.IH(2) not_acked [of "fold db_do ops d" j op] by simp }
qed (use assms(1) in simp_all)

section \<open>Interleavings\<close>

text \<open>The stores of the operations in the order of the code, and the calls to the interrupt source.\<close>

datatype db_store = Set_flags u64 | Set_enable u64 | Set_ack u64 | Virq db_event

definition doorbell_send_stores :: "doorbell \<Rightarrow> u64 \<Rightarrow> db_store list" where
  "doorbell_send_stores d new_flags =
    (let fl = flags d OR new_flags;
         edge_only = (fl AND enable_mask d = 0)
     in [Set_flags (if \<not> edge_only then fl AND NOT (ack_mask d) else fl), Virq (Virq_assert edge_only)])"

definition doorbell_receive_stores :: "doorbell \<Rightarrow> u64 \<Rightarrow> db_store list" where
  "doorbell_receive_stores d clear_flags = (if clear_flags = 0 then [] else [Set_flags (flags d AND NOT clear_flags)])"

definition doorbell_reset_stores :: "doorbell \<Rightarrow> db_store list" where
  "doorbell_reset_stores d = [Set_flags 0, Set_ack 0, Set_enable (NOT 0), Virq Virq_clear]"

definition doorbell_mask_stores :: "doorbell \<Rightarrow> u64 \<Rightarrow> u64 \<Rightarrow> db_store list" where
  "doorbell_mask_stores d new_enable_mask new_ack_mask =
    (let fl = flags d;
         was_asserted = (fl AND enable_mask d \<noteq> 0);
         now_asserted = (fl AND new_enable_mask \<noteq> 0)
     in [Set_enable new_enable_mask, Set_ack new_ack_mask] @
        (if was_asserted \<and> \<not> now_asserted then [Virq Virq_clear]
         else if \<not> was_asserted \<and> now_asserted then [Set_flags (fl AND NOT new_ack_mask), Virq (Virq_assert False)]
         else if was_asserted \<and> now_asserted then [Set_flags (fl AND NOT new_ack_mask)]
         else []))"

fun op_stores :: "db_op \<Rightarrow> doorbell \<Rightarrow> db_store list" where
  "op_stores (Ring f) d = doorbell_send_stores d f"
| "op_stores (Take c) d = doorbell_receive_stores d c"
| "op_stores (Mask e a) d = doorbell_mask_stores d e a"
| "op_stores Reset d = doorbell_reset_stores d"

fun put :: "db_store \<Rightarrow> doorbell \<Rightarrow> doorbell" where
  "put (Set_flags f) d = d\<lparr>flags := f\<rparr>"
| "put (Set_enable e) d = d\<lparr>enable_mask := e\<rparr>"
| "put (Set_ack a) d = d\<lparr>ack_mask := a\<rparr>"
| "put (Virq _) d = d"

lemma stores_do: "fold put (op_stores op d) d = db_do op d"
  by (cases op) (auto simp: doorbell_send_stores_def doorbell_receive_stores_def doorbell_mask_stores_def doorbell_reset_stores_def
      doorbell_send_def doorbell_receive_def doorbell_mask_def doorbell_reset_def Let_def)

text \<open>
  A call of the handler on some CPU: the argument \<open>reasserted\<close>, the values it has loaded so far, and
  whether a \<^verbatim>\<open>virq_assert\<close> has happened since, which cancels a false result (\<^verbatim>\<open>virq.ev\<close>). The state of the
  interrupt source is \<open>level\<close>; \<open>todo\<close> are the stores that the holder of the spinlock has yet to make.
\<close>

record db_check =
  chk_reasserted :: bool
  chk_flags :: "u64 option"
  chk_mask :: "u64 option"
  chk_over :: bool

record db_sys =
  bell :: doorbell
  todo :: "db_store list"
  level :: bool
  checks :: "nat \<Rightarrow> db_check option"

abbreviation asserted :: "doorbell \<Rightarrow> bool" where
  "asserted d \<equiv> flags d AND enable_mask d \<noteq> 0"

text \<open>
  The effect of the calls on the interrupt source. That of an edge-only assertion on a level that is
  already asserted is not specified (\<^verbatim>\<open>virq.h\<close>), so it may be any level.
\<close>

fun virq_effect :: "db_event \<Rightarrow> db_sys \<Rightarrow> db_sys \<Rightarrow> bool" where
  "virq_effect (Virq_assert False) s s' \<longleftrightarrow>
    s' = s\<lparr>level := True, checks := (\<lambda>i. map_option (\<lambda>c. c\<lparr>chk_over := True\<rparr>) (checks s i))\<rparr>"
| "virq_effect (Virq_assert True) s s' \<longleftrightarrow> (\<exists>l. s' = s\<lparr>level := l\<rparr>)"
| "virq_effect Virq_clear s s' \<longleftrightarrow> s' = s\<lparr>level := False\<rparr>"
| "virq_effect Vic_unbind s s' \<longleftrightarrow> s' = s\<lparr>level := False\<rparr>"

text \<open>
  The steps: the beginning of an operation, one store of it, the beginning of a call of the handler, its
  two loads, and its return. If \<open>ordered\<close>, the flags are loaded before the mask; the code does not
  order the loads.
\<close>

inductive db_step :: "bool \<Rightarrow> db_sys \<Rightarrow> db_sys \<Rightarrow> bool" for ordered where
  op: "todo s = [] \<Longrightarrow> db_step ordered s (s\<lparr>todo := op_stores op (bell s)\<rparr>)"
| store: "todo s = st # sts \<Longrightarrow> \<forall>e. st \<noteq> Virq e \<Longrightarrow> db_step ordered s (s\<lparr>bell := put st (bell s), todo := sts\<rparr>)"
| virq: "todo s = Virq e # sts \<Longrightarrow> virq_effect e (s\<lparr>todo := sts\<rparr>) s' \<Longrightarrow> db_step ordered s s'"
| check: "checks s i = None \<Longrightarrow>
    db_step ordered s (s\<lparr>checks := (checks s)(i \<mapsto> \<lparr>chk_reasserted = r, chk_flags = None, chk_mask = None, chk_over = False\<rparr>)\<rparr>)"
| load_flags: "checks s i = Some c \<Longrightarrow> chk_flags c = None \<Longrightarrow>
    db_step ordered s (s\<lparr>checks := (checks s)(i \<mapsto> c\<lparr>chk_flags := Some (flags (bell s))\<rparr>)\<rparr>)"
| load_mask: "checks s i = Some c \<Longrightarrow> chk_mask c = None \<Longrightarrow> ordered \<longrightarrow> chk_flags c \<noteq> None \<Longrightarrow>
    db_step ordered s (s\<lparr>checks := (checks s)(i \<mapsto> c\<lparr>chk_mask := Some (enable_mask (bell s))\<rparr>)\<rparr>)"
| return: "checks s i = Some c \<Longrightarrow> chk_reasserted c \<or> chk_flags c = Some f \<and> chk_mask c = Some e \<Longrightarrow>
    db_step ordered s (s\<lparr>checks := (checks s)(i := None), level := (level s \<and>
      (doorbell_handle_virq_check_pending \<lparr>flags = f, enable_mask = e, ack_mask = 0\<rparr> (chk_reasserted c) \<or>
       \<not> chk_reasserted c \<and> chk_over c))\<rparr>)"
| return_ignored: "checks s i = Some c \<Longrightarrow> db_step ordered s (s\<lparr>checks := (checks s)(i := None)\<rparr>)"

definition db_start :: "doorbell \<Rightarrow> db_sys" where
  "db_start d = \<lparr>bell = snd (doorbell_handle_object_create_doorbell d),
    todo = [], level = False, checks = (\<lambda>_. None)\<rparr>"

subsection \<open>The invariant\<close>

text \<open>
  A level assertion is due. What the remaining stores of an operation may do: flags are added, and a
  doorbell becomes asserted, only ahead of a level assertion; a level is cleared when nothing is asserted.
\<close>

abbreviation due :: "db_store list \<Rightarrow> bool" where
  "due sts \<equiv> Virq (Virq_assert False) \<in> set sts"

definition within :: "u64 \<Rightarrow> u64 \<Rightarrow> bool" where
  "within a b \<longleftrightarrow> a AND NOT b = 0"

lemma within_refl [simp]: "within a a"
  by (simp add: within_def)

lemma within_zero: "within a b \<Longrightarrow> b AND c = 0 \<Longrightarrow> a AND c = 0"
  unfolding within_def by (auto simp: bit_eq_iff bit_simps)

lemma within_trans: "within a b \<Longrightarrow> within b c \<Longrightarrow> within a c"
  unfolding within_def by (auto simp: bit_eq_iff bit_simps)

lemma within_0 [simp]: "within 0 a"
  by (simp add: within_def)

lemma within_clear [simp]: "within (a AND NOT b) a"
  unfolding within_def by (auto simp: bit_eq_iff bit_simps)

fun ok_todo :: "doorbell \<Rightarrow> db_store list \<Rightarrow> bool" where
  "ok_todo d [] \<longleftrightarrow> True"
| "ok_todo d (st # sts) \<longleftrightarrow> ok_todo (put st d) sts \<and> (case st of
     Set_flags f \<Rightarrow> due sts \<or> within f (flags d) \<or> f AND enable_mask d = 0
   | Set_enable e \<Rightarrow> due sts \<or> asserted d \<or> flags d AND e = 0
   | Set_ack _ \<Rightarrow> True
   | Virq e \<Rightarrow> (case e of Virq_assert edge_only \<Rightarrow> edge_only \<longrightarrow> \<not> asserted d | _ \<Rightarrow> \<not> asserted d))"

lemma ok_op: "ok_todo d (op_stores op d)"
proof (cases op)
  case (Ring f)
  have "flags d AND NOT x AND y = 0" if "flags d AND y = 0" for x y using that by (auto simp: bit_eq_iff bit_simps)
  then show ?thesis using Ring by (auto simp: doorbell_send_stores_def Let_def)
next
  case (Mask e a)
  have "(flags d AND NOT a) AND e = 0" if "flags d AND e = 0" using that by (auto simp: bit_eq_iff bit_simps)
  then show ?thesis using Mask by (auto simp: doorbell_mask_stores_def Let_def)
qed (auto simp: doorbell_receive_stores_def doorbell_reset_stores_def)

text \<open>
  A doorbell that is asserted has its level asserted, or this is due. What a call of the handler has
  loaded remains valid until the doorbell is no longer asserted, or a level assertion cancels the call.
\<close>

definition check_ok :: "db_sys \<Rightarrow> db_check \<Rightarrow> bool" where
  "check_ok s c \<longleftrightarrow> chk_reasserted c \<or> chk_over c \<or> due (todo s) \<or> \<not> asserted (bell s) \<or>
    (case chk_flags c of None \<Rightarrow> chk_mask c = None
     | Some f \<Rightarrow> within (flags (bell s)) f \<and> (case chk_mask c of None \<Rightarrow> True | Some e \<Rightarrow> f AND e \<noteq> 0))"

definition db_inv :: "db_sys \<Rightarrow> bool" where
  "db_inv s \<longleftrightarrow> ok_todo (bell s) (todo s) \<and> (asserted (bell s) \<longrightarrow> level s \<or> due (todo s)) \<and>
    (\<forall>i c. checks s i = Some c \<longrightarrow> check_ok s c)"

lemma db_invD:
  assumes "db_inv s"
  shows "ok_todo (bell s) (todo s)" "asserted (bell s) \<Longrightarrow> level s \<or> due (todo s)" "checks s i = Some c \<Longrightarrow> check_ok s c"
  using assms unfolding db_inv_def by blast+

lemma check_ok_checks [simp]: "check_ok (s\<lparr>checks := x\<rparr>) c = check_ok s c" "check_ok (s\<lparr>level := l\<rparr>) c = check_ok s c"
  by (simp_all add: check_ok_def split: option.split)

lemma checks_inv:
  assumes "db_inv s" "\<And>c. x = Some c \<Longrightarrow> check_ok s c"
  shows "db_inv (s\<lparr>checks := (checks s)(i := x)\<rparr>)"
  using assms by (auto simp: db_inv_def)

lemma check_ok_mono:
  assumes "check_ok s c"
    and "asserted (bell s') \<Longrightarrow> \<not> due (todo s') \<Longrightarrow> asserted (bell s) \<and> \<not> due (todo s) \<and> within (flags (bell s')) (flags (bell s))"
  shows "check_ok s' c"
proof (cases "asserted (bell s') \<and> \<not> due (todo s')")
  case True
  then have w: "asserted (bell s)" "\<not> due (todo s)" "within (flags (bell s')) (flags (bell s))" using assms(2) by auto
  show ?thesis using assms(1) w(1,2) within_trans [OF w(3)] unfolding check_ok_def by (auto split: option.splits)
qed (auto simp: check_ok_def)

lemma store_inv:
  assumes inv: "db_inv s" and st: "todo s = st # sts" "\<forall>e. st \<noteq> Virq e"
  shows "db_inv (s\<lparr>bell := put st (bell s), todo := sts\<rparr>)"
proof -
  have ok: "ok_todo (put st (bell s)) sts" and due: "due (todo s) = due sts" using db_invD(1) [OF inv] st by auto
  have a: "asserted (bell s) \<and> within (flags (put st (bell s))) (flags (bell s))" if "asserted (put st (bell s))" "\<not> due sts"
  proof (cases st)
    case (Set_flags f)
    then show ?thesis using db_invD(1) [OF inv] st(1) that within_zero [of f "flags (bell s)" "enable_mask (bell s)"] by auto
  next
    case (Set_enable e)
    then show ?thesis using db_invD(1) [OF inv] st(1) that by auto
  qed (use st(2) that in auto)
  have "check_ok (s\<lparr>bell := put st (bell s), todo := sts\<rparr>) c" if "checks s i = Some c" for i c
    by (rule check_ok_mono [OF db_invD(3) [OF inv that]]) (use a due in simp)
  moreover have "asserted (put st (bell s)) \<Longrightarrow> level s \<or> due sts" using a db_invD(2) [OF inv] due by blast
  ultimately show ?thesis using ok unfolding db_inv_def by simp
qed

lemma virq_inv:
  assumes inv: "db_inv s" and st: "todo s = Virq e # sts" "virq_effect e (s\<lparr>todo := sts\<rparr>) s'"
  shows "db_inv s'"
proof -
  have ok: "ok_todo (bell s) sts" using db_invD(1) [OF inv] st by simp
  show ?thesis
  proof (cases "e = Virq_assert False")
    case True
    then show ?thesis using st(2) ok by (auto simp: db_inv_def check_ok_def)
  next
    case False
    then have n: "\<not> asserted (bell s)" using db_invD(1) [OF inv] st(1) by (auto split: db_event.splits)
    obtain l where "s' = s\<lparr>todo := sts, level := l\<rparr>" using False st(2)
    proof (cases e)
      case (Virq_assert b)
      then show ?thesis using False st(2) that by (cases b) auto
    qed (auto simp: that)
    then show ?thesis using n ok by (simp add: db_inv_def check_ok_def)
  qed
qed

lemma step_inv: "db_step True s s' \<Longrightarrow> db_inv s \<Longrightarrow> db_inv s'"
proof (induction rule: db_step.induct)
  case (op s op)
  let ?s = "s\<lparr>todo := op_stores op (bell s)\<rparr>"
  have "check_ok ?s c" if "checks s i = Some c" for i c by (rule check_ok_mono [OF db_invD(3) [OF op(2) that]]) (use op(1) in simp)
  then show ?case using ok_op [of "bell s" op] op unfolding db_inv_def by simp
next
  case (store s st sts)
  show ?case by (rule store_inv [OF store(3,1,2)])
next
  case (virq s e sts s')
  show ?case by (rule virq_inv [OF virq(3,1,2)])
next
  case (check s i r)
  show ?case by (rule checks_inv [OF check(2)]) (auto simp: check_ok_def)
next
  case (load_flags s i c)
  have c: "check_ok s c" by (rule db_invD(3) [OF load_flags(3,1)])
  have "check_ok s (c\<lparr>chk_flags := Some (flags (bell s))\<rparr>)" using c load_flags(2) by (auto simp: check_ok_def)
  then show ?case by (intro checks_inv [OF load_flags(3)]) simp
next
  case (load_mask s i c)
  have c: "check_ok s c" by (rule db_invD(3) [OF load_mask(4,1)])
  have "check_ok s (c\<lparr>chk_mask := Some (enable_mask (bell s))\<rparr>)"
    using c load_mask(2,3) within_zero [of "flags (bell s)" _ "enable_mask (bell s)"] by (auto simp: check_ok_def split: option.splits)
  then show ?case by (intro checks_inv [OF load_mask(4)]) simp
next
  case (return s i c f e)
  have c: "check_ok s c" by (rule db_invD(3) [OF return(3,1)])
  have "due (todo s) \<or> \<not> asserted (bell s) \<or> chk_reasserted c \<or> chk_over c \<or> f AND e \<noteq> 0"
    using c return(2) by (auto simp: check_ok_def)
  then show ?case using checks_inv [OF return(3), of None i] by (auto simp: db_inv_def doorbell_handle_virq_check_pending_def)
next
  case (return_ignored s i c)
  show ?case by (rule checks_inv [OF return_ignored(2)]) simp
qed

lemma start_inv: "db_inv (db_start d)"
  by (simp add: db_inv_def db_start_def doorbell_handle_object_create_doorbell_def Let_def)

section \<open>Runs\<close>

text \<open>A whole operation: one that calls nothing, and a send to an enabled flag while no handler runs.\<close>

lemma run_stores:
  "todo s = sts \<Longrightarrow> \<forall>st \<in> set sts. \<forall>e. st \<noteq> Virq e \<Longrightarrow> (db_step ordered)\<^sup>*\<^sup>* s (s\<lparr>bell := fold put sts (bell s), todo := []\<rparr>)"
proof (induction sts arbitrary: s)
  case (Cons st sts)
  have "db_step ordered s (s\<lparr>bell := put st (bell s), todo := sts\<rparr>)" by (rule db_step.store) (use Cons.prems in simp_all)
  from converse_rtranclp_into_rtranclp [of "db_step ordered", OF this Cons.IH] show ?case using Cons.prems by simp
next
  case (Nil s)
  then have "s\<lparr>bell := fold put [] (bell s), todo := []\<rparr> = s" by (cases s) simp
  then show ?case by simp
qed

lemma run_silent:
  assumes "todo s = []" "\<forall>st \<in> set (op_stores op (bell s)). \<forall>e. st \<noteq> Virq e"
  shows "(db_step ordered)\<^sup>*\<^sup>* s (s\<lparr>bell := db_do op (bell s)\<rparr>)"
proof -
  have "db_step ordered s (s\<lparr>todo := op_stores op (bell s)\<rparr>)" by (rule db_step.op [OF assms(1)])
  moreover have eq: "s\<lparr>bell := db_do op (bell s), todo := []\<rparr> = s\<lparr>bell := db_do op (bell s)\<rparr>" using assms(1) by (cases s) simp
  have "(db_step ordered)\<^sup>*\<^sup>* (s\<lparr>todo := op_stores op (bell s)\<rparr>) (s\<lparr>bell := db_do op (bell s)\<rparr>)"
    using run_stores [of "s\<lparr>todo := op_stores op (bell s)\<rparr>" _ ordered, OF refl] assms by (simp add: stores_do eq)
  ultimately show ?thesis by (rule converse_rtranclp_into_rtranclp)
qed

lemma run_ring:
  assumes "todo s = []" "checks s = (\<lambda>_. None)" "(flags (bell s) OR f) AND enable_mask (bell s) \<noteq> 0"
  shows "(db_step ordered)\<^sup>*\<^sup>* s (s\<lparr>bell := db_do (Ring f) (bell s), level := True\<rparr>)"
proof -
  let ?d = "db_do (Ring f) (bell s)"
  have st: "op_stores (Ring f) (bell s) = [Set_flags (flags ?d), Virq (Virq_assert False)]" "?d = (bell s)\<lparr>flags := flags ?d\<rparr>"
    using assms(3) by (simp_all add: doorbell_send_stores_def doorbell_send_def Let_def)
  have 1: "db_step ordered s (s\<lparr>todo := op_stores (Ring f) (bell s)\<rparr>)" by (rule db_step.op [OF assms(1)])
  have 2: "db_step ordered (s\<lparr>todo := op_stores (Ring f) (bell s)\<rparr>) (s\<lparr>bell := ?d, todo := [Virq (Virq_assert False)]\<rparr>)"
    using db_step.store [of "s\<lparr>todo := op_stores (Ring f) (bell s)\<rparr>" "Set_flags (flags ?d)" "[Virq (Virq_assert False)]" ordered] st by simp
  have 3: "db_step ordered (s\<lparr>bell := ?d, todo := [Virq (Virq_assert False)]\<rparr>) (s\<lparr>bell := ?d, level := True\<rparr>)"
    by (rule db_step.virq) (use assms(1,2) in \<open>cases s; simp\<close>)+
  show ?thesis using 1 2 3 by (meson converse_rtranclp_into_rtranclp r_into_rtranclp)
qed

section \<open>Properties\<close>

text \<open>
  C35. The flags of a doorbell after an arbitrary history of sends, receives, mask changes and resets, for
  a flag that no mask of the history acknowledges automatically: the flag is set if and only if the last
  operation on it was a send, operations on it being the sends of it, the receives that clear it and the
  resets; without any it is as before. A receive returns exactly this, and refuses an empty mask.
\<close>

theorem doorbell_flags_exact:
  assumes "\<not> bit (ack_mask d) j" "\<forall>op \<in> set ops. \<not> acks j op" "j < 64"
  shows "\<exists>r d'. doorbell_receive (fold db_do ops d) c = (r, d') \<and>
    (if c = 0 then r = Inl ERROR_ARGUMENT_INVALID \<and> d' = fold db_do ops d
     else \<exists>f. r = Inr f \<and> (bit f j \<longleftrightarrow> (case find (touches j) (rev ops) of None \<Rightarrow> bit (flags d) j | Some op \<Rightarrow> is_ring op)) \<and>
       (bit (flags d') j \<longleftrightarrow> bit f j \<and> \<not> bit c j))"
  using flags_after(1) [OF assms] assms(3) by (auto simp: doorbell_receive_def Let_def bit_simps)

theorem doorbell_flags_exact_witness:
  "\<exists>d'. doorbell_receive (fold db_do [Ring 5, Mask 4 8, Take 1, Ring 16] \<lparr>flags = 2, enable_mask = 4, ack_mask = 0\<rparr>) 4 = (Inr 22, d') \<and> bit (22 :: u64) 2"
proof -
  have "\<forall>op \<in> set [Ring 5, Mask 4 8, Take 1, Ring 16]. \<not> acks 2 op" by (simp add: bit_numeral_rec)
  from doorbell_flags_exact [OF _ this, of "\<lparr>flags = 2, enable_mask = 4, ack_mask = 0\<rparr>" 4] show ?thesis
    by (simp add: doorbell_receive_def doorbell_send_def doorbell_mask_def Let_def bit_numeral_rec)
qed

text \<open>If the handler loads the flags before the mask, no interrupt is lost.\<close>

lemma interrupt_kept:
  assumes "(db_step True)\<^sup>*\<^sup>* (db_start d) s"
  shows "asserted (bell s) \<longrightarrow> level s \<or> Virq (Virq_assert False) \<in> set (todo s)"
proof -
  have "db_inv s" using assms by (induction rule: rtranclp_induct) (auto intro: start_inv step_inv)
  then show ?thesis using db_invD(2) by blast
qed

text \<open>
  If it loads the mask first: the receiver enables the second set of flags instead of the first and
  then clears the first while the handler runs. None of this asserts the interrupt again, since some enabled flag was set all the time; the
  handler compares the old mask with the new flags and clears the interrupt.
\<close>

lemma check_race:
  assumes "a \<noteq> 0" "b \<noteq> 0" "a AND b = 0"
  shows "\<exists>s. (db_step False)\<^sup>*\<^sup>* (db_start d) s \<and> todo s = [] \<and> flags (bell s) = b \<and> enable_mask (bell s) = b \<and> \<not> level s"
proof -
  have bits: "(a OR b) AND a = a" "(a OR b) AND b = b" "(a OR b) AND NOT a = b" "b AND a = 0"
    using assms(3) by (auto simp: bit_eq_iff bit_simps)
  have nz: "a OR b \<noteq> 0" using assms(1) bits(1) by (metis and_zero_eq zero_and_eq)
  let ?c = "\<lambda>f e. \<lparr>chk_reasserted = False, chk_flags = f, chk_mask = e, chk_over = False\<rparr>"
  let ?s = "\<lambda>f e l ch. \<lparr>bell = \<lparr>flags = f, enable_mask = e, ack_mask = 0\<rparr>, todo = [], level = l, checks = (\<lambda>_. None)(0 := ch)\<rparr>"
  note defs = doorbell_mask_def doorbell_mask_stores_def doorbell_receive_def
    doorbell_receive_stores_def doorbell_send_def Let_def
  have 1: "(db_step False)\<^sup>*\<^sup>* (db_start d) (?s (a OR b) (NOT 0) True None)"
    using run_ring [of "db_start d" "a OR b" False] nz by (cases d) (simp add: db_start_def doorbell_handle_object_create_doorbell_def defs)
  have 2: "(db_step False)\<^sup>*\<^sup>* (?s (a OR b) (NOT 0) True None) (?s (a OR b) a True None)"
    using run_silent [of "?s (a OR b) (NOT 0) True None" "Mask a 0" False] by (simp add: defs nz bits assms)
  have 3: "db_step False (?s (a OR b) a True None) (?s (a OR b) a True (Some (?c None None)))"
    using db_step.check [of "?s (a OR b) a True None" 0 False False] by simp
  have 4: "db_step False (?s (a OR b) a True (Some (?c None None))) (?s (a OR b) a True (Some (?c None (Some a))))"
    using db_step.load_mask [of "?s (a OR b) a True (Some (?c None None))" 0 "?c None None" False] by simp
  have 5: "(db_step False)\<^sup>*\<^sup>* (?s (a OR b) a True (Some (?c None (Some a)))) (?s (a OR b) b True (Some (?c None (Some a))))"
    using run_silent [of "?s (a OR b) a True (Some (?c None (Some a)))" "Mask b 0" False] by (simp add: defs nz bits assms)
  have 6: "(db_step False)\<^sup>*\<^sup>* (?s (a OR b) b True (Some (?c None (Some a)))) (?s b b True (Some (?c None (Some a))))"
    using run_silent [of "?s (a OR b) b True (Some (?c None (Some a)))" "Take a" False] by (simp add: defs nz bits assms)
  have 7: "db_step False (?s b b True (Some (?c None (Some a)))) (?s b b True (Some (?c (Some b) (Some a))))"
    using db_step.load_flags [of "?s b b True (Some (?c None (Some a)))" 0 "?c None (Some a)" False] by simp
  have 8: "db_step False (?s b b True (Some (?c (Some b) (Some a)))) (?s b b False None)"
    using db_step.return [of "?s b b True (Some (?c (Some b) (Some a)))" 0 "?c (Some b) (Some a)" b a False] bits
    by (simp add: doorbell_handle_virq_check_pending_def)
  have "(db_step False)\<^sup>*\<^sup>* (db_start d) (?s b b False None)"
    using 1 2 3 4 5 6 7 8 by (meson rtranclp_trans r_into_rtranclp)
  then show ?thesis by (intro exI [of _ "?s b b False None"]) simp
qed

text \<open>
  C36. Whether interrupts can be lost depends on the order of the two loads of the handler, which the code
  leaves open. If the flags are loaded before the mask: in every interleaving of the stores of sends,
  receives, mask changes and resets with calls of the handler on any number of CPUs, a doorbell with an
  enabled flag set has its interrupt asserted, or the operation in progress is about to assert it. If the mask is loaded
  first, an interrupt can be lost, although the comment in the handler excludes it: for any two disjoint
  non-empty sets of flags, there is a run from the same start after which the second set is both set and enabled, no
  operation is in progress, and the interrupt is not asserted.
\<close>

theorem doorbell_interrupt_order:
  assumes "a \<noteq> 0" "b \<noteq> 0" "a AND b = 0"
  shows "((db_step True)\<^sup>*\<^sup>* (db_start d) s \<longrightarrow> asserted (bell s) \<longrightarrow> level s \<or> Virq (Virq_assert False) \<in> set (todo s)) \<and>
    (\<exists>s. (db_step False)\<^sup>*\<^sup>* (db_start d) s \<and> todo s = [] \<and> flags (bell s) = b \<and> enable_mask (bell s) = b \<and> \<not> level s)"
  using interrupt_kept check_race [OF assms] by blast

theorem doorbell_interrupt_order_witness:
  "(\<exists>s. (db_step True)\<^sup>*\<^sup>* (db_start \<lparr>flags = 0, enable_mask = 0, ack_mask = 0\<rparr>) s \<and> todo s = [] \<and> flags (bell s) = 5 \<and> level s) \<and>
    (\<exists>s. (db_step False)\<^sup>*\<^sup>* (db_start \<lparr>flags = 0, enable_mask = 0, ack_mask = 0\<rparr>) s \<and> todo s = [] \<and> flags (bell s) AND enable_mask (bell s) = 2 \<and> \<not> level s)"
proof
  let ?s = "db_start \<lparr>flags = 0, enable_mask = 0, ack_mask = 0\<rparr>"
  let ?s' = "?s\<lparr>bell := db_do (Ring 5) (bell ?s), level := True\<rparr>"
  note order = doorbell_interrupt_order [of 1 2 "\<lparr>flags = 0, enable_mask = 0, ack_mask = 0\<rparr>" ?s']
  have run: "(db_step True)\<^sup>*\<^sup>* ?s ?s'"
    by (rule run_ring) (simp_all add: db_start_def doorbell_handle_object_create_doorbell_def Let_def)
  have "flags (bell ?s') = 5 \<and> asserted (bell ?s') \<and> todo ?s' = []"
    by (simp add: db_start_def doorbell_handle_object_create_doorbell_def doorbell_send_def Let_def)
  then show "\<exists>s. (db_step True)\<^sup>*\<^sup>* ?s s \<and> todo s = [] \<and> flags (bell s) = 5 \<and> level s" using run order by auto
  show "\<exists>s. (db_step False)\<^sup>*\<^sup>* ?s s \<and> todo s = [] \<and> flags (bell s) AND enable_mask (bell s) = 2 \<and> \<not> level s" using order by fastforce
qed

end
