(* ===== verification/Objects.thy ===== *)
theory Objects
  imports Gunyah_Prelude
begin

text \<open>
  First-class objects: the reference counts of \<^verbatim>\<open>hyp/core/util/src/refcount.c\<close> and the object life cycle
  of \<^verbatim>\<open>hyp/core/object_standard/templates/object.c.tmpl\<close>, which the build instantiates once per object
  type. The object header is kept in a store by the address of its object. What the destruction of an
  object triggers in other modules is recorded in a log.
\<close>

section \<open>Model\<close>

text \<open>The types declared with \<^verbatim>\<open>first_class_object\<close> in the build configuration, and the wildcard.\<close>

datatype object_type =
    OBJECT_TYPE_PARTITION | OBJECT_TYPE_CSPACE | OBJECT_TYPE_THREAD | OBJECT_TYPE_ADDRSPACE
  | OBJECT_TYPE_MEMEXTENT | OBJECT_TYPE_HWIRQ | OBJECT_TYPE_DOORBELL | OBJECT_TYPE_MSGQUEUE
  | OBJECT_TYPE_VIC | OBJECT_TYPE_VPM_GROUP | OBJECT_TYPE_WATCHDOG | OBJECT_TYPE_VRTC
  | OBJECT_TYPE_VSMMUV2 | OBJECT_TYPE_VPCI | OBJECT_TYPE_VIRTIO_BACKEND | OBJECT_TYPE_VIRTIO_IOMMU
  | OBJECT_TYPE_VGIC_ITS | OBJECT_TYPE_GICV3_ITS | OBJECT_TYPE_SMMUV3 | OBJECT_TYPE_ANY

datatype object_state =
    OBJECT_STATE_NONE | OBJECT_STATE_INIT | OBJECT_STATE_ACTIVE | OBJECT_STATE_FAILED | OBJECT_STATE_DESTROYING

text \<open>
  The header of an object. The list of its capabilities is embedded in the header; the field is the
  address of the list head.
\<close>

record object_header =
  oh_state :: object_state
  oh_refcount :: u32
  oh_cap_list :: ptr

datatype rcu_update_class = Rcu_destroy object_type | CSPACE_RELEASE_LEVEL
datatype obj_event = Deactivate object_type ptr | Rcu_enqueue rcu_update_class ptr | Partition_free ptr ptr u64

record obj_mem =
  headers :: "ptr \<Rightarrow> object_header"
  obj_log :: "obj_event list"

subsection \<open>Reference counts\<close>

definition refcount_init :: u32 where
  "refcount_init = 1"

definition refcount_get_additional :: "u32 \<Rightarrow> u32 option" where
  "refcount_get_additional ref = do {
     let count = ref;
     c_assert (count > 0);
     Some (ref + 1)
   }"

text \<open>
  The compare-and-exchange loop of \<^verbatim>\<open>refcount_get_safe\<close>. Each element of \<open>tries\<close> is the value of the
  counter when one exchange is attempted, with \<open>True\<close> for a spurious failure; \<^const>\<open>None\<close> as the inner
  value says that the loop is still running when the attempts are used up. The result tells whether
  the exchange succeeded, and the value it stored or last saw.
\<close>

fun refcount_get_safe_loop :: "u32 \<Rightarrow> (u32 \<times> bool) list \<Rightarrow> (bool \<times> u32) option" where
  "refcount_get_safe_loop count [] = (if count > 0 then None else Some (False, count))"
| "refcount_get_safe_loop count ((cur, spurious) # tries) =
    (if count > 0 then do {
       c_assert (count < 0xFFFFFFFF);
       if cur = count \<and> \<not> spurious then Some (True, count + 1) else refcount_get_safe_loop cur tries
     } else Some (False, count))"

text \<open>Without interference and without spurious failures the first exchange succeeds.\<close>

definition refcount_get_safe :: "u32 \<Rightarrow> (bool \<times> u32) option" where
  "refcount_get_safe ref = refcount_get_safe_loop ref [(ref, False)]"

definition refcount_put :: "u32 \<Rightarrow> (bool \<times> u32) option" where
  "refcount_put ref = do {
     let count = ref;
     let ref = ref - 1;
     c_assert (count > 0);
     Some (\<not> count > 1, ref)
   }"

subsection \<open>Objects\<close>

definition set_refcount :: "ptr \<Rightarrow> u32 \<Rightarrow> 'a obj_mem_scheme \<Rightarrow> 'a obj_mem_scheme" where
  "set_refcount object r s = s\<lparr>headers := (headers s)(object := headers s object\<lparr>oh_refcount := r\<rparr>)\<rparr>"

definition set_state :: "ptr \<Rightarrow> object_state \<Rightarrow> 'a obj_mem_scheme \<Rightarrow> 'a obj_mem_scheme" where
  "set_state object st s = s\<lparr>headers := (headers s)(object := headers s object\<lparr>oh_state := st\<rparr>)\<rparr>"

definition log_event :: "obj_event \<Rightarrow> 'a obj_mem_scheme \<Rightarrow> 'a obj_mem_scheme" where
  "log_event e s = s\<lparr>obj_log := obj_log s @ [e]\<rparr>"

text \<open>The \<^verbatim>\<open>switch\<close> over the object type: the wildcard is no object.\<close>

definition object_get_additional :: "object_type \<Rightarrow> ptr \<Rightarrow> 'a obj_mem_scheme \<Rightarrow> 'a obj_mem_scheme option" where
  "object_get_additional type object s = do {
     c_assert (type \<noteq> OBJECT_TYPE_ANY);
     r \<leftarrow> refcount_get_additional (oh_refcount (headers s object));
     Some (set_refcount object r s)
   }"

definition object_get_safe :: "object_type \<Rightarrow> ptr \<Rightarrow> 'a obj_mem_scheme \<Rightarrow> (bool \<times> 'a obj_mem_scheme) option" where
  "object_get_safe type object s = do {
     c_assert (type \<noteq> OBJECT_TYPE_ANY);
     (b, r) \<leftarrow> refcount_get_safe (oh_refcount (headers s object));
     Some (b, set_refcount object r s)
   }"

definition object_free :: "object_type \<Rightarrow> ptr \<Rightarrow> 'a obj_mem_scheme \<Rightarrow> 'a obj_mem_scheme" where
  "object_free type object s =
    (let old_state = oh_state (headers s object);
         s = set_state object OBJECT_STATE_DESTROYING s;
         s = (if old_state = OBJECT_STATE_ACTIVE then log_event (Deactivate type object) s else s)
     in log_event (Rcu_enqueue (Rcu_destroy type) object) s)"

definition object_put :: "object_type \<Rightarrow> ptr \<Rightarrow> 'a obj_mem_scheme \<Rightarrow> 'a obj_mem_scheme option" where
  "object_put type object s = do {
     c_assert (type \<noteq> OBJECT_TYPE_ANY);
     (last, r) \<leftarrow> refcount_put (oh_refcount (headers s object));
     let s = set_refcount object r s;
     Some (if last then object_free type object s else s)
   }"

text \<open>The activation handlers of the type are the argument \<open>trigger\<close>.\<close>

definition object_activate ::
    "('a obj_mem_scheme \<Rightarrow> error_t \<times> 'a obj_mem_scheme) \<Rightarrow> object_type \<Rightarrow> ptr \<Rightarrow> 'a obj_mem_scheme \<Rightarrow>
      (error_t \<times> 'a obj_mem_scheme) option" where
  "object_activate trigger type object s = do {
     c_assert (type \<noteq> OBJECT_TYPE_ANY);
     Some (if oh_state (headers s object) = OBJECT_STATE_INIT then
             let (ret, s) = trigger s
             in (ret, set_state object (if ret = OK then OBJECT_STATE_ACTIVE else OBJECT_STATE_FAILED) s)
           else (ERROR_OBJECT_STATE, s))
   }"

section \<open>Life cycle\<close>

lemmas set_header_defs = set_refcount_def set_state_def log_event_def

lemma get_safe_eq:
  "ref < 0xFFFFFFFF \<Longrightarrow> refcount_get_safe ref = Some (if ref = 0 then (False, 0) else (True, ref + 1))"
  by (auto simp: refcount_get_safe_def word_neq_0_conv)

text \<open>Each exchange of the loop stores the successor of the non-zero value it replaces.\<close>

lemma get_safe_loop_exchange:
  "refcount_get_safe_loop count tries = Some (True, r) \<Longrightarrow>
    r - 1 \<in> fst ` set tries \<and> 0 < r - 1 \<and> r - 1 < 0xFFFFFFFF"
proof (induction count tries rule: refcount_get_safe_loop.induct)
  case (2 count cur spurious tries)
  then have c: "0 < count" "count < 0xFFFFFFFF" by (auto simp: c_assert_def split: if_splits)
  then show ?case using 2 by (cases "cur = count \<and> \<not> spurious") auto
qed (auto split: if_splits)

lemma get_safe_loop_total:
  "(count, False) \<in> set tries \<Longrightarrow> \<forall>x \<in> set tries. fst x = count \<Longrightarrow> count < 0xFFFFFFFF \<Longrightarrow>
    \<exists>r. refcount_get_safe_loop count tries = Some r"
proof (induction tries)
  case (Cons x tries)
  obtain sp where "x = (count, sp)" using Cons.prems(2) by (cases x) auto
  then show ?case using Cons by (cases sp) auto
qed simp

text \<open>What the users of one object do with the references they hold.\<close>

datatype ref_op = Get_additional | Get_safe | Put

fun ref_step :: "object_type \<Rightarrow> ptr \<Rightarrow> ref_op \<Rightarrow> 'a obj_mem_scheme \<Rightarrow> (bool \<times> 'a obj_mem_scheme) option" where
  "ref_step t p Get_additional s = map_option (Pair True) (object_get_additional t p s)"
| "ref_step t p Get_safe s = object_get_safe t p s"
| "ref_step t p Put s = map_option (Pair True) (object_put t p s)"

fun ref_run :: "object_type \<Rightarrow> ptr \<Rightarrow> ref_op list \<Rightarrow> 'a obj_mem_scheme \<Rightarrow> (bool list \<times> 'a obj_mem_scheme) option" where
  "ref_run t p [] s = Some ([], s)"
| "ref_run t p (op # ops) s = do {
     (b, s) \<leftarrow> ref_step t p op s;
     (bs, s) \<leftarrow> ref_run t p ops s;
     Some (b # bs, s)
   }"

text \<open>
  The same on the number of references held. An additional reference is only taken, and a reference is
  only put, by a user who holds one.
\<close>

fun held :: "ref_op \<Rightarrow> nat \<Rightarrow> nat" where
  "held Get_additional n = n + 1"
| "held Get_safe n = (if n = 0 then 0 else n + 1)"
| "held Put n = n - 1"

fun ref_ok :: "ref_op list \<Rightarrow> nat \<Rightarrow> bool" where
  "ref_ok [] n \<longleftrightarrow> n < 2 ^ 32 - 1"
| "ref_ok (op # ops) n \<longleftrightarrow> n < 2 ^ 32 - 1 \<and> (op \<noteq> Get_safe \<longrightarrow> 0 < n) \<and> ref_ok ops (held op n)"

fun answers :: "ref_op list \<Rightarrow> nat \<Rightarrow> bool list" where
  "answers [] n = []"
| "answers (op # ops) n = (op \<noteq> Get_safe \<or> 0 < n) # answers ops (held op n)"

definition final_events :: "object_type \<Rightarrow> ptr \<Rightarrow> object_state \<Rightarrow> obj_event list" where
  "final_events t p st = (if st = OBJECT_STATE_ACTIVE then [Deactivate t p] else []) @ [Rcu_enqueue (Rcu_destroy t) p]"

definition ref_after :: "object_type \<Rightarrow> ptr \<Rightarrow> nat \<Rightarrow> nat \<Rightarrow> 'a obj_mem_scheme \<Rightarrow> 'a obj_mem_scheme" where
  "ref_after t p n n' s = s\<lparr>
     headers := (headers s)(p := (headers s p)\<lparr>oh_refcount := of_nat n',
       oh_state := if 0 < n \<and> n' = 0 then OBJECT_STATE_DESTROYING else oh_state (headers s p)\<rparr>),
     obj_log := obj_log s @ (if 0 < n \<and> n' = 0 then final_events t p (oh_state (headers s p)) else [])\<rparr>"

lemma of_nat_u32: "n < 2 ^ 32 \<Longrightarrow> unat (of_nat n :: u32) = n"
  by (simp add: unat_of_nat take_bit_nat_eq_self)

lemma ref_step_after:
  assumes "oh_refcount (headers s p) = of_nat n" "t \<noteq> OBJECT_TYPE_ANY" "n < 2 ^ 32 - 1" "op \<noteq> Get_safe \<longrightarrow> 0 < n"
  shows "ref_step t p op s = Some (op \<noteq> Get_safe \<or> 0 < n, ref_after t p n (held op n) s)"
proof -
  have z: "(of_nat n :: u32) = 0 \<longleftrightarrow> n = 0" and lt: "(of_nat n :: u32) < 0xFFFFFFFF"
    and one: "(1 :: u32) < of_nat n \<longleftrightarrow> 1 < n" and pos: "(0 :: u32) < of_nat n \<longleftrightarrow> 0 < n"
    using of_nat_u32 [of n] assms(3) by (auto simp: word_unat_eq_iff word_less_nat_alt)
  show ?thesis
  proof (cases op)
    case Get_additional
    then show ?thesis using assms pos
      by (simp add: object_get_additional_def refcount_get_additional_def ref_after_def set_refcount_def Let_def add.commute)
  next
    case Get_safe
    then show ?thesis using assms z lt
      by (cases "n = 0") (simp_all add: object_get_safe_def get_safe_eq ref_after_def set_refcount_def add.commute)
  next
    case Put
    then have n: "0 < n" using assms(4) by simp
    have sub: "(of_nat n :: u32) - 1 = of_nat (n - 1)" using n by (simp add: of_nat_diff)
    show ?thesis using Put assms n pos one sub
      by (cases "n = 1") (simp_all add: object_put_def refcount_put_def object_free_def ref_after_def
          set_header_defs final_events_def Let_def)
  qed
qed

lemma ref_after_same: "oh_refcount (headers s p) = of_nat n \<Longrightarrow> ref_after t p n n s = s"
  by (cases "headers s p") (auto simp: ref_after_def fun_upd_idem)

lemma ref_after_trans: "n1 = 0 \<longrightarrow> n2 = 0 \<Longrightarrow> n = 0 \<longrightarrow> n1 = 0 \<Longrightarrow>
    ref_after t p n1 n2 (ref_after t p n n1 s) = ref_after t p n n2 s"
  by (auto simp: ref_after_def)

lemma fold_held_0: "ref_ok ops 0 \<Longrightarrow> fold held ops 0 = 0"
proof (induction ops)
  case (Cons op ops)
  then show ?case by (cases op) auto
qed simp

lemma ref_run_after:
  assumes "oh_refcount (headers s p) = of_nat n" "t \<noteq> OBJECT_TYPE_ANY" "ref_ok ops n"
  shows "ref_run t p ops s = Some (answers ops n, ref_after t p n (fold held ops n) s)"
  using assms
proof (induction ops arbitrary: n s)
  case Nil
  then show ?case by (simp add: ref_after_same)
next
  case (Cons op ops)
  let ?s = "ref_after t p n (held op n) s"
  have 1: "ref_step t p op s = Some (op \<noteq> Get_safe \<or> 0 < n, ?s)"
    using Cons.prems by (intro ref_step_after) simp_all
  have 2: "ref_run t p ops ?s = Some (answers ops (held op n), ref_after t p (held op n) (fold held ops (held op n)) ?s)"
    using Cons.prems by (intro Cons.IH) (simp_all add: ref_after_def)
  have z: "held op n = 0 \<longrightarrow> fold held ops (held op n) = 0" using fold_held_0 [of ops] Cons.prems(3) by auto
  have "n = 0 \<longrightarrow> held op n = 0" using Cons.prems(3) by (cases op) auto
  then have "ref_after t p (held op n) (fold held ops (held op n)) ?s = ref_after t p n (fold held ops (held op n)) s"
    by (intro ref_after_trans z)
  then show ?case using 1 2 by simp
qed

section \<open>Properties\<close>

text \<open>
  C39. An object lives exactly as long as it is referenced. For every sequence of reference operations
  whose users only pass on and put references they hold, no assertion fails, the counter is the
  number of references held, and the object is deactivated and handed to RCU for destruction when, and
  only when, the last one is put, once. Attempts to get a reference after that fail.
\<close>

theorem object_freed_once:
  assumes "oh_refcount (headers s p) = of_nat n" "0 < n" "t \<noteq> OBJECT_TYPE_ANY" "ref_ok ops n"
  shows "\<exists>s'. ref_run t p ops s = Some (answers ops n, s') \<and>
    unat (oh_refcount (headers s' p)) = fold held ops n \<and>
    oh_state (headers s' p) = (if fold held ops n = 0 then OBJECT_STATE_DESTROYING else oh_state (headers s p)) \<and>
    obj_log s' = obj_log s @ (if fold held ops n = 0 then final_events t p (oh_state (headers s p)) else []) \<and>
    (\<forall>q. q \<noteq> p \<longrightarrow> headers s' q = headers s q)"
proof -
  have "fold held ops n < 2 ^ 32"
    using assms(4) by (induction ops arbitrary: n) auto
  then show ?thesis using assms by (simp add: ref_run_after ref_after_def of_nat_u32)
qed

theorem object_freed_once_witness:
  "\<exists>s'. ref_run OBJECT_TYPE_THREAD 64 [Get_additional, Put, Put, Get_safe]
     \<lparr>headers = (\<lambda>_. \<lparr>oh_state = OBJECT_STATE_ACTIVE, oh_refcount = 1, oh_cap_list = 0\<rparr>), obj_log = []\<rparr> =
       Some ([True, True, True, False], s') \<and>
     obj_log s' = [Deactivate OBJECT_TYPE_THREAD 64, Rcu_enqueue (Rcu_destroy OBJECT_TYPE_THREAD) 64]"
  using object_freed_once [of "\<lparr>headers = (\<lambda>_. \<lparr>oh_state = OBJECT_STATE_ACTIVE, oh_refcount = 1, oh_cap_list = 0\<rparr>), obj_log = []\<rparr>"
      64 1 OBJECT_TYPE_THREAD "[Get_additional, Put, Put, Get_safe]"]
  by (auto simp: final_events_def)

end
