(* ===== verification/Cspace.thy ===== *)
theory Cspace
  imports Bitmap LinkedList Objects
begin

text \<open>
  The two-level capability spaces of \<^verbatim>\<open>hyp/core/cspace_twolevel/src/cspace_twolevel.c\<close>: the model. The
  state holds the object headers, the cspaces, the capability tables, the capability slots and the list
  nodes embedded in them, each in a store by address. A cspace has an array of tables whose length,
  \<^verbatim>\<open>CSPACE_NUM_CAP_TABLES\<close>, is a constant of the build. The lock-protected sections are the steps in
  which other CPUs see the operations; the functions that only run between two of them are separate
  definitions. Memory for a new table is an argument, the answer of \<^verbatim>\<open>partition_alloc\<close>.
\<close>

section \<open>Data\<close>

type_synonym cap_id = u64
type_synonym cap_rights = u32

abbreviation CAP_STATE_NULL :: "2 word" where "CAP_STATE_NULL \<equiv> 0"
abbreviation CAP_STATE_VALID :: "2 word" where "CAP_STATE_VALID \<equiv> 1"
abbreviation CAP_STATE_REVOKED :: "2 word" where "CAP_STATE_REVOKED \<equiv> 2"

text \<open>The capability data; the last three fields are the bit field \<^verbatim>\<open>cap_info\<close>.\<close>

record cap_data =
  cd_object :: ptr
  cd_rights :: cap_rights
  cd_master :: bool
  cd_type :: object_type
  cd_state :: "2 word"

text \<open>Zeroed memory. The type field is that of the object type numbered zero; the code ignores it then.\<close>

definition null_cap_data :: cap_data where
  "null_cap_data = \<lparr>cd_object = 0, cd_rights = 0, cd_master = False, cd_type = OBJECT_TYPE_PARTITION,
     cd_state = CAP_STATE_NULL\<rparr>"

record cap_table =
  ct_cspace :: ptr
  ct_partition :: ptr
  ct_index :: nat
  ct_cap_count :: u32
  ct_used_slots :: bitmap

record cspace =
  cs_partition :: ptr
  cs_max_caps :: u32
  cs_cap_count :: u32
  cs_revoked_cap_list :: ptr
  id_mult :: u64
  id_inv :: u64
  id_rand_base :: u64
  allocated_tables :: bitmap
  available_tables :: bitmap
  tables :: "ptr list"

record cs_mem = obj_mem +
  cspaces :: "ptr \<Rightarrow> cspace"
  cap_tables :: "ptr \<Rightarrow> cap_table"
  caps :: "ptr \<Rightarrow> cap_data"
  list_nodes :: list_mem
  thread_cspace :: "ptr \<Rightarrow> ptr"

abbreviation CAP_TABLE_ALLOC_SIZE :: u64 where "CAP_TABLE_ALLOC_SIZE \<equiv> 2048"

text \<open>
  The number of slots: what is left of the table's memory behind \<^verbatim>\<open>cap_table_inner\<close> (32 bytes) and the
  bitmap of used slots, in units of 32 bytes.
\<close>

definition CAP_TABLE_NUM_CAP_SLOTS :: nat where
  "CAP_TABLE_NUM_CAP_SLOTS = (let avail = 2048 - 32 in (avail - BITMAP_NUM_WORDS (avail div 32) * 8) div 32)"

definition CSPACE_NUM_CAP_TABLES :: "cspace \<Rightarrow> nat" where
  "CSPACE_NUM_CAP_TABLES cs = length (tables cs)"

text \<open>The slots follow the header and the bitmap at offset 48; a slot is 16 bytes of data and a list node.\<close>

definition cap_slot :: "ptr \<Rightarrow> nat \<Rightarrow> ptr" where
  "cap_slot table i = table + 48 + 32 * of_nat i"

definition cap_list_node :: "ptr \<Rightarrow> ptr" where
  "cap_list_node cap = cap + 16"

definition cap_container_of_cap_list_node :: "ptr \<Rightarrow> ptr" where
  "cap_container_of_cap_list_node node = node - 16"

definition cspace_get_cap_table :: "ptr \<Rightarrow> ptr" where
  "cspace_get_cap_table cap = util_balign_down cap CAP_TABLE_ALLOC_SIZE"

definition cspace_get_cap_slot_index :: "ptr \<Rightarrow> ptr \<Rightarrow> nat option" where
  "cspace_get_cap_slot_index table cap = do {
     let index = sint (cap - cap_slot table 0) div 32;
     c_assert (index \<ge> 0 \<and> index < int CAP_TABLE_NUM_CAP_SLOTS);
     c_assert (cap = cap_slot table (nat index));
     Some (nat index)
   }"

definition upd_cspace :: "ptr \<Rightarrow> (cspace \<Rightarrow> cspace) \<Rightarrow> cs_mem \<Rightarrow> cs_mem" where
  "upd_cspace c f s = s\<lparr>cspaces := (cspaces s)(c := f (cspaces s c))\<rparr>"

definition upd_table :: "ptr \<Rightarrow> (cap_table \<Rightarrow> cap_table) \<Rightarrow> cs_mem \<Rightarrow> cs_mem" where
  "upd_table t f s = s\<lparr>cap_tables := (cap_tables s)(t := f (cap_tables s t))\<rparr>"

definition set_cap :: "ptr \<Rightarrow> cap_data \<Rightarrow> cs_mem \<Rightarrow> cs_mem" where
  "set_cap cap d s = s\<lparr>caps := (caps s)(cap := d)\<rparr>"

definition cspace_get_self :: "ptr \<Rightarrow> cs_mem \<Rightarrow> ptr" where
  "cspace_get_self self s = thread_cspace s self"

section \<open>Capability identifiers\<close>

text \<open>The results of the successive calls of \<^verbatim>\<open>prng_get64\<close> are the argument \<open>rands\<close>.\<close>

fun cspace_rand_base_loop :: "u64 result list \<Rightarrow> (u64 result \<times> u64 result list) option" where
  "cspace_rand_base_loop [] = None"
| "cspace_rand_base_loop (Inl e # rands) = Some (Inl e, rands)"
| "cspace_rand_base_loop (Inr r # rands) =
    (if drop_bit 32 r \<ge> 0xffffff00 then cspace_rand_base_loop rands else Some (Inr r, rands))"

partial_function (option) cspace_rand_mult_loop :: "u64 \<Rightarrow> u64 option" where
  [code]: "cspace_rand_mult_loop r =
    (if r AND 0xffff = 0 then cspace_rand_mult_loop (push_bit 48 0x5555 OR drop_bit 16 r) else Some r)"

definition cspace_init_id_encoder :: "u64 result list \<Rightarrow> cspace \<Rightarrow> (error_t \<times> cspace) option" where
  "cspace_init_id_encoder rands cs = do {
     (rand_base, rands) \<leftarrow> cspace_rand_base_loop rands;
     (case rand_base of
        Inl err \<Rightarrow> Some (err, cs)
      | Inr base \<Rightarrow>
          (case rands of
             [] \<Rightarrow> None
           | Inl err # _ \<Rightarrow> Some (err, cs)
           | Inr rand_mult # _ \<Rightarrow> do {
               rand_mult \<leftarrow> cspace_rand_mult_loop rand_mult;
               let mult = rand_mult AND 0xffff;
               Some (OK, cs\<lparr>id_rand_base := base, id_mult := mult, id_inv := util_bit 32 div mult + 1\<rparr>)
             }))
   }"

definition cspace_encode_cap_id :: "cspace \<Rightarrow> u16 \<Rightarrow> cap_id" where
  "cspace_encode_cap_id cs val = (let v = (ucast val :: u64) in (v * id_mult cs) XOR id_rand_base cs)"

definition cspace_decode_cap_id :: "cspace \<Rightarrow> cap_id \<Rightarrow> u16 result" where
  "cspace_decode_cap_id cs i =
    (let r = i XOR id_rand_base cs;
         v = drop_bit 32 (r * id_inv cs)
     in if r < util_bit 32 \<and> v < util_bit 16 then Inr (ucast v) else Inl ERROR_CSPACE_CAP_NULL)"

text \<open>The bit field \<^verbatim>\<open>cap_value\<close>: the lower index in bits 0 to 7, the upper index in bits 8 to 15.\<close>

definition cap_value :: "nat \<Rightarrow> nat \<Rightarrow> u16" where
  "cap_value upper lower = push_bit 8 (of_nat upper) OR (of_nat lower AND 0xff)"

definition cap_value_get_lower_index :: "u16 \<Rightarrow> nat" where
  "cap_value_get_lower_index v = unat (v AND 0xff)"

definition cap_value_get_upper_index :: "u16 \<Rightarrow> nat" where
  "cap_value_get_upper_index v = unat (drop_bit 8 v)"

definition cspace_cap_id_to_indices :: "cspace \<Rightarrow> cap_id \<Rightarrow> (nat \<times> nat) result" where
  "cspace_cap_id_to_indices cs i =
    (case cspace_decode_cap_id cs i of
       Inr v \<Rightarrow>
         let lower = cap_value_get_lower_index v;
             upper = cap_value_get_upper_index v
         in if upper < CSPACE_NUM_CAP_TABLES cs \<and> lower < CAP_TABLE_NUM_CAP_SLOTS then Inr (upper, lower)
            else Inl ERROR_CSPACE_CAP_NULL
     | Inl e \<Rightarrow> Inl e)"

definition cspace_indices_to_cap_id :: "cspace \<Rightarrow> nat \<Rightarrow> nat \<Rightarrow> cap_id" where
  "cspace_indices_to_cap_id cs upper lower = cspace_encode_cap_id cs (cap_value upper lower)"

section \<open>Capability slots\<close>

definition cspace_check_cap_data :: "cap_data \<Rightarrow> object_type \<Rightarrow> cap_rights \<Rightarrow> error_t option" where
  "cspace_check_cap_data d type rights =
    (let masked_rights = cd_rights d AND rights
     in if cd_state d = CAP_STATE_VALID then
          if cd_type d = type \<or> type = OBJECT_TYPE_ANY then
            Some (if masked_rights \<noteq> rights then ERROR_CSPACE_INSUFFICIENT_RIGHTS else OK)
          else Some ERROR_CSPACE_WRONG_OBJECT_TYPE
        else if cd_state d = CAP_STATE_NULL then Some ERROR_CSPACE_CAP_NULL
        else if cd_state d = CAP_STATE_REVOKED then Some ERROR_CSPACE_CAP_REVOKED
        else None)"

definition cspace_update_cap_slot :: "ptr \<Rightarrow> cap_data \<Rightarrow> cap_data \<Rightarrow> cs_mem \<Rightarrow> error_t \<times> cs_mem" where
  "cspace_update_cap_slot cap expected_data new_data s =
    (if caps s cap = expected_data then (OK, set_cap cap new_data s) else (ERROR_BUSY, s))"

definition cspace_lookup_cap_slot :: "ptr \<Rightarrow> cap_id \<Rightarrow> cs_mem \<Rightarrow> ptr result" where
  "cspace_lookup_cap_slot cspace i s =
    (case cspace_cap_id_to_indices (cspaces s cspace) i of
       Inl err \<Rightarrow> Inl err
     | Inr (upper_index, lower_index) \<Rightarrow>
         let table = tables (cspaces s cspace) ! upper_index
         in if table \<noteq> NULL then Inr (cap_slot table lower_index) else Inl ERROR_CSPACE_CAP_NULL)"

text \<open>
  The loop that claims a clear bit of an atomic bitmap: find one, try to set it, and start again if it
  has been set in the meantime.
\<close>

partial_function (option) claim_clear_bit :: "bitmap \<Rightarrow> nat \<Rightarrow> (nat option \<times> bitmap) option" where
  [code]: "claim_clear_bit bm n = Option.bind (bitmap_atomic_ffc bm n) (\<lambda>index.
     case index of
       None \<Rightarrow> Some (None, bm)
     | Some index \<Rightarrow> Option.bind (bitmap_atomic_test_and_set bm index) (\<lambda>(old, bm).
         if old then claim_clear_bit bm n else Some (Some index, bm)))"

text \<open>\<^verbatim>\<open>memset_s\<close> on a new table.\<close>

definition clear_cap_table :: "ptr \<Rightarrow> cs_mem \<Rightarrow> cs_mem" where
  "clear_cap_table table s = s\<lparr>
     caps := (\<lambda>cap. if util_balign_down cap CAP_TABLE_ALLOC_SIZE = table then null_cap_data else caps s cap),
     list_nodes := (\<lambda>p. if util_balign_down p CAP_TABLE_ALLOC_SIZE = table then \<lparr>ln_next = 0, ln_prev = 0\<rparr>
       else list_nodes s p),
     cap_tables := (cap_tables s)(table := \<lparr>ct_cspace = 0, ct_partition = 0, ct_index = 0, ct_cap_count = 0,
       ct_used_slots = replicate (BITMAP_NUM_WORDS CAP_TABLE_NUM_CAP_SLOTS) 0\<rparr>)\<rparr>"

definition cspace_allocate_cap_table :: "ptr \<Rightarrow> ptr result \<Rightarrow> cs_mem \<Rightarrow> ((ptr \<times> nat) result \<times> cs_mem) option" where
  "cspace_allocate_cap_table cspace alloc s = do {
     let cs = cspaces s cspace;
     let partition = cs_partition cs;
     (index, bm) \<leftarrow> claim_clear_bit (allocated_tables cs) (CSPACE_NUM_CAP_TABLES cs);
     (case index of
        None \<Rightarrow> Some (Inl ERROR_CSPACE_FULL, s)
      | Some index \<Rightarrow> do {
          let s = upd_cspace cspace (\<lambda>cs. cs\<lparr>allocated_tables := bm\<rparr>) s;
          (case alloc of
             Inl _ \<Rightarrow> do {
               (_, bm) \<leftarrow> bitmap_atomic_test_and_clear bm index;
               Some (Inl ERROR_NOMEM, upd_cspace cspace (\<lambda>cs. cs\<lparr>allocated_tables := bm\<rparr>) s)
             }
           | Inr new_table \<Rightarrow> do {
               let s = clear_cap_table new_table s;
               s \<leftarrow> object_get_additional OBJECT_TYPE_PARTITION partition s;
               let s = upd_table new_table (\<lambda>t. t\<lparr>ct_partition := partition, ct_cspace := cspace, ct_index := index\<rparr>) s;
               Some (Inr (new_table, index), s)
             })
        })
   }"

text \<open>
  The allocation of a slot. The first locked section checks the limit and looks for a table with a
  free slot. If there is none, the lock is dropped, a table is allocated, and the second locked section
  attaches it. Both sections end with the counting; a slot of the table is claimed afterwards.
\<close>

definition cspace_allocate_cap_slot_begin :: "ptr \<Rightarrow> cs_mem \<Rightarrow> nat option result option" where
  "cspace_allocate_cap_slot_begin cspace s = do {
     let cs = cspaces s cspace;
     if cs_cap_count cs = cs_max_caps cs then Some (Inl ERROR_CSPACE_FULL)
     else do {
       upper_index \<leftarrow> bitmap_ffs (available_tables cs) (CSPACE_NUM_CAP_TABLES cs);
       Some (Inr upper_index)
     }
   }"

definition cspace_attach_cap_table :: "ptr \<Rightarrow> ptr \<Rightarrow> nat \<Rightarrow> cs_mem \<Rightarrow> cs_mem option" where
  "cspace_attach_cap_table cspace table upper_index s = do {
     let s = upd_cspace cspace (\<lambda>cs. cs\<lparr>tables := (tables cs)[upper_index := table]\<rparr>) s;
     bm \<leftarrow> bitmap_set (available_tables (cspaces s cspace)) upper_index;
     Some (upd_cspace cspace (\<lambda>cs. cs\<lparr>available_tables := bm\<rparr>) s)
   }"

definition cspace_count_cap :: "ptr \<Rightarrow> ptr \<Rightarrow> nat \<Rightarrow> cs_mem \<Rightarrow> cs_mem option" where
  "cspace_count_cap cspace table upper_index s = do {
     let s = upd_table table (\<lambda>t. t\<lparr>ct_cap_count := ct_cap_count t + 1\<rparr>) s;
     let s = upd_cspace cspace (\<lambda>cs. cs\<lparr>cs_cap_count := cs_cap_count cs + 1\<rparr>) s;
     if ct_cap_count (cap_tables s table) = of_nat CAP_TABLE_NUM_CAP_SLOTS then do {
       bm \<leftarrow> bitmap_clear (available_tables (cspaces s cspace)) upper_index;
       Some (upd_cspace cspace (\<lambda>cs. cs\<lparr>available_tables := bm\<rparr>) s)
     } else Some s
   }"

definition cspace_claim_cap_slot :: "ptr \<Rightarrow> ptr \<Rightarrow> nat \<Rightarrow> cs_mem \<Rightarrow> ((ptr \<times> cap_id) \<times> cs_mem) option" where
  "cspace_claim_cap_slot cspace table upper_index s = do {
     (lower_index, bm) \<leftarrow> claim_clear_bit (ct_used_slots (cap_tables s table)) CAP_TABLE_NUM_CAP_SLOTS;
     (case lower_index of
        None \<Rightarrow> None
      | Some lower_index \<Rightarrow>
          Some ((cap_slot table lower_index, cspace_indices_to_cap_id (cspaces s cspace) upper_index lower_index),
            upd_table table (\<lambda>t. t\<lparr>ct_used_slots := bm\<rparr>) s))
   }"

definition cspace_allocate_cap_slot :: "ptr \<Rightarrow> ptr result \<Rightarrow> cs_mem \<Rightarrow> ((ptr \<times> cap_id) result \<times> cs_mem) option" where
  "cspace_allocate_cap_slot cspace alloc s = do {
     b \<leftarrow> cspace_allocate_cap_slot_begin cspace s;
     (case b of
        Inl err \<Rightarrow> Some (Inl err, s)
      | Inr (Some upper_index) \<Rightarrow> do {
          let table = tables (cspaces s cspace) ! upper_index;
          s \<leftarrow> cspace_count_cap cspace table upper_index s;
          (cap, s) \<leftarrow> cspace_claim_cap_slot cspace table upper_index s;
          Some (Inr cap, s)
        }
      | Inr None \<Rightarrow> do {
          (t, s) \<leftarrow> cspace_allocate_cap_table cspace alloc s;
          (case t of
             Inl err \<Rightarrow> Some (Inl err, s)
           | Inr (table, upper_index) \<Rightarrow> do {
               s \<leftarrow> cspace_attach_cap_table cspace table upper_index s;
               s \<leftarrow> cspace_count_cap cspace table upper_index s;
               (cap, s) \<leftarrow> cspace_claim_cap_slot cspace table upper_index s;
               Some (Inr cap, s)
             })
        })
   }"

definition cspace_free_cap_slot :: "ptr \<Rightarrow> ptr \<Rightarrow> cs_mem \<Rightarrow> cs_mem option" where
  "cspace_free_cap_slot cspace cap s = do {
     let table = cspace_get_cap_table cap;
     lower_index \<leftarrow> cspace_get_cap_slot_index table cap;
     let upper_index = ct_index (cap_tables s table);
     (_, bm) \<leftarrow> bitmap_atomic_test_and_clear (ct_used_slots (cap_tables s table)) lower_index;
     let s = upd_table table (\<lambda>t. t\<lparr>ct_used_slots := bm\<rparr>) s;
     s \<leftarrow> (if ct_cap_count (cap_tables s table) = of_nat CAP_TABLE_NUM_CAP_SLOTS then do {
              bm \<leftarrow> bitmap_set (available_tables (cspaces s cspace)) upper_index;
              Some (upd_cspace cspace (\<lambda>cs. cs\<lparr>available_tables := bm\<rparr>) s)
            } else Some s);
     let s = upd_table table (\<lambda>t. t\<lparr>ct_cap_count := ct_cap_count t - 1\<rparr>) s;
     let s = upd_cspace cspace (\<lambda>cs. cs\<lparr>cs_cap_count := cs_cap_count cs - 1\<rparr>) s;
     if ct_cap_count (cap_tables s table) = 0 then do {
       (_, alc) \<leftarrow> bitmap_atomic_test_and_clear (allocated_tables (cspaces s cspace)) upper_index;
       avl \<leftarrow> bitmap_clear (available_tables (cspaces s cspace)) upper_index;
       let s = upd_cspace cspace (\<lambda>cs. cs\<lparr>allocated_tables := alc, available_tables := avl,
                 tables := (tables cs)[upper_index := NULL]\<rparr>) s;
       Some (log_event (Rcu_enqueue CSPACE_RELEASE_LEVEL table) s)
     } else Some s
   }"

section \<open>Lookup\<close>

definition cspace_lookup_object ::
    "ptr \<Rightarrow> cap_id \<Rightarrow> object_type \<Rightarrow> cap_rights \<Rightarrow> bool \<Rightarrow> cs_mem \<Rightarrow> (ptr result \<times> cs_mem) option" where
  "cspace_lookup_object cspace i type rights active_only s = do {
     c_assert (type \<noteq> OBJECT_TYPE_ANY);
     (case cspace_lookup_cap_slot cspace i s of
        Inl err \<Rightarrow> Some (Inl err, s)
      | Inr cap \<Rightarrow> do {
          let d = caps s cap;
          err \<leftarrow> cspace_check_cap_data d type rights;
          if err \<noteq> OK then Some (Inl err, s)
          else do {
            c_assert (cd_object d \<noteq> NULL);
            if active_only \<and> oh_state (headers s (cd_object d)) \<noteq> OBJECT_STATE_ACTIVE then Some (Inl ERROR_OBJECT_STATE, s)
            else do {
              (got, s) \<leftarrow> object_get_safe type (cd_object d) s;
              Some (if got then Inr (cd_object d) else Inl ERROR_CSPACE_CAP_NULL, s)
            }
          }
        })
   }"

text \<open>The type of the object is a second result, also in the error cases.\<close>

definition cspace_lookup_object_any ::
    "ptr \<Rightarrow> cap_id \<Rightarrow> cap_rights \<Rightarrow> cap_rights \<Rightarrow> cs_mem \<Rightarrow> (ptr result \<times> object_type \<times> cs_mem) option" where
  "cspace_lookup_object_any cspace i generic_all rights s = do {
     c_assert (NOT generic_all AND rights = 0);
     (case cspace_lookup_cap_slot cspace i s of
        Inl err \<Rightarrow> Some (Inl err, OBJECT_TYPE_ANY, s)
      | Inr cap \<Rightarrow> do {
          let d = caps s cap;
          let obj_type = cd_type d;
          err \<leftarrow> cspace_check_cap_data d OBJECT_TYPE_ANY rights;
          if err \<noteq> OK then Some (Inl err, obj_type, s)
          else do {
            (got, s) \<leftarrow> object_get_safe obj_type (cd_object d) s;
            Some (if got then Inr (cd_object d) else Inl ERROR_CSPACE_CAP_NULL, obj_type, s)
          }
        })
   }"

section \<open>Creating, copying, deleting and revoking capabilities\<close>

definition cspace_create_restricted_master_cap ::
    "ptr \<Rightarrow> ptr \<Rightarrow> object_type \<Rightarrow> cap_rights \<Rightarrow> ptr result \<Rightarrow> cs_mem \<Rightarrow> (cap_id result \<times> cs_mem) option" where
  "cspace_create_restricted_master_cap cspace object type rights alloc s = do {
     c_assert (type \<noteq> OBJECT_TYPE_ANY);
     let d = \<lparr>cd_object = object, cd_rights = rights, cd_master = True, cd_type = type, cd_state = CAP_STATE_VALID\<rparr>;
     (r, s) \<leftarrow> cspace_allocate_cap_slot cspace alloc s;
     (case r of
        Inl err \<Rightarrow> Some (Inl err, s)
      | Inr (new_cap, new_cap_id) \<Rightarrow> do {
          m \<leftarrow> list_insert_at_head (oh_cap_list (headers s object)) (cap_list_node new_cap) (list_nodes s);
          Some (Inr new_cap_id, set_cap new_cap d (s\<lparr>list_nodes := m\<rparr>))
        })
   }"

text \<open>\<^verbatim>\<open>cspace_get_rights_all\<close> is generated from the rights of all modules; it is the argument \<open>rights_all\<close>.\<close>

definition cspace_create_master_cap ::
    "(object_type \<Rightarrow> cap_rights option) \<Rightarrow> ptr \<Rightarrow> ptr \<Rightarrow> object_type \<Rightarrow> ptr result \<Rightarrow> cs_mem \<Rightarrow> (cap_id result \<times> cs_mem) option" where
  "cspace_create_master_cap rights_all cspace object type alloc s = do {
     rights \<leftarrow> rights_all type;
     cspace_create_restricted_master_cap cspace object type rights alloc s
   }"

text \<open>The section of \<^verbatim>\<open>cspace_copy_cap\<close> that holds the lock of the object's capability list.\<close>

definition cspace_copy_cap_locked :: "ptr \<Rightarrow> ptr \<Rightarrow> cap_data \<Rightarrow> cap_rights \<Rightarrow> cs_mem \<Rightarrow> (error_t \<times> cs_mem) option" where
  "cspace_copy_cap_locked parent_cap new_cap d masked_rights s = do {
     c_assert (cd_type d \<noteq> OBJECT_TYPE_ANY);
     let cap_list = oh_cap_list (headers s (cd_object d));
     let (err, s) = cspace_update_cap_slot parent_cap d d s;
     if err = OK then do {
       let s = set_cap new_cap (d\<lparr>cd_rights := masked_rights, cd_master := False\<rparr>) s;
       m \<leftarrow> list_insert_after_node cap_list (cap_list_node parent_cap) (cap_list_node new_cap) (list_nodes s);
       Some (OK, s\<lparr>list_nodes := m\<rparr>)
     } else Some (err, s)
   }"

definition cspace_copy_cap ::
    "ptr \<Rightarrow> ptr \<Rightarrow> cap_id \<Rightarrow> cap_rights \<Rightarrow> ptr result \<Rightarrow> cs_mem \<Rightarrow> (cap_id result \<times> cs_mem) option" where
  "cspace_copy_cap target_cspace parent_cspace parent_id rights_mask alloc s = do {
     (r, s) \<leftarrow> cspace_allocate_cap_slot target_cspace alloc s;
     (case r of
        Inl err \<Rightarrow> Some (Inl err, s)
      | Inr (new_cap, new_cap_id) \<Rightarrow>
          (case cspace_lookup_cap_slot parent_cspace parent_id s of
             Inl err \<Rightarrow> do {
               s \<leftarrow> cspace_free_cap_slot target_cspace new_cap s;
               Some (Inl err, s)
             }
           | Inr parent_cap \<Rightarrow> do {
               let d = caps s parent_cap;
               err \<leftarrow> cspace_check_cap_data d OBJECT_TYPE_ANY 0;
               let masked_rights = cd_rights d AND rights_mask;
               if err \<noteq> OK then do {
                 s \<leftarrow> cspace_free_cap_slot target_cspace new_cap s;
                 Some (Inl err, s)
               } else if masked_rights = 0 then do {
                 s \<leftarrow> cspace_free_cap_slot target_cspace new_cap s;
                 Some (Inl ERROR_CSPACE_INSUFFICIENT_RIGHTS, s)
               } else do {
                 (err, s) \<leftarrow> cspace_copy_cap_locked parent_cap new_cap d masked_rights s;
                 if err = OK then Some (Inr new_cap_id, s)
                 else do {
                   s \<leftarrow> cspace_free_cap_slot target_cspace new_cap s;
                   Some (Inl err, s)
                 }
               }
             }))
   }"

text \<open>
  The locked section of \<^verbatim>\<open>cspace_delete_cap\<close>, for the capability data that was read before. The second
  result tells whether the last capability of the object is gone.
\<close>

definition cspace_delete_cap_locked :: "ptr \<Rightarrow> ptr \<Rightarrow> cap_data \<Rightarrow> cs_mem \<Rightarrow> (error_t \<times> bool \<times> cs_mem) option" where
  "cspace_delete_cap_locked cspace cap d s =
    (if cd_state d = CAP_STATE_VALID then do {
       c_assert (cd_type d \<noteq> OBJECT_TYPE_ANY);
       let cap_list = oh_cap_list (headers s (cd_object d));
       let (err, s) = cspace_update_cap_slot cap d null_cap_data s;
       if err = OK then do {
         (_, m) \<leftarrow> list_delete_node cap_list (cap_list_node cap) (list_nodes s);
         cap_list_empty \<leftarrow> list_is_empty cap_list m;
         Some (OK, cap_list_empty, s\<lparr>list_nodes := m\<rparr>)
       } else Some (err, False, s)
     } else if cd_state d = CAP_STATE_REVOKED then do {
       let (err, s) = cspace_update_cap_slot cap d null_cap_data s;
       if err = OK then do {
         (_, m) \<leftarrow> list_delete_node (cs_revoked_cap_list (cspaces s cspace)) (cap_list_node cap) (list_nodes s);
         Some (OK, False, s\<lparr>list_nodes := m\<rparr>)
       } else Some (err, False, s)
     } else Some (ERROR_CSPACE_CAP_NULL, False, s))"

definition cspace_delete_cap :: "ptr \<Rightarrow> cap_id \<Rightarrow> cs_mem \<Rightarrow> (error_t \<times> cs_mem) option" where
  "cspace_delete_cap cspace i s =
    (case cspace_lookup_cap_slot cspace i s of
       Inl err \<Rightarrow> Some (err, s)
     | Inr cap \<Rightarrow> do {
         let d = caps s cap;
         (err, cap_list_empty, s) \<leftarrow> cspace_delete_cap_locked cspace cap d s;
         if err = OK then do {
           s \<leftarrow> cspace_free_cap_slot cspace cap s;
           s \<leftarrow> (if cap_list_empty then object_put (cd_type d) (cd_object d) s else Some s);
           Some (OK, s)
         } else Some (err, s)
       })"

text \<open>The loop over the capabilities of the object; the next node is read before a node is moved.\<close>

definition cspace_revoke_one :: "ptr \<Rightarrow> ptr \<Rightarrow> cs_mem \<Rightarrow> cs_mem option" where
  "cspace_revoke_one cap_list curr_cap s = do {
     let d = caps s curr_cap;
     let d = d\<lparr>cd_state := CAP_STATE_REVOKED, cd_object := NULL\<rparr>;
     let curr_cspace = ct_cspace (cap_tables s (cspace_get_cap_table curr_cap));
     let s = set_cap curr_cap d s;
     (_, m) \<leftarrow> list_delete_node cap_list (cap_list_node curr_cap) (list_nodes s);
     m \<leftarrow> list_insert_at_head (cs_revoked_cap_list (cspaces s curr_cspace)) (cap_list_node curr_cap) m;
     Some (s\<lparr>list_nodes := m\<rparr>)
   }"

partial_function (option) cspace_revoke_loop :: "ptr \<Rightarrow> ptr \<Rightarrow> ptr \<Rightarrow> cs_mem \<Rightarrow> cs_mem option" where
  [code]: "cspace_revoke_loop cap_list master_cap node s =
    (if node \<noteq> cap_list then
       let curr_cap = cap_container_of_cap_list_node node;
           nxt = ln_next (list_nodes s node)
       in if curr_cap = master_cap then cspace_revoke_loop cap_list master_cap nxt s
          else Option.bind (cspace_revoke_one cap_list curr_cap s) (cspace_revoke_loop cap_list master_cap nxt)
     else Some s)"

definition cspace_revoke_caps_locked :: "ptr \<Rightarrow> cap_data \<Rightarrow> cs_mem \<Rightarrow> (error_t \<times> cs_mem) option" where
  "cspace_revoke_caps_locked master_cap d s = do {
     c_assert (cd_type d \<noteq> OBJECT_TYPE_ANY);
     let cap_list = oh_cap_list (headers s (cd_object d));
     let (err, s) = cspace_update_cap_slot master_cap d d s;
     if err \<noteq> OK then Some (err, s)
     else do {
       head \<leftarrow> list_get_head cap_list (list_nodes s);
       c_assert (head = cap_list_node master_cap);
       s \<leftarrow> cspace_revoke_loop cap_list master_cap (ln_next (list_nodes s cap_list)) s;
       Some (OK, s)
     }
   }"

definition cspace_revoke_caps :: "ptr \<Rightarrow> cap_id \<Rightarrow> cs_mem \<Rightarrow> (error_t \<times> cs_mem) option" where
  "cspace_revoke_caps cspace master_cap_id s =
    (case cspace_lookup_cap_slot cspace master_cap_id s of
       Inl err \<Rightarrow> Some (err, s)
     | Inr master_cap \<Rightarrow> do {
         let d = caps s master_cap;
         err \<leftarrow> cspace_check_cap_data d OBJECT_TYPE_ANY 0;
         if err \<noteq> OK then Some (err, s)
         else if \<not> cd_master d then Some (ERROR_CSPACE_INSUFFICIENT_RIGHTS, s)
         else cspace_revoke_caps_locked master_cap d s
       })"

section \<open>Life cycle of cspaces and threads\<close>

text \<open>
  The destruction of a table. The loop runs \<^verbatim>\<open>cap_count\<close> times; the capabilities that are still valid
  leave the lists of their objects.
\<close>

fun cspace_destroy_cap_table_loop :: "nat \<Rightarrow> ptr \<Rightarrow> cs_mem \<Rightarrow> cs_mem option" where
  "cspace_destroy_cap_table_loop 0 table s = Some s"
| "cspace_destroy_cap_table_loop (Suc n) table s = do {
     index \<leftarrow> bitmap_atomic_ffs (ct_used_slots (cap_tables s table)) CAP_TABLE_NUM_CAP_SLOTS;
     (case index of
        None \<Rightarrow> None
      | Some index \<Rightarrow> do {
          let cap = cap_slot table index;
          let d = caps s cap;
          (_, bm) \<leftarrow> bitmap_atomic_test_and_clear (ct_used_slots (cap_tables s table)) index;
          let s = upd_table table (\<lambda>t. t\<lparr>ct_used_slots := bm\<rparr>) s;
          s \<leftarrow> (if cd_state d \<noteq> CAP_STATE_VALID then Some s
                else do {
                  c_assert (cd_type d \<noteq> OBJECT_TYPE_ANY);
                  let cap_list = oh_cap_list (headers s (cd_object d));
                  (_, m) \<leftarrow> list_delete_node cap_list (cap_list_node cap) (list_nodes s);
                  cap_list_empty \<leftarrow> list_is_empty cap_list m;
                  let s = s\<lparr>list_nodes := m\<rparr>;
                  if cap_list_empty then object_put (cd_type d) (cd_object d) s else Some s
                });
          cspace_destroy_cap_table_loop n table (upd_table table (\<lambda>t. t\<lparr>ct_cap_count := ct_cap_count t - 1\<rparr>) s)
        })
   }"

definition cspace_destroy_cap_table :: "ptr \<Rightarrow> cs_mem \<Rightarrow> cs_mem option" where
  "cspace_destroy_cap_table table s = do {
     let partition = ct_partition (cap_tables s table);
     s \<leftarrow> cspace_destroy_cap_table_loop (unat (ct_cap_count (cap_tables s table))) table s;
     let s = log_event (Partition_free partition table CAP_TABLE_ALLOC_SIZE) s;
     object_put OBJECT_TYPE_PARTITION partition s
   }"

definition cspace_twolevel_handle_object_create_cspace ::
    "u64 result list \<Rightarrow> ptr \<Rightarrow> cs_mem \<Rightarrow> (error_t \<times> cs_mem) option" where
  "cspace_twolevel_handle_object_create_cspace rands cspace s = do {
     m \<leftarrow> list_init (cs_revoked_cap_list (cspaces s cspace)) (list_nodes s);
     (err, cs) \<leftarrow> cspace_init_id_encoder rands (cspaces s cspace);
     Some (err, upd_cspace cspace (\<lambda>_. cs) (s\<lparr>list_nodes := m\<rparr>))
   }"

definition cspace_configure :: "ptr \<Rightarrow> u32 \<Rightarrow> cs_mem \<Rightarrow> (error_t \<times> cs_mem) option" where
  "cspace_configure cspace max_caps s = do {
     c_assert (oh_state (headers s cspace) = OBJECT_STATE_INIT);
     if unat max_caps \<le> CAP_TABLE_NUM_CAP_SLOTS * CSPACE_NUM_CAP_TABLES (cspaces s cspace) then
       Some (OK, upd_cspace cspace (\<lambda>cs. cs\<lparr>cs_max_caps := max_caps\<rparr>) s)
     else Some (ERROR_ARGUMENT_INVALID, s)
   }"

definition cspace_twolevel_handle_object_activate_cspace :: "ptr \<Rightarrow> cs_mem \<Rightarrow> error_t" where
  "cspace_twolevel_handle_object_activate_cspace cspace s =
    (if cs_max_caps (cspaces s cspace) \<noteq> 0 then OK else ERROR_OBJECT_CONFIG)"

fun cspace_cleanup_loop :: "ptr list \<Rightarrow> cs_mem \<Rightarrow> cs_mem option" where
  "cspace_cleanup_loop [] s = Some s"
| "cspace_cleanup_loop (table # ts) s = do {
     s \<leftarrow> (if table \<noteq> NULL then cspace_destroy_cap_table table s else Some s);
     cspace_cleanup_loop ts s
   }"

definition cspace_twolevel_handle_object_cleanup_cspace :: "ptr \<Rightarrow> cs_mem \<Rightarrow> cs_mem option" where
  "cspace_twolevel_handle_object_cleanup_cspace cspace s = cspace_cleanup_loop (tables (cspaces s cspace)) s"

definition cspace_attach_thread :: "ptr \<Rightarrow> ptr \<Rightarrow> cs_mem \<Rightarrow> (error_t \<times> cs_mem) option" where
  "cspace_attach_thread cspace thread s = do {
     c_assert (thread \<noteq> NULL);
     c_assert (cspace \<noteq> NULL);
     c_assert (oh_state (headers s cspace) = OBJECT_STATE_ACTIVE);
     c_assert (oh_state (headers s thread) = OBJECT_STATE_INIT);
     s \<leftarrow> (if thread_cspace s thread \<noteq> NULL then object_put OBJECT_TYPE_CSPACE (thread_cspace s thread) s else Some s);
     s \<leftarrow> object_get_additional OBJECT_TYPE_CSPACE cspace s;
     Some (OK, s\<lparr>thread_cspace := (thread_cspace s)(thread := cspace)\<rparr>)
   }"

definition cspace_twolevel_handle_object_deactivate_thread :: "ptr \<Rightarrow> cs_mem \<Rightarrow> cs_mem option" where
  "cspace_twolevel_handle_object_deactivate_thread thread s = do {
     c_assert (thread \<noteq> NULL);
     let cspace = thread_cspace s thread;
     if cspace \<noteq> NULL then do {
       s \<leftarrow> object_put OBJECT_TYPE_CSPACE cspace s;
       Some (s\<lparr>thread_cspace := (thread_cspace s)(thread := NULL)\<rparr>)
     } else Some s
   }"

end
