(* ===== verification/Cspace_Id.thy ===== *)
theory Cspace_Id
  imports Cspace
begin

text \<open>
  Capability identifiers: the encoding of slot indices with a random multiplier and base is inverted
  by the decoding, and the values that the initialisation produces are fit for it.
\<close>

definition encoder_ok :: "cspace \<Rightarrow> bool" where
  "encoder_ok cs \<longleftrightarrow> 0 < unat (id_mult cs) \<and> unat (id_mult cs) < 2 ^ 16 \<and>
    id_inv cs = util_bit 32 div id_mult cs + 1 \<and> unat (drop_bit 32 (id_rand_base cs)) < 0xffffff00"

section \<open>Initialisation\<close>

text \<open>At most four rounds move a non-zero pattern into the low 16 bits.\<close>

lemma rand_mult_loop_ends: "\<exists>r'. cspace_rand_mult_loop r = Some r' \<and> r' AND 0xffff \<noteq> 0"
proof -
  define nx where "nx = (\<lambda>r::u64. push_bit 48 0x5555 OR drop_bit 16 r)"
  have step: "cspace_rand_mult_loop r = (if r AND 0xffff = 0 then cspace_rand_mult_loop (nx r) else Some r)" for r
    by (subst cspace_rand_mult_loop.simps) (simp add: nx_def)
  have "bit (nx (nx (nx (nx r))) AND 0xffff) 0"
    by (simp add: nx_def bit_simps numeral_eq_Suc)
  then have "nx (nx (nx (nx r))) AND 0xffff \<noteq> 0" by force
  then show ?thesis
    using step [of r] step [of "nx r"] step [of "nx (nx r)"] step [of "nx (nx (nx r))"]
      step [of "nx (nx (nx (nx r)))"] by (metis (full_types))
qed

lemma rand_base_ok:
  "cspace_rand_base_loop rands = Some (Inr b, rs) \<Longrightarrow> unat (drop_bit 32 b) < 0xffffff00"
  by (induction rands rule: cspace_rand_base_loop.induct) (auto split: if_splits simp: word_le_nat_alt not_le)

lemma low_16: "unat (r AND 0xffff :: u64) < 2 ^ 16"
proof -
  have "r AND 0xffff = take_bit 16 r" by (simp add: take_bit_eq_mask mask_eq_exp_minus_1)
  then show ?thesis by (simp only: unat_take_bit) simp
qed

lemma rand_base_err: "cspace_rand_base_loop rands = Some (Inl e, rs) \<Longrightarrow> Inl e \<in> set rands"
  by (induction rands rule: cspace_rand_base_loop.induct) (auto split: if_splits)

lemma rand_base_rest: "cspace_rand_base_loop rands = Some (r, rs) \<Longrightarrow> set rs \<subseteq> set rands"
  by (induction rands rule: cspace_rand_base_loop.induct) (auto split: if_splits)

text \<open>A failing generator reports an error other than \<^const>\<open>OK\<close>.\<close>

lemma init_encoder_ok:
  assumes i: "cspace_init_id_encoder rands cs = Some (OK, cs')" and ok: "Inl OK \<notin> set rands"
  shows "encoder_ok cs' \<and> tables cs' = tables cs"
proof -
  obtain r rs where b: "cspace_rand_base_loop rands = Some (r, rs)"
    using i by (auto simp: cspace_init_id_encoder_def split: Option.bind_splits)
  have "r \<noteq> Inl OK" "Inl OK \<notin> set rs" using rand_base_err [of rands OK rs] rand_base_rest [OF b] b ok by auto
  then obtain base m rs' where r: "r = Inr base" "rs = Inr m # rs'"
    using i b by (auto simp: cspace_init_id_encoder_def split: sum.splits list.splits)
  obtain m' where m': "cspace_rand_mult_loop m = Some m'" "m' AND 0xffff \<noteq> 0"
    using rand_mult_loop_ends [of m] by blast
  have "cs' = cs\<lparr>id_rand_base := base, id_mult := m' AND 0xffff, id_inv := util_bit 32 div (m' AND 0xffff) + 1\<rparr>"
    using i b r m' by (simp add: cspace_init_id_encoder_def Let_def)
  then show ?thesis using rand_base_ok [of rands base rs] b r(1) low_16 [of m'] m'(2)
    by (simp add: encoder_ok_def unat_gt_0)
qed

section \<open>Encoding and decoding\<close>

lemma unat_util_bit: "k < 64 \<Longrightarrow> unat (util_bit k) = 2 ^ k"
  by (simp add: util_bit_def push_bit_eq_mult)

lemma inv_nat:
  assumes "encoder_ok cs"
  shows "unat (id_inv cs) = 2 ^ 32 div unat (id_mult cs) + 1"
proof -
  have "unat (util_bit 32 div id_mult cs) = 2 ^ 32 div unat (id_mult cs)"
    by (simp add: unat_div_distrib unat_util_bit)
  moreover from this have le: "unat (util_bit 32 div id_mult cs) \<le> 2 ^ 32" by simp
  have "unat (util_bit 32 div id_mult cs + 1) = unat (util_bit 32 div id_mult cs) + 1"
    by (subst unat_add_no_overflow) (use le in simp_all)
  ultimately show ?thesis using assms by (simp add: encoder_ok_def)
qed

lemma decode_nat:
  assumes "encoder_ok cs" "unat r < 2 ^ 32" "r = i XOR id_rand_base cs"
    "unat r * (2 ^ 32 div unat (id_mult cs) + 1) div 2 ^ 32 = v" "v < 2 ^ 16"
  shows "cspace_decode_cap_id cs i = Inr (of_nat v)"
proof -
  let ?m = "unat (id_mult cs)"
  have m: "2 ^ 32 div ?m \<le> 2 ^ 32" by (rule div_le_dividend)
  have "unat r * (2 ^ 32 div ?m + 1) \<le> (2 ^ 32 - 1) * (2 ^ 32 + 1)"
    using assms(2) m by (intro mult_mono) simp_all
  then have "unat (r * id_inv cs) = unat r * (2 ^ 32 div ?m + 1)"
    using inv_nat [OF assms(1)] by (simp add: unat_word_ariths(2))
  then have "unat (drop_bit 32 (r * id_inv cs)) = v"
    using assms(4) by (simp only: drop_bit_eq_div unat_div_distrib) simp
  then have "drop_bit 32 (r * id_inv cs) = of_nat v" by auto
  moreover have "r < util_bit 32" using assms(2) by (simp add: word_less_nat_alt unat_util_bit)
  moreover have "(of_nat v :: u64) < util_bit 16"
    using assms(5) by (simp add: word_less_nat_alt unat_util_bit unat_of_nat take_bit_nat_eq_self)
  moreover have "ucast (of_nat v :: u64) = (of_nat v :: u16)"
    using assms(5) by (simp add: word_unat_eq_iff unsigned_ucast_eq unat_of_nat take_bit_nat_eq_self)
  ultimately show ?thesis
    by (simp add: cspace_decode_cap_id_def Let_def flip: assms(3))
qed

lemma mult_inv_nat:
  assumes "0 < m" "v * m < 2 ^ 32" "k * (2 ^ 32 div m + 1) + v * (m - 2 ^ 32 mod m) < (2::nat) ^ 32"
  shows "(v * m + k) * (2 ^ 32 div m + 1) div 2 ^ 32 = v"
proof -
  define q where "q = 2 ^ 32 div m"
  have q: "q * m + 2 ^ 32 mod m = 2 ^ 32" by (simp add: q_def)
  define e d where "e = 2 ^ 32 mod m" and "d = m - 2 ^ 32 mod m"
  have m: "m = e + d" using assms(1) by (simp add: e_def d_def less_imp_le)
  have "v * m * (q + 1) = v * (q * m) + v * (e + d)" unfolding m [symmetric] by (simp add: algebra_simps)
  then have "v * m * (q + 1) = v * (q * m + e) + v * d" by (simp add: distrib_left)
  then have "v * m * (q + 1) = v * 2 ^ 32 + v * (m - 2 ^ 32 mod m)" by (simp only: e_def d_def q)
  then have "(v * m + k) * (q + 1) = v * 2 ^ 32 + (k * (q + 1) + v * (m - 2 ^ 32 mod m))"
    by (simp add: add_mult_distrib)
  then show ?thesis using assms(3) unfolding q_def [symmetric]
    by (intro div_nat_eqI) simp_all
qed

lemma decode_encode:
  assumes "encoder_ok cs"
  shows "cspace_decode_cap_id cs (cspace_encode_cap_id cs val) = Inr val"
proof -
  let ?m = "unat (id_mult cs)" and ?r = "ucast val * id_mult cs :: u64"
  have m: "0 < ?m" "?m < 2 ^ 16" using assms by (auto simp: encoder_ok_def)
  have v: "unat val < 2 ^ 16" using unat_lt [of val] by simp
  have le: "unat val * ?m \<le> (2 ^ 16 - 1) * (2 ^ 16 - 1)" using m v by (intro mult_mono) simp_all
  have lt: "unat val * ?m < 2 ^ 32" using le by simp
  have u: "unat (ucast val :: u64) = unat val" using v by (simp add: unsigned_ucast_eq take_bit_nat_eq_self)
  have r: "unat ?r = unat val * ?m" using le by (simp add: unat_word_ariths(2) u)
  have "unat val * (?m - 2 ^ 32 mod ?m) \<le> unat val * ?m" by simp
  then have "unat val * (?m - 2 ^ 32 mod ?m) < 2 ^ 32" using lt by (rule le_less_trans)
  then have "(unat val * ?m + 0) * (2 ^ 32 div ?m + 1) div 2 ^ 32 = unat val"
    using m lt by (intro mult_inv_nat) simp_all
  then have "cspace_decode_cap_id cs (cspace_encode_cap_id cs val) = Inr (of_nat (unat val))"
    using assms r le v by (intro decode_nat [of _ ?r])
      (simp_all add: cspace_encode_cap_id_def xor.assoc Let_def)
  then show ?thesis by simp
qed

lemma cap_value_indices:
  assumes "upper < 256" "lower < 256"
  shows "cap_value_get_upper_index (cap_value upper lower) = upper"
    and "cap_value_get_lower_index (cap_value upper lower) = lower"
proof -
  have u: "unat (of_nat upper :: u16) = upper" and l: "unat (of_nat lower :: u16) = lower"
    using assms by (simp_all add: unat_of_nat take_bit_nat_eq_self)
  have t: "take_bit 8 (of_nat upper :: u16) = of_nat upper" "take_bit 8 (of_nat lower :: u16) = of_nat lower"
    using assms u l by (simp_all add: word_unat_eq_iff unat_take_bit)
  have ff: "w AND 0xff = take_bit 8 w" for w :: u16 by (simp add: take_bit_eq_mask mask_eq_exp_minus_1)
  have "drop_bit 8 (cap_value upper lower) = take_bit 8 (of_nat upper :: u16)"
    by (rule bit_word_eqI) (auto simp: cap_value_def ff bit_simps)
  then show "cap_value_get_upper_index (cap_value upper lower) = upper"
    by (simp only: cap_value_get_upper_index_def t u)
  have "cap_value upper lower AND 0xff = take_bit 8 (of_nat lower :: u16)"
    by (rule bit_word_eqI) (auto simp: cap_value_def ff bit_simps)
  then show "cap_value_get_lower_index (cap_value upper lower) = lower"
    by (simp only: cap_value_get_lower_index_def t l)
qed

lemma indices_roundtrip:
  assumes "encoder_ok cs" "upper < CSPACE_NUM_CAP_TABLES cs" "CSPACE_NUM_CAP_TABLES cs \<le> 256" "lower < CAP_TABLE_NUM_CAP_SLOTS"
  shows "cspace_cap_id_to_indices cs (cspace_indices_to_cap_id cs upper lower) = Inr (upper, lower)"
proof -
  have "lower < 256" using assms(4) by (simp add: CAP_TABLE_NUM_CAP_SLOTS_def BITMAP_NUM_WORDS_def)
  then show ?thesis using assms
    by (simp add: cspace_cap_id_to_indices_def cspace_indices_to_cap_id_def decode_encode cap_value_indices Let_def)
qed

text \<open>The base keeps identifiers out of the reserved range, whose upper half is all ones.\<close>

lemma encode_not_reserved:
  assumes "encoder_ok cs"
  shows "drop_bit 32 (cspace_encode_cap_id cs val) \<noteq> 0xffffffff"
proof -
  let ?r = "ucast val * id_mult cs :: u64"
  have "unat (ucast val :: u64) < 2 ^ 16" using unat_lt [of val] by (simp add: unsigned_ucast_eq take_bit_nat_eq_self)
  then have "unat (ucast val :: u64) * unat (id_mult cs) \<le> (2 ^ 16 - 1) * (2 ^ 16 - 1)"
    using assms by (intro mult_mono) (simp_all add: encoder_ok_def)
  then have "unat ?r < 2 ^ 32" by (simp add: unat_word_ariths(2))
  then have "drop_bit 32 ?r = 0" by (simp add: drop_bit_eq_div word_unat_eq_iff unat_div_distrib)
  then have "drop_bit 32 (cspace_encode_cap_id cs val) = drop_bit 32 (id_rand_base cs)"
    by (simp only: cspace_encode_cap_id_def Let_def drop_bit_xor) simp
  moreover have "unat (drop_bit 32 (id_rand_base cs)) < 0xffffff00" using assms by (simp only: encoder_ok_def)
  then have "drop_bit 32 (id_rand_base cs) \<noteq> 0xffffffff" by auto
  ultimately show ?thesis by metis
qed

text \<open>
  The decoding divides by the multiplier and drops the remainder, so an identifier that was never
  handed out is accepted as well.
\<close>

lemma decode_alias:
  assumes "encoder_ok cs" "1 < unat (id_mult cs)"
  shows "cspace_decode_cap_id cs (cspace_encode_cap_id cs 0 XOR 1) = Inr 0"
proof -
  have "4294967296 div unat (id_mult cs) \<le> 4294967296 div 2" using assms(2) by (intro div_le_mono2) simp_all
  then have "unat (1 :: u64) * (2 ^ 32 div unat (id_mult cs) + 1) div 2 ^ 32 = 0" by simp
  then show ?thesis using decode_nat [of cs 1 "cspace_encode_cap_id cs 0 XOR 1" 0] assms(1)
    by (simp add: cspace_encode_cap_id_def xor.commute xor.left_commute xor.assoc)
qed

section \<open>Properties\<close>

text \<open>
  C40. Capability identifiers name their slots. With the random values any working generator delivers,
  the initialisation of a cspace returns a coding under which every pair of indices is recovered from
  its identifier, and no identifier lies in the reserved range. The comment in the code says that
  identifiers are unique; this holds for the ones that are handed out, but with a multiplier above one
  further values are decoded to the same slot.
\<close>

theorem cspace_cap_id_roundtrip:
  assumes "cspace_init_id_encoder rands cs = Some (OK, cs')" "Inl OK \<notin> set rands"
    and "CSPACE_NUM_CAP_TABLES cs \<le> 256" "upper < CSPACE_NUM_CAP_TABLES cs" "lower < CAP_TABLE_NUM_CAP_SLOTS"
  shows "cspace_cap_id_to_indices cs' (cspace_indices_to_cap_id cs' upper lower) = Inr (upper, lower) \<and>
    drop_bit 32 (cspace_indices_to_cap_id cs' upper lower) \<noteq> 0xffffffff \<and>
    (1 < unat (id_mult cs') \<longrightarrow>
      cspace_indices_to_cap_id cs' 0 0 XOR 1 \<noteq> cspace_indices_to_cap_id cs' 0 0 \<and>
      cspace_cap_id_to_indices cs' (cspace_indices_to_cap_id cs' 0 0 XOR 1) = Inr (0, 0))"
proof -
  note ok = init_encoder_ok [OF assms(1,2)]
  have n: "CSPACE_NUM_CAP_TABLES cs' = CSPACE_NUM_CAP_TABLES cs" using ok by (simp add: CSPACE_NUM_CAP_TABLES_def)
  have z: "cap_value 0 0 = 0" "cap_value_get_upper_index 0 = 0" "cap_value_get_lower_index 0 = 0"
    by (simp_all add: cap_value_def cap_value_get_upper_index_def cap_value_get_lower_index_def)
  have x: "w XOR 1 \<noteq> w" for w :: u64
  proof
    assume "w XOR 1 = w"
    then have "bit (w XOR 1) 0 \<longleftrightarrow> bit w 0" by simp
    then show False by (simp add: bit_simps)
  qed
  show ?thesis
    using ok assms n x encode_not_reserved decode_alias indices_roundtrip z
    by (auto simp: cspace_indices_to_cap_id_def cspace_cap_id_to_indices_def)
qed

theorem cspace_cap_id_roundtrip_witness:
  "\<exists>cs'. cspace_init_id_encoder [Inr 0xffffff0012345678, Inr 0x1122334455667788, Inr 0x30000]
     \<lparr>cs_partition = 0, cs_max_caps = 0, cs_cap_count = 0, cs_revoked_cap_list = 0, id_mult = 0, id_inv = 0,
       id_rand_base = 0, allocated_tables = [0], available_tables = [0], tables = [0, 0]\<rparr> = Some (OK, cs') \<and>
     cspace_cap_id_to_indices cs' (cspace_indices_to_cap_id cs' 1 5) = Inr (1, 5)"
proof -
  let ?cs = "\<lparr>cs_partition = 0, cs_max_caps = 0, cs_cap_count = 0, cs_revoked_cap_list = 0, id_mult = 0, id_inv = 0,
       id_rand_base = 0, allocated_tables = [0], available_tables = [0], tables = [0, 0]\<rparr>"
  obtain m' where m: "cspace_rand_mult_loop 0x30000 = Some m'" using rand_mult_loop_ends by blast
  obtain cs' where i: "cspace_init_id_encoder [Inr 0xffffff0012345678, Inr 0x1122334455667788, Inr 0x30000] ?cs = Some (OK, cs')"
    using m by (simp add: cspace_init_id_encoder_def Let_def)
  have "CAP_TABLE_NUM_CAP_SLOTS = 62" by code_simp
  then show ?thesis
    using cspace_cap_id_roundtrip [OF i, of 1 5] i by (auto simp: CSPACE_NUM_CAP_TABLES_def)
qed

end
