(* ===== verification/Cspace_Slots.thy ===== *)
theory Cspace_Slots
  imports Cspace_Id
begin

text \<open>
  The slots of a cspace: the bookkeeping invariant of the tables, their bitmaps and counters, and that
  the allocation and the release of a slot keep it and touch no capability.
\<close>

section \<open>Addresses\<close>

lemma SLOTS_eq: "CAP_TABLE_NUM_CAP_SLOTS = 62"
  by (simp add: CAP_TABLE_NUM_CAP_SLOTS_def BITMAP_NUM_WORDS_def)

definition is_table :: "ptr \<Rightarrow> bool" where
  "is_table t \<longleftrightarrow> t \<noteq> NULL \<and> unat t mod 2048 = 0"

lemma p2_2048: "util_is_p2 (2048 :: u64)"
  by (simp add: util_is_p2_def util_is_p2_or_zero_def)

lemma is_table_room: "is_table t \<Longrightarrow> unat t + 2048 \<le> 2 ^ 64"
proof -
  assume "is_table t"
  then have "2048 dvd unat t" by (simp add: is_table_def mod_eq_0_iff_dvd)
  then obtain q where q: "unat t = 2048 * q" by (auto simp: is_table_def elim: dvdE)
  moreover have "2048 * q < 2048 * 2 ^ 53" using q unat_lt [of t] by simp
  ultimately have "q + 1 \<le> 2 ^ 53" by simp
  then show ?thesis using q by simp
qed

lemma in_table_down:
  assumes "is_table t" "d < 2048"
  shows "util_balign_down (t + of_nat d) 2048 = t"
proof -
  have "unat (t + of_nat d) = unat t + d"
    using is_table_room [OF assms(1)] assms(2)
    by (subst unat_add_no_overflow) (simp_all add: unat_of_nat take_bit_nat_eq_self)
  moreover have "(unat t + d) div 2048 * 2048 = unat t"
    using assms by (auto simp: is_table_def mod_eq_0_iff_dvd elim!: dvdE)
  ultimately show ?thesis by (simp add: word_unat_eq_iff unat_balign_down [OF p2_2048])
qed

lemma cap_slot_offset: "cap_slot t i = t + of_nat (48 + 32 * i)"
  by (simp add: cap_slot_def add.assoc)

lemma node_offset: "cap_list_node (cap_slot t i) = t + of_nat (64 + 32 * i)"
  by (simp add: cap_slot_def cap_list_node_def algebra_simps)

lemma cap_slot_table: "is_table t \<Longrightarrow> i < 62 \<Longrightarrow> util_balign_down (cap_slot t i) 2048 = t"
  unfolding cap_slot_offset by (rule in_table_down) simp_all

lemma node_table: "is_table t \<Longrightarrow> i < 62 \<Longrightarrow> util_balign_down (cap_list_node (cap_slot t i)) 2048 = t"
  unfolding node_offset by (rule in_table_down) simp_all

lemma node_not_null: "is_table t \<Longrightarrow> i < 62 \<Longrightarrow> cap_list_node (cap_slot t i) \<noteq> NULL"
  using node_table [of t i] by (auto simp: is_table_def util_balign_down_def)

lemma node_inj [simp]: "cap_list_node a = cap_list_node b \<longleftrightarrow> a = b"
  by (simp add: cap_list_node_def)

lemma container_node [simp]: "cap_container_of_cap_list_node (cap_list_node cap) = cap"
  by (simp add: cap_container_of_cap_list_node_def cap_list_node_def)

lemma slot_diff:
  assumes "i < 62"
  shows "sint (cap_slot t i - cap_slot t 0) = 32 * int i"
proof -
  have "cap_slot t i - cap_slot t 0 = of_nat (32 * i)" by (simp add: cap_slot_def)
  moreover have "sint (of_nat (32 * i) :: u64) = int (32 * i)"
    using assms by (simp add: signed_of_nat signed_take_bit_int_eq_self del: of_nat_mult)
  ultimately show ?thesis by simp
qed

lemma cap_slot_index: "i < 62 \<Longrightarrow> cspace_get_cap_slot_index t (cap_slot t i) = Some i"
  by (simp add: cspace_get_cap_slot_index_def slot_diff SLOTS_eq)

lemma cap_slot_inj:
  assumes "is_table t" "is_table t'" "i < 62" "j < 62"
  shows "cap_slot t i = cap_slot t' j \<longleftrightarrow> t = t' \<and> i = j"
proof
  assume e: "cap_slot t i = cap_slot t' j"
  then have "t = t'" using cap_slot_table assms by metis
  then show "t = t' \<and> i = j" using e cap_slot_index assms by (metis option.inject)
qed simp

section \<open>Claiming a bit\<close>

lemma claim_none:
  "0 < n \<Longrightarrow> n \<le> 256 \<Longrightarrow> n \<le> 64 * length bm \<Longrightarrow> \<forall>i < n. bm_bit bm i \<Longrightarrow> claim_clear_bit bm n = Some (None, bm)"
proof -
  assume a: "0 < n" "n \<le> 256" "n \<le> 64 * length bm" "\<forall>i < n. bm_bit bm i"
  then have "find (\<lambda>i. \<not> bm_bit bm i) [0..<n] = None" by (auto simp: find_None_iff)
  then show ?thesis using a by (subst claim_clear_bit.simps) (simp add: bitmap_atomic_search bitmap_ffc_find)
qed

lemma claim_some:
  assumes "n \<le> 64 * length bm" "i < n" "\<not> bm_bit bm i" "n \<le> 256"
  shows "\<exists>i bm'. claim_clear_bit bm n = Some (Some i, bm') \<and> i < n \<and> \<not> bm_bit bm i \<and>
    length bm' = length bm \<and> (\<forall>j. bm_bit bm' j \<longleftrightarrow> j = i \<or> bm_bit bm j)"
proof -
  have "find (\<lambda>i. \<not> bm_bit bm i) [0..<n] \<noteq> None" using assms by (auto simp: find_None_iff)
  then obtain k where k: "find (\<lambda>i. \<not> bm_bit bm i) [0..<n] = Some k" by blast
  then have kn: "k < n" "\<not> bm_bit bm k" by (auto simp: find_Some_iff)
  obtain bm' where bm': "bitmap_set bm k = Some bm'" "length bm' = length bm" "\<forall>j. bm_bit bm' j \<longleftrightarrow> j = k \<or> bm_bit bm j"
    using bitmap_set_bit [of k bm] kn(1) assms(1) by auto
  have "bitmap_atomic_test_and_set bm k = Some (False, bm')"
    using bitmap_atomic_test_and_set_eq [of k bm] kn assms(1) bm'(1) by simp
  then have "claim_clear_bit bm n = Some (Some k, bm')"
    using k assms by (subst claim_clear_bit.simps) (simp add: bitmap_atomic_search bitmap_ffc_find)
  then show ?thesis using kn bm' by blast
qed

section \<open>The bookkeeping invariant\<close>

definition used :: "cap_table \<Rightarrow> nat set" where
  "used T = {j. j < 62 \<and> bm_bit (ct_used_slots T) j}"

text \<open>
  A table of a cspace. \<open>X\<close> is the set of slots that have been claimed and hold no capability yet, and
  \<open>E\<close> the set of tables that may be empty; between two operations both are empty.
\<close>

definition table_ok :: "ptr set \<Rightarrow> ptr set \<Rightarrow> cs_mem \<Rightarrow> ptr \<Rightarrow> nat \<Rightarrow> ptr \<Rightarrow> bool" where
  "table_ok X E s c i t \<longleftrightarrow> is_table t \<and> ct_cspace (cap_tables s t) = c \<and> ct_index (cap_tables s t) = i \<and>
    length (ct_used_slots (cap_tables s t)) = 1 \<and>
    unat (ct_cap_count (cap_tables s t)) = card (used (cap_tables s t)) \<and>
    (t \<notin> E \<longrightarrow> used (cap_tables s t) \<noteq> {}) \<and>
    (\<forall>j < 62. j \<in> used (cap_tables s t) \<longleftrightarrow> cd_state (caps s (cap_slot t j)) \<noteq> CAP_STATE_NULL \<or> cap_slot t j \<in> X) \<and>
    (\<forall>j < 62. cap_slot t j \<in> X \<longrightarrow> cd_state (caps s (cap_slot t j)) = CAP_STATE_NULL)"

definition fill :: "cs_mem \<Rightarrow> ptr \<Rightarrow> nat" where
  "fill s t = (if t = NULL then 0 else card (used (cap_tables s t)))"

definition index_ok :: "ptr set \<Rightarrow> ptr set \<Rightarrow> cs_mem \<Rightarrow> ptr \<Rightarrow> nat \<Rightarrow> bool" where
  "index_ok X E s c i \<longleftrightarrow> (let t = tables (cspaces s c) ! i
     in if t = NULL then \<not> bm_bit (allocated_tables (cspaces s c)) i \<and> \<not> bm_bit (available_tables (cspaces s c)) i
        else table_ok X E s c i t \<and> bm_bit (allocated_tables (cspaces s c)) i \<and>
          (bm_bit (available_tables (cspaces s c)) i \<longleftrightarrow> fill s t < 62))"

definition cspace_ok :: "ptr set \<Rightarrow> ptr set \<Rightarrow> cs_mem \<Rightarrow> ptr \<Rightarrow> bool" where
  "cspace_ok X E s c \<longleftrightarrow> (let k = cspaces s c; N = length (tables k)
     in 0 < N \<and> N \<le> 256 \<and> N \<le> 64 * length (allocated_tables k) \<and> N \<le> 64 * length (available_tables k) \<and>
        encoder_ok k \<and> unat (cs_cap_count k) \<le> unat (cs_max_caps k) \<and> unat (cs_max_caps k) \<le> 62 * N \<and>
        unat (cs_cap_count k) = (\<Sum>i < N. fill s (tables k ! i)) \<and> (\<forall>i < N. index_ok X E s c i))"

lemma used_le: "card (used T) \<le> 62" "finite (used T)"
proof -
  have "used T \<subseteq> {..<62}" by (auto simp: used_def)
  then show "finite (used T)" "card (used T) \<le> 62"
    using finite_subset card_mono [of "{..<62}" "used T"] by auto
qed

text \<open>Changes that do not concern the cspace.\<close>

lemma table_ok_cong:
  assumes "table_ok X E s c i t" "cap_tables s' t = cap_tables s t"
    "\<And>j. j < 62 \<Longrightarrow> caps s' (cap_slot t j) = caps s (cap_slot t j) \<and> (cap_slot t j \<in> X' \<longleftrightarrow> cap_slot t j \<in> X)"
    "t \<in> E \<longrightarrow> t \<in> E' \<or> used (cap_tables s t) \<noteq> {}"
  shows "table_ok X' E' s' c i t"
  using assms unfolding table_ok_def by auto

lemma cspace_ok_cong:
  assumes ok: "cspace_ok X E s c" and k: "cspaces s' c = cspaces s c"
    and t: "\<And>t. t \<in> set (tables (cspaces s c)) \<Longrightarrow> t \<noteq> NULL \<Longrightarrow> cap_tables s' t = cap_tables s t \<and>
      (\<forall>j < 62. caps s' (cap_slot t j) = caps s (cap_slot t j) \<and> (cap_slot t j \<in> X' \<longleftrightarrow> cap_slot t j \<in> X)) \<and>
      (t \<in> E \<longrightarrow> t \<in> E' \<or> used (cap_tables s t) \<noteq> {})"
  shows "cspace_ok X' E' s' c"
proof -
  let ?T = "tables (cspaces s c)"
  have f: "fill s' (?T ! i) = fill s (?T ! i)" if "i < length ?T" for i
    using t [of "?T ! i"] that by (simp add: fill_def)
  have "index_ok X' E' s' c i" if i: "i < length ?T" for i
  proof -
    have "index_ok X E s c i" using ok i by (simp add: cspace_ok_def Let_def)
    then show ?thesis
      using t [of "?T ! i"] i f [OF i] k by (auto simp: index_ok_def Let_def intro: table_ok_cong [of X E s])
  qed
  then show ?thesis using ok k f by (simp add: cspace_ok_def Let_def)
qed

lemma cspace_ok_index:
  "cspace_ok X E s c \<Longrightarrow> i < length (tables (cspaces s c)) \<Longrightarrow> index_ok X E s c i"
  by (simp add: cspace_ok_def Let_def)

lemma cspace_ok_table:
  "cspace_ok X E s c \<Longrightarrow> t \<in> set (tables (cspaces s c)) \<Longrightarrow> t \<noteq> NULL \<Longrightarrow>
    \<exists>i < length (tables (cspaces s c)). tables (cspaces s c) ! i = t \<and> table_ok X E s c i t"
  using cspace_ok_index [of X E s c] by (auto simp: in_set_conv_nth index_ok_def Let_def)

text \<open>The tables of a cspace are pairwise different, and different from those of other cspaces.\<close>

lemma tables_apart:
  assumes "cspace_ok X E s c" "cspace_ok X' E' s c'" "i < length (tables (cspaces s c))" "j < length (tables (cspaces s c'))"
    "tables (cspaces s c) ! i = tables (cspaces s c') ! j" "tables (cspaces s c) ! i \<noteq> NULL"
  shows "c = c' \<and> i = j"
  using cspace_ok_index [OF assms(1,3)] cspace_ok_index [OF assms(2,4)] assms(5,6)
  by (auto simp: index_ok_def table_ok_def Let_def)

text \<open>One index of a cspace changes; the sum of the fill levels follows.\<close>

lemma sum_update:
  fixes f g :: "nat \<Rightarrow> nat"
  assumes "i < n" "\<And>j. j < n \<Longrightarrow> j \<noteq> i \<Longrightarrow> g j = f j"
  shows "(\<Sum>j < n. g j) + f i = (\<Sum>j < n. f j) + g i"
proof -
  have "(\<Sum>j < n. f j) = f i + (\<Sum>j \<in> {..<n} - {i}. f j)" "(\<Sum>j < n. g j) = g i + (\<Sum>j \<in> {..<n} - {i}. g j)"
    using assms(1) by (simp_all add: sum.remove)
  moreover have "(\<Sum>j \<in> {..<n} - {i}. g j) = (\<Sum>j \<in> {..<n} - {i}. f j)"
    using assms(2) by (intro sum.cong) auto
  ultimately show ?thesis by simp
qed

lemma cspace_ok_update:
  assumes ok: "cspace_ok X E s c" and i: "i < length (tables (cspaces s c))"
    and k: "length (tables (cspaces s' c)) = length (tables (cspaces s c))"
      "\<And>j. j \<noteq> i \<Longrightarrow> tables (cspaces s' c) ! j = tables (cspaces s c) ! j"
      "length (allocated_tables (cspaces s' c)) = length (allocated_tables (cspaces s c))"
      "length (available_tables (cspaces s' c)) = length (available_tables (cspaces s c))"
      "\<And>j. j \<noteq> i \<Longrightarrow> bm_bit (allocated_tables (cspaces s' c)) j = bm_bit (allocated_tables (cspaces s c)) j"
      "\<And>j. j \<noteq> i \<Longrightarrow> bm_bit (available_tables (cspaces s' c)) j = bm_bit (available_tables (cspaces s c)) j"
      "encoder_ok (cspaces s' c)" "cs_max_caps (cspaces s' c) = cs_max_caps (cspaces s c)"
    and t: "\<And>j. j < length (tables (cspaces s c)) \<Longrightarrow> j \<noteq> i \<Longrightarrow> tables (cspaces s c) ! j \<noteq> NULL \<Longrightarrow>
      (let t = tables (cspaces s c) ! j in cap_tables s' t = cap_tables s t \<and>
        (\<forall>l < 62. caps s' (cap_slot t l) = caps s (cap_slot t l) \<and> (cap_slot t l \<in> X' \<longleftrightarrow> cap_slot t l \<in> X)) \<and>
        (t \<in> E \<longrightarrow> t \<in> E'))"
    and new: "index_ok X' E' s' c i" "unat (cs_cap_count (cspaces s' c)) \<le> unat (cs_max_caps (cspaces s c))"
      "unat (cs_cap_count (cspaces s' c)) + fill s (tables (cspaces s c) ! i) =
        unat (cs_cap_count (cspaces s c)) + fill s' (tables (cspaces s' c) ! i)"
  shows "cspace_ok X' E' s' c"
proof -
  let ?N = "length (tables (cspaces s c))"
  have f: "fill s' (tables (cspaces s' c) ! j) = fill s (tables (cspaces s c) ! j)" if "j < ?N" "j \<noteq> i" for j
    using t [OF that] k(2) [OF that(2)] by (simp add: fill_def Let_def)
  have "index_ok X' E' s' c j" if j: "j < ?N" for j
  proof (cases "j = i")
    case False
    then show ?thesis
      using cspace_ok_index [OF ok j] t [OF j False] k(2,5,6) [OF False] f [OF j False]
      by (auto simp: index_ok_def Let_def intro: table_ok_cong [of X E s])
  qed (simp add: new)
  moreover have "(\<Sum>j < ?N. fill s' (tables (cspaces s' c) ! j)) + fill s (tables (cspaces s c) ! i) =
      (\<Sum>j < ?N. fill s (tables (cspaces s c) ! j)) + fill s' (tables (cspaces s' c) ! i)"
    using i f by (rule sum_update)
  ultimately show ?thesis using ok k new by (simp add: cspace_ok_def Let_def del: length_greater_0_conv)
qed

section \<open>Taking a slot\<close>

definition slot_at :: "cs_mem \<Rightarrow> ptr \<Rightarrow> nat \<Rightarrow> nat \<Rightarrow> ptr" where
  "slot_at s c i j = cap_slot (tables (cspaces s c) ! i) j"

text \<open>The capability at a pair of indices of a cspace.\<close>

definition cap_at :: "cs_mem \<Rightarrow> ptr \<Rightarrow> nat \<Rightarrow> nat \<Rightarrow> cap_data option" where
  "cap_at s c i j =
    (if i < length (tables (cspaces s c)) \<and> tables (cspaces s c) ! i \<noteq> NULL \<and> j < 62 \<and>
       cd_state (caps s (slot_at s c i j)) \<noteq> CAP_STATE_NULL
     then Some (caps s (slot_at s c i j)) else None)"

definition set_books :: "ptr \<Rightarrow> ptr \<Rightarrow> cspace \<Rightarrow> cap_table \<Rightarrow> cs_mem \<Rightarrow> cs_mem" where
  "set_books c t k T s = s\<lparr>cspaces := (cspaces s)(c := k), cap_tables := (cap_tables s)(t := T)\<rparr>"

lemma unat_Suc: "unat (w :: 'a::len word) + 1 < 2 ^ LENGTH('a) \<Longrightarrow> unat (w + 1) = unat w + 1"
  by (subst unat_add_no_overflow) simp_all

lemma take_slot:
  assumes ok: "cspace_ok {} {t} s c" and i: "i < length (tables (cspaces s c))" "tables (cspaces s c) ! i = t" "t \<noteq> NULL"
    and room: "fill s t < 62" "unat (cs_cap_count (cspaces s c)) < unat (cs_max_caps (cspaces s c))"
  shows "\<exists>j k T s'. j < 62 \<and> cap_at s c i j = None \<and>
    Option.bind (cspace_count_cap c t i s) (cspace_claim_cap_slot c t i) =
      Some ((cap_slot t j, cspace_indices_to_cap_id (cspaces s c) i j), s') \<and>
    s' = set_books c t k T s \<and> cspace_ok {cap_slot t j} {} s' c \<and>
    (\<exists>n av. k = (cspaces s c)\<lparr>cs_cap_count := n, available_tables := av\<rparr>) \<and>
    (\<exists>n u. T = (cap_tables s t)\<lparr>ct_cap_count := n, ct_used_slots := u\<rparr>)"
proof -
  define k T where "k = cspaces s c" and "T = cap_tables s t"
  have idx: "table_ok {} {t} s c i t" "bm_bit (allocated_tables k) i" "bm_bit (available_tables k) i"
    using cspace_ok_index [OF ok i(1)] i room(1) by (auto simp: index_ok_def Let_def k_def)
  have T: "is_table t" "length (ct_used_slots T) = 1" "unat (ct_cap_count T) = card (used T)" "card (used T) < 62"
    using idx(1) room(1) i(3) by (auto simp: table_ok_def T_def fill_def)
  have len: "i < 64 * length (available_tables k)" using ok i(1) by (auto simp: cspace_ok_def Let_def k_def)
  have "\<exists>j < 62. \<not> bm_bit (ct_used_slots T) j"
  proof (rule ccontr)
    assume "\<not> ?thesis"
    then have "used T = {..<62}" by (auto simp: used_def)
    then show False using T(4) by simp
  qed
  then obtain j0 where "j0 < 62" "\<not> bm_bit (ct_used_slots T) j0" by blast
  then obtain j bm where j: "claim_clear_bit (ct_used_slots T) 62 = Some (Some j, bm)" "j < 62"
      "\<not> bm_bit (ct_used_slots T) j" "length bm = 1" "\<forall>l. bm_bit bm l \<longleftrightarrow> l = j \<or> bm_bit (ct_used_slots T) l"
    using claim_some [of 62 "ct_used_slots T" j0] T(2) by auto
  have n1: "unat (ct_cap_count T + 1) = card (used T) + 1" using T by (subst unat_Suc) simp_all
  then have n2: "ct_cap_count T + 1 = of_nat 62 \<longleftrightarrow> card (used T) = 61" by (auto simp: word_unat_eq_iff)
  obtain av where av: "bitmap_clear (available_tables k) i = Some av" "length av = length (available_tables k)"
      "\<forall>l. bm_bit av l \<longleftrightarrow> l \<noteq> i \<and> bm_bit (available_tables k) l"
    using bitmap_clear_bit [OF len] by blast
  define av' where "av' = (if card (used T) = 61 then av else available_tables k)"
  define k' T' where "k' = k\<lparr>cs_cap_count := cs_cap_count k + 1, available_tables := av'\<rparr>"
    and "T' = T\<lparr>ct_cap_count := ct_cap_count T + 1, ct_used_slots := bm\<rparr>"
  define s' where "s' = set_books c t k' T' s"
  have run: "Option.bind (cspace_count_cap c t i s) (cspace_claim_cap_slot c t i) =
      Some ((cap_slot t j, cspace_indices_to_cap_id k i j), s')"
  proof -
    have "cspace_indices_to_cap_id k' i j = cspace_indices_to_cap_id k i j"
      by (simp add: k'_def cspace_indices_to_cap_id_def cspace_encode_cap_id_def)
    moreover have "cspace_count_cap c t i s =
        Some (set_books c t k' (T\<lparr>ct_cap_count := ct_cap_count T + 1\<rparr>) s)"
      using n2 av(1) by (simp add: cspace_count_cap_def upd_table_def upd_cspace_def SLOTS_eq Let_def set_books_def
          k'_def av'_def k_def T_def)
    ultimately show ?thesis using j(1)
      by (simp add: cspace_claim_cap_slot_def SLOTS_eq set_books_def upd_table_def s'_def T'_def T_def)
  qed
  have used': "used T' = insert j (used T)" using j(2,5) by (auto simp: used_def T'_def)
  have jn: "j \<notin> used T" using j(3) by (simp add: used_def)
  have card': "card (used T') = card (used T) + 1" using used' jn used_le(2) by simp
  have st: "cd_state (caps s (cap_slot t j)) = CAP_STATE_NULL"
    using idx(1) jn j(2) by (auto simp: table_ok_def T_def)
  have "table_ok {cap_slot t j} {} s' c i t"
    using idx(1) T n1 card' used' j(2,4) st cap_slot_inj [OF T(1) T(1)]
    by (auto simp: table_ok_def s'_def set_books_def T_def [symmetric]) (auto simp: T'_def)
  then have "index_ok {cap_slot t j} {} s' c i"
    using i idx(2,3) av(3) card' T(4)
    by (auto simp: index_ok_def s'_def set_books_def k'_def k_def [symmetric] fill_def av'_def Let_def)
  moreover have "unat (cs_cap_count k + 1) = unat (cs_cap_count k) + 1"
    using room(2) unat_lt [of "cs_max_caps k"] by (intro unat_Suc) (simp add: k_def)
  ultimately have "cspace_ok {cap_slot t j} {} s' c"
  proof (intro cspace_ok_update [OF ok i(1)])
    fix l assume l: "l < length (tables (cspaces s c))" "l \<noteq> i" "tables (cspaces s c) ! l \<noteq> NULL"
    let ?t = "tables (cspaces s c) ! l"
    have ne: "?t \<noteq> t" using tables_apart [OF ok ok l(1) i(1)] l i by auto
    have "is_table ?t" using cspace_ok_index [OF ok l(1)] l(3) by (auto simp: index_ok_def table_ok_def Let_def)
    then have "\<forall>m < 62. cap_slot ?t m \<noteq> cap_slot t j" using cap_slot_inj [OF _ T(1) _ j(2)] ne by blast
    then show "let u = ?t in cap_tables s' u = cap_tables s u \<and> (\<forall>m < 62. caps s' (cap_slot u m) = caps s (cap_slot u m) \<and>
        (cap_slot u m \<in> {cap_slot t j} \<longleftrightarrow> cap_slot u m \<in> {})) \<and> (u \<in> {t} \<longrightarrow> u \<in> {})"
      using ne i by (simp add: s'_def set_books_def Let_def)
  next
    show "encoder_ok (cspaces s' c)" using ok
      by (simp add: cspace_ok_def Let_def s'_def set_books_def k'_def k_def encoder_ok_def)
  qed (use av room card' T i in \<open>auto simp: s'_def set_books_def k'_def av'_def k_def fill_def T_def\<close>)
  moreover have "cap_at s c i j = None" using st i by (simp add: cap_at_def slot_at_def)
  ultimately show ?thesis using run j(2) unfolding s'_def k'_def T'_def k_def T_def by blast
qed

end
