(* ===== verification/Cspace_Alloc.thy ===== *)
theory Cspace_Alloc
  imports Cspace_Slots
begin

text \<open>
  The allocation and the release of a slot as a whole: with and without a new table, for all cspaces
  at once.
\<close>

section \<open>A new table\<close>

lemma bitmap_eqI:
  assumes "length bm = length bm'" "\<And>i. i < 64 * length bm \<Longrightarrow> bm_bit bm i = bm_bit bm' i"
  shows "bm = bm'"
proof (rule nth_equalityI [OF assms(1)])
  fix w assume w: "w < length bm"
  show "bm ! w = bm' ! w"
  proof (rule bit_word_eqI)
    fix n assume "n < LENGTH(64)"
    then show "bit (bm ! w) n = bit (bm' ! w) n"
      using assms(2) [of "64 * w + n"] w by (simp add: bm_bit_def)
  qed
qed

lemma free_index:
  assumes ok: "cspace_ok X {} s c" and full: "\<forall>i < length (tables (cspaces s c)). \<not> bm_bit (available_tables (cspaces s c)) i"
    and room: "unat (cs_cap_count (cspaces s c)) < unat (cs_max_caps (cspaces s c))"
  shows "\<exists>i < length (tables (cspaces s c)). \<not> bm_bit (allocated_tables (cspaces s c)) i"
proof (rule ccontr)
  let ?N = "length (tables (cspaces s c))"
  assume a: "\<not> ?thesis"
  have "fill s (tables (cspaces s c) ! i) = 62" if i: "i < ?N" for i
  proof -
    have "tables (cspaces s c) ! i \<noteq> NULL" "\<not> fill s (tables (cspaces s c) ! i) < 62"
      using cspace_ok_index [OF ok i] full i a by (auto simp: index_ok_def Let_def split: if_splits)
    then show ?thesis using used_le(1) [of "cap_tables s (tables (cspaces s c) ! i)"] by (simp add: fill_def)
  qed
  then have "unat (cs_cap_count (cspaces s c)) = 62 * ?N" using ok by (simp add: cspace_ok_def Let_def)
  then show False using ok room by (simp add: cspace_ok_def Let_def)
qed

lemma claim_table:
  assumes ok: "cspace_ok X {} s c" and full: "\<forall>i < length (tables (cspaces s c)). \<not> bm_bit (available_tables (cspaces s c)) i"
    and room: "unat (cs_cap_count (cspaces s c)) < unat (cs_max_caps (cspaces s c))"
  shows "\<exists>i bm. claim_clear_bit (allocated_tables (cspaces s c)) (CSPACE_NUM_CAP_TABLES (cspaces s c)) = Some (Some i, bm) \<and>
    i < length (tables (cspaces s c)) \<and> \<not> bm_bit (allocated_tables (cspaces s c)) i \<and> tables (cspaces s c) ! i = NULL \<and>
    length bm = length (allocated_tables (cspaces s c)) \<and>
    (\<forall>j. bm_bit bm j \<longleftrightarrow> j = i \<or> bm_bit (allocated_tables (cspaces s c)) j)"
proof -
  let ?k = "cspaces s c"
  obtain i0 where "i0 < length (tables ?k)" "\<not> bm_bit (allocated_tables ?k) i0" using free_index [OF assms] by blast
  moreover have "length (tables ?k) \<le> 64 * length (allocated_tables ?k)" "length (tables ?k) \<le> 256" using ok by (simp_all add: cspace_ok_def Let_def)
  ultimately obtain i bm where i: "claim_clear_bit (allocated_tables ?k) (CSPACE_NUM_CAP_TABLES ?k) = Some (Some i, bm)"
      "i < length (tables ?k)" "\<not> bm_bit (allocated_tables ?k) i" "length bm = length (allocated_tables ?k)"
      "\<forall>j. bm_bit bm j \<longleftrightarrow> j = i \<or> bm_bit (allocated_tables ?k) j"
    using claim_some [of "length (tables ?k)" "allocated_tables ?k" i0] by (auto simp: CSPACE_NUM_CAP_TABLES_def)
  moreover have "tables ?k ! i = NULL"
    using cspace_ok_index [OF ok i(2)] i(3) by (auto simp: index_ok_def Let_def split: if_splits)
  ultimately show ?thesis by blast
qed

text \<open>No memory: the bit is given back and nothing has changed.\<close>

lemma allocate_table_nomem:
  assumes "cspace_ok X {} s c" "\<forall>i < length (tables (cspaces s c)). \<not> bm_bit (available_tables (cspaces s c)) i"
    "unat (cs_cap_count (cspaces s c)) < unat (cs_max_caps (cspaces s c))"
  shows "cspace_allocate_cap_table c (Inl e) s = Some (Inl ERROR_NOMEM, s)"
proof -
  let ?k = "cspaces s c"
  obtain i bm where i: "claim_clear_bit (allocated_tables ?k) (CSPACE_NUM_CAP_TABLES ?k) = Some (Some i, bm)"
      "i < length (tables ?k)" "\<not> bm_bit (allocated_tables ?k) i" "length bm = length (allocated_tables ?k)"
      "\<forall>j. bm_bit bm j \<longleftrightarrow> j = i \<or> bm_bit (allocated_tables ?k) j"
    using claim_table [OF assms] by blast
  have len: "i < 64 * length bm" using assms(1) i(2,4) by (auto simp: cspace_ok_def Let_def)
  obtain bm' where bm': "bitmap_clear bm i = Some bm'" "length bm' = length bm" "\<forall>j. bm_bit bm' j \<longleftrightarrow> j \<noteq> i \<and> bm_bit bm j"
    using bitmap_clear_bit [OF len] by blast
  have "bm' = allocated_tables ?k" using bm' i by (intro bitmap_eqI) auto
  then show ?thesis using i(1) bm'(1) bitmap_atomic_test_and_clear_eq [OF len]
    by (simp add: cspace_allocate_cap_table_def upd_cspace_def Let_def)
qed

definition new_table_state :: "ptr \<Rightarrow> ptr \<Rightarrow> nat \<Rightarrow> bitmap \<Rightarrow> bitmap \<Rightarrow> cs_mem \<Rightarrow> cs_mem" where
  "new_table_state c p i al av s = (let P = cs_partition (cspaces s c) in s\<lparr>
     headers := (headers s)(P := (headers s P)\<lparr>oh_refcount := oh_refcount (headers s P) + 1\<rparr>),
     cspaces := (cspaces s)(c := (cspaces s c)\<lparr>allocated_tables := al, tables := (tables (cspaces s c))[i := p],
       available_tables := av\<rparr>),
     cap_tables := (cap_tables s)(p := \<lparr>ct_cspace = c, ct_partition = P, ct_index = i, ct_cap_count = 0, ct_used_slots = [0]\<rparr>),
     caps := (\<lambda>cap. if util_balign_down cap 2048 = p then null_cap_data else caps s cap),
     list_nodes := (\<lambda>n. if util_balign_down n 2048 = p then \<lparr>ln_next = 0, ln_prev = 0\<rparr> else list_nodes s n)\<rparr>)"

lemma new_table:
  assumes ok: "cspace_ok X {} s c" "\<forall>i < length (tables (cspaces s c)). \<not> bm_bit (available_tables (cspaces s c)) i"
    "unat (cs_cap_count (cspaces s c)) < unat (cs_max_caps (cspaces s c))"
    and p: "is_table p" "p \<notin> set (tables (cspaces s c))" "0 < oh_refcount (headers s (cs_partition (cspaces s c)))"
    and X: "\<forall>j < 62. cap_slot p j \<notin> X"
  shows "\<exists>i al av s1. i < length (tables (cspaces s c)) \<and> tables (cspaces s c) ! i = NULL \<and>
    cspace_allocate_cap_table c (Inr p) s = Some (Inr (p, i), s1) \<and>
    cspace_attach_cap_table c p i s1 = Some (new_table_state c p i al av s) \<and>
    cspace_ok X {p} (new_table_state c p i al av s) c"
proof -
  define k where "k = cspaces s c"
  obtain i al where i: "claim_clear_bit (allocated_tables k) (CSPACE_NUM_CAP_TABLES k) = Some (Some i, al)"
      "i < length (tables k)" "\<not> bm_bit (allocated_tables k) i" "tables k ! i = NULL"
      "length al = length (allocated_tables k)" "\<forall>j. bm_bit al j \<longleftrightarrow> j = i \<or> bm_bit (allocated_tables k) j"
    using claim_table [OF ok] unfolding k_def by blast
  have len: "i < 64 * length (available_tables k)" using ok(1) i(2) by (auto simp: cspace_ok_def Let_def k_def)
  obtain av where av: "bitmap_set (available_tables k) i = Some av" "length av = length (available_tables k)"
      "\<forall>j. bm_bit av j \<longleftrightarrow> j = i \<or> bm_bit (available_tables k) j"
    using bitmap_set_bit [OF len] by blast
  define s' where "s' = new_table_state c p i al av s"
  define s1 where "s1 = s'\<lparr>cspaces := (cspaces s)(c := k\<lparr>allocated_tables := al\<rparr>)\<rparr>"
  have bits: "replicate (BITMAP_NUM_WORDS CAP_TABLE_NUM_CAP_SLOTS) (0 :: u64) = [0]"
    by (simp add: SLOTS_eq BITMAP_NUM_WORDS_def)
  have run1: "cspace_allocate_cap_table c (Inr p) s = Some (Inr (p, i), s1)"
    using i(1) p(3)
    by (simp add: cspace_allocate_cap_table_def k_def s1_def s'_def new_table_state_def object_get_additional_def
        refcount_get_additional_def set_refcount_def clear_cap_table_def upd_cspace_def upd_table_def bits Let_def)
      (rule cs_mem.equality, simp_all add: fun_eq_iff)
  have run2: "cspace_attach_cap_table c p i s1 = Some s'"
    using av(1) by (simp add: cspace_attach_cap_table_def s1_def upd_cspace_def s'_def new_table_state_def k_def Let_def)
  have used0: "used (cap_tables s' p) = {}"
    by (auto simp: used_def s'_def new_table_state_def bm_bit_def Let_def)
  have pn: "p \<noteq> NULL" using p(1) by (simp add: is_table_def)
  have "table_ok X {p} s' c i p"
    using used0 p(1) X cap_slot_table [OF p(1)]
    by (auto simp: table_ok_def s'_def new_table_state_def null_cap_data_def Let_def)
  then have "index_ok X {p} s' c i"
    using pn i(2,6) av(3) used0
    by (simp add: index_ok_def Let_def fill_def) (simp add: s'_def new_table_state_def k_def Let_def)
  then have "cspace_ok X {p} s' c"
  proof (intro cspace_ok_update [OF ok(1) i(2) [unfolded k_def]])
    fix l assume l: "l < length (tables (cspaces s c))" "l \<noteq> i" "tables (cspaces s c) ! l \<noteq> NULL"
    let ?t = "tables (cspaces s c) ! l"
    have t: "is_table ?t" using cspace_ok_index [OF ok(1) l(1)] l(3) by (auto simp: index_ok_def table_ok_def Let_def)
    have ne: "?t \<noteq> p" using p(2) l(1) by auto
    show "let u = ?t in cap_tables s' u = cap_tables s u \<and> (\<forall>m < 62. caps s' (cap_slot u m) = caps s (cap_slot u m) \<and>
        (cap_slot u m \<in> X \<longleftrightarrow> cap_slot u m \<in> X)) \<and> (u \<in> {} \<longrightarrow> u \<in> {p})"
      using ne cap_slot_table [OF t] by (simp add: s'_def new_table_state_def Let_def)
  next
    show "encoder_ok (cspaces s' c)" using ok
      by (simp add: cspace_ok_def Let_def s'_def new_table_state_def encoder_ok_def)
    show "unat (cs_cap_count (cspaces s' c)) + fill s (tables (cspaces s c) ! i) =
        unat (cs_cap_count (cspaces s c)) + fill s' (tables (cspaces s' c) ! i)"
      using i(2,4) pn used0 by (simp add: fill_def k_def) (simp add: s'_def new_table_state_def k_def Let_def)
  qed (use ok(3) av i in \<open>auto simp: s'_def new_table_state_def k_def Let_def\<close>)
  then show ?thesis using run1 run2 i(2,4) unfolding s'_def k_def by blast
qed

section \<open>Allocation\<close>

text \<open>The fields of a cspace that the bookkeeping never changes.\<close>

definition static_eq :: "cspace \<Rightarrow> cspace \<Rightarrow> bool" where
  "static_eq k k' \<longleftrightarrow> cs_partition k' = cs_partition k \<and> cs_max_caps k' = cs_max_caps k \<and>
    cs_revoked_cap_list k' = cs_revoked_cap_list k \<and> id_mult k' = id_mult k \<and> id_inv k' = id_inv k \<and>
    id_rand_base k' = id_rand_base k \<and> length (tables k') = length (tables k)"

text \<open>
  The capabilities are the same and at the same addresses. The tables of the cspaces are among the old
  ones and \<open>P\<close>, the memory that was available for a new one.
\<close>

definition same_caps :: "ptr set \<Rightarrow> ptr set \<Rightarrow> cs_mem \<Rightarrow> cs_mem \<Rightarrow> bool" where
  "same_caps P Cs s s' \<longleftrightarrow> (\<forall>c \<in> Cs. static_eq (cspaces s c) (cspaces s' c) \<and>
     set (tables (cspaces s' c)) \<subseteq> set (tables (cspaces s c)) \<union> P \<union> {NULL} \<and>
     (\<forall>i j. cap_at s' c i j = cap_at s c i j \<and> (cap_at s c i j \<noteq> None \<longrightarrow> slot_at s' c i j = slot_at s c i j)))"

lemma static_eq_refl [simp]: "static_eq k k"
  by (simp add: static_eq_def)

lemma static_eq_trans: "static_eq k k' \<Longrightarrow> static_eq k' k'' \<Longrightarrow> static_eq k k''"
  by (simp add: static_eq_def)

lemma same_caps_refl [simp]: "same_caps P Cs s s"
  by (auto simp: same_caps_def)

lemma same_caps_trans:
  assumes "same_caps P Cs s s'" "same_caps {} Cs s' s''"
  shows "same_caps P Cs s s''"
  unfolding same_caps_def
proof (intro ballI conjI allI impI)
  fix c i j assume c: "c \<in> Cs"
  show "static_eq (cspaces s c) (cspaces s'' c)" using assms c static_eq_trans by (fastforce simp: same_caps_def)
  show "set (tables (cspaces s'' c)) \<subseteq> set (tables (cspaces s c)) \<union> P \<union> {NULL}"
    using assms c by (fastforce simp: same_caps_def)
  show "cap_at s'' c i j = cap_at s c i j" using assms c by (simp add: same_caps_def)
  assume "cap_at s c i j \<noteq> None"
  then show "slot_at s'' c i j = slot_at s c i j" using assms c by (simp add: same_caps_def)
qed

text \<open>What the caller of \<^verbatim>\<open>partition_alloc\<close> relies on: aligned memory that is not in use.\<close>

definition alloc_ok :: "ptr set \<Rightarrow> cs_mem \<Rightarrow> ptr \<Rightarrow> ptr result \<Rightarrow> bool" where
  "alloc_ok Cs s c alloc \<longleftrightarrow> (\<forall>p. alloc = Inr p \<longrightarrow> is_table p \<and> (\<forall>c \<in> Cs. p \<notin> set (tables (cspaces s c)))) \<and>
    0 < unat (oh_refcount (headers s (cs_partition (cspaces s c)))) \<and>
    unat (oh_refcount (headers s (cs_partition (cspaces s c)))) + 1 < 2 ^ 32"

definition fresh_tables :: "ptr result \<Rightarrow> ptr set" where
  "fresh_tables alloc = {p. alloc = Inr p}"

text \<open>A slot has been taken: it holds no capability yet, and only the bookkeeping has changed.\<close>

definition taken :: "ptr set \<Rightarrow> ptr \<Rightarrow> ptr result \<Rightarrow> cs_mem \<Rightarrow> nat \<Rightarrow> nat \<Rightarrow> cs_mem \<Rightarrow> bool" where
  "taken Cs c alloc s i j s' \<longleftrightarrow> i < length (tables (cspaces s c)) \<and> tables (cspaces s' c) ! i \<noteq> NULL \<and> j < 62 \<and>
    cap_at s c i j = None \<and> (\<forall>c' \<in> Cs. cspace_ok {slot_at s' c i j} {} s' c') \<and> same_caps (fresh_tables alloc) Cs s s' \<and>
    (\<forall>q. oh_cap_list (headers s' q) = oh_cap_list (headers s q) \<and> oh_state (headers s' q) = oh_state (headers s q) \<and>
      (q \<noteq> cs_partition (cspaces s c) \<longrightarrow> headers s' q = headers s q) \<and>
      unat (oh_refcount (headers s q)) \<le> unat (oh_refcount (headers s' q))) \<and>
    (\<forall>n. util_balign_down n 2048 \<notin> fresh_tables alloc \<longrightarrow> list_nodes s' n = list_nodes s n) \<and>
    obj_log s' = obj_log s \<and> thread_cspace s' = thread_cspace s"

lemma table_elsewhere:
  "cspace_ok X E s c' \<Longrightarrow> c' \<noteq> c \<Longrightarrow> ct_cspace (cap_tables s t) = c \<Longrightarrow> t \<notin> set (tables (cspaces s c')) \<or> t = NULL"
  using cspace_ok_table [of X E s c' t] by (auto simp: table_ok_def)

lemma ok_other:
  assumes "cspace_ok X E s c'" "c' \<noteq> c" "ct_cspace (cap_tables s t) = c \<or> t \<notin> set (tables (cspaces s c'))"
    "\<And>c''. c'' \<noteq> c \<Longrightarrow> cspaces s' c'' = cspaces s c''" "\<And>u. u \<noteq> t \<Longrightarrow> cap_tables s' u = cap_tables s u"
    "\<And>cap. util_balign_down cap 2048 \<noteq> t \<Longrightarrow> caps s' cap = caps s cap"
    "\<And>u j. is_table u \<Longrightarrow> j < 62 \<Longrightarrow> u \<noteq> t \<Longrightarrow> cap_slot u j \<in> X' \<longleftrightarrow> cap_slot u j \<in> X" "E - {t} \<subseteq> E'"
  shows "cspace_ok X' E' s' c'"
proof -
  have n: "t \<notin> set (tables (cspaces s c')) \<or> t = NULL" using table_elsewhere [OF assms(1,2)] assms(3) by blast
  show "cspace_ok X' E' s' c'"
  proof (rule cspace_ok_cong [OF assms(1) assms(4) [OF assms(2)]])
    fix u assume u: "u \<in> set (tables (cspaces s c'))" "u \<noteq> NULL"
    then have ne: "u \<noteq> t" and t: "is_table u" using n cspace_ok_table [OF assms(1) u] by (auto simp: table_ok_def)
    show "cap_tables s' u = cap_tables s u \<and> (\<forall>j < 62. caps s' (cap_slot u j) = caps s (cap_slot u j) \<and>
        (cap_slot u j \<in> X' \<longleftrightarrow> cap_slot u j \<in> X)) \<and> (u \<in> E \<longrightarrow> u \<in> E' \<or> used (cap_tables s u) \<noteq> {})"
      using ne assms(5,6,8) assms(7) [OF t] cap_slot_table [OF t] by auto
  qed
qed

lemma same_caps_cspace:
  assumes "\<And>c'. c' \<noteq> c \<Longrightarrow> cspaces s' c' = cspaces s c'" "static_eq (cspaces s c) (cspaces s' c)"
    "set (tables (cspaces s' c)) \<subseteq> set (tables (cspaces s c)) \<union> P \<union> {NULL}"
    "\<And>c' i j. c' \<in> Cs \<Longrightarrow> c' \<noteq> c \<Longrightarrow> tables (cspaces s c') ! i \<noteq> NULL \<Longrightarrow> i < length (tables (cspaces s c')) \<Longrightarrow> j < 62 \<Longrightarrow>
      caps s' (slot_at s c' i j) = caps s (slot_at s c' i j)"
    "\<And>i j. cap_at s' c i j = cap_at s c i j" "\<And>i j. cap_at s c i j \<noteq> None \<Longrightarrow> slot_at s' c i j = slot_at s c i j"
  shows "same_caps P Cs s s'"
  unfolding same_caps_def
proof (intro ballI)
  fix c' assume c': "c' \<in> Cs"
  show "static_eq (cspaces s c') (cspaces s' c') \<and> set (tables (cspaces s' c')) \<subseteq> set (tables (cspaces s c')) \<union> P \<union> {NULL} \<and>
     (\<forall>i j. cap_at s' c' i j = cap_at s c' i j \<and> (cap_at s c' i j \<noteq> None \<longrightarrow> slot_at s' c' i j = slot_at s c' i j))"
  proof (cases "c' = c")
    case False
    have "slot_at s' c' i j = slot_at s c' i j" for i j using assms(1) [OF False] by (simp add: slot_at_def)
    then show ?thesis using assms(1) [OF False] assms(4) [OF c' False] by (auto simp: cap_at_def)
  qed (use assms in auto)
qed

lemma cspace_ok_weaken: "cspace_ok X E s c \<Longrightarrow> E \<subseteq> E' \<Longrightarrow> cspace_ok X E' s c"
  by (rule cspace_ok_cong [of X E s c s]) auto

text \<open>The bookkeeping of one table and its cspace changes.\<close>

lemma books_same_caps:
  assumes "\<exists>n av. k = (cspaces s c)\<lparr>cs_cap_count := n, available_tables := av\<rparr>"
  shows "same_caps P Cs s (set_books c t k T s)"
proof (rule same_caps_cspace [of c])
  have "slot_at (set_books c t k T s) c i j = slot_at s c i j" for i j
    using assms by (auto simp: slot_at_def set_books_def)
  then show "cap_at (set_books c t k T s) c i j = cap_at s c i j" "slot_at (set_books c t k T s) c i j = slot_at s c i j" for i j
    using assms by (auto simp: cap_at_def set_books_def)
qed (use assms in \<open>auto simp: set_books_def static_eq_def\<close>)

lemma allocate_available:
  assumes ok: "\<forall>c' \<in> Cs. cspace_ok {} {} s c'" "c \<in> Cs" and al: "alloc_ok Cs s c alloc"
    and room: "cs_cap_count (cspaces s c) \<noteq> cs_max_caps (cspaces s c)"
    and av: "i0 < length (tables (cspaces s c))" "bm_bit (available_tables (cspaces s c)) i0"
  shows "\<exists>i j s'. cspace_allocate_cap_slot c alloc s =
      Some (Inr (slot_at s' c i j, cspace_indices_to_cap_id (cspaces s c) i j), s') \<and> taken Cs c alloc s i j s'"
proof -
  define k where "k = cspaces s c"
  have okc: "cspace_ok {} {} s c" using ok by blast
  have len: "0 < length (tables k)" "length (tables k) \<le> 64 * length (available_tables k)" "length (tables k) \<le> 256"
    using okc by (simp_all add: cspace_ok_def Let_def k_def del: length_greater_0_conv)
  have "find (bm_bit (available_tables k)) [0..<length (tables k)] \<noteq> None" using av by (auto simp: find_None_iff k_def)
  then obtain i where f: "find (bm_bit (available_tables k)) [0..<length (tables k)] = Some i" by blast
  then have i: "i < length (tables k)" "bm_bit (available_tables k) i" by (auto simp: find_Some_iff)
  define t where "t = tables k ! i"
  have t: "t \<noteq> NULL" "fill s t < 62" "table_ok {} {} s c i t"
    using cspace_ok_index [OF okc, of i] i unfolding index_ok_def t_def k_def by (auto simp: Let_def split: if_splits)
  have "unat (cs_cap_count k) < unat (cs_max_caps k)"
    using okc room by (auto simp: cspace_ok_def Let_def k_def word_unat_eq_iff)
  then obtain j k' T' s' where j: "j < 62" "cap_at s c i j = None"
      "Option.bind (cspace_count_cap c t i s) (cspace_claim_cap_slot c t i) =
        Some ((cap_slot t j, cspace_indices_to_cap_id k i j), s')"
      "s' = set_books c t k' T' s" "cspace_ok {cap_slot t j} {} s' c"
      "\<exists>n av. k' = (cspaces s c)\<lparr>cs_cap_count := n, available_tables := av\<rparr>"
    using take_slot [OF cspace_ok_weaken [OF okc], of t i] i(1) t unfolding k_def t_def by blast
  have s': "tables (cspaces s' c) = tables k" using j(4,6) by (auto simp: set_books_def k_def)
  have slot: "slot_at s' c i j = cap_slot t j" by (simp add: slot_at_def s' t_def)
  have others: "cspace_ok {cap_slot t j} {} s' c'" if c': "c' \<in> Cs" for c'
  proof (cases "c' = c")
    case False
    show ?thesis
    proof (rule ok_other [of "{}" "{}" s c' c t])
      show "cspace_ok {} {} s c'" using ok c' by blast
      show "ct_cspace (cap_tables s t) = c \<or> t \<notin> set (tables (cspaces s c'))" using t(3) by (simp add: table_ok_def)
      show "cap_slot u l \<in> {cap_slot t j} \<longleftrightarrow> cap_slot u l \<in> {}" if "is_table u" "l < 62" "u \<noteq> t" for u l
        using cap_slot_inj [of u t l j] that t(3) j(1) by (simp add: table_ok_def)
    qed (use False j(4) in \<open>auto simp: set_books_def\<close>)
  qed (use j in simp)
  have "taken Cs c alloc s i j s'"
    unfolding taken_def slot using i(1) t(1) j others s' books_same_caps [OF j(6), of "fresh_tables alloc" Cs t T']
    by (simp add: k_def t_def) (simp add: set_books_def)
  moreover have "cspace_allocate_cap_slot c alloc s = Some (Inr (cap_slot t j, cspace_indices_to_cap_id k i j), s')"
  proof -
    have "cspace_allocate_cap_slot_begin c s = Some (Inr (Some i))"
      using room f len by (simp add: cspace_allocate_cap_slot_begin_def bitmap_ffs_find CSPACE_NUM_CAP_TABLES_def k_def)
    moreover obtain s1 where "cspace_count_cap c t i s = Some s1"
        "cspace_claim_cap_slot c t i s1 = Some ((cap_slot t j, cspace_indices_to_cap_id k i j), s')"
      using j(3) by (auto simp: bind_eq_Some_conv)
    ultimately show ?thesis by (simp add: cspace_allocate_cap_slot_def t_def k_def)
  qed
  ultimately show ?thesis unfolding slot [symmetric] k_def by blast
qed

lemma new_table_same_caps:
  assumes ok: "\<forall>c' \<in> Cs. cspace_ok {} {} s c'" "c \<in> Cs" "\<forall>c' \<in> Cs. p \<notin> set (tables (cspaces s c'))"
    and i: "i < length (tables (cspaces s c))" "tables (cspaces s c) ! i = NULL" and p: "is_table p"
  shows "same_caps {p} Cs s (new_table_state c p i al av s)"
proof (rule same_caps_cspace [of c])
  let ?s = "new_table_state c p i al av s"
  have old: "caps ?s (slot_at s c' l j) = caps s (slot_at s c' l j)"
    if "c' \<in> Cs" "tables (cspaces s c') ! l \<noteq> NULL" "l < length (tables (cspaces s c'))" "j < 62" for c' l j
  proof -
    have "is_table (tables (cspaces s c') ! l)"
      using ok(1) that cspace_ok_index by (fastforce simp: index_ok_def table_ok_def Let_def)
    moreover have "tables (cspaces s c') ! l \<noteq> p" using ok(3) that by auto
    ultimately show ?thesis using cap_slot_table that(4) by (simp add: new_table_state_def slot_at_def Let_def)
  qed
  then show "caps ?s (slot_at s c' l j) = caps s (slot_at s c' l j)"
    if "c' \<in> Cs" "c' \<noteq> c" "tables (cspaces s c') ! l \<noteq> NULL" "l < length (tables (cspaces s c'))" "j < 62" for c' l j
    using that by blast
  have tab: "tables (cspaces ?s c) = (tables (cspaces s c))[i := p]" by (simp add: new_table_state_def Let_def)
  have new: "cd_state (caps ?s (cap_slot p j)) = CAP_STATE_NULL" if "j < 62" for j
    using cap_slot_table [OF p that] by (simp add: new_table_state_def null_cap_data_def Let_def)
  have sl: "slot_at ?s c l j = (if l = i then cap_slot p j else slot_at s c l j)" for l j
    using i(1) by (simp add: slot_at_def tab)
  show "cap_at ?s c l j = cap_at s c l j" for l j
  proof (cases "l = i \<or> tables (cspaces s c) ! l = NULL")
    case True
    then show ?thesis using i new [of j] sl [of l j] by (auto simp: cap_at_def tab nth_list_update)
  next
    case False
    then show ?thesis using old [OF ok(2), of l j] sl [of l j] by (auto simp: cap_at_def tab nth_list_update)
  qed
  show "slot_at ?s c l j = slot_at s c l j" if "cap_at s c l j \<noteq> None" for l j
    using that i(2) sl by (auto simp: cap_at_def split: if_splits)
  show "set (tables (cspaces ?s c)) \<subseteq> set (tables (cspaces s c)) \<union> {p} \<union> {NULL}"
    unfolding tab using set_update_subset_insert by fastforce
qed (auto simp: new_table_state_def static_eq_def Let_def)

lemma same_caps_trans2:
  assumes "same_caps P Cs s s'" "same_caps P Cs s' s''"
  shows "same_caps P Cs s s''"
  unfolding same_caps_def
proof (intro ballI conjI allI impI)
  fix c i j assume c: "c \<in> Cs"
  show "static_eq (cspaces s c) (cspaces s'' c)" using assms c static_eq_trans by (fastforce simp: same_caps_def)
  show "set (tables (cspaces s'' c)) \<subseteq> set (tables (cspaces s c)) \<union> P \<union> {NULL}"
    using assms c by (fastforce simp: same_caps_def)
  show "cap_at s'' c i j = cap_at s c i j" using assms c by (simp add: same_caps_def)
  assume "cap_at s c i j \<noteq> None"
  then show "slot_at s'' c i j = slot_at s c i j" using assms c by (simp add: same_caps_def)
qed

lemma allocate_new:
  assumes ok: "\<forall>c' \<in> Cs. cspace_ok {} {} s c'" "c \<in> Cs" and al: "alloc_ok Cs s c (Inr p)"
    and room: "cs_cap_count (cspaces s c) \<noteq> cs_max_caps (cspaces s c)"
    and full: "\<forall>i < length (tables (cspaces s c)). \<not> bm_bit (available_tables (cspaces s c)) i"
  shows "\<exists>i j s'. cspace_allocate_cap_slot c (Inr p) s =
      Some (Inr (slot_at s' c i j, cspace_indices_to_cap_id (cspaces s c) i j), s') \<and> taken Cs c (Inr p) s i j s'"
proof -
  define k where "k = cspaces s c"
  have okc: "cspace_ok {} {} s c" using ok by blast
  have lt: "unat (cs_cap_count k) < unat (cs_max_caps k)"
    using okc room by (auto simp: cspace_ok_def Let_def k_def word_unat_eq_iff)
  have p: "is_table p" "\<forall>c' \<in> Cs. p \<notin> set (tables (cspaces s c'))" "p \<noteq> NULL"
    using al by (auto simp: alloc_ok_def is_table_def)
  have rc: "0 < oh_refcount (headers s (cs_partition k))" using al by (simp add: alloc_ok_def word_less_nat_alt k_def)
  obtain i ab av s1 where i: "i < length (tables k)" "tables k ! i = NULL"
      "cspace_allocate_cap_table c (Inr p) s = Some (Inr (p, i), s1)"
      "cspace_attach_cap_table c p i s1 = Some (new_table_state c p i ab av s)"
      "cspace_ok {} {p} (new_table_state c p i ab av s) c"
    using new_table [OF okc full _ p(1)] lt p(2) ok(2) rc unfolding k_def by blast
  define s2 where "s2 = new_table_state c p i ab av s"
  have s2: "tables (cspaces s2 c) ! i = p" "length (tables (cspaces s2 c)) = length (tables k)"
      "cs_cap_count (cspaces s2 c) = cs_cap_count k" "cs_max_caps (cspaces s2 c) = cs_max_caps k" "fill s2 p = 0"
    using i(1) p(3) by (auto simp: s2_def new_table_state_def k_def Let_def fill_def used_def bm_bit_def)
  have pre: "i < length (tables (cspaces s2 c))" "fill s2 p < 62"
      "unat (cs_cap_count (cspaces s2 c)) < unat (cs_max_caps (cspaces s2 c))"
    using s2 i(1) lt by simp_all
  obtain j k' T' s' where j: "j < 62" "cap_at s2 c i j = None"
      "Option.bind (cspace_count_cap c p i s2) (cspace_claim_cap_slot c p i) =
        Some ((cap_slot p j, cspace_indices_to_cap_id (cspaces s2 c) i j), s')"
      "s' = set_books c p k' T' s2" "cspace_ok {cap_slot p j} {} s' c"
      "\<exists>n av. k' = (cspaces s2 c)\<lparr>cs_cap_count := n, available_tables := av\<rparr>"
    using take_slot [OF i(5) [folded s2_def] pre(1) s2(1) p(3) pre(2,3)] by blast
  have sc: "same_caps {p} Cs s s2" using new_table_same_caps [OF ok p(2) i(1,2) [unfolded k_def] p(1)] by (simp add: s2_def)
  have sc': "same_caps {p} Cs s s'" using same_caps_trans2 [OF sc] books_same_caps [OF j(6)] j(4) by blast
  have s': "tables (cspaces s' c) = tables (cspaces s2 c)" using j(4,6) by (auto simp: set_books_def)
  have slot: "slot_at s' c i j = cap_slot p j" by (simp add: slot_at_def s' s2)
  have others: "cspace_ok {cap_slot p j} {} s' c'" if c': "c' \<in> Cs" for c'
  proof (cases "c' = c")
    case False
    show ?thesis
    proof (rule ok_other [of "{}" "{}" s c' c p])
      show "cspace_ok {} {} s c'" using ok c' by blast
      show "ct_cspace (cap_tables s p) = c \<or> p \<notin> set (tables (cspaces s c'))" using p(2) c' by blast
      show "cap_slot u l \<in> {cap_slot p j} \<longleftrightarrow> cap_slot u l \<in> {}" if "is_table u" "l < 62" "u \<noteq> p" for u l
        using cap_slot_inj [of u p l j] that p(1) j(1) by simp
    qed (use False j(4) in \<open>auto simp: set_books_def s2_def new_table_state_def Let_def\<close>)
  qed (use j in simp)
  have null: "cap_at s c i j = None" using i(2) by (simp add: cap_at_def k_def)
  have hdr: "oh_cap_list (headers s' q) = oh_cap_list (headers s q) \<and> oh_state (headers s' q) = oh_state (headers s q) \<and>
      (q \<noteq> cs_partition k \<longrightarrow> headers s' q = headers s q) \<and> unat (oh_refcount (headers s q)) \<le> unat (oh_refcount (headers s' q))" for q
    using al by (auto simp: j(4) set_books_def s2_def new_table_state_def k_def Let_def alloc_ok_def unat_Suc)
  have rest: "\<forall>n. util_balign_down n 2048 \<notin> {p} \<longrightarrow> list_nodes s' n = list_nodes s n" "obj_log s' = obj_log s"
      "thread_cspace s' = thread_cspace s"
    by (simp_all add: j(4) set_books_def s2_def new_table_state_def Let_def)
  have "fresh_tables (Inr p) = {p}" by (auto simp: fresh_tables_def)
  then have "taken Cs c (Inr p) s i j s'"
    unfolding taken_def slot using i(1) j(1) p(3) s' s2(1) null others sc' hdr rest by (simp add: k_def)
  moreover have "cspace_allocate_cap_slot c (Inr p) s = Some (Inr (cap_slot p j, cspace_indices_to_cap_id k i j), s')"
  proof -
    have "length (tables k) \<le> 64 * length (available_tables k)" "0 < length (tables k)" "length (tables k) \<le> 256"
      using okc by (simp_all add: cspace_ok_def Let_def k_def del: length_greater_0_conv)
    moreover have "find (bm_bit (available_tables k)) [0..<length (tables k)] = None"
      using full by (simp add: find_None_iff k_def)
    ultimately have "cspace_allocate_cap_slot_begin c s = Some (Inr None)"
      using room by (simp add: cspace_allocate_cap_slot_begin_def bitmap_ffs_find CSPACE_NUM_CAP_TABLES_def k_def Let_def)
    moreover have "cspace_indices_to_cap_id (cspaces s2 c) i j = cspace_indices_to_cap_id k i j"
      by (simp add: s2_def new_table_state_def cspace_indices_to_cap_id_def cspace_encode_cap_id_def k_def Let_def)
    moreover obtain s3 where "cspace_count_cap c p i s2 = Some s3"
        "cspace_claim_cap_slot c p i s3 = Some ((cap_slot p j, cspace_indices_to_cap_id (cspaces s2 c) i j), s')"
      using j(3) by (auto simp: bind_eq_Some_conv)
    ultimately show ?thesis using i(3,4) by (simp add: cspace_allocate_cap_slot_def s2_def)
  qed
  ultimately show ?thesis unfolding slot [symmetric] k_def by blast
qed

text \<open>
  The result of an allocation: it fails without a change when the cspace is at its limit, or when a
  table is needed and there is no memory; otherwise a slot is taken.
\<close>

lemma allocate_slot:
  assumes ok: "\<forall>c' \<in> Cs. cspace_ok {} {} s c'" "c \<in> Cs" and al: "alloc_ok Cs s c alloc"
  shows "if cs_cap_count (cspaces s c) = cs_max_caps (cspaces s c) then
      cspace_allocate_cap_slot c alloc s = Some (Inl ERROR_CSPACE_FULL, s)
    else if (\<forall>i < length (tables (cspaces s c)). \<not> bm_bit (available_tables (cspaces s c)) i) \<and> (\<exists>e. alloc = Inl e) then
      cspace_allocate_cap_slot c alloc s = Some (Inl ERROR_NOMEM, s)
    else \<exists>i j s'. cspace_allocate_cap_slot c alloc s =
      Some (Inr (slot_at s' c i j, cspace_indices_to_cap_id (cspaces s c) i j), s') \<and> taken Cs c alloc s i j s'"
proof -
  let ?k = "cspaces s c"
  have okc: "cspace_ok {} {} s c" using ok by blast
  have lt: "unat (cs_cap_count ?k) < unat (cs_max_caps ?k)" if "cs_cap_count ?k \<noteq> cs_max_caps ?k"
    using okc that by (auto simp: cspace_ok_def Let_def word_unat_eq_iff)
  have "cspace_allocate_cap_slot c alloc s = Some (Inl ERROR_NOMEM, s)"
    if a: "cs_cap_count ?k \<noteq> cs_max_caps ?k" "\<forall>i < length (tables ?k). \<not> bm_bit (available_tables ?k) i" "alloc = Inl e" for e
  proof -
    have "length (tables ?k) \<le> 64 * length (available_tables ?k)" "0 < length (tables ?k)" "length (tables ?k) \<le> 256"
      using okc by (simp_all add: cspace_ok_def Let_def del: length_greater_0_conv)
    moreover have "find (bm_bit (available_tables ?k)) [0..<length (tables ?k)] = None"
      using a(2) by (simp add: find_None_iff)
    ultimately have "cspace_allocate_cap_slot_begin c s = Some (Inr None)"
      using a(1) by (simp add: cspace_allocate_cap_slot_begin_def bitmap_ffs_find CSPACE_NUM_CAP_TABLES_def Let_def)
    then show ?thesis using allocate_table_nomem [OF okc a(2) lt [OF a(1)]] a(3)
      by (simp add: cspace_allocate_cap_slot_def)
  qed
  moreover have "cspace_allocate_cap_slot c alloc s = Some (Inl ERROR_CSPACE_FULL, s)" if "cs_cap_count ?k = cs_max_caps ?k"
    using that by (simp add: cspace_allocate_cap_slot_def cspace_allocate_cap_slot_begin_def)
  moreover have "\<exists>i j s'. cspace_allocate_cap_slot c alloc s =
      Some (Inr (slot_at s' c i j, cspace_indices_to_cap_id ?k i j), s') \<and> taken Cs c alloc s i j s'"
    if r: "cs_cap_count ?k \<noteq> cs_max_caps ?k" "\<not> ((\<forall>i < length (tables ?k). \<not> bm_bit (available_tables ?k) i) \<and> (\<exists>e. alloc = Inl e))"
  proof (cases "\<forall>i < length (tables ?k). \<not> bm_bit (available_tables ?k) i")
    case True
    then obtain p where "alloc = Inr p" using r(2) by (cases alloc) auto
    then show ?thesis using allocate_new [OF ok _ r(1) True] al by blast
  qed (use allocate_available [OF ok al r(1)] in blast)
  ultimately show ?thesis by auto
qed

section \<open>Release\<close>

text \<open>The slot leaves its table, which may be empty then.\<close>

definition dropped :: "ptr \<Rightarrow> ptr \<Rightarrow> bitmap \<Rightarrow> bitmap \<Rightarrow> cs_mem \<Rightarrow> cs_mem" where
  "dropped c t u av s = set_books c t
     ((cspaces s c)\<lparr>available_tables := av, cs_cap_count := cs_cap_count (cspaces s c) - 1\<rparr>)
     ((cap_tables s t)\<lparr>ct_used_slots := u, ct_cap_count := ct_cap_count (cap_tables s t) - 1\<rparr>) s"

lemma drop_slot:
  assumes ok: "cspace_ok {cap} {} s c" and i: "i < length (tables (cspaces s c))" "tables (cspaces s c) ! i = t" "t \<noteq> NULL"
    and cap: "cap = cap_slot t j" "j < 62"
    and u: "length u = 1" "\<forall>l. bm_bit u l \<longleftrightarrow> l \<noteq> j \<and> bm_bit (ct_used_slots (cap_tables s t)) l"
    and av: "length av = length (available_tables (cspaces s c))" "\<forall>l. bm_bit av l \<longleftrightarrow> l = i \<or> bm_bit (available_tables (cspaces s c)) l"
  shows "cspace_ok {} {t} (dropped c t u av s) c \<and> j \<in> used (cap_tables s t) \<and>
    unat (ct_cap_count (cap_tables s t)) = card (used (cap_tables s t)) \<and>
    unat (ct_cap_count (cap_tables (dropped c t u av s) t)) = card (used (cap_tables s t)) - 1"
proof -
  define k T where "k = cspaces s c" and "T = cap_tables s t"
  define s' where "s' = dropped c t u av s"
  define k' T' where "k' = cspaces s' c" and "T' = cap_tables s' t"
  have idx: "table_ok {cap} {} s c i t" "bm_bit (allocated_tables k) i"
    using cspace_ok_index [OF ok i(1)] i by (auto simp: index_ok_def Let_def k_def)
  have T: "is_table t" "length (ct_used_slots T) = 1" "unat (ct_cap_count T) = card (used T)"
    using idx(1) by (auto simp: table_ok_def T_def)
  have ju: "j \<in> used T" "cd_state (caps s (cap_slot t j)) = CAP_STATE_NULL"
    using idx(1) cap by (auto simp: table_ok_def T_def)
  then have pos: "0 < card (used T)" using used_le(2) card_gt_0_iff by blast
  have used': "used T' = used T - {j}" using u(2) by (auto simp: used_def T'_def s'_def dropped_def set_books_def T_def)
  then have card': "card (used T') = card (used T) - 1" using ju(1) used_le(2) by simp
  have n: "unat (ct_cap_count T') = card (used T) - 1"
    using T(3) pos by (simp add: T'_def s'_def dropped_def set_books_def T_def unat_diff_le)
  have sum: "fill s t \<le> unat (cs_cap_count k)"
    using ok i by (auto simp: cspace_ok_def Let_def k_def intro: member_le_sum [of i _ "\<lambda>i. fill s (tables (cspaces s c) ! i)", simplified])
  have fl: "fill s t = card (used T)" "fill s' t = card (used T) - 1" using i(3) card' by (auto simp: fill_def T_def T'_def)
  have m: "unat (cs_cap_count k') = unat (cs_cap_count k) - 1"
    using sum fl(1) pos by (simp add: k'_def s'_def dropped_def set_books_def k_def unat_diff_le)
  have le: "unat (cs_cap_count k) \<le> unat (cs_max_caps k)" using ok unfolding cspace_ok_def Let_def k_def by blast
  have "table_ok {} {t} s' c i t"
    using idx(1) T n card' used' u(1) ju(2) cap cap_slot_inj [OF T(1) T(1)]
    unfolding table_ok_def T_def [symmetric] T'_def [symmetric]
    by (auto simp: T'_def s'_def dropped_def set_books_def T_def)
  then have "index_ok {} {t} s' c i"
    using i idx(2) av(2) fl pos used_le(1) [of T]
    by (auto simp: index_ok_def Let_def s'_def [symmetric]) (auto simp: s'_def dropped_def set_books_def k_def)
  then have "cspace_ok {} {t} s' c"
  proof (intro cspace_ok_update [OF ok i(1)])
    fix l assume l: "l < length (tables (cspaces s c))" "l \<noteq> i" "tables (cspaces s c) ! l \<noteq> NULL"
    let ?t = "tables (cspaces s c) ! l"
    have ne: "?t \<noteq> t" using tables_apart [OF ok ok l(1) i(1)] l i by auto
    have "is_table ?t" using cspace_ok_index [OF ok l(1)] l(3) by (auto simp: index_ok_def table_ok_def Let_def)
    then have "\<forall>m < 62. cap_slot ?t m \<noteq> cap" using cap_slot_inj [OF _ T(1) _ cap(2)] ne cap(1) by blast
    then show "let u = ?t in cap_tables s' u = cap_tables s u \<and> (\<forall>m < 62. caps s' (cap_slot u m) = caps s (cap_slot u m) \<and>
        (cap_slot u m \<in> {} \<longleftrightarrow> cap_slot u m \<in> {cap})) \<and> (u \<in> {} \<longrightarrow> u \<in> {t})"
      using ne by (simp add: s'_def dropped_def set_books_def Let_def)
  next
    show "encoder_ok (cspaces s' c)" using ok
      by (simp add: cspace_ok_def Let_def s'_def dropped_def set_books_def encoder_ok_def)
    show "unat (cs_cap_count (cspaces s' c)) + fill s (tables (cspaces s c) ! i) =
        unat (cs_cap_count (cspaces s c)) + fill s' (tables (cspaces s' c) ! i)"
      using m fl i sum pos by (simp add: k'_def k_def) (simp add: s'_def dropped_def set_books_def)
    show "unat (cs_cap_count (cspaces s' c)) \<le> unat (cs_max_caps (cspaces s c))"
      using le m by (simp add: k'_def k_def)
  qed (use av i in \<open>auto simp: s'_def dropped_def set_books_def\<close>)
  then show ?thesis using ju(1) T(3) n by (simp add: s'_def T'_def T_def)
qed

text \<open>An empty table leaves its cspace.\<close>

definition detached :: "ptr \<Rightarrow> ptr \<Rightarrow> nat \<Rightarrow> bitmap \<Rightarrow> bitmap \<Rightarrow> cs_mem \<Rightarrow> cs_mem" where
  "detached c t i al av s = log_event (Rcu_enqueue CSPACE_RELEASE_LEVEL t)
     (upd_cspace c (\<lambda>k. k\<lparr>allocated_tables := al, available_tables := av, tables := (tables k)[i := NULL]\<rparr>) s)"

lemma detach_table:
  assumes ok: "cspace_ok {} {t} s c" and i: "i < length (tables (cspaces s c))" "tables (cspaces s c) ! i = t" "t \<noteq> NULL"
    and e: "used (cap_tables s t) = {}"
    and al: "length al = length (allocated_tables (cspaces s c))" "\<forall>l. bm_bit al l \<longleftrightarrow> l \<noteq> i \<and> bm_bit (allocated_tables (cspaces s c)) l"
    and av: "length av = length (available_tables (cspaces s c))" "\<forall>l. bm_bit av l \<longleftrightarrow> l \<noteq> i \<and> bm_bit (available_tables (cspaces s c)) l"
  shows "cspace_ok {} {} (detached c t i al av s) c"
proof -
  define s' where "s' = detached c t i al av s"
  have "index_ok {} {} s' c i" using i(1) al(2) av(2)
    by (simp add: index_ok_def s'_def detached_def upd_cspace_def log_event_def)
  then have "cspace_ok {} {} s' c"
  proof (intro cspace_ok_update [OF ok i(1)])
    fix l assume l: "l < length (tables (cspaces s c))" "l \<noteq> i" "tables (cspaces s c) ! l \<noteq> NULL"
    let ?t = "tables (cspaces s c) ! l"
    have "?t \<noteq> t" using tables_apart [OF ok ok l(1) i(1)] l i by auto
    then show "let u = ?t in cap_tables s' u = cap_tables s u \<and> (\<forall>m < 62. caps s' (cap_slot u m) = caps s (cap_slot u m) \<and>
        (cap_slot u m \<in> {} \<longleftrightarrow> cap_slot u m \<in> {})) \<and> (u \<in> {t} \<longrightarrow> u \<in> {})"
      by (simp add: s'_def detached_def upd_cspace_def log_event_def Let_def)
  next
    show "encoder_ok (cspaces s' c)" using ok
      by (simp add: cspace_ok_def Let_def s'_def detached_def upd_cspace_def log_event_def encoder_ok_def)
    show "unat (cs_cap_count (cspaces s' c)) \<le> unat (cs_max_caps (cspaces s c))"
      using ok by (simp add: s'_def detached_def upd_cspace_def log_event_def cspace_ok_def Let_def)
  qed (use al av i e in \<open>auto simp: s'_def detached_def upd_cspace_def log_event_def fill_def\<close>)
  then show ?thesis by (simp add: s'_def)
qed

lemma detached_same_caps:
  assumes ok: "cspace_ok {} {t} s c" and i: "i < length (tables (cspaces s c))" "tables (cspaces s c) ! i = t" "t \<noteq> NULL"
    and e: "used (cap_tables s t) = {}"
  shows "same_caps {} Cs s (detached c t i al av s)"
proof (rule same_caps_cspace [of c])
  let ?s = "detached c t i al av s"
  have tab: "tables (cspaces ?s c) = (tables (cspaces s c))[i := NULL]" "caps ?s = caps s"
    by (simp_all add: detached_def upd_cspace_def log_event_def)
  have "cd_state (caps s (cap_slot t j)) = CAP_STATE_NULL" if "j < 62" for j
    using cspace_ok_index [OF ok i(1)] i e that by (simp add: index_ok_def table_ok_def Let_def)
  then have none: "cap_at s c i j = None" for j using i by (simp add: cap_at_def slot_at_def)
  have sl: "slot_at ?s c l j = slot_at s c l j" if "l \<noteq> i" for l j using that by (simp add: slot_at_def tab)
  show "cap_at ?s c l j = cap_at s c l j" for l j
    using none [of j] sl [of l j] i(1) by (cases "l = i") (simp_all add: cap_at_def tab)
  show "slot_at ?s c l j = slot_at s c l j" if "cap_at s c l j \<noteq> None" for l j
    using that none [of j] sl [of l j] by (cases "l = i") simp_all
  show "set (tables (cspaces ?s c)) \<subseteq> set (tables (cspaces s c)) \<union> {} \<union> {NULL}"
    unfolding tab using set_update_subset_insert by fastforce
qed (auto simp: detached_def upd_cspace_def log_event_def static_eq_def)

lemma detached_gone:
  assumes "cspace_ok {} {t} s c" "i < length (tables (cspaces s c))" "tables (cspaces s c) ! i = t" "t \<noteq> NULL"
  shows "t \<notin> set (tables (cspaces (detached c t i al av s) c))"
proof
  assume "t \<in> set (tables (cspaces (detached c t i al av s) c))"
  then obtain l where "l < length (tables (cspaces s c))" "(tables (cspaces s c))[i := NULL] ! l = t"
    by (auto simp: in_set_conv_nth detached_def upd_cspace_def log_event_def)
  then show False using tables_apart [OF assms(1,1) _ assms(2), of l] assms by (cases "l = i") auto
qed

definition freed :: "ptr set \<Rightarrow> ptr \<Rightarrow> cs_mem \<Rightarrow> cs_mem \<Rightarrow> bool" where
  "freed Cs t s s' \<longleftrightarrow> (\<forall>c \<in> Cs. cspace_ok {} {} s' c) \<and> same_caps {} Cs s s' \<and> headers s' = headers s \<and>
    list_nodes s' = list_nodes s \<and> thread_cspace s' = thread_cspace s \<and>
    obj_log s' = obj_log s @ (if t \<in> (\<Union>c \<in> Cs. set (tables (cspaces s' c))) then [] else [Rcu_enqueue CSPACE_RELEASE_LEVEL t])"

lemma free_slot:
  assumes ok: "\<forall>c' \<in> Cs. cspace_ok {cap} {} s c'" "c \<in> Cs"
    and i: "i < length (tables (cspaces s c))" "tables (cspaces s c) ! i = t" "t \<noteq> NULL" and cap: "cap = cap_slot t j" "j < 62"
  shows "\<exists>s'. cspace_free_cap_slot c cap s = Some s' \<and> freed Cs t s s'"
proof -
  define k T where "k = cspaces s c" and "T = cap_tables s t"
  have okc: "cspace_ok {cap} {} s c" using ok by blast
  have idx: "table_ok {cap} {} s c i t" "bm_bit (available_tables k) i \<longleftrightarrow> fill s t < 62"
    using cspace_ok_index [OF okc i(1)] i by (auto simp: index_ok_def Let_def k_def)
  have T: "is_table t" "length (ct_used_slots T) = 1" "ct_cspace T = c" "ct_index T = i"
      "unat (ct_cap_count T) = card (used T)"
    using idx(1) by (auto simp: table_ok_def T_def)
  have len: "i < 64 * length (available_tables k)" "i < 64 * length (allocated_tables k)"
    using okc i(1) by (auto simp: cspace_ok_def Let_def k_def)
  have tab: "cspace_get_cap_table cap = t" using cap_slot_table [OF T(1)] cap by (simp add: cspace_get_cap_table_def)
  have lu: "j < 64 * length (ct_used_slots T)" using T(2) cap(2) by simp
  obtain u where u: "bitmap_clear (ct_used_slots T) j = Some u" "length u = 1"
      "\<forall>l. bm_bit u l \<longleftrightarrow> l \<noteq> j \<and> bm_bit (ct_used_slots T) l"
    using bitmap_clear_bit [OF lu] T(2) by auto
  obtain av where av: "bitmap_set (available_tables k) i = Some av" "length av = length (available_tables k)"
      "\<forall>l. bm_bit av l \<longleftrightarrow> l = i \<or> bm_bit (available_tables k) l"
    using bitmap_set_bit [OF len(1)] by auto
  have fl: "fill s t = card (used T)" using i(3) by (simp add: fill_def T_def)
  define av' where "av' = (if card (used T) = 62 then av else available_tables k)"
  have av': "length av' = length (available_tables k)" "\<forall>l. bm_bit av' l \<longleftrightarrow> l = i \<or> bm_bit (available_tables k) l"
    using av idx(2) fl used_le(1) [of T] by (auto simp: av'_def)
  define s1 where "s1 = dropped c t u av' s"
  have d: "cspace_ok {} {t} s1 c" "j \<in> used T" "unat (ct_cap_count (cap_tables s1 t)) = card (used T) - 1"
    using drop_slot [OF okc i cap u(2) _ _ av'(2) [unfolded k_def]] u(3) av'(1) by (auto simp: T_def k_def s1_def)
  have s1: "cspaces s1 c = k\<lparr>available_tables := av', cs_cap_count := cs_cap_count k - 1\<rparr>"
      "cap_tables s1 t = T\<lparr>ct_used_slots := u, ct_cap_count := ct_cap_count T - 1\<rparr>"
    by (simp_all add: s1_def dropped_def set_books_def k_def T_def)
  have others: "cspace_ok {} {} s1 c'" "t \<notin> set (tables (cspaces s1 c'))" if c': "c' \<in> Cs" "c' \<noteq> c" for c'
  proof -
    have okc': "cspace_ok {cap} {} s c'" using ok c'(1) by blast
    show "cspace_ok {} {} s1 c'"
    proof (rule ok_other [OF okc' c'(2)])
      show "ct_cspace (cap_tables s t) = c \<or> t \<notin> set (tables (cspaces s c'))" using T(3) by (simp add: T_def)
      show "cap_slot v l \<in> {} \<longleftrightarrow> cap_slot v l \<in> {cap}" if "is_table v" "l < 62" "v \<noteq> t" for v l
        using cap_slot_inj [of v t l j] that T(1) cap by simp
    qed (simp_all add: s1_def dropped_def set_books_def)
    show "t \<notin> set (tables (cspaces s1 c'))"
      using table_elsewhere [OF okc' c'(2), of t] T(3) i(3) c'(2) by (simp add: s1_def dropped_def set_books_def T_def)
  qed
  have "\<exists>n a. k\<lparr>available_tables := av', cs_cap_count := cs_cap_count k - 1\<rparr> = k\<lparr>cs_cap_count := n, available_tables := a\<rparr>"
    by (intro exI [of _ "cs_cap_count k - 1"] exI [of _ av']) (cases k, simp)
  then have sc: "same_caps {} Cs s s1" unfolding s1_def dropped_def k_def by (rule books_same_caps)
  have rest: "headers s1 = headers s" "list_nodes s1 = list_nodes s" "thread_cspace s1 = thread_cspace s" "obj_log s1 = obj_log s"
    by (simp_all add: s1_def dropped_def set_books_def)
  have full: "ct_cap_count T = of_nat 62 \<longleftrightarrow> card (used T) = 62" using T(5) by (simp add: word_unat_eq_iff)
  have zero: "ct_cap_count T - 1 = 0 \<longleftrightarrow> card (used T) = 1"
  proof -
    have "0 < card (used T)" using d(2) used_le(2) [of T] card_gt_0_iff by blast
    then show ?thesis using d(3) s1(2) by (auto simp: word_unat_eq_iff)
  qed
  have ind: "cspace_get_cap_slot_index t (cap_slot t j) = Some j" using cap(2) by (rule cap_slot_index)
  have run: "cspace_free_cap_slot c cap s = (if card (used T) = 1 then do {
       (_, al) \<leftarrow> bitmap_atomic_test_and_clear (allocated_tables (cspaces s1 c)) i;
       av \<leftarrow> bitmap_clear (available_tables (cspaces s1 c)) i;
       Some (detached c t i al av s1)
     } else Some s1)"
  proof -
    have bits: "bitmap_atomic_test_and_clear (ct_used_slots T) j = Some (bm_bit (ct_used_slots T) j, u)"
      using bitmap_atomic_test_and_clear_eq [OF lu] u(1) by simp
    have same: "k\<lparr>available_tables := available_tables k\<rparr> = k" by simp
    show ?thesis
      using bits ind full zero av(1) T(4) tab cap(1) same
      by (cases "card (used T) = 62") (simp_all add: cspace_free_cap_slot_def upd_table_def upd_cspace_def SLOTS_eq Let_def
          s1_def dropped_def set_books_def detached_def av'_def k_def T_def)
  qed
  have used1: "used (cap_tables s1 t) = used T - {j}" using u(3) by (auto simp: used_def s1(2))
  show ?thesis
  proof (cases "card (used T) = 1")
    case False
    have "used T \<noteq> {j}" using False by auto
    then have "used (cap_tables s1 t) \<noteq> {}" using used1 d(2) by auto
    then have "cspace_ok {} {} s1 c" by (intro cspace_ok_cong [OF d(1)]) auto
    moreover have "t \<in> set (tables (cspaces s1 c))" using i s1(1) by (auto simp: k_def)
    ultimately have "freed Cs t s s1" unfolding freed_def using others sc rest ok(2) by auto
    then show ?thesis using run False by auto
  next
    case True
    have e: "used (cap_tables s1 t) = {}" using True used1 d(2) by (auto simp: card_1_singleton_iff)
    obtain al where al: "bitmap_clear (allocated_tables k) i = Some al" "length al = length (allocated_tables k)"
        "\<forall>l. bm_bit al l \<longleftrightarrow> l \<noteq> i \<and> bm_bit (allocated_tables k) l"
      using bitmap_clear_bit [OF len(2)] by blast
    obtain av2 where av2: "bitmap_clear av' i = Some av2" "length av2 = length av'" "\<forall>l. bm_bit av2 l \<longleftrightarrow> l \<noteq> i \<and> bm_bit av' l"
      using bitmap_clear_bit [of i av'] len(1) av'(1) by auto
    let ?s = "detached c t i al av2 s1"
    have i1: "i < length (tables (cspaces s1 c))" "tables (cspaces s1 c) ! i = t" using i s1(1) by (simp_all add: k_def)
    have okc': "cspace_ok {} {} ?s c" using al av2 s1(1) by (intro detach_table [OF d(1) i1 i(3) e]) simp_all
    have oth: "cspace_ok {} {} ?s c'" "t \<notin> set (tables (cspaces ?s c'))" if c': "c' \<in> Cs" "c' \<noteq> c" for c'
      using cspace_ok_cong [OF others(1) [OF c'], of ?s] others(2) [OF c'] c'(2)
      by (auto simp: detached_def upd_cspace_def log_event_def)
    have "t \<notin> set (tables (cspaces ?s c))" using detached_gone [OF d(1) i1 i(3)] .
    moreover have "same_caps {} Cs s ?s" using same_caps_trans [OF sc detached_same_caps [OF d(1) i1 i(3) e]] .
    ultimately have "freed Cs t s ?s" unfolding freed_def using okc' oth rest
      by (auto simp: detached_def upd_cspace_def log_event_def)
    moreover have "cspace_free_cap_slot c cap s = Some ?s"
      using run True al(1) av2(1) s1(1) bitmap_atomic_test_and_clear_eq [OF len(2)] by simp
    ultimately show ?thesis by blast
  qed
qed

end
