(* ===== verification/Cspace_Inv.thy ===== *)
theory Cspace_Inv
  imports Cspace_Alloc
begin

text \<open>
  The invariant of the capability spaces: the bookkeeping of the slots, and the lists that link the
  capabilities. Every valid capability is on the list of its object, with the master capability in
  front, and every revoked one on the list of its cspace.
\<close>

section \<open>Capabilities as a function of their place\<close>

definition caps_of :: "ptr set \<Rightarrow> cs_mem \<Rightarrow> ptr \<times> nat \<times> nat \<Rightarrow> cap_data option" where
  "caps_of Cs s = (\<lambda>(c, i, j). if c \<in> Cs then cap_at s c i j else None)"

fun addr_of :: "cs_mem \<Rightarrow> ptr \<times> nat \<times> nat \<Rightarrow> ptr" where
  "addr_of s (c, i, j) = slot_at s c i j"

text \<open>A place is a slot of a table.\<close>

fun is_slot :: "ptr set \<Rightarrow> cs_mem \<Rightarrow> ptr \<times> nat \<times> nat \<Rightarrow> bool" where
  "is_slot Cs s (c, i, j) \<longleftrightarrow> c \<in> Cs \<and> i < length (tables (cspaces s c)) \<and> tables (cspaces s c) ! i \<noteq> NULL \<and> j < 62"

lemma caps_of_slot: "caps_of Cs s p = Some d \<Longrightarrow> is_slot Cs s p \<and> caps s (addr_of s p) = d \<and> cd_state d \<noteq> CAP_STATE_NULL"
  by (cases p) (auto simp: caps_of_def cap_at_def split: if_splits)

lemma slot_caps_of:
  "is_slot Cs s p \<Longrightarrow> caps_of Cs s p = (if cd_state (caps s (addr_of s p)) = CAP_STATE_NULL then None else Some (caps s (addr_of s p)))"
  by (cases p) (auto simp: caps_of_def cap_at_def)

lemma not_slot: "\<not> is_slot Cs s p \<Longrightarrow> caps_of Cs s p = None"
  by (cases p) (auto simp: caps_of_def cap_at_def)

definition slots_ok :: "ptr set \<Rightarrow> ptr set \<Rightarrow> cs_mem \<Rightarrow> bool" where
  "slots_ok X Cs s \<longleftrightarrow> (\<forall>c \<in> Cs. cspace_ok X {} s c)"

lemma slot_table:
  assumes "slots_ok X Cs s" "is_slot Cs s (c, i, j)"
  shows "table_ok X {} s c i (tables (cspaces s c) ! i)" "is_table (tables (cspaces s c) ! i)"
  using cspace_ok_index [of X "{}" s c i] assms by (auto simp: slots_ok_def index_ok_def table_ok_def Let_def)

lemma addr_inj:
  assumes ok: "slots_ok X Cs s" and p: "is_slot Cs s p" "is_slot Cs s q"
  shows "addr_of s p = addr_of s q \<longleftrightarrow> p = q"
proof
  assume e: "addr_of s p = addr_of s q"
  obtain c i j c' i' j' where pq: "p = (c, i, j)" "q = (c', i', j')" by (cases p, cases q)
  have "cap_slot (tables (cspaces s c) ! i) j = cap_slot (tables (cspaces s c') ! i') j'" "j < 62" "j' < 62"
    using e p by (simp_all add: pq slot_at_def)
  then have t: "tables (cspaces s c) ! i = tables (cspaces s c') ! i'" "j = j'"
    using cap_slot_inj slot_table(2) [OF ok] p pq by blast+
  then show "p = q" using tables_apart [of X "{}" s c X "{}" c' i i'] ok p by (auto simp: pq slots_ok_def)
qed simp

lemma addr_facts:
  assumes "slots_ok X Cs s" "is_slot Cs s p"
  shows "cap_list_node (addr_of s p) \<noteq> NULL" "cspace_get_cap_table (addr_of s p) = tables (cspaces s (fst p)) ! fst (snd p)"
    "util_balign_down (cap_list_node (addr_of s p)) 2048 = tables (cspaces s (fst p)) ! fst (snd p)"
    "ct_cspace (cap_tables s (cspace_get_cap_table (addr_of s p))) = fst p"
proof -
  obtain c i j where p: "p = (c, i, j)" by (cases p)
  note t = slot_table [OF assms(1) assms(2) [unfolded p]]
  have j: "j < 62" using assms(2) by (simp add: p)
  show "cap_list_node (addr_of s p) \<noteq> NULL" using node_not_null [OF t(2) j] by (simp add: p slot_at_def)
  show 1: "cspace_get_cap_table (addr_of s p) = tables (cspaces s (fst p)) ! fst (snd p)"
    using cap_slot_table [OF t(2) j] by (simp add: p slot_at_def cspace_get_cap_table_def)
  show "util_balign_down (cap_list_node (addr_of s p)) 2048 = tables (cspaces s (fst p)) ! fst (snd p)"
    using node_table [OF t(2) j] by (simp add: p slot_at_def)
  show "ct_cspace (cap_tables s (cspace_get_cap_table (addr_of s p))) = fst p"
    using t(1) unfolding 1 by (simp add: p table_ok_def)
qed

text \<open>Writing one capability slot.\<close>

lemma caps_of_set:
  assumes ok: "slots_ok X Cs s" and p: "is_slot Cs s p"
    and s': "cspaces s' = cspaces s" "cap_tables s' = cap_tables s" "caps s' = (caps s)(addr_of s p := d)"
  shows "caps_of Cs s' = (caps_of Cs s)(p := if cd_state d = CAP_STATE_NULL then None else Some d)" "addr_of s' = addr_of s"
    "is_slot Cs s' = is_slot Cs s"
proof -
  show a: "addr_of s' = addr_of s" by (rule ext, rename_tac q, case_tac q) (simp add: slot_at_def s')
  show pl: "is_slot Cs s' = is_slot Cs s" by (rule ext, rename_tac q, case_tac q) (simp add: s')
  show "caps_of Cs s' = (caps_of Cs s)(p := if cd_state d = CAP_STATE_NULL then None else Some d)"
  proof
    fix q
    show "caps_of Cs s' q = ((caps_of Cs s)(p := if cd_state d = CAP_STATE_NULL then None else Some d)) q"
    proof (cases "is_slot Cs s q")
      case True
      then show ?thesis using slot_caps_of [of Cs s' q] slot_caps_of [OF True] addr_inj [OF ok True p] pl a s'(3) by auto
    next
      case False
      then show ?thesis using not_slot [of Cs s' q] not_slot [OF False] pl p by auto
    qed
  qed
qed

lemma slots_ok_set:
  assumes ok: "slots_ok X Cs s" and p: "is_slot Cs s p"
    and s': "cspaces s' = cspaces s" "cap_tables s' = cap_tables s" "caps s' = (caps s)(addr_of s p := d)"
    and d: "X \<subseteq> {addr_of s p}" "X' = (if cd_state d = CAP_STATE_NULL then {addr_of s p} else {})"
      "addr_of s p \<in> X \<or> cd_state (caps s (addr_of s p)) \<noteq> CAP_STATE_NULL"
  shows "slots_ok X' Cs s'"
  unfolding slots_ok_def
proof
  fix c assume c: "c \<in> Cs"
  have okc: "cspace_ok X {} s c" using ok c by (simp add: slots_ok_def)
  have f: "fill s' = fill s" by (rule ext) (simp add: fill_def s')
  have "index_ok X' {} s' c i" if i: "i < length (tables (cspaces s c))" for i
  proof (cases "tables (cspaces s c) ! i = NULL")
    case True
    then show ?thesis using cspace_ok_index [OF okc i] by (simp add: index_ok_def s')
  next
    case False
    let ?t = "tables (cspaces s c) ! i"
    have x: "index_ok X {} s c i" using cspace_ok_index [OF okc i] .
    have *: "(cd_state (caps s' (cap_slot ?t j)) \<noteq> CAP_STATE_NULL \<or> cap_slot ?t j \<in> X') =
        (cd_state (caps s (cap_slot ?t j)) \<noteq> CAP_STATE_NULL \<or> cap_slot ?t j \<in> X) \<and>
        (cap_slot ?t j \<in> X' \<longrightarrow> cd_state (caps s' (cap_slot ?t j)) = CAP_STATE_NULL)" if "j < 62" for j
      using d s'(3) by (cases "cap_slot ?t j = addr_of s p") auto
    then have "table_ok X' {} s' c i ?t" using x False s'(1,2) by (simp add: index_ok_def table_ok_def Let_def)
    then show ?thesis using x False f s'(1) by (simp add: index_ok_def Let_def)
  qed
  then show "cspace_ok X' {} s' c" using okc f by (simp add: cspace_ok_def s' Let_def)
qed

section \<open>The lists of capabilities\<close>

definition heads :: "ptr set \<Rightarrow> ptr set \<Rightarrow> cs_mem \<Rightarrow> ptr set" where
  "heads Cs Os s = (\<lambda>q. oh_cap_list (headers s q)) ` Os \<union> (\<lambda>c. cs_revoked_cap_list (cspaces s c)) ` Cs"

definition heads_apart :: "ptr set \<Rightarrow> ptr set \<Rightarrow> cs_mem \<Rightarrow> bool" where
  "heads_apart Cs Os s \<longleftrightarrow> inj_on (\<lambda>q. oh_cap_list (headers s q)) Os \<and> inj_on (\<lambda>c. cs_revoked_cap_list (cspaces s c)) Cs \<and>
    (\<forall>q \<in> Os. \<forall>c \<in> Cs. oh_cap_list (headers s q) \<noteq> cs_revoked_cap_list (cspaces s c)) \<and>
    (\<forall>h \<in> heads Cs Os s. \<forall>c \<in> Cs. util_balign_down h 2048 \<notin> set (tables (cspaces s c)) - {NULL})"

text \<open>The list a capability belongs to.\<close>

definition home :: "cs_mem \<Rightarrow> ptr \<times> nat \<times> nat \<Rightarrow> cap_data \<Rightarrow> ptr" where
  "home s p d = (if cd_state d = CAP_STATE_VALID then oh_cap_list (headers s (cd_object d))
     else cs_revoked_cap_list (cspaces s (fst p)))"

definition cap_wf :: "ptr set \<Rightarrow> cap_data \<Rightarrow> bool" where
  "cap_wf Os d \<longleftrightarrow> cd_state d = CAP_STATE_VALID \<and> cd_object d \<in> Os \<and> cd_object d \<noteq> NULL \<and> cd_type d \<noteq> OBJECT_TYPE_ANY \<or>
    cd_state d = CAP_STATE_REVOKED"

definition members :: "('p \<Rightarrow> 'd option) \<Rightarrow> ('p \<Rightarrow> ptr) \<Rightarrow> ('p \<Rightarrow> 'd \<Rightarrow> ptr) \<Rightarrow> ptr \<Rightarrow> ptr set" where
  "members V node hm h = {node p | p d. V p = Some d \<and> hm p d = h}"

definition links :: "('p \<Rightarrow> 'd option) \<Rightarrow> ('p \<Rightarrow> ptr) \<Rightarrow> ('p \<Rightarrow> 'd \<Rightarrow> ptr) \<Rightarrow> ptr set \<Rightarrow> (ptr \<Rightarrow> ptr list) \<Rightarrow> bool" where
  "links V node hm H L \<longleftrightarrow> (\<forall>h \<in> H. distinct (L h) \<and> set (L h) = members V node hm h)"

lemma membersI: "V p = Some d \<Longrightarrow> hm p d = h \<Longrightarrow> node p \<in> members V node hm h"
  by (auto simp: members_def)

lemma membersE: "n \<in> members V node hm h \<Longrightarrow> (\<And>p d. n = node p \<Longrightarrow> V p = Some d \<Longrightarrow> hm p d = h \<Longrightarrow> R) \<Longrightarrow> R"
  by (auto simp: members_def)

lemma links_insert:
  assumes l: "links V node hm H L" and p: "V p = None" "\<And>q d. V q = Some d \<Longrightarrow> node q \<noteq> node p"
    and h: "hm p d \<in> H" "L (hm p d) = ys @ zs"
  shows "links (V(p \<mapsto> d)) node hm H (L(hm p d := ys @ node p # zs))"
proof -
  have m: "members (V(p \<mapsto> d)) node hm h = members V node hm h \<union> (if hm p d = h then {node p} else {})" for h
    using p(1) unfolding members_def by (auto split: if_splits) (metis option.distinct(1))+
  have n: "node p \<notin> members V node hm h" for h using p(2) unfolding members_def by force
  show ?thesis unfolding links_def
  proof
    fix h assume hH: "h \<in> H"
    then have lh: "distinct (L h)" "set (L h) = members V node hm h" using l by (auto simp: links_def)
    show "distinct ((L(hm p d := ys @ node p # zs)) h) \<and> set ((L(hm p d := ys @ node p # zs)) h) = members (V(p \<mapsto> d)) node hm h"
    proof (cases "h = hm p d")
      case True
      then show ?thesis using lh h(2) n [of h] m [of h] by auto
    qed (use lh m [of h] in auto)
  qed
qed

lemma links_delete:
  assumes l: "links V node hm H L" and p: "V p = Some d" "\<And>q e. V q = Some e \<Longrightarrow> q \<noteq> p \<Longrightarrow> node q \<noteq> node p" and h: "hm p d \<in> H"
  shows "\<exists>xs ys. L (hm p d) = xs @ node p # ys \<and> links (V(p := None)) node hm H (L(hm p d := xs @ ys))"
proof -
  have "node p \<in> set (L (hm p d))" using l p(1) h membersI by (fastforce simp: links_def)
  then obtain xs ys where x: "L (hm p d) = xs @ node p # ys" by (meson split_list)
  have m: "members (V(p := None)) node hm h = members V node hm h - {node p}" for h
    using p unfolding members_def by (auto split: if_splits) metis
  have n: "node p \<notin> members V node hm h" if "h \<noteq> hm p d" for h
  proof
    assume "node p \<in> members V node hm h"
    then obtain q e where "node p = node q" "V q = Some e" "hm q e = h" by (rule membersE)
    then show False using p that by (cases "q = p") fastforce+
  qed
  have "links (V(p := None)) node hm H (L(hm p d := xs @ ys))" unfolding links_def
  proof
    fix h assume hH: "h \<in> H"
    then have lh: "distinct (L h)" "set (L h) = members V node hm h" using l by (auto simp: links_def)
    show "distinct ((L(hm p d := xs @ ys)) h) \<and> set ((L(hm p d := xs @ ys)) h) = members (V(p := None)) node hm h"
    proof (cases "h = hm p d")
      case True
      then show ?thesis using lh x m [of h] by auto
    qed (use lh m [of h] n [of h] in auto)
  qed
  then show ?thesis using x by blast
qed

definition masters_first :: "('p \<Rightarrow> cap_data option) \<Rightarrow> ('p \<Rightarrow> ptr) \<Rightarrow> ('p \<Rightarrow> cap_data \<Rightarrow> ptr) \<Rightarrow> (ptr \<Rightarrow> ptr list) \<Rightarrow> bool" where
  "masters_first V node hm L \<longleftrightarrow>
    (\<forall>p d. V p = Some d \<longrightarrow> cd_state d = CAP_STATE_VALID \<longrightarrow> cd_master d \<longrightarrow> hd (L (hm p d)) = node p)"

abbreviation node_of :: "cs_mem \<Rightarrow> ptr \<times> nat \<times> nat \<Rightarrow> ptr" where
  "node_of s p \<equiv> cap_list_node (addr_of s p)"

definition lists_ok :: "ptr set \<Rightarrow> ptr set \<Rightarrow> (ptr \<Rightarrow> ptr list) \<Rightarrow> cs_mem \<Rightarrow> bool" where
  "lists_ok Cs Os L s \<longleftrightarrow> heads_apart Cs Os s \<and> lists (list_nodes s) (heads Cs Os s) L \<and>
    links (caps_of Cs s) (node_of s) (home s) (heads Cs Os s) L \<and>
    (\<forall>p d. caps_of Cs s p = Some d \<longrightarrow> cap_wf Os d) \<and> masters_first (caps_of Cs s) (node_of s) (home s) L"

text \<open>An object with capabilities is referenced: the first one stands for a reference.\<close>

definition refs_ok :: "ptr set \<Rightarrow> (ptr \<Rightarrow> ptr list) \<Rightarrow> cs_mem \<Rightarrow> bool" where
  "refs_ok Os L s \<longleftrightarrow> (\<forall>q \<in> Os. L (oh_cap_list (headers s q)) \<noteq> [] \<longrightarrow> 0 < unat (oh_refcount (headers s q)))"

definition cs_inv :: "ptr set \<Rightarrow> ptr set \<Rightarrow> (ptr \<Rightarrow> ptr list) \<Rightarrow> cs_mem \<Rightarrow> bool" where
  "cs_inv Cs Os L s \<longleftrightarrow> slots_ok {} Cs s \<and> lists_ok Cs Os L s \<and> refs_ok Os L s"

lemma same_caps_of:
  assumes "same_caps P Cs s s'"
  shows "caps_of Cs s' = caps_of Cs s" "caps_of Cs s p = Some d \<Longrightarrow> addr_of s' p = addr_of s p"
proof -
  show "caps_of Cs s' = caps_of Cs s" using assms by (auto simp: caps_of_def same_caps_def)
  show "caps_of Cs s p = Some d \<Longrightarrow> addr_of s' p = addr_of s p"
    using assms by (cases p) (auto simp: caps_of_def same_caps_def split: if_splits)
qed

text \<open>A head or node of a list lies outside of memory that is not part of a table in use.\<close>

lemma lists_ok_same:
  assumes l: "lists_ok Cs Os L s" and ok: "slots_ok X Cs s" and same: "same_caps P Cs s s'"
    and hd: "\<And>q. oh_cap_list (headers s' q) = oh_cap_list (headers s q)"
    and nodes: "\<And>n. util_balign_down n 2048 \<notin> P \<Longrightarrow> list_nodes s' n = list_nodes s n"
    and P: "\<And>h. h \<in> heads Cs Os s \<Longrightarrow> util_balign_down h 2048 \<notin> P" "\<And>c. c \<in> Cs \<Longrightarrow> P \<inter> set (tables (cspaces s c)) = {}"
  shows "lists_ok Cs Os L s'"
proof -
  note V = same_caps_of [OF same]
  have rev: "cs_revoked_cap_list (cspaces s' c) = cs_revoked_cap_list (cspaces s c)" if "c \<in> Cs" for c
    using same that by (auto simp: same_caps_def static_eq_def)
  have H: "heads Cs Os s' = heads Cs Os s" using hd rev by (simp add: heads_def cong: image_cong)
  have apart: "heads_apart Cs Os s'"
  proof -
    have "inj_on (\<lambda>c. cs_revoked_cap_list (cspaces s' c)) Cs"
      using l rev by (simp add: lists_ok_def heads_apart_def cong: inj_on_cong)
    moreover have "util_balign_down h 2048 \<notin> set (tables (cspaces s' c)) - {NULL}" if "h \<in> heads Cs Os s" "c \<in> Cs" for h c
      using l that P(1) [OF that(1)] same by (fastforce simp: lists_ok_def heads_apart_def same_caps_def)
    ultimately show ?thesis using l hd rev H by (simp add: lists_ok_def heads_apart_def)
  qed
  have home: "home s' p d = home s p d" if "caps_of Cs s p = Some d" for p d
    using hd rev caps_of_slot [OF that] by (cases p) (simp add: home_def)
  have lk: "links (caps_of Cs s) (node_of s) (home s) (heads Cs Os s) L" using l by (simp add: lists_ok_def)
  have "members (caps_of Cs s) (node_of s') (home s') h = members (caps_of Cs s) (node_of s) (home s) h" for h
    using V(2) home unfolding members_def by metis
  then have lk': "links (caps_of Cs s') (node_of s') (home s') (heads Cs Os s') L"
    using lk unfolding links_def V(1) H by simp
  have "lists (list_nodes s') (heads Cs Os s) L"
  proof (rule lists_cong [of "list_nodes s"])
    show "lists (list_nodes s) (heads Cs Os s) L" using l by (simp add: lists_ok_def)
    fix h n assume h: "h \<in> heads Cs Os s" "n \<in> set (h # L h)"
    show "list_nodes s' n = list_nodes s n"
    proof (rule nodes, cases "n = h")
      case False
      then obtain p d where p: "n = node_of s p" "caps_of Cs s p = Some d" using lk h by (auto simp: links_def elim: membersE)
      then have "is_slot Cs s p" using caps_of_slot by blast
      then show "util_balign_down n 2048 \<notin> P"
        using addr_facts(3) [OF ok] P(2) p(1) by (cases p) fastforce
    qed (use P(1) [OF h(1)] in simp)
  qed
  then show ?thesis
    using l lk' apart V(2) home unfolding lists_ok_def H V(1) masters_first_def by simp
qed

lemma lists_ok_wf: "lists_ok Cs Os L s \<Longrightarrow> caps_of Cs s p = Some d \<Longrightarrow> cap_wf Os d"
  by (cases p) (auto simp: lists_ok_def)

lemma lists_ok_master:
  "lists_ok Cs Os L s \<Longrightarrow> caps_of Cs s p = Some d \<Longrightarrow> cd_state d = CAP_STATE_VALID \<Longrightarrow> cd_master d \<Longrightarrow>
    hd (L (home s p d)) = node_of s p"
  unfolding lists_ok_def masters_first_def by blast

section \<open>Linking and unlinking a capability\<close>

text \<open>Operations that leave the headers and the cspaces alone.\<close>

lemma heads_eq:
  assumes "\<And>q. oh_cap_list (headers s' q) = oh_cap_list (headers s q)" "cspaces s' = cspaces s"
  shows "heads Cs Os s' = heads Cs Os s" "heads_apart Cs Os s' = heads_apart Cs Os s" "home s' = home s"
  using assms by (auto simp: heads_def heads_apart_def home_def fun_eq_iff)

lemma home_in_heads: "cap_wf Os d \<Longrightarrow> fst p \<in> Cs \<Longrightarrow> home s p d \<in> heads Cs Os s"
  by (auto simp: cap_wf_def home_def heads_def)

lemma valid_home_not_revoked:
  assumes "heads_apart Cs Os s" "cap_wf Os e" "cd_state e = CAP_STATE_VALID" "cd_state d = CAP_STATE_REVOKED" "fst p \<in> Cs"
  shows "home s q e \<noteq> home s p d"
proof -
  have "cd_object e \<in> Os" using assms(2,3) by (auto simp: cap_wf_def)
  then show ?thesis using assms by (simp add: heads_apart_def home_def)
qed

lemma link_cap:
  assumes ok: "slots_ok {addr_of s p} Cs s" and l: "lists_ok Cs Os L s" and p: "is_slot Cs s p" "caps_of Cs s p = None"
    and d: "cap_wf Os d" "L (home s p d) = ys @ zs"
      "cd_state d = CAP_STATE_VALID \<longrightarrow> (if cd_master d then ys @ zs = [] else ys \<noteq> [])"
    and m: "lists m (heads Cs Os s) (L(home s p d := ys @ node_of s p # zs))"
    and s': "s' = set_cap (addr_of s p) d (s\<lparr>list_nodes := m\<rparr>)"
  shows "slots_ok {} Cs s' \<and> lists_ok Cs Os (L(home s p d := ys @ node_of s p # zs)) s' \<and>
    caps_of Cs s' = (caps_of Cs s)(p \<mapsto> d)"
proof -
  let ?V = "caps_of Cs s" and ?L = "L(home s p d := ys @ node_of s p # zs)"
  have st: "cd_state d \<noteq> CAP_STATE_NULL" using d(1) by (auto simp: cap_wf_def)
  have f: "cspaces s' = cspaces s" "cap_tables s' = cap_tables s" "caps s' = (caps s)(addr_of s p := d)"
      "\<And>q. oh_cap_list (headers s' q) = oh_cap_list (headers s q)" "list_nodes s' = m"
    by (simp_all add: s' set_cap_def)
  note V = caps_of_set [OF ok p(1) f(1,2,3)]
  note H = heads_eq(1,2) [OF f(4) f(1), of Cs Os] heads_eq(3) [OF f(4) f(1)]
  have "slots_ok {} Cs s'" using slots_ok_set [OF ok p(1) f(1,2,3)] st by simp
  moreover have hp: "home s p d \<in> heads Cs Os s" using home_in_heads [OF d(1)] p(1) by (cases p) simp
  have "links (?V(p \<mapsto> d)) (node_of s) (home s) (heads Cs Os s) ?L"
  proof (rule links_insert [of ?V _ _ _ L])
    show "links ?V (node_of s) (home s) (heads Cs Os s) L" using l by (simp add: lists_ok_def)
    show "node_of s q \<noteq> node_of s p" if "?V q = Some e" for q e
      using addr_inj [OF ok _ p(1), of q] caps_of_slot [OF that] that p(2) by auto
  qed (fact p(2) hp d(2))+
  moreover have "masters_first (?V(p \<mapsto> d)) (node_of s) (home s) ?L" unfolding masters_first_def
  proof (intro allI impI)
    fix q e assume q: "(?V(p \<mapsto> d)) q = Some e" "cd_state e = CAP_STATE_VALID" "cd_master e"
    show "hd (?L (home s q e)) = node_of s q"
    proof (cases "q = p")
      case True
      then show ?thesis using q d(3) by simp
    next
      case False
      then have e: "?V q = Some e" using q(1) by simp
      have old: "hd (L (home s q e)) = node_of s q" using lists_ok_master [OF l _ q(2,3)] e by blast
      have wf: "cap_wf Os e" using lists_ok_wf [OF l e] .
      have mem: "L (home s q e) \<noteq> []"
        using l e membersI [of ?V q e "home s" _ "node_of s"] caps_of_slot [OF e] home_in_heads [OF wf, of q Cs s]
        by (cases q) (fastforce simp: lists_ok_def links_def)
      show ?thesis
      proof (cases "home s q e = home s p d")
        case True
        have "cd_state d = CAP_STATE_VALID"
          using valid_home_not_revoked [OF _ wf q(2), of Cs s d p q] True d(1) p(1) l
          by (cases p) (auto simp: cap_wf_def lists_ok_def)
        then have "ys \<noteq> []" using d(2,3) mem True by (auto split: if_splits)
        then show ?thesis using old True d(2) by simp
      qed (use old in simp)
    qed
  qed
  moreover have "\<forall>q e. (?V(p \<mapsto> d)) q = Some e \<longrightarrow> cap_wf Os e"
    using lists_ok_wf [OF l] d(1) by (metis fun_upd_apply option.inject)
  ultimately show ?thesis using l m st unfolding lists_ok_def V H f(5) by simp
qed

lemma unlink_cap:
  assumes ok: "slots_ok {} Cs s" and l: "lists_ok Cs Os L s" and p: "caps_of Cs s p = Some d"
  shows "\<exists>xs ys m. L (home s p d) = xs @ node_of s p # ys \<and>
    list_delete_node (home s p d) (node_of s p) (list_nodes s) = Some (xs = [] \<and> ys \<noteq> [], m) \<and>
    list_is_empty (home s p d) m = Some (xs @ ys = []) \<and>
    (let s' = set_cap (addr_of s p) null_cap_data (s\<lparr>list_nodes := m\<rparr>)
     in slots_ok {addr_of s p} Cs s' \<and> lists_ok Cs Os (L(home s p d := xs @ ys)) s' \<and>
       caps_of Cs s' = (caps_of Cs s)(p := None) \<and> addr_of s' = addr_of s \<and> is_slot Cs s' = is_slot Cs s)"
proof -
  let ?V = "caps_of Cs s" and ?h = "home s p d"
  note ps = caps_of_slot [OF p]
  have wf: "cap_wf Os d" using lists_ok_wf [OF l p] .
  have hp: "?h \<in> heads Cs Os s" using home_in_heads [OF wf] ps by (cases p) simp
  obtain xs ys where x: "L ?h = xs @ node_of s p # ys" "links (?V(p := None)) (node_of s) (home s) (heads Cs Os s) (L(?h := xs @ ys))"
  proof -
    have "links ?V (node_of s) (home s) (heads Cs Os s) L" using l by (simp add: lists_ok_def)
    moreover have "node_of s q \<noteq> node_of s p" if "?V q = Some e" "q \<noteq> p" for q e
      using addr_inj [OF ok, of q p] caps_of_slot [OF that(1)] ps that(2) by auto
    ultimately show thesis using links_delete [of ?V "node_of s" "home s" "heads Cs Os s" L p d] p hp that by blast
  qed
  obtain m where m: "list_delete_node ?h (node_of s p) (list_nodes s) = Some (xs = [] \<and> ys \<noteq> [], m)"
      "lists m (heads Cs Os s) (L(?h := xs @ ys))"
    using lists_delete [of "list_nodes s" "heads Cs Os s" L ?h xs "node_of s p" ys] l hp x(1) by (auto simp: lists_ok_def)
  have em: "list_is_empty ?h m = Some (xs @ ys = [])" using list_queries(1) [OF lists_list [OF m(2) hp]] by simp
  define s' where "s' = set_cap (addr_of s p) null_cap_data (s\<lparr>list_nodes := m\<rparr>)"
  have f: "cspaces s' = cspaces s" "cap_tables s' = cap_tables s" "caps s' = (caps s)(addr_of s p := null_cap_data)"
      "\<And>q. oh_cap_list (headers s' q) = oh_cap_list (headers s q)" "list_nodes s' = m"
    by (simp_all add: s'_def set_cap_def)
  have psl: "is_slot Cs s p" using ps by blast
  note V = caps_of_set [OF ok psl f(1,2,3)]
  note H = heads_eq(1,2) [OF f(4) f(1), of Cs Os] heads_eq(3) [OF f(4) f(1)]
  have "slots_ok {addr_of s p} Cs s'"
    by (rule slots_ok_set [OF ok psl f(1,2,3)]) (use ps in \<open>auto simp: null_cap_data_def\<close>)
  moreover have "masters_first (?V(p := None)) (node_of s) (home s) (L(?h := xs @ ys))" unfolding masters_first_def
  proof (intro allI impI)
    fix q e assume q: "(?V(p := None)) q = Some e" "cd_state e = CAP_STATE_VALID" "cd_master e"
    then have e: "?V q = Some e" "q \<noteq> p" by (auto split: if_splits)
    have old: "hd (L (home s q e)) = node_of s q" using lists_ok_master [OF l _ q(2,3)] e by blast
    have "node_of s q \<noteq> node_of s p" using addr_inj [OF ok, of q p] caps_of_slot [OF e(1)] ps e(2) by auto
    then show "hd ((L(?h := xs @ ys)) (home s q e)) = node_of s q"
      using old x(1) by (cases "home s q e = ?h"; cases xs) auto
  qed
  moreover have "\<forall>q e. (?V(p := None)) q = Some e \<longrightarrow> cap_wf Os e"
    using lists_ok_wf [OF l] by (metis fun_upd_apply option.distinct(1))
  ultimately have "slots_ok {addr_of s p} Cs s' \<and> lists_ok Cs Os (L(?h := xs @ ys)) s' \<and>
       caps_of Cs s' = ?V(p := None) \<and> addr_of s' = addr_of s \<and> is_slot Cs s' = is_slot Cs s"
    using l m(2) x(2) unfolding lists_ok_def V H f(5) by (simp add: null_cap_data_def)
  then show ?thesis using x(1) m(1) em unfolding s'_def Let_def by blast
qed

end
