(* ===== verification/Cspace_Ops.thy ===== *)
theory Cspace_Ops
  imports Cspace_Inv
begin

text \<open>
  What each operation on capabilities does to the capabilities, seen as a function of their place, and
  that it keeps the invariant.
\<close>

section \<open>Looking up a capability\<close>

text \<open>The place that an identifier names in a cspace.\<close>

definition id_place :: "cs_mem \<Rightarrow> ptr \<Rightarrow> cap_id \<Rightarrow> (ptr \<times> nat \<times> nat) option" where
  "id_place s c i = (case cspace_cap_id_to_indices (cspaces s c) i of Inl _ \<Rightarrow> None | Inr (u, l) \<Rightarrow> Some (c, u, l))"

definition named_cap :: "ptr set \<Rightarrow> cs_mem \<Rightarrow> ptr \<Rightarrow> cap_id \<Rightarrow> cap_data option" where
  "named_cap Cs s c i = Option.bind (id_place s c i) (caps_of Cs s)"

lemma indices_bounds:
  "cspace_cap_id_to_indices k i = Inr (u, l) \<Longrightarrow> u < length (tables k) \<and> l < 62"
  "cspace_cap_id_to_indices k i = Inl e \<Longrightarrow> e = ERROR_CSPACE_CAP_NULL"
  by (auto simp: cspace_cap_id_to_indices_def cspace_decode_cap_id_def CSPACE_NUM_CAP_TABLES_def SLOTS_eq Let_def
      split: sum.splits if_splits)

lemma lookup_slot:
  assumes "c \<in> Cs"
  shows "cspace_lookup_cap_slot c i s = (case id_place s c i of
      Some p \<Rightarrow> if is_slot Cs s p then Inr (addr_of s p) else Inl ERROR_CSPACE_CAP_NULL
    | None \<Rightarrow> Inl ERROR_CSPACE_CAP_NULL)"
proof (cases "cspace_cap_id_to_indices (cspaces s c) i")
  case (Inl e)
  then show ?thesis using indices_bounds(2) [OF Inl] by (simp add: cspace_lookup_cap_slot_def id_place_def)
next
  case (Inr ul)
  then show ?thesis using indices_bounds(1) [of _ i "fst ul" "snd ul"] assms
    by (cases ul) (auto simp: cspace_lookup_cap_slot_def id_place_def slot_at_def Let_def)
qed

lemma lookup_named:
  assumes "c \<in> Cs"
  shows "(\<exists>p. id_place s c i = Some p \<and> is_slot Cs s p \<and> cspace_lookup_cap_slot c i s = Inr (addr_of s p) \<and>
      named_cap Cs s c i = (if cd_state (caps s (addr_of s p)) = CAP_STATE_NULL then None else Some (caps s (addr_of s p)))) \<or>
    cspace_lookup_cap_slot c i s = Inl ERROR_CSPACE_CAP_NULL \<and> named_cap Cs s c i = None"
proof (cases "id_place s c i")
  case None
  then show ?thesis using lookup_slot [OF assms] by (simp add: named_cap_def)
next
  case (Some p)
  then show ?thesis using lookup_slot [OF assms] slot_caps_of [of Cs s p] not_slot [of Cs s p]
    by (cases "is_slot Cs s p") (auto simp: named_cap_def)
qed

lemma id_place_static: "static_eq (cspaces s c) (cspaces s' c) \<Longrightarrow> id_place s' c i = id_place s c i"
  by (simp add: id_place_def cspace_cap_id_to_indices_def cspace_decode_cap_id_def CSPACE_NUM_CAP_TABLES_def static_eq_def Let_def)

text \<open>The check of a capability, on the capability if there is one.\<close>

definition cap_check :: "cap_data option \<Rightarrow> object_type \<Rightarrow> cap_rights \<Rightarrow> error_t" where
  "cap_check cap type rights = (case cap of
     None \<Rightarrow> ERROR_CSPACE_CAP_NULL
   | Some d \<Rightarrow>
       if cd_state d = CAP_STATE_REVOKED then ERROR_CSPACE_CAP_REVOKED
       else if cd_type d \<noteq> type \<and> type \<noteq> OBJECT_TYPE_ANY then ERROR_CSPACE_WRONG_OBJECT_TYPE
       else if cd_rights d AND rights \<noteq> rights then ERROR_CSPACE_INSUFFICIENT_RIGHTS
       else OK)"

lemma check_cap_data:
  "cap_wf Os d \<Longrightarrow> cspace_check_cap_data d type rights = Some (cap_check (Some d) type rights)"
  "cd_state d = CAP_STATE_NULL \<Longrightarrow> cspace_check_cap_data d type rights = Some ERROR_CSPACE_CAP_NULL"
  by (auto simp: cap_wf_def cspace_check_cap_data_def cap_check_def Let_def)

lemma check_named:
  assumes "lists_ok Cs Os L s" "c \<in> Cs"
  shows "(\<exists>p. id_place s c i = Some p \<and> is_slot Cs s p \<and> cspace_lookup_cap_slot c i s = Inr (addr_of s p) \<and>
      cspace_check_cap_data (caps s (addr_of s p)) type rights = Some (cap_check (named_cap Cs s c i) type rights) \<and>
      (named_cap Cs s c i \<noteq> None \<longrightarrow> caps_of Cs s p = named_cap Cs s c i \<and> named_cap Cs s c i = Some (caps s (addr_of s p)))) \<or>
    cspace_lookup_cap_slot c i s = Inl ERROR_CSPACE_CAP_NULL \<and> named_cap Cs s c i = None"
proof -
  have "cspace_check_cap_data (caps s (addr_of s p)) type rights = Some (cap_check (named_cap Cs s c i) type rights) \<and>
      (named_cap Cs s c i \<noteq> None \<longrightarrow> caps_of Cs s p = named_cap Cs s c i)"
    if p: "id_place s c i = Some p" "named_cap Cs s c i = (if cd_state (caps s (addr_of s p)) = CAP_STATE_NULL then None else Some (caps s (addr_of s p)))" for p
  proof (cases "cd_state (caps s (addr_of s p)) = CAP_STATE_NULL")
    case True
    then show ?thesis using p check_cap_data(2) by (simp add: cap_check_def)
  next
    case False
    then have v: "caps_of Cs s p = Some (caps s (addr_of s p))" using p by (simp add: named_cap_def)
    then show ?thesis using p False check_cap_data(1) [OF lists_ok_wf [OF assms(1) v]] by simp
  qed
  then show ?thesis using lookup_named [OF assms(2), of s i] by (auto split: if_splits)
qed

section \<open>Looking up an object\<close>

lemma object_with_caps:
  assumes inv: "cs_inv Cs Os L s" and p: "caps_of Cs s p = Some d" "cd_state d = CAP_STATE_VALID"
  shows "0 < unat (oh_refcount (headers s (cd_object d)))" "cd_object d \<in> Os" "cd_object d \<noteq> NULL" "cd_type d \<noteq> OBJECT_TYPE_ANY"
proof -
  have l: "lists_ok Cs Os L s" "refs_ok Os L s" using inv by (auto simp: cs_inv_def)
  have wf: "cap_wf Os d" using lists_ok_wf [OF l(1) p(1)] .
  then show o: "cd_object d \<in> Os" "cd_object d \<noteq> NULL" "cd_type d \<noteq> OBJECT_TYPE_ANY" using p(2) by (auto simp: cap_wf_def)
  have "home s p d \<in> heads Cs Os s" using home_in_heads [OF wf] caps_of_slot [OF p(1)] by (cases p) simp
  then have "node_of s p \<in> set (L (home s p d))"
    using l(1) membersI [of "caps_of Cs s" p d "home s" _ "node_of s"] p(1) by (auto simp: lists_ok_def links_def)
  then have "L (oh_cap_list (headers s (cd_object d))) \<noteq> []" using p(2) by (auto simp: home_def)
  then show "0 < unat (oh_refcount (headers s (cd_object d)))" using l(2) o(1) by (simp add: refs_ok_def)
qed

text \<open>Only the headers of objects change.\<close>

lemma cs_inv_headers:
  assumes inv: "cs_inv Cs Os L s" and refs: "refs_ok Os L s'"
    and f: "cspaces s' = cspaces s" "cap_tables s' = cap_tables s" "caps s' = caps s" "list_nodes s' = list_nodes s"
      "\<And>q. oh_cap_list (headers s' q) = oh_cap_list (headers s q)"
  shows "cs_inv Cs Os L s'" "caps_of Cs s' = caps_of Cs s"
proof -
  show "caps_of Cs s' = caps_of Cs s" by (simp add: caps_of_def cap_at_def slot_at_def f fun_eq_iff)
  have "same_caps {} Cs s s'" by (auto simp: same_caps_def cap_at_def slot_at_def f)
  then have "lists_ok Cs Os L s'"
    using inv lists_ok_same [of Cs Os L s "{}" "{}" s'] f by (auto simp: cs_inv_def)
  moreover have "slots_ok {} Cs s'" using inv
    by (auto simp: cs_inv_def slots_ok_def f intro: cspace_ok_cong [of "{}" "{}" s])
  ultimately show "cs_inv Cs Os L s'" using refs by (simp add: cs_inv_def)
qed

lemma cs_inv_refcount:
  assumes "cs_inv Cs Os L s" "unat (oh_refcount (headers s q)) \<le> unat r"
  shows "cs_inv Cs Os L (set_refcount q r s)" "caps_of Cs (set_refcount q r s) = caps_of Cs s"
proof -
  have "refs_ok Os L (set_refcount q r s)" using assms by (auto simp: cs_inv_def refs_ok_def set_refcount_def)
  then show "cs_inv Cs Os L (set_refcount q r s)" "caps_of Cs (set_refcount q r s) = caps_of Cs s"
    using cs_inv_headers [OF assms(1), of "set_refcount q r s"] by (auto simp: set_refcount_def)
qed

lemma lookup_object:
  assumes inv: "cs_inv Cs Os L s" "c \<in> Cs" and t: "type \<noteq> OBJECT_TYPE_ANY"
    and room: "\<And>q. oh_refcount (headers s q) < 0xFFFFFFFF"
  shows "cspace_lookup_object c i type rights active_only s =
    (case named_cap Cs s c i of
       Some d \<Rightarrow>
         if cap_check (Some d) type rights = OK then
           if active_only \<and> oh_state (headers s (cd_object d)) \<noteq> OBJECT_STATE_ACTIVE then Some (Inl ERROR_OBJECT_STATE, s)
           else Some (Inr (cd_object d), set_refcount (cd_object d) (oh_refcount (headers s (cd_object d)) + 1) s)
         else Some (Inl (cap_check (Some d) type rights), s)
     | None \<Rightarrow> Some (Inl ERROR_CSPACE_CAP_NULL, s))"
proof -
  have l: "lists_ok Cs Os L s" using inv by (simp add: cs_inv_def)
  consider (none) "cspace_lookup_cap_slot c i s = Inl ERROR_CSPACE_CAP_NULL" "named_cap Cs s c i = None"
    | (null) p where "cspace_lookup_cap_slot c i s = Inr (addr_of s p)" "named_cap Cs s c i = None"
        "cspace_check_cap_data (caps s (addr_of s p)) type rights = Some ERROR_CSPACE_CAP_NULL"
    | (cap) p where "cspace_lookup_cap_slot c i s = Inr (addr_of s p)" "named_cap Cs s c i = Some (caps s (addr_of s p))"
        "cspace_check_cap_data (caps s (addr_of s p)) type rights = Some (cap_check (Some (caps s (addr_of s p))) type rights)"
        "caps_of Cs s p = Some (caps s (addr_of s p))"
    using check_named [OF l inv(2), of i type rights] by (cases "named_cap Cs s c i") (auto simp: cap_check_def)
  then show ?thesis
  proof cases
    case none
    then show ?thesis using t by (simp add: cspace_lookup_object_def)
  next
    case null
    then show ?thesis using t by (simp add: cspace_lookup_object_def)
  next
    case cap
    show ?thesis
    proof (cases "cap_check (Some (caps s (addr_of s p))) type rights = OK")
      case True
      then have v: "cd_state (caps s (addr_of s p)) = CAP_STATE_VALID"
        using lists_ok_wf [OF l cap(4)] by (auto simp: cap_check_def cap_wf_def)
      note o = object_with_caps [OF inv(1) cap(4) v]
      have "oh_refcount (headers s (cd_object (caps s (addr_of s p)))) \<noteq> 0" using o(1) by auto
      then show ?thesis using cap True t o(3) room by (simp add: cspace_lookup_object_def object_get_safe_def get_safe_eq Let_def)
    next
      case False
      then show ?thesis using cap t by (simp add: cspace_lookup_object_def)
    qed
  qed
qed

section \<open>Taking a slot for a capability\<close>

text \<open>Memory for a new table is not in use, not even for the head of a list.\<close>

definition mem_ok :: "ptr set \<Rightarrow> ptr set \<Rightarrow> cs_mem \<Rightarrow> ptr \<Rightarrow> ptr result \<Rightarrow> bool" where
  "mem_ok Cs Os s c alloc \<longleftrightarrow> alloc_ok Cs s c alloc \<and> (\<forall>h \<in> heads Cs Os s. alloc \<noteq> Inr (util_balign_down h 2048))"

text \<open>Whether an allocation must fail, and how.\<close>

definition alloc_error :: "cs_mem \<Rightarrow> ptr \<Rightarrow> ptr result \<Rightarrow> error_t" where
  "alloc_error s c alloc =
    (if cs_cap_count (cspaces s c) = cs_max_caps (cspaces s c) then ERROR_CSPACE_FULL
     else if (\<forall>i < length (tables (cspaces s c)). \<not> bm_bit (available_tables (cspaces s c)) i) \<and> (\<exists>e. alloc = Inl e) then ERROR_NOMEM
     else OK)"

definition got_slot :: "ptr set \<Rightarrow> ptr set \<Rightarrow> (ptr \<Rightarrow> ptr list) \<Rightarrow> ptr \<Rightarrow> ptr result \<Rightarrow> cs_mem \<Rightarrow> ptr \<times> nat \<times> nat \<Rightarrow> cap_id \<Rightarrow> cs_mem \<Rightarrow> bool" where
  "got_slot Cs Os L c alloc s p i s' \<longleftrightarrow> fst p = c \<and> id_place s c i = Some p \<and> caps_of Cs s p = None \<and> is_slot Cs s' p \<and>
    slots_ok {addr_of s' p} Cs s' \<and> lists_ok Cs Os L s' \<and> refs_ok Os L s' \<and> same_caps (fresh_tables alloc) Cs s s' \<and>
    (\<forall>q. oh_cap_list (headers s' q) = oh_cap_list (headers s q) \<and> oh_state (headers s' q) = oh_state (headers s q) \<and>
      (q \<noteq> cs_partition (cspaces s c) \<longrightarrow> headers s' q = headers s q) \<and>
      unat (oh_refcount (headers s q)) \<le> unat (oh_refcount (headers s' q))) \<and>
    obj_log s' = obj_log s \<and> thread_cspace s' = thread_cspace s"

lemma take_cap_slot:
  assumes inv: "cs_inv Cs Os L s" "c \<in> Cs" and mem: "mem_ok Cs Os s c alloc"
  shows "if alloc_error s c alloc \<noteq> OK then cspace_allocate_cap_slot c alloc s = Some (Inl (alloc_error s c alloc), s)
    else \<exists>p i s'. cspace_allocate_cap_slot c alloc s = Some (Inr (addr_of s' p, i), s') \<and> got_slot Cs Os L c alloc s p i s'"
proof (cases "alloc_error s c alloc = OK")
  case False
  then show ?thesis using allocate_slot [of Cs s c alloc] inv mem
    by (auto simp: alloc_error_def cs_inv_def slots_ok_def mem_ok_def split: if_splits)
next
  case True
  have ok: "\<forall>c' \<in> Cs. cspace_ok {} {} s c'" "slots_ok {} Cs s" "lists_ok Cs Os L s" "refs_ok Os L s"
    using inv by (auto simp: cs_inv_def slots_ok_def)
  obtain i j s' where a: "cspace_allocate_cap_slot c alloc s = Some (Inr (slot_at s' c i j, cspace_indices_to_cap_id (cspaces s c) i j), s')"
      "taken Cs c alloc s i j s'"
    using allocate_slot [OF ok(1) inv(2), of alloc] mem True by (auto simp: alloc_error_def mem_ok_def split: if_splits)
  have okc: "cspace_ok {} {} s c" using ok inv(2) by blast
  let ?p = "(c, i, j)"
  have t: "i < length (tables (cspaces s c))" "tables (cspaces s' c) ! i \<noteq> NULL" "j < 62" "cap_at s c i j = None"
      "slots_ok {addr_of s' ?p} Cs s'" "same_caps (fresh_tables alloc) Cs s s'"
      "\<And>q. oh_cap_list (headers s' q) = oh_cap_list (headers s q)"
      "\<And>n. util_balign_down n 2048 \<notin> fresh_tables alloc \<Longrightarrow> list_nodes s' n = list_nodes s n"
    using a(2) by (auto simp: taken_def slots_ok_def)
  have "id_place s c (cspace_indices_to_cap_id (cspaces s c) i j) = Some ?p"
    using indices_roundtrip [of "cspaces s c" i j] okc t(1,3)
    by (simp add: id_place_def cspace_ok_def Let_def CSPACE_NUM_CAP_TABLES_def SLOTS_eq)
  moreover have "lists_ok Cs Os L s'"
  proof (rule lists_ok_same [OF ok(3,2) t(6,7,8)])
    show "util_balign_down h 2048 \<notin> fresh_tables alloc" if "h \<in> heads Cs Os s" for h
      using mem that by (auto simp: mem_ok_def fresh_tables_def)
    show "fresh_tables alloc \<inter> set (tables (cspaces s c)) = {}" if "c \<in> Cs" for c
      using mem that by (auto simp: mem_ok_def alloc_ok_def fresh_tables_def)
  qed
  moreover have "refs_ok Os L s'"
    using ok(4) a(2) unfolding refs_ok_def taken_def by (metis less_le_trans)
  moreover have "is_slot Cs s' ?p" using t inv(2) by (auto simp: same_caps_def static_eq_def)
  moreover have "caps_of Cs s ?p = None" using t(4) by (simp add: caps_of_def)
  ultimately have "got_slot Cs Os L c alloc s ?p (cspace_indices_to_cap_id (cspaces s c) i j) s'"
    using a(2) t(5) unfolding got_slot_def taken_def by simp
  then show ?thesis using True a(1) by auto
qed

lemma give_back_slot:
  assumes ok: "slots_ok {addr_of s p} Cs s" "lists_ok Cs Os L s" "refs_ok Os L s" and p: "is_slot Cs s p"
  shows "\<exists>s'. cspace_free_cap_slot (fst p) (addr_of s p) s = Some s' \<and> cs_inv Cs Os L s' \<and> same_caps {} Cs s s' \<and>
    headers s' = headers s \<and> thread_cspace s' = thread_cspace s \<and>
    (obj_log s' = obj_log s \<or> obj_log s' = obj_log s @ [Rcu_enqueue CSPACE_RELEASE_LEVEL (cspace_get_cap_table (addr_of s p))])"
proof -
  obtain c i j where pp: "p = (c, i, j)" by (cases p)
  have sl: "c \<in> Cs" "i < length (tables (cspaces s c))" "tables (cspaces s c) ! i \<noteq> NULL" "j < 62" using p by (auto simp: pp)
  have tab: "cspace_get_cap_table (addr_of s p) = tables (cspaces s c) ! i" using addr_facts(2) [OF ok(1) p] by (simp add: pp)
  obtain s' where s': "cspace_free_cap_slot c (addr_of s p) s = Some s'" "freed Cs (tables (cspaces s c) ! i) s s'"
    using free_slot [of Cs "addr_of s p" s c i _ j] ok(1) sl by (auto simp: slots_ok_def pp slot_at_def)
  have f: "slots_ok {} Cs s'" "same_caps {} Cs s s'" "headers s' = headers s" "list_nodes s' = list_nodes s"
    using s'(2) by (auto simp: freed_def slots_ok_def)
  have "lists_ok Cs Os L s'"
    by (rule lists_ok_same [OF ok(2,1) f(2)]) (simp_all add: f)
  then show ?thesis using s' f ok(3) unfolding tab by (auto simp: pp cs_inv_def refs_ok_def freed_def)
qed

section \<open>Creating a capability\<close>

lemma fresh_node:
  assumes ok: "slots_ok {addr_of s p} Cs s" and l: "lists_ok Cs Os L s" and p: "is_slot Cs s p" "caps_of Cs s p = None"
  shows "\<forall>h \<in> heads Cs Os s. node_of s p \<notin> set (h # L h)"
proof
  fix h assume h: "h \<in> heads Cs Os s"
  have t: "util_balign_down (node_of s p) 2048 \<in> set (tables (cspaces s (fst p))) - {NULL}" "fst p \<in> Cs"
    using addr_facts(3) [OF ok p(1)] p(1) by (cases p; auto)+
  then have "node_of s p \<noteq> h" using l h by (fastforce simp: lists_ok_def heads_apart_def)
  moreover have "node_of s p \<notin> members (caps_of Cs s) (node_of s) (home s) h"
  proof
    assume "node_of s p \<in> members (caps_of Cs s) (node_of s) (home s) h"
    then obtain q d where q: "node_of s p = node_of s q" "caps_of Cs s q = Some d" by (rule membersE)
    then show False using addr_inj [OF ok p(1), of q] caps_of_slot [OF q(2)] p(2) by auto
  qed
  ultimately show "node_of s p \<notin> set (h # L h)" using l h by (simp add: lists_ok_def links_def)
qed

text \<open>An object that no valid capability designates has an empty list.\<close>

definition unreferenced :: "ptr set \<Rightarrow> cs_mem \<Rightarrow> ptr \<Rightarrow> bool" where
  "unreferenced Cs s q \<longleftrightarrow> (\<forall>p d. caps_of Cs s p = Some d \<longrightarrow> cd_state d = CAP_STATE_VALID \<longrightarrow> cd_object d \<noteq> q)"

lemma object_members:
  assumes l: "lists_ok Cs Os L s" and q: "q \<in> Os"
  shows "distinct (L (oh_cap_list (headers s q)))"
    and "set (L (oh_cap_list (headers s q))) =
      node_of s ` {p. \<exists>d. caps_of Cs s p = Some d \<and> cd_state d = CAP_STATE_VALID \<and> cd_object d = q}"
proof -
  let ?h = "oh_cap_list (headers s q)"
  have a: "heads_apart Cs Os s" using l by (simp add: lists_ok_def)
  have h: "home s p d = ?h \<longleftrightarrow> cd_state d = CAP_STATE_VALID \<and> cd_object d = q" if p: "caps_of Cs s p = Some d" for p d
  proof -
    have "cap_wf Os d" "fst p \<in> Cs" using lists_ok_wf [OF l p] caps_of_slot [OF p] by (cases p; simp)+
    then show ?thesis using a q unfolding heads_apart_def home_def cap_wf_def
      by (cases "cd_state d = CAP_STATE_VALID") (auto dest: inj_onD, metis)
  qed
  have "?h \<in> heads Cs Os s" using q by (simp add: heads_def)
  then have L: "distinct (L ?h)" "set (L ?h) = members (caps_of Cs s) (node_of s) (home s) ?h"
    using l by (simp_all add: lists_ok_def links_def)
  show "distinct (L ?h)" by (fact L(1))
  show "set (L ?h) = node_of s ` {p. \<exists>d. caps_of Cs s p = Some d \<and> cd_state d = CAP_STATE_VALID \<and> cd_object d = q}"
    unfolding L(2) members_def using h by blast
qed

lemma unreferenced_empty:
  assumes "lists_ok Cs Os L s" "q \<in> Os"
  shows "unreferenced Cs s q \<longleftrightarrow> L (oh_cap_list (headers s q)) = []"
proof -
  have "unreferenced Cs s q \<longleftrightarrow> {p. \<exists>d. caps_of Cs s p = Some d \<and> cd_state d = CAP_STATE_VALID \<and> cd_object d = q} = {}"
    unfolding unreferenced_def by blast
  also have "\<dots> \<longleftrightarrow> set (L (oh_cap_list (headers s q))) = {}" unfolding object_members(2) [OF assms] by (rule image_is_empty [symmetric])
  finally show ?thesis by simp
qed

text \<open>What an operation leaves alone: the shape of the cspaces and the heads of the lists.\<close>

definition cs_frame :: "ptr set \<Rightarrow> cs_mem \<Rightarrow> cs_mem \<Rightarrow> bool" where
  "cs_frame Cs s s' \<longleftrightarrow> (\<forall>c \<in> Cs. static_eq (cspaces s c) (cspaces s' c)) \<and> (\<forall>q. oh_cap_list (headers s' q) = oh_cap_list (headers s q))"

definition master_cap :: "ptr \<Rightarrow> object_type \<Rightarrow> cap_rights \<Rightarrow> cap_data" where
  "master_cap q type rights =
    \<lparr>cd_object = q, cd_rights = rights, cd_master = True, cd_type = type, cd_state = CAP_STATE_VALID\<rparr>"

definition added :: "ptr set \<Rightarrow> ptr set \<Rightarrow> cs_mem \<Rightarrow> ptr \<Rightarrow> cap_id \<Rightarrow> cap_data \<Rightarrow> cs_mem \<Rightarrow> bool" where
  "added Cs Os s c i d s' \<longleftrightarrow> (\<exists>L'. cs_inv Cs Os L' s') \<and> cs_frame Cs s s' \<and> obj_log s' = obj_log s \<and>
    (case id_place s c i of None \<Rightarrow> False | Some p \<Rightarrow> caps_of Cs s p = None \<and> caps_of Cs s' = (caps_of Cs s)(p \<mapsto> d))"

lemma create_cap:
  assumes inv: "cs_inv Cs Os L s" "c \<in> Cs" and mem: "mem_ok Cs Os s c alloc"
    and q: "q \<in> Os" "q \<noteq> NULL" "type \<noteq> OBJECT_TYPE_ANY" "0 < unat (oh_refcount (headers s q))" "unreferenced Cs s q"
  shows "if alloc_error s c alloc \<noteq> OK
    then cspace_create_restricted_master_cap c q type rights alloc s = Some (Inl (alloc_error s c alloc), s)
    else \<exists>i s'. cspace_create_restricted_master_cap c q type rights alloc s = Some (Inr i, s') \<and>
      added Cs Os s c i (master_cap q type rights) s'"
proof (cases "alloc_error s c alloc = OK")
  case False
  then show ?thesis using take_cap_slot [OF inv mem] q(3) by (simp add: cspace_create_restricted_master_cap_def)
next
  case True
  then obtain p i s1 where a: "cspace_allocate_cap_slot c alloc s = Some (Inr (addr_of s1 p, i), s1)" "got_slot Cs Os L c alloc s p i s1"
    using take_cap_slot [OF inv mem] by auto
  have g: "slots_ok {addr_of s1 p} Cs s1" "lists_ok Cs Os L s1" "is_slot Cs s1 p" "caps_of Cs s1 p = None" "caps_of Cs s1 = caps_of Cs s"
      "oh_cap_list (headers s1 q) = oh_cap_list (headers s q)" "0 < unat (oh_refcount (headers s1 q))" "refs_ok Os L s1"
    using a(2) same_caps_of(1) [of "fresh_tables alloc" Cs s s1] q(4) unfolding got_slot_def by (auto intro: less_le_trans)
  let ?h = "oh_cap_list (headers s1 q)"
  define d where "d = master_cap q type rights"
  have e: "L ?h = []" using unreferenced_empty [of Cs Os L s q] q(1,5) inv(1) g(6) by (simp add: cs_inv_def)
  have hd: "home s1 p d = ?h" by (simp add: home_def d_def master_cap_def)
  have hh: "?h \<in> heads Cs Os s1" using q(1) by (simp add: heads_def)
  obtain m where m: "list_insert_at_head ?h (node_of s1 p) (list_nodes s1) = Some m" "lists m (heads Cs Os s1) (L(?h := [node_of s1 p]))"
    using lists_insert_at_head [of "list_nodes s1" "heads Cs Os s1" L ?h "node_of s1 p"] hh fresh_node [OF g(1,2,3,4)] addr_facts(1) [OF g(1,3)] g(2) e
    by (auto simp: lists_ok_def)
  define s' where "s' = set_cap (addr_of s1 p) d (s1\<lparr>list_nodes := m\<rparr>)"
  have wf: "cap_wf Os d" using q by (simp add: cap_wf_def d_def master_cap_def)
  have k: "slots_ok {} Cs s'" "lists_ok Cs Os (L(?h := [node_of s1 p])) s'" "caps_of Cs s' = (caps_of Cs s1)(p \<mapsto> d)"
    using link_cap [OF g(1,2,3,4) wf, of "[]" "[]" m s'] hd e m(2) s'_def by (auto simp: d_def master_cap_def)
  have f: "headers s' = headers s1" "cspaces s' = cspaces s1" "obj_log s' = obj_log s1" by (simp_all add: s'_def set_cap_def)
  have "refs_ok Os (L(?h := [node_of s1 p])) s'"
  proof -
    have "inj_on (\<lambda>q. oh_cap_list (headers s1 q)) Os" using g(2) by (simp add: lists_ok_def heads_apart_def)
    then show ?thesis using g(7,8) q(1) unfolding refs_ok_def f by (auto dest: inj_onD)
  qed
  then have "cs_inv Cs Os (L(?h := [node_of s1 p])) s'" using k by (simp add: cs_inv_def)
  moreover have "cspace_create_restricted_master_cap c q type rights alloc s = Some (Inr i, s')"
    using a(1) m(1) q(3) by (simp add: cspace_create_restricted_master_cap_def s'_def d_def master_cap_def)
  ultimately show ?thesis using True a(2) k(3) g(5) f unfolding d_def added_def got_slot_def cs_frame_def same_caps_def by auto
qed

section \<open>Copying a capability\<close>

definition unchanged :: "ptr set \<Rightarrow> ptr set \<Rightarrow> cs_mem \<Rightarrow> cs_mem \<Rightarrow> bool" where
  "unchanged Cs Os s s' \<longleftrightarrow> (\<exists>L'. cs_inv Cs Os L' s') \<and> cs_frame Cs s s' \<and> caps_of Cs s' = caps_of Cs s"

lemma unchanged_refl: "cs_inv Cs Os L s \<Longrightarrow> unchanged Cs Os s s"
  by (auto simp: unchanged_def cs_frame_def)

lemma got_slot_back:
  assumes "got_slot Cs Os L c alloc s p i s1"
  shows "\<exists>s'. cspace_free_cap_slot c (addr_of s1 p) s1 = Some s' \<and> unchanged Cs Os s s'"
proof -
  have g: "slots_ok {addr_of s1 p} Cs s1" "lists_ok Cs Os L s1" "refs_ok Os L s1" "is_slot Cs s1 p" "fst p = c"
      "same_caps (fresh_tables alloc) Cs s s1"
    using assms by (auto simp: got_slot_def)
  obtain s' where f: "cspace_free_cap_slot c (addr_of s1 p) s1 = Some s'" "cs_inv Cs Os L s'" "same_caps {} Cs s1 s'" "headers s' = headers s1"
    using give_back_slot [OF g(1,2,3,4)] g(5) by auto
  have "cs_frame Cs s s'"
    using assms f(3,4) static_eq_trans unfolding cs_frame_def got_slot_def same_caps_def by metis
  then show ?thesis using f same_caps_of(1) [OF f(3)] same_caps_of(1) [OF g(6)] by (auto simp: unchanged_def)
qed

lemma named_cap_same:
  assumes "same_caps P Cs s s'" "c \<in> Cs"
  shows "id_place s' c i = id_place s c i" "named_cap Cs s' c i = named_cap Cs s c i"
proof -
  show "id_place s' c i = id_place s c i" using assms by (intro id_place_static) (simp add: same_caps_def)
  then show "named_cap Cs s' c i = named_cap Cs s c i" by (simp add: named_cap_def same_caps_of(1) [OF assms(1)])
qed

definition copied_cap :: "cap_data \<Rightarrow> cap_rights \<Rightarrow> cap_data" where
  "copied_cap d rmask = d\<lparr>cd_rights := cd_rights d AND rmask, cd_master := False\<rparr>"

definition copy_error :: "cap_data option \<Rightarrow> cap_rights \<Rightarrow> error_t" where
  "copy_error cap rmask =
    (if cap_check cap OBJECT_TYPE_ANY 0 \<noteq> OK then cap_check cap OBJECT_TYPE_ANY 0
     else if \<exists>d. cap = Some d \<and> cd_rights d AND rmask = 0 then ERROR_CSPACE_INSUFFICIENT_RIGHTS
     else OK)"

text \<open>The locked section links the new capability behind its parent.\<close>

lemma copy_locked:
  assumes g: "got_slot Cs Os L c alloc s p i s1" and q: "caps_of Cs s q = Some d" "cd_state d = CAP_STATE_VALID" and c: "c \<in> Cs"
  shows "\<exists>s'. cspace_copy_cap_locked (addr_of s1 q) (addr_of s1 p) d (cd_rights d AND rmask) s1 = Some (OK, s') \<and>
    added Cs Os s c i (copied_cap d rmask) s'"
proof -
  have g1: "slots_ok {addr_of s1 p} Cs s1" "lists_ok Cs Os L s1" "refs_ok Os L s1" "is_slot Cs s1 p" "fst p = c"
      "same_caps (fresh_tables alloc) Cs s s1" "caps_of Cs s p = None" "id_place s c i = Some p" "obj_log s1 = obj_log s"
    using g by (auto simp: got_slot_def)
  note V = same_caps_of(1) [OF g1(6)]
  have p1: "caps_of Cs s1 p = None" and q1: "caps_of Cs s1 q = Some d" using V g1(7) q(1) by simp_all
  have wf: "cap_wf Os d" using lists_ok_wf [OF g1(2) q1] .
  have hh: "home s1 q d \<in> heads Cs Os s1" using home_in_heads [OF wf] caps_of_slot [OF q1] by (cases q) simp
  have h: "home s1 q d = oh_cap_list (headers s1 (cd_object d))" "home s1 p (copied_cap d rmask) = home s1 q d"
    using q(2) by (simp_all add: home_def copied_cap_def)
  have "node_of s1 q \<in> set (L (home s1 q d))"
    using g1(2) membersI [of "caps_of Cs s1" q d "home s1" _ "node_of s1"] q1 hh by (auto simp: lists_ok_def links_def)
  then obtain ys zs where L: "L (home s1 q d) = ys @ node_of s1 q # zs" by (meson split_list)
  obtain m where m: "list_insert_after_node (home s1 q d) (node_of s1 q) (node_of s1 p) (list_nodes s1) = Some m"
      "lists m (heads Cs Os s1) (L(home s1 q d := (ys @ [node_of s1 q]) @ node_of s1 p # zs))"
    using lists_insert_after [of "list_nodes s1" "heads Cs Os s1" L "home s1 q d" "node_of s1 p" ys "node_of s1 q" zs]
      hh fresh_node [OF g1(1,2,4) p1] addr_facts(1) [OF g1(1,4)] g1(2) L by (auto simp: lists_ok_def)
  define s' where "s' = set_cap (addr_of s1 p) (copied_cap d rmask) (s1\<lparr>list_nodes := m\<rparr>)"
  let ?L = "L(home s1 q d := (ys @ [node_of s1 q]) @ node_of s1 p # zs)"
  have wf': "cap_wf Os (copied_cap d rmask)" using wf by (simp add: cap_wf_def copied_cap_def)
  have k: "slots_ok {} Cs s'" "lists_ok Cs Os ?L s'" "caps_of Cs s' = (caps_of Cs s1)(p \<mapsto> copied_cap d rmask)"
    using link_cap [OF g1(1,2,4) p1 wf', of "ys @ [node_of s1 q]" zs m s'] h(2) L m(2) s'_def by (auto simp: copied_cap_def)
  have f: "headers s' = headers s1" "cspaces s' = cspaces s1" "obj_log s' = obj_log s1" by (simp_all add: s'_def set_cap_def)
  have "refs_ok Os ?L s'" using g1(3) L unfolding refs_ok_def f by auto
  then have "cs_inv Cs Os ?L s'" using k by (simp add: cs_inv_def)
  moreover have "cspace_copy_cap_locked (addr_of s1 q) (addr_of s1 p) d (cd_rights d AND rmask) s1 = Some (OK, s')"
  proof -
    have "set_cap (addr_of s1 q) d s1 = s1" "caps s1 (addr_of s1 q) = d" using caps_of_slot [OF q1] by (auto simp: set_cap_def)
    moreover have "cd_type d \<noteq> OBJECT_TYPE_ANY" using wf q(2) by (auto simp: cap_wf_def)
    ultimately show ?thesis using m(1) h(1)
      by (simp add: cspace_copy_cap_locked_def cspace_update_cap_slot_def Let_def copied_cap_def s'_def) (simp add: set_cap_def)
  qed
  moreover have "cs_frame Cs s s'" using g unfolding got_slot_def cs_frame_def same_caps_def f by blast
  ultimately show ?thesis using k(3) V f g1(7,8,9) unfolding added_def by auto
qed

lemma copy_cap:
  assumes inv: "cs_inv Cs Os L s" "c \<in> Cs" "c' \<in> Cs" and mem: "mem_ok Cs Os s c alloc"
  shows "if alloc_error s c alloc \<noteq> OK then cspace_copy_cap c c' i rmask alloc s = Some (Inl (alloc_error s c alloc), s)
    else if copy_error (named_cap Cs s c' i) rmask \<noteq> OK
    then \<exists>s'. cspace_copy_cap c c' i rmask alloc s = Some (Inl (copy_error (named_cap Cs s c' i) rmask), s') \<and> unchanged Cs Os s s'
    else \<exists>i' s' d. named_cap Cs s c' i = Some d \<and> cd_state d = CAP_STATE_VALID \<and>
      cspace_copy_cap c c' i rmask alloc s = Some (Inr i', s') \<and> added Cs Os s c i' (copied_cap d rmask) s'"
proof (cases "alloc_error s c alloc = OK")
  case False
  then show ?thesis using take_cap_slot [OF inv(1,2) mem] by (simp add: cspace_copy_cap_def)
next
  case True
  then obtain p j s1 where a: "cspace_allocate_cap_slot c alloc s = Some (Inr (addr_of s1 p, j), s1)" "got_slot Cs Os L c alloc s p j s1"
    using take_cap_slot [OF inv(1,2) mem] by auto
  obtain s2 where bk: "cspace_free_cap_slot c (addr_of s1 p) s1 = Some s2" "unchanged Cs Os s s2"
    using got_slot_back [OF a(2)] by blast
  have g: "lists_ok Cs Os L s1" "same_caps (fresh_tables alloc) Cs s s1" using a(2) by (auto simp: got_slot_def)
  note V = same_caps_of(1) [OF g(2)] and n = named_cap_same(2) [OF g(2) inv(3), of i]
  from check_named [OF g(1) inv(3), of i OBJECT_TYPE_ANY 0] show ?thesis
  proof (elim disjE exE conjE)
    assume "cspace_lookup_cap_slot c' i s1 = Inl ERROR_CSPACE_CAP_NULL" "named_cap Cs s1 c' i = None"
    then show ?thesis using True a(1) bk n by (simp add: cspace_copy_cap_def copy_error_def cap_check_def)
  next
    fix q assume q: "cspace_lookup_cap_slot c' i s1 = Inr (addr_of s1 q)"
      "cspace_check_cap_data (caps s1 (addr_of s1 q)) OBJECT_TYPE_ANY 0 = Some (cap_check (named_cap Cs s1 c' i) OBJECT_TYPE_ANY 0)"
      "named_cap Cs s1 c' i \<noteq> None \<longrightarrow> caps_of Cs s1 q = named_cap Cs s1 c' i \<and> named_cap Cs s1 c' i = Some (caps s1 (addr_of s1 q))"
    show ?thesis
    proof (cases "copy_error (named_cap Cs s c' i) rmask = OK")
      case False
      then show ?thesis using True a(1) bk n q
        by (auto simp: cspace_copy_cap_def copy_error_def cap_check_def Let_def split: if_splits option.splits)
    next
      case ok: True
      then have k: "cap_check (named_cap Cs s c' i) OBJECT_TYPE_ANY 0 = OK" by (simp add: copy_error_def split: if_splits)
      then obtain d where d: "named_cap Cs s c' i = Some d" by (cases "named_cap Cs s c' i") (auto simp: cap_check_def)
      have q1: "caps_of Cs s q = Some d" "caps s1 (addr_of s1 q) = d" using q(3) n d V by auto
      have v: "cd_state d = CAP_STATE_VALID"
        using k d lists_ok_wf [OF g(1), of q d] q1 V by (auto simp: cap_check_def cap_wf_def)
      obtain s' where "cspace_copy_cap_locked (addr_of s1 q) (addr_of s1 p) d (cd_rights d AND rmask) s1 = Some (OK, s')"
          "added Cs Os s c j (copied_cap d rmask) s'"
        using copy_locked [OF a(2) q1(1) v inv(2)] by blast
      then show ?thesis using True ok k a(1) q(1,2) n d q1(2) v by (auto simp: cspace_copy_cap_def copy_error_def Let_def split: if_splits)
    qed
  qed
qed

section \<open>Deleting a capability\<close>

lemma put_object:
  assumes inv: "cs_inv Cs Os L s" and q: "q \<in> Os" "L (oh_cap_list (headers s q)) = [] \<or> 1 < unat (oh_refcount (headers s q))"
    "0 < unat (oh_refcount (headers s q))" "t \<noteq> OBJECT_TYPE_ANY"
  shows "\<exists>s'. object_put t q s = Some s' \<and> cs_inv Cs Os L s' \<and> caps_of Cs s' = caps_of Cs s \<and> cs_frame Cs s s'"
proof -
  have pos: "0 < oh_refcount (headers s q)" using q(3) by (simp add: word_less_nat_alt)
  define s' where "s' = (let s' = set_refcount q (oh_refcount (headers s q) - 1) s
    in if 1 < oh_refcount (headers s q) then s' else object_free t q s')"
  have put: "object_put t q s = Some s'" using pos q(4) by (simp add: object_put_def refcount_put_def s'_def Let_def)
  have f: "cspaces s' = cspaces s" "cap_tables s' = cap_tables s" "caps s' = caps s" "list_nodes s' = list_nodes s"
      "\<And>q. oh_cap_list (headers s' q) = oh_cap_list (headers s q)" "\<And>o'. o' \<noteq> q \<Longrightarrow> headers s' o' = headers s o'"
      "oh_refcount (headers s' q) = oh_refcount (headers s q) - 1"
    by (simp_all add: s'_def object_free_def set_header_defs Let_def)
  have "unat (oh_refcount (headers s q) - 1) = unat (oh_refcount (headers s q)) - 1" using q(3) by (intro unat_minus_one) auto
  then have "refs_ok Os L s'"
    using inv q(2) f(5,6,7) unfolding cs_inv_def refs_ok_def by (metis zero_less_diff)
  then show ?thesis using cs_inv_headers [OF inv _ f(1-5)] put f by (auto simp: cs_frame_def)
qed

definition removed :: "ptr set \<Rightarrow> ptr set \<Rightarrow> cs_mem \<Rightarrow> ptr \<times> nat \<times> nat \<Rightarrow> cap_data \<Rightarrow> cs_mem \<Rightarrow> bool" where
  "removed Cs Os s p d s' \<longleftrightarrow> (\<exists>L'. cs_inv Cs Os L' s') \<and> cs_frame Cs s s' \<and> caps_of Cs s' = (caps_of Cs s)(p := None) \<and>
    (if cd_state d = CAP_STATE_VALID \<and> unreferenced Cs s' (cd_object d)
     then \<exists>s2. headers s2 = headers s \<and> object_put (cd_type d) (cd_object d) s2 = Some s' else headers s' = headers s)"

lemma delete_locked:
  assumes inv: "cs_inv Cs Os L s" and p: "caps_of Cs s p = Some d"
  shows "\<exists>L' s1. cspace_delete_cap_locked (fst p) (addr_of s p) d s =
      Some (OK, cd_state d = CAP_STATE_VALID \<and> L' (oh_cap_list (headers s (cd_object d))) = [], s1) \<and>
    slots_ok {addr_of s1 p} Cs s1 \<and> lists_ok Cs Os L' s1 \<and> refs_ok Os L' s1 \<and> is_slot Cs s1 p \<and> addr_of s1 p = addr_of s p \<and>
    caps_of Cs s1 = (caps_of Cs s)(p := None) \<and> headers s1 = headers s \<and> cspaces s1 = cspaces s"
proof -
  have ok: "slots_ok {} Cs s" "lists_ok Cs Os L s" "refs_ok Os L s" using inv by (auto simp: cs_inv_def)
  obtain xs ys m where m: "L (home s p d) = xs @ node_of s p # ys"
      "list_delete_node (home s p d) (node_of s p) (list_nodes s) = Some (xs = [] \<and> ys \<noteq> [], m)"
      "list_is_empty (home s p d) m = Some (xs @ ys = [])"
      "let s' = set_cap (addr_of s p) null_cap_data (s\<lparr>list_nodes := m\<rparr>)
       in slots_ok {addr_of s p} Cs s' \<and> lists_ok Cs Os (L(home s p d := xs @ ys)) s' \<and>
         caps_of Cs s' = (caps_of Cs s)(p := None) \<and> addr_of s' = addr_of s \<and> is_slot Cs s' = is_slot Cs s"
    using unlink_cap [OF ok(1,2) p] by blast
  define s1 where "s1 = set_cap (addr_of s p) null_cap_data (s\<lparr>list_nodes := m\<rparr>)"
  let ?L = "L(home s p d := xs @ ys)"
  have f: "headers s1 = headers s" "cspaces s1 = cspaces s" by (simp_all add: s1_def set_cap_def)
  have "refs_ok Os ?L s1" using ok(3) m(1) unfolding refs_ok_def f by auto
  moreover have "cspace_delete_cap_locked (fst p) (addr_of s p) d s =
      Some (OK, cd_state d = CAP_STATE_VALID \<and> ?L (oh_cap_list (headers s (cd_object d))) = [], s1)"
    using m(2,3) lists_ok_wf [OF ok(2) p] caps_of_slot [OF p]
    by (auto simp: cspace_delete_cap_locked_def cspace_update_cap_slot_def home_def cap_wf_def s1_def set_cap_def)
  ultimately show ?thesis using m(4) f caps_of_slot [OF p] unfolding s1_def [symmetric] Let_def by metis
qed

lemma delete_cap:
  assumes inv: "cs_inv Cs Os L s" "c \<in> Cs"
  shows "case named_cap Cs s c i of
      None \<Rightarrow> cspace_delete_cap c i s = Some (ERROR_CSPACE_CAP_NULL, s)
    | Some d \<Rightarrow> \<exists>s'. cspace_delete_cap c i s = Some (OK, s') \<and> removed Cs Os s (the (id_place s c i)) d s'"
proof (cases "named_cap Cs s c i")
  case None
  then show ?thesis using lookup_named [OF inv(2), of s i]
    by (auto simp: cspace_delete_cap_def cspace_delete_cap_locked_def Let_def split: if_splits)
next
  case (Some d)
  then obtain p where p: "id_place s c i = Some p" "caps_of Cs s p = Some d" "fst p = c"
    by (auto simp: named_cap_def id_place_def split: sum.splits Option.bind_splits)
  have a: "cspace_lookup_cap_slot c i s = Inr (addr_of s p)" "caps s (addr_of s p) = d"
    using lookup_slot [OF inv(2), of i s] caps_of_slot [OF p(2)] p(1) by auto
  have wf: "cap_wf Os d" using lists_ok_wf [of Cs Os L s p d] p(2) inv(1) by (simp add: cs_inv_def)
  obtain L' s1 where d: "cspace_delete_cap_locked c (addr_of s p) d s =
        Some (OK, cd_state d = CAP_STATE_VALID \<and> L' (oh_cap_list (headers s (cd_object d))) = [], s1)"
      "slots_ok {addr_of s1 p} Cs s1" "lists_ok Cs Os L' s1" "refs_ok Os L' s1" "is_slot Cs s1 p" "addr_of s1 p = addr_of s p"
      "caps_of Cs s1 = (caps_of Cs s)(p := None)" "headers s1 = headers s" "cspaces s1 = cspaces s"
    using delete_locked [OF inv(1) p(2)] p(3) by blast
  obtain s2 where e: "cspace_free_cap_slot c (addr_of s p) s1 = Some s2" "cs_inv Cs Os L' s2" "same_caps {} Cs s1 s2" "headers s2 = headers s"
    using give_back_slot [OF d(2,3,4,5)] d(6,8) p(3) by auto
  have V: "caps_of Cs s2 = (caps_of Cs s)(p := None)" using same_caps_of(1) [OF e(3)] d(7) by simp
  have fr: "cs_frame Cs s s2" using e(3,4) d(9) by (simp add: cs_frame_def same_caps_def)
  let ?last = "cd_state d = CAP_STATE_VALID \<and> L' (oh_cap_list (headers s (cd_object d))) = []"
  have un: "unreferenced Cs s2 (cd_object d) \<longleftrightarrow> L' (oh_cap_list (headers s (cd_object d))) = []" if "cd_state d = CAP_STATE_VALID"
    using unreferenced_empty [of Cs Os L' s2 "cd_object d"] e(2,4) wf that by (auto simp: cs_inv_def cap_wf_def)
  show ?thesis
  proof (cases ?last)
    case False
    then have "removed Cs Os s p d s2" using e V fr un unfolding removed_def by auto
    then show ?thesis using False Some p(1) a d(1) e(1) by (auto simp: cspace_delete_cap_def Let_def)
  next
    case True
    have "0 < unat (oh_refcount (headers s2 (cd_object d)))" "cd_object d \<in> Os" "cd_type d \<noteq> OBJECT_TYPE_ANY"
      using object_with_caps [OF inv(1) p(2)] True e(4) by auto
    then obtain s3 where s3: "object_put (cd_type d) (cd_object d) s2 = Some s3" "cs_inv Cs Os L' s3" "caps_of Cs s3 = caps_of Cs s2" "cs_frame Cs s2 s3"
      using put_object [OF e(2), of "cd_object d" "cd_type d"] True e(4) by auto
    have fr3: "cs_frame Cs s s3" using s3(4) fr static_eq_trans unfolding cs_frame_def by metis
    have "unreferenced Cs s3 (cd_object d)" using un True s3(3) by (simp add: unreferenced_def)
    then have "removed Cs Os s p d s3" using s3 V fr3 e(4) True unfolding removed_def by auto
    then show ?thesis using True Some p(1) a d(1) e(1) s3(1) by (auto simp: cspace_delete_cap_def Let_def)
  qed
qed

end
