(* ===== verification/Cspace_Revoke.thy ===== *)
theory Cspace_Revoke
  imports Cspace_Ops
begin

text \<open>
  Revocation: the loop of \<^verbatim>\<open>cspace_revoke_caps\<close> moves every capability of the object but the master
  to the list of revoked capabilities of the cspace that holds it.
\<close>

definition revoked_cap :: "cap_data \<Rightarrow> cap_data" where
  "revoked_cap d = d\<lparr>cd_state := CAP_STATE_REVOKED, cd_object := NULL\<rparr>"

section \<open>One capability\<close>

lemma revoke_one:
  assumes inv: "cs_inv Cs Os L s" and p: "caps_of Cs s p = Some d" "cd_state d = CAP_STATE_VALID"
    and L: "L (home s p d) = xs @ node_of s p # ys" "xs \<noteq> []"
  shows "\<exists>L' s'. cspace_revoke_one (home s p d) (addr_of s p) s = Some s' \<and> cs_inv Cs Os L' s' \<and> L' (home s p d) = xs @ ys \<and>
    caps_of Cs s' = (caps_of Cs s)(p \<mapsto> revoked_cap d) \<and> addr_of s' = addr_of s \<and> headers s' = headers s \<and>
    cspaces s' = cspaces s \<and> obj_log s' = obj_log s"
proof -
  have ok: "slots_ok {} Cs s" "lists_ok Cs Os L s" "refs_ok Os L s" using inv by (auto simp: cs_inv_def)
  let ?h = "home s p d" and ?rl = "cs_revoked_cap_list (cspaces s (fst p))" and ?a = "addr_of s p"
  note ps = caps_of_slot [OF p(1)]
  have wf: "cap_wf Os d" using lists_ok_wf [OF ok(2) p(1)] .
  have c: "fst p \<in> Cs" using ps by (cases p) simp
  obtain xs' ys' m where m: "L ?h = xs' @ node_of s p # ys'"
      "list_delete_node ?h (node_of s p) (list_nodes s) = Some (xs' = [] \<and> ys' \<noteq> [], m)"
      "let s' = set_cap ?a null_cap_data (s\<lparr>list_nodes := m\<rparr>)
       in slots_ok {?a} Cs s' \<and> lists_ok Cs Os (L(?h := xs' @ ys')) s' \<and>
         caps_of Cs s' = (caps_of Cs s)(p := None) \<and> addr_of s' = addr_of s \<and> is_slot Cs s' = is_slot Cs s"
    using unlink_cap [OF ok(1,2) p(1)] by blast
  have hh: "?h \<in> heads Cs Os s" using home_in_heads [OF wf c] .
  have "distinct (L ?h)" using ok(2) hh by (simp add: lists_ok_def links_def)
  then have eq: "xs' = xs" "ys' = ys" using append_Cons_eq_iff [of "node_of s p" xs' ys' xs ys] m(1) L(1) by auto
  define s1 where "s1 = set_cap ?a null_cap_data (s\<lparr>list_nodes := m\<rparr>)"
  let ?L = "L(?h := xs @ ys)" and ?d = "revoked_cap d"
  have s1: "slots_ok {addr_of s1 p} Cs s1" "lists_ok Cs Os ?L s1" "is_slot Cs s1 p" "caps_of Cs s1 p = None"
      "caps_of Cs s1 = (caps_of Cs s)(p := None)" "addr_of s1 = addr_of s"
    using m(3) ps unfolding s1_def [symmetric] Let_def eq by auto
  have f1: "headers s1 = headers s" "cspaces s1 = cspaces s" "list_nodes s1 = m" "home s1 = home s" "heads Cs Os s1 = heads Cs Os s"
    by (simp_all add: s1_def set_cap_def home_def heads_def fun_eq_iff)
  have rl: "home s1 p ?d = ?rl" "?rl \<in> heads Cs Os s1" using c by (simp_all add: f1 revoked_cap_def home_def heads_def)
  have ne: "?rl \<noteq> ?h" using valid_home_not_revoked [of Cs Os s d ?d p p] ok(2) wf p(2) c rl(1)
    by (auto simp: lists_ok_def revoked_cap_def f1)
  obtain m' where m': "list_insert_at_head ?rl (node_of s p) m = Some m'" "lists m' (heads Cs Os s1) (?L(?rl := [] @ node_of s1 p # L ?rl))"
    using lists_insert_at_head [of m "heads Cs Os s1" ?L ?rl "node_of s p"] rl(2) ne fresh_node [OF s1(1,2,3,4)]
      addr_facts(1) [OF s1(1,3)] s1(2,6) f1(3) by (auto simp: lists_ok_def)
  define s' where "s' = set_cap ?a ?d (s1\<lparr>list_nodes := m'\<rparr>)"
  have wf': "cap_wf Os ?d" by (simp add: cap_wf_def revoked_cap_def)
  have k: "slots_ok {} Cs s'" "lists_ok Cs Os (?L(?rl := node_of s1 p # L ?rl)) s'" "caps_of Cs s' = (caps_of Cs s1)(p \<mapsto> ?d)"
    using link_cap [OF s1(1,2,3,4) wf', of "[]" "L ?rl" m' s'] rl(1) ne m'(2) s'_def s1(6) by (auto simp: revoked_cap_def)
  have f: "headers s' = headers s" "cspaces s' = cspaces s" "obj_log s' = obj_log s" "addr_of s' = addr_of s"
    by (simp_all add: s'_def s1_def set_cap_def fun_eq_iff slot_at_def)
  have "refs_ok Os (?L(?rl := node_of s1 p # L ?rl)) s'"
    using ok(2,3) c L unfolding refs_ok_def f lists_ok_def heads_apart_def by auto
  moreover have "cspace_revoke_one ?h ?a s = Some s'"
    using m(2) m'(1) ps addr_facts(4) [OF ok(1)] 
    by (simp add: cspace_revoke_one_def Let_def revoked_cap_def [symmetric] set_cap_def s'_def s1_def)
  ultimately show ?thesis using k ne f s1(5) by (intro exI [of _ "?L(?rl := node_of s1 p # L ?rl)"] exI [of _ s']) (simp add: cs_inv_def)
qed

section \<open>The loop\<close>

text \<open>The remaining part of the list is given by the places of its capabilities.\<close>

lemma revoke_loop:
  assumes "cs_inv Cs Os L s" "q \<in> Os" "L (oh_cap_list (headers s q)) = node_of s pm # map (node_of s) ps" "distinct ps"
    and "\<And>p. p \<in> set ps \<Longrightarrow> p \<noteq> pm \<and> is_slot Cs s p \<and> (\<exists>d. caps_of Cs s p = Some d \<and> cd_state d = CAP_STATE_VALID \<and> cd_object d = q)"
    and "is_slot Cs s pm"
  shows "\<exists>L' s'. cspace_revoke_loop (oh_cap_list (headers s q)) (addr_of s pm) (hd (map (node_of s) ps @ [oh_cap_list (headers s q)])) s = Some s' \<and>
    cs_inv Cs Os L' s' \<and> caps_of Cs s' = (\<lambda>p. if p \<in> set ps then map_option revoked_cap (caps_of Cs s p) else caps_of Cs s p) \<and>
    headers s' = headers s \<and> cspaces s' = cspaces s \<and> obj_log s' = obj_log s"
  using assms
proof (induction ps arbitrary: L s)
  case Nil
  show ?case by (rule exI [of _ L], rule exI [of _ s], subst cspace_revoke_loop.simps) (use Nil in auto)
next
  case (Cons p ps)
  let ?h = "oh_cap_list (headers s q)"
  have ok: "slots_ok {} Cs s" "lists_ok Cs Os L s" using Cons.prems(1) by (auto simp: cs_inv_def)
  obtain d where d: "caps_of Cs s p = Some d" "cd_state d = CAP_STATE_VALID" "cd_object d = q" "p \<noteq> pm" "is_slot Cs s p"
    using Cons.prems(5) [of p] by auto
  have h: "home s p d = ?h" using d by (simp add: home_def)
  have hh: "?h \<in> heads Cs Os s" using Cons.prems(2) by (simp add: heads_def)
  have il: "is_list (list_nodes s) ?h ([node_of s pm] @ node_of s p # map (node_of s) ps)"
    using lists_list [of "list_nodes s" "heads Cs Os s" L ?h] ok(2) hh Cons.prems(3) by (simp add: lists_ok_def)
  obtain L1 s1 where r: "cspace_revoke_one ?h (addr_of s p) s = Some s1" "cs_inv Cs Os L1 s1" "L1 ?h = [node_of s pm] @ map (node_of s) ps"
      "caps_of Cs s1 = (caps_of Cs s)(p \<mapsto> revoked_cap d)" "addr_of s1 = addr_of s" "headers s1 = headers s"
      "cspaces s1 = cspaces s" "obj_log s1 = obj_log s"
    using revoke_one [OF Cons.prems(1) d(1,2), of "[node_of s pm]" "map (node_of s) ps"] Cons.prems(3) h by auto
  have sl: "is_slot Cs s1 = is_slot Cs s" by (rule ext, rename_tac x, case_tac x) (simp add: r)
  have "\<exists>L' s'. cspace_revoke_loop ?h (addr_of s pm) (hd (map (node_of s) ps @ [?h])) s1 = Some s' \<and>
      cs_inv Cs Os L' s' \<and> caps_of Cs s' = (\<lambda>p. if p \<in> set ps then map_option revoked_cap (caps_of Cs s1 p) else caps_of Cs s1 p) \<and>
      headers s' = headers s1 \<and> cspaces s' = cspaces s1 \<and> obj_log s' = obj_log s1"
    using Cons.IH [OF r(2) Cons.prems(2)] Cons.prems(4,5,6) r(3-6) sl by fastforce
  then obtain L' s' where s': "cspace_revoke_loop ?h (addr_of s pm) (hd (map (node_of s) ps @ [?h])) s1 = Some s'"
      "cs_inv Cs Os L' s'" "caps_of Cs s' = (\<lambda>p. if p \<in> set ps then map_option revoked_cap (caps_of Cs s1 p) else caps_of Cs s1 p)"
      "headers s' = headers s1" "cspaces s' = cspaces s1" "obj_log s' = obj_log s1" by blast
  have "node_of s p \<noteq> ?h" using il by (auto simp: is_list_def)
  moreover have "addr_of s p \<noteq> addr_of s pm" using addr_inj [OF ok(1) d(5) Cons.prems(6)] d(4) by blast
  moreover have "ln_next (list_nodes s (node_of s p)) = hd (map (node_of s) ps @ [?h])" using list_neighbours(2) [OF il] .
  ultimately have "cspace_revoke_loop ?h (addr_of s pm) (node_of s p) s = Some s'"
    using r(1) s'(1) by (subst cspace_revoke_loop.simps) (simp add: Let_def)
  moreover have "caps_of Cs s' = (\<lambda>x. if x \<in> set (p # ps) then map_option revoked_cap (caps_of Cs s x) else caps_of Cs s x)"
    using s'(3) r(4) Cons.prems(4) d(1) by (auto simp: fun_eq_iff)
  ultimately show ?case using s' r by (intro exI [of _ L'] exI [of _ s']) simp
qed

section \<open>The operation\<close>

definition revoke_others :: "('p \<Rightarrow> cap_data option) \<Rightarrow> 'p \<Rightarrow> 'p \<Rightarrow> cap_data option" where
  "revoke_others V pm = (\<lambda>p. case V p of
     None \<Rightarrow> None
   | Some d \<Rightarrow>
       if p \<noteq> pm \<and> cd_state d = CAP_STATE_VALID \<and> Some (cd_object d) = map_option cd_object (V pm) then Some (revoked_cap d) else Some d)"

lemma list_of_images: "set xs \<subseteq> f ` A \<Longrightarrow> \<exists>ys. xs = map f ys \<and> set ys \<subseteq> A"
proof (induction xs)
  case (Cons x xs)
  then obtain ys y where "xs = map f ys" "set ys \<subseteq> A" "x = f y" "y \<in> A" by auto
  then show ?case by (intro exI [of _ "y # ys"]) simp
qed simp

text \<open>The capabilities of an object, by the list: the master, then the others.\<close>

lemma object_caps_listed:
  assumes ok: "slots_ok {} Cs s" "lists_ok Cs Os L s"
    and m: "caps_of Cs s pm = Some d" "cd_state d = CAP_STATE_VALID" "cd_master d"
  shows "\<exists>ps. L (oh_cap_list (headers s (cd_object d))) = node_of s pm # map (node_of s) ps \<and> distinct ps \<and>
    set ps = {p. p \<noteq> pm \<and> (\<exists>e. caps_of Cs s p = Some e \<and> cd_state e = CAP_STATE_VALID \<and> cd_object e = cd_object d)}"
proof -
  let ?h = "oh_cap_list (headers s (cd_object d))" and ?V = "caps_of Cs s"
  let ?A = "{p. \<exists>e. ?V p = Some e \<and> cd_state e = CAP_STATE_VALID \<and> cd_object e = cd_object d}"
  have q: "cd_object d \<in> Os" using lists_ok_wf [OF ok(2) m(1)] m(2) by (auto simp: cap_wf_def)
  note L = object_members [OF ok(2) q]
  have inj: "inj_on (node_of s) ?A"
    by (rule inj_onI) (use addr_inj [OF ok(1)] caps_of_slot in \<open>fastforce simp: cap_list_node_def\<close>)
  have A: "pm \<in> ?A" using m by blast
  then have "node_of s pm \<in> set (L ?h)" unfolding L(2) by (rule imageI)
  then have "L ?h \<noteq> []" by auto
  moreover have "hd (L ?h) = node_of s pm" using lists_ok_master [OF ok(2) m] m(2) by (simp add: home_def)
  ultimately obtain rest where r: "L ?h = node_of s pm # rest" by (cases "L ?h") auto
  then have "set rest \<subseteq> node_of s ` ?A" using L(2) by (metis set_subset_Cons)
  then obtain ps where ps: "rest = map (node_of s) ps" "set ps \<subseteq> ?A" using list_of_images [of rest "node_of s" ?A] by blast
  have dl: "distinct (map (node_of s) (pm # ps))" "node_of s ` set (pm # ps) = node_of s ` ?A"
    using L r ps(1) by (simp_all only: list.map flip: list.set_map)
  have sub: "set (pm # ps) \<subseteq> ?A" using ps(2) A unfolding list.set(2) by (rule_tac insert_subsetI)
  have "set (pm # ps) = ?A" using inj_on_image_eq_iff [OF inj sub subset_refl] dl(2) by (rule iffD1)
  moreover have "distinct (pm # ps)" using dl(1) unfolding distinct_map by (rule conjunct1)
  ultimately have "pm \<notin> set ps" "distinct ps" "set ps = ?A - {pm}" by auto
  then show ?thesis using r ps(1) by (intro exI [of _ ps]) blast
qed

definition revoke_error :: "cap_data option \<Rightarrow> error_t" where
  "revoke_error cap =
    (if cap_check cap OBJECT_TYPE_ANY 0 \<noteq> OK then cap_check cap OBJECT_TYPE_ANY 0
     else if \<exists>d. cap = Some d \<and> \<not> cd_master d then ERROR_CSPACE_INSUFFICIENT_RIGHTS
     else OK)"

definition revoked :: "ptr set \<Rightarrow> ptr set \<Rightarrow> cs_mem \<Rightarrow> ptr \<times> nat \<times> nat \<Rightarrow> cs_mem \<Rightarrow> bool" where
  "revoked Cs Os s pm s' \<longleftrightarrow> (\<exists>L'. cs_inv Cs Os L' s') \<and> cs_frame Cs s s' \<and> caps_of Cs s' = revoke_others (caps_of Cs s) pm \<and>
    headers s' = headers s \<and> obj_log s' = obj_log s"

lemma revoke_locked:
  assumes inv: "cs_inv Cs Os L s" and m: "caps_of Cs s pm = Some d" "cd_state d = CAP_STATE_VALID" "cd_master d"
  shows "\<exists>s'. cspace_revoke_caps_locked (addr_of s pm) d s = Some (OK, s') \<and> revoked Cs Os s pm s'"
proof -
  have ok: "slots_ok {} Cs s" "lists_ok Cs Os L s" using inv by (auto simp: cs_inv_def)
  let ?h = "oh_cap_list (headers s (cd_object d))"
  note o' = object_with_caps [OF inv m(1,2)] and a = caps_of_slot [OF m(1)]
  obtain ps where ps: "L ?h = node_of s pm # map (node_of s) ps" "distinct ps"
      "set ps = {p. p \<noteq> pm \<and> (\<exists>e. caps_of Cs s p = Some e \<and> cd_state e = CAP_STATE_VALID \<and> cd_object e = cd_object d)}"
    using object_caps_listed [OF ok m] by blast
  have sl: "is_slot Cs s pm" using a by blast
  have "p \<noteq> pm \<and> is_slot Cs s p \<and> (\<exists>e. caps_of Cs s p = Some e \<and> cd_state e = CAP_STATE_VALID \<and> cd_object e = cd_object d)"
    if "p \<in> set ps" for p using that ps(3) caps_of_slot by blast
  from revoke_loop [OF inv o'(2) ps(1,2) this sl] obtain L' s'
    where s': "cspace_revoke_loop ?h (addr_of s pm) (hd (map (node_of s) ps @ [?h])) s = Some s'" "cs_inv Cs Os L' s'"
      "caps_of Cs s' = (\<lambda>p. if p \<in> set ps then map_option revoked_cap (caps_of Cs s p) else caps_of Cs s p)"
      "headers s' = headers s" "cspaces s' = cspaces s" "obj_log s' = obj_log s" by blast
  have "?h \<in> heads Cs Os s" using o'(2) by (simp add: heads_def)
  then have il: "is_list (list_nodes s) ?h ([] @ node_of s pm # map (node_of s) ps)"
    using lists_list [of "list_nodes s" "heads Cs Os s" L ?h] ok(2) ps(1) by (simp add: lists_ok_def)
  have n: "node_of s pm \<noteq> ?h" "ln_next (list_nodes s ?h) = node_of s pm" "ln_next (list_nodes s (node_of s pm)) = hd (map (node_of s) ps @ [?h])"
    using list_neighbours(2) [OF il] is_list_head [OF il] il by (auto simp: is_list_def)
  have "cspace_revoke_loop ?h (addr_of s pm) (node_of s pm) s = Some s'"
    using n s'(1) by (subst cspace_revoke_loop.simps) (simp add: Let_def)
  moreover have "set_cap (addr_of s pm) d s = s" "caps s (addr_of s pm) = d" using a by (auto simp: set_cap_def)
  ultimately have "cspace_revoke_caps_locked (addr_of s pm) d s = Some (OK, s')"
    using list_queries(2) [OF il] n(2) o'(4) by (simp add: cspace_revoke_caps_locked_def cspace_update_cap_slot_def Let_def)
  moreover have "caps_of Cs s' = revoke_others (caps_of Cs s) pm"
    unfolding s'(3) ps(3) revoke_others_def using m(1) by (rule_tac ext) (auto split: option.split)
  ultimately show ?thesis using s' by (auto simp: revoked_def cs_frame_def)
qed

lemma revoke_caps:
  assumes inv: "cs_inv Cs Os L s" "c \<in> Cs"
  shows "if revoke_error (named_cap Cs s c i) \<noteq> OK then cspace_revoke_caps c i s = Some (revoke_error (named_cap Cs s c i), s)
    else \<exists>s'. cspace_revoke_caps c i s = Some (OK, s') \<and> revoked Cs Os s (the (id_place s c i)) s'"
proof -
  have l: "lists_ok Cs Os L s" using inv(1) by (simp add: cs_inv_def)
  from check_named [OF l inv(2), of i OBJECT_TYPE_ANY 0] show ?thesis
  proof (elim disjE exE conjE)
    assume "cspace_lookup_cap_slot c i s = Inl ERROR_CSPACE_CAP_NULL" "named_cap Cs s c i = None"
    then show ?thesis by (simp add: cspace_revoke_caps_def revoke_error_def cap_check_def)
  next
    fix q assume q: "id_place s c i = Some q" "cspace_lookup_cap_slot c i s = Inr (addr_of s q)"
      "cspace_check_cap_data (caps s (addr_of s q)) OBJECT_TYPE_ANY 0 = Some (cap_check (named_cap Cs s c i) OBJECT_TYPE_ANY 0)"
      "named_cap Cs s c i \<noteq> None \<longrightarrow> caps_of Cs s q = named_cap Cs s c i \<and> named_cap Cs s c i = Some (caps s (addr_of s q))"
    show ?thesis
    proof (cases "revoke_error (named_cap Cs s c i) = OK")
      case False
      then show ?thesis using q
        by (auto simp: cspace_revoke_caps_def revoke_error_def cap_check_def Let_def split: if_splits option.splits)
    next
      case True
      then have k: "cap_check (named_cap Cs s c i) OBJECT_TYPE_ANY 0 = OK" by (simp add: revoke_error_def split: if_splits)
      then obtain d where d: "named_cap Cs s c i = Some d" by (cases "named_cap Cs s c i") (auto simp: cap_check_def)
      have m: "caps_of Cs s q = Some d" "caps s (addr_of s q) = d" "cd_master d" using q(4) d True by (auto simp: revoke_error_def split: if_splits)
      have v: "cd_state d = CAP_STATE_VALID" using k d lists_ok_wf [OF l m(1)] by (auto simp: cap_check_def cap_wf_def)
      show ?thesis using revoke_locked [OF inv(1) m(1) v m(3)] True k q(1-3) m(2,3)
        by (auto simp: cspace_revoke_caps_def Let_def)
    qed
  qed
qed

end
