(* ===== verification/Cspace_Spec.thy ===== *)
theory Cspace_Spec
  imports Cspace_Revoke
begin

text \<open>
  The capability system as its clients see it. The specification keeps one partial function from places
  to capabilities; every history of operations on the model is a history of the specification.
\<close>

section \<open>Specification\<close>

datatype cs_op =
    Create ptr ptr object_type cap_rights "ptr result"
  | Copy ptr ptr cap_id cap_rights "ptr result"
  | Delete ptr cap_id
  | Revoke ptr cap_id
  | Lookup ptr cap_id object_type cap_rights bool
  | Put object_type ptr

text \<open>The answer is a capability identifier, an object, or zero where the code answers only \<^const>\<open>OK\<close>.\<close>

definition answer :: "(error_t \<times> cs_mem) option \<Rightarrow> (u64 result \<times> cs_mem) option" where
  "answer r = map_option (\<lambda>(err, s). (if err = OK then Inr 0 else Inl err, s)) r"

fun cs_step :: "cs_op \<Rightarrow> cs_mem \<Rightarrow> (u64 result \<times> cs_mem) option" where
  "cs_step (Create c q t r alloc) s = cspace_create_restricted_master_cap c q t r alloc s"
| "cs_step (Copy c c' i m alloc) s = cspace_copy_cap c c' i m alloc s"
| "cs_step (Delete c i) s = answer (cspace_delete_cap c i s)"
| "cs_step (Revoke c i) s = answer (cspace_revoke_caps c i s)"
| "cs_step (Lookup c i t r active_only) s = cspace_lookup_object c i t r active_only s"
| "cs_step (Put t q) s = map_option (Pair (Inr 0)) (object_put t q s)"

type_synonym place = "ptr \<times> nat \<times> nat"
type_synonym cap_map = "place \<Rightarrow> cap_data option"

fun new_cap_spec :: "(ptr \<Rightarrow> cap_id \<Rightarrow> place option) \<Rightarrow> ptr \<Rightarrow> cap_id \<Rightarrow> cap_data \<Rightarrow> cap_map \<Rightarrow> cap_map \<Rightarrow> bool" where
  "new_cap_spec pl c i d V V' \<longleftrightarrow> (case pl c i of None \<Rightarrow> False | Some p \<Rightarrow> V p = None \<and> V' = V(p \<mapsto> d))"

text \<open>The number of capabilities of a cspace, revoked ones included, is limited.\<close>

definition full :: "(ptr \<Rightarrow> nat) \<Rightarrow> cap_map \<Rightarrow> ptr \<Rightarrow> bool" where
  "full lim V c \<longleftrightarrow> card {p. fst p = c \<and> V p \<noteq> None} = lim c"

definition no_slot :: "(ptr \<Rightarrow> nat) \<Rightarrow> cap_map \<Rightarrow> ptr \<Rightarrow> ptr result \<Rightarrow> error_t \<Rightarrow> bool" where
  "no_slot lim V c alloc e \<longleftrightarrow> (if full lim V c then e = ERROR_CSPACE_FULL else e = ERROR_NOMEM \<and> (\<exists>x. alloc = Inl x))"

fun cap_spec :: "(ptr \<Rightarrow> nat) \<Rightarrow> (ptr \<Rightarrow> cap_id \<Rightarrow> place option) \<Rightarrow> cs_op \<Rightarrow> u64 result \<Rightarrow> cap_map \<Rightarrow> cap_map \<Rightarrow> bool" where
  "cap_spec lim pl (Create c q t r alloc) a V V' \<longleftrightarrow> (case a of
     Inl e \<Rightarrow> no_slot lim V c alloc e \<and> V' = V
   | Inr i \<Rightarrow> \<not> full lim V c \<and> new_cap_spec pl c i (master_cap q t r) V V')"
| "cap_spec lim pl (Copy c c' i m alloc) a V V' \<longleftrightarrow> (case a of
     Inl e \<Rightarrow> (no_slot lim V c alloc e \<or> \<not> full lim V c \<and> e \<noteq> OK \<and> e = copy_error (Option.bind (pl c' i) V) m) \<and> V' = V
   | Inr i' \<Rightarrow> (case Option.bind (pl c' i) V of
       None \<Rightarrow> False
     | Some d \<Rightarrow> \<not> full lim V c \<and> copy_error (Some d) m = OK \<and> new_cap_spec pl c i' (copied_cap d m) V V'))"
| "cap_spec lim pl (Delete c i) a V V' \<longleftrightarrow> (case Option.bind (pl c i) V of
     None \<Rightarrow> a = Inl ERROR_CSPACE_CAP_NULL \<and> V' = V
   | Some d \<Rightarrow> a = Inr 0 \<and> V' = V(the (pl c i) := None))"
| "cap_spec lim pl (Revoke c i) a V V' \<longleftrightarrow> (let e = revoke_error (Option.bind (pl c i) V)
     in if e \<noteq> OK then a = Inl e \<and> V' = V else a = Inr 0 \<and> V' = revoke_others V (the (pl c i)))"
| "cap_spec lim pl (Lookup c i t r active_only) a V V' \<longleftrightarrow> V' = V \<and> (let cap = Option.bind (pl c i) V
     in if cap_check cap t r \<noteq> OK then a = Inl (cap_check cap t r)
        else Some a = map_option (Inr \<circ> cd_object) cap \<or> active_only \<and> a = Inl ERROR_OBJECT_STATE)"
| "cap_spec lim pl (Put t q) a V V' \<longleftrightarrow> a = Inr 0 \<and> V' = V"

fun spec_run :: "(ptr \<Rightarrow> nat) \<Rightarrow> (ptr \<Rightarrow> cap_id \<Rightarrow> place option) \<Rightarrow> (cs_op \<times> u64 result) list \<Rightarrow> cap_map \<Rightarrow> cap_map \<Rightarrow> bool" where
  "spec_run lim pl [] V V' \<longleftrightarrow> V' = V"
| "spec_run lim pl ((op, a) # h) V V' \<longleftrightarrow> (\<exists>V1. cap_spec lim pl op a V V1 \<and> spec_run lim pl h V1 V')"

text \<open>
  What the callers provide. A master capability is created for a new object, for which the caller holds
  a reference; a reference is only given back by a user who holds one; a looked-up object has fewer
  than \<open>2 ^ 32 - 1\<close> references.
\<close>

fun op_ok :: "ptr set \<Rightarrow> ptr set \<Rightarrow> cs_mem \<Rightarrow> cs_op \<Rightarrow> bool" where
  "op_ok Cs Os s (Create c q t r alloc) \<longleftrightarrow> c \<in> Cs \<and> mem_ok Cs Os s c alloc \<and> q \<in> Os \<and> q \<noteq> NULL \<and> t \<noteq> OBJECT_TYPE_ANY \<and>
    0 < unat (oh_refcount (headers s q)) \<and> unreferenced Cs s q"
| "op_ok Cs Os s (Copy c c' i m alloc) \<longleftrightarrow> c \<in> Cs \<and> c' \<in> Cs \<and> mem_ok Cs Os s c alloc"
| "op_ok Cs Os s (Delete c i) \<longleftrightarrow> c \<in> Cs"
| "op_ok Cs Os s (Revoke c i) \<longleftrightarrow> c \<in> Cs"
| "op_ok Cs Os s (Lookup c i t r active_only) \<longleftrightarrow> c \<in> Cs \<and> t \<noteq> OBJECT_TYPE_ANY \<and> (\<forall>q. oh_refcount (headers s q) < 0xFFFFFFFF)"
| "op_ok Cs Os s (Put t q) \<longleftrightarrow> q \<in> Os \<and> t \<noteq> OBJECT_TYPE_ANY \<and>
    (if unreferenced Cs s q then 0 else 1) < unat (oh_refcount (headers s q))"

inductive cs_history :: "ptr set \<Rightarrow> ptr set \<Rightarrow> cs_mem \<Rightarrow> (cs_op \<times> u64 result) list \<Rightarrow> cs_mem \<Rightarrow> bool" for Cs Os where
  stop: "cs_history Cs Os s [] s"
| step: "op_ok Cs Os s op \<Longrightarrow> cs_step op s = Some (a, s1) \<Longrightarrow> cs_history Cs Os s1 h s' \<Longrightarrow> cs_history Cs Os s ((op, a) # h) s'"

section \<open>Every operation meets its specification\<close>

definition cap_place :: "ptr set \<Rightarrow> cs_mem \<Rightarrow> ptr \<Rightarrow> cap_id \<Rightarrow> place option" where
  "cap_place Cs s c i = (if c \<in> Cs then id_place s c i else None)"

lemma cap_place_frame: "cs_frame Cs s s' \<Longrightarrow> cap_place Cs s' = cap_place Cs s"
  by (auto simp: cap_place_def fun_eq_iff cs_frame_def intro: id_place_static)

lemma bind_place: "c \<in> Cs \<Longrightarrow> Option.bind (cap_place Cs s c i) (caps_of Cs s) = named_cap Cs s c i"
  by (simp add: cap_place_def named_cap_def)

definition cap_limit :: "ptr set \<Rightarrow> cs_mem \<Rightarrow> ptr \<Rightarrow> nat" where
  "cap_limit Cs s c = (if c \<in> Cs then unat (cs_max_caps (cspaces s c)) else 0)"

lemma cap_limit_frame: "cs_frame Cs s s' \<Longrightarrow> cap_limit Cs s' = cap_limit Cs s"
  by (auto simp: cap_limit_def fun_eq_iff cs_frame_def static_eq_def)

text \<open>The count that a cspace keeps is the number of its capabilities.\<close>

lemma cap_count_card:
  assumes ok: "slots_ok {} Cs s" "c \<in> Cs"
  shows "unat (cs_cap_count (cspaces s c)) = card {p. fst p = c \<and> caps_of Cs s p \<noteq> None}"
proof -
  let ?t = "\<lambda>i. tables (cspaces s c) ! i" and ?N = "length (tables (cspaces s c))"
  have okc: "cspace_ok {} {} s c" using ok by (simp add: slots_ok_def)
  let ?U = "\<lambda>i. if ?t i = NULL then {} else used (cap_tables s (?t i))"
  have fin: "finite (?U i)" for i by (simp add: used_def)
  have "(i < ?N \<and> j \<in> ?U i) = (cap_at s c i j \<noteq> None)" for i j
  proof (cases "i < ?N \<and> ?t i \<noteq> NULL")
    case True
    then have "table_ok {} {} s c i (?t i)" using cspace_ok_index [OF okc, of i] by (auto simp: index_ok_def Let_def)
    then show ?thesis using True by (auto simp: table_ok_def cap_at_def slot_at_def used_def)
  qed (auto simp: cap_at_def)
  then have m: "(i, j) \<in> (SIGMA i:{..<?N}. ?U i) \<longleftrightarrow> caps_of Cs s (c, i, j) \<noteq> None" for i j
    using ok(2) by (simp add: caps_of_def)
  have "{p. fst p = c \<and> caps_of Cs s p \<noteq> None} = Pair c ` (SIGMA i:{..<?N}. ?U i)"
  proof (rule set_eqI)
    fix p :: place
    obtain c' i j where p: "p = (c', i, j)" by (cases p)
    have "p \<in> Pair c ` (SIGMA i:{..<?N}. ?U i) \<longleftrightarrow> c' = c \<and> (i, j) \<in> (SIGMA i:{..<?N}. ?U i)" unfolding p by (simp only: image_iff) blast
    then show "p \<in> {p. fst p = c \<and> caps_of Cs s p \<noteq> None} \<longleftrightarrow> p \<in> Pair c ` (SIGMA i:{..<?N}. ?U i)"
      unfolding m by (auto simp only: p mem_Collect_eq fst_conv)
  qed
  then have "card {p. fst p = c \<and> caps_of Cs s p \<noteq> None} = card (SIGMA i:{..<?N}. ?U i)"
    by (simp add: card_image inj_on_def)
  also have "\<dots> = (\<Sum>i < ?N. fill s (?t i))" using fin by (subst card_SigmaI) (auto simp: fill_def intro: sum.cong)
  finally show ?thesis using okc by (simp add: cspace_ok_def Let_def)
qed

lemma full_iff:
  assumes "cs_inv Cs Os L s" "c \<in> Cs"
  shows "full (cap_limit Cs s) (caps_of Cs s) c \<longleftrightarrow> cs_cap_count (cspaces s c) = cs_max_caps (cspaces s c)"
  using cap_count_card [of Cs s c] assms by (auto simp: full_def cap_limit_def cs_inv_def word_unat_eq_iff)

lemma alloc_error_spec:
  assumes "cs_inv Cs Os L s" "c \<in> Cs"
  shows "alloc_error s c alloc \<noteq> OK \<Longrightarrow> no_slot (cap_limit Cs s) (caps_of Cs s) c alloc (alloc_error s c alloc)"
    "alloc_error s c alloc = OK \<Longrightarrow> \<not> full (cap_limit Cs s) (caps_of Cs s) c"
  using full_iff [OF assms] by (auto simp: alloc_error_def no_slot_def split: if_splits)

definition step_ok :: "ptr set \<Rightarrow> ptr set \<Rightarrow> cs_mem \<Rightarrow> cs_op \<Rightarrow> bool" where
  "step_ok Cs Os s op \<longleftrightarrow> (\<exists>a s'. cs_step op s = Some (a, s') \<and> (\<exists>L. cs_inv Cs Os L s') \<and> cs_frame Cs s s' \<and>
    cap_spec (cap_limit Cs s) (cap_place Cs s) op a (caps_of Cs s) (caps_of Cs s'))"

lemma step_okI:
  "cs_step op s = Some (a, s') \<Longrightarrow> \<exists>L. cs_inv Cs Os L s' \<Longrightarrow> cs_frame Cs s s' \<Longrightarrow>
    cap_spec (cap_limit Cs s) (cap_place Cs s) op a (caps_of Cs s) (caps_of Cs s') \<Longrightarrow> step_ok Cs Os s op"
  unfolding step_ok_def by blast

lemma frame_refl [simp]: "cs_frame Cs s s"
  by (simp add: cs_frame_def)

lemma frame_refcount [simp]: "cs_frame Cs s (set_refcount q r s)"
  by (simp add: cs_frame_def set_refcount_def)

lemma create_step:
  assumes inv: "cs_inv Cs Os L s" and op: "op_ok Cs Os s (Create c q t r alloc)"
  shows "step_ok Cs Os s (Create c q t r alloc)"
proof (cases "alloc_error s c alloc = OK")
  case False
  then have "cspace_create_restricted_master_cap c q t r alloc s = Some (Inl (alloc_error s c alloc), s)"
    using create_cap [OF inv, of c alloc q t r] op by simp
  then show ?thesis using inv op alloc_error_spec(1) [OF inv _ False] by (intro step_okI) auto
next
  case True
  then obtain i s' where "cspace_create_restricted_master_cap c q t r alloc s = Some (Inr i, s')" "added Cs Os s c i (master_cap q t r) s'"
    using create_cap [OF inv, of c alloc q t r] op by auto
  then show ?thesis using op alloc_error_spec(2) [OF inv _ True] by (intro step_okI [of _ _ "Inr i" s']) (auto simp: added_def cap_place_def split: option.splits)
qed

lemma copy_step:
  assumes inv: "cs_inv Cs Os L s" and op: "op_ok Cs Os s (Copy c c' i m alloc)"
  shows "step_ok Cs Os s (Copy c c' i m alloc)"
proof -
  have c: "c \<in> Cs" "c' \<in> Cs" "mem_ok Cs Os s c alloc" using op by auto
  note r = copy_cap [OF inv c, of i m]
  consider (alloc) "alloc_error s c alloc \<noteq> OK"
    | (err) "alloc_error s c alloc = OK" "copy_error (named_cap Cs s c' i) m \<noteq> OK"
    | (ok) "alloc_error s c alloc = OK" "copy_error (named_cap Cs s c' i) m = OK" by blast
  then show ?thesis
  proof cases
    case alloc
    then show ?thesis using r inv alloc_error_spec(1) [OF inv c(1) alloc] by (intro step_okI [of _ _ "Inl (alloc_error s c alloc)" s]) auto
  next
    case err
    then obtain s' where "cspace_copy_cap c c' i m alloc s = Some (Inl (copy_error (named_cap Cs s c' i) m), s')" "unchanged Cs Os s s'"
      using r by auto
    then show ?thesis using err(2) alloc_error_spec(2) [OF inv c(1) err(1)] c by (intro step_okI) (auto simp: bind_place unchanged_def)
  next
    case ok
    then obtain i' s' d where "named_cap Cs s c' i = Some d" "cspace_copy_cap c c' i m alloc s = Some (Inr i', s')"
        "added Cs Os s c i' (copied_cap d m) s'"
      using r by auto
    then show ?thesis using ok(2) alloc_error_spec(2) [OF inv c(1) ok(1)] c
      by (intro step_okI [of _ _ "Inr i'" s']) (auto simp: added_def bind_place cap_place_def [of _ _ c] split: option.splits)
  qed
qed

lemma delete_step:
  assumes inv: "cs_inv Cs Os L s" and op: "op_ok Cs Os s (Delete c i)"
  shows "step_ok Cs Os s (Delete c i)"
proof (cases "named_cap Cs s c i")
  case None
  then show ?thesis using delete_cap [OF inv, of c i] op inv
    by (intro step_okI [of _ _ "Inl ERROR_CSPACE_CAP_NULL" s]) (auto simp: bind_place answer_def)
next
  case (Some d)
  then obtain s' where "cspace_delete_cap c i s = Some (OK, s')" "removed Cs Os s (the (id_place s c i)) d s'"
    using delete_cap [OF inv, of c i] op by auto
  then show ?thesis using op Some
    by (intro step_okI [of _ _ "Inr 0" s']) (auto simp: removed_def named_cap_def answer_def cap_place_def)
qed

lemma revoke_step:
  assumes inv: "cs_inv Cs Os L s" and op: "op_ok Cs Os s (Revoke c i)"
  shows "step_ok Cs Os s (Revoke c i)"
proof (cases "revoke_error (named_cap Cs s c i) = OK")
  case False
  then show ?thesis using revoke_caps [OF inv, of c i] op inv
    by (intro step_okI [of _ _ "Inl (revoke_error (named_cap Cs s c i))" s]) (auto simp: bind_place answer_def)
next
  case True
  then obtain s' where "cspace_revoke_caps c i s = Some (OK, s')" "revoked Cs Os s (the (id_place s c i)) s'"
    using revoke_caps [OF inv, of c i] op by auto
  then show ?thesis using op True
    by (intro step_okI [of _ _ "Inr 0" s']) (auto simp: revoked_def named_cap_def answer_def cap_place_def)
qed

lemma lookup_step:
  assumes inv: "cs_inv Cs Os L s" and op: "op_ok Cs Os s (Lookup c i t r active_only)"
  shows "step_ok Cs Os s (Lookup c i t r active_only)"
proof -
  have c: "c \<in> Cs" "t \<noteq> OBJECT_TYPE_ANY" and room: "\<And>q. oh_refcount (headers s q) < 0xFFFFFFFF" using op by auto
  note r = lookup_object [OF inv c room, of i r active_only]
  let ?cap = "named_cap Cs s c i"
  consider (err) "cap_check ?cap t r \<noteq> OK" "cspace_lookup_object c i t r active_only s = Some (Inl (cap_check ?cap t r), s)"
    | (state) d where "?cap = Some d" "cap_check ?cap t r = OK" active_only "cspace_lookup_object c i t r active_only s = Some (Inl ERROR_OBJECT_STATE, s)"
    | (ok) d where "?cap = Some d" "cap_check ?cap t r = OK" "cspace_lookup_object c i t r active_only s =
        Some (Inr (cd_object d), set_refcount (cd_object d) (oh_refcount (headers s (cd_object d)) + 1) s)"
    using r by (cases ?cap) (auto simp: cap_check_def split: if_splits)
  then show ?thesis
  proof cases
    case err
    then show ?thesis using inv c by (intro step_okI) (auto simp: bind_place)
  next
    case state
    then show ?thesis using inv c by (intro step_okI) (auto simp: bind_place)
  next
    case ok
    have "unat (oh_refcount (headers s (cd_object d))) \<le> unat (oh_refcount (headers s (cd_object d)) + 1)"
      using room [of "cd_object d"] by (subst unat_add_no_overflow) (simp_all add: word_less_nat_alt)
    note k = cs_inv_refcount [OF inv this]
    show ?thesis using k(1) ok c by (intro step_okI [OF _ exI, of _ _ _ "set_refcount (cd_object d) (oh_refcount (headers s (cd_object d)) + 1) s"]) (auto simp: bind_place k(2))
  qed
qed

lemma put_step:
  assumes inv: "cs_inv Cs Os L s" and op: "op_ok Cs Os s (Put t q)"
  shows "step_ok Cs Os s (Put t q)"
proof -
  have "unreferenced Cs s q \<longleftrightarrow> L (oh_cap_list (headers s q)) = []"
    using unreferenced_empty [of Cs Os L s q] inv op by (simp add: cs_inv_def)
  then have k: "L (oh_cap_list (headers s q)) = [] \<or> 1 < unat (oh_refcount (headers s q))" "0 < unat (oh_refcount (headers s q))"
      "q \<in> Os" "t \<noteq> OBJECT_TYPE_ANY"
    using op by (auto split: if_splits)
  obtain s' where "object_put t q s = Some s'" "cs_inv Cs Os L s'" "caps_of Cs s' = caps_of Cs s" "cs_frame Cs s s'"
    using put_object [OF inv k(3,1,2,4)] by blast
  then show ?thesis by (intro step_okI [of _ _ "Inr 0" s']) auto
qed

lemma any_step: "cs_inv Cs Os L s \<Longrightarrow> op_ok Cs Os s op \<Longrightarrow> step_ok Cs Os s op"
  by (cases op) (blast intro: create_step copy_step delete_step revoke_step lookup_step put_step)+

section \<open>Histories\<close>

lemma history_spec:
  assumes "cs_history Cs Os s h s'" "\<exists>L. cs_inv Cs Os L s"
  shows "(\<exists>L. cs_inv Cs Os L s') \<and> cs_frame Cs s s' \<and> spec_run (cap_limit Cs s) (cap_place Cs s) h (caps_of Cs s) (caps_of Cs s')"
  using assms
proof (induction rule: cs_history.induct)
  case (step s op a s1 h s')
  then obtain L where "cs_inv Cs Os L s" by blast
  then have k: "\<exists>L. cs_inv Cs Os L s1" "cs_frame Cs s s1" "cap_spec (cap_limit Cs s) (cap_place Cs s) op a (caps_of Cs s) (caps_of Cs s1)"
    using any_step [OF _ step.hyps(1)] step.hyps(2) by (auto simp: step_ok_def)
  have "cs_frame Cs s s'" using step.IH [OF k(1)] k(2) static_eq_trans unfolding cs_frame_def by metis
  then show ?case using step.IH [OF k(1)] k cap_place_frame [OF k(2)] cap_limit_frame [OF k(2)] by auto
qed simp

definition weaker :: "cap_data \<Rightarrow> cap_data \<Rightarrow> bool" where
  "weaker e d \<longleftrightarrow> cd_object e = cd_object d \<and> cd_type e = cd_type d \<and> cd_rights e AND cd_rights d = cd_rights e"

lemma weaker_refl [simp]: "weaker d d"
  by (simp add: weaker_def)

lemma and_chain: "a AND b = a \<Longrightarrow> b AND c = b \<Longrightarrow> a AND c = (a :: u32)"
  by (metis and.assoc)

definition granted :: "cap_map \<Rightarrow> (cs_op \<times> u64 result) list \<Rightarrow> cap_data \<Rightarrow> bool" where
  "granted V h e \<longleftrightarrow> (\<exists>p d. V p = Some d \<and> cd_state d = CAP_STATE_VALID \<and> weaker e d) \<or>
    (\<exists>c r alloc i. (Create c (cd_object e) (cd_type e) r alloc, Inr i) \<in> set h \<and> cd_rights e AND r = cd_rights e)"

lemma new_cap_granted:
  assumes "new_cap_spec pl c i d V V1" "V1 p = Some e"
  shows "V p = Some e \<or> e = d"
  using assms by (auto split: option.splits if_splits)

lemma grantedI: "V p = Some d \<Longrightarrow> cd_state d = CAP_STATE_VALID \<Longrightarrow> weaker e d \<Longrightarrow> granted V h e"
  unfolding granted_def by blast

lemma step_granted:
  assumes s: "cap_spec lim pl op a V V1" and e: "V1 p = Some e" "cd_state e = CAP_STATE_VALID"
  shows "granted V [(op, a)] e"
proof (cases "V p = Some e")
  case True
  then show ?thesis using e(2) by (auto intro: grantedI)
next
  case False
  show ?thesis
  proof (cases op)
    case (Create c q t r alloc)
    then obtain i where "a = Inr i" "e = master_cap q t r" using s e False new_cap_granted by (cases a) fastforce+
    then show ?thesis by (auto simp: granted_def Create master_cap_def)
  next
    case (Copy c c' i m alloc)
    then obtain q d where "V q = Some d" "e = copied_cap d m"
      using s e False by (cases a) (auto split: option.splits if_splits Option.bind_splits)
    then show ?thesis using e(2) by (intro grantedI [of V q d]) (auto simp: copied_cap_def weaker_def and.assoc and.left_commute and.commute)
  next
    case (Delete c i)
    then show ?thesis using s e False by (auto split: option.splits if_splits)
  next
    case (Revoke c i)
    then show ?thesis using s e False
      by (auto simp: Let_def revoke_others_def revoked_cap_def split: option.splits if_splits)
  qed (use s e False in auto)
qed

lemma granted_chain:
  assumes "granted V1 h e" and step: "\<And>p d. V1 p = Some d \<Longrightarrow> cd_state d = CAP_STATE_VALID \<Longrightarrow> granted V [x] d"
  shows "granted V (x # h) e"
proof -
  consider (cap) p d where "V1 p = Some d" "cd_state d = CAP_STATE_VALID" "weaker e d"
    | (new) c r alloc i where "(Create c (cd_object e) (cd_type e) r alloc, Inr i) \<in> set h" "cd_rights e AND r = cd_rights e"
    using assms(1) unfolding granted_def by blast
  then show ?thesis
  proof cases
    case cap
    from step [OF cap(1,2)] show ?thesis unfolding granted_def
      using cap(3) and_chain unfolding weaker_def by (metis list.set_intros(1) empty_iff empty_set set_ConsD)
  next
    case new
    then have "(Create c (cd_object e) (cd_type e) r alloc, Inr i) \<in> set (x # h)" by simp
    then show ?thesis using new(2) unfolding granted_def by blast
  qed
qed

lemma run_granted: "spec_run lim pl h V V' \<Longrightarrow> V' p = Some e \<Longrightarrow> cd_state e = CAP_STATE_VALID \<Longrightarrow> granted V h e"
proof (induction h arbitrary: V)
  case Nil
  then show ?case by (auto intro: grantedI)
next
  case (Cons x h)
  obtain op a V1 where x: "x = (op, a)" "cap_spec lim pl op a V V1" "spec_run lim pl h V1 V'" using Cons.prems(1) by (cases x) auto
  show ?case using granted_chain [OF Cons.IH [OF x(3) Cons.prems(2,3)]] step_granted [OF x(2)] x(1) by blast
qed

end
