(* ===== verification/Cspace_Properties.thy ===== *)
theory Cspace_Properties
  imports Cspace_Spec
begin

text \<open>
  The properties of the capability system: it refines its specification, it does not amplify rights,
  lookups are type safe, and revocation is exact; with an example that they are applied to. The last
  section shows that the limit of a cspace can be exceeded by concurrent allocations.
\<close>

section \<open>An example\<close>

text \<open>A cspace with room for two tables, none of them allocated, and an object without capabilities.\<close>

definition ex_cs :: "u32 \<Rightarrow> cs_mem" where
  "ex_cs max_caps = \<lparr>headers = \<lambda>q. \<lparr>oh_state = OBJECT_STATE_ACTIVE, oh_refcount = 1, oh_cap_list = q + 16\<rparr>, obj_log = [],
     cspaces = \<lambda>c. \<lparr>cs_partition = 0x5000, cs_max_caps = max_caps, cs_cap_count = 0, cs_revoked_cap_list = c + 32,
       id_mult = 1, id_inv = util_bit 32 div 1 + 1, id_rand_base = 0, allocated_tables = [0], available_tables = [0],
       tables = [NULL, NULL]\<rparr>,
     cap_tables = \<lambda>_. \<lparr>ct_cspace = 0, ct_partition = 0, ct_index = 0, ct_cap_count = 0, ct_used_slots = [0]\<rparr>,
     caps = \<lambda>_. null_cap_data, list_nodes = \<lambda>p. \<lparr>ln_next = p, ln_prev = p\<rparr>, thread_cspace = \<lambda>_. NULL\<rparr>"

lemma ex_cs_inv:
  assumes "unat max_caps \<le> 124"
  shows "cs_inv {0x3000} {0x1000} (\<lambda>_. []) (ex_cs max_caps)"
proof -
  have V: "caps_of Cs (ex_cs max_caps) = (\<lambda>_. None)" for Cs
    by (auto simp: fun_eq_iff caps_of_def cap_at_def ex_cs_def null_cap_data_def)
  have "encoder_ok (cspaces (ex_cs max_caps) 0x3000)"
    by (simp add: encoder_ok_def ex_cs_def)
  then have "slots_ok {} {0x3000} (ex_cs max_caps)"
    using assms by (auto simp: slots_ok_def cspace_ok_def index_ok_def Let_def ex_cs_def less_Suc_eq fill_def bm_bit_def numeral_2_eq_2)
  moreover have "lists_ok {0x3000} {0x1000} (\<lambda>_. []) (ex_cs max_caps)"
    unfolding lists_ok_def V
    by (auto simp: heads_apart_def lists_def links_def members_def masters_first_def is_list_def linked_def ex_cs_def heads_def)
  ultimately show ?thesis by (simp add: cs_inv_def refs_ok_def)
qed


lemma ffc_first: "0 < n \<Longrightarrow> n \<le> 64 \<Longrightarrow> bitmap_atomic_ffc [0] n = Some (Some 0)"
  by (simp add: bitmap_atomic_search bitmap_ffc_find bm_bit_def upt_conv_Cons)

lemma ex_bits:
  "bitmap_ffs [0] (Suc (Suc 0)) = Some None" "bitmap_set [0] 0 = Some [1]" "bitmap_set [1] (Suc 0) = Some [3]"
  "claim_clear_bit [0] (Suc (Suc 0)) = Some (Some 0, [1])" "claim_clear_bit [1] (Suc (Suc 0)) = Some (Some 1, [3])"
  "claim_clear_bit [0] 62 = Some (Some 0, [1])" "replicate (BITMAP_NUM_WORDS 62) 0 = [0 :: u64]"
proof -
  show "bitmap_ffs [0] (Suc (Suc 0)) = Some None" by (simp add: bitmap_ffs_find bm_bit_def)
  show "bitmap_set [0] 0 = Some [1]" "bitmap_set [1] (Suc 0) = Some [3]" by (simp_all add: bitmap_set_def bitmap_macros)
  have t: "bitmap_atomic_test_and_set [0] 0 = Some (False, [1])" "bitmap_atomic_test_and_set [1] 1 = Some (False, [3])"
    by (simp_all add: bitmap_atomic_test_and_set_def bitmap_macros)
  have f: "bitmap_atomic_ffc [1] (Suc (Suc 0)) = Some (Some 1)" "bitmap_atomic_ffc [0] 62 = Some (Some 0)"
      "bitmap_atomic_ffc [0] (Suc (Suc 0)) = Some (Some 0)"
    by (simp add: bitmap_atomic_search bitmap_ffc_find bm_bit_def) (rule ffc_first; simp)+
  show "claim_clear_bit [0] (Suc (Suc 0)) = Some (Some 0, [1])" by (subst claim_clear_bit.simps) (simp only: f t, simp add: t)
  show "claim_clear_bit [1] (Suc (Suc 0)) = Some (Some 1, [3])" by (subst claim_clear_bit.simps) (simp only: f t, simp add: t [simplified])
  show "claim_clear_bit [0] 62 = Some (Some 0, [1])" by (subst claim_clear_bit.simps) (simp only: f t, simp add: t)
  show "replicate (BITMAP_NUM_WORDS 62) 0 = [0 :: u64]" by (simp add: BITMAP_NUM_WORDS_def)
qed

lemmas ex_defs = upd_cspace_def upd_table_def set_cap_def set_refcount_def log_event_def clear_cap_table_def CSPACE_NUM_CAP_TABLES_def
  SLOTS_eq ex_bits object_get_additional_def refcount_get_additional_def Let_def

lemmas ex_alloc_defs = cspace_allocate_cap_slot_begin_def cspace_allocate_cap_table_def cspace_attach_cap_table_def cspace_count_cap_def
  cspace_claim_cap_slot_def ex_cs_def ex_defs

lemma ex_alloc:
  "\<exists>s1. cspace_allocate_cap_slot 0x3000 (Inr 0x8000) (ex_cs 4) = Some (Inr (0x8030, 0), s1) \<and>
    headers s1 = (headers (ex_cs 4))(0x5000 := (headers (ex_cs 4) 0x5000)\<lparr>oh_refcount := 2\<rparr>) \<and>
    cs_partition (cspaces s1 0x3000) = 0x5000 \<and> available_tables (cspaces s1 0x3000) = [1] \<and>
    cs_cap_count (cspaces s1 0x3000) = 1 \<and> cs_max_caps (cspaces s1 0x3000) = 4 \<and> length (tables (cspaces s1 0x3000)) = 2"
  by (simp add: cspace_allocate_cap_slot_def ex_alloc_defs cap_slot_def cspace_indices_to_cap_id_def cap_value_def cspace_encode_cap_id_def)

text \<open>A master capability for the object, and the state behind its creation.\<close>

lemma ex_mem_ok: "mem_ok {0x3000} {0x1000} (ex_cs 4) 0x3000 (Inr 0x8000)"
  by (auto simp: mem_ok_def alloc_ok_def is_table_def ex_cs_def heads_def util_balign_down_def)

lemma ex_op_ok: "op_ok {0x3000} {0x1000} (ex_cs 4) (Create 0x3000 0x1000 OBJECT_TYPE_DOORBELL 0xff (Inr 0x8000))"
  using ex_mem_ok by (auto simp: unreferenced_def caps_of_def cap_at_def ex_cs_def null_cap_data_def)

lemma ex_created:
  "\<exists>s1 L. cs_step (Create 0x3000 0x1000 OBJECT_TYPE_DOORBELL 0xff (Inr 0x8000)) (ex_cs 4) = Some (Inr 0, s1) \<and>
    cs_inv {0x3000} {0x1000} L s1 \<and> named_cap {0x3000} s1 0x3000 0 = Some (master_cap 0x1000 OBJECT_TYPE_DOORBELL 0xff) \<and>
    (\<forall>q. oh_refcount (headers s1 q) < 3 \<and> 0 < oh_refcount (headers s1 q)) \<and> mem_ok {0x3000} {0x1000} s1 0x3000 (Inl ERROR_NOMEM) \<and>
    alloc_error s1 0x3000 (Inl ERROR_NOMEM) = OK"
proof -
  let ?op = "Create 0x3000 0x1000 OBJECT_TYPE_DOORBELL 0xff (Inr 0x8000)"
  have inv: "cs_inv {0x3000} {0x1000} (\<lambda>_. []) (ex_cs 4)" by (rule ex_cs_inv) simp
  obtain s0 where s0: "cspace_allocate_cap_slot 0x3000 (Inr 0x8000) (ex_cs 4) = Some (Inr (0x8030, 0), s0)"
      "headers s0 = (headers (ex_cs 4))(0x5000 := (headers (ex_cs 4) 0x5000)\<lparr>oh_refcount := 2\<rparr>)"
      "cs_partition (cspaces s0 0x3000) = 0x5000" "available_tables (cspaces s0 0x3000) = [1]"
      "cs_cap_count (cspaces s0 0x3000) = 1" "cs_max_caps (cspaces s0 0x3000) = 4" "length (tables (cspaces s0 0x3000)) = 2"
    using ex_alloc by blast
  obtain a s1 L where s1: "cs_step ?op (ex_cs 4) = Some (a, s1)" "cs_inv {0x3000} {0x1000} L s1" "cs_frame {0x3000} (ex_cs 4) s1"
      "cap_spec (cap_limit {0x3000} (ex_cs 4)) (cap_place {0x3000} (ex_cs 4)) ?op a (caps_of {0x3000} (ex_cs 4)) (caps_of {0x3000} s1)"
    using any_step [OF inv ex_op_ok] unfolding step_ok_def by blast
  obtain m where m: "a = Inr 0" "s1 = set_cap 0x8030 (master_cap 0x1000 OBJECT_TYPE_DOORBELL 0xff) (s0\<lparr>list_nodes := m\<rparr>)"
    using s1(1) s0(1) by (auto simp: cspace_create_restricted_master_cap_def master_cap_def split: Option.bind_splits)
  have h: "headers s1 = headers s0" "cspaces s1 = cspaces s0" using m(2) by (simp_all add: set_cap_def)
  have "named_cap {0x3000} s1 0x3000 0 = Some (master_cap 0x1000 OBJECT_TYPE_DOORBELL 0xff)"
    using s1(4) m(1) cap_place_frame [OF s1(3)] bind_place [of "0x3000" "{0x3000}" s1 0] by (auto split: option.splits)
  moreover have "mem_ok {0x3000} {0x1000} s1 0x3000 (Inl ERROR_NOMEM)"
    using s0(2,3) h by (simp add: mem_ok_def alloc_ok_def)
  moreover have "alloc_error s1 0x3000 (Inl ERROR_NOMEM) = OK"
    using s0(4-7) h by (auto simp: alloc_error_def bm_bit_def intro!: exI [of _ 0])
  moreover have "\<forall>q. oh_refcount (headers s1 q) < 3 \<and> 0 < oh_refcount (headers s1 q)" using s0(2) h by (simp add: ex_cs_def)
  ultimately show ?thesis using s1(1,2) m(1) by blast
qed

lemma ex_history:
  "cs_step (Create 0x3000 0x1000 OBJECT_TYPE_DOORBELL 0xff (Inr 0x8000)) (ex_cs 4) = Some (Inr 0, s1) \<Longrightarrow>
    cs_history {0x3000} {0x1000} (ex_cs 4) [(Create 0x3000 0x1000 OBJECT_TYPE_DOORBELL 0xff (Inr 0x8000), Inr 0)] s1"
  using cs_history.step [OF ex_op_ok _ cs_history.stop] by blast

text \<open>A copy of it with fewer rights.\<close>

lemma ex_copied:
  "\<exists>i s2 L. cs_history {0x3000} {0x1000} (ex_cs 4) [(Create 0x3000 0x1000 OBJECT_TYPE_DOORBELL 0xff (Inr 0x8000), Inr 0),
      (Copy 0x3000 0x3000 0 0xf0f (Inl ERROR_NOMEM), Inr i)] s2 \<and> cs_inv {0x3000} {0x1000} L s2 \<and>
    named_cap {0x3000} s2 0x3000 0 = Some (master_cap 0x1000 OBJECT_TYPE_DOORBELL 0xff) \<and>
    named_cap {0x3000} s2 0x3000 i = Some (copied_cap (master_cap 0x1000 OBJECT_TYPE_DOORBELL 0xff) 0xf0f) \<and>
    id_place s2 0x3000 i \<noteq> id_place s2 0x3000 0"
proof -
  let ?c = "copied_cap (master_cap 0x1000 OBJECT_TYPE_DOORBELL 0xff) 0xf0f"
  obtain s1 L where s1: "cs_step (Create 0x3000 0x1000 OBJECT_TYPE_DOORBELL 0xff (Inr 0x8000)) (ex_cs 4) = Some (Inr 0, s1)"
      "cs_inv {0x3000} {0x1000} L s1" "named_cap {0x3000} s1 0x3000 0 = Some (master_cap 0x1000 OBJECT_TYPE_DOORBELL 0xff)"
      "mem_ok {0x3000} {0x1000} s1 0x3000 (Inl ERROR_NOMEM)" "alloc_error s1 0x3000 (Inl ERROR_NOMEM) = OK"
    using ex_created by blast
  have e: "copy_error (named_cap {0x3000} s1 0x3000 0) 0xf0f = OK" by (simp add: s1(3) copy_error_def cap_check_def master_cap_def)
  obtain i s2 where s2: "cspace_copy_cap 0x3000 0x3000 0 0xf0f (Inl ERROR_NOMEM) s1 = Some (Inr i, s2)" "added {0x3000} {0x1000} s1 0x3000 i ?c s2"
    using copy_cap [OF s1(2) _ _ s1(4), of "0x3000" 0 "0xf0f"] e s1(3,5) by auto
  have pl: "id_place s2 0x3000 = id_place s1 0x3000"
    using id_place_static [of s1 "0x3000" s2] s2(2) by (auto simp: added_def cs_frame_def)
  obtain p where p: "id_place s1 0x3000 i = Some p" "caps_of {0x3000} s1 p = None" "caps_of {0x3000} s2 = (caps_of {0x3000} s1)(p \<mapsto> ?c)"
    using s2(2) by (auto simp: added_def split: option.splits)
  obtain q where q: "id_place s1 0x3000 0 = Some q" "caps_of {0x3000} s1 q \<noteq> None" using s1(3) by (auto simp: named_cap_def split: Option.bind_splits)
  have "q \<noteq> p" using p(2) q(2) by blast
  then have n: "named_cap {0x3000} s2 0x3000 i = Some ?c" "named_cap {0x3000} s2 0x3000 0 = named_cap {0x3000} s1 0x3000 0"
      "id_place s2 0x3000 i \<noteq> id_place s2 0x3000 0"
    using p q by (simp_all add: named_cap_def pl)
  have "cs_history {0x3000} {0x1000} (ex_cs 4) [(Create 0x3000 0x1000 OBJECT_TYPE_DOORBELL 0xff (Inr 0x8000), Inr 0),
      (Copy 0x3000 0x3000 0 0xf0f (Inl ERROR_NOMEM), Inr i)] s2"
    by (rule cs_history.step [OF ex_op_ok s1(1)], rule cs_history.step [OF _ _ cs_history.stop]) (use s1(4) s2(1) in simp_all)
  moreover obtain L' where "cs_inv {0x3000} {0x1000} L' s2" using s2(2) by (auto simp: added_def)
  ultimately show ?thesis using n s1(3) by metis
qed

text \<open>A refused lookup changes nothing; the number of references does not matter.\<close>

lemma lookup_refused:
  assumes inv: "cs_inv Cs Os L s" "c \<in> Cs" and t: "t \<noteq> OBJECT_TYPE_ANY" "cap_check (named_cap Cs s c i) t r \<noteq> OK"
  shows "cspace_lookup_object c i t r active_only s = Some (Inl (cap_check (named_cap Cs s c i) t r), s)"
proof -
  have "lists_ok Cs Os L s" using inv(1) by (simp add: cs_inv_def)
  from check_named [OF this inv(2), of i t r] show ?thesis
    using t by (auto simp: cspace_lookup_object_def cap_check_def [of None])
qed

section \<open>Properties\<close>

text \<open>
  C9. The capability system refines its specification. After any history of creating, copying, deleting,
  revoking and looking up capabilities in the cspaces \<open>Cs\<close>, and of giving back references, the
  capabilities are those that the specification computes: a creation or a copy adds one capability at
  the place its identifier names, which was empty; a deletion removes one; a revocation turns all
  capabilities of the object but its master into revoked ones; nothing else changes a capability, and
  each answer is the one specified, the full cspace and the failed allocation included. The next
  operation does not panic either.
\<close>

theorem cspace_refines:
  assumes "cs_inv Cs Os L s" "cs_history Cs Os s h s'" "op_ok Cs Os s' op"
  shows "spec_run (cap_limit Cs s) (cap_place Cs s) h (caps_of Cs s) (caps_of Cs s') \<and>
    (\<exists>a s''. cs_step op s' = Some (a, s'') \<and> cap_spec (cap_limit Cs s) (cap_place Cs s) op a (caps_of Cs s') (caps_of Cs s''))"
proof -
  have k: "\<exists>L. cs_inv Cs Os L s'" "cs_frame Cs s s'" "spec_run (cap_limit Cs s) (cap_place Cs s) h (caps_of Cs s) (caps_of Cs s')"
    using history_spec [OF assms(2)] assms(1) by blast+
  then show ?thesis using any_step [OF _ assms(3)] cap_place_frame [OF k(2)] cap_limit_frame [OF k(2)] unfolding step_ok_def by metis
qed

theorem cspace_refines_witness:
  "\<exists>s1 s2. cs_step (Create 0x3000 0x1000 OBJECT_TYPE_DOORBELL 0xff (Inr 0x8000)) (ex_cs 4) = Some (Inr 0, s1) \<and>
    named_cap {0x3000} s1 0x3000 0 = Some (master_cap 0x1000 OBJECT_TYPE_DOORBELL 0xff) \<and>
    cs_step (Delete 0x3000 0) s1 = Some (Inr 0, s2)"
proof -
  obtain s1 where s1: "cs_step (Create 0x3000 0x1000 OBJECT_TYPE_DOORBELL 0xff (Inr 0x8000)) (ex_cs 4) = Some (Inr 0, s1)"
      "named_cap {0x3000} s1 0x3000 0 = Some (master_cap 0x1000 OBJECT_TYPE_DOORBELL 0xff)"
    using ex_created by blast
  have inv: "cs_inv {0x3000} {0x1000} (\<lambda>_. []) (ex_cs 4)" by (rule ex_cs_inv) simp
  have ok: "op_ok {0x3000} {0x1000} s1 (Delete 0x3000 0)" by simp
  have fr: "cs_frame {0x3000} (ex_cs 4) s1" using history_spec [OF ex_history [OF s1(1)]] inv by blast
  show ?thesis using cspace_refines [OF inv ex_history [OF s1(1)] ok] s1 cap_place_frame [OF fr] bind_place [of "0x3000" "{0x3000}" s1 0]
    by auto
qed

text \<open>
  C10. No operation amplifies rights. A valid capability of any later state gives rights on an object only
  if there was a valid capability for the same object, with the same type and at least these rights, or
  if a master capability with at least these rights was created for the object in the meantime.
\<close>

theorem cspace_no_amplification:
  assumes "cs_inv Cs Os L s" "cs_history Cs Os s h s'" "caps_of Cs s' p = Some e" "cd_state e = CAP_STATE_VALID"
  shows "(\<exists>p d. caps_of Cs s p = Some d \<and> cd_state d = CAP_STATE_VALID \<and> cd_object e = cd_object d \<and> cd_type e = cd_type d \<and>
      cd_rights e AND cd_rights d = cd_rights e) \<or>
    (\<exists>c r alloc i. (Create c (cd_object e) (cd_type e) r alloc, Inr i) \<in> set h \<and> cd_rights e AND r = cd_rights e)"
  using run_granted [of _ _ h "caps_of Cs s" "caps_of Cs s'" p e] history_spec [OF assms(2)] assms
  unfolding granted_def weaker_def by blast

theorem cspace_no_amplification_witness:
  "\<exists>i s2. cs_history {0x3000} {0x1000} (ex_cs 4) [(Create 0x3000 0x1000 OBJECT_TYPE_DOORBELL 0xff (Inr 0x8000), Inr 0),
      (Copy 0x3000 0x3000 0 0xf0f (Inl ERROR_NOMEM), Inr i)] s2 \<and>
    named_cap {0x3000} s2 0x3000 i = Some (copied_cap (master_cap 0x1000 OBJECT_TYPE_DOORBELL 0xff) 0xf0f) \<and>
    cd_rights (copied_cap (master_cap 0x1000 OBJECT_TYPE_DOORBELL 0xff) 0xf0f) AND 0xff = 0x0f"
proof -
  let ?c = "copied_cap (master_cap 0x1000 OBJECT_TYPE_DOORBELL 0xff) 0xf0f"
  have r: "cd_rights ?c = 0x0f" "cd_state ?c = CAP_STATE_VALID" "cd_object ?c = 0x1000" by (simp_all add: copied_cap_def master_cap_def)
  obtain i s2 where h: "cs_history {0x3000} {0x1000} (ex_cs 4) [(Create 0x3000 0x1000 OBJECT_TYPE_DOORBELL 0xff (Inr 0x8000), Inr 0),
      (Copy 0x3000 0x3000 0 0xf0f (Inl ERROR_NOMEM), Inr i)] s2" and n: "named_cap {0x3000} s2 0x3000 i = Some ?c"
    using ex_copied by blast
  have inv: "cs_inv {0x3000} {0x1000} (\<lambda>_. []) (ex_cs 4)" by (rule ex_cs_inv) simp
  obtain p where p: "caps_of {0x3000} s2 p = Some ?c" using n by (auto simp: named_cap_def split: Option.bind_splits)
  have "caps_of {0x3000} (ex_cs 4) = (\<lambda>_. None)" by (auto simp: fun_eq_iff caps_of_def cap_at_def ex_cs_def null_cap_data_def)
  then have "cd_rights ?c AND 0xff = 0x0f" using cspace_no_amplification [OF inv h p r(2)] r by auto
  then show ?thesis using h n by blast
qed

text \<open>
  C12. Lookups are type safe. If all capabilities have had the type of their object at first, and master
  capabilities are created with the type of the object, then after any history a successful lookup for
  a type returns an object of this type, and takes a reference to it.
\<close>

theorem cspace_lookup_typed:
  assumes "cs_inv Cs Os L s" "cs_history Cs Os s h s'"
    and "\<And>p d. caps_of Cs s p = Some d \<Longrightarrow> cd_state d = CAP_STATE_VALID \<Longrightarrow> cd_type d = type_of (cd_object d)"
    and "\<And>c q t r alloc a. (Create c q t r alloc, a) \<in> set h \<Longrightarrow> t = type_of q"
    and "op_ok Cs Os s' (Lookup c i t rights active_only)"
    and "cspace_lookup_object c i t rights active_only s' = Some (Inr q, s'')"
  shows "type_of q = t \<and> q \<in> Os \<and> (active_only \<longrightarrow> oh_state (headers s' q) = OBJECT_STATE_ACTIVE) \<and>
    oh_refcount (headers s'' q) = oh_refcount (headers s' q) + 1"
proof -
  obtain L' where k: "cs_inv Cs Os L' s'" "spec_run (cap_limit Cs s) (cap_place Cs s) h (caps_of Cs s) (caps_of Cs s')"
    using history_spec [OF assms(2)] assms(1) by blast
  have c: "c \<in> Cs" "t \<noteq> OBJECT_TYPE_ANY" "\<And>q. oh_refcount (headers s' q) < 0xFFFFFFFF" using assms(5) by auto
  obtain d where d: "named_cap Cs s' c i = Some d" "cap_check (Some d) t rights = OK" "q = cd_object d"
      "active_only \<longrightarrow> oh_state (headers s' q) = OBJECT_STATE_ACTIVE" "s'' = set_refcount q (oh_refcount (headers s' q) + 1) s'"
    using assms(6) lookup_object [OF k(1) c, of i rights active_only]
    by (cases "named_cap Cs s' c i") (auto split: if_splits)
  then obtain p where p: "caps_of Cs s' p = Some d" by (auto simp: named_cap_def split: Option.bind_splits)
  have "cap_wf Os d" using lists_ok_wf [of Cs Os L' s' p d] k(1) p by (simp add: cs_inv_def)
  then have v: "cd_state d = CAP_STATE_VALID" "cd_object d \<in> Os" "cd_type d = t"
    using d(2) c(2) by (auto simp: cap_wf_def cap_check_def split: if_splits)
  have "cd_type d = type_of (cd_object d)"
    using run_granted [OF k(2) p v(1)] assms(3,4) unfolding granted_def weaker_def by metis
  then show ?thesis using d v by (simp add: set_refcount_def)
qed

theorem cspace_lookup_typed_witness:
  "\<exists>s1 s2. cs_step (Create 0x3000 0x1000 OBJECT_TYPE_DOORBELL 0xff (Inr 0x8000)) (ex_cs 4) = Some (Inr 0, s1) \<and>
    cspace_lookup_object 0x3000 0 OBJECT_TYPE_DOORBELL 1 False s1 = Some (Inr 0x1000, s2) \<and>
    oh_refcount (headers s2 0x1000) = oh_refcount (headers s1 0x1000) + 1"
proof -
  obtain s1 L where s1: "cs_step (Create 0x3000 0x1000 OBJECT_TYPE_DOORBELL 0xff (Inr 0x8000)) (ex_cs 4) = Some (Inr 0, s1)"
      "cs_inv {0x3000} {0x1000} L s1" "named_cap {0x3000} s1 0x3000 0 = Some (master_cap 0x1000 OBJECT_TYPE_DOORBELL 0xff)"
      "\<forall>q. oh_refcount (headers s1 q) < 3 \<and> 0 < oh_refcount (headers s1 q)"
    using ex_created by blast
  have room: "oh_refcount (headers s1 q) < 0xFFFFFFFF" for q
    by (rule less_trans [of _ 3]) (use s1(4) in simp_all)
  obtain s2 where s2: "cspace_lookup_object 0x3000 0 OBJECT_TYPE_DOORBELL 1 False s1 = Some (Inr 0x1000, s2)"
    using lookup_object [OF s1(2) _ _ room, of "0x3000" OBJECT_TYPE_DOORBELL 0 1 False] s1(3)
    by (simp add: cap_check_def master_cap_def)
  have inv: "cs_inv {0x3000} {0x1000} (\<lambda>_. []) (ex_cs 4)" by (rule ex_cs_inv) simp
  have "caps_of {0x3000} (ex_cs 4) p = None" for p by (cases p) (auto simp: caps_of_def cap_at_def ex_cs_def null_cap_data_def)
  moreover have "op_ok {0x3000} {0x1000} s1 (Lookup 0x3000 0 OBJECT_TYPE_DOORBELL 1 False)" using room by simp
  ultimately have "oh_refcount (headers s2 0x1000) = oh_refcount (headers s1 0x1000) + 1"
    using cspace_lookup_typed [OF inv ex_history [OF s1(1)], of "\<lambda>_. OBJECT_TYPE_DOORBELL" "0x3000" 0 OBJECT_TYPE_DOORBELL 1 False "0x1000" s2] s2
    by simp
  then show ?thesis using s1(1) s2 by blast
qed

text \<open>
  C11. Revocation is exact and final. With a valid master capability, \<^verbatim>\<open>cspace_revoke_caps\<close> succeeds;
  every other valid capability of the object, in whichever cspace, is revoked then, and is refused as
  revoked by every later lookup; all other capabilities, the headers of all objects and so all
  reference counts stay as they are.
\<close>

theorem cspace_revoke_exact:
  assumes inv: "cs_inv Cs Os L s" "c \<in> Cs"
    and m: "named_cap Cs s c i = Some d" "cd_state d = CAP_STATE_VALID" "cd_master d"
  shows "\<exists>s'. cspace_revoke_caps c i s = Some (OK, s') \<and> caps_of Cs s' = revoke_others (caps_of Cs s) (the (id_place s c i)) \<and>
    headers s' = headers s \<and>
    (\<forall>c' \<in> Cs. \<forall>i' e t r active_only. named_cap Cs s c' i' = Some e \<and> cd_state e = CAP_STATE_VALID \<and> cd_object e = cd_object d \<and>
      id_place s c' i' \<noteq> id_place s c i \<and> t \<noteq> OBJECT_TYPE_ANY \<longrightarrow>
      cspace_lookup_object c' i' t r active_only s' = Some (Inl ERROR_CSPACE_CAP_REVOKED, s'))"
proof -
  have "revoke_error (named_cap Cs s c i) = OK" using m by (simp add: revoke_error_def cap_check_def)
  then obtain s' where s': "cspace_revoke_caps c i s = Some (OK, s')" "revoked Cs Os s (the (id_place s c i)) s'"
    using revoke_caps [OF inv, of i] by auto
  then obtain L' where k: "cs_inv Cs Os L' s'" "cs_frame Cs s s'" "caps_of Cs s' = revoke_others (caps_of Cs s) (the (id_place s c i))"
      "headers s' = headers s"
    by (auto simp: revoked_def)
  obtain pm where pm: "id_place s c i = Some pm" "caps_of Cs s pm = Some d" using m(1) by (auto simp: named_cap_def split: Option.bind_splits)
  have "cspace_lookup_object c' i' t r active_only s' = Some (Inl ERROR_CSPACE_CAP_REVOKED, s')"
    if c': "c' \<in> Cs" and e: "named_cap Cs s c' i' = Some e" "cd_state e = CAP_STATE_VALID" "cd_object e = cd_object d"
      "id_place s c' i' \<noteq> id_place s c i" "t \<noteq> OBJECT_TYPE_ANY" for c' i' e t r active_only
  proof -
    obtain p where p: "id_place s c' i' = Some p" "caps_of Cs s p = Some e" using e(1) by (auto simp: named_cap_def split: Option.bind_splits)
    have "id_place s' c' i' = Some p" using id_place_static [of s c' s'] k(2) c' p(1) by (simp add: cs_frame_def)
    then have "named_cap Cs s' c' i' = Some (revoked_cap e)"
      using k(3) p pm e(2-4) by (simp add: named_cap_def revoke_others_def)
    then show ?thesis using lookup_refused [OF k(1) c' e(5), of i' r] by (simp add: cap_check_def revoked_cap_def)
  qed
  then show ?thesis using s'(1) k(3,4) by blast
qed

theorem cspace_revoke_exact_witness:
  "\<exists>i s2 s3. cs_history {0x3000} {0x1000} (ex_cs 4) [(Create 0x3000 0x1000 OBJECT_TYPE_DOORBELL 0xff (Inr 0x8000), Inr 0),
      (Copy 0x3000 0x3000 0 0xf0f (Inl ERROR_NOMEM), Inr i)] s2 \<and>
    cspace_revoke_caps 0x3000 0 s2 = Some (OK, s3) \<and>
    cspace_lookup_object 0x3000 i OBJECT_TYPE_DOORBELL 1 True s3 = Some (Inl ERROR_CSPACE_CAP_REVOKED, s3)"
proof -
  let ?m = "master_cap 0x1000 OBJECT_TYPE_DOORBELL 0xff"
  obtain i s2 L where k: "cs_history {0x3000} {0x1000} (ex_cs 4) [(Create 0x3000 0x1000 OBJECT_TYPE_DOORBELL 0xff (Inr 0x8000), Inr 0),
        (Copy 0x3000 0x3000 0 0xf0f (Inl ERROR_NOMEM), Inr i)] s2" "cs_inv {0x3000} {0x1000} L s2"
      "named_cap {0x3000} s2 0x3000 0 = Some ?m" "named_cap {0x3000} s2 0x3000 i = Some (copied_cap ?m 0xf0f)"
      "id_place s2 0x3000 i \<noteq> id_place s2 0x3000 0"
    using ex_copied by blast
  have m: "cd_state ?m = CAP_STATE_VALID" "cd_master ?m" "cd_state (copied_cap ?m 0xf0f) = CAP_STATE_VALID"
      "cd_object (copied_cap ?m 0xf0f) = cd_object ?m"
    by (simp_all add: master_cap_def copied_cap_def)
  show ?thesis using cspace_revoke_exact [OF k(2) _ k(3) m(1,2)] k(1,4,5) m(3,4) by fastforce
qed

section \<open>The limit under concurrency\<close>

text \<open>
  Several CPUs that have passed the check of the limit and found no table with a free slot: each one
  allocates a table while the lock is not held, then each one attaches its table and counts its capability.
\<close>

fun alloc_tables :: "ptr \<Rightarrow> ptr list \<Rightarrow> cs_mem \<Rightarrow> ((ptr \<times> nat) list \<times> cs_mem) option" where
  "alloc_tables c [] s = Some ([], s)"
| "alloc_tables c (p # ps) s = do {
     (t, s) \<leftarrow> cspace_allocate_cap_table c (Inr p) s;
     (case t of Inl _ \<Rightarrow> None | Inr t \<Rightarrow> do { (ts, s) \<leftarrow> alloc_tables c ps s; Some (t # ts, s) })
   }"

fun attach_tables :: "ptr \<Rightarrow> (ptr \<times> nat) list \<Rightarrow> cs_mem \<Rightarrow> cs_mem option" where
  "attach_tables c [] s = Some s"
| "attach_tables c ((t, i) # ts) s = do {
     s \<leftarrow> cspace_attach_cap_table c t i s;
     s \<leftarrow> cspace_count_cap c t i s;
     attach_tables c ts s
   }"

lemma alloc_one:
  assumes "i0 < length (tables (cspaces s c))" "\<not> bm_bit (allocated_tables (cspaces s c)) i0" "length (tables (cspaces s c)) \<le> 256"
    "length (tables (cspaces s c)) \<le> 64 * length (allocated_tables (cspaces s c))" "0 < oh_refcount (headers s (cs_partition (cspaces s c)))"
  shows "\<exists>i bm s1. cspace_allocate_cap_table c (Inr p) s = Some (Inr (p, i), s1) \<and> i < length (tables (cspaces s c)) \<and>
    cspaces s1 c = (cspaces s c)\<lparr>allocated_tables := bm\<rparr> \<and> length bm = length (allocated_tables (cspaces s c)) \<and>
    \<not> bm_bit (allocated_tables (cspaces s c)) i \<and> (\<forall>j. bm_bit bm j \<longleftrightarrow> j = i \<or> bm_bit (allocated_tables (cspaces s c)) j) \<and>
    ct_cap_count (cap_tables s1 p) = 0 \<and> (\<forall>q. q \<noteq> p \<longrightarrow> cap_tables s1 q = cap_tables s q) \<and>
    oh_refcount (headers s1 (cs_partition (cspaces s c))) = oh_refcount (headers s (cs_partition (cspaces s c))) + 1"
proof -
  let ?k = "cspaces s c"
  obtain i bm where i: "claim_clear_bit (allocated_tables ?k) (length (tables ?k)) = Some (Some i, bm)" "i < length (tables ?k)"
      "\<not> bm_bit (allocated_tables ?k) i" "length bm = length (allocated_tables ?k)" "\<forall>j. bm_bit bm j \<longleftrightarrow> j = i \<or> bm_bit (allocated_tables ?k) j"
    using claim_some [OF assms(4,1,2,3)] by blast
  show ?thesis using i assms(5)
    by (simp add: cspace_allocate_cap_table_def CSPACE_NUM_CAP_TABLES_def object_get_additional_def refcount_get_additional_def
        set_refcount_def clear_cap_table_def upd_cspace_def upd_table_def Let_def)
      (rule exI [of _ bm], simp)
qed

abbreviation free_indices :: "cspace \<Rightarrow> nat set" where
  "free_indices k \<equiv> {i. i < length (tables k) \<and> \<not> bm_bit (allocated_tables k) i}"

lemma alloc_all:
  assumes "length ps \<le> card (free_indices (cspaces s c))" "length (tables (cspaces s c)) \<le> 256" "distinct ps"
    "length (tables (cspaces s c)) \<le> 64 * length (allocated_tables (cspaces s c))"
    "0 < unat (oh_refcount (headers s (cs_partition (cspaces s c))))" "unat (oh_refcount (headers s (cs_partition (cspaces s c)))) + length ps < 2 ^ 32"
  shows "\<exists>ts s1 bm. alloc_tables c ps s = Some (ts, s1) \<and> cspaces s1 c = (cspaces s c)\<lparr>allocated_tables := bm\<rparr> \<and> map fst ts = ps \<and>
    (\<forall>(t, i) \<in> set ts. i < length (tables (cspaces s c)) \<and> ct_cap_count (cap_tables s1 t) = 0) \<and> (\<forall>q. q \<notin> set ps \<longrightarrow> cap_tables s1 q = cap_tables s q)"
  using assms
proof (induction ps arbitrary: s)
  case Nil
  then show ?case by (auto intro: exI [of _ "allocated_tables (cspaces s c)"])
next
  case (Cons p ps)
  let ?k = "cspaces s c"
  have "0 < card (free_indices ?k)" using Cons.prems(1) by (simp only: length_Cons)
  then have "free_indices ?k \<noteq> {}" by (metis card.empty less_irrefl)
  then obtain i0 where i0: "i0 < length (tables ?k)" "\<not> bm_bit (allocated_tables ?k) i0" by blast
  have r: "0 < oh_refcount (headers s (cs_partition ?k))" using Cons.prems(5) by (simp add: word_less_nat_alt)
  obtain i bm s1 where s1: "cspace_allocate_cap_table c (Inr p) s = Some (Inr (p, i), s1)" "i < length (tables ?k)"
      "cspaces s1 c = ?k\<lparr>allocated_tables := bm\<rparr>" "length bm = length (allocated_tables ?k)" "\<not> bm_bit (allocated_tables ?k) i"
      "\<forall>j. bm_bit bm j \<longleftrightarrow> j = i \<or> bm_bit (allocated_tables ?k) j" "ct_cap_count (cap_tables s1 p) = 0"
      "\<forall>q. q \<noteq> p \<longrightarrow> cap_tables s1 q = cap_tables s q" "oh_refcount (headers s1 (cs_partition ?k)) = oh_refcount (headers s (cs_partition ?k)) + 1"
    using alloc_one [OF i0 Cons.prems(2,4) r, of p] by blast
  have f: "free_indices (cspaces s1 c) = free_indices ?k - {i}" using s1(3,6) by auto
  have c: "length ps \<le> card (free_indices (cspaces s1 c))" unfolding f using Cons.prems(1) s1(2,5) by (simp add: card_Diff_singleton)
  have u: "unat (oh_refcount (headers s1 (cs_partition ?k))) = unat (oh_refcount (headers s (cs_partition ?k))) + 1"
    unfolding s1(9) using Cons.prems(6) by (intro unat_add_no_overflow [THEN trans]) simp_all
  obtain ts s2 bm' where s2: "alloc_tables c ps s1 = Some (ts, s2)" "cspaces s2 c = (cspaces s1 c)\<lparr>allocated_tables := bm'\<rparr>" "map fst ts = ps"
      "\<forall>(t, i) \<in> set ts. i < length (tables (cspaces s1 c)) \<and> ct_cap_count (cap_tables s2 t) = 0" "\<forall>q. q \<notin> set ps \<longrightarrow> cap_tables s2 q = cap_tables s1 q"
    using Cons.IH [OF c] Cons.prems(2-6) s1(3,4) u by auto
  show ?case using s1 s2 Cons.prems(3) by (intro exI [of _ "(p, i) # ts"] exI [of _ s2] exI [of _ bm']) auto
qed

lemma attach_one:
  assumes "i < 64 * length (available_tables (cspaces s c))" "ct_cap_count (cap_tables s t) = 0"
  shows "\<exists>av s2. Option.bind (cspace_attach_cap_table c t i s) (cspace_count_cap c t i) = Some s2 \<and>
    cspaces s2 c = (cspaces s c)\<lparr>tables := (tables (cspaces s c))[i := t], available_tables := av, cs_cap_count := cs_cap_count (cspaces s c) + 1\<rparr> \<and>
    length av = length (available_tables (cspaces s c)) \<and> (\<forall>j. bm_bit av j \<longleftrightarrow> j = i \<or> bm_bit (available_tables (cspaces s c)) j) \<and>
    (\<forall>q. q \<noteq> t \<longrightarrow> cap_tables s2 q = cap_tables s q)"
proof -
  obtain av where av: "bitmap_set (available_tables (cspaces s c)) i = Some av" "length av = length (available_tables (cspaces s c))"
      "\<forall>j. bm_bit av j \<longleftrightarrow> j = i \<or> bm_bit (available_tables (cspaces s c)) j"
    using bitmap_set_bit [OF assms(1)] by blast
  then show ?thesis using assms(2) by (simp add: cspace_attach_cap_table_def cspace_count_cap_def upd_cspace_def upd_table_def SLOTS_eq Let_def)
      (rule exI [of _ av], simp)
qed

lemma attach_all:
  assumes "\<forall>(t, i) \<in> set ts. i < N \<and> ct_cap_count (cap_tables s t) = 0" "distinct (map fst ts)"
    "length (tables (cspaces s c)) = N" "N \<le> 64 * length (available_tables (cspaces s c))"
  shows "\<exists>s2. attach_tables c ts s = Some s2 \<and> cs_cap_count (cspaces s2 c) = cs_cap_count (cspaces s c) + of_nat (length ts) \<and>
    cs_max_caps (cspaces s2 c) = cs_max_caps (cspaces s c) \<and> length (tables (cspaces s2 c)) = N \<and> N \<le> 64 * length (available_tables (cspaces s2 c)) \<and>
    (\<forall>j. bm_bit (available_tables (cspaces s2 c)) j \<longleftrightarrow> j \<in> snd ` set ts \<or> bm_bit (available_tables (cspaces s c)) j)"
  using assms
proof (induction ts arbitrary: s)
  case (Cons ti ts)
  obtain t i where ti: "ti = (t, i)" by (cases ti)
  have i: "i < 64 * length (available_tables (cspaces s c))" "ct_cap_count (cap_tables s t) = 0" using Cons.prems ti by auto
  obtain av s1 where s1: "Option.bind (cspace_attach_cap_table c t i s) (cspace_count_cap c t i) = Some s1"
      "cspaces s1 c = (cspaces s c)\<lparr>tables := (tables (cspaces s c))[i := t], available_tables := av, cs_cap_count := cs_cap_count (cspaces s c) + 1\<rparr>"
      "length av = length (available_tables (cspaces s c))" "\<forall>j. bm_bit av j \<longleftrightarrow> j = i \<or> bm_bit (available_tables (cspaces s c)) j"
      "\<forall>q. q \<noteq> t \<longrightarrow> cap_tables s1 q = cap_tables s q"
    using attach_one [OF i] by blast
  have rest: "\<forall>(u, j) \<in> set ts. j < N \<and> ct_cap_count (cap_tables s1 u) = 0"
  proof (clarify)
    fix u j assume m: "(u, j) \<in> set ts"
    then have "u \<noteq> t" using Cons.prems(2) ti by (auto simp: image_iff)
    then show "j < N \<and> ct_cap_count (cap_tables s1 u) = 0" using Cons.prems(1) s1(5) m by auto
  qed
  obtain s2 where s2: "attach_tables c ts s1 = Some s2" "cs_cap_count (cspaces s2 c) = cs_cap_count (cspaces s1 c) + of_nat (length ts)"
      "cs_max_caps (cspaces s2 c) = cs_max_caps (cspaces s1 c)" "length (tables (cspaces s2 c)) = N" "N \<le> 64 * length (available_tables (cspaces s2 c))"
      "\<forall>j. bm_bit (available_tables (cspaces s2 c)) j \<longleftrightarrow> j \<in> snd ` set ts \<or> bm_bit (available_tables (cspaces s1 c)) j"
    using Cons.IH [OF rest] Cons.prems(2-4) s1(2,3) ti by auto
  have "attach_tables c (ti # ts) s = Some s2" using s1(1) s2(1) ti by (auto simp: bind_eq_Some_conv)
  then show ?case using s1(2,4) s2(2-6) ti by auto
qed simp

text \<open>
  C13. The limit on the number of capabilities is checked before the lock is dropped to allocate a table, and
  not again when the table is attached. In any state of a cspace that is one capability below its
  limit and has no table with a free slot, any number of CPUs pass the check, as far as there are
  indices without a table; each one then allocates and attaches its table. With at least two of them the
  count exceeds the limit, and since the check is for equality, it does not refuse the following
  allocations either.
\<close>

theorem cspace_limit_race:
  assumes inv: "cs_inv Cs Os L s" "c \<in> Cs" and limit: "cs_cap_count (cspaces s c) + 1 = cs_max_caps (cspaces s c)"
    and full: "\<forall>i < length (tables (cspaces s c)). \<not> bm_bit (available_tables (cspaces s c)) i"
    and ps: "distinct ps" "2 \<le> length ps" "length ps \<le> card (free_indices (cspaces s c))"
    and ref: "0 < unat (oh_refcount (headers s (cs_partition (cspaces s c))))" "unat (oh_refcount (headers s (cs_partition (cspaces s c)))) + length ps < 2 ^ 32"
  shows "cspace_allocate_cap_slot_begin c s = Some (Inr None) \<and>
    (\<exists>ts s1 s2 i. alloc_tables c ps s = Some (ts, s1) \<and> attach_tables c ts s1 = Some s2 \<and>
      cs_cap_count (cspaces s2 c) = cs_max_caps (cspaces s2 c) + of_nat (length ps - 1) \<and> cs_max_caps (cspaces s2 c) = cs_max_caps (cspaces s c) \<and>
      cs_cap_count (cspaces s2 c) \<noteq> cs_max_caps (cspaces s2 c) \<and> cspace_allocate_cap_slot_begin c s2 = Some (Inr (Some i)))"
proof -
  let ?k = "cspaces s c" and ?N = "length (tables (cspaces s c))"
  have "cspace_ok {} {} s c" using inv by (simp add: cs_inv_def slots_ok_def)
  then have N: "0 < ?N" "?N \<le> 256" "?N \<le> 64 * length (allocated_tables ?k)" "?N \<le> 64 * length (available_tables ?k)"
    by (simp_all add: cspace_ok_def Let_def del: length_greater_0_conv)
  have N': "?N \<le> 2 ^ 32 - 64" using N(2) by simp
  have "find (bm_bit (available_tables ?k)) [0..<?N] = None" using full by (simp add: find_None_iff)
  moreover have "cs_cap_count ?k \<noteq> cs_max_caps ?k" unfolding limit [symmetric] by simp
  ultimately have begin0: "cspace_allocate_cap_slot_begin c s = Some (Inr None)"
    by (simp only: cspace_allocate_cap_slot_begin_def bitmap_ffs_find [OF N(1) N' N(4)] CSPACE_NUM_CAP_TABLES_def Let_def if_False bind.simps)
  obtain ts s1 bm where s1: "alloc_tables c ps s = Some (ts, s1)" "cspaces s1 c = ?k\<lparr>allocated_tables := bm\<rparr>" "map fst ts = ps"
      "\<forall>(t, i) \<in> set ts. i < ?N \<and> ct_cap_count (cap_tables s1 t) = 0"
    using alloc_all [OF ps(3) N(2) ps(1) N(3) ref] by blast
  obtain s2 where s2: "attach_tables c ts s1 = Some s2" "cs_cap_count (cspaces s2 c) = cs_cap_count ?k + of_nat (length ts)"
      "cs_max_caps (cspaces s2 c) = cs_max_caps ?k" "length (tables (cspaces s2 c)) = ?N" "?N \<le> 64 * length (available_tables (cspaces s2 c))"
      "\<forall>j. bm_bit (available_tables (cspaces s2 c)) j \<longleftrightarrow> j \<in> snd ` set ts \<or> bm_bit (available_tables ?k) j"
    using attach_all [OF s1(4), of c] ps(1) s1(2,3) N(4) by auto
  have len: "length ts = length ps" using s1(3) by (metis length_map)
  have n: "length ps \<le> 256" using ps(3) card_mono [of "{..<?N}" "free_indices ?k"] N(2) by (simp add: subset_eq)
  have count: "cs_cap_count (cspaces s2 c) = cs_max_caps ?k + of_nat (length ps - 1)"
    using s2(2) limit [symmetric] ps(2) by (simp add: len of_nat_diff)
  have "unat (of_nat (length ps - 1) :: u32) = length ps - 1" using n by (simp add: unat_of_nat take_bit_nat_eq_self)
  then have nz: "(of_nat (length ps - 1) :: u32) \<noteq> 0" using ps(2) by (metis diff_is_0_eq not_less_eq_eq numeral_2_eq_2 unat_0 One_nat_def)
  obtain t i where ti: "(t, i) \<in> set ts" using ps(2) len by (cases ts) auto
  then have "i < ?N" "bm_bit (available_tables (cspaces s2 c)) i" using s1(4) s2(6) by force+
  then have "find (bm_bit (available_tables (cspaces s2 c))) [0..<?N] \<noteq> None" by (auto simp: find_None_iff)
  then obtain i' where f: "find (bm_bit (available_tables (cspaces s2 c))) [0..<?N] = Some i'" by blast
  have "cspace_allocate_cap_slot_begin c s2 = Some (Inr (Some i'))"
    using count nz f bitmap_ffs_find [OF N(1) N' s2(5)] s2(3,4) by (simp add: cspace_allocate_cap_slot_begin_def CSPACE_NUM_CAP_TABLES_def Let_def)
  moreover have "cs_cap_count (cspaces s2 c) = cs_max_caps (cspaces s2 c) + of_nat (length ps - 1)" "cs_cap_count (cspaces s2 c) \<noteq> cs_max_caps (cspaces s2 c)"
    using count nz s2(3) by simp_all
  ultimately show ?thesis using begin0 s1(1) s2(1,3) by blast
qed

theorem cspace_limit_race_witness:
  "\<exists>ts s1 s2. alloc_tables 0x3000 [0x8000, 0x8800] (ex_cs 1) = Some (ts, s1) \<and> attach_tables 0x3000 ts s1 = Some s2 \<and>
    cs_cap_count (cspaces s2 0x3000) = 2 \<and> cs_max_caps (cspaces s2 0x3000) = 1"
proof -
  have f: "free_indices (cspaces (ex_cs 1) 0x3000) = {0, 1}" by (auto simp: ex_cs_def bm_bit_def less_Suc_eq numeral_2_eq_2)
  have k: "cs_cap_count (cspaces (ex_cs 1) 0x3000) = 0" "cs_max_caps (cspaces (ex_cs 1) 0x3000) = 1" "cs_partition (cspaces (ex_cs 1) 0x3000) = 0x5000"
    "unat (oh_refcount (headers (ex_cs 1) 0x5000)) = 1" "\<forall>i < length (tables (cspaces (ex_cs 1) 0x3000)). \<not> bm_bit (available_tables (cspaces (ex_cs 1) 0x3000)) i"
    by (simp_all add: ex_cs_def bm_bit_def less_Suc_eq numeral_2_eq_2)
  have inv: "cs_inv {0x3000} {0x1000} (\<lambda>_. []) (ex_cs 1)" by (rule ex_cs_inv) simp
  have "\<exists>ts s1 s2 i. alloc_tables 0x3000 [0x8000, 0x8800] (ex_cs 1) = Some (ts, s1) \<and> attach_tables 0x3000 ts s1 = Some s2 \<and>
      cs_cap_count (cspaces s2 0x3000) = cs_max_caps (cspaces s2 0x3000) + of_nat (length [0x8000 :: ptr, 0x8800] - 1) \<and>
      cs_max_caps (cspaces s2 0x3000) = cs_max_caps (cspaces (ex_cs 1) 0x3000) \<and> cs_cap_count (cspaces s2 0x3000) \<noteq> cs_max_caps (cspaces s2 0x3000) \<and>
      cspace_allocate_cap_slot_begin 0x3000 s2 = Some (Inr (Some i))"
    by (rule cspace_limit_race [OF inv, THEN conjunct2]) (simp_all add: k f)
  then show ?thesis using k(2) by auto
qed

end
