(* ===== verification/Ipi.thy ===== *)
theory Ipi
  imports Bitmap
begin

text \<open>
  Inter-processor interrupts, \<^verbatim>\<open>hyp/core/ipi/src/ipi.c\<close>: one word of pending reasons per CPU, whose top
  bit says that the CPU sleeps in the idle loop and polls the word. Modelled is the configuration of
  the supported platforms: fewer interrupt lines than reasons, and fast wakeup from idle. The state is
  a record that the modules which send interrupts extend. The handlers of the reasons are an argument,
  a function on the state that tells whether a reschedule is needed.
\<close>

section \<open>Model\<close>

datatype ipi_reason =
    IPI_REASON_ABORT_STOP | IPI_REASON_IDLE | IPI_REASON_RAS_HLOS_ACCESS_DISABLE | IPI_REASON_RCU_NOTIFY
  | IPI_REASON_RCU_QUIESCE | IPI_REASON_RCU_UPDATE | IPI_REASON_RESCHEDULE | IPI_REASON_SDEI
  | IPI_REASON_SECONDARY_CPU_OFF | IPI_REASON_TASK_QUEUE | IPI_REASON_TIMER_QUEUE_SYNC | IPI_REASON_VFP_SAVE
  | IPI_REASON_VGIC_DELIVER | IPI_REASON_VGIC_ENABLE | IPI_REASON_VGIC_SGI | IPI_REASON_VGIC_SYNC
  | IPI_REASON_WATCHDOG_SYNC

text \<open>The build numbers the reasons; all that matters is that the numbers are different and small.\<close>

definition ipi_reasons :: "ipi_reason list" where
  "ipi_reasons =
    [IPI_REASON_ABORT_STOP, IPI_REASON_IDLE, IPI_REASON_RAS_HLOS_ACCESS_DISABLE, IPI_REASON_RCU_NOTIFY,
     IPI_REASON_RCU_QUIESCE, IPI_REASON_RCU_UPDATE, IPI_REASON_RESCHEDULE, IPI_REASON_SDEI,
     IPI_REASON_SECONDARY_CPU_OFF, IPI_REASON_TASK_QUEUE, IPI_REASON_TIMER_QUEUE_SYNC, IPI_REASON_VFP_SAVE,
     IPI_REASON_VGIC_DELIVER, IPI_REASON_VGIC_ENABLE, IPI_REASON_VGIC_SGI, IPI_REASON_VGIC_SYNC,
     IPI_REASON_WATCHDOG_SYNC]"

fun index_of :: "'a \<Rightarrow> 'a list \<Rightarrow> nat" where
  "index_of x [] = 0"
| "index_of x (y # ys) = (if x = y then 0 else Suc (index_of x ys))"

definition reason_number :: "ipi_reason \<Rightarrow> nat" where
  "reason_number ipi = index_of ipi ipi_reasons"

definition reason_bit :: "ipi_reason \<Rightarrow> u64" where
  "reason_bit ipi = util_bit (reason_number ipi)"

definition IPI_WAITING_IN_IDLE :: u64 where
  "IPI_WAITING_IN_IDLE = util_bit 63"

definition compiler_clz :: "u64 \<Rightarrow> nat" where
  "compiler_clz r = (case find (\<lambda>i. bit r (63 - i)) [0..<64] of Some i \<Rightarrow> i | None \<Rightarrow> 64)"

text \<open>
  The words of pending reasons, the interrupt lines that are raised, and the CPUs on which a run of the
  scheduler has been triggered. The number of CPUs is a constant of the platform.
\<close>

record ipi_mem =
  ipi_pending :: "nat \<Rightarrow> u64"
  ipi_line :: "nat \<Rightarrow> bool"
  sched_triggered :: "nat \<Rightarrow> bool"
  num_cpus :: nat

definition set_pending :: "nat \<Rightarrow> u64 \<Rightarrow> 'a ipi_mem_scheme \<Rightarrow> 'a ipi_mem_scheme" where
  "set_pending cpu w s = s\<lparr>ipi_pending := (ipi_pending s)(cpu := w)\<rparr>"

definition platform_ipi_one :: "nat \<Rightarrow> 'a ipi_mem_scheme \<Rightarrow> 'a ipi_mem_scheme" where
  "platform_ipi_one cpu s = s\<lparr>ipi_line := (ipi_line s)(cpu := True)\<rparr>"

definition platform_ipi_others :: "nat \<Rightarrow> 'a ipi_mem_scheme \<Rightarrow> 'a ipi_mem_scheme" where
  "platform_ipi_others this_cpu s = s\<lparr>ipi_line := (\<lambda>i. ipi_line s i \<or> i \<noteq> this_cpu \<and> i < num_cpus s)\<rparr>"

definition scheduler_trigger :: "nat \<Rightarrow> 'a ipi_mem_scheme \<Rightarrow> 'a ipi_mem_scheme" where
  "scheduler_trigger cpu s = s\<lparr>sched_triggered := (sched_triggered s)(cpu := True)\<rparr>"

subsection \<open>Sending\<close>

fun ipi_others_loop :: "u64 \<Rightarrow> nat \<Rightarrow> nat list \<Rightarrow> 'a ipi_mem_scheme \<Rightarrow> 'a ipi_mem_scheme" where
  "ipi_others_loop b this_cpu [] s = s"
| "ipi_others_loop b this_cpu (i # is) s =
    ipi_others_loop b this_cpu is (if i = this_cpu then s else set_pending i (ipi_pending s i OR b) s)"

definition ipi_others_relaxed :: "ipi_reason \<Rightarrow> nat \<Rightarrow> 'a ipi_mem_scheme \<Rightarrow> 'a ipi_mem_scheme" where
  "ipi_others_relaxed ipi this_cpu s = ipi_others_loop (reason_bit ipi) this_cpu [0..<num_cpus s] s"

definition ipi_others :: "ipi_reason \<Rightarrow> nat \<Rightarrow> 'a ipi_mem_scheme \<Rightarrow> 'a ipi_mem_scheme" where
  "ipi_others ipi this_cpu s = platform_ipi_others this_cpu (ipi_others_relaxed ipi this_cpu s)"

definition ipi_others_idle :: "ipi_reason \<Rightarrow> nat \<Rightarrow> 'a ipi_mem_scheme \<Rightarrow> 'a ipi_mem_scheme" where
  "ipi_others_idle ipi this_cpu s = ipi_others_relaxed ipi this_cpu s"

definition ipi_one_and_check_wakeup_needed ::
    "ipi_reason \<Rightarrow> nat \<Rightarrow> 'a ipi_mem_scheme \<Rightarrow> (bool \<times> 'a ipi_mem_scheme) option" where
  "ipi_one_and_check_wakeup_needed ipi cpu s = do {
     c_assert (cpu < num_cpus s);
     let old_val = ipi_pending s cpu;
     let s = set_pending cpu (old_val OR reason_bit ipi) s;
     Some (old_val AND IPI_WAITING_IN_IDLE = 0, s)
   }"

definition ipi_one :: "ipi_reason \<Rightarrow> nat \<Rightarrow> 'a ipi_mem_scheme \<Rightarrow> 'a ipi_mem_scheme option" where
  "ipi_one ipi cpu s = do {
     (needed, s) \<leftarrow> ipi_one_and_check_wakeup_needed ipi cpu s;
     Some (if needed then platform_ipi_one cpu s else s)
   }"

definition ipi_one_relaxed :: "ipi_reason \<Rightarrow> nat \<Rightarrow> 'a ipi_mem_scheme \<Rightarrow> 'a ipi_mem_scheme option" where
  "ipi_one_relaxed ipi cpu s = do {
     (_, s) \<leftarrow> ipi_one_and_check_wakeup_needed ipi cpu s;
     Some s
   }"

definition ipi_one_idle :: "ipi_reason \<Rightarrow> nat \<Rightarrow> 'a ipi_mem_scheme \<Rightarrow> 'a ipi_mem_scheme option" where
  "ipi_one_idle ipi cpu s = ipi_one_relaxed ipi cpu s"

subsection \<open>Receiving\<close>

definition ipi_clear_relaxed :: "ipi_reason \<Rightarrow> nat \<Rightarrow> 'a ipi_mem_scheme \<Rightarrow> bool \<times> 'a ipi_mem_scheme" where
  "ipi_clear_relaxed ipi cpu s =
    (let old_val = ipi_pending s cpu
     in (old_val AND reason_bit ipi \<noteq> 0, set_pending cpu (old_val AND NOT (reason_bit ipi)) s))"

definition ipi_clear :: "ipi_reason \<Rightarrow> nat \<Rightarrow> 'a ipi_mem_scheme \<Rightarrow> bool \<times> 'a ipi_mem_scheme" where
  "ipi_clear ipi cpu s = ipi_clear_relaxed ipi cpu s"

definition ipi_check_relaxed :: "nat \<Rightarrow> 'a ipi_mem_scheme \<Rightarrow> bool" where
  "ipi_check_relaxed cpu s \<longleftrightarrow> ipi_pending s cpu \<noteq> 0"

definition ipi_check_suspended_cpus :: "bitmap \<Rightarrow> 'a ipi_mem_scheme \<Rightarrow> bool option" where
  "ipi_check_suspended_cpus cpus s =
    bitmap_foreach (\<lambda>w. cpus ! w) (\<lambda>cpu pending. if ipi_pending s cpu \<noteq> 0 then (True, True) else (pending, False)) (num_cpus s) 0 0 False"

text \<open>The highest pending bit.\<close>

definition top_bit :: "u64 \<Rightarrow> nat" where
  "top_bit pending = 63 - compiler_clz pending"

lemma clz_bit:
  assumes "r \<noteq> 0"
  shows "compiler_clz r < 64" "bit r (top_bit r)" "bit r j \<Longrightarrow> j \<le> top_bit r"
proof -
  obtain k where k: "bit r k" using assms by (metis bit_eqI bit_0_eq bot_apply bot_bool_def)
  then have k64: "k < 64" using bit_imp_le_length [of r k] by simp
  have "find (\<lambda>i. bit r (63 - i)) [0..<64] \<noteq> None"
    unfolding find_None_iff using k k64 by (auto intro!: exI [of _ "63 - k"])
  then obtain i where i: "find (\<lambda>i. bit r (63 - i)) [0..<64] = Some i" by blast
  then have "i < 64 \<and> bit r (63 - i) \<and> (\<forall>j < i. \<not> bit r (63 - j))"
    using find_Some_iff [of "\<lambda>i. bit r (63 - i)" "[0..<64]" i] by (auto simp del: upt_Suc)
  then have *: "i < 64" "bit r (63 - i)" "\<And>j. j < i \<Longrightarrow> \<not> bit r (63 - j)" by blast+
  have c: "compiler_clz r = i" by (simp add: compiler_clz_def i)
  show "compiler_clz r < 64" "bit r (top_bit r)" using * c by (simp_all add: top_bit_def)
  show "j \<le> top_bit r" if "bit r j"
  proof (rule ccontr)
    assume "\<not> j \<le> top_bit r"
    moreover have "j < 64" using bit_imp_le_length [OF that] by simp
    ultimately have "63 - j < i" "63 - (63 - j) = j" using *(1) c by (simp_all add: top_bit_def)
    then show False using *(3) [of "63 - j"] that by simp
  qed
qed

lemma clear_top_less: "r \<noteq> 0 \<Longrightarrow> unat (r AND NOT (util_bit (top_bit r))) < unat r"
proof -
  assume r: "r \<noteq> 0"
  let ?b = "util_bit (top_bit r)"
  have "r AND NOT ?b \<noteq> r"
    using clz_bit(2) [OF r] by (metis bit_and_iff bit_not_iff util_bit_def bit_push_bit_iff bit_1_iff diff_self_eq_0 le_refl bit_imp_le_length not_less possible_bit_def)
  moreover have "r AND NOT ?b \<le> r" by (rule word_and_le2)
  ultimately show ?thesis by (simp add: word_less_nat_alt [symmetric])
qed

function ipi_handle_pending ::
    "(ipi_reason \<Rightarrow> 'a ipi_mem_scheme \<Rightarrow> bool \<times> 'a ipi_mem_scheme) \<Rightarrow> u64 \<Rightarrow> bool \<Rightarrow> 'a ipi_mem_scheme \<Rightarrow> bool \<times> 'a ipi_mem_scheme" where
  "ipi_handle_pending received pending reschedule s =
    (if pending \<noteq> 0 then
       let b = top_bit pending;
           pending = pending AND NOT (util_bit b)
       in if b < length ipi_reasons then
            let (r, s) = received (ipi_reasons ! b) s
            in ipi_handle_pending received pending (reschedule \<or> r) s
          else ipi_handle_pending received pending reschedule s
     else (reschedule, s))"
  by pat_completeness auto
termination
  by (relation "measure (\<lambda>(_, pending, _, _). unat pending)") (use clear_top_less in auto)

declare ipi_handle_pending.simps [simp del]

definition ipi_handle_platform_ipi ::
    "(ipi_reason \<Rightarrow> 'a ipi_mem_scheme \<Rightarrow> bool \<times> 'a ipi_mem_scheme) \<Rightarrow> nat \<Rightarrow> 'a ipi_mem_scheme \<Rightarrow> 'a ipi_mem_scheme" where
  "ipi_handle_platform_ipi received cpu s =
    (let pending = ipi_pending s cpu;
         s = set_pending cpu 0 s;
         (reschedule, s) = ipi_handle_pending received pending False s
     in if reschedule then scheduler_trigger cpu s else s)"

text \<open>
  The loop runs until nothing is pending; it does not end if the handlers keep sending interrupts to
  their own CPU.
\<close>

partial_function (option) ipi_handle_relaxed_loop ::
    "(ipi_reason \<Rightarrow> 'a ipi_mem_scheme \<Rightarrow> bool \<times> 'a ipi_mem_scheme) \<Rightarrow> nat \<Rightarrow> bool \<Rightarrow> 'a ipi_mem_scheme \<Rightarrow>
      (bool \<times> 'a ipi_mem_scheme) option" where
  [code]: "ipi_handle_relaxed_loop received cpu reschedule s =
    (if ipi_pending s cpu \<noteq> 0 then
       if top_bit (ipi_pending s cpu) < length ipi_reasons then
         let ipi = ipi_reasons ! top_bit (ipi_pending s cpu);
             (cleared, s) = ipi_clear_relaxed ipi cpu s
         in if cleared then let (r, s) = received ipi s in ipi_handle_relaxed_loop received cpu (reschedule \<or> r) s
            else ipi_handle_relaxed_loop received cpu reschedule s
       else None
     else Some (reschedule, s))"

definition ipi_handle_relaxed ::
    "(ipi_reason \<Rightarrow> 'a ipi_mem_scheme \<Rightarrow> bool \<times> 'a ipi_mem_scheme) \<Rightarrow> nat \<Rightarrow> 'a ipi_mem_scheme \<Rightarrow>
      (bool \<times> 'a ipi_mem_scheme) option" where
  "ipi_handle_relaxed received cpu s = ipi_handle_relaxed_loop received cpu False s"

definition ipi_handle_power_cpu_suspend ::
    "(ipi_reason \<Rightarrow> 'a ipi_mem_scheme \<Rightarrow> bool \<times> 'a ipi_mem_scheme) \<Rightarrow> nat \<Rightarrow> 'a ipi_mem_scheme \<Rightarrow>
      (error_t \<times> 'a ipi_mem_scheme) option" where
  "ipi_handle_power_cpu_suspend received cpu s = do {
     (reschedule, s) \<leftarrow> ipi_handle_relaxed received cpu s;
     Some (if reschedule then (ERROR_BUSY, scheduler_trigger cpu s) else (OK, s))
   }"

definition ipi_handle_scheduler_quiescent ::
    "(ipi_reason \<Rightarrow> 'a ipi_mem_scheme \<Rightarrow> bool \<times> 'a ipi_mem_scheme) \<Rightarrow> nat \<Rightarrow> 'a ipi_mem_scheme \<Rightarrow>
      'a ipi_mem_scheme option" where
  "ipi_handle_scheduler_quiescent received cpu s = do {
     (reschedule, s) \<leftarrow> ipi_handle_relaxed received cpu s;
     Some (if reschedule then scheduler_trigger cpu s else s)
   }"

definition ipi_handle_preempt_interrupt :: "nat \<Rightarrow> 'a ipi_mem_scheme \<Rightarrow> bool \<times> 'a ipi_mem_scheme" where
  "ipi_handle_preempt_interrupt cpu s =
    (False, set_pending cpu (ipi_pending s cpu AND NOT IPI_WAITING_IN_IDLE) s)"

definition ipi_handle_preempt_check :: "nat \<Rightarrow> 'a ipi_mem_scheme \<Rightarrow> bool" where
  "ipi_handle_preempt_check cpu s \<longleftrightarrow> ipi_pending s cpu \<noteq> 0"

definition ipi_handle_ipi_received_trace ::
    "(ipi_reason \<Rightarrow> 'a ipi_mem_scheme \<Rightarrow> bool \<times> 'a ipi_mem_scheme) \<Rightarrow> ipi_reason \<Rightarrow> 'a ipi_mem_scheme \<Rightarrow> bool \<times> 'a ipi_mem_scheme" where
  "ipi_handle_ipi_received_trace received reason s = received reason s"

text \<open>
  Stopping all CPUs. The successive readings of the timer are an argument; the second result is the number of
  the reading at which the delay ended.
\<close>

partial_function (option) ipi_stop_delay :: "(nat \<Rightarrow> u64) \<Rightarrow> u64 \<Rightarrow> nat \<Rightarrow> nat option" where
  [code]: "ipi_stop_delay ticks end_ticks i =
    (if ticks i < end_ticks then ipi_stop_delay ticks end_ticks (i + 1) else Some i)"

definition ipi_handle_scheduler_stop ::
    "u32 \<Rightarrow> (nat \<Rightarrow> u64) \<Rightarrow> nat \<Rightarrow> 'a ipi_mem_scheme \<Rightarrow> ('a ipi_mem_scheme \<times> nat) option" where
  "ipi_handle_scheduler_stop freq ticks this_cpu s = do {
     let s = ipi_others IPI_REASON_ABORT_STOP this_cpu s;
     i \<leftarrow> ipi_stop_delay ticks (ticks 0 + ucast freq div 1024) 0;
     Some (s, i)
   }"

lemma stop_delay:
  assumes "i \<le> n" "end_ticks \<le> ticks n"
  shows "\<exists>j \<ge> i. ipi_stop_delay ticks end_ticks i = Some j \<and> end_ticks \<le> ticks j"
  using assms
proof (induction "n - i" arbitrary: i)
  case 0
  then show ?case by (intro exI [of _ n]) (subst ipi_stop_delay.simps, auto)
next
  case (Suc d)
  show ?case
  proof (cases "ticks i < end_ticks")
    case True
    then obtain j where "j \<ge> i + 1" "ipi_stop_delay ticks end_ticks (i + 1) = Some j" "end_ticks \<le> ticks j"
      using Suc.hyps(1) [of "i + 1"] Suc.hyps(2) Suc.prems by fastforce
    then show ?thesis using True by (intro exI [of _ j]) (subst ipi_stop_delay.simps, simp)
  next
    case False
    then show ?thesis by (intro exI [of _ i]) (subst ipi_stop_delay.simps, auto)
  qed
qed

text \<open>Once the timer reaches the deadline, the handler returns, and all other CPUs have been interrupted.\<close>

lemma scheduler_stop_returns:
  assumes "ticks 0 + ucast freq div 1024 \<le> ticks n"
  shows "\<exists>i. ipi_handle_scheduler_stop freq ticks this_cpu s = Some (ipi_others IPI_REASON_ABORT_STOP this_cpu s, i) \<and>
    ticks 0 + ucast freq div 1024 \<le> ticks i"
  using stop_delay [of 0 n _ ticks, OF le0 assms] by (auto simp: ipi_handle_scheduler_stop_def)

subsection \<open>The idle loop\<close>

text \<open>
  The CPU marks itself as waiting, polls the word, and takes what is pending when it has changed. The
  three steps are separate, since other CPUs send interrupts in between.
\<close>

datatype idle_state = IDLE_STATE_IDLE | IDLE_STATE_WAKEUP | IDLE_STATE_RESCHEDULE

definition ipi_idle_mark :: "nat \<Rightarrow> 'a ipi_mem_scheme \<Rightarrow> 'a ipi_mem_scheme" where
  "ipi_idle_mark cpu s = set_pending cpu (ipi_pending s cpu OR IPI_WAITING_IN_IDLE) s"

definition ipi_idle_asleep :: "nat \<Rightarrow> 'a ipi_mem_scheme \<Rightarrow> bool" where
  "ipi_idle_asleep cpu s \<longleftrightarrow> ipi_pending s cpu = IPI_WAITING_IN_IDLE"

definition ipi_idle_take ::
    "(ipi_reason \<Rightarrow> 'a ipi_mem_scheme \<Rightarrow> bool \<times> 'a ipi_mem_scheme) \<Rightarrow> bool \<Rightarrow> nat \<Rightarrow> 'a ipi_mem_scheme \<Rightarrow>
      idle_state option \<times> 'a ipi_mem_scheme" where
  "ipi_idle_take received in_idle_thread cpu s =
    (let pending = ipi_pending s cpu;
         s = set_pending cpu 0 s;
         (must_schedule, s) = ipi_handle_pending received (pending AND NOT IPI_WAITING_IN_IDLE) False s
     in (if in_idle_thread \<and> \<not> must_schedule \<and> pending AND IPI_WAITING_IN_IDLE \<noteq> 0 then None
         else Some (if must_schedule then IDLE_STATE_RESCHEDULE else IDLE_STATE_WAKEUP), s))"

text \<open>The loop with what happens while the CPU sleeps as a sequence of changes of the state.\<close>

partial_function (option) ipi_handle_idle_yield ::
    "(ipi_reason \<Rightarrow> 'a ipi_mem_scheme \<Rightarrow> bool \<times> 'a ipi_mem_scheme) \<Rightarrow> bool \<Rightarrow> nat \<Rightarrow>
      ('a ipi_mem_scheme \<Rightarrow> 'a ipi_mem_scheme) list list \<Rightarrow> 'a ipi_mem_scheme \<Rightarrow> (idle_state \<times> 'a ipi_mem_scheme) option" where
  [code]: "ipi_handle_idle_yield received in_idle_thread cpu env s =
    (let s = fold id (concat (take 1 env)) (ipi_idle_mark cpu s)
     in if ipi_idle_asleep cpu s then None
        else (case ipi_idle_take received in_idle_thread cpu s of
            (None, s) \<Rightarrow> ipi_handle_idle_yield received in_idle_thread cpu (drop 1 env) s
          | (Some r, s) \<Rightarrow> Some (r, s)))"

section \<open>Handling what is pending\<close>

lemma reasons_small: "length ipi_reasons = 17" "distinct ipi_reasons" "set ipi_reasons = UNIV"
proof -
  show "length ipi_reasons = 17" "distinct ipi_reasons" by (simp_all add: ipi_reasons_def)
  show "set ipi_reasons = UNIV" by (rule UNIV_eq_I [symmetric], rename_tac r, case_tac r) (simp_all add: ipi_reasons_def)
qed

lemma reason_number_nth: "reason_number ipi < 17" "ipi_reasons ! reason_number ipi = ipi"
  by (cases ipi; simp add: reason_number_def ipi_reasons_def)+

lemma bit_util_bit [simp]: "bit (util_bit b) j \<longleftrightarrow> j = b \<and> b < 64"
  by (auto simp: util_bit_def bit_simps)

lemma bit_reason_bit [simp]: "bit (reason_bit ipi) j \<longleftrightarrow> j = reason_number ipi"
  using reason_number_nth(1) [of ipi] by (auto simp: reason_bit_def)

lemma bit_waiting [simp]: "bit IPI_WAITING_IN_IDLE j \<longleftrightarrow> j = 63"
  by (auto simp: IPI_WAITING_IN_IDLE_def)

text \<open>The reasons that a word holds, in the order in which they are handled.\<close>

definition pending_reasons :: "u64 \<Rightarrow> ipi_reason list" where
  "pending_reasons w = map ((!) ipi_reasons) (filter (bit w) (rev [0..<17]))"

fun handle_all :: "('r \<Rightarrow> 's \<Rightarrow> bool \<times> 's) \<Rightarrow> 'r list \<Rightarrow> bool \<Rightarrow> 's \<Rightarrow> bool \<times> 's" where
  "handle_all received [] reschedule s = (reschedule, s)"
| "handle_all received (ipi # ipis) reschedule s =
    (let (r, s) = received ipi s in handle_all received ipis (reschedule \<or> r) s)"

lemma filter_top:
  assumes "\<And>j. P j \<Longrightarrow> j \<le> b" "P b" "b < n"
  shows "filter P (rev [0..<n]) = b # filter (\<lambda>j. P j \<and> j \<noteq> b) (rev [0..<n])"
  using assms(3)
proof (induction n)
  case (Suc n)
  show ?case
  proof (cases "b = n")
    case True
    have "filter (\<lambda>j. P j \<and> j \<noteq> n) (rev [0..<n]) = filter P (rev [0..<n])" by (intro filter_cong) auto
    then show ?thesis using assms(2) True by simp
  next
    case False
    then have "\<not> P n" using assms(1) [of n] Suc.prems by auto
    then show ?thesis using Suc False by simp
  qed
qed simp

lemma handle_pending_all:
  "ipi_handle_pending received pending reschedule s = handle_all received (pending_reasons pending) reschedule s"
proof (induction received pending reschedule s rule: ipi_handle_pending.induct)
  case (1 received pending reschedule s)
  let ?b = "top_bit pending" and ?p = "pending AND NOT (util_bit (top_bit pending))"
  show ?case
  proof (cases "pending = 0")
    case True
    then show ?thesis by (simp add: ipi_handle_pending.simps pending_reasons_def)
  next
    case False
    have b: "bit ?p j \<longleftrightarrow> bit pending j \<and> j \<noteq> ?b" for j
      using bit_imp_le_length [of pending j] by (auto simp: bit_simps)
    show ?thesis
    proof (cases "?b < 17")
      case True
      have "pending_reasons pending = ipi_reasons ! ?b # pending_reasons ?p"
        using filter_top [of "bit pending" ?b 17] clz_bit(2,3) [OF False] True unfolding pending_reasons_def b by simp
      then show ?thesis using "1.IH"(1) [OF False refl refl] True False
        by (subst ipi_handle_pending.simps) (auto simp: Let_def reasons_small(1) split: prod.split)
    next
      case high: False
      have "pending_reasons ?p = pending_reasons pending"
        unfolding pending_reasons_def b using high by (intro arg_cong [of _ _ "map _"] filter_cong) auto
      then show ?thesis using "1.IH"(2) [OF False refl refl] high False
        by (subst ipi_handle_pending.simps) (simp add: Let_def reasons_small(1))
    qed
  qed
qed

lemma handle_all_log:
  "handle_all (\<lambda>ipi s. (False, f ipi s)) ipis reschedule s = (reschedule, fold f ipis s)"
  by (induction ipis arbitrary: reschedule s) simp_all

lemma set_pending_reasons: "set (pending_reasons w) = {ipi. bit w (reason_number ipi)}"
proof -
  have i: "reason_number (ipi_reasons ! j) = j" if "j < 17" for j
    using nth_eq_iff_index_eq [OF reasons_small(2), of "reason_number (ipi_reasons ! j)" j] reason_number_nth [of "ipi_reasons ! j"]
      that reasons_small(1) by simp
  have "set (pending_reasons w) = (!) ipi_reasons ` {j. j < 17 \<and> bit w j}" unfolding pending_reasons_def by auto
  also have "\<dots> = {ipi. bit w (reason_number ipi)}"
  proof (intro set_eqI iffI)
    fix ipi assume "ipi \<in> {ipi. bit w (reason_number ipi)}"
    then show "ipi \<in> (!) ipi_reasons ` {j. j < 17 \<and> bit w j}"
      using reason_number_nth [of ipi] by (intro image_eqI [of _ _ "reason_number ipi"]) simp_all
  qed (auto simp: i)
  finally show ?thesis .
qed

section \<open>No interrupt is lost\<close>

text \<open>
  A system of CPUs that send interrupts to each other. Recorded are the CPUs that are in the idle loop,
  the reasons that have been sent with \<^verbatim>\<open>ipi_one\<close> and neither handled nor cleared since, and the
  handlers that have run. A handler that sends further interrupts does so in steps of its own.
\<close>

record ipi_sys = ipi_mem +
  in_idle :: "nat \<Rightarrow> bool"
  urgent :: "nat \<Rightarrow> ipi_reason set"
  handled :: "(nat \<times> ipi_reason) list"

datatype ipi_label =
    Send ipi_reason nat | Send_relaxed ipi_reason nat | Clear ipi_reason nat | Sleep nat | Preempt nat | Wake nat | Interrupt nat

definition run_handler :: "nat \<Rightarrow> ipi_reason \<Rightarrow> ipi_sys \<Rightarrow> bool \<times> ipi_sys" where
  "run_handler cpu ipi s = (False, s\<lparr>handled := handled s @ [(cpu, ipi)], urgent := (urgent s)(cpu := urgent s cpu - {ipi})\<rparr>)"

fun ipi_exec :: "ipi_label \<Rightarrow> ipi_sys \<Rightarrow> ipi_sys option" where
  "ipi_exec (Send ipi cpu) s =
    map_option (\<lambda>s. s\<lparr>urgent := (urgent s)(cpu := insert ipi (urgent s cpu))\<rparr>) (ipi_one ipi cpu s)"
| "ipi_exec (Send_relaxed ipi cpu) s = ipi_one_relaxed ipi cpu s"
| "ipi_exec (Clear ipi cpu) s = Some ((snd (ipi_clear ipi cpu s))\<lparr>urgent := (urgent s)(cpu := urgent s cpu - {ipi})\<rparr>)"
| "ipi_exec (Sleep cpu) s = (if in_idle s cpu then None else Some ((ipi_idle_mark cpu s)\<lparr>in_idle := (in_idle s)(cpu := True)\<rparr>))"
| "ipi_exec (Preempt cpu) s = Some (snd (ipi_handle_preempt_interrupt cpu s))"
| "ipi_exec (Wake cpu) s =
    (if in_idle s cpu \<and> \<not> ipi_idle_asleep cpu s
     then Some (snd (ipi_idle_take (run_handler cpu) False cpu (s\<lparr>in_idle := (in_idle s)(cpu := False)\<rparr>))) else None)"
| "ipi_exec (Interrupt cpu) s =
    (if ipi_line s cpu then Some (ipi_handle_platform_ipi (run_handler cpu) cpu (s\<lparr>ipi_line := (ipi_line s)(cpu := False)\<rparr>)) else None)"

fun ipi_run :: "ipi_label list \<Rightarrow> ipi_sys \<Rightarrow> ipi_sys option" where
  "ipi_run [] s = Some s"
| "ipi_run (l # ls) s = Option.bind (ipi_exec l s) (ipi_run ls)"

definition ipi_ok :: "ipi_sys \<Rightarrow> bool" where
  "ipi_ok s \<longleftrightarrow> (\<forall>cpu ipi. ipi \<in> urgent s cpu \<longrightarrow> bit (ipi_pending s cpu) (reason_number ipi) \<and> (ipi_line s cpu \<or> in_idle s cpu)) \<and>
    (\<forall>cpu. bit (ipi_pending s cpu) 63 \<longrightarrow> in_idle s cpu)"

lemma fold_run_handler:
  "fold (\<lambda>ipi s. s\<lparr>handled := handled s @ [(cpu, ipi)], urgent := (urgent s)(cpu := urgent s cpu - {ipi})\<rparr>) ipis s =
    s\<lparr>handled := handled s @ map (Pair cpu) ipis, urgent := (urgent s)(cpu := urgent s cpu - set ipis)\<rparr>"
proof (induction ipis arbitrary: s)
  case (Cons ipi ipis)
  have "urgent s cpu - {ipi} - set ipis = urgent s cpu - insert ipi (set ipis)" by blast
  then show ?case using Cons by (simp cong: if_cong)
qed (cases s, simp)

lemma handle_logged:
  "ipi_handle_pending (run_handler cpu) w r s =
    (r, s\<lparr>handled := handled s @ map (Pair cpu) (pending_reasons w), urgent := (urgent s)(cpu := urgent s cpu - {ipi. bit w (reason_number ipi)})\<rparr>)"
  unfolding handle_pending_all run_handler_def [abs_def] handle_all_log fold_run_handler set_pending_reasons by simp

lemma reason_number_simps [simp]:
  "reason_number ipi \<noteq> 63" "reason_number ipi < 64" "reason_number ipi = reason_number ipi' \<longleftrightarrow> ipi = ipi'"
  using reason_number_nth(1) [of ipi] reason_number_nth(2) by (simp_all, metis)

lemmas ipi_simps = ipi_one_def ipi_one_relaxed_def ipi_one_and_check_wakeup_needed_def platform_ipi_one_def set_pending_def Let_def
  ipi_clear_def ipi_clear_relaxed_def ipi_idle_mark_def ipi_handle_preempt_interrupt_def bit_or_iff bit_and_iff bit_not_iff c_assert_def

lemma waiting_zero: "w AND IPI_WAITING_IN_IDLE = 0 \<longleftrightarrow> \<not> bit w 63"
proof
  assume "\<not> bit w 63"
  then show "w AND IPI_WAITING_IN_IDLE = 0" by (intro bit_eqI) (auto simp: bit_simps)
next
  assume a: "w AND IPI_WAITING_IN_IDLE = 0"
  have "bit (w AND IPI_WAITING_IN_IDLE) 63 \<longleftrightarrow> bit w 63" by (simp add: bit_and_iff)
  then show "\<not> bit w 63" using a by simp
qed

lemma ipi_okD:
  assumes "ipi_ok s"
  shows "ipi \<in> urgent s cpu \<Longrightarrow> bit (ipi_pending s cpu) (reason_number ipi)"
    "ipi \<in> urgent s cpu \<Longrightarrow> \<not> in_idle s cpu \<Longrightarrow> ipi_line s cpu" "bit (ipi_pending s cpu) 63 \<Longrightarrow> in_idle s cpu"
  using assms unfolding ipi_ok_def by blast+

lemma ipi_okI:
  assumes "\<And>cpu ipi. ipi \<in> urgent s cpu \<Longrightarrow> bit (ipi_pending s cpu) (reason_number ipi)"
    "\<And>cpu ipi. ipi \<in> urgent s cpu \<Longrightarrow> \<not> in_idle s cpu \<Longrightarrow> ipi_line s cpu" "\<And>cpu. bit (ipi_pending s cpu) 63 \<Longrightarrow> in_idle s cpu"
  shows "ipi_ok s"
  using assms unfolding ipi_ok_def by blast

lemma ipi_ok_step:
  assumes ok: "ipi_ok s" and l: "ipi_exec l s = Some s'"
  shows "ipi_ok s'"
proof (cases l)
  case (Send ipi cpu)
  then show ?thesis using l ipi_okD [OF ok]
    by (intro ipi_okI) (auto simp: ipi_simps waiting_zero split: if_splits)
next
  case (Send_relaxed ipi cpu)
  then show ?thesis using l ipi_okD [OF ok] by (intro ipi_okI) (auto simp: ipi_simps split: if_splits)
next
  case (Clear ipi cpu)
  then show ?thesis using l ipi_okD [OF ok]
    by (intro ipi_okI) (auto simp: ipi_simps split: if_splits)
next
  case (Sleep cpu)
  then show ?thesis using l ipi_okD [OF ok] by (intro ipi_okI) (auto simp: ipi_simps split: if_splits)
next
  case (Preempt cpu)
  then show ?thesis using l ipi_okD [OF ok] by (intro ipi_okI) (auto simp: ipi_simps split: if_splits)
next
  case (Wake cpu)
  then show ?thesis using l ipi_okD [OF ok]
    by (intro ipi_okI) (auto simp: ipi_idle_take_def handle_logged ipi_simps split: if_splits)
next
  case (Interrupt cpu)
  then show ?thesis using l ipi_okD [OF ok]
    by (intro ipi_okI) (auto simp: ipi_handle_platform_ipi_def handle_logged ipi_simps split: if_splits)
qed

lemma ipi_ok_run: "ipi_run ls s = Some s' \<Longrightarrow> ipi_ok s \<Longrightarrow> ipi_ok s'"
  by (induction ls arbitrary: s) (auto split: Option.bind_splits dest: ipi_ok_step)

text \<open>
  C16. No interrupt is lost. Whatever the order in which CPUs send and clear interrupts, fall asleep in
  the idle loop, are preempted and wake up: a reason that was sent with \<^verbatim>\<open>ipi_one\<close> stays pending until
  it is handled or cleared, and as long as it is, its CPU either has its interrupt line raised or is
  in the idle loop and not asleep. When the CPU then takes the interrupt or leaves the idle loop, the
  handlers of all these reasons run.
\<close>

theorem ipi_never_lost:
  assumes "ipi_ok s" "ipi_run ls s = Some s'" "ipi \<in> urgent s' cpu"
  shows "bit (ipi_pending s' cpu) (reason_number ipi) \<and> (ipi_line s' cpu \<or> in_idle s' cpu \<and> \<not> ipi_idle_asleep cpu s') \<and>
    (\<forall>l s''. l \<in> {Wake cpu, Interrupt cpu} \<and> ipi_exec l s' = Some s'' \<longrightarrow>
      (cpu, ipi) \<in> set (drop (length (handled s')) (handled s'')) \<and> urgent s'' cpu = {})"
proof -
  have ok: "ipi_ok s'" using ipi_ok_run assms(1,2) by blast
  have b: "bit (ipi_pending s' cpu) (reason_number ipi)" using ipi_okD(1) [OF ok assms(3)] .
  then have "\<not> ipi_idle_asleep cpu s'" using reason_number_simps(1) [of ipi] by (auto simp: ipi_idle_asleep_def)
  moreover have "(cpu, ipi) \<in> set (drop (length (handled s')) (handled s'')) \<and> urgent s'' cpu = {}"
    if l: "l \<in> {Wake cpu, Interrupt cpu}" "ipi_exec l s' = Some s''" for l s''
    using l b ipi_okD(1) [OF ok, of _ cpu]
    by (auto simp: ipi_idle_take_def ipi_handle_platform_ipi_def handle_logged ipi_simps set_pending_reasons split: if_splits)
  ultimately show ?thesis using b ipi_okD(2) [OF ok assms(3)] by blast
qed

text \<open>Two CPUs, of which the second is asleep when it is interrupted.\<close>

definition ex_ipi :: ipi_sys where
  "ex_ipi = \<lparr>ipi_pending = \<lambda>_. 0, ipi_line = \<lambda>_. False, sched_triggered = \<lambda>_. False, num_cpus = 2,
     in_idle = \<lambda>_. False, urgent = \<lambda>_. {}, handled = []\<rparr>"

theorem ipi_never_lost_witness:
  "\<exists>s. ipi_run [Sleep 1, Send IPI_REASON_RCU_NOTIFY 1] ex_ipi = Some s \<and> \<not> ipi_line s 1 \<and> \<not> ipi_idle_asleep 1 s"
proof -
  have ok: "ipi_ok ex_ipi" by (simp add: ipi_ok_def ex_ipi_def)
  obtain s where s: "ipi_run [Sleep 1, Send IPI_REASON_RCU_NOTIFY 1] ex_ipi = Some s" "\<not> ipi_line s 1" "IPI_REASON_RCU_NOTIFY \<in> urgent s 1"
    by (simp add: ex_ipi_def ipi_simps waiting_zero)
  then show ?thesis using ipi_never_lost [OF ok s(1,3)] by blast
qed

end
