(* ===== verification/Rcu.thy ===== *)
theory Rcu
  imports Ipi
begin

text \<open>
  Read-copy-update, \<^verbatim>\<open>hyp/core/rcu_bitmap/src/rcu_bitmap.c\<close>: the model. The global state, the state of each
  CPU and the \<^verbatim>\<open>next\<close> pointers of the entries extend the state of the inter-processor interrupts. The
  batches of a CPU are arrays of list heads, one per update class. What the handler of an update does
  in turn is an argument: whether it asks for a reschedule, and which updates it enqueues.
\<close>

section \<open>Data\<close>

record rcu_grace_period =
  generation :: u32
  cpu_bitmap :: u32

record rcu_cpu_state =
  update_count :: u32
  is_active :: bool
  ready_updates :: bool
  target :: u32
  ready_batch :: "ptr list"
  waiting_batch :: "ptr list"
  next_batch :: "ptr list"

text \<open>The last two fields record the updates that have run, and which CPUs the platform has.\<close>

record rcu_mem = ipi_mem +
  waiter_count :: u32
  current_period :: rcu_grace_period
  max_target :: u32
  active_cpus :: u32
  rcu_cpus :: "nat \<Rightarrow> rcu_cpu_state"
  entry_next :: "ptr \<Rightarrow> ptr"
  rcu_ran :: "(nat \<times> ptr) list"
  platform_cpu_exists :: "nat \<Rightarrow> bool"

type_synonym rcu_handler = "nat \<Rightarrow> ptr \<Rightarrow> bool \<times> (ptr \<times> nat) list"

definition upd_rcu :: "nat \<Rightarrow> (rcu_cpu_state \<Rightarrow> rcu_cpu_state) \<Rightarrow> 'a rcu_mem_scheme \<Rightarrow> 'a rcu_mem_scheme" where
  "upd_rcu cpu f s = s\<lparr>rcu_cpus := (rcu_cpus s)(cpu := f (rcu_cpus s cpu))\<rparr>"

definition cpu_bit :: "nat \<Rightarrow> u32" where
  "cpu_bit cpu = ucast (util_bit cpu)"

definition util_is_before :: "u32 \<Rightarrow> u32 \<Rightarrow> bool" where
  "util_is_before a b \<longleftrightarrow> a - b \<ge> 0x80000000"

section \<open>Enqueueing\<close>

lemma ctz_u32:
  assumes "(w :: u32) \<noteq> 0"
  shows "compiler_ctz (ucast w) < 32" "bit w (compiler_ctz (ucast w))"
proof -
  have "unat (ucast w :: u64) = unat w"
    using unat_lt [of w] by (simp add: unsigned_ucast_eq take_bit_nat_eq_self)
  then have "(ucast w :: u64) \<noteq> 0" using assms by (metis unat_0 unat_eq_zero)
  then have "bit (ucast w :: u64) (compiler_ctz (ucast w))" using ctz_bit [of "ucast w"] by blast
  then show b: "bit w (compiler_ctz (ucast w))" by (simp add: bit_ucast_iff)
  show "compiler_ctz (ucast w) < 32" using bit_imp_le_length [OF b] by simp
qed

lemma bit_cpu_bit [simp]: "bit (cpu_bit cpu) j \<longleftrightarrow> j = cpu \<and> cpu < 32"
  by (auto simp: cpu_bit_def bit_ucast_iff)

lemma clear_ctz_less:
  assumes "(w :: u32) \<noteq> 0"
  shows "unat (w AND NOT (cpu_bit (compiler_ctz (ucast w)))) < unat w"
proof -
  let ?b = "compiler_ctz (ucast w)"
  have "\<not> bit (w AND NOT (cpu_bit ?b)) ?b" using ctz_u32(1) [OF assms] by (simp add: bit_and_iff bit_not_iff)
  then have "w AND NOT (cpu_bit ?b) \<noteq> w" using ctz_u32(2) [OF assms] by metis
  moreover have "w AND NOT (cpu_bit ?b) \<le> w" by (rule word_and_le2)
  ultimately show ?thesis by (simp add: word_less_nat_alt [symmetric])
qed

function rcu_bitmap_refresh_loop :: "u32 \<Rightarrow> 'a rcu_mem_scheme \<Rightarrow> 'a rcu_mem_scheme option" where
  "rcu_bitmap_refresh_loop active s =
    (if active \<noteq> 0 then
       let cpu = compiler_ctz (ucast active)
       in Option.bind (ipi_one IPI_REASON_RCU_QUIESCE cpu s) (rcu_bitmap_refresh_loop (active AND NOT (cpu_bit cpu)))
     else Some s)"
  by pat_completeness auto
termination
  by (relation "measure (\<lambda>(active, _). unat active)") (use clear_ctz_less in auto)

declare rcu_bitmap_refresh_loop.simps [simp del]

definition rcu_bitmap_refresh_active :: "nat \<Rightarrow> 'a rcu_mem_scheme \<Rightarrow> 'a rcu_mem_scheme option" where
  "rcu_bitmap_refresh_active caller s = rcu_bitmap_refresh_loop (active_cpus s AND NOT (cpu_bit caller)) s"

definition rcu_bitmap_should_run :: "'a rcu_mem_scheme \<Rightarrow> bool" where
  "rcu_bitmap_should_run s \<longleftrightarrow> waiter_count s > 0"

definition rcu_enqueue :: "nat \<Rightarrow> ptr \<Rightarrow> nat \<Rightarrow> 'a rcu_mem_scheme \<Rightarrow> 'a rcu_mem_scheme option" where
  "rcu_enqueue cpu rcu_entry rcu_update_class s = do {
     let old_updates = update_count (rcu_cpus s cpu);
     let s = upd_rcu cpu (\<lambda>c. c\<lparr>update_count := old_updates + 1\<rparr>) s;
     s \<leftarrow> (if old_updates = 0 then do {
              let old_waiters = waiter_count s;
              let s = s\<lparr>waiter_count := old_waiters + 1\<rparr>;
              if old_waiters = 0 then rcu_bitmap_refresh_active cpu s else Some s
            } else Some s);
     let s = s\<lparr>entry_next := (entry_next s)(rcu_entry := next_batch (rcu_cpus s cpu) ! rcu_update_class)\<rparr>;
     let s = upd_rcu cpu (\<lambda>c. c\<lparr>next_batch := (next_batch c)[rcu_update_class := rcu_entry]\<rparr>) s;
     ipi_one_relaxed IPI_REASON_RCU_NOTIFY cpu s
   }"

section \<open>Running updates\<close>

text \<open>The event \<^verbatim>\<open>rcu_update\<close>: the update is recorded, and its handler enqueues updates in turn.\<close>

fun rcu_enqueue_all :: "nat \<Rightarrow> (ptr \<times> nat) list \<Rightarrow> 'a rcu_mem_scheme \<Rightarrow> 'a rcu_mem_scheme option" where
  "rcu_enqueue_all cpu [] s = Some s"
| "rcu_enqueue_all cpu ((entry, update_class) # es) s = Option.bind (rcu_enqueue cpu entry update_class s) (rcu_enqueue_all cpu es)"

definition trigger_rcu_update_event ::
    "rcu_handler \<Rightarrow> nat \<Rightarrow> nat \<Rightarrow> ptr \<Rightarrow> 'a rcu_mem_scheme \<Rightarrow> (bool \<times> 'a rcu_mem_scheme) option" where
  "trigger_rcu_update_event handler cpu update_class entry s = do {
     let (need_schedule, more) = handler update_class entry;
     s \<leftarrow> rcu_enqueue_all cpu more (s\<lparr>rcu_ran := rcu_ran s @ [(update_class, entry)]\<rparr>);
     Some (need_schedule, s)
   }"

text \<open>The loop over one list. It returns the status and the number of updates.\<close>

partial_function (option) rcu_update_entries ::
    "rcu_handler \<Rightarrow> nat \<Rightarrow> nat \<Rightarrow> ptr \<Rightarrow> bool \<Rightarrow> u32 \<Rightarrow> rcu_mem \<Rightarrow> (bool \<times> u32 \<times> rcu_mem) option" where
  [code]: "rcu_update_entries handler cpu update_class entry status count s =
    (if entry \<noteq> NULL then
       let nxt = entry_next s entry
       in Option.bind (trigger_rcu_update_event handler cpu update_class entry s) (\<lambda>(need_schedule, s).
            rcu_update_entries handler cpu update_class nxt (need_schedule \<or> status) (count + 1) s)
     else Some (status, count, s))"

fun rcu_update_classes ::
    "rcu_handler \<Rightarrow> nat \<Rightarrow> nat list \<Rightarrow> bool \<Rightarrow> u32 \<Rightarrow> rcu_mem \<Rightarrow> (bool \<times> u32 \<times> rcu_mem) option" where
  "rcu_update_classes handler cpu [] status count s = Some (status, count, s)"
| "rcu_update_classes handler cpu (update_class # ks) status count s = do {
     let entry = ready_batch (rcu_cpus s cpu) ! update_class;
     let s = upd_rcu cpu (\<lambda>c. c\<lparr>ready_batch := (ready_batch c)[update_class := NULL]\<rparr>) s;
     (status, count, s) \<leftarrow> rcu_update_entries handler cpu update_class entry status count s;
     rcu_update_classes handler cpu ks status count s
   }"

abbreviation update_class_range :: "nat \<Rightarrow> rcu_mem \<Rightarrow> nat list" where
  "update_class_range cpu s \<equiv> [0..<length (ready_batch (rcu_cpus s cpu))]"

definition rcu_bitmap_update :: "rcu_handler \<Rightarrow> nat \<Rightarrow> rcu_mem \<Rightarrow> (bool \<times> rcu_mem) option" where
  "rcu_bitmap_update handler cpu s =
    (if \<not> ready_updates (rcu_cpus s cpu) then Some (False, s)
     else do {
       (status, count, s) \<leftarrow> rcu_update_classes handler cpu (update_class_range cpu s) False 0 s;
       let old_updates = update_count (rcu_cpus s cpu);
       let s = (if count \<noteq> 0 then
                  let s = upd_rcu cpu (\<lambda>c. c\<lparr>update_count := old_updates - count\<rparr>) s
                  in if old_updates = count then s\<lparr>waiter_count := waiter_count s - 1\<rparr> else s
                else s);
       Some (status, upd_rcu cpu (\<lambda>c. c\<lparr>ready_updates := False\<rparr>) s)
     })"

section \<open>Grace periods\<close>

text \<open>The parts of \<^verbatim>\<open>rcu_bitmap_request_grace_period\<close>: the target, and the second look at the period.\<close>

definition rcu_raise_max_target :: "u32 \<Rightarrow> 'a rcu_mem_scheme \<Rightarrow> 'a rcu_mem_scheme" where
  "rcu_raise_max_target tgt s = (if util_is_before tgt (max_target s) then s else s\<lparr>max_target := tgt\<rparr>)"

definition rcu_bitmap_request_grace_period :: "nat \<Rightarrow> u32 \<Rightarrow> 'a rcu_mem_scheme \<Rightarrow> 'a rcu_mem_scheme option" where
  "rcu_bitmap_request_grace_period cpu current_gen s = do {
     let tgt = current_gen + 2;
     let s = upd_rcu cpu (\<lambda>c. c\<lparr>target := tgt\<rparr>) s;
     let new_period = current_period s;
     if \<not> util_is_before (generation new_period) tgt then ipi_one_relaxed IPI_REASON_RCU_NOTIFY cpu s
     else do {
       let s = rcu_raise_max_target tgt s;
       if cpu_bitmap new_period = 0 then ipi_one_relaxed IPI_REASON_RCU_QUIESCE cpu s else Some s
     }
   }"

text \<open>
  The loop that advances the batches of all classes, and what becomes of the two flags. The ready batch
  must be empty.
\<close>

fun rcu_advance_classes :: "nat list \<Rightarrow> bool \<Rightarrow> rcu_cpu_state \<Rightarrow> (bool \<times> rcu_cpu_state) option" where
  "rcu_advance_classes [] waiting_updates c = Some (waiting_updates, c)"
| "rcu_advance_classes (k # ks) waiting_updates c = do {
     c_assert (ready_batch c ! k = NULL);
     let waiting_head = waiting_batch c ! k;
     let next_head = next_batch c ! k;
     rcu_advance_classes ks (waiting_updates \<or> next_head \<noteq> NULL)
       (c\<lparr>ready_updates := ready_updates c \<or> waiting_head \<noteq> NULL, next_batch := (next_batch c)[k := NULL],
          waiting_batch := (waiting_batch c)[k := next_head], ready_batch := (ready_batch c)[k := waiting_head]\<rparr>)
   }"

text \<open>
  The first part of \<^verbatim>\<open>rcu_bitmap_notify\<close>, up to the request of a grace period; the second result is the
  generation to request it with.
\<close>

definition rcu_notify_advance :: "rcu_handler \<Rightarrow> nat \<Rightarrow> rcu_mem \<Rightarrow> (bool \<times> u32 option \<times> rcu_mem) option" where
  "rcu_notify_advance handler cpu s =
    (if update_count (rcu_cpus s cpu) = 0 then Some (False, None, s)
     else do {
       (reschedule, s) \<leftarrow> (if ready_updates (rcu_cpus s cpu) then rcu_bitmap_update handler cpu (snd (ipi_clear IPI_REASON_RCU_UPDATE cpu s))
                          else Some (False, s));
       let current = generation (current_period s);
       if util_is_before current (target (rcu_cpus s cpu)) then Some (reschedule, None, s)
       else do {
         (waiting_updates, c) \<leftarrow> rcu_advance_classes (update_class_range cpu s) False (rcu_cpus s cpu);
         let s = upd_rcu cpu (\<lambda>_. c) s;
         s \<leftarrow> (if ready_updates c then ipi_one_relaxed IPI_REASON_RCU_UPDATE cpu s else Some s);
         Some (reschedule, if waiting_updates then Some current else None, s)
       }
     })"

definition rcu_bitmap_notify :: "rcu_handler \<Rightarrow> nat \<Rightarrow> rcu_mem \<Rightarrow> (bool \<times> rcu_mem) option" where
  "rcu_bitmap_notify handler cpu s = do {
     (reschedule, request, s) \<leftarrow> rcu_notify_advance handler cpu s;
     s \<leftarrow> (case request of Some current \<Rightarrow> rcu_bitmap_request_grace_period cpu current s | None \<Rightarrow> Some s);
     Some (reschedule, s)
   }"

text \<open>
  One round of the loop of \<^verbatim>\<open>rcu_bitmap_quiesce\<close>: the period to store, from the period that was loaded, and
  whether it is a new one; then the compare-and-exchange.
\<close>

definition rcu_quiesce_next :: "nat \<Rightarrow> rcu_grace_period \<Rightarrow> 'a rcu_mem_scheme \<Rightarrow> bool \<times> rcu_grace_period" where
  "rcu_quiesce_next this_cpu current s =
    (let nxt = current\<lparr>cpu_bitmap := cpu_bitmap current AND NOT (cpu_bit this_cpu)\<rparr>
     in if cpu_bitmap nxt \<noteq> 0 then (False, nxt)
        else if max_target s \<noteq> generation current
        then (True, nxt\<lparr>cpu_bitmap := active_cpus s, generation := generation nxt + 1\<rparr>)
        else (False, nxt))"

definition rcu_quiesce_exchange :: "rcu_grace_period \<Rightarrow> rcu_grace_period \<Rightarrow> 'a rcu_mem_scheme \<Rightarrow> bool \<times> 'a rcu_mem_scheme" where
  "rcu_quiesce_exchange current nxt s =
    (if current_period s = current then (True, s\<lparr>current_period := nxt\<rparr>) else (False, s))"

partial_function (option) rcu_quiesce_loop ::
    "nat \<Rightarrow> rcu_grace_period \<Rightarrow> rcu_mem \<Rightarrow> (bool \<times> rcu_grace_period \<times> rcu_mem) option" where
  [code]: "rcu_quiesce_loop this_cpu current s =
    (let (new_period, nxt) = rcu_quiesce_next this_cpu current s;
         (exchanged, s) = rcu_quiesce_exchange current nxt s
     in if exchanged then Some (new_period, nxt, s) else rcu_quiesce_loop this_cpu (current_period s) s)"

fun rcu_quiesce_notify_loop :: "nat \<Rightarrow> u32 \<Rightarrow> u32 \<Rightarrow> nat list \<Rightarrow> rcu_mem \<Rightarrow> rcu_mem option" where
  "rcu_quiesce_notify_loop this_cpu gen needing_quiesce [] s = Some s"
| "rcu_quiesce_notify_loop this_cpu gen needing_quiesce (cpu # cpus) s =
    (if cpu = this_cpu \<or> \<not> platform_cpu_exists s cpu then rcu_quiesce_notify_loop this_cpu gen needing_quiesce cpus s
     else do {
       s \<leftarrow> (if target (rcu_cpus s cpu) = gen then ipi_one IPI_REASON_RCU_NOTIFY cpu s else Some s);
       s \<leftarrow> (if needing_quiesce AND cpu_bit cpu \<noteq> 0 then ipi_one IPI_REASON_RCU_QUIESCE cpu s else Some s);
       rcu_quiesce_notify_loop this_cpu gen needing_quiesce cpus s
     })"

text \<open>What happens after a new period has been started: the other CPUs are interrupted, then this one is notified.\<close>

definition rcu_quiesce_tell :: "nat \<Rightarrow> rcu_grace_period \<Rightarrow> rcu_mem \<Rightarrow> rcu_mem option" where
  "rcu_quiesce_tell this_cpu nxt s =
    rcu_quiesce_notify_loop this_cpu (generation nxt) (cpu_bitmap nxt AND NOT (active_cpus s)) [0..<num_cpus s] s"

definition rcu_bitmap_quiesce :: "rcu_handler \<Rightarrow> nat \<Rightarrow> rcu_mem \<Rightarrow> (bool \<times> rcu_mem) option" where
  "rcu_bitmap_quiesce handler this_cpu s = do {
     (new_period, nxt, s) \<leftarrow> rcu_quiesce_loop this_cpu (current_period s) s;
     if new_period then do {
       s \<leftarrow> rcu_quiesce_tell this_cpu nxt s;
       if is_active (rcu_cpus s this_cpu) then do {
         (reschedule, s) \<leftarrow> rcu_bitmap_notify handler this_cpu s;
         s \<leftarrow> ipi_one_relaxed IPI_REASON_RCU_QUIESCE this_cpu s;
         Some (reschedule, s)
       } else if update_count (rcu_cpus s this_cpu) \<noteq> 0 then do {
         s \<leftarrow> ipi_one IPI_REASON_RCU_NOTIFY this_cpu s;
         Some (False, s)
       } else Some (False, s)
     } else Some (False, s)
   }"

section \<open>Activation and deactivation\<close>

definition rcu_read_start :: "nat \<Rightarrow> 'a rcu_mem_scheme \<Rightarrow> unit option" where
  "rcu_read_start cpu s = c_assert (is_active (rcu_cpus s cpu))"

definition rcu_bitmap_activate_cpu :: "nat \<Rightarrow> 'a rcu_mem_scheme \<Rightarrow> 'a rcu_mem_scheme" where
  "rcu_bitmap_activate_cpu cpu s =
    (if \<not> is_active (rcu_cpus s cpu)
     then (upd_rcu cpu (\<lambda>c. c\<lparr>is_active := True\<rparr>) s)\<lparr>active_cpus := active_cpus s OR cpu_bit cpu\<rparr> else s)"

definition rcu_bitmap_handle_boot_cold_init :: "nat \<Rightarrow> 'a rcu_mem_scheme \<Rightarrow> 'a rcu_mem_scheme" where
  "rcu_bitmap_handle_boot_cold_init boot_cpu_index s = rcu_bitmap_activate_cpu boot_cpu_index s"

definition rcu_bitmap_activate_current :: "nat \<Rightarrow> 'a rcu_mem_scheme \<Rightarrow> 'a rcu_mem_scheme" where
  "rcu_bitmap_activate_current cpu s = rcu_bitmap_activate_cpu cpu s"

definition rcu_bitmap_handle_preempt_interrupt :: "nat \<Rightarrow> 'a rcu_mem_scheme \<Rightarrow> bool \<times> 'a rcu_mem_scheme" where
  "rcu_bitmap_handle_preempt_interrupt cpu s = (False, rcu_bitmap_activate_current cpu s)"

text \<open>The first part of \<^verbatim>\<open>rcu_bitmap_deactivate_cpu\<close>.\<close>

definition rcu_leave_active_set :: "nat \<Rightarrow> 'a rcu_mem_scheme \<Rightarrow> 'a rcu_mem_scheme" where
  "rcu_leave_active_set cpu s =
    (if is_active (rcu_cpus s cpu)
     then (upd_rcu cpu (\<lambda>c. c\<lparr>is_active := False\<rparr>) s)\<lparr>active_cpus := active_cpus s AND NOT (cpu_bit cpu)\<rparr> else s)"

definition rcu_clear_and_quiesce :: "rcu_handler \<Rightarrow> nat \<Rightarrow> rcu_mem \<Rightarrow> rcu_mem option" where
  "rcu_clear_and_quiesce handler cpu s = do {
     (reschedule, s) \<leftarrow> rcu_bitmap_quiesce handler cpu (snd (ipi_clear IPI_REASON_RCU_QUIESCE cpu s));
     Some (if reschedule then scheduler_trigger cpu s else s)
   }"

definition rcu_bitmap_deactivate_cpu :: "rcu_handler \<Rightarrow> nat \<Rightarrow> rcu_mem \<Rightarrow> rcu_mem option" where
  "rcu_bitmap_deactivate_cpu handler cpu s = rcu_clear_and_quiesce handler cpu (rcu_leave_active_set cpu s)"

definition rcu_bitmap_maybe_deactivate_cpu :: "rcu_handler \<Rightarrow> nat \<Rightarrow> rcu_mem \<Rightarrow> rcu_mem option" where
  "rcu_bitmap_maybe_deactivate_cpu handler cpu s =
    (if rcu_bitmap_should_run s then rcu_bitmap_deactivate_cpu handler cpu s else Some s)"

definition rcu_bitmap_try_deactivate_cpu :: "rcu_handler \<Rightarrow> nat \<Rightarrow> rcu_mem \<Rightarrow> (error_t \<times> rcu_mem) option" where
  "rcu_bitmap_try_deactivate_cpu handler cpu s =
    (if update_count (rcu_cpus s cpu) \<noteq> 0 then Some (ERROR_BUSY, s)
     else do {
       s \<leftarrow> rcu_bitmap_deactivate_cpu handler cpu s;
       Some (OK, s)
     })"

definition rcu_bitmap_handle_scheduler_quiescent :: "rcu_handler \<Rightarrow> nat \<Rightarrow> rcu_mem \<Rightarrow> rcu_mem option" where
  "rcu_bitmap_handle_scheduler_quiescent handler cpu s =
    (if rcu_bitmap_should_run s then rcu_clear_and_quiesce handler cpu s else Some s)"

definition rcu_bitmap_handle_thread_context_switch_pre :: "rcu_handler \<Rightarrow> nat \<Rightarrow> rcu_mem \<Rightarrow> (error_t \<times> rcu_mem) option" where
  "rcu_bitmap_handle_thread_context_switch_pre handler cpu s = do {
     s \<leftarrow> rcu_bitmap_handle_scheduler_quiescent handler cpu s;
     Some (OK, s)
   }"

definition rcu_bitmap_handle_power_cpu_offline :: "rcu_handler \<Rightarrow> nat \<Rightarrow> rcu_mem \<Rightarrow> rcu_mem option" where
  "rcu_bitmap_handle_power_cpu_offline handler cpu s = do {
     c_assert (update_count (rcu_cpus s cpu) = 0);
     rcu_bitmap_deactivate_cpu handler cpu s
   }"

definition rcu_has_pending_updates :: "nat \<Rightarrow> 'a rcu_mem_scheme \<Rightarrow> bool" where
  "rcu_has_pending_updates cpu s \<longleftrightarrow> rcu_bitmap_should_run s \<and> update_count (rcu_cpus s cpu) \<noteq> 0"

text \<open>The scheduler run is an argument; it tells whether it has switched threads.\<close>

definition rcu_expedite :: "(rcu_mem \<Rightarrow> bool \<times> rcu_mem) \<Rightarrow> rcu_handler \<Rightarrow> nat \<Rightarrow> rcu_mem \<Rightarrow> rcu_mem option" where
  "rcu_expedite scheduler_schedule handler cpu s = do {
     let step = (\<lambda>always reason run s.
            let (pending, s) = ipi_clear reason cpu s
            in if pending \<or> always then do {
                 (reschedule, s) \<leftarrow> run s;
                 Some (if reschedule then scheduler_schedule s else (False, s))
               } else Some (False, s));
     (out, s) \<leftarrow> step False IPI_REASON_RCU_NOTIFY (rcu_bitmap_notify handler cpu) s;
     if out then Some s
     else do {
       (out, s) \<leftarrow> step True IPI_REASON_RCU_QUIESCE (rcu_bitmap_quiesce handler cpu) s;
       if out then Some s
       else do {
         (out, s) \<leftarrow> step False IPI_REASON_RCU_QUIESCE (rcu_bitmap_quiesce handler cpu) s;
         if out then Some s
         else do {
           (_, s) \<leftarrow> step False IPI_REASON_RCU_UPDATE (rcu_bitmap_update handler cpu) s;
           Some s
         }
       }
     }
   }"

end
