(* ===== verification/Rcu_System.thy ===== *)
theory Rcu_System
  imports Rcu
begin

text \<open>
  The transition system of read-copy-update, and what its steps do. The steps of the CPUs are the
  accesses of \<^verbatim>\<open>rcu_bitmap.c\<close> to shared variables: between the load of the current period, the look at the active set
  and the compare-and-exchange in \<^verbatim>\<open>rcu_bitmap_quiesce\<close>, and between the advance of the batches and the
  request of a grace period, other CPUs run. Every handler can be called at any time outside of a
  critical section, so it does not matter which interrupts are pending. An update handler that
  enqueues further updates does so in steps of its own.
\<close>

section \<open>The transition system\<close>

datatype rcu_pc =
    Ready
  | Loaded rcu_grace_period
  | Looked rcu_grace_period bool rcu_grace_period
  | Started rcu_grace_period
  | Requesting u32

text \<open>
  The ghost fields are the depth to which critical sections are nested on each CPU, the entries that
  are queued, and for each entry the CPUs which have been in the same critical section ever since it
  was enqueued.
\<close>

record rcu_sys =
  mem :: rcu_mem
  pc :: "nat \<Rightarrow> rcu_pc"
  depth :: "nat \<Rightarrow> nat"
  queued :: "ptr set"
  readers :: "ptr \<Rightarrow> nat set"

datatype rcu_label =
    Read_start nat | Read_finish nat | Enqueue nat ptr nat | Activate nat | Leave nat | Load nat | Look nat | Exchange nat
  | Tell nat | Notify nat | Request nat | Update nat

fun rcu_enabled :: "rcu_label \<Rightarrow> rcu_sys \<Rightarrow> bool" where
  "rcu_enabled (Read_start c) S \<longleftrightarrow> c < num_cpus (mem S) \<and> pc S c = Ready \<and> is_active (rcu_cpus (mem S) c)"
| "rcu_enabled (Read_finish c) S \<longleftrightarrow> 0 < depth S c"
| "rcu_enabled (Enqueue c e k) S \<longleftrightarrow> c < num_cpus (mem S) \<and> pc S c = Ready \<and> e \<noteq> NULL \<and> e \<notin> queued S \<and>
    k < length (next_batch (rcu_cpus (mem S) c))"
| "rcu_enabled (Activate c) S \<longleftrightarrow> c < num_cpus (mem S) \<and> pc S c = Ready"
| "rcu_enabled (Leave c) S \<longleftrightarrow> c < num_cpus (mem S) \<and> pc S c = Ready \<and> depth S c = 0"
| "rcu_enabled (Load c) S \<longleftrightarrow> c < num_cpus (mem S) \<and> pc S c = Ready \<and> depth S c = 0"
| "rcu_enabled (Look c) S \<longleftrightarrow> (\<exists>p. pc S c = Loaded p)"
| "rcu_enabled (Exchange c) S \<longleftrightarrow> (\<exists>p b q. pc S c = Looked p b q)"
| "rcu_enabled (Tell c) S \<longleftrightarrow> (\<exists>p. pc S c = Started p)"
| "rcu_enabled (Notify c) S \<longleftrightarrow> c < num_cpus (mem S) \<and> pc S c = Ready \<and> depth S c = 0"
| "rcu_enabled (Request c) S \<longleftrightarrow> (\<exists>g. pc S c = Requesting g)"
| "rcu_enabled (Update c) S \<longleftrightarrow> c < num_cpus (mem S) \<and> pc S c = Ready \<and> depth S c = 0"

definition set_pc :: "nat \<Rightarrow> rcu_pc \<Rightarrow> rcu_sys \<Rightarrow> rcu_sys" where
  "set_pc c p S = S\<lparr>pc := (pc S)(c := p)\<rparr>"

text \<open>The updates that have run leave the queue.\<close>

definition with_ran :: "rcu_mem \<Rightarrow> rcu_sys \<Rightarrow> rcu_sys" where
  "with_ran m S = S\<lparr>mem := m, queued := queued S - snd ` set (drop (length (rcu_ran (mem S))) (rcu_ran m))\<rparr>"

fun rcu_exec :: "rcu_handler \<Rightarrow> rcu_label \<Rightarrow> rcu_sys \<Rightarrow> rcu_sys option" where
  "rcu_exec h (Read_start c) S = do {
     rcu_read_start c (mem S);
     Some (S\<lparr>depth := (depth S)(c := depth S c + 1)\<rparr>)
   }"
| "rcu_exec h (Read_finish c) S =
    Some (S\<lparr>depth := (depth S)(c := depth S c - 1), readers := (if depth S c = 1 then (\<lambda>e. readers S e - {c}) else readers S)\<rparr>)"
| "rcu_exec h (Enqueue c e k) S = do {
     m \<leftarrow> rcu_enqueue c e k (mem S);
     Some (S\<lparr>mem := m, queued := insert e (queued S), readers := (readers S)(e := {x. 0 < depth S x})\<rparr>)
   }"
| "rcu_exec h (Activate c) S = Some (S\<lparr>mem := rcu_bitmap_activate_cpu c (mem S)\<rparr>)"
| "rcu_exec h (Leave c) S = Some (S\<lparr>mem := rcu_leave_active_set c (mem S)\<rparr>)"
| "rcu_exec h (Load c) S = Some (set_pc c (Loaded (current_period (mem S))) S)"
| "rcu_exec h (Look c) S = (case pc S c of
     Loaded p \<Rightarrow> (let (b, q) = rcu_quiesce_next c p (mem S) in Some (set_pc c (Looked p b q) S))
   | _ \<Rightarrow> None)"
| "rcu_exec h (Exchange c) S = (case pc S c of
     Looked p b q \<Rightarrow>
       (let (ok, m) = rcu_quiesce_exchange p q (mem S)
        in Some (set_pc c (if ok then if b then Started q else Ready else Loaded (current_period m)) (S\<lparr>mem := m\<rparr>)))
   | _ \<Rightarrow> None)"
| "rcu_exec h (Tell c) S = (case pc S c of
     Started q \<Rightarrow> do {
       m \<leftarrow> rcu_quiesce_tell c q (mem S);
       Some (set_pc c Ready (S\<lparr>mem := m\<rparr>))
     }
   | _ \<Rightarrow> None)"
| "rcu_exec h (Notify c) S = do {
     (_, request, m) \<leftarrow> rcu_notify_advance h c (mem S);
     Some (set_pc c (case request of Some g \<Rightarrow> Requesting g | None \<Rightarrow> Ready) (with_ran m S))
   }"
| "rcu_exec h (Request c) S = (case pc S c of
     Requesting g \<Rightarrow> do {
       m \<leftarrow> rcu_bitmap_request_grace_period c g (mem S);
       Some (set_pc c Ready (S\<lparr>mem := m\<rparr>))
     }
   | _ \<Rightarrow> None)"
| "rcu_exec h (Update c) S = do {
     (_, m) \<leftarrow> rcu_bitmap_update h c (mem S);
     Some (with_ran m S)
   }"

fun rcu_run :: "rcu_handler \<Rightarrow> rcu_label list \<Rightarrow> rcu_sys \<Rightarrow> rcu_sys option" where
  "rcu_run h [] S = Some S"
| "rcu_run h (l # ls) S = (if rcu_enabled l S then Option.bind (rcu_exec h l S) (rcu_run h ls) else None)"

text \<open>No CPU enters the active set while another one is between its look at the set and the exchange.\<close>

fun calm :: "rcu_label \<Rightarrow> rcu_sys \<Rightarrow> bool" where
  "calm (Activate c) S \<longleftrightarrow> (\<forall>d < num_cpus (mem S). \<forall>p q. pc S d \<noteq> Looked p True q)"
| "calm _ S \<longleftrightarrow> True"

fun calm_run :: "rcu_handler \<Rightarrow> rcu_label list \<Rightarrow> rcu_sys \<Rightarrow> bool" where
  "calm_run h [] S \<longleftrightarrow> True"
| "calm_run h (l # ls) S \<longleftrightarrow> calm l S \<and> (case rcu_exec h l S of Some S' \<Rightarrow> calm_run h ls S' | None \<Rightarrow> True)"

section \<open>Lists of entries\<close>

fun chain :: "(ptr \<Rightarrow> ptr) \<Rightarrow> ptr \<Rightarrow> ptr list \<Rightarrow> bool" where
  "chain nx p [] \<longleftrightarrow> p = NULL"
| "chain nx p (e # es) \<longleftrightarrow> p = e \<and> e \<noteq> NULL \<and> chain nx (nx e) es"

lemma chain_upd: "e \<notin> set es \<Longrightarrow> chain (nx(e := q)) p es = chain nx p es"
  by (induction es arbitrary: p) auto

lemma chain_NULL: "chain nx NULL es \<longleftrightarrow> es = []"
  by (cases es) auto

datatype batch = Ready_batch | Waiting_batch | Next_batch

fun batch_of :: "batch \<Rightarrow> rcu_cpu_state \<Rightarrow> ptr list" where
  "batch_of Ready_batch c = ready_batch c"
| "batch_of Waiting_batch c = waiting_batch c"
| "batch_of Next_batch c = next_batch c"

definition batches_ok :: "nat \<Rightarrow> (batch \<times> nat \<times> nat \<Rightarrow> ptr list) \<Rightarrow> rcu_mem \<Rightarrow> bool" where
  "batches_ok K Q m \<longleftrightarrow>
    (\<forall>b. \<forall>c < num_cpus m. length (batch_of b (rcu_cpus m c)) = K \<and>
      (\<forall>k < K. chain (entry_next m) (batch_of b (rcu_cpus m c) ! k) (Q (b, c, k)))) \<and>
    (\<forall>c < num_cpus m. \<forall>k < K. Q (Ready_batch, c, k) \<noteq> [] \<longrightarrow> ready_updates (rcu_cpus m c)) \<and>
    (\<forall>i. distinct (Q i)) \<and> (\<forall>i j. i \<noteq> j \<longrightarrow> set (Q i) \<inter> set (Q j) = {}) \<and>
    (\<forall>b c k. num_cpus m \<le> c \<or> K \<le> k \<longrightarrow> Q (b, c, k) = [])"

definition quiet :: "rcu_handler \<Rightarrow> bool" where
  "quiet h \<longleftrightarrow> (\<forall>k e. snd (h k e) = [])"

lemma update_entries:
  assumes "quiet h" "chain (entry_next s) entry es"
  shows "\<exists>st. rcu_update_entries h cpu k entry status count s =
    Some (st, count + of_nat (length es), s\<lparr>rcu_ran := rcu_ran s @ map (Pair k) es\<rparr>)"
  using assms(2)
proof (induction es arbitrary: entry status count s)
  case Nil
  then show ?case by (subst rcu_update_entries.simps) simp
next
  case (Cons e es)
  let ?s = "s\<lparr>rcu_ran := rcu_ran s @ [(k, e)]\<rparr>"
  have t: "trigger_rcu_update_event h cpu k e s = Some (fst (h k e), ?s)"
    using assms(1) by (cases "h k e") (simp add: trigger_rcu_update_event_def quiet_def, metis rcu_enqueue_all.simps(1) snd_conv bind.bind_lunit)
  obtain st where "rcu_update_entries h cpu k (entry_next s e) (fst (h k e) \<or> status) (count + 1) ?s =
      Some (st, count + 1 + of_nat (length es), ?s\<lparr>rcu_ran := rcu_ran ?s @ map (Pair k) es\<rparr>)"
    using Cons.IH [of ?s "entry_next s e"] Cons.prems by auto
  then show ?case using Cons.prems t by (subst rcu_update_entries.simps) (simp add: Let_def)
qed

lemma update_classes:
  assumes "quiet h" "distinct ks" "\<And>k. k \<in> set ks \<Longrightarrow> k < length (ready_batch (rcu_cpus s cpu)) \<and> chain (entry_next s) (ready_batch (rcu_cpus s cpu) ! k) (R k)"
  shows "\<exists>st n. rcu_update_classes h cpu ks status count s =
    Some (st, n, upd_rcu cpu (\<lambda>c. c\<lparr>ready_batch := fold (\<lambda>k b. b[k := NULL]) ks (ready_batch c)\<rparr>)
      (s\<lparr>rcu_ran := rcu_ran s @ concat (map (\<lambda>k. map (Pair k) (R k)) ks)\<rparr>))"
  using assms(2,3)
proof (induction ks arbitrary: status count s)
  case Nil
  then show ?case by (simp add: upd_rcu_def)
next
  case (Cons k ks)
  define s1 where "s1 = upd_rcu cpu (\<lambda>c. c\<lparr>ready_batch := (ready_batch c)[k := NULL]\<rparr>) s"
  have c: "chain (entry_next s1) (ready_batch (rcu_cpus s cpu) ! k) (R k)" using Cons.prems(2) [of k] by (simp add: s1_def upd_rcu_def)
  obtain st where st: "rcu_update_entries h cpu k (ready_batch (rcu_cpus s cpu) ! k) status count s1 =
      Some (st, count + of_nat (length (R k)), s1\<lparr>rcu_ran := rcu_ran s1 @ map (Pair k) (R k)\<rparr>)"
    using update_entries [OF assms(1) c] by blast
  let ?s2 = "s1\<lparr>rcu_ran := rcu_ran s1 @ map (Pair k) (R k)\<rparr>"
  have "j < length (ready_batch (rcu_cpus ?s2 cpu)) \<and> chain (entry_next ?s2) (ready_batch (rcu_cpus ?s2 cpu) ! j) (R j)" if "j \<in> set ks" for j
    using Cons.prems(1) Cons.prems(2) [of j] that by (cases "j = k") (auto simp: s1_def upd_rcu_def)
  then obtain st' n where "rcu_update_classes h cpu ks st (count + of_nat (length (R k))) ?s2 =
      Some (st', n, upd_rcu cpu (\<lambda>c. c\<lparr>ready_batch := fold (\<lambda>k b. b[k := NULL]) ks (ready_batch c)\<rparr>)
        (?s2\<lparr>rcu_ran := rcu_ran ?s2 @ concat (map (\<lambda>k. map (Pair k) (R k)) ks)\<rparr>))"
    using Cons.IH [of ?s2 st "count + of_nat (length (R k))"] Cons.prems(1) by auto
  then show ?case using st by (simp add: s1_def upd_rcu_def)
qed

lemma fold_clear: "n \<le> length b \<Longrightarrow> fold (\<lambda>k b. b[k := NULL]) [0..<n] b = replicate n NULL @ drop n b"
proof (induction n)
  case (Suc n)
  then show ?case by (simp add: list_update_append Cons_nth_drop_Suc [symmetric] replicate_append_same)
qed simp

text \<open>What running the updates of a CPU changes.\<close>

definition ran_ready :: "nat \<Rightarrow> nat \<Rightarrow> (nat \<times> ptr) list \<Rightarrow> rcu_mem \<Rightarrow> rcu_mem \<Rightarrow> bool" where
  "ran_ready K cpu runs m m' \<longleftrightarrow> rcu_ran m' = rcu_ran m @ runs \<and> num_cpus m' = num_cpus m \<and> current_period m' = current_period m \<and>
    active_cpus m' = active_cpus m \<and> entry_next m' = entry_next m \<and>
    (\<forall>d. d \<noteq> cpu \<longrightarrow> rcu_cpus m' d = rcu_cpus m d) \<and>
    (let c = rcu_cpus m cpu; c' = rcu_cpus m' cpu
     in is_active c' = is_active c \<and> target c' = target c \<and> waiting_batch c' = waiting_batch c \<and> next_batch c' = next_batch c \<and>
       ready_batch c' = replicate K NULL \<and> \<not> ready_updates c')"

lemma all_null: "length xs = K \<Longrightarrow> (\<And>k. k < K \<Longrightarrow> xs ! k = NULL) \<Longrightarrow> xs = replicate K NULL"
  by (auto intro: nth_equalityI)

lemma update_runs:
  assumes ok: "batches_ok K Q m" and c: "cpu < num_cpus m" and q: "quiet h"
  shows "\<exists>st m'. rcu_bitmap_update h cpu m = Some (st, m') \<and>
    ran_ready K cpu (concat (map (\<lambda>k. map (Pair k) (Q (Ready_batch, cpu, k))) [0..<K])) m m'"
proof -
  have len: "length (ready_batch (rcu_cpus m cpu)) = K" "\<And>k. k < K \<Longrightarrow> chain (entry_next m) (ready_batch (rcu_cpus m cpu) ! k) (Q (Ready_batch, cpu, k))"
    using ok c unfolding batches_ok_def by (metis batch_of.simps(1))+
  show ?thesis
  proof (cases "ready_updates (rcu_cpus m cpu)")
    case False
    then have e: "Q (Ready_batch, cpu, k) = []" if "k < K" for k using ok c that unfolding batches_ok_def by blast
    then have "ready_batch (rcu_cpus m cpu) = replicate K NULL" using len by (intro all_null) (auto simp: e)
    moreover have "concat (map (\<lambda>k. map (Pair k) (Q (Ready_batch, cpu, k))) [0..<K]) = []" using e by simp
    ultimately show ?thesis using False by (intro exI [of _ False] exI [of _ m]) (simp add: rcu_bitmap_update_def ran_ready_def Let_def)
  next
    case True
    obtain st n where "rcu_update_classes h cpu [0..<K] False 0 m =
        Some (st, n, upd_rcu cpu (\<lambda>c. c\<lparr>ready_batch := fold (\<lambda>k b. b[k := NULL]) [0..<K] (ready_batch c)\<rparr>)
          (m\<lparr>rcu_ran := rcu_ran m @ concat (map (\<lambda>k. map (Pair k) (Q (Ready_batch, cpu, k))) [0..<K])\<rparr>))"
      using update_classes [OF q, of "[0..<K]" m cpu "\<lambda>k. Q (Ready_batch, cpu, k)" False 0] len by auto
    then show ?thesis using True len(1)
      by (auto simp: rcu_bitmap_update_def ran_ready_def upd_rcu_def fold_clear Let_def fun_eq_iff)
  qed
qed

lemma advance_classes:
  assumes "distinct ks" "\<And>k. k \<in> set ks \<Longrightarrow> k < K \<and> ready_batch c ! k = NULL"
    "length (ready_batch c) = K" "length (waiting_batch c) = K" "length (next_batch c) = K"
  shows "\<exists>c'. rcu_advance_classes ks w c = Some (w \<or> (\<exists>k \<in> set ks. next_batch c ! k \<noteq> NULL), c') \<and>
    length (ready_batch c') = K \<and> length (waiting_batch c') = K \<and> length (next_batch c') = K \<and>
    (\<forall>j < K. ready_batch c' ! j = (if j \<in> set ks then waiting_batch c ! j else ready_batch c ! j) \<and>
      waiting_batch c' ! j = (if j \<in> set ks then next_batch c ! j else waiting_batch c ! j) \<and>
      next_batch c' ! j = (if j \<in> set ks then NULL else next_batch c ! j)) \<and>
    (ready_updates c' \<longleftrightarrow> ready_updates c \<or> (\<exists>k \<in> set ks. waiting_batch c ! k \<noteq> NULL)) \<and>
    is_active c' = is_active c \<and> target c' = target c \<and> update_count c' = update_count c"
  using assms
proof (induction ks arbitrary: w c)
  case Nil
  then show ?case by simp
next
  case (Cons k ks)
  let ?c = "c\<lparr>ready_updates := ready_updates c \<or> waiting_batch c ! k \<noteq> NULL, next_batch := (next_batch c)[k := NULL],
      waiting_batch := (waiting_batch c)[k := next_batch c ! k], ready_batch := (ready_batch c)[k := waiting_batch c ! k]\<rparr>"
  have k: "k < K" "ready_batch c ! k = NULL" "k \<notin> set ks" using Cons.prems(1,2) by auto
  have "j < K \<and> ready_batch ?c ! j = NULL" if "j \<in> set ks" for j using Cons.prems(2) [of j] that k by (cases "j = k") auto
  then obtain c' where c': "rcu_advance_classes ks (w \<or> next_batch c ! k \<noteq> NULL) ?c =
        Some ((w \<or> next_batch c ! k \<noteq> NULL) \<or> (\<exists>k \<in> set ks. next_batch ?c ! k \<noteq> NULL), c')"
      "length (ready_batch c') = K" "length (waiting_batch c') = K" "length (next_batch c') = K"
      "\<forall>j < K. ready_batch c' ! j = (if j \<in> set ks then waiting_batch ?c ! j else ready_batch ?c ! j) \<and>
        waiting_batch c' ! j = (if j \<in> set ks then next_batch ?c ! j else waiting_batch ?c ! j) \<and>
        next_batch c' ! j = (if j \<in> set ks then NULL else next_batch ?c ! j)"
      "ready_updates c' \<longleftrightarrow> ready_updates ?c \<or> (\<exists>k \<in> set ks. waiting_batch ?c ! k \<noteq> NULL)"
      "is_active c' = is_active c" "target c' = target c" "update_count c' = update_count c"
    using Cons.IH [of ?c "w \<or> next_batch c ! k \<noteq> NULL"] Cons.prems by auto
  have e: "(\<exists>j \<in> set ks. (xs[k := y]) ! j \<noteq> NULL) \<longleftrightarrow> (\<exists>j \<in> set ks. xs ! j \<noteq> NULL)" for xs y
    using k(3) by (metis nth_list_update_neq)
  have "\<forall>j < K. ready_batch c' ! j = (if j \<in> set (k # ks) then waiting_batch c ! j else ready_batch c ! j) \<and>
      waiting_batch c' ! j = (if j \<in> set (k # ks) then next_batch c ! j else waiting_batch c ! j) \<and>
      next_batch c' ! j = (if j \<in> set (k # ks) then NULL else next_batch c ! j)"
  proof (intro allI impI)
    fix j assume "j < K"
    then show "ready_batch c' ! j = (if j \<in> set (k # ks) then waiting_batch c ! j else ready_batch c ! j) \<and>
        waiting_batch c' ! j = (if j \<in> set (k # ks) then next_batch c ! j else waiting_batch c ! j) \<and>
        next_batch c' ! j = (if j \<in> set (k # ks) then NULL else next_batch c ! j)"
      using c'(5) k Cons.prems(3,4,5) by (cases "j = k") simp_all
  qed
  moreover have "ready_updates c' \<longleftrightarrow> ready_updates c \<or> (\<exists>j \<in> set (k # ks). waiting_batch c ! j \<noteq> NULL)" using c'(6) e by auto
  moreover have "rcu_advance_classes (k # ks) w c = Some (w \<or> (\<exists>j \<in> set (k # ks). next_batch c ! j \<noteq> NULL), c')"
    using c'(1) k(2) e by (simp add: Let_def disj_assoc)
  ultimately show ?case using c'(2,3,4,7,8,9) by blast
qed

section \<open>Interrupts change nothing else\<close>

definition ipi_only :: "'a ipi_mem_scheme \<Rightarrow> 'a ipi_mem_scheme \<Rightarrow> bool" where
  "ipi_only m m' \<longleftrightarrow> (\<exists>p l. m' = m\<lparr>ipi_pending := p, ipi_line := l\<rparr>)"

lemma ipi_only_refl [simp]: "ipi_only m m"
  unfolding ipi_only_def by (intro exI [of _ "ipi_pending m"] exI [of _ "ipi_line m"]) simp

lemma ipi_only_trans: "ipi_only m m' \<Longrightarrow> ipi_only m' m'' \<Longrightarrow> ipi_only m m''"
  unfolding ipi_only_def by fastforce

lemma ipi_only_num: "ipi_only m m' \<Longrightarrow> num_cpus m' = num_cpus m"
  by (auto simp: ipi_only_def)

lemma ipi_only_pending: "ipi_only m (m\<lparr>ipi_pending := p\<rparr>)" "ipi_only m (m\<lparr>ipi_pending := p, ipi_line := l\<rparr>)"
  unfolding ipi_only_def by (intro exI [of _ p] exI [of _ "ipi_line m"], simp) blast

lemma ipi_only_send:
  assumes "cpu < num_cpus m"
  shows "\<exists>m'. ipi_one r cpu m = Some m' \<and> ipi_only m m'" "\<exists>m'. ipi_one_relaxed r cpu m = Some m' \<and> ipi_only m m'"
    "ipi_only m (snd (ipi_clear r cpu m))"
  using assms ipi_only_pending by (auto simp: ipi_simps)

lemma refresh_loop:
  "(\<And>j. bit active j \<Longrightarrow> j < num_cpus m) \<Longrightarrow> \<exists>m'. rcu_bitmap_refresh_loop active m = Some m' \<and> ipi_only m m'"
proof (induction active m rule: rcu_bitmap_refresh_loop.induct)
  case (1 active m)
  show ?case
  proof (cases "active = 0")
    case True
    then show ?thesis by (subst rcu_bitmap_refresh_loop.simps) simp
  next
    case False
    let ?c = "compiler_ctz (ucast active)"
    have "?c < num_cpus m" using "1.prems" ctz_u32(2) [OF False] by blast
    then obtain m1 where m1: "ipi_one IPI_REASON_RCU_QUIESCE ?c m = Some m1" "ipi_only m m1" using ipi_only_send(1) by blast
    have "\<exists>m'. rcu_bitmap_refresh_loop (active AND NOT (cpu_bit ?c)) m1 = Some m' \<and> ipi_only m1 m'"
      by (rule "1.IH" [OF False refl m1(1)]) (use "1.prems" ipi_only_num [OF m1(2)] in \<open>simp add: bit_and_iff\<close>)
    then show ?thesis using False m1 ipi_only_trans by (subst rcu_bitmap_refresh_loop.simps) (auto simp: Let_def)
  qed
qed

lemma notify_loop:
  "\<forall>c \<in> set cpus. c < num_cpus m \<Longrightarrow> \<exists>m'. rcu_quiesce_notify_loop this gen need cpus m = Some m' \<and> ipi_only m m'"
proof (induction cpus arbitrary: m)
  case (Cons c cpus)
  have send: "\<exists>m'. (if P then ipi_one r c m1 else Some m1) = Some m' \<and> ipi_only m m'" if "ipi_only m m1" for P r m1
    using ipi_only_send(1) [of c m1 r] ipi_only_num [OF that] ipi_only_trans [OF that] Cons.prems that by auto
  obtain m1 where m1: "(if target (rcu_cpus m c) = gen then ipi_one IPI_REASON_RCU_NOTIFY c m else Some m) = Some m1" "ipi_only m m1"
    using send [OF ipi_only_refl] by blast
  obtain m2 where m2: "(if need AND cpu_bit c \<noteq> 0 then ipi_one IPI_REASON_RCU_QUIESCE c m1 else Some m1) = Some m2" "ipi_only m m2"
    using send [OF m1(2)] by blast
  obtain m3 where m3: "rcu_quiesce_notify_loop this gen need cpus m2 = Some m3" "ipi_only m2 m3"
    using Cons.IH [of m2] Cons.prems ipi_only_num [OF m2(2)] by auto
  show ?case
  proof (cases "c = this \<or> \<not> platform_cpu_exists m c")
    case True
    then show ?thesis using Cons by simp
  next
    case False
    then show ?thesis using m1(1) m2(1) m3 ipi_only_trans [OF m2(2) m3(2)] by simp
  qed
qed simp

text \<open>What an operation of one CPU leaves alone.\<close>

definition same_shared :: "rcu_mem \<Rightarrow> rcu_mem \<Rightarrow> bool" where
  "same_shared m m' \<longleftrightarrow> num_cpus m' = num_cpus m \<and> current_period m' = current_period m \<and> active_cpus m' = active_cpus m \<and> rcu_ran m' = rcu_ran m"

lemma ipi_only_same: "ipi_only m m' \<Longrightarrow> same_shared m m' \<and> rcu_cpus m' = rcu_cpus m \<and> entry_next m' = entry_next m"
  by (auto simp: ipi_only_def same_shared_def)

lemma enqueue:
  assumes "cpu < num_cpus m" "\<And>j. bit (active_cpus m) j \<Longrightarrow> j < num_cpus m"
  shows "\<exists>m' u. rcu_enqueue cpu e k m = Some m' \<and> same_shared m m' \<and>
    entry_next m' = (entry_next m)(e := next_batch (rcu_cpus m cpu) ! k) \<and>
    rcu_cpus m' = (rcu_cpus m)(cpu := (rcu_cpus m cpu)\<lparr>update_count := u, next_batch := (next_batch (rcu_cpus m cpu))[k := e]\<rparr>)"
proof -
  let ?m = "upd_rcu cpu (\<lambda>c. c\<lparr>update_count := update_count (rcu_cpus m cpu) + 1\<rparr>) m"
  define r where "r = (if update_count (rcu_cpus m cpu) = 0
    then if waiter_count ?m = 0 then rcu_bitmap_refresh_active cpu (?m\<lparr>waiter_count := waiter_count ?m + 1\<rparr>) else Some (?m\<lparr>waiter_count := waiter_count ?m + 1\<rparr>)
    else Some ?m)"
  have "\<exists>w m1. r = Some m1 \<and> ipi_only (?m\<lparr>waiter_count := w\<rparr>) m1"
  proof -
    have "j < num_cpus (?m\<lparr>waiter_count := w\<rparr>)" if "bit (active_cpus (?m\<lparr>waiter_count := w\<rparr>) AND NOT (cpu_bit cpu)) j" for j w
      using assms(2) [of j] that by (simp add: bit_and_iff upd_rcu_def)
    then have f: "\<exists>m1. rcu_bitmap_refresh_active cpu (?m\<lparr>waiter_count := w\<rparr>) = Some m1 \<and> ipi_only (?m\<lparr>waiter_count := w\<rparr>) m1" for w
      unfolding rcu_bitmap_refresh_active_def by (intro refresh_loop)
    have z: "ipi_only (?m\<lparr>waiter_count := waiter_count ?m\<rparr>) ?m" by simp
    show ?thesis unfolding r_def using f z ipi_only_refl by (metis (full_types))
  qed
  then obtain w m1 where m1: "r = Some m1" "ipi_only (?m\<lparr>waiter_count := w\<rparr>) m1" by blast
  note i = ipi_only_same [OF m1(2)]
  define m2 where "m2 = upd_rcu cpu (\<lambda>c. c\<lparr>next_batch := (next_batch c)[k := e]\<rparr>)
    (m1\<lparr>entry_next := (entry_next m1)(e := next_batch (rcu_cpus m1 cpu) ! k)\<rparr>)"
  have "cpu < num_cpus m2" using i assms(1) by (simp add: m2_def upd_rcu_def same_shared_def)
  then obtain m3 where m3: "ipi_one_relaxed IPI_REASON_RCU_NOTIFY cpu m2 = Some m3" "ipi_only m2 m3" using ipi_only_send(2) by blast
  have "rcu_enqueue cpu e k m = Option.bind r (\<lambda>s. ipi_one_relaxed IPI_REASON_RCU_NOTIFY cpu
      (upd_rcu cpu (\<lambda>c. c\<lparr>next_batch := (next_batch c)[k := e]\<rparr>) (s\<lparr>entry_next := (entry_next s)(e := next_batch (rcu_cpus s cpu) ! k)\<rparr>)))"
    unfolding r_def rcu_enqueue_def Let_def by (rule refl)
  then have "rcu_enqueue cpu e k m = Some m3" using m1(1) m3(1) unfolding m2_def by simp
  moreover have "same_shared m m3 \<and> entry_next m3 = (entry_next m)(e := next_batch (rcu_cpus m cpu) ! k) \<and>
    rcu_cpus m3 = (rcu_cpus m)(cpu := (rcu_cpus m cpu)\<lparr>update_count := update_count (rcu_cpus m cpu) + 1, next_batch := (next_batch (rcu_cpus m cpu))[k := e]\<rparr>)"
    using i ipi_only_same [OF m3(2)] by (simp add: m2_def upd_rcu_def same_shared_def)
  ultimately show ?thesis by blast
qed

lemma request:
  assumes "cpu < num_cpus m"
  shows "\<exists>m'. rcu_bitmap_request_grace_period cpu g m = Some m' \<and> same_shared m m' \<and> entry_next m' = entry_next m \<and>
    rcu_cpus m' = (rcu_cpus m)(cpu := (rcu_cpus m cpu)\<lparr>target := g + 2\<rparr>)"
proof -
  let ?m = "upd_rcu cpu (\<lambda>c. c\<lparr>target := g + 2\<rparr>) m"
  have n: "cpu < num_cpus ?m" "cpu < num_cpus (rcu_raise_max_target (g + 2) ?m)" using assms by (simp_all add: upd_rcu_def rcu_raise_max_target_def)
  have "\<exists>m0 m'. rcu_bitmap_request_grace_period cpu g m = Some m' \<and> ipi_only m0 m' \<and> m0 \<in> {?m, rcu_raise_max_target (g + 2) ?m}"
    using ipi_only_send(2) [OF n(1), of IPI_REASON_RCU_NOTIFY] ipi_only_send(2) [OF n(2), of IPI_REASON_RCU_QUIESCE] ipi_only_refl
    unfolding rcu_bitmap_request_grace_period_def Let_def by (auto, metis ipi_only_refl)
  then show ?thesis using ipi_only_same
    by (auto simp: upd_rcu_def rcu_raise_max_target_def same_shared_def split: if_splits)
qed

section \<open>The batches\<close>

lemma batches_okD:
  assumes "batches_ok K Q m" "c < num_cpus m"
  shows "length (batch_of b (rcu_cpus m c)) = K" "k < K \<Longrightarrow> chain (entry_next m) (batch_of b (rcu_cpus m c) ! k) (Q (b, c, k))"
    "k < K \<Longrightarrow> Q (Ready_batch, c, k) \<noteq> [] \<Longrightarrow> ready_updates (rcu_cpus m c)"
  using assms unfolding batches_ok_def by blast+

lemma batches_ok_apart:
  assumes "batches_ok K Q m"
  shows "distinct (Q i)" "i \<noteq> j \<Longrightarrow> set (Q i) \<inter> set (Q j) = {}" "num_cpus m \<le> c \<or> K \<le> k \<Longrightarrow> Q (b, c, k) = []"
  using assms unfolding batches_ok_def by blast+

lemma batches_okI:
  assumes "\<And>b c. c < num_cpus m \<Longrightarrow> length (batch_of b (rcu_cpus m c)) = K \<and>
      (\<forall>k < K. chain (entry_next m) (batch_of b (rcu_cpus m c) ! k) (Q (b, c, k)))"
    "\<And>c k. c < num_cpus m \<Longrightarrow> k < K \<Longrightarrow> Q (Ready_batch, c, k) \<noteq> [] \<Longrightarrow> ready_updates (rcu_cpus m c)"
    "\<And>i. distinct (Q i)" "\<And>i j. i \<noteq> j \<Longrightarrow> set (Q i) \<inter> set (Q j) = {}"
    "\<And>b c k. num_cpus m \<le> c \<or> K \<le> k \<Longrightarrow> Q (b, c, k) = []"
  shows "batches_ok K Q m"
  unfolding batches_ok_def using assms by blast

definition drop_ready :: "nat \<Rightarrow> (batch \<times> nat \<times> nat \<Rightarrow> ptr list) \<Rightarrow> batch \<times> nat \<times> nat \<Rightarrow> ptr list" where
  "drop_ready cpu Q = (\<lambda>(b, c, k). if b = Ready_batch \<and> c = cpu then [] else Q (b, c, k))"

definition advance :: "nat \<Rightarrow> (batch \<times> nat \<times> nat \<Rightarrow> ptr list) \<Rightarrow> batch \<times> nat \<times> nat \<Rightarrow> ptr list" where
  "advance cpu Q = (\<lambda>(b, c, k). if c = cpu
     then (case b of Ready_batch \<Rightarrow> Q (Waiting_batch, c, k) | Waiting_batch \<Rightarrow> Q (Next_batch, c, k) | Next_batch \<Rightarrow> [])
     else Q (b, c, k))"

lemma apart_subfamily:
  assumes "batches_ok K Q m" and f: "\<And>i. Q' i = [] \<or> Q' i = Q (f i)" "\<And>i j. Q' i \<noteq> [] \<Longrightarrow> Q' j \<noteq> [] \<Longrightarrow> f i = f j \<Longrightarrow> i = j"
  shows "distinct (Q' i)" "i \<noteq> j \<Longrightarrow> set (Q' i) \<inter> set (Q' j) = {}"
proof -
  show "distinct (Q' i)" using f(1) [of i] batches_ok_apart(1) [OF assms(1), of "f i"] by auto
  assume ij: "i \<noteq> j"
  show "set (Q' i) \<inter> set (Q' j) = {}"
  proof (cases "Q' i = [] \<or> Q' j = []")
    case False
    then have "f i \<noteq> f j" "Q' i = Q (f i)" "Q' j = Q (f j)" using f(2) [of i j] f(1) [of i] f(1) [of j] ij by auto
    then show ?thesis using batches_ok_apart(2) [OF assms(1), of "f i" "f j"] by simp
  qed auto
qed

lemma drop_ready_ok:
  assumes ok: "batches_ok K Q m" and c: "cpu < num_cpus m" and r: "ran_ready K cpu runs m m'"
  shows "batches_ok K (drop_ready cpu Q) m'"
proof -
  have f: "num_cpus m' = num_cpus m" "entry_next m' = entry_next m" "\<And>d. d \<noteq> cpu \<Longrightarrow> rcu_cpus m' d = rcu_cpus m d"
      "waiting_batch (rcu_cpus m' cpu) = waiting_batch (rcu_cpus m cpu)" "next_batch (rcu_cpus m' cpu) = next_batch (rcu_cpus m cpu)"
      "ready_batch (rcu_cpus m' cpu) = replicate K NULL"
    using r by (auto simp: ran_ready_def Let_def)
  have "length (batch_of b (rcu_cpus m' d)) = K \<and> (\<forall>k < K. chain (entry_next m') (batch_of b (rcu_cpus m' d) ! k) (drop_ready cpu Q (b, d, k)))"
    if d: "d < num_cpus m" for b d
    using batches_okD(1,2) [OF ok d, where b = b] f by (cases "d = cpu"; cases b) (auto simp: drop_ready_def)
  moreover have "ready_updates (rcu_cpus m' d)" if "d < num_cpus m" "k < K" "drop_ready cpu Q (Ready_batch, d, k) \<noteq> []" for d k
    using that batches_okD(3) [OF ok that(1,2)] f(3) by (auto simp: drop_ready_def split: if_splits)
  moreover have "distinct (drop_ready cpu Q i)" "i \<noteq> j \<Longrightarrow> set (drop_ready cpu Q i) \<inter> set (drop_ready cpu Q j) = {}" for i j
    by (rule apart_subfamily [OF ok, of "drop_ready cpu Q" id]; auto simp: drop_ready_def split: if_splits)+
  moreover have "drop_ready cpu Q (b, d, k) = []" if "num_cpus m \<le> d \<or> K \<le> k" for b d k
    using batches_ok_apart(3) [OF ok that, of b] by (simp add: drop_ready_def)
  ultimately show ?thesis using f(1) by (intro batches_okI) simp_all
qed

lemma advance_ok:
  assumes ok: "batches_ok K (drop_ready cpu Q) m" and c: "cpu < num_cpus m"
    and f: "num_cpus m' = num_cpus m" "entry_next m' = entry_next m" "\<And>d. d \<noteq> cpu \<Longrightarrow> rcu_cpus m' d = rcu_cpus m d"
      "length (ready_batch (rcu_cpus m' cpu)) = K" "length (waiting_batch (rcu_cpus m' cpu)) = K" "length (next_batch (rcu_cpus m' cpu)) = K"
      "\<And>j. j < K \<Longrightarrow> ready_batch (rcu_cpus m' cpu) ! j = waiting_batch (rcu_cpus m cpu) ! j"
      "\<And>j. j < K \<Longrightarrow> waiting_batch (rcu_cpus m' cpu) ! j = next_batch (rcu_cpus m cpu) ! j"
      "\<And>j. j < K \<Longrightarrow> next_batch (rcu_cpus m' cpu) ! j = NULL"
      "\<And>j. j < K \<Longrightarrow> waiting_batch (rcu_cpus m cpu) ! j \<noteq> NULL \<Longrightarrow> ready_updates (rcu_cpus m' cpu)"
  shows "batches_ok K (advance cpu Q) m'"
proof -
  have chains: "chain (entry_next m) (batch_of b (rcu_cpus m cpu) ! k) (Q (b, cpu, k))" if "b \<noteq> Ready_batch" "k < K" for b k
    using batches_okD(2) [OF ok c that(2), where b = b] that(1) by (simp add: drop_ready_def)
  have "length (batch_of b (rcu_cpus m' d)) = K \<and> (\<forall>k < K. chain (entry_next m') (batch_of b (rcu_cpus m' d) ! k) (advance cpu Q (b, d, k)))"
    if d: "d < num_cpus m" for b d
  proof (cases "d = cpu")
    case True
    then show ?thesis using f chains [of Waiting_batch] chains [of Next_batch] by (cases b) (auto simp: advance_def)
  next
    case False
    then show ?thesis using batches_okD(1,2) [OF ok d, where b = b] f(2,3) by (auto simp: advance_def drop_ready_def)
  qed
  moreover have "ready_updates (rcu_cpus m' d)" if d: "d < num_cpus m" "k < K" "advance cpu Q (Ready_batch, d, k) \<noteq> []" for d k
  proof (cases "d = cpu")
    case True
    then have "waiting_batch (rcu_cpus m cpu) ! k \<noteq> NULL" using chains [of Waiting_batch k] d by (auto simp: advance_def chain_NULL)
    then show ?thesis using f(10) d(2) True by blast
  next
    case False
    then show ?thesis using batches_okD(3) [OF ok d(1,2)] d(3) f(3) by (auto simp: advance_def drop_ready_def)
  qed
  moreover have "distinct (advance cpu Q i)" "i \<noteq> j \<Longrightarrow> set (advance cpu Q i) \<inter> set (advance cpu Q j) = {}" for i j
    by (rule apart_subfamily [OF ok, of "advance cpu Q" "\<lambda>(b, c, k). if c = cpu then (if b = Ready_batch then Waiting_batch else Next_batch, c, k) else (b, c, k)"];
        auto simp: advance_def drop_ready_def split: if_splits batch.splits prod.splits)+
  moreover have "advance cpu Q (b, d, k) = []" if "num_cpus m \<le> d \<or> K \<le> k" for b d k
    using batches_ok_apart(3) [OF ok that, of b] batches_ok_apart(3) [OF ok that, of Waiting_batch] batches_ok_apart(3) [OF ok that, of Next_batch]
    by (auto simp: advance_def drop_ready_def split: batch.splits if_splits)
  ultimately show ?thesis using f(1) by (intro batches_okI) simp_all
qed

end
