(* ===== verification/Rcu_Safety.thy ===== *)
theory Rcu_Safety
  imports Rcu_System
begin

text \<open>
  Grace periods protect readers: as long as no CPU becomes active between the look at the active set
  and the exchange that starts a grace period, an update does not run before all critical sections
  that were running when it was enqueued have ended. Without this assumption it can.
\<close>

section \<open>Invariant\<close>

definition cpus_ok :: "rcu_sys \<Rightarrow> bool" where
  "cpus_ok S \<longleftrightarrow> num_cpus (mem S) \<le> 32 \<and>
    (\<forall>c. 0 < depth S c \<longrightarrow> c < num_cpus (mem S) \<and> is_active (rcu_cpus (mem S) c) \<and> pc S c = Ready) \<and>
    (\<forall>c < num_cpus (mem S). is_active (rcu_cpus (mem S) c) \<longrightarrow> bit (active_cpus (mem S)) c) \<and>
    (\<forall>j. bit (active_cpus (mem S)) j \<longrightarrow> j < num_cpus (mem S)) \<and>
    (\<forall>c. pc S c \<noteq> Ready \<longrightarrow> c < num_cpus (mem S)) \<and>
    (\<forall>e x. x \<in> readers S e \<longrightarrow> 0 < depth S x)"

text \<open>A CPU between look and exchange would start a period that waits for all active CPUs.\<close>

definition window_ok :: "rcu_sys \<Rightarrow> bool" where
  "window_ok S \<longleftrightarrow> (\<forall>d p b q. pc S d = Looked p b q \<longrightarrow>
    (if b then generation q = generation p + 1 \<and> (\<forall>x. bit (cpu_bitmap p) x \<longrightarrow> x = d) \<and>
       (\<forall>x < num_cpus (mem S). is_active (rcu_cpus (mem S) x) \<longrightarrow> bit (cpu_bitmap q) x)
     else generation q = generation p \<and> (\<forall>x. bit (cpu_bitmap q) x \<longleftrightarrow> bit (cpu_bitmap p) x \<and> x \<noteq> d)))"

text \<open>
  The generation that a CPU waits for, also while it is about to store it. The true generation and the
  true targets are natural numbers.
\<close>

definition promised :: "rcu_sys \<Rightarrow> nat \<Rightarrow> u32" where
  "promised S c = (case pc S c of Requesting g \<Rightarrow> g + 2 | _ \<Rightarrow> target (rcu_cpus (mem S) c))"

definition waiting_ok :: "nat \<Rightarrow> nat \<Rightarrow> rcu_sys \<Rightarrow> nat \<Rightarrow> ptr \<Rightarrow> bool" where
  "waiting_ok G t S c e \<longleftrightarrow> t \<le> G + 2 \<and> promised S c = of_nat t \<and>
    (G + 1 = t \<longrightarrow> (\<forall>x \<in> readers S e. bit (cpu_bitmap (current_period (mem S))) x)) \<and> (t \<le> G \<longrightarrow> readers S e = {})"

definition grace_ok :: "nat \<Rightarrow> (nat \<Rightarrow> nat) \<Rightarrow> (batch \<times> nat \<times> nat \<Rightarrow> ptr list) \<Rightarrow> rcu_sys \<Rightarrow> bool" where
  "grace_ok G T Q S \<longleftrightarrow> generation (current_period (mem S)) = of_nat G \<and>
    (\<forall>c k. \<forall>e \<in> set (Q (Ready_batch, c, k)). readers S e = {}) \<and>
    (\<forall>c k. \<forall>e \<in> set (Q (Waiting_batch, c, k)). waiting_ok G (T c) S c e)"

definition rcu_ok :: "nat \<Rightarrow> (batch \<times> nat \<times> nat \<Rightarrow> ptr list) \<Rightarrow> nat \<Rightarrow> (nat \<Rightarrow> nat) \<Rightarrow> rcu_sys \<Rightarrow> bool" where
  "rcu_ok K Q G T S \<longleftrightarrow> batches_ok K Q (mem S) \<and> (\<forall>i. set (Q i) \<subseteq> queued S) \<and> cpus_ok S \<and> window_ok S \<and> grace_ok G T Q S"

lemma cpus_okD:
  assumes "cpus_ok S"
  shows "num_cpus (mem S) \<le> 32" "0 < depth S c \<Longrightarrow> c < num_cpus (mem S)" "0 < depth S c \<Longrightarrow> is_active (rcu_cpus (mem S) c)"
    "0 < depth S c \<Longrightarrow> pc S c = Ready" "c < num_cpus (mem S) \<Longrightarrow> is_active (rcu_cpus (mem S) c) \<Longrightarrow> bit (active_cpus (mem S)) c"
    "bit (active_cpus (mem S)) j \<Longrightarrow> j < num_cpus (mem S)" "pc S c \<noteq> Ready \<Longrightarrow> c < num_cpus (mem S)" "x \<in> readers S e \<Longrightarrow> 0 < depth S x"
  using assms unfolding cpus_ok_def by blast+

lemma cpus_okI:
  assumes "num_cpus (mem S) \<le> 32" "\<And>c. 0 < depth S c \<Longrightarrow> c < num_cpus (mem S) \<and> is_active (rcu_cpus (mem S) c) \<and> pc S c = Ready"
    "\<And>c. c < num_cpus (mem S) \<Longrightarrow> is_active (rcu_cpus (mem S) c) \<Longrightarrow> bit (active_cpus (mem S)) c"
    "\<And>j. bit (active_cpus (mem S)) j \<Longrightarrow> j < num_cpus (mem S)" "\<And>c. pc S c \<noteq> Ready \<Longrightarrow> c < num_cpus (mem S)"
    "\<And>x e. x \<in> readers S e \<Longrightarrow> 0 < depth S x"
  shows "cpus_ok S"
  unfolding cpus_ok_def using assms by blast

lemma window_okD:
  assumes "window_ok S"
  shows "pc S d = Looked p True q \<Longrightarrow> generation q = generation p + 1" "pc S d = Looked p True q \<Longrightarrow> bit (cpu_bitmap p) x \<Longrightarrow> x = d"
    "pc S d = Looked p True q \<Longrightarrow> x < num_cpus (mem S) \<Longrightarrow> is_active (rcu_cpus (mem S) x) \<Longrightarrow> bit (cpu_bitmap q) x"
    "pc S d = Looked p False q \<Longrightarrow> generation q = generation p" "pc S d = Looked p False q \<Longrightarrow> bit (cpu_bitmap q) x \<longleftrightarrow> bit (cpu_bitmap p) x \<and> x \<noteq> d"
  using assms unfolding window_ok_def by (metis (full_types))+

lemma window_okI:
  assumes "\<And>d p q. pc S d = Looked p True q \<Longrightarrow> generation q = generation p + 1 \<and> (\<forall>x. bit (cpu_bitmap p) x \<longrightarrow> x = d) \<and>
      (\<forall>x < num_cpus (mem S). is_active (rcu_cpus (mem S) x) \<longrightarrow> bit (cpu_bitmap q) x)"
    "\<And>d p q. pc S d = Looked p False q \<Longrightarrow> generation q = generation p \<and> (\<forall>x. bit (cpu_bitmap q) x \<longleftrightarrow> bit (cpu_bitmap p) x \<and> x \<noteq> d)"
  shows "window_ok S"
  unfolding window_ok_def using assms by (metis (full_types))

lemma grace_okD:
  assumes "grace_ok G T Q S"
  shows "generation (current_period (mem S)) = of_nat G" "e \<in> set (Q (Ready_batch, c, k)) \<Longrightarrow> readers S e = {}"
    "e \<in> set (Q (Waiting_batch, c, k)) \<Longrightarrow> waiting_ok G (T c) S c e"
  using assms unfolding grace_ok_def by blast+

lemma grace_okI:
  assumes "generation (current_period (mem S)) = of_nat G" "\<And>c k e. e \<in> set (Q (Ready_batch, c, k)) \<Longrightarrow> readers S e = {}"
    "\<And>c k e. e \<in> set (Q (Waiting_batch, c, k)) \<Longrightarrow> waiting_ok G (T c) S c e"
  shows "grace_ok G T Q S"
  unfolding grace_ok_def using assms by blast

lemma rcu_okD:
  assumes "rcu_ok K Q G T S"
  shows "batches_ok K Q (mem S)" "set (Q i) \<subseteq> queued S" "cpus_ok S" "window_ok S" "grace_ok G T Q S"
  using assms unfolding rcu_ok_def by blast+

lemma rcu_okI:
  "batches_ok K Q (mem S) \<Longrightarrow> (\<And>i. set (Q i) \<subseteq> queued S) \<Longrightarrow> cpus_ok S \<Longrightarrow> window_ok S \<Longrightarrow> grace_ok G T Q S \<Longrightarrow> rcu_ok K Q G T S"
  unfolding rcu_ok_def by blast

section \<open>Steps that leave the batches alone\<close>

text \<open>Fewer readers, the same or an equivalent period.\<close>

lemma promised_same:
  "pc S' c = pc S c \<Longrightarrow> target (rcu_cpus (mem S') c) = target (rcu_cpus (mem S) c) \<Longrightarrow> promised S' c = promised S c"
  by (simp add: promised_def split: rcu_pc.split)

lemma waiting_ok_mono:
  assumes "waiting_ok G t S c e" "promised S' c = promised S c" "readers S' e \<subseteq> readers S e"
    "\<And>x. x \<in> readers S' e \<Longrightarrow> bit (cpu_bitmap (current_period (mem S))) x \<Longrightarrow> bit (cpu_bitmap (current_period (mem S'))) x"
  shows "waiting_ok G t S' c e"
  using assms unfolding waiting_ok_def by auto

lemma grace_ok_mono:
  assumes "grace_ok G T Q S" "generation (current_period (mem S')) = generation (current_period (mem S))"
    "\<And>c. promised S' c = promised S c" "\<And>i e. e \<in> set (Q i) \<Longrightarrow> readers S' e \<subseteq> readers S e"
    "\<And>x e. x \<in> readers S' e \<Longrightarrow> bit (cpu_bitmap (current_period (mem S))) x \<Longrightarrow> bit (cpu_bitmap (current_period (mem S'))) x"
  shows "grace_ok G T Q S'"
proof (rule grace_okI)
  show "generation (current_period (mem S')) = of_nat G" using grace_okD(1) [OF assms(1)] assms(2) by simp
  show "readers S' e = {}" if "e \<in> set (Q (Ready_batch, c, k))" for c k e
    using grace_okD(2) [OF assms(1) that] assms(4) [OF that] by blast
  show "waiting_ok G (T c) S' c e" if "e \<in> set (Q (Waiting_batch, c, k))" for c k e
    by (rule waiting_ok_mono [OF grace_okD(3) [OF assms(1) that] assms(3) assms(4) [OF that] assms(5)])
qed

lemma window_ok_mono:
  assumes w: "window_ok S" and pc: "\<And>d p b q. pc S' d = Looked p b q \<Longrightarrow> pc S d = Looked p b q"
    and m: "num_cpus (mem S') = num_cpus (mem S)" "\<And>x. is_active (rcu_cpus (mem S') x) \<Longrightarrow> is_active (rcu_cpus (mem S) x)"
  shows "window_ok S'"
proof (rule window_okI)
  fix d p q assume "pc S' d = Looked p True q"
  from window_okD(1-3) [OF w pc [OF this]]
  show "generation q = generation p + 1 \<and> (\<forall>x. bit (cpu_bitmap p) x \<longrightarrow> x = d) \<and>
      (\<forall>x < num_cpus (mem S'). is_active (rcu_cpus (mem S') x) \<longrightarrow> bit (cpu_bitmap q) x)" using m by simp
next
  fix d p q assume "pc S' d = Looked p False q"
  from window_okD(4,5) [OF w pc [OF this]]
  show "generation q = generation p \<and> (\<forall>x. bit (cpu_bitmap q) x \<longleftrightarrow> bit (cpu_bitmap p) x \<and> x \<noteq> d)" by simp
qed

lemma batches_ok_cong:
  assumes "batches_ok K Q m" "num_cpus m' = num_cpus m" "entry_next m' = entry_next m"
    "\<And>c. ready_batch (rcu_cpus m' c) = ready_batch (rcu_cpus m c) \<and> waiting_batch (rcu_cpus m' c) = waiting_batch (rcu_cpus m c) \<and>
      next_batch (rcu_cpus m' c) = next_batch (rcu_cpus m c) \<and> ready_updates (rcu_cpus m' c) = ready_updates (rcu_cpus m c)"
  shows "batches_ok K Q m'"
proof -
  have "batch_of b (rcu_cpus m' c) = batch_of b (rcu_cpus m c)" for b c using assms(4) by (cases b) simp_all
  then show ?thesis using assms unfolding batches_ok_def by simp
qed

lemma read_start_ok:
  assumes ok: "rcu_ok K Q G T S" and en: "rcu_enabled (Read_start c) S" and S': "rcu_exec h (Read_start c) S = Some S'"
  shows "rcu_ok K Q G T S'"
proof -
  have e: "S' = S\<lparr>depth := (depth S)(c := depth S c + 1)\<rparr>" using S' en by (simp add: rcu_read_start_def)
  note c = cpus_okD [OF rcu_okD(3) [OF ok]]
  have "cpus_ok S'"
  proof (rule cpus_okI)
    show "x < num_cpus (mem S') \<and> is_active (rcu_cpus (mem S') x) \<and> pc S' x = Ready" if "0 < depth S' x" for x
      using that c(2-4) [of x] en by (cases "x = c") (simp_all add: e)
    show "0 < depth S' x" if "x \<in> readers S' e'" for x e' using that c(8) [of x e'] by (simp add: e)
  qed (use c(1,5-7) in \<open>simp_all add: e\<close>)
  moreover have "grace_ok G T Q S'" by (rule grace_ok_mono [OF rcu_okD(5) [OF ok]]) (auto simp: e promised_def split: rcu_pc.split)
  moreover have "window_ok S'" by (rule window_ok_mono [OF rcu_okD(4) [OF ok]]) (simp_all add: e)
  ultimately show ?thesis using rcu_okD(1,2) [OF ok] by (intro rcu_okI) (simp_all add: e)
qed

lemma read_finish_ok:
  assumes ok: "rcu_ok K Q G T S" and en: "rcu_enabled (Read_finish c) S" and S': "rcu_exec h (Read_finish c) S = Some S'"
  shows "rcu_ok K Q G T S'"
proof -
  have e: "S' = S\<lparr>depth := (depth S)(c := depth S c - 1), readers := (if depth S c = 1 then (\<lambda>e. readers S e - {c}) else readers S)\<rparr>"
    using S' by simp
  have "cpus_ok S'"
  proof (rule cpus_okI)
    fix x e' assume x: "x \<in> readers S' e'"
    then have "x \<in> readers S e'" "x = c \<longrightarrow> depth S c \<noteq> 1" by (auto simp: e split: if_splits)
    then show "0 < depth S' x" using cpus_okD(8) [OF rcu_okD(3) [OF ok], of x e'] by (cases "x = c") (auto simp: e)
  qed (use cpus_okD [OF rcu_okD(3) [OF ok]] in \<open>auto simp: e split: if_splits\<close>)
  moreover have "grace_ok G T Q S'" by (rule grace_ok_mono [OF rcu_okD(5) [OF ok]]) (auto simp: e promised_def split: rcu_pc.split)
  moreover have "window_ok S'" by (rule window_ok_mono [OF rcu_okD(4) [OF ok]]) (simp_all add: e)
  ultimately show ?thesis using rcu_okD(1,2) [OF ok] by (intro rcu_okI) (simp_all add: e)
qed

lemma activate_simps:
  "num_cpus (rcu_bitmap_activate_cpu c m) = num_cpus m" "current_period (rcu_bitmap_activate_cpu c m) = current_period m"
  "is_active (rcu_cpus (rcu_bitmap_activate_cpu c m) x) \<longleftrightarrow> is_active (rcu_cpus m x) \<or> x = c"
  "bit (active_cpus (rcu_bitmap_activate_cpu c m)) j \<longleftrightarrow> bit (active_cpus m) j \<or> \<not> is_active (rcu_cpus m c) \<and> j = c \<and> c < 32"
  "target (rcu_cpus (rcu_bitmap_activate_cpu c m) x) = target (rcu_cpus m x)"
  by (auto simp: rcu_bitmap_activate_cpu_def upd_rcu_def bit_or_iff)

lemma leave_simps:
  "num_cpus (rcu_leave_active_set c m) = num_cpus m" "current_period (rcu_leave_active_set c m) = current_period m"
  "is_active (rcu_cpus (rcu_leave_active_set c m) x) \<longleftrightarrow> is_active (rcu_cpus m x) \<and> x \<noteq> c"
  "bit (active_cpus (rcu_leave_active_set c m)) j \<longleftrightarrow> bit (active_cpus m) j \<and> \<not> (is_active (rcu_cpus m c) \<and> j = c)"
  "target (rcu_cpus (rcu_leave_active_set c m) x) = target (rcu_cpus m x)"
  using bit_imp_le_length [of "active_cpus m" j]
  by (auto simp: rcu_leave_active_set_def upd_rcu_def bit_and_iff bit_not_iff)

lemma activate_ok:
  assumes ok: "rcu_ok K Q G T S" and en: "rcu_enabled (Activate c) S" "calm (Activate c) S" and S': "rcu_exec h (Activate c) S = Some S'"
  shows "rcu_ok K Q G T S'"
proof -
  note c = cpus_okD [OF rcu_okD(3) [OF ok]]
  have e: "S' = S\<lparr>mem := rcu_bitmap_activate_cpu c (mem S)\<rparr>" using S' by simp
  have "cpus_ok S'"
  proof (rule cpus_okI)
    show "x < num_cpus (mem S') \<and> is_active (rcu_cpus (mem S') x) \<and> pc S' x = Ready" if "0 < depth S' x" for x
      using that c(2-4) [of x] by (simp add: e activate_simps)
    show "bit (active_cpus (mem S')) x" if "x < num_cpus (mem S')" "is_active (rcu_cpus (mem S') x)" for x
      using that c(1) c(5) [of x] by (auto simp: e activate_simps)
    show "x < num_cpus (mem S')" if "bit (active_cpus (mem S')) x" for x
      using that en c(6) [of x] by (auto simp: e activate_simps)
  qed (use c(1,7,8) in \<open>simp_all add: e activate_simps\<close>)
  moreover have "grace_ok G T Q S'"
    by (rule grace_ok_mono [OF rcu_okD(5) [OF ok]]) (auto simp: e promised_def activate_simps split: rcu_pc.split)
  moreover have "window_ok S'"
  proof (rule window_okI)
    fix d p q assume "pc S' d = Looked p True q"
    moreover from this have "d < num_cpus (mem S)" using c(7) [of d] by (simp add: e)
    ultimately show "generation q = generation p + 1 \<and> (\<forall>x. bit (cpu_bitmap p) x \<longrightarrow> x = d) \<and>
        (\<forall>x < num_cpus (mem S'). is_active (rcu_cpus (mem S') x) \<longrightarrow> bit (cpu_bitmap q) x)"
      using en(2) by (simp add: e)
  qed (use window_okD(4,5) [OF rcu_okD(4) [OF ok]] in \<open>auto simp: e\<close>)
  moreover have "batches_ok K Q (mem S')"
    by (rule batches_ok_cong [OF rcu_okD(1) [OF ok]]) (auto simp: e rcu_bitmap_activate_cpu_def upd_rcu_def)
  ultimately show ?thesis using rcu_okD(2) [OF ok] by (intro rcu_okI) (simp_all add: e)
qed

lemma leave_ok:
  assumes ok: "rcu_ok K Q G T S" and en: "rcu_enabled (Leave c) S" and S': "rcu_exec h (Leave c) S = Some S'"
  shows "rcu_ok K Q G T S'"
proof -
  note c = cpus_okD [OF rcu_okD(3) [OF ok]]
  have e: "S' = S\<lparr>mem := rcu_leave_active_set c (mem S)\<rparr>" using S' by simp
  have "cpus_ok S'" using c en
    by (intro cpus_okI) (auto simp: e leave_simps)
  moreover have "grace_ok G T Q S'"
    by (rule grace_ok_mono [OF rcu_okD(5) [OF ok]]) (auto simp: e promised_def leave_simps split: rcu_pc.split)
  moreover have "window_ok S'" by (rule window_ok_mono [OF rcu_okD(4) [OF ok]]) (simp_all add: e leave_simps)
  moreover have "batches_ok K Q (mem S')"
    by (rule batches_ok_cong [OF rcu_okD(1) [OF ok]]) (auto simp: e rcu_leave_active_set_def upd_rcu_def)
  ultimately show ?thesis using rcu_okD(2) [OF ok] by (intro rcu_okI) (simp_all add: e)
qed

text \<open>
  A change of the program counter and of the target of a CPU outside of critical sections, other than to
  the window.
\<close>

lemma local_ok:
  assumes ok: "rcu_ok K Q G T S" and c: "c < num_cpus (mem S)" "depth S c = 0" and v: "\<And>p b q. v \<noteq> Looked p b q"
    and m: "same_shared (mem S) m" "entry_next m = entry_next (mem S)" "rcu_cpus m = (rcu_cpus (mem S))(c := (rcu_cpus (mem S) c)\<lparr>target := t\<rparr>)"
    and p: "promised (set_pc c v (S\<lparr>mem := m\<rparr>)) c = promised S c"
  shows "rcu_ok K Q G T (set_pc c v (S\<lparr>mem := m\<rparr>))" (is "rcu_ok _ _ _ _ ?S")
proof -
  have e: "promised ?S d = promised S d" for d
    using p by (cases "d = c", simp) (rule promised_same; simp add: set_pc_def m)
  have sh: "num_cpus m = num_cpus (mem S)" "current_period m = current_period (mem S)" "active_cpus m = active_cpus (mem S)"
    using m(1) by (simp_all add: same_shared_def)
  have "cpus_ok ?S" using cpus_okD [OF rcu_okD(3) [OF ok]] c
    by (intro cpus_okI) (auto simp: set_pc_def sh m split: if_splits)
  moreover have "grace_ok G T Q ?S" by (rule grace_ok_mono [OF rcu_okD(5) [OF ok] _ e]) (simp_all add: set_pc_def sh)
  moreover have "window_ok ?S"
    by (rule window_ok_mono [OF rcu_okD(4) [OF ok]]) (use v in \<open>auto simp: set_pc_def sh m split: if_splits\<close>)
  moreover have "batches_ok K Q m" by (rule batches_ok_cong [OF rcu_okD(1) [OF ok]]) (simp_all add: sh m)
  ultimately show ?thesis using rcu_okD(2) [OF ok] by (intro rcu_okI) (simp_all add: set_pc_def)
qed

lemma same_target: "rcu_cpus m' = rcu_cpus m \<Longrightarrow> rcu_cpus m' = (rcu_cpus m)(c := (rcu_cpus m c)\<lparr>target := target (rcu_cpus m c)\<rparr>)"
  by (rule ext) simp

lemma pc_ok:
  assumes ok: "rcu_ok K Q G T S" and c: "c < num_cpus (mem S)" "depth S c = 0" and v: "\<And>p b q. v \<noteq> Looked p b q"
    and p: "promised (set_pc c v S) c = promised S c"
  shows "rcu_ok K Q G T (set_pc c v S)"
  using local_ok [OF ok c v _ _ same_target, of "mem S"] p by (simp add: same_shared_def)

lemma load_ok:
  assumes ok: "rcu_ok K Q G T S" and en: "rcu_enabled (Load c) S" and S': "rcu_exec h (Load c) S = Some S'"
  shows "rcu_ok K Q G T S'"
  using en by (simp add: option.inject [THEN iffD1, OF S' [unfolded rcu_exec.simps], symmetric])
    (rule pc_ok [OF ok], simp_all add: promised_def set_pc_def)

lemma quiesce_next:
  assumes "rcu_quiesce_next c p m = (b, q)"
  shows "if b then generation q = generation p + 1 \<and> (\<forall>x. bit (cpu_bitmap p) x \<longrightarrow> x = c) \<and> cpu_bitmap q = active_cpus m
    else generation q = generation p \<and> cpu_bitmap q = cpu_bitmap p AND NOT (cpu_bit c)"
proof -
  have "x = c" if z: "cpu_bitmap p AND NOT (cpu_bit c) = 0" and x: "bit (cpu_bitmap p) x" for x
  proof (rule ccontr)
    assume "x \<noteq> c"
    then have "bit (cpu_bitmap p AND NOT (cpu_bit c)) x" using x bit_imp_le_length [OF x] by (simp add: bit_and_iff bit_not_iff)
    then show False using z by simp
  qed
  then show ?thesis using assms by (auto simp: rcu_quiesce_next_def Let_def split: if_splits)
qed

lemma look_ok:
  assumes ok: "rcu_ok K Q G T S" and en: "rcu_enabled (Look c) S" and S': "rcu_exec h (Look c) S = Some S'"
  shows "rcu_ok K Q G T S'"
proof -
  note c = cpus_okD [OF rcu_okD(3) [OF ok]] and w = window_okD [OF rcu_okD(4) [OF ok]]
  obtain p where p: "pc S c = Loaded p" using en by auto
  obtain b q where q: "rcu_quiesce_next c p (mem S) = (b, q)" by fastforce
  have e: "S' = S\<lparr>pc := (pc S)(c := Looked p b q)\<rparr>" using S' p q by (simp add: set_pc_def)
  have n: "c < num_cpus (mem S)" "depth S c = 0" using c(4,7) [of c] p by auto
  note k = quiesce_next [OF q]
  have "cpus_ok S'" using c n by (intro cpus_okI) (auto simp: e split: if_splits)
  moreover have "grace_ok G T Q S'" by (rule grace_ok_mono [OF rcu_okD(5) [OF ok]]) (use p in \<open>auto simp: e promised_def split: rcu_pc.split\<close>)
  moreover have "window_ok S'"
  proof (rule window_okI)
    fix d p' q' assume d: "pc S' d = Looked p' True q'"
    show "generation q' = generation p' + 1 \<and> (\<forall>x. bit (cpu_bitmap p') x \<longrightarrow> x = d) \<and>
        (\<forall>x < num_cpus (mem S'). is_active (rcu_cpus (mem S') x) \<longrightarrow> bit (cpu_bitmap q') x)"
      using d k w(1,2,3) [of d p' q'] c(5) by (cases "d = c") (auto simp: e split: if_splits)
  next
    fix d p' q' assume d: "pc S' d = Looked p' False q'"
    have "bit (cpu_bitmap p AND NOT (cpu_bit c)) x \<longleftrightarrow> bit (cpu_bitmap p) x \<and> x \<noteq> c" for x
      using n(1) c(1) bit_imp_le_length [of "cpu_bitmap p" x] by (auto simp: bit_and_iff bit_not_iff)
    then show "generation q' = generation p' \<and> (\<forall>x. bit (cpu_bitmap q') x \<longleftrightarrow> bit (cpu_bitmap p') x \<and> x \<noteq> d)"
      using d k w(4,5) [of d p' q'] by (cases "d = c") (auto simp: e split: if_splits)
  qed
  ultimately show ?thesis using rcu_okD(1,2) [OF ok] by (intro rcu_okI) (simp_all add: e)
qed

section \<open>A new period\<close>

lemma period_grace:
  assumes ok: "rcu_ok K Q G T S" and p: "pc S c = Looked (current_period (mem S)) True q"
  shows "grace_ok (G + 1) T Q (S\<lparr>mem := (mem S)\<lparr>current_period := q\<rparr>\<rparr>)" (is "grace_ok _ _ _ ?S")
proof (rule grace_okI)
  note c = cpus_okD [OF rcu_okD(3) [OF ok]] and w = window_okD [OF rcu_okD(4) [OF ok]] and g = grace_okD [OF rcu_okD(5) [OF ok]]
  show "generation (current_period (mem ?S)) = of_nat (G + 1)" using w(1) [OF p] g(1) by simp
  show "readers ?S e = {}" if "e \<in> set (Q (Ready_batch, d, k))" for d k e using g(2) [OF that] by simp
  fix d k e assume "e \<in> set (Q (Waiting_batch, d, k))"
  then have wait: "waiting_ok G (T d) S d e" by (rule g(3))
  have "bit (cpu_bitmap q) x" if "x \<in> readers S e" for x
    by (rule w(3) [OF p c(2) c(3)]; rule c(8) [OF that])
  moreover have "readers S e = {}" if "T d = G + 1"
  proof -
    have "x = c" "0 < depth S x" if "x \<in> readers S e" for x
      using that \<open>T d = G + 1\<close> wait w(2) [OF p, of x] c(8) [of x e] by (auto simp: waiting_ok_def)
    moreover have "depth S c = 0" using c(4) [of c] p by auto
    ultimately show ?thesis by fastforce
  qed
  moreover have "promised ?S d = promised S d" by (rule promised_same) simp_all
  ultimately show "waiting_ok (G + 1) (T d) ?S d e" using wait by (auto simp: waiting_ok_def le_Suc_eq)
qed

lemma period_ok:
  assumes ok: "rcu_ok K Q G T S" and p: "pc S c = Looked (current_period (mem S)) b q"
  shows "rcu_ok K Q (if b then G + 1 else G) T (S\<lparr>mem := (mem S)\<lparr>current_period := q\<rparr>\<rparr>)" (is "rcu_ok _ _ _ _ ?S")
proof -
  note c = cpus_okD [OF rcu_okD(3) [OF ok]] and w = window_okD [OF rcu_okD(4) [OF ok]]
  have "grace_ok (if b then G + 1 else G) T Q ?S"
  proof (cases b)
    case True
    then show ?thesis using period_grace [OF ok] p by simp
  next
    case False
    then have p: "pc S c = Looked (current_period (mem S)) False q" using p by simp
    have "x \<noteq> c" if "x \<in> readers S e" for x e using c(8) [OF that] c(4) [of c] p by auto
    then show ?thesis using False w(4,5) [OF p]
      by (simp, intro grace_ok_mono [OF rcu_okD(5) [OF ok]]) (auto intro!: promised_same)
  qed
  moreover have "cpus_ok ?S" using c by (intro cpus_okI) simp_all
  moreover have "window_ok ?S" by (rule window_ok_mono [OF rcu_okD(4) [OF ok]]) simp_all
  moreover have "batches_ok K Q (mem ?S)" by (rule batches_ok_cong [OF rcu_okD(1) [OF ok]]) simp_all
  ultimately show ?thesis using rcu_okD(2) [OF ok] by (intro rcu_okI) simp_all
qed

lemma exchange_ok:
  assumes ok: "rcu_ok K Q G T S" and en: "rcu_enabled (Exchange c) S" and S': "rcu_exec h (Exchange c) S = Some S'"
  shows "\<exists>G'. rcu_ok K Q G' T S'"
proof -
  obtain p b q where p: "pc S c = Looked p b q" using en by auto
  have n: "c < num_cpus (mem S)" "depth S c = 0"
    using cpus_okD(4,7) [OF rcu_okD(3) [OF ok], of c] p by auto
  show ?thesis
  proof (cases "current_period (mem S) = p")
    case True
    then have "rcu_ok K Q (if b then G + 1 else G) T (S\<lparr>mem := (mem S)\<lparr>current_period := q\<rparr>\<rparr>)" using period_ok [OF ok] p by simp
    moreover have "S' = set_pc c (if b then Started q else Ready) (S\<lparr>mem := (mem S)\<lparr>current_period := q\<rparr>\<rparr>)"
      using S' p True by (simp add: rcu_quiesce_exchange_def)
    ultimately show ?thesis using n p
      by (intro exI, simp only:, intro pc_ok) (auto simp: promised_def set_pc_def)
  next
    case False
    then have "S' = set_pc c (Loaded (current_period (mem S))) S" using S' p by (simp add: rcu_quiesce_exchange_def)
    then show ?thesis using pc_ok [OF ok n, of "Loaded (current_period (mem S))"] p by (auto simp: promised_def set_pc_def)
  qed
qed

section \<open>Interrupts and requests\<close>

lemma tell_ok:
  assumes ok: "rcu_ok K Q G T S" and en: "rcu_enabled (Tell c) S"
  shows "\<exists>S'. rcu_exec h (Tell c) S = Some S' \<and> rcu_ok K Q G T S'"
proof -
  obtain q where q: "pc S c = Started q" using en by auto
  have n: "c < num_cpus (mem S)" "depth S c = 0" using cpus_okD(4,7) [OF rcu_okD(3) [OF ok], of c] q by auto
  obtain m where m: "rcu_quiesce_tell c q (mem S) = Some m" "ipi_only (mem S) m"
    using notify_loop [of "[0..<num_cpus (mem S)]" "mem S" c "generation q"] unfolding rcu_quiesce_tell_def by fastforce
  have "rcu_ok K Q G T (set_pc c Ready (S\<lparr>mem := m\<rparr>))"
    using ipi_only_same [OF m(2)] q by (intro local_ok [OF ok n]) (auto simp: promised_def set_pc_def intro: same_target)
  then show ?thesis using m(1) q by simp
qed

lemma request_ok:
  assumes ok: "rcu_ok K Q G T S" and en: "rcu_enabled (Request c) S"
  shows "\<exists>S'. rcu_exec h (Request c) S = Some S' \<and> rcu_ok K Q G T S'"
proof -
  obtain g where g: "pc S c = Requesting g" using en by auto
  have n: "c < num_cpus (mem S)" "depth S c = 0" using cpus_okD(4,7) [OF rcu_okD(3) [OF ok], of c] g by auto
  obtain m where m: "rcu_bitmap_request_grace_period c g (mem S) = Some m" "same_shared (mem S) m" "entry_next m = entry_next (mem S)"
      "rcu_cpus m = (rcu_cpus (mem S))(c := (rcu_cpus (mem S) c)\<lparr>target := g + 2\<rparr>)"
    using request [OF n(1)] by blast
  have "rcu_ok K Q G T (set_pc c Ready (S\<lparr>mem := m\<rparr>))"
    by (rule local_ok [OF ok n _ m(2-4)]) (simp_all add: promised_def set_pc_def g m(4))
  then show ?thesis using m(1) g by simp
qed

section \<open>Queues\<close>

lemma enqueue_batches:
  assumes ok: "batches_ok K Q m" and c: "c < num_cpus m" "k < K" and e: "e \<noteq> NULL" "\<And>i. e \<notin> set (Q i)"
    and m': "num_cpus m' = num_cpus m" "entry_next m' = (entry_next m)(e := next_batch (rcu_cpus m c) ! k)"
      "rcu_cpus m' = (rcu_cpus m)(c := (rcu_cpus m c)\<lparr>update_count := u, next_batch := (next_batch (rcu_cpus m c))[k := e]\<rparr>)"
  shows "batches_ok K (Q((Next_batch, c, k) := e # Q (Next_batch, c, k))) m'" (is "batches_ok _ ?Q _")
proof (rule batches_okI)
  note ap = batches_ok_apart [OF ok]
  show "length (batch_of b (rcu_cpus m' d)) = K \<and> (\<forall>j < K. chain (entry_next m') (batch_of b (rcu_cpus m' d) ! j) (?Q (b, d, j)))"
    if d: "d < num_cpus m'" for b d
    using batches_okD(1,2) [OF ok, where b = b, of d] d c e by (cases "d = c"; cases b) (auto simp: m' chain_upd nth_list_update)
  show "ready_updates (rcu_cpus m' d)" if "d < num_cpus m'" "j < K" "?Q (Ready_batch, d, j) \<noteq> []" for d j
    using batches_okD(3) [OF ok, of d j] that by (auto simp: m')
  show "distinct (?Q i)" for i using ap(1) [of i] e(2) by auto
  show "set (?Q i) \<inter> set (?Q j) = {}" if "i \<noteq> j" for i j using ap(2) [OF that] e(2) that by auto
  show "?Q (b, d, j) = []" if "num_cpus m' \<le> d \<or> K \<le> j" for b d j
    using ap(3) [of d j b] that c by (auto simp: m')
qed

lemma enqueue_ok:
  assumes ok: "rcu_ok K Q G T S" and en: "rcu_enabled (Enqueue c e k) S"
  shows "\<exists>S' Q'. rcu_exec h (Enqueue c e k) S = Some S' \<and> rcu_ok K Q' G T S'"
proof -
  note c = cpus_okD [OF rcu_okD(3) [OF ok]]
  let ?Q = "Q((Next_batch, c, k) := e # Q (Next_batch, c, k))"
  have n: "c < num_cpus (mem S)" "pc S c = Ready" "e \<noteq> NULL" "e \<notin> set (Q i)" "k < K" for i
    using en rcu_okD(2) [OF ok, of i] batches_okD(1) [OF rcu_okD(1) [OF ok], of c Next_batch] by auto
  obtain m u where m: "rcu_enqueue c e k (mem S) = Some m" "same_shared (mem S) m"
      "entry_next m = (entry_next (mem S))(e := next_batch (rcu_cpus (mem S) c) ! k)"
      "rcu_cpus m = (rcu_cpus (mem S))(c := (rcu_cpus (mem S) c)\<lparr>update_count := u, next_batch := (next_batch (rcu_cpus (mem S) c))[k := e]\<rparr>)"
    using enqueue [OF n(1) c(6)] by blast
  have sh: "num_cpus m = num_cpus (mem S)" "current_period m = current_period (mem S)" "active_cpus m = active_cpus (mem S)"
    using m(2) by (simp_all add: same_shared_def)
  define S' where "S' = S\<lparr>mem := m, queued := insert e (queued S), readers := (readers S)(e := {x. 0 < depth S x})\<rparr>"
  have "cpus_ok S'" using c(1,5-8) c(2-4) [OF _]
    by (intro cpus_okI) (auto simp: S'_def sh m split: if_splits)
  moreover have "window_ok S'" by (rule window_ok_mono [OF rcu_okD(4) [OF ok]]) (auto simp: S'_def sh m split: if_splits)
  moreover have "grace_ok G T Q S'"
    by (rule grace_ok_mono [OF rcu_okD(5) [OF ok] _ promised_same]) (use n(4) in \<open>auto simp: S'_def sh m split: if_splits\<close>)
  then have "grace_ok G T ?Q S'" by (auto simp: grace_ok_def)
  moreover have "batches_ok K ?Q m" by (rule enqueue_batches [OF rcu_okD(1) [OF ok] n(1,5,3,4) sh(1) m(3,4)])
  moreover have "set (?Q i) \<subseteq> queued S'" for i using rcu_okD(2) [OF ok, of i] by (auto simp: S'_def)
  ultimately have "rcu_ok K ?Q G T S'" by (intro rcu_okI) (simp_all add: S'_def)
  moreover have "rcu_exec h (Enqueue c e k) S = Some S'" by (simp add: m(1) S'_def)
  ultimately show ?thesis by blast
qed

text \<open>What ran had no readers.\<close>

definition ran_free :: "rcu_sys \<Rightarrow> rcu_mem \<Rightarrow> bool" where
  "ran_free S m \<longleftrightarrow> (\<forall>e \<in> snd ` set (drop (length (rcu_ran (mem S))) (rcu_ran m)). readers S e = {})"

abbreviation ready_of :: "nat \<Rightarrow> (batch \<times> nat \<times> nat \<Rightarrow> ptr list) \<Rightarrow> nat \<Rightarrow> (nat \<times> ptr) list" where
  "ready_of K Q c \<equiv> concat (map (\<lambda>k. map (Pair k) (Q (Ready_batch, c, k))) [0..<K])"

lemma ran_ok:
  assumes ok: "rcu_ok K Q G T S" and c: "c < num_cpus (mem S)" and r: "ran_ready K c (ready_of K Q c) (mem S) m"
  shows "rcu_ok K (drop_ready c Q) G T (with_ran m S)" "ran_free S m"
proof -
  have r': "rcu_ran m = rcu_ran (mem S) @ ready_of K Q c" "num_cpus m = num_cpus (mem S)" "current_period m = current_period (mem S)"
      "active_cpus m = active_cpus (mem S)" "is_active (rcu_cpus m d) = is_active (rcu_cpus (mem S) d)"
      "target (rcu_cpus m d) = target (rcu_cpus (mem S) d)" for d
    using r by (auto simp: ran_ready_def Let_def)
  have ran: "snd ` set (ready_of K Q c) = (\<Union>k < K. set (Q (Ready_batch, c, k)))" by (auto simp: image_iff) force
  show "ran_free S m" unfolding ran_free_def using grace_okD(2) [OF rcu_okD(5) [OF ok]] by (simp add: r' ran)
  have "cpus_ok (with_ran m S)" using cpus_okD [OF rcu_okD(3) [OF ok]] by (intro cpus_okI) (simp_all add: with_ran_def r')
  moreover have "window_ok (with_ran m S)" by (rule window_ok_mono [OF rcu_okD(4) [OF ok]]) (simp_all add: with_ran_def r')
  moreover have "grace_ok G T Q (with_ran m S)"
    by (rule grace_ok_mono [OF rcu_okD(5) [OF ok] _ promised_same]) (simp_all add: with_ran_def r')
  then have "grace_ok G T (drop_ready c Q) (with_ran m S)" by (auto simp: grace_ok_def drop_ready_def)
  moreover have "set (drop_ready c Q i) \<subseteq> queued (with_ran m S)" for i
  proof (cases i)
    case (fields b d k)
    show ?thesis
    proof
      fix x assume "x \<in> set (drop_ready c Q i)"
      then have x: "x \<in> set (Q i)" "b = Ready_batch \<longrightarrow> d \<noteq> c" by (auto simp: fields drop_ready_def split: if_splits)
      then have "x \<notin> set (Q (Ready_batch, c, j))" for j
        using batches_ok_apart(2) [OF rcu_okD(1) [OF ok], of i "(Ready_batch, c, j)"] fields by auto
      then show "x \<in> queued (with_ran m S)" using x(1) rcu_okD(2) [OF ok, of i] by (auto simp: with_ran_def r' ran)
    qed
  qed
  ultimately show "rcu_ok K (drop_ready c Q) G T (with_ran m S)"
    using drop_ready_ok [OF rcu_okD(1) [OF ok] c r] by (intro rcu_okI) (simp_all add: with_ran_def)
qed

lemma update_ok:
  assumes ok: "rcu_ok K Q G T S" and en: "rcu_enabled (Update c) S" and h: "quiet h"
  shows "\<exists>S' Q'. rcu_exec h (Update c) S = Some S' \<and> rcu_ok K Q' G T S' \<and> ran_free S (mem S')"
proof -
  obtain st m where m: "rcu_bitmap_update h c (mem S) = Some (st, m)" "ran_ready K c (ready_of K Q c) (mem S) m"
    using update_runs [OF rcu_okD(1) [OF ok] _ h, of c] en by auto
  show ?thesis using ran_ok [OF ok _ m(2)] en m(1) by (auto simp: with_ran_def)
qed

section \<open>Advancing the batches\<close>

lemma not_before:
  assumes "\<not> util_is_before (of_nat G) (of_nat t)" "t \<le> G + 2"
  shows "t \<le> G"
proof (rule ccontr)
  assume "\<not> t \<le> G"
  then consider "t = G + 1" | "t = G + 2" using assms(2) by linarith
  then show False using assms(1) by cases (simp_all add: util_is_before_def)
qed

lemma advance_grace:
  assumes ok: "rcu_ok K (drop_ready c Q) G T S" and n: "c < num_cpus (mem S)" "pc S c = Ready"
    and t: "\<not> util_is_before (generation (current_period (mem S))) (target (rcu_cpus (mem S) c))"
    and S': "current_period (mem S') = current_period (mem S)" "readers S' = readers S" "\<And>d. d \<noteq> c \<Longrightarrow> promised S' d = promised S d"
      "\<And>k. k < K \<Longrightarrow> next_batch (rcu_cpus (mem S) c) ! k \<noteq> NULL \<Longrightarrow> promised S' c = generation (current_period (mem S)) + 2"
  shows "grace_ok G (T(c := G + 2)) (advance c Q) S'"
proof (rule grace_okI)
  note g = grace_okD [OF rcu_okD(5) [OF ok]] and b = rcu_okD(1) [OF ok]
  show "generation (current_period (mem S')) = of_nat G" using g(1) S'(1) by simp
  show "readers S' e = {}" if e: "e \<in> set (advance c Q (Ready_batch, d, k))" for d k e
  proof (cases "d = c")
    case True
    then have "waiting_ok G (T c) S c e" using e g(3) [of e c k] by (simp add: advance_def drop_ready_def)
    then show ?thesis using not_before [of G "T c"] t n(2) g(1) by (auto simp: waiting_ok_def promised_def S'(2))
  next
    case False
    then show ?thesis using e g(2) [of e d k] by (simp add: advance_def drop_ready_def S'(2))
  qed
  show "waiting_ok G ((T(c := G + 2)) d) S' d e" if e: "e \<in> set (advance c Q (Waiting_batch, d, k))" for d k e
  proof (cases "d = c")
    case True
    then have e: "e \<in> set (drop_ready c Q (Next_batch, c, k))" using e by (simp add: advance_def drop_ready_def)
    then have k: "k < K" using batches_ok_apart(3) [OF b, of c k Next_batch] by fastforce
    have "next_batch (rcu_cpus (mem S) c) ! k \<noteq> NULL" using batches_okD(2) [OF b n(1) k, of Next_batch] e by (auto simp: chain_NULL)
    then show ?thesis using True S'(4) [OF k] g(1) by (simp add: waiting_ok_def)
  next
    case False
    then have "waiting_ok G (T d) S d e" using e g(3) [of e d k] by (simp add: advance_def drop_ready_def)
    then show ?thesis using False by (simp add: waiting_ok_def S')
  qed
qed

lemma advance_sys_ok:
  assumes ok: "rcu_ok K (drop_ready c Q) G T S" and n: "c < num_cpus (mem S)" "pc S c = Ready" "depth S c = 0"
    and t: "\<not> util_is_before (generation (current_period (mem S))) (target (rcu_cpus (mem S) c))"
    and m: "same_shared (mem S) m" "entry_next m = entry_next (mem S)" "rcu_cpus m = (rcu_cpus (mem S))(c := c')"
    and len: "length (ready_batch c') = K" "length (waiting_batch c') = K" "length (next_batch c') = K"
    and nth: "\<And>j. j < K \<Longrightarrow> ready_batch c' ! j = waiting_batch (rcu_cpus (mem S) c) ! j"
      "\<And>j. j < K \<Longrightarrow> waiting_batch c' ! j = next_batch (rcu_cpus (mem S) c) ! j" "\<And>j. j < K \<Longrightarrow> next_batch c' ! j = NULL"
      "\<And>j. j < K \<Longrightarrow> waiting_batch (rcu_cpus (mem S) c) ! j \<noteq> NULL \<Longrightarrow> ready_updates c'" "is_active c' = is_active (rcu_cpus (mem S) c)"
  shows "rcu_ok K (advance c Q) G (T(c := G + 2)) (set_pc c
    (if \<exists>k < K. next_batch (rcu_cpus (mem S) c) ! k \<noteq> NULL then Requesting (generation (current_period (mem S))) else Ready) (S\<lparr>mem := m\<rparr>))"
    (is "rcu_ok _ _ _ _ ?S")
proof -
  have sh: "num_cpus m = num_cpus (mem S)" "current_period m = current_period (mem S)" "active_cpus m = active_cpus (mem S)"
    using m(1) by (simp_all add: same_shared_def)
  have "cpus_ok ?S" using cpus_okD [OF rcu_okD(3) [OF ok]] n
    by (intro cpus_okI) (auto simp: set_pc_def sh m nth(5) split: if_splits)
  moreover have "window_ok ?S"
    by (rule window_ok_mono [OF rcu_okD(4) [OF ok]]) (auto simp: set_pc_def sh m nth(5) split: if_splits)
  moreover have "grace_ok G (T(c := G + 2)) (advance c Q) ?S"
  proof (rule advance_grace [OF ok n(1,2) t])
    show "promised ?S d = promised S d" if "d \<noteq> c" for d by (rule promised_same) (simp_all add: set_pc_def m that)
    show "promised ?S c = generation (current_period (mem S)) + 2" if "k < K" "next_batch (rcu_cpus (mem S) c) ! k \<noteq> NULL" for k
      using that by (auto simp: promised_def set_pc_def)
  qed (simp_all add: set_pc_def sh)
  moreover have "batches_ok K (advance c Q) m"
    by (rule advance_ok [OF rcu_okD(1) [OF ok] n(1)]) (auto simp: sh m len nth(1-3) dest: nth(4))
  moreover have "set (advance c Q i) \<subseteq> queued S" for i
  proof (cases i)
    case (fields b d k)
    then show ?thesis using rcu_okD(2) [OF ok, of "(Waiting_batch, d, k)"] rcu_okD(2) [OF ok, of "(Next_batch, d, k)"] rcu_okD(2) [OF ok, of i]
      by (auto simp: advance_def drop_ready_def split: batch.splits if_splits)
  qed
  ultimately show ?thesis by (intro rcu_okI) (simp_all add: set_pc_def)
qed

lemma notify_updates:
  assumes ok: "batches_ok K Q m" and c: "c < num_cpus m" and h: "quiet h"
  shows "\<exists>st m'. (if ready_updates (rcu_cpus m c) then rcu_bitmap_update h c (snd (ipi_clear IPI_REASON_RCU_UPDATE c m)) else Some (False, m)) =
    Some (st, m') \<and> ran_ready K c (ready_of K Q c) m m'"
proof (cases "ready_updates (rcu_cpus m c)")
  case True
  let ?m = "snd (ipi_clear IPI_REASON_RCU_UPDATE c m)"
  have i: "same_shared m ?m \<and> rcu_cpus ?m = rcu_cpus m \<and> entry_next ?m = entry_next m" by (rule ipi_only_same [OF ipi_only_send(3) [OF c]])
  then have "batches_ok K Q ?m" by (intro batches_ok_cong [OF ok]) (simp_all add: same_shared_def)
  moreover have "ran_ready K c r m m'" if "ran_ready K c r ?m m'" for r m'
    using that i by (simp add: ran_ready_def same_shared_def)
  ultimately show ?thesis using True update_runs [of K Q ?m c h] c h i by (fastforce simp: same_shared_def)
next
  case False
  then have "rcu_bitmap_update h c m = Some (False, m)" by (simp add: rcu_bitmap_update_def)
  then show ?thesis using False update_runs [OF ok c h] by simp
qed

text \<open>The three ways in which \<^const>\<open>rcu_notify_advance\<close> ends.\<close>

lemma notify_advance_cases:
  assumes "update_count (rcu_cpus m c) \<noteq> 0"
    "(if ready_updates (rcu_cpus m c) then rcu_bitmap_update h c (snd (ipi_clear IPI_REASON_RCU_UPDATE c m)) else Some (False, m)) = Some (st, m1)"
  shows "util_is_before (generation (current_period m1)) (target (rcu_cpus m1 c)) \<Longrightarrow> rcu_notify_advance h c m = Some (st, None, m1)"
    "\<not> util_is_before (generation (current_period m1)) (target (rcu_cpus m1 c)) \<Longrightarrow>
      rcu_advance_classes (update_class_range c m1) False (rcu_cpus m1 c) = Some (w, c') \<Longrightarrow>
      (if ready_updates c' then ipi_one_relaxed IPI_REASON_RCU_UPDATE c (upd_rcu c (\<lambda>_. c') m1) else Some (upd_rcu c (\<lambda>_. c') m1)) = Some m3 \<Longrightarrow>
      rcu_notify_advance h c m = Some (st, if w then Some (generation (current_period m1)) else None, m3)"
  using assms by (simp_all add: rcu_notify_advance_def)

lemma notify_classes:
  assumes b: "batches_ok K (drop_ready c Q) m" "c < num_cpus m" "ready_batch (rcu_cpus m c) = replicate K NULL"
  obtains c' m3 where
    "rcu_advance_classes (update_class_range c m) False (rcu_cpus m c) = Some (\<exists>k < K. next_batch (rcu_cpus m c) ! k \<noteq> NULL, c')"
    "(if ready_updates c' then ipi_one_relaxed IPI_REASON_RCU_UPDATE c (upd_rcu c (\<lambda>_. c') m) else Some (upd_rcu c (\<lambda>_. c') m)) = Some m3"
    "same_shared m m3" "entry_next m3 = entry_next m" "rcu_cpus m3 = (rcu_cpus m)(c := c')"
    "length (ready_batch c') = K" "length (waiting_batch c') = K" "length (next_batch c') = K"
    "\<And>j. j < K \<Longrightarrow> ready_batch c' ! j = waiting_batch (rcu_cpus m c) ! j" "\<And>j. j < K \<Longrightarrow> waiting_batch c' ! j = next_batch (rcu_cpus m c) ! j"
    "\<And>j. j < K \<Longrightarrow> next_batch c' ! j = NULL" "\<And>j. j < K \<Longrightarrow> waiting_batch (rcu_cpus m c) ! j \<noteq> NULL \<Longrightarrow> ready_updates c'"
    "is_active c' = is_active (rcu_cpus m c)"
proof -
  have len: "length (waiting_batch (rcu_cpus m c)) = K" "length (next_batch (rcu_cpus m c)) = K"
    using batches_okD(1) [OF b(1,2), of Waiting_batch] batches_okD(1) [OF b(1,2), of Next_batch] by simp_all
  from advance_classes [of "[0..<K]" K "rcu_cpus m c" False] b(3) len
  obtain c' where c': "rcu_advance_classes [0..<K] False (rcu_cpus m c) = Some (\<exists>k \<in> {0..<K}. next_batch (rcu_cpus m c) ! k \<noteq> NULL, c')"
      "length (ready_batch c') = K" "length (waiting_batch c') = K" "length (next_batch c') = K"
      "\<And>j. j < K \<Longrightarrow> ready_batch c' ! j = waiting_batch (rcu_cpus m c) ! j" "\<And>j. j < K \<Longrightarrow> waiting_batch c' ! j = next_batch (rcu_cpus m c) ! j"
      "\<And>j. j < K \<Longrightarrow> next_batch c' ! j = NULL" "\<And>j. j < K \<Longrightarrow> waiting_batch (rcu_cpus m c) ! j \<noteq> NULL \<Longrightarrow> ready_updates c'"
      "is_active c' = is_active (rcu_cpus m c)"
    by auto
  let ?m = "upd_rcu c (\<lambda>_. c') m"
  have "c < num_cpus ?m" using b(2) by (simp add: upd_rcu_def)
  then obtain m3 where m3: "(if ready_updates c' then ipi_one_relaxed IPI_REASON_RCU_UPDATE c ?m else Some ?m) = Some m3" "ipi_only ?m m3"
    using ipi_only_send(2) [of c ?m IPI_REASON_RCU_UPDATE] that by (cases "ready_updates c'") auto
  have "same_shared m m3" "entry_next m3 = entry_next m" "rcu_cpus m3 = (rcu_cpus m)(c := c')"
    using ipi_only_same [OF m3(2)] by (simp_all add: same_shared_def upd_rcu_def)
  moreover have "rcu_advance_classes (update_class_range c m) False (rcu_cpus m c) = Some (\<exists>k < K. next_batch (rcu_cpus m c) ! k \<noteq> NULL, c')"
    using c'(1) by (simp add: b(3) Bex_def)
  ultimately show thesis using that m3(1) c'(2-9) by blast
qed

lemma notify_idle: "pc S c = Ready \<Longrightarrow> set_pc c Ready (with_ran (mem S) S) = S"
  by (cases S) (auto simp: set_pc_def with_ran_def)

lemma notify_ok:
  assumes ok: "rcu_ok K Q G T S" and en: "rcu_enabled (Notify c) S" and h: "quiet h"
  shows "\<exists>S' Q' T'. rcu_exec h (Notify c) S = Some S' \<and> rcu_ok K Q' G T' S' \<and> ran_free S (mem S')"
proof (cases "update_count (rcu_cpus (mem S) c) = 0")
  case True
  then have "rcu_exec h (Notify c) S = Some S" using en notify_idle [of S c] by (simp add: rcu_notify_advance_def)
  then show ?thesis using ok by (auto simp: ran_free_def)
next
  case False
  have n: "c < num_cpus (mem S)" "pc S c = Ready" "depth S c = 0" using en by simp_all
  obtain st m where m: "(if ready_updates (rcu_cpus (mem S) c) then rcu_bitmap_update h c (snd (ipi_clear IPI_REASON_RCU_UPDATE c (mem S))) else Some (False, mem S)) =
      Some (st, m)" and r: "ran_ready K c (ready_of K Q c) (mem S) m"
    using notify_updates [OF rcu_okD(1) [OF ok] n(1) h] by blast
  note cs = notify_advance_cases [OF False m] and ran = ran_ok [OF ok n(1) r]
  show ?thesis
  proof (cases "util_is_before (generation (current_period m)) (target (rcu_cpus m c))")
    case True
    have "set_pc c Ready (with_ran m S) = with_ran m S" using n(2) by (cases S) (auto simp: set_pc_def with_ran_def)
    then show ?thesis using cs(1) [OF True] ran by (auto simp: with_ran_def)
  next
    case before: False
    have b: "c < num_cpus m" "batches_ok K (drop_ready c Q) m" "ready_batch (rcu_cpus m c) = replicate K NULL"
      using r n(1) rcu_okD(1) [OF ran(1)] by (simp_all add: ran_ready_def with_ran_def Let_def)
    obtain c' m3 where c': "rcu_advance_classes (update_class_range c m) False (rcu_cpus m c) = Some (\<exists>k < K. next_batch (rcu_cpus m c) ! k \<noteq> NULL, c')"
      and m3: "(if ready_updates c' then ipi_one_relaxed IPI_REASON_RCU_UPDATE c (upd_rcu c (\<lambda>_. c') m) else Some (upd_rcu c (\<lambda>_. c') m)) = Some m3"
      and s: "same_shared m m3"
      and adv: "mem S1 = m \<Longrightarrow> rcu_ok K (drop_ready c Q) G T S1 \<Longrightarrow> pc S1 c = Ready \<Longrightarrow> depth S1 c = 0 \<Longrightarrow>
        rcu_ok K (advance c Q) G (T(c := G + 2)) (set_pc c (if \<exists>k < K. next_batch (rcu_cpus m c) ! k \<noteq> NULL
          then Requesting (generation (current_period m)) else Ready) (S1\<lparr>mem := m3\<rparr>))" for S1
      by (rule notify_classes [OF b(2,1,3)]) (use b(1) before advance_sys_ok in blast)
    have w: "with_ran m3 S = (with_ran m S)\<lparr>mem := m3\<rparr>" using s by (simp add: with_ran_def same_shared_def)
    note E = cs(2) [OF before c' m3]
    have R: "rcu_ok K (advance c Q) G (T(c := G + 2)) (set_pc c (if \<exists>k < K. next_batch (rcu_cpus m c) ! k \<noteq> NULL
        then Requesting (generation (current_period m)) else Ready) (with_ran m3 S))"
      unfolding w by (rule adv [OF _ ran(1)]) (simp_all add: with_ran_def n)
    have F: "ran_free S m3" using ran(2) s by (simp add: ran_free_def same_shared_def)
    have "rcu_exec h (Notify c) S = Some (set_pc c (if \<exists>k < K. next_batch (rcu_cpus m c) ! k \<noteq> NULL
        then Requesting (generation (current_period m)) else Ready) (with_ran m3 S))"
      by (auto simp: E)
    moreover have "ran_free S (mem (set_pc c v (with_ran m3 S)))" for v using F by (simp add: set_pc_def with_ran_def)
    ultimately show ?thesis using R by blast
  qed
qed

section \<open>All steps\<close>

lemma step_ok:
  assumes ok: "rcu_ok K Q G T S" and en: "rcu_enabled l S" "calm l S" and h: "quiet h"
  shows "\<exists>S' Q' G' T'. rcu_exec h l S = Some S' \<and> rcu_ok K Q' G' T' S' \<and> ran_free S (mem S')"
proof -
  have none: "ran_free S m" if "rcu_ran m = rcu_ran (mem S)" for m using that by (simp add: ran_free_def)
  have c: "\<And>c. pc S c \<noteq> Ready \<Longrightarrow> c < num_cpus (mem S)" "\<And>j. bit (active_cpus (mem S)) j \<Longrightarrow> j < num_cpus (mem S)"
    using cpus_okD(6,7) [OF rcu_okD(3) [OF ok]] by blast+
  show ?thesis
  proof (cases l)
    case (Read_start c)
    then show ?thesis using read_start_ok [OF ok] en by (fastforce simp: rcu_read_start_def intro!: none)
  next
    case (Read_finish c)
    then show ?thesis using read_finish_ok [OF ok] en by (fastforce intro!: none)
  next
    case (Enqueue c e k)
    obtain m where m: "rcu_enqueue c e k (mem S) = Some m" "same_shared (mem S) m" using enqueue c(2) en(1) Enqueue by fastforce
    then show ?thesis using enqueue_ok [OF ok, of c e k h] en Enqueue by (fastforce simp: same_shared_def intro!: none)
  next
    case (Activate c)
    then show ?thesis using activate_ok [OF ok] en by (fastforce simp: rcu_bitmap_activate_cpu_def upd_rcu_def intro!: none)
  next
    case (Leave c)
    then show ?thesis using leave_ok [OF ok] en by (fastforce simp: rcu_leave_active_set_def upd_rcu_def intro!: none)
  next
    case (Load c)
    then show ?thesis using load_ok [OF ok] en by (fastforce simp: set_pc_def intro!: none)
  next
    case (Look c)
    then show ?thesis using look_ok [OF ok, of c h] en by (fastforce simp: set_pc_def intro!: none split: prod.split)
  next
    case (Exchange c)
    then obtain p b q where "pc S c = Looked p b q" using en by auto
    then have "\<exists>S'. rcu_exec h l S = Some S' \<and> rcu_ran (mem S') = rcu_ran (mem S)"
      using Exchange by (cases "current_period (mem S) = p") (simp_all add: rcu_quiesce_exchange_def set_pc_def)
    then show ?thesis using exchange_ok [OF ok, of c h] en Exchange none by blast
  next
    case (Tell c)
    then obtain q where q: "pc S c = Started q" using en by auto
    obtain m where "rcu_quiesce_tell c q (mem S) = Some m" "ipi_only (mem S) m"
      using notify_loop [of "[0..<num_cpus (mem S)]" "mem S" c "generation q"] unfolding rcu_quiesce_tell_def by fastforce
    then have "rcu_ran m = rcu_ran (mem S)" "rcu_exec h l S = Some (set_pc c Ready (S\<lparr>mem := m\<rparr>))"
      using ipi_only_same [of "mem S" m] q Tell by (simp_all add: same_shared_def)
    then show ?thesis using tell_ok [OF ok, of c h] en Tell by (fastforce simp: set_pc_def intro!: none)
  next
    case (Notify c)
    then show ?thesis using notify_ok [OF ok _ h, of c] en by blast
  next
    case (Request c)
    then obtain g where g: "pc S c = Requesting g" using en by auto
    obtain m where "rcu_bitmap_request_grace_period c g (mem S) = Some m" "same_shared (mem S) m" using request [OF c(1), of c g] g by auto
    then show ?thesis using request_ok [OF ok, of c h] en g Request by (fastforce simp: set_pc_def same_shared_def intro!: none)
  next
    case (Update c)
    then show ?thesis using update_ok [OF ok _ h, of c] en by blast
  qed
qed

lemma run_ok:
  "rcu_ok K Q G T S \<Longrightarrow> quiet h \<Longrightarrow> calm_run h ls S \<Longrightarrow> rcu_run h ls S = Some S' \<Longrightarrow> \<exists>Q' G' T'. rcu_ok K Q' G' T' S'"
proof (induction ls arbitrary: S Q G T)
  case (Cons l ls)
  then have "rcu_enabled l S" "calm l S" by (auto split: if_splits)
  then obtain S1 Q' G' T' where "rcu_exec h l S = Some S1" "rcu_ok K Q' G' T' S1" using step_ok [OF Cons.prems(1)] Cons.prems(2) by blast
  then show ?case using Cons.IH [of Q' G' T' S1] Cons.prems(2-4) by (auto split: if_splits)
qed auto

section \<open>Safety\<close>

text \<open>The state at boot: no CPU is active and no update is queued. There are \<open>K\<close> classes of updates.\<close>

definition rcu_boot :: "nat \<Rightarrow> nat \<Rightarrow> rcu_sys" where
  "rcu_boot n K = \<lparr>mem = \<lparr>ipi_pending = \<lambda>_. 0, ipi_line = \<lambda>_. False, sched_triggered = \<lambda>_. False, num_cpus = n,
       waiter_count = 0, current_period = \<lparr>generation = 0, cpu_bitmap = 0\<rparr>, max_target = 0, active_cpus = 0,
       rcu_cpus = \<lambda>_. \<lparr>update_count = 0, is_active = False, ready_updates = False, target = 0,
         ready_batch = replicate K NULL, waiting_batch = replicate K NULL, next_batch = replicate K NULL\<rparr>,
       entry_next = \<lambda>_. NULL, rcu_ran = [], platform_cpu_exists = \<lambda>_. True\<rparr>,
     pc = \<lambda>_. Ready, depth = \<lambda>_. 0, queued = {}, readers = \<lambda>_. {}\<rparr>"

lemma boot_ok: "n \<le> 32 \<Longrightarrow> rcu_ok K (\<lambda>_. []) 0 (\<lambda>_. 0) (rcu_boot n K)"
proof (intro rcu_okI batches_okI cpus_okI window_okI grace_okI)
  show "length (batch_of b (rcu_cpus (mem (rcu_boot n K)) c)) = K \<and>
      (\<forall>k < K. chain (entry_next (mem (rcu_boot n K))) (batch_of b (rcu_cpus (mem (rcu_boot n K)) c) ! k) [])" for b c
    by (cases b) (simp_all add: rcu_boot_def)
qed (simp_all add: rcu_boot_def)

text \<open>
  C14. Read-copy-update on up to 32 CPUs: in every state that is reached after boot, whatever the CPUs do and however
  their accesses interleave, every step that can be taken returns without a failed assertion, and an
  update runs only when no CPU is any longer in a critical section that was running when the update was
  enqueued. It is assumed that no CPU joins the active set between another CPU's look at the set and
  its compare-and-exchange, and that update handlers do not enqueue updates themselves.
\<close>

theorem rcu_grace_period_safe:
  assumes "n \<le> 32" "quiet h" "rcu_run h ls (rcu_boot n K) = Some S" "calm_run h ls (rcu_boot n K)"
    and "rcu_enabled l S" "calm l S"
  shows "\<exists>S'. rcu_exec h l S = Some S' \<and>
    (\<forall>e \<in> snd ` set (drop (length (rcu_ran (mem S))) (rcu_ran (mem S'))). readers S e = {})"
  using run_ok [OF boot_ok [OF assms(1)] assms(2,4,3)] step_ok [OF _ assms(5,6,2)] unfolding ran_free_def by blast

text \<open>A CPU that updates while another one reads: the update waits for two grace periods.\<close>

abbreviation quiesce_steps :: "nat \<Rightarrow> rcu_label list" where
  "quiesce_steps c \<equiv> [Load c, Look c, Exchange c]"

definition ex_reader_run :: "rcu_label list" where
  "ex_reader_run = [Activate 0, Activate 1, Read_start 1, Enqueue 0 0x1000 0, Notify 0, Request 0] @ quiesce_steps 0 @
    [Tell 0, Read_finish 1] @ quiesce_steps 1 @ quiesce_steps 0 @ [Tell 0, Notify 0]"

lemmas rcu_eval = rcu_boot_def rcu_read_start_def rcu_enqueue_def upd_rcu_def rcu_notify_advance_def rcu_bitmap_request_grace_period_def
  rcu_raise_max_target_def rcu_quiesce_next_def rcu_quiesce_exchange_def rcu_quiesce_tell_def rcu_bitmap_activate_cpu_def
  rcu_bitmap_refresh_active_def rcu_bitmap_update_def util_is_before_def set_pc_def with_ran_def cpu_bit_def util_bit_def ipi_simps

lemma cpu_lists: "[0..<2] = [0, 1]" "[0..<3] = [0, 1, 2]"
  by (simp_all add: upt_conv_Cons)

lemma refresh_one:
  "rcu_bitmap_refresh_loop 2 m = ipi_one IPI_REASON_RCU_QUIESCE 1 m" "rcu_bitmap_refresh_loop 4 m = ipi_one IPI_REASON_RCU_QUIESCE 2 m"
proof -
  have finished: "rcu_bitmap_refresh_loop 0 = Some" by (rule ext) (subst rcu_bitmap_refresh_loop.simps, simp)
  have "compiler_ctz 2 = 1" "compiler_ctz 4 = 2" by (simp_all add: compiler_ctz_def upt_conv_Cons bit_numeral_rec)
  then show "rcu_bitmap_refresh_loop 2 m = ipi_one IPI_REASON_RCU_QUIESCE 1 m" "rcu_bitmap_refresh_loop 4 m = ipi_one IPI_REASON_RCU_QUIESCE 2 m"
    by (subst rcu_bitmap_refresh_loop.simps, simp add: cpu_bit_def util_bit_def finished)+
qed

lemma entries_eval:
  "rcu_update_entries h c k NULL st n s = Some (st, n, s)"
  "e \<noteq> NULL \<Longrightarrow> rcu_update_entries h c k e st n s =
    Option.bind (trigger_rcu_update_event h c k e s) (\<lambda>(need, s'). rcu_update_entries h c k (entry_next s e) (need \<or> st) (n + 1) s')"
  by (subst rcu_update_entries.simps, simp)+

lemmas run_eval = rcu_eval refresh_one cpu_lists entries_eval trigger_rcu_update_event_def ex_bool_eq

theorem rcu_grace_period_safe_witness:
  "\<exists>S S'. rcu_run (\<lambda>_ _. (False, [])) ex_reader_run (rcu_boot 2 1) = Some S \<and> rcu_exec (\<lambda>_ _. (False, [])) (Update 0) S = Some S' \<and>
    rcu_ran (mem S') = [(0, 0x1000)] \<and> readers S 0x1000 = {}"
proof -
  let ?h = "\<lambda>_ _. (False, [])"
  obtain S S' where S: "rcu_run ?h ex_reader_run (rcu_boot 2 1) = Some S" "rcu_enabled (Update 0) S" "rcu_ran (mem S) = []"
      "rcu_exec ?h (Update 0) S = Some S'" "rcu_ran (mem S') = [(0, 0x1000)]"
    by (simp add: ex_reader_run_def run_eval)
  have "calm_run ?h ex_reader_run (rcu_boot 2 1)" by (simp add: ex_reader_run_def run_eval)
  from rcu_grace_period_safe [OF _ _ S(1) this S(2)] S(3-5) have "readers S 0x1000 = {}" by (simp add: quiet_def)
  then show ?thesis using S by blast
qed

section \<open>The window\<close>


























end
