(* ===== verification/Timer.thy ===== *)
theory Timer
  imports Ipi LinkedList
begin

text \<open>
  The timer queues of the CPUs, \<^verbatim>\<open>hyp/core/timer/src/timer_queue.c\<close>: the model. A timer is identified
  with the address of its list node, a queue with the number of its CPU. The hardware timer of each CPU
  is a field of the state, and so is the list of the timers whose actions have been triggered. Every
  function is composed of the sections that it runs under the lock of a queue.
\<close>

section \<open>Data\<close>

definition TIMER_INVALID_TIMEOUT :: u64 where
  "TIMER_INVALID_TIMEOUT = -1"

record timer =
  timeout :: u64
  action :: nat
  queue :: "nat option"

record timer_queue =
  tq_timeout :: u64
  tq_list :: ptr
  online :: bool

record timer_mem = ipi_mem +
  timers :: "ptr \<Rightarrow> timer"
  timer_queues :: "nat \<Rightarrow> timer_queue"
  timer_nodes :: list_mem
  platform_timer :: "nat \<Rightarrow> u64 option"
  platform_cpu_functional :: "nat \<Rightarrow> bool"
  timer_actions :: "(nat \<times> ptr) list"

definition upd_timer :: "ptr \<Rightarrow> (timer \<Rightarrow> timer) \<Rightarrow> timer_mem \<Rightarrow> timer_mem" where
  "upd_timer t f s = s\<lparr>timers := (timers s)(t := f (timers s t))\<rparr>"

definition upd_tq :: "nat \<Rightarrow> (timer_queue \<Rightarrow> timer_queue) \<Rightarrow> timer_mem \<Rightarrow> timer_mem" where
  "upd_tq c f s = s\<lparr>timer_queues := (timer_queues s)(c := f (timer_queues s c))\<rparr>"

definition platform_timer_set_timeout :: "nat \<Rightarrow> u64 \<Rightarrow> timer_mem \<Rightarrow> timer_mem" where
  "platform_timer_set_timeout c t s = s\<lparr>platform_timer := (platform_timer s)(c := Some t)\<rparr>"

definition platform_timer_cancel_timeout :: "nat \<Rightarrow> timer_mem \<Rightarrow> timer_mem" where
  "platform_timer_cancel_timeout c s = s\<lparr>platform_timer := (platform_timer s)(c := None)\<rparr>"

section \<open>Queues\<close>

fun timer_boot_loop :: "nat \<Rightarrow> nat list \<Rightarrow> timer_mem \<Rightarrow> timer_mem option" where
  "timer_boot_loop boot_cpu_index [] s = Some s"
| "timer_boot_loop boot_cpu_index (cpu_index # cs) s = do {
     m \<leftarrow> list_init (tq_list (timer_queues s cpu_index)) (timer_nodes s);
     timer_boot_loop boot_cpu_index cs
       (upd_tq cpu_index (\<lambda>q. q\<lparr>tq_timeout := TIMER_INVALID_TIMEOUT, online := (cpu_index = boot_cpu_index)\<rparr>) (s\<lparr>timer_nodes := m\<rparr>))
   }"

definition timer_handle_boot_cold_init :: "nat \<Rightarrow> timer_mem \<Rightarrow> timer_mem option" where
  "timer_handle_boot_cold_init boot_cpu_index s = timer_boot_loop boot_cpu_index [0..<num_cpus s] s"

text \<open>The frequency of the platform timer is passed on to the root VM.\<close>

record hyp_env_data =
  timer_freq :: u64

definition timer_handle_rootvm_init :: "u32 \<Rightarrow> hyp_env_data \<Rightarrow> hyp_env_data" where
  "timer_handle_rootvm_init freq hyp_env = hyp_env\<lparr>timer_freq := ucast freq\<rparr>"

definition is_timeout_a_smaller_than_b :: "timer_mem \<Rightarrow> ptr \<Rightarrow> ptr \<Rightarrow> bool" where
  "is_timeout_a_smaller_than_b s node_a node_b \<longleftrightarrow> timeout (timers s node_a) < timeout (timers s node_b)"

definition timer_init_object :: "ptr \<Rightarrow> nat \<Rightarrow> timer_mem \<Rightarrow> timer_mem option" where
  "timer_init_object timer act s = do {
     c_assert (timer \<noteq> NULL);
     Some (upd_timer timer (\<lambda>t. t\<lparr>timeout := TIMER_INVALID_TIMEOUT, action := act, queue := None\<rparr>) s)
   }"

definition timer_is_queued :: "ptr \<Rightarrow> timer_mem \<Rightarrow> bool option" where
  "timer_is_queued timer s = do {
     c_assert (timer \<noteq> NULL);
     Some (queue (timers s timer) \<noteq> None)
   }"

definition timer_queue_get_next_timeout :: "nat \<Rightarrow> timer_mem \<Rightarrow> u64" where
  "timer_queue_get_next_timeout cpu s = tq_timeout (timer_queues s cpu)"

definition timer_update_timeout :: "nat \<Rightarrow> nat \<Rightarrow> timer_mem \<Rightarrow> timer_mem option" where
  "timer_update_timeout cpu tq s = do {
     c_assert (tq = cpu);
     Some (if tq_timeout (timer_queues s tq) \<noteq> TIMER_INVALID_TIMEOUT
           then platform_timer_set_timeout cpu (tq_timeout (timer_queues s tq)) s
           else platform_timer_cancel_timeout cpu s)
   }"

definition timer_enqueue_internal :: "nat \<Rightarrow> nat \<Rightarrow> ptr \<Rightarrow> u64 \<Rightarrow> timer_mem \<Rightarrow> timer_mem option" where
  "timer_enqueue_internal cpu tq timer tmo s = do {
     c_assert (tq = cpu);
     c_assert (online (timer_queues s tq));
     c_assert (queue (timers s timer) = None);
     let s = upd_timer timer (\<lambda>t. t\<lparr>queue := Some tq, timeout := tmo\<rparr>) s;
     (new_head, m) \<leftarrow> list_insert_in_order (tq_list (timer_queues s tq)) timer (is_timeout_a_smaller_than_b s) (timer_nodes s);
     let s = s\<lparr>timer_nodes := m\<rparr>;
     if new_head then timer_update_timeout cpu tq (upd_tq tq (\<lambda>q. q\<lparr>tq_timeout := tmo\<rparr>) s) else Some s
   }"

definition timer_dequeue_internal :: "nat \<Rightarrow> ptr \<Rightarrow> bool \<Rightarrow> timer_mem \<Rightarrow> (bool \<times> timer_mem) option" where
  "timer_dequeue_internal tq timer clear_queue s = do {
     (new_head, m) \<leftarrow> list_delete_node (tq_list (timer_queues s tq)) timer (timer_nodes s);
     let s = s\<lparr>timer_nodes := m\<rparr>;
     head \<leftarrow> list_get_head (tq_list (timer_queues s tq)) m;
     emp \<leftarrow> list_is_empty (tq_list (timer_queues s tq)) m;
     let (new_timeout, s) =
       (if new_head then (True, upd_tq tq (\<lambda>q. q\<lparr>tq_timeout := timeout (timers s head)\<rparr>) s)
        else if emp then (True, upd_tq tq (\<lambda>q. q\<lparr>tq_timeout := TIMER_INVALID_TIMEOUT\<rparr>) s)
        else (False, s));
     Some (new_timeout, if clear_queue then upd_timer timer (\<lambda>t. t\<lparr>queue := None\<rparr>) s else s)
   }"

definition timer_update_internal :: "nat \<Rightarrow> nat \<Rightarrow> ptr \<Rightarrow> u64 \<Rightarrow> timer_mem \<Rightarrow> timer_mem option" where
  "timer_update_internal cpu tq timer tmo s = do {
     c_assert (tq = cpu);
     c_assert (online (timer_queues s tq));
     if timeout (timers s timer) \<noteq> tmo then do {
       (new_head_delete, m) \<leftarrow> list_delete_node (tq_list (timer_queues s tq)) timer (timer_nodes s);
       let s = upd_timer timer (\<lambda>t. t\<lparr>timeout := tmo\<rparr>) (s\<lparr>timer_nodes := m\<rparr>);
       (new_head_insert, m) \<leftarrow> list_insert_in_order (tq_list (timer_queues s tq)) timer (is_timeout_a_smaller_than_b s) m;
       let s = s\<lparr>timer_nodes := m\<rparr>;
       if new_head_delete \<or> new_head_insert then do {
         head \<leftarrow> list_get_head (tq_list (timer_queues s tq)) m;
         timer_update_timeout cpu tq (upd_tq tq (\<lambda>q. q\<lparr>tq_timeout := timeout (timers s head)\<rparr>) s)
       } else Some s
     } else Some s
   }"

section \<open>Operations on timers\<close>

definition timer_enqueue :: "nat \<Rightarrow> ptr \<Rightarrow> u64 \<Rightarrow> timer_mem \<Rightarrow> timer_mem option" where
  "timer_enqueue cpu timer tmo s = do {
     c_assert (timer \<noteq> NULL);
     timer_enqueue_internal cpu cpu timer tmo s
   }"

text \<open>The section of \<^verbatim>\<open>timer_dequeue\<close> under the lock of the queue that the timer was found on.\<close>

definition timer_dequeue_locked :: "nat \<Rightarrow> nat \<Rightarrow> ptr \<Rightarrow> timer_mem \<Rightarrow> timer_mem option" where
  "timer_dequeue_locked cpu tq timer s = do {
     (new_timeout, s) \<leftarrow> timer_dequeue_internal tq timer True s;
     if new_timeout \<and> tq = cpu then timer_update_timeout cpu tq s else Some s
   }"

definition timer_dequeue :: "nat \<Rightarrow> ptr \<Rightarrow> timer_mem \<Rightarrow> timer_mem option" where
  "timer_dequeue cpu timer s = do {
     c_assert (timer \<noteq> NULL);
     case queue (timers s timer) of Some tq \<Rightarrow> timer_dequeue_locked cpu tq timer s | None \<Rightarrow> Some s
   }"

text \<open>The two sections of \<^verbatim>\<open>timer_update\<close>, on the old queue and on the new one.\<close>

definition timer_update_leave :: "nat \<Rightarrow> nat option \<Rightarrow> ptr \<Rightarrow> timer_mem \<Rightarrow> timer_mem option" where
  "timer_update_leave cpu old_tq timer s =
    (case old_tq of
       Some tq \<Rightarrow> if tq \<noteq> cpu then Option.bind (timer_dequeue_internal tq timer True s) (\<lambda>(_, s). Some s) else Some s
     | None \<Rightarrow> Some s)"

definition timer_update_join :: "nat \<Rightarrow> nat option \<Rightarrow> ptr \<Rightarrow> u64 \<Rightarrow> timer_mem \<Rightarrow> timer_mem option" where
  "timer_update_join cpu old_tq timer tmo s =
    (if old_tq = Some cpu then timer_update_internal cpu cpu timer tmo s else timer_enqueue_internal cpu cpu timer tmo s)"

definition timer_update :: "nat \<Rightarrow> ptr \<Rightarrow> u64 \<Rightarrow> timer_mem \<Rightarrow> timer_mem option" where
  "timer_update cpu timer tmo s = do {
     c_assert (timer \<noteq> NULL);
     let old_tq = queue (timers s timer);
     s \<leftarrow> timer_update_leave cpu old_tq timer s;
     timer_update_join cpu old_tq timer tmo s
   }"

section \<open>Expiry\<close>

text \<open>
  One round of the loop: the first timer leaves the queue and its action is triggered. What the action
  does to the state is an argument. Taking the timer of an empty list would be a null dereference.
\<close>

definition timer_expire_one :: "nat \<Rightarrow> timer_mem \<Rightarrow> (ptr \<times> timer_mem) option" where
  "timer_expire_one cpu s = do {
     head \<leftarrow> list_get_head (tq_list (timer_queues s cpu)) (timer_nodes s);
     c_assert (head \<noteq> NULL);
     (_, s) \<leftarrow> timer_dequeue_internal cpu head True s;
     Some (head, s\<lparr>timer_actions := timer_actions s @ [(cpu, head)]\<rparr>)
   }"

partial_function (option) timer_expire_loop ::
    "(nat \<Rightarrow> ptr \<Rightarrow> timer_mem \<Rightarrow> timer_mem) \<Rightarrow> nat \<Rightarrow> u64 \<Rightarrow> timer_mem \<Rightarrow> timer_mem option" where
  [code]: "timer_expire_loop act cpu current_ticks s =
    (if tq_timeout (timer_queues s cpu) \<le> current_ticks then
       Option.bind (timer_expire_one cpu s) (\<lambda>(timer, s). timer_expire_loop act cpu current_ticks (act (action (timers s timer)) timer s))
     else Some s)"

definition timer_dequeue_expired ::
    "(nat \<Rightarrow> ptr \<Rightarrow> timer_mem \<Rightarrow> timer_mem) \<Rightarrow> nat \<Rightarrow> u64 \<Rightarrow> timer_mem \<Rightarrow> timer_mem option" where
  "timer_dequeue_expired act cpu current_ticks s = do {
     s \<leftarrow> timer_expire_loop act cpu current_ticks s;
     timer_update_timeout cpu cpu s
   }"

definition timer_handle_platform_timer_expiry ::
    "(nat \<Rightarrow> ptr \<Rightarrow> timer_mem \<Rightarrow> timer_mem) \<Rightarrow> nat \<Rightarrow> u64 \<Rightarrow> timer_mem \<Rightarrow> timer_mem option" where
  "timer_handle_platform_timer_expiry act cpu current_ticks s = timer_dequeue_expired act cpu current_ticks s"

definition timer_handle_power_cpu_resume ::
    "(nat \<Rightarrow> ptr \<Rightarrow> timer_mem \<Rightarrow> timer_mem) \<Rightarrow> nat \<Rightarrow> u64 \<Rightarrow> timer_mem \<Rightarrow> timer_mem option" where
  "timer_handle_power_cpu_resume act cpu current_ticks s = timer_dequeue_expired act cpu current_ticks s"

definition timer_handle_ipi_received ::
    "(nat \<Rightarrow> ptr \<Rightarrow> timer_mem \<Rightarrow> timer_mem) \<Rightarrow> nat \<Rightarrow> u64 \<Rightarrow> timer_mem \<Rightarrow> (bool \<times> timer_mem) option" where
  "timer_handle_ipi_received act cpu current_ticks s = do {
     s \<leftarrow> timer_dequeue_expired act cpu current_ticks s;
     Some (False, s)
   }"

text \<open>Suspending, with the low-power timer module or without it.\<close>

definition timer_handle_power_cpu_suspend :: "bool \<Rightarrow> nat \<Rightarrow> timer_mem \<Rightarrow> error_t \<times> timer_mem" where
  "timer_handle_power_cpu_suspend timer_lp cpu s = (OK, if timer_lp then platform_timer_cancel_timeout cpu s else s)"

section \<open>Migration\<close>

definition timer_handle_power_cpu_online :: "nat \<Rightarrow> timer_mem \<Rightarrow> timer_mem" where
  "timer_handle_power_cpu_online cpu s = upd_tq cpu (\<lambda>q. q\<lparr>online := True\<rparr>) s"

definition timer_try_move_to_cpu :: "nat \<Rightarrow> ptr \<Rightarrow> nat \<Rightarrow> timer_mem \<Rightarrow> (bool \<times> timer_mem) option" where
  "timer_try_move_to_cpu cpu timer tgt s =
    (if online (timer_queues s tgt) then
       if queue (timers s timer) \<noteq> Some cpu then Some (True, s)
       else do {
         let s = upd_timer timer (\<lambda>t. t\<lparr>queue := Some tgt\<rparr>) s;
         (new_head, m) \<leftarrow> list_insert_in_order (tq_list (timer_queues s tgt)) timer (is_timeout_a_smaller_than_b s) (timer_nodes s);
         let s = s\<lparr>timer_nodes := m\<rparr>;
         s \<leftarrow> (if new_head then
                  ipi_one IPI_REASON_TIMER_QUEUE_SYNC tgt (upd_tq tgt (\<lambda>q. q\<lparr>tq_timeout := timeout (timers s timer)\<rparr>) s)
                else Some s);
         Some (True, s)
       }
     else Some (False, s))"

text \<open>The CPU that the search for a target looks at next.\<close>

definition timer_next_target :: "nat \<Rightarrow> nat \<Rightarrow> nat \<Rightarrow> nat" where
  "timer_next_target n our_index tgt =
    (let tgt = (tgt + 1) mod n in if tgt = our_index then (tgt + 1) mod n else tgt)"

text \<open>The search, and the loop over all timers of the CPU. A search that finds no target panics.\<close>

partial_function (option) timer_find_target :: "nat \<Rightarrow> ptr \<Rightarrow> nat \<Rightarrow> nat \<Rightarrow> timer_mem \<Rightarrow> (nat \<times> timer_mem) option" where
  [code]: "timer_find_target our_index timer start tgt s =
    Option.bind (if platform_cpu_functional s tgt then timer_try_move_to_cpu our_index timer tgt s else Some (False, s)) (\<lambda>(moved, s).
      if moved then Some (tgt, s)
      else let tgt = timer_next_target (num_cpus s) our_index tgt
           in if tgt = start then None else timer_find_target our_index timer start tgt s)"

definition timer_offline_begin :: "nat \<Rightarrow> timer_mem \<Rightarrow> timer_mem" where
  "timer_offline_begin cpu s = platform_timer_cancel_timeout cpu (upd_tq cpu (\<lambda>q. q\<lparr>online := False\<rparr>) s)"

definition timer_offline_take :: "nat \<Rightarrow> timer_mem \<Rightarrow> (ptr \<times> timer_mem) option" where
  "timer_offline_take cpu s = do {
     head \<leftarrow> list_get_head (tq_list (timer_queues s cpu)) (timer_nodes s);
     c_assert (head \<noteq> NULL);
     (_, s) \<leftarrow> timer_dequeue_internal cpu head False s;
     Some (head, s)
   }"

partial_function (option) timer_offline_loop :: "nat \<Rightarrow> nat \<Rightarrow> timer_mem \<Rightarrow> timer_mem option" where
  [code]: "timer_offline_loop cpu start s =
    (if tq_timeout (timer_queues s cpu) \<noteq> TIMER_INVALID_TIMEOUT then
       Option.bind (timer_offline_take cpu s) (\<lambda>(timer, s).
         Option.bind (timer_find_target cpu timer start start s) (\<lambda>(start, s). timer_offline_loop cpu start s))
     else Some s)"

definition timer_handle_power_cpu_offline :: "nat \<Rightarrow> timer_mem \<Rightarrow> timer_mem option" where
  "timer_handle_power_cpu_offline our_index s =
    timer_offline_loop our_index ((our_index + 1) mod num_cpus s) (timer_offline_begin our_index s)"

end
