(* ===== verification/Timer_System.thy ===== *)
theory Timer_System
  imports Timer
begin

text \<open>
  What the sections of the timer queues do to the lists of timers, and the transition system of the CPUs.
\<close>

section \<open>The lists of timers\<close>

definition head_of :: "timer_mem \<Rightarrow> nat \<Rightarrow> ptr" where
  "head_of m c = tq_list (timer_queues m c)"

definition heads_of :: "timer_mem \<Rightarrow> ptr set" where
  "heads_of m = head_of m ` {..<num_cpus m}"

lemma upd_timer_simps [simp]:
  "num_cpus (upd_timer t f m) = num_cpus m" "timers (upd_timer t f m) = (timers m)(t := f (timers m t))"
  "timer_queues (upd_timer t f m) = timer_queues m" "timer_nodes (upd_timer t f m) = timer_nodes m"
  "platform_timer (upd_timer t f m) = platform_timer m" "ipi_pending (upd_timer t f m) = ipi_pending m"
  "timer_actions (upd_timer t f m) = timer_actions m" "platform_cpu_functional (upd_timer t f m) = platform_cpu_functional m"
  by (simp_all add: upd_timer_def)

lemma upd_tq_simps [simp]:
  "num_cpus (upd_tq c g m) = num_cpus m" "timer_queues (upd_tq c g m) = (timer_queues m)(c := g (timer_queues m c))"
  "timers (upd_tq c g m) = timers m" "timer_nodes (upd_tq c g m) = timer_nodes m"
  "platform_timer (upd_tq c g m) = platform_timer m" "ipi_pending (upd_tq c g m) = ipi_pending m"
  "timer_actions (upd_tq c g m) = timer_actions m" "platform_cpu_functional (upd_tq c g m) = platform_cpu_functional m"
  by (simp_all add: upd_tq_def)

text \<open>No operation moves the heads of the lists.\<close>

lemma head_of_same: "(\<And>c. tq_list (timer_queues m' c) = tq_list (timer_queues m c)) \<Longrightarrow> head_of m' = head_of m"
  by (rule ext) (simp add: head_of_def)

lemma heads_of_same:
  "(\<And>c. tq_list (timer_queues m' c) = tq_list (timer_queues m c)) \<Longrightarrow> num_cpus m' = num_cpus m \<Longrightarrow> heads_of m' = heads_of m"
  using head_of_same [of m' m] by (simp add: heads_of_def)

lemma head_of_upd [simp]: "head_of (m\<lparr>timer_nodes := n\<rparr>) c = head_of m c" "head_of (upd_timer t f m) c = head_of m c"
  by (simp_all add: head_of_def)

definition first_timeout :: "timer_mem \<Rightarrow> ptr list \<Rightarrow> u64" where
  "first_timeout m ts = (case ts of [] \<Rightarrow> TIMER_INVALID_TIMEOUT | t # _ \<Rightarrow> timeout (timers m t))"

lemma first_timeout_same: "timers m' = timers m \<Longrightarrow> first_timeout m' = first_timeout m"
  by (rule ext) (simp add: first_timeout_def split: list.split)

text \<open>
  The lists are sorted and disjoint, a queue has the timeout of its first timer, a timer in a list has
  its queue, and a timer in no list is marked as such. \<open>TT\<close> is the set of all timers, and \<open>L\<close> gives the
  timers of each list.
\<close>

definition unlisted :: "(ptr \<Rightarrow> ptr list) \<Rightarrow> timer_mem \<Rightarrow> ptr \<Rightarrow> bool" where
  "unlisted L m t \<longleftrightarrow> (\<forall>h \<in> heads_of m. t \<notin> set (L h))"

definition queue_ok :: "ptr set \<Rightarrow> (ptr \<Rightarrow> ptr list) \<Rightarrow> timer_mem \<Rightarrow> nat \<Rightarrow> bool" where
  "queue_ok TT L m c \<longleftrightarrow> sorted (map (\<lambda>t. timeout (timers m t)) (L (head_of m c))) \<and>
    tq_timeout (timer_queues m c) = first_timeout m (L (head_of m c)) \<and>
    (\<forall>t \<in> set (L (head_of m c)). t \<in> TT \<and> queue (timers m t) = Some c)"

definition tm_data :: "ptr set \<Rightarrow> (ptr \<Rightarrow> ptr list) \<Rightarrow> timer_mem \<Rightarrow> bool" where
  "tm_data TT L m \<longleftrightarrow> inj_on (head_of m) {..<num_cpus m} \<and> lists (timer_nodes m) (heads_of m) L \<and>
    (\<forall>c < num_cpus m. queue_ok TT L m c) \<and>
    (\<forall>t \<in> TT. t \<noteq> NULL \<and> t \<notin> heads_of m \<and> (unlisted L m t \<longrightarrow> ln_prev (timer_nodes m t) = NULL))"

lemma tm_dataD:
  assumes "tm_data TT L m"
  shows "inj_on (head_of m) {..<num_cpus m}" "lists (timer_nodes m) (heads_of m) L" "c < num_cpus m \<Longrightarrow> queue_ok TT L m c"
    "t \<in> TT \<Longrightarrow> t \<noteq> NULL" "t \<in> TT \<Longrightarrow> t \<notin> heads_of m" "t \<in> TT \<Longrightarrow> unlisted L m t \<Longrightarrow> ln_prev (timer_nodes m t) = NULL"
  using assms unfolding tm_data_def by blast+

lemma tm_dataI:
  assumes "inj_on (head_of m) {..<num_cpus m}" "lists (timer_nodes m) (heads_of m) L" "\<And>c. c < num_cpus m \<Longrightarrow> queue_ok TT L m c"
    "\<And>t. t \<in> TT \<Longrightarrow> t \<noteq> NULL \<and> t \<notin> heads_of m" "\<And>t. t \<in> TT \<Longrightarrow> unlisted L m t \<Longrightarrow> ln_prev (timer_nodes m t) = NULL"
  shows "tm_data TT L m"
  unfolding tm_data_def using assms by blast

lemma queue_okD:
  assumes "queue_ok TT L m c"
  shows "sorted (map (\<lambda>t. timeout (timers m t)) (L (head_of m c)))" "tq_timeout (timer_queues m c) = first_timeout m (L (head_of m c))"
    "t \<in> set (L (head_of m c)) \<Longrightarrow> t \<in> TT" "t \<in> set (L (head_of m c)) \<Longrightarrow> queue (timers m t) = Some c"
  using assms unfolding queue_ok_def by blast+

lemma head_in_heads [simp]: "c < num_cpus m \<Longrightarrow> head_of m c \<in> heads_of m"
  by (simp add: heads_of_def)

lemma head_eq: "tm_data TT L m \<Longrightarrow> c < num_cpus m \<Longrightarrow> d < num_cpus m \<Longrightarrow> head_of m c = head_of m d \<longleftrightarrow> c = d"
  using tm_dataD(1) [of TT L m] by (auto simp: inj_on_def)

lemma tm_list: "tm_data TT L m \<Longrightarrow> c < num_cpus m \<Longrightarrow> is_list (timer_nodes m) (head_of m c) (L (head_of m c))"
  by (rule lists_list [OF tm_dataD(2)]) simp_all

lemma unlistedD: "unlisted L m t \<Longrightarrow> c < num_cpus m \<Longrightarrow> t \<notin> set (L (head_of m c))"
  by (auto simp: unlisted_def heads_of_def)

lemma listed_queue: "tm_data TT L m \<Longrightarrow> c < num_cpus m \<Longrightarrow> t \<in> set (L (head_of m c)) \<Longrightarrow> queue (timers m t) = Some c \<and> t \<in> TT"
  using tm_dataD(3) queue_okD(3,4) by blast

lemma unlisted_iff: "unlisted L m t \<longleftrightarrow> (\<forall>c < num_cpus m. t \<notin> set (L (head_of m c)))"
  by (auto simp: unlisted_def heads_of_def)

lemma unlisted_updD:
  assumes "unlisted (L(h := ts)) m t" "h \<in> heads_of m"
  shows "t \<notin> set ts" "t \<notin> set (L h) \<Longrightarrow> unlisted L m t"
  using assms unfolding unlisted_def by (metis fun_upd_apply)+

text \<open>A timer with a queue is in the list of this queue or in none.\<close>

lemma queue_unlisted:
  assumes "tm_data TT L m" "queue (timers m t) = q" "\<And>c. q = Some c \<Longrightarrow> t \<notin> set (L (head_of m c))"
  shows "unlisted L m t"
  using listed_queue [OF assms(1)] assms(2,3) unfolding unlisted_iff by blast

section \<open>The sections\<close>

text \<open>Changes of a timer that is in no list.\<close>

lemma upd_unlisted:
  assumes d: "tm_data TT L m" and u: "unlisted L m t"
  shows "tm_data TT L (upd_timer t f m)"
proof (rule tm_dataI)
  have h: "head_of (upd_timer t f m) = head_of m" "heads_of (upd_timer t f m) = heads_of m" by (rule head_of_same heads_of_same; simp)+
  show "inj_on (head_of (upd_timer t f m)) {..<num_cpus (upd_timer t f m)}" using tm_dataD(1) [OF d] by (simp add: h)
  show "lists (timer_nodes (upd_timer t f m)) (heads_of (upd_timer t f m)) L" using tm_dataD(2) [OF d] by (simp add: h)
  show "t' \<noteq> NULL \<and> t' \<notin> heads_of (upd_timer t f m)" if "t' \<in> TT" for t' using tm_dataD(4,5) [OF d that] by (simp add: h)
  show "ln_prev (timer_nodes (upd_timer t f m) t') = NULL" if "t' \<in> TT" "unlisted L (upd_timer t f m) t'" for t'
    using tm_dataD(6) [OF d that(1)] that(2) by (simp add: unlisted_def h)
  fix c assume "c < num_cpus (upd_timer t f m)"
  then have c: "c < num_cpus m" by simp
  have "timers (upd_timer t f m) t' = timers m t'" if "t' \<in> set (L (head_of m c))" for t' using that unlistedD [OF u c] by auto
  then show "queue_ok TT L (upd_timer t f m) c" using tm_dataD(3) [OF d c]
    by (auto simp: queue_ok_def h first_timeout_def simp del: upd_timer_simps(2) split: list.split cong: map_cong)
qed

text \<open>The change of one list.\<close>

lemma change_list:
  assumes d: "tm_data TT L m" and c: "c < num_cpus m" and l: "lists nodes (heads_of m) (L(head_of m c := ts))"
    and s: "sorted (map (\<lambda>t. timeout (timers m t)) ts)" "\<And>t. t \<in> set ts \<Longrightarrow> t \<in> TT \<and> queue (timers m t) = Some c"
    and p: "\<And>t. t \<in> TT \<Longrightarrow> unlisted (L(head_of m c := ts)) m t \<Longrightarrow> ln_prev (nodes t) = NULL"
  shows "tm_data TT (L(head_of m c := ts)) (upd_tq c (\<lambda>q. q\<lparr>tq_timeout := first_timeout m ts\<rparr>) (m\<lparr>timer_nodes := nodes\<rparr>))"
    (is "tm_data TT ?L ?m")
proof (rule tm_dataI)
  have h: "head_of ?m = head_of m" "heads_of ?m = heads_of m" by (rule head_of_same heads_of_same; simp)+
  show "inj_on (head_of ?m) {..<num_cpus ?m}" using tm_dataD(1) [OF d] by (simp add: h)
  show "lists (timer_nodes ?m) (heads_of ?m) ?L" using l by (simp add: h)
  show "t' \<noteq> NULL \<and> t' \<notin> heads_of ?m" if "t' \<in> TT" for t' using tm_dataD(4,5) [OF d that] by (simp add: h)
  show "ln_prev (timer_nodes ?m t') = NULL" if "t' \<in> TT" "unlisted ?L ?m t'" for t'
    using p [OF that(1)] that(2) by (simp add: unlisted_def h)
  have f: "first_timeout ?m = first_timeout m" by (rule first_timeout_same) simp
  fix e assume "e < num_cpus ?m"
  then have e: "e < num_cpus m" by simp
  show "queue_ok TT ?L ?m e"
  proof (cases "e = c")
    case True
    then show ?thesis using s by (simp add: queue_ok_def h f)
  next
    case False
    then have "?L (head_of m e) = L (head_of m e)" using head_eq [OF d c e] by simp
    then show ?thesis using tm_dataD(3) [OF d e] False by (simp add: queue_ok_def h f)
  qed
qed

text \<open>What a section leaves alone, apart from the timeout of a queue, the timer and the list nodes.\<close>

definition same_rest :: "ptr \<Rightarrow> nat \<Rightarrow> timer_mem \<Rightarrow> timer_mem \<Rightarrow> bool" where
  "same_rest t c m m' \<longleftrightarrow> num_cpus m' = num_cpus m \<and> platform_cpu_functional m' = platform_cpu_functional m \<and>
    timer_actions m' = timer_actions m \<and> (\<forall>t'. t' \<noteq> t \<longrightarrow> timers m' t' = timers m t') \<and>
    (\<forall>d. tq_list (timer_queues m' d) = tq_list (timer_queues m d) \<and> online (timer_queues m' d) = online (timer_queues m d) \<and>
      (d \<noteq> c \<longrightarrow> tq_timeout (timer_queues m' d) = tq_timeout (timer_queues m d) \<and> platform_timer m' d = platform_timer m d \<and>
        ipi_pending m' d = ipi_pending m d))"

lemma same_tq: "x = tq_timeout (timer_queues m c) \<Longrightarrow> upd_tq c (\<lambda>q. q\<lparr>tq_timeout := x\<rparr>) m = m"
  by (simp add: upd_tq_def)

lemma first_sorted:
  assumes "sorted (map (\<lambda>t. timeout (timers m t)) (xs @ t # ys))"
  shows "first_timeout m (xs @ t # ys) \<le> first_timeout m (xs @ ys)"
  using assms by (cases xs; cases ys) (auto simp: first_timeout_def TIMER_INVALID_TIMEOUT_def)

lemma remove_sorted: "sorted (map f (xs @ t # ys)) \<Longrightarrow> sorted (map f (xs @ ys))"
  by (simp add: sorted_append)

lemma delete_listed:
  assumes d: "tm_data TT L m" and c: "c < num_cpus m" and t: "L (head_of m c) = xs @ t # ys"
  shows "\<exists>n. list_delete_node (head_of m c) t (timer_nodes m) = Some (xs = [] \<and> ys \<noteq> [], n) \<and> is_list n (head_of m c) (xs @ ys) \<and>
    tm_data TT (L(head_of m c := xs @ ys)) (upd_tq c (\<lambda>q. q\<lparr>tq_timeout := first_timeout m (xs @ ys)\<rparr>) (m\<lparr>timer_nodes := n\<rparr>)) \<and>
    unlisted (L(head_of m c := xs @ ys)) (upd_tq c (\<lambda>q. q\<lparr>tq_timeout := first_timeout m (xs @ ys)\<rparr>) (m\<lparr>timer_nodes := n\<rparr>)) t"
proof -
  let ?h = "head_of m c"
  note q = queue_okD [OF tm_dataD(3) [OF d c]]
  have hs: "?h \<in> heads_of m" using c by simp
  obtain n where n: "list_delete_node ?h t (timer_nodes m) = Some (xs = [] \<and> ys \<noteq> [], n)" "lists n (heads_of m) (L(?h := xs @ ys))"
      "ln_prev (n t) = NULL" "\<And>p. p \<notin> set (?h # L ?h) \<Longrightarrow> n p = timer_nodes m p"
    using lists_delete [OF tm_dataD(2) [OF d] hs t] by blast
  let ?m = "upd_tq c (\<lambda>q. q\<lparr>tq_timeout := first_timeout m (xs @ ys)\<rparr>) (m\<lparr>timer_nodes := n\<rparr>)"
  have "tm_data TT (L(?h := xs @ ys)) ?m"
  proof (rule change_list [OF d c n(2)])
    show "sorted (map (\<lambda>t. timeout (timers m t)) (xs @ ys))" using q(1) unfolding t by (rule remove_sorted)
    show "t' \<in> TT \<and> queue (timers m t') = Some c" if "t' \<in> set (xs @ ys)" for t' using q(3,4) [of t'] that t by auto
    show "ln_prev (n t') = NULL" if t': "t' \<in> TT" "unlisted (L(?h := xs @ ys)) m t'" for t'
    proof (cases "t' = t")
      case False
      then have nl: "t' \<notin> set (L ?h)" using unlisted_updD(1) [OF t'(2) hs] t by auto
      then have "ln_prev (timer_nodes m t') = NULL" using unlisted_updD(2) [OF t'(2) hs] tm_dataD(6) [OF d t'(1)] by blast
      moreover have "t' \<notin> set (?h # L ?h)" using nl tm_dataD(5) [OF d t'(1)] hs by auto
      ultimately show ?thesis using n(4) by metis
    qed (simp add: n(3))
  qed
  moreover have "unlisted (L(?h := xs @ ys)) ?m t"
  proof -
    have "t \<notin> set (xs @ ys)" using lists_list [OF tm_dataD(2) [OF d] hs] t by (auto simp: is_list_def)
    moreover have "t \<notin> set (L (head_of m e))" if "e < num_cpus m" "e \<noteq> c" for e using listed_queue [OF d that(1), of t] q(4) [of t] t that(2) by auto
    moreover have h: "head_of ?m = head_of m" by (rule head_of_same) simp
    ultimately show ?thesis using head_eq [OF d c] unfolding unlisted_iff h by fastforce
  qed
  ultimately show ?thesis using n(1) lists_list [OF n(2) hs] by auto
qed

lemma dequeue_listed:
  assumes d: "tm_data TT L m" and c: "c < num_cpus m" and t: "L (head_of m c) = xs @ t # ys"
  shows "\<exists>nt m'. timer_dequeue_internal c t clr m = Some (nt, m') \<and> tm_data TT (L(head_of m c := xs @ ys)) m' \<and> same_rest t c m m' \<and>
    platform_timer m' c = platform_timer m c \<and> ipi_pending m' c = ipi_pending m c \<and>
    timers m' t = (if clr then (timers m t)\<lparr>queue := None\<rparr> else timers m t) \<and>
    tq_timeout (timer_queues m c) \<le> tq_timeout (timer_queues m' c) \<and>
    (\<not> nt \<longrightarrow> tq_timeout (timer_queues m' c) = tq_timeout (timer_queues m c))"
proof -
  let ?h = "head_of m c"
  note q = queue_okD [OF tm_dataD(3) [OF d c]]
  obtain n where n: "list_delete_node ?h t (timer_nodes m) = Some (xs = [] \<and> ys \<noteq> [], n)" "is_list n ?h (xs @ ys)"
      "tm_data TT (L(?h := xs @ ys)) (upd_tq c (\<lambda>q. q\<lparr>tq_timeout := first_timeout m (xs @ ys)\<rparr>) (m\<lparr>timer_nodes := n\<rparr>))" (is "tm_data _ _ ?m")
      "unlisted (L(?h := xs @ ys)) (upd_tq c (\<lambda>q. q\<lparr>tq_timeout := first_timeout m (xs @ ys)\<rparr>) (m\<lparr>timer_nodes := n\<rparr>)) t"
    using delete_listed [OF d c t] by blast
  have first: "xs = [] \<longrightarrow> ys = [] \<longrightarrow> first_timeout m (xs @ ys) = TIMER_INVALID_TIMEOUT" "xs \<noteq> [] \<longrightarrow> first_timeout m (xs @ ys) = tq_timeout (timer_queues m c)"
    using q(2) t by (cases xs; cases ys; simp add: first_timeout_def)+
  have e: "timer_dequeue_internal c t clr m = Some (xs = [], if clr then upd_timer t (\<lambda>t. t\<lparr>queue := None\<rparr>) ?m else ?m)"
    using n(1) first list_queries [OF n(2)] same_tq [of "first_timeout m (xs @ ys)" "m\<lparr>timer_nodes := n\<rparr>" c]
    by (cases xs; cases ys) (simp_all add: timer_dequeue_internal_def head_of_def [symmetric] Let_def first_timeout_def)
  have "tm_data TT (L(?h := xs @ ys)) (if clr then upd_timer t (\<lambda>t. t\<lparr>queue := None\<rparr>) ?m else ?m)"
    using n(3) upd_unlisted [OF n(3,4)] by simp
  moreover have "tq_timeout (timer_queues m c) \<le> first_timeout m (xs @ ys)" using first_sorted [of m xs t ys] q(1,2) t by simp
  ultimately show ?thesis using e first(2) by (intro exI [of _ "xs = []"]) (auto simp: same_rest_def)
qed

lemma dequeue_unlisted:
  assumes d: "tm_data TT L m" and c: "c < num_cpus m" and t: "t \<in> TT" "unlisted L m t"
  shows "timer_dequeue_internal c t clr m = Some (L (head_of m c) = [], if clr then upd_timer t (\<lambda>t. t\<lparr>queue := None\<rparr>) m else m)"
proof -
  have il: "is_list (timer_nodes m) (head_of m c) (L (head_of m c))" using lists_list [OF tm_dataD(2) [OF d]] c by simp
  then have h: "head_of m c \<noteq> NULL" by (auto simp: is_list_def)
  have "upd_tq c (\<lambda>q. q\<lparr>tq_timeout := TIMER_INVALID_TIMEOUT\<rparr>) m = m" if "L (head_of m c) = []"
    using queue_okD(2) [OF tm_dataD(3) [OF d c]] that by (intro same_tq) (simp add: first_timeout_def)
  then show ?thesis using tm_dataD(4) [OF d t(1)] tm_dataD(6) [OF d t] h list_queries [OF il]
    by (simp add: timer_dequeue_internal_def list_delete_node_def head_of_def [symmetric] Let_def)
qed

lemma insert_sorted:
  assumes "sorted (map f (ys @ zs))" "\<forall>y \<in> set ys. \<not> f t < f y" "zs \<noteq> [] \<longrightarrow> f t < f (hd zs)"
  shows "sorted (map f (ys @ t # zs))"
proof -
  have "f t \<le> f z" if "z \<in> set zs" for z
    using assms(1,3) that by (cases zs) (auto simp: sorted_append intro: order.trans [OF less_imp_le])
  then show ?thesis using assms(1,2) by (auto simp: sorted_append not_less)
qed

lemma insert_listed:
  assumes d: "tm_data TT L m" and c: "c < num_cpus m" and t: "t \<in> TT" "unlisted L m t" "queue (timers m t) = Some c" "timeout (timers m t) = x"
  shows "\<exists>ys zs n. L (head_of m c) = ys @ zs \<and>
    list_insert_in_order (tq_list (timer_queues m c)) t (is_timeout_a_smaller_than_b m) (timer_nodes m) = Some (ys = [], n) \<and>
    tm_data TT (L(head_of m c := ys @ t # zs))
      (upd_tq c (\<lambda>q. q\<lparr>tq_timeout := (if ys = [] then x else tq_timeout q)\<rparr>) (m\<lparr>timer_nodes := n\<rparr>))"
proof -
  let ?h = "head_of m c"
  note q = queue_okD [OF tm_dataD(3) [OF d c]] and l = tm_dataD(2) [OF d]
  have hs: "?h \<in> heads_of m" using c by simp
  have "\<forall>h' \<in> heads_of m. t \<notin> set (h' # L h')" using t(2) tm_dataD(5) [OF d t(1)] by (auto simp: unlisted_def)
  from lists_insert_in_order [OF l hs tm_dataD(4) [OF d t(1)] this, of "is_timeout_a_smaller_than_b m"]
  obtain ys zs n where n: "L ?h = ys @ zs" "\<forall>y \<in> set ys. \<not> is_timeout_a_smaller_than_b m t y" "zs \<noteq> [] \<longrightarrow> is_timeout_a_smaller_than_b m t (hd zs)"
      "list_insert_in_order ?h t (is_timeout_a_smaller_than_b m) (timer_nodes m) = Some (ys = [], n)"
      "lists n (heads_of m) (L(?h := ys @ t # zs))" "\<And>p. p \<notin> set (t # ?h # L ?h) \<Longrightarrow> n p = timer_nodes m p"
    by blast
  let ?m = "upd_tq c (\<lambda>q. q\<lparr>tq_timeout := first_timeout m (ys @ t # zs)\<rparr>) (m\<lparr>timer_nodes := n\<rparr>)"
  have "tm_data TT (L(?h := ys @ t # zs)) ?m"
  proof (rule change_list [OF d c n(5)])
    show "sorted (map (\<lambda>t. timeout (timers m t)) (ys @ t # zs))"
      using q(1) n(1-3) by (intro insert_sorted) (simp_all add: is_timeout_a_smaller_than_b_def)
    show "t' \<in> TT \<and> queue (timers m t') = Some c" if "t' \<in> set (ys @ t # zs)" for t' using q(3,4) [of t'] that n(1) t by auto
    show "ln_prev (n t') = NULL" if t': "t' \<in> TT" "unlisted (L(?h := ys @ t # zs)) m t'" for t'
    proof -
      have nl: "t' \<notin> set (t # L ?h)" using unlisted_updD(1) [OF t'(2) hs] n(1) by auto
      then have "ln_prev (timer_nodes m t') = NULL" using unlisted_updD(2) [OF t'(2) hs] tm_dataD(6) [OF d t'(1)] by simp
      moreover have "t' \<notin> set (t # ?h # L ?h)" using nl tm_dataD(5) [OF d t'(1)] hs by auto
      ultimately show ?thesis using n(6) by metis
    qed
  qed
  moreover have "first_timeout m (ys @ t # zs) = (if ys = [] then x else tq_timeout (timer_queues m c))"
    using q(2) n(1) t(4) by (cases ys) (auto simp: first_timeout_def)
  then have "?m = upd_tq c (\<lambda>q. q\<lparr>tq_timeout := (if ys = [] then x else tq_timeout q)\<rparr>) (m\<lparr>timer_nodes := n\<rparr>)"
    by (simp add: upd_tq_def)
  ultimately show ?thesis using n(1,4) by (auto simp: head_of_def)
qed

section \<open>The hardware timers\<close>

text \<open>
  The hardware timer of a CPU fires no later than its queue needs, or the CPU has been told to look at
  its queue.
\<close>

definition armed :: "timer_mem \<Rightarrow> nat \<Rightarrow> bool" where
  "armed m c \<longleftrightarrow> tq_timeout (timer_queues m c) = TIMER_INVALID_TIMEOUT \<or>
    (\<exists>h. platform_timer m c = Some h \<and> h \<le> tq_timeout (timer_queues m c)) \<or>
    bit (ipi_pending m c) (reason_number IPI_REASON_TIMER_QUEUE_SYNC)"

lemma update_timeout_simps:
  "\<exists>m'. timer_update_timeout c c m = Some m' \<and> armed m' c \<and> timers m' = timers m \<and> timer_queues m' = timer_queues m \<and>
    timer_nodes m' = timer_nodes m \<and> num_cpus m' = num_cpus m \<and> platform_cpu_functional m' = platform_cpu_functional m \<and>
    timer_actions m' = timer_actions m \<and> ipi_pending m' = ipi_pending m \<and> (\<forall>d. d \<noteq> c \<longrightarrow> platform_timer m' d = platform_timer m d)"
  by (simp add: timer_update_timeout_def armed_def platform_timer_set_timeout_def platform_timer_cancel_timeout_def)

lemma tm_data_cong:
  assumes "tm_data TT L m" "timers m' = timers m" "timer_nodes m' = timer_nodes m" "num_cpus m' = num_cpus m"
    "\<And>c. tq_list (timer_queues m' c) = tq_list (timer_queues m c) \<and> tq_timeout (timer_queues m' c) = tq_timeout (timer_queues m c)"
  shows "tm_data TT L m'"
proof -
  have h: "head_of m' = head_of m" "heads_of m' = heads_of m" by (rule head_of_same heads_of_same; simp add: assms)+
  show ?thesis using assms first_timeout_same [OF assms(2)]
    unfolding tm_data_def queue_ok_def unlisted_def h by simp
qed

lemma armed_max: "tq_timeout (timer_queues m c) \<le> tq_timeout (timer_queues m' c) \<Longrightarrow> platform_timer m' c = platform_timer m c \<Longrightarrow>
    ipi_pending m' c = ipi_pending m c \<Longrightarrow> armed m c \<Longrightarrow> armed m' c"
  unfolding armed_def TIMER_INVALID_TIMEOUT_def by (auto simp: word_order.extremum_unique)

lemma enqueue_section:
  assumes d: "tm_data TT L m" and c: "c < num_cpus m" "online (timer_queues m c)" and t: "t \<in> TT" "unlisted L m t" "queue (timers m t) = None"
  shows "\<exists>m' ys zs. timer_enqueue_internal c c t x m = Some m' \<and> L (head_of m c) = ys @ zs \<and> tm_data TT (L(head_of m c := ys @ t # zs)) m' \<and>
    same_rest t c m m' \<and> timers m' t = (timers m t)\<lparr>queue := Some c, timeout := x\<rparr> \<and> (armed m c \<longrightarrow> armed m' c)"
proof -
  let ?m = "upd_timer t (\<lambda>t. t\<lparr>queue := Some c, timeout := x\<rparr>) m"
  have h: "head_of ?m = head_of m" "heads_of ?m = heads_of m" by (rule head_of_same heads_of_same; simp)+
  have "unlisted L ?m t" using t(2) by (simp add: unlisted_def h)
  from insert_listed [OF upd_unlisted [OF d t(2)] _ t(1) this, of c x] c(1)
  obtain ys zs n where n: "L (head_of m c) = ys @ zs"
      "list_insert_in_order (tq_list (timer_queues m c)) t (is_timeout_a_smaller_than_b ?m) (timer_nodes m) = Some (ys = [], n)"
      "tm_data TT (L(head_of m c := ys @ t # zs))
        (upd_tq c (\<lambda>q. q\<lparr>tq_timeout := (if ys = [] then x else tq_timeout q)\<rparr>) (?m\<lparr>timer_nodes := n\<rparr>))" (is "tm_data _ _ ?m'")
    unfolding h by auto
  show ?thesis
  proof (cases "ys = []")
    case True
    obtain m' where m': "timer_update_timeout c c ?m' = Some m'" "armed m' c" "timers m' = timers ?m'" "timer_queues m' = timer_queues ?m'"
        "timer_nodes m' = timer_nodes ?m'" "num_cpus m' = num_cpus ?m'" "platform_cpu_functional m' = platform_cpu_functional ?m'"
        "timer_actions m' = timer_actions ?m'" "ipi_pending m' = ipi_pending ?m'" "\<forall>d. d \<noteq> c \<longrightarrow> platform_timer m' d = platform_timer ?m' d"
      using update_timeout_simps by blast
    have "timer_enqueue_internal c c t x m = Some m'" using n(2) m'(1) True c(2) t(3) by (simp add: timer_enqueue_internal_def)
    moreover have "same_rest t c m m'" using m'(3-10) by (simp add: same_rest_def)
    ultimately show ?thesis using n(1) tm_data_cong [OF n(3) m'(3,5,6)] m'(2,3,4) by auto
  next
    case False
    then have "timer_enqueue_internal c c t x m = Some ?m'" using n(2) c(2) t(3) by (simp add: timer_enqueue_internal_def upd_tq_def)
    moreover have "same_rest t c m ?m'" by (simp add: same_rest_def False)
    moreover have "armed m c \<longrightarrow> armed ?m' c" using False by (simp add: armed_def)
    ultimately show ?thesis using n(1,3) by auto
  qed
qed

text \<open>The update of a timer that stays on its CPU: deletion and insertion, as one change of its list.\<close>

lemma update_moves:
  assumes d: "tm_data TT L m" and c: "c < num_cpus m" and t: "L (head_of m c) = xs @ t # ys"
  shows "\<exists>n n' ys' zs'. list_delete_node (head_of m c) t (timer_nodes m) = Some (xs = [] \<and> ys \<noteq> [], n) \<and> xs @ ys = ys' @ zs' \<and>
    list_insert_in_order (head_of m c) t (is_timeout_a_smaller_than_b (upd_timer t (\<lambda>t. t\<lparr>timeout := x\<rparr>) m)) n = Some (ys' = [], n') \<and>
    is_list n' (head_of m c) (ys' @ t # zs') \<and>
    tm_data TT (L(head_of m c := ys' @ t # zs')) (upd_tq c (\<lambda>q. q\<lparr>tq_timeout := (if ys' = [] then x else first_timeout m (xs @ ys))\<rparr>)
      ((upd_timer t (\<lambda>t. t\<lparr>timeout := x\<rparr>) m)\<lparr>timer_nodes := n'\<rparr>))"
proof -
  let ?h = "head_of m c"
  obtain n where n: "list_delete_node ?h t (timer_nodes m) = Some (xs = [] \<and> ys \<noteq> [], n)"
      "tm_data TT (L(?h := xs @ ys)) (upd_tq c (\<lambda>q. q\<lparr>tq_timeout := first_timeout m (xs @ ys)\<rparr>) (m\<lparr>timer_nodes := n\<rparr>))" (is "tm_data _ ?L ?m")
      "unlisted (L(?h := xs @ ys)) (upd_tq c (\<lambda>q. q\<lparr>tq_timeout := first_timeout m (xs @ ys)\<rparr>) (m\<lparr>timer_nodes := n\<rparr>)) t"
    using delete_listed [OF d c t] by blast
  let ?m2 = "upd_timer t (\<lambda>t. t\<lparr>timeout := x\<rparr>) ?m"
  have h: "head_of ?m2 = head_of m" "heads_of ?m2 = heads_of ?m" "heads_of ?m = heads_of m" by (rule head_of_same heads_of_same; simp)+
  have q: "t \<in> TT" "queue (timers m t) = Some c" using listed_queue [OF d c, of t] t by simp_all
  have cmp: "is_timeout_a_smaller_than_b ?m2 = is_timeout_a_smaller_than_b (upd_timer t (\<lambda>t. t\<lparr>timeout := x\<rparr>) m)"
    by (intro ext) (simp add: is_timeout_a_smaller_than_b_def)
  have "unlisted ?L ?m2 t" using n(3) unfolding unlisted_def h(2) .
  from insert_listed [OF upd_unlisted [OF n(2,3)] _ q(1) this, of c x] c q(2)
  obtain ys' zs' n' where i: "xs @ ys = ys' @ zs'" "list_insert_in_order ?h t (is_timeout_a_smaller_than_b ?m2) n = Some (ys' = [], n')"
      "tm_data TT (L(?h := ys' @ t # zs')) (upd_tq c (\<lambda>q. q\<lparr>tq_timeout := (if ys' = [] then x else tq_timeout q)\<rparr>) (?m2\<lparr>timer_nodes := n'\<rparr>))"
    unfolding h(1) by (auto simp: head_of_def [symmetric])
  have e: "upd_tq c (\<lambda>q. q\<lparr>tq_timeout := (if ys' = [] then x else tq_timeout q)\<rparr>) (?m2\<lparr>timer_nodes := n'\<rparr>) =
      upd_tq c (\<lambda>q. q\<lparr>tq_timeout := (if ys' = [] then x else first_timeout m (xs @ ys))\<rparr>) ((upd_timer t (\<lambda>t. t\<lparr>timeout := x\<rparr>) m)\<lparr>timer_nodes := n'\<rparr>)"
    by (simp add: upd_tq_def upd_timer_def)
  have "head_of (upd_tq c (\<lambda>q. q\<lparr>tq_timeout := (if ys' = [] then x else tq_timeout q)\<rparr>) (?m2\<lparr>timer_nodes := n'\<rparr>)) = head_of m"
    by (rule head_of_same) simp
  then have "is_list n' ?h (ys' @ t # zs')" using tm_list [OF i(3), of c] c by simp
  then show ?thesis using n(1) i(1) i(2) [unfolded cmp] i(3) [unfolded e] by blast
qed

lemma update_section:
  assumes d: "tm_data TT L m" and c: "c < num_cpus m" "online (timer_queues m c)" and t: "t \<in> set (L (head_of m c))"
  shows "\<exists>m' ts. timer_update_internal c c t x m = Some m' \<and> tm_data TT (L(head_of m c := ts)) m' \<and> set ts = set (L (head_of m c)) \<and>
    same_rest t c m m' \<and> timers m' t = (timers m t)\<lparr>timeout := x\<rparr> \<and> (armed m c \<longrightarrow> armed m' c)"
proof (cases "timeout (timers m t) = x")
  case True
  have "(timers m t)\<lparr>timeout := x\<rparr> = timers m t" using True by (cases "timers m t") simp
  then show ?thesis using True d c(2) by (intro exI [of _ m] exI [of _ "L (head_of m c)"]) (simp add: timer_update_internal_def same_rest_def)
next
  case x: False
  let ?h = "head_of m c"
  obtain xs ys where xy: "L ?h = xs @ t # ys" using t by (meson split_list)
  obtain n n' ys' zs' where u: "list_delete_node ?h t (timer_nodes m) = Some (xs = [] \<and> ys \<noteq> [], n)" "xs @ ys = ys' @ zs'"
      "list_insert_in_order ?h t (is_timeout_a_smaller_than_b (upd_timer t (\<lambda>t. t\<lparr>timeout := x\<rparr>) m)) n = Some (ys' = [], n')"
      "is_list n' ?h (ys' @ t # zs')"
      "tm_data TT (L(?h := ys' @ t # zs')) (upd_tq c (\<lambda>q. q\<lparr>tq_timeout := (if ys' = [] then x else first_timeout m (xs @ ys))\<rparr>)
        ((upd_timer t (\<lambda>t. t\<lparr>timeout := x\<rparr>) m)\<lparr>timer_nodes := n'\<rparr>))" (is "tm_data _ _ ?m'")
    using update_moves [OF d c(1) xy] by blast
  have st: "set (ys' @ t # zs') = set (L ?h)" using u(2) xy by (metis Un_insert_right list.simps(15) set_append)
  have cmp: "is_timeout_a_smaller_than_b (upd_timer t f (m\<lparr>timer_nodes := n\<rparr>)) = is_timeout_a_smaller_than_b (upd_timer t f m)" for f
    by (intro ext) (simp add: is_timeout_a_smaller_than_b_def)
  have nodes: "(upd_timer t f (m\<lparr>timer_nodes := n\<rparr>))\<lparr>timer_nodes := n'\<rparr> = (upd_timer t f m)\<lparr>timer_nodes := n'\<rparr>" for f
    by (simp add: upd_timer_def)
  show ?thesis
  proof (cases "xs = [] \<and> ys \<noteq> [] \<or> ys' = []")
    case True
    have "timeout (((timers m)(t := (timers m t)\<lparr>timeout := x\<rparr>)) (hd (ys' @ t # zs'))) = (if ys' = [] then x else first_timeout m (xs @ ys))"
    proof (cases ys')
      case (Cons y zs)
      then have "y \<noteq> t" using u(4) by (auto simp: is_list_def)
      then show ?thesis using Cons u(2) by (simp add: first_timeout_def)
    qed simp
    moreover have "list_get_head ?h n' = Some (hd (ys' @ t # zs'))" using list_queries(2) [OF u(4)] by (cases ys') simp_all
    ultimately have "timer_update_internal c c t x m = timer_update_timeout c c ?m'"
      using True u(1,3) x c(2) by (auto simp: timer_update_internal_def head_of_def [symmetric] cmp nodes)
    moreover obtain m' where m': "timer_update_timeout c c ?m' = Some m'" "armed m' c" "timers m' = timers ?m'" "timer_queues m' = timer_queues ?m'"
        "timer_nodes m' = timer_nodes ?m'" "num_cpus m' = num_cpus ?m'" "platform_cpu_functional m' = platform_cpu_functional ?m'"
        "timer_actions m' = timer_actions ?m'" "ipi_pending m' = ipi_pending ?m'" "\<forall>d. d \<noteq> c \<longrightarrow> platform_timer m' d = platform_timer ?m' d"
      using update_timeout_simps by blast
    moreover have "same_rest t c m m'" using m'(3-10) by (simp add: same_rest_def)
    ultimately show ?thesis using tm_data_cong [OF u(5) m'(3,5,6)] m'(4) st by auto
  next
    case False
    then have "xs \<noteq> []" "ys' \<noteq> []" using u(2) by auto
    then have f: "first_timeout m (xs @ ys) = tq_timeout (timer_queues m c)"
      using queue_okD(2) [OF tm_dataD(3) [OF d c(1)]] xy by (cases xs) (simp_all add: first_timeout_def)
    have m': "?m' = (upd_timer t (\<lambda>t. t\<lparr>timeout := x\<rparr>) m)\<lparr>timer_nodes := n'\<rparr>" using False f by (intro same_tq) simp
    then have "timer_update_internal c c t x m = Some ?m'"
      using False u(1,3) x c(2) by (auto simp: timer_update_internal_def head_of_def [symmetric] cmp nodes)
    moreover have "same_rest t c m ?m'" "armed m c \<longrightarrow> armed ?m' c" using False f by (simp_all add: same_rest_def armed_def)
    ultimately show ?thesis using u(5) st by auto
  qed
qed

lemma ipi_one_send:
  "c < num_cpus m \<Longrightarrow> \<exists>l. ipi_one r c m = Some (m\<lparr>ipi_pending := (ipi_pending m)(c := ipi_pending m c OR reason_bit r), ipi_line := l\<rparr>)"
proof (cases "ipi_pending m c AND IPI_WAITING_IN_IDLE = 0")
  case False
  then show "c < num_cpus m \<Longrightarrow> ?thesis" by (intro exI [of _ "ipi_line m"]) (simp add: ipi_simps)
qed (auto simp: ipi_simps)

lemma move_section:
  assumes d: "tm_data TT L m" and c: "c < num_cpus m" "online (timer_queues m c)" and t: "t \<in> TT" "unlisted L m t" "queue (timers m t) = Some e"
  shows "\<exists>m' ys zs. timer_try_move_to_cpu e t c m = Some (True, m') \<and> L (head_of m c) = ys @ zs \<and> tm_data TT (L(head_of m c := ys @ t # zs)) m' \<and>
    same_rest t c m m' \<and> timers m' t = (timers m t)\<lparr>queue := Some c\<rparr> \<and> (armed m c \<longrightarrow> armed m' c)"
proof -
  let ?m = "upd_timer t (\<lambda>t. t\<lparr>queue := Some c\<rparr>) m"
  have h: "head_of ?m = head_of m" "heads_of ?m = heads_of m" by (rule head_of_same heads_of_same; simp)+
  have "unlisted L ?m t" using t(2) by (simp add: unlisted_def h)
  from insert_listed [OF upd_unlisted [OF d t(2)] _ t(1) this, of c "timeout (timers m t)"] c(1)
  obtain ys zs n where n: "L (head_of m c) = ys @ zs"
      "list_insert_in_order (tq_list (timer_queues m c)) t (is_timeout_a_smaller_than_b ?m) (timer_nodes m) = Some (ys = [], n)"
      "tm_data TT (L(head_of m c := ys @ t # zs))
        (upd_tq c (\<lambda>q. q\<lparr>tq_timeout := (if ys = [] then timeout (timers m t) else tq_timeout q)\<rparr>) (?m\<lparr>timer_nodes := n\<rparr>))" (is "tm_data _ _ ?m'")
    unfolding h by auto
  show ?thesis
  proof (cases "ys = []")
    case True
    obtain l where l: "ipi_one IPI_REASON_TIMER_QUEUE_SYNC c ?m' =
        Some (?m'\<lparr>ipi_pending := (ipi_pending ?m')(c := ipi_pending ?m' c OR reason_bit IPI_REASON_TIMER_QUEUE_SYNC), ipi_line := l\<rparr>)" (is "_ = Some ?m2")
      using ipi_one_send [of c ?m'] c(1) by auto
    have "timer_try_move_to_cpu e t c m = Some (True, ?m2)" using n(2) l True c(2) t(3) by (simp add: timer_try_move_to_cpu_def)
    moreover have "tm_data TT (L(head_of m c := ys @ t # zs)) ?m2" by (rule tm_data_cong [OF n(3)]) simp_all
    moreover have "same_rest t c m ?m2" "armed ?m2 c" by (simp_all add: same_rest_def armed_def bit_or_iff)
    ultimately show ?thesis using n(1) by auto
  next
    case False
    then have "timer_try_move_to_cpu e t c m = Some (True, ?m')" using n(2) c(2) t(3) by (simp add: timer_try_move_to_cpu_def upd_tq_def)
    moreover have "same_rest t c m ?m'" by (simp add: same_rest_def False)
    moreover have "armed m c \<longrightarrow> armed ?m' c" using False by (simp add: armed_def)
    ultimately show ?thesis using n(1,3) by auto
  qed
qed

end
