(* ===== verification/Timer_Safety.thy ===== *)
theory Timer_Safety
  imports Timer_System
begin

text \<open>
  No timer is missed. The CPUs are a transition system whose steps are the sections that the code runs
  under the lock of a queue; the lock of a timer is held from the first section of an operation to its
  last one. The actions of timers, which may use timers themselves, are steps of their own.
\<close>

section \<open>The transition system\<close>

datatype tm_pc =
    Idle
  | Dequeuing ptr nat
  | Leaving ptr u64 nat
  | Joining ptr u64 "nat option"
  | Migrating nat
  | Moving ptr nat nat

record tm_sys =
  tmem :: timer_mem
  tpc :: "nat \<Rightarrow> tm_pc"
  expiring :: "nat \<Rightarrow> u64 option"

datatype tm_label =
    Enqueue nat ptr u64 | Dequeue nat ptr | Dequeue_locked nat | Update nat ptr u64 | Update_leave nat | Update_join nat
  | Expire nat u64 | Sync nat u64 | Expire_one nat | Expire_end nat
  | Offline nat | Offline_take nat | Offline_try nat | Offline_end nat | Online nat

fun holds :: "ptr \<Rightarrow> tm_pc \<Rightarrow> bool" where
  "holds t (Dequeuing t' tq) \<longleftrightarrow> t = t'"
| "holds t (Leaving t' x tq) \<longleftrightarrow> t = t'"
| "holds t (Joining t' x old) \<longleftrightarrow> t = t'"
| "holds t _ \<longleftrightarrow> False"

definition unlocked :: "ptr \<Rightarrow> tm_sys \<Rightarrow> bool" where
  "unlocked t S \<longleftrightarrow> (\<forall>d < num_cpus (tmem S). \<not> holds t (tpc S d))"

text \<open>Whether a step can be taken by its CPU, given the set of timers that have been initialised.\<close>

fun tm_enabled :: "ptr set \<Rightarrow> tm_label \<Rightarrow> tm_sys \<Rightarrow> bool" where
  "tm_enabled TT (Enqueue c t x) S \<longleftrightarrow> c < num_cpus (tmem S) \<and> tpc S c = Idle \<and> online (timer_queues (tmem S) c) \<and> t \<in> TT \<and> unlocked t S \<and>
    queue (timers (tmem S) t) = None"
| "tm_enabled TT (Dequeue c t) S \<longleftrightarrow> c < num_cpus (tmem S) \<and> tpc S c = Idle \<and> t \<in> TT \<and> unlocked t S"
| "tm_enabled TT (Dequeue_locked c) S \<longleftrightarrow> (\<exists>t tq. tpc S c = Dequeuing t tq)"
| "tm_enabled TT (Update c t x) S \<longleftrightarrow> c < num_cpus (tmem S) \<and> tpc S c = Idle \<and> online (timer_queues (tmem S) c) \<and> t \<in> TT \<and> unlocked t S"
| "tm_enabled TT (Update_leave c) S \<longleftrightarrow> (\<exists>t x tq. tpc S c = Leaving t x tq)"
| "tm_enabled TT (Update_join c) S \<longleftrightarrow> (\<exists>t x old. tpc S c = Joining t x old)"
| "tm_enabled TT (Expire c now) S \<longleftrightarrow> c < num_cpus (tmem S) \<and> tpc S c = Idle \<and> expiring S c = None \<and> now \<noteq> TIMER_INVALID_TIMEOUT"
| "tm_enabled TT (Sync c now) S \<longleftrightarrow> c < num_cpus (tmem S) \<and> tpc S c = Idle \<and> expiring S c = None \<and> now \<noteq> TIMER_INVALID_TIMEOUT"
| "tm_enabled TT (Expire_one c) S \<longleftrightarrow> c < num_cpus (tmem S) \<and> tpc S c = Idle \<and>
    (\<exists>now. expiring S c = Some now \<and> tq_timeout (timer_queues (tmem S) c) \<le> now)"
| "tm_enabled TT (Expire_end c) S \<longleftrightarrow> c < num_cpus (tmem S) \<and> tpc S c = Idle \<and>
    (\<exists>now. expiring S c = Some now \<and> \<not> tq_timeout (timer_queues (tmem S) c) \<le> now)"
| "tm_enabled TT (Offline c) S \<longleftrightarrow> c < num_cpus (tmem S) \<and> tpc S c = Idle \<and> expiring S c = None \<and> online (timer_queues (tmem S) c)"
| "tm_enabled TT (Offline_take c) S \<longleftrightarrow> (\<exists>s. tpc S c = Migrating s) \<and> tq_timeout (timer_queues (tmem S) c) \<noteq> TIMER_INVALID_TIMEOUT"
| "tm_enabled TT (Offline_try c) S \<longleftrightarrow> (\<exists>t s g. tpc S c = Moving t s g \<and> unlocked t S)"
| "tm_enabled TT (Offline_end c) S \<longleftrightarrow> (\<exists>s. tpc S c = Migrating s) \<and> tq_timeout (timer_queues (tmem S) c) = TIMER_INVALID_TIMEOUT"
| "tm_enabled TT (Online c) S \<longleftrightarrow> c < num_cpus (tmem S) \<and> tpc S c = Idle"

definition set_tpc :: "nat \<Rightarrow> tm_pc \<Rightarrow> tm_sys \<Rightarrow> tm_sys" where
  "set_tpc c p S = S\<lparr>tpc := (tpc S)(c := p)\<rparr>"

definition set_expiring :: "nat \<Rightarrow> u64 option \<Rightarrow> tm_sys \<Rightarrow> tm_sys" where
  "set_expiring c e S = S\<lparr>expiring := (expiring S)(c := e)\<rparr>"

fun tm_exec :: "tm_label \<Rightarrow> tm_sys \<Rightarrow> tm_sys option" where
  "tm_exec (Enqueue c t x) S = Option.bind (timer_enqueue c t x (tmem S)) (\<lambda>m. Some (S\<lparr>tmem := m\<rparr>))"
| "tm_exec (Dequeue c t) S = Some (set_tpc c (case queue (timers (tmem S) t) of Some tq \<Rightarrow> Dequeuing t tq | None \<Rightarrow> Idle) S)"
| "tm_exec (Dequeue_locked c) S = (case tpc S c of
     Dequeuing t tq \<Rightarrow> Option.bind (timer_dequeue_locked c tq t (tmem S)) (\<lambda>m. Some (set_tpc c Idle (S\<lparr>tmem := m\<rparr>)))
   | _ \<Rightarrow> None)"
| "tm_exec (Update c t x) S = Some (set_tpc c (case queue (timers (tmem S) t) of
     Some tq \<Rightarrow> if tq \<noteq> c then Leaving t x tq else Joining t x (Some tq)
   | None \<Rightarrow> Joining t x None) S)"
| "tm_exec (Update_leave c) S = (case tpc S c of
     Leaving t x tq \<Rightarrow> Option.bind (timer_update_leave c (Some tq) t (tmem S)) (\<lambda>m. Some (set_tpc c (Joining t x (Some tq)) (S\<lparr>tmem := m\<rparr>)))
   | _ \<Rightarrow> None)"
| "tm_exec (Update_join c) S = (case tpc S c of
     Joining t x old \<Rightarrow> Option.bind (timer_update_join c old t x (tmem S)) (\<lambda>m. Some (set_tpc c Idle (S\<lparr>tmem := m\<rparr>)))
   | _ \<Rightarrow> None)"
| "tm_exec (Expire c now) S = Some (set_expiring c (Some now) S)"
| "tm_exec (Sync c now) S = Some (set_expiring c (Some now) (S\<lparr>tmem := snd (ipi_clear IPI_REASON_TIMER_QUEUE_SYNC c (tmem S))\<rparr>))"
| "tm_exec (Expire_one c) S = Option.bind (timer_expire_one c (tmem S)) (\<lambda>(_, m). Some (S\<lparr>tmem := m\<rparr>))"
| "tm_exec (Expire_end c) S = Option.bind (timer_update_timeout c c (tmem S)) (\<lambda>m. Some (set_expiring c None (S\<lparr>tmem := m\<rparr>)))"
| "tm_exec (Offline c) S = Some (set_tpc c (Migrating ((c + 1) mod num_cpus (tmem S))) (S\<lparr>tmem := timer_offline_begin c (tmem S)\<rparr>))"
| "tm_exec (Offline_take c) S = (case tpc S c of
     Migrating s \<Rightarrow> Option.bind (timer_offline_take c (tmem S)) (\<lambda>(t, m). Some (set_tpc c (Moving t s s) (S\<lparr>tmem := m\<rparr>)))
   | _ \<Rightarrow> None)"
| "tm_exec (Offline_try c) S = (case tpc S c of
     Moving t s g \<Rightarrow> Option.bind (if platform_cpu_functional (tmem S) g then timer_try_move_to_cpu c t g (tmem S) else Some (False, tmem S)) (\<lambda>(moved, m).
       if moved then Some (set_tpc c (Migrating g) (S\<lparr>tmem := m\<rparr>))
       else let g' = timer_next_target (num_cpus m) c g
            in if g' = s then None else Some (set_tpc c (Moving t s g') (S\<lparr>tmem := m\<rparr>)))
   | _ \<Rightarrow> None)"
| "tm_exec (Offline_end c) S = Some (set_tpc c Idle S)"
| "tm_exec (Online c) S = Some (S\<lparr>tmem := timer_handle_power_cpu_online c (tmem S)\<rparr>)"

fun tm_run :: "ptr set \<Rightarrow> tm_label list \<Rightarrow> tm_sys \<Rightarrow> tm_sys option" where
  "tm_run TT [] S = Some S"
| "tm_run TT (l # ls) S = (if tm_enabled TT l S then Option.bind (tm_exec l S) (tm_run TT ls) else None)"

section \<open>Invariant\<close>

fun tpc_ok :: "ptr set \<Rightarrow> (ptr \<Rightarrow> ptr list) \<Rightarrow> timer_mem \<Rightarrow> nat \<Rightarrow> tm_pc \<Rightarrow> bool" where
  "tpc_ok TT L m c Idle \<longleftrightarrow> True"
| "tpc_ok TT L m c (Dequeuing t tq) \<longleftrightarrow> c < num_cpus m \<and> t \<in> TT \<and> tq < num_cpus m \<and> queue (timers m t) \<in> {None, Some tq}"
| "tpc_ok TT L m c (Leaving t x tq) \<longleftrightarrow> c < num_cpus m \<and> online (timer_queues m c) \<and> t \<in> TT \<and> tq < num_cpus m \<and> tq \<noteq> c \<and>
    queue (timers m t) \<in> {None, Some tq}"
| "tpc_ok TT L m c (Joining t x old) \<longleftrightarrow> c < num_cpus m \<and> online (timer_queues m c) \<and> t \<in> TT \<and>
    queue (timers m t) = (if old = Some c then Some c else None)"
| "tpc_ok TT L m c (Migrating s) \<longleftrightarrow> c < num_cpus m \<and> \<not> online (timer_queues m c) \<and> s < num_cpus m"
| "tpc_ok TT L m c (Moving t s g) \<longleftrightarrow> c < num_cpus m \<and> \<not> online (timer_queues m c) \<and> t \<in> TT \<and> s < num_cpus m \<and> g < num_cpus m \<and>
    t \<notin> set (L (head_of m c))"

fun in_flight :: "ptr \<Rightarrow> tm_pc \<Rightarrow> bool" where
  "in_flight t (Moving t' s g) \<longleftrightarrow> t = t'"
| "in_flight t _ \<longleftrightarrow> False"

fun migrating :: "tm_pc \<Rightarrow> bool" where
  "migrating (Migrating s) \<longleftrightarrow> True"
| "migrating (Moving t s g) \<longleftrightarrow> True"
| "migrating _ \<longleftrightarrow> False"

text \<open>Where the timers are.\<close>

definition placed :: "ptr set \<Rightarrow> (ptr \<Rightarrow> ptr list) \<Rightarrow> tm_sys \<Rightarrow> bool" where
  "placed TT L S \<longleftrightarrow> (\<forall>t \<in> TT. \<forall>c. queue (timers (tmem S) t) = Some c \<longrightarrow>
    c < num_cpus (tmem S) \<and> (t \<in> set (L (head_of (tmem S) c)) \<or> in_flight t (tpc S c)))"

definition tm_ok :: "ptr set \<Rightarrow> (ptr \<Rightarrow> ptr list) \<Rightarrow> tm_sys \<Rightarrow> bool" where
  "tm_ok TT L S \<longleftrightarrow> tm_data TT L (tmem S) \<and> placed TT L S \<and> (\<forall>c. tpc_ok TT L (tmem S) c (tpc S c)) \<and>
    (\<forall>c d t. holds t (tpc S c) \<longrightarrow> holds t (tpc S d) \<longrightarrow> c = d) \<and>
    (\<forall>c < num_cpus (tmem S). expiring S c = None \<longrightarrow> \<not> migrating (tpc S c) \<longrightarrow> armed (tmem S) c) \<and>
    (\<forall>c. expiring S c \<noteq> Some TIMER_INVALID_TIMEOUT)"

lemma tm_okD:
  assumes "tm_ok TT L S"
  shows "tm_data TT L (tmem S)" "placed TT L S" "tpc_ok TT L (tmem S) c (tpc S c)"
    "holds t (tpc S c) \<Longrightarrow> holds t (tpc S d) \<Longrightarrow> c = d"
    "c < num_cpus (tmem S) \<Longrightarrow> expiring S c = None \<Longrightarrow> \<not> migrating (tpc S c) \<Longrightarrow> armed (tmem S) c"
    "expiring S c \<noteq> Some TIMER_INVALID_TIMEOUT"
  using assms unfolding tm_ok_def by blast+

lemma tm_okI:
  assumes "tm_data TT L (tmem S)" "placed TT L S" "\<And>c. tpc_ok TT L (tmem S) c (tpc S c)"
    "\<And>c d t. holds t (tpc S c) \<Longrightarrow> holds t (tpc S d) \<Longrightarrow> c = d"
    "\<And>c. c < num_cpus (tmem S) \<Longrightarrow> expiring S c = None \<Longrightarrow> \<not> migrating (tpc S c) \<Longrightarrow> armed (tmem S) c"
    "\<And>c. expiring S c \<noteq> Some TIMER_INVALID_TIMEOUT"
  shows "tm_ok TT L S"
  unfolding tm_ok_def using assms by blast

lemma placedD: "placed TT L S \<Longrightarrow> t \<in> TT \<Longrightarrow> queue (timers (tmem S) t) = Some c \<Longrightarrow>
    c < num_cpus (tmem S) \<and> (t \<in> set (L (head_of (tmem S) c)) \<or> in_flight t (tpc S c))"
  unfolding placed_def by blast

lemma placedI: "(\<And>t c. t \<in> TT \<Longrightarrow> queue (timers (tmem S) t) = Some c \<Longrightarrow>
    c < num_cpus (tmem S) \<and> (t \<in> set (L (head_of (tmem S) c)) \<or> in_flight t (tpc S c))) \<Longrightarrow> placed TT L S"
  unfolding placed_def by blast

lemma in_flight_eq: "in_flight t p \<longleftrightarrow> (\<exists>s g. p = Moving t s g)"
  by (cases p) auto

lemma holds_busy: "tpc_ok TT L m c p \<Longrightarrow> holds t p \<Longrightarrow> c < num_cpus m \<and> t \<in> TT"
  by (cases p) auto

text \<open>A timer is in the list of its queue or in none.\<close>

lemma here_or_nowhere:
  assumes ok: "tm_ok TT L S" and t: "t \<in> TT" "queue (timers (tmem S) t) \<in> {None, Some tq}"
  shows "t \<in> set (L (head_of (tmem S) tq)) \<or> unlisted L (tmem S) t"
  using queue_unlisted [OF tm_okD(1) [OF ok] refl, of t] t(2) by (cases "t \<in> set (L (head_of (tmem S) tq))") auto

lemma in_flight_unlisted:
  assumes ok: "tm_ok TT L S" and t: "t \<in> TT" "queue (timers (tmem S) t) = Some c" "in_flight t (tpc S c)"
  shows "unlisted L (tmem S) t"
  using queue_unlisted [OF tm_okD(1) [OF ok] t(2)] tm_okD(3) [OF ok, of c] t(3) by (auto simp: in_flight_eq)

lemma same_restD:
  assumes "same_rest t c m m'"
  shows "num_cpus m' = num_cpus m" "head_of m' = head_of m" "online (timer_queues m' d) = online (timer_queues m d)"
    "t' \<noteq> t \<Longrightarrow> timers m' t' = timers m t'" "d \<noteq> c \<Longrightarrow> armed m' d = armed m d"
  using assms by (auto simp: same_rest_def armed_def intro!: head_of_same)

lemma tpc_other:
  assumes p: "tpc_ok TT L m d p" and r: "same_rest t c m m'"
    and ts: "\<And>t'. t' \<noteq> t \<Longrightarrow> t' \<in> set ts \<Longrightarrow> t' \<in> set (L (head_of m c))" "t \<in> set ts \<Longrightarrow> t \<in> set (L (head_of m c)) \<or> online (timer_queues m c)"
    and c: "c < num_cpus m" "inj_on (head_of m) {..<num_cpus m}"
    and t: "holds t p \<Longrightarrow> queue (timers m' t) = queue (timers m t) \<or> queue (timers m' t) = None \<and> (\<forall>x old. p \<noteq> Joining t x old)"
  shows "tpc_ok TT (L(head_of m c := ts)) m' d p"
proof -
  note r = same_restD [OF r]
  have q: "queue (timers m' t') \<in> {None, queue (timers m t')}" if "holds t' p" for t' using that t r(4) by (cases "t' = t") auto
  have j: "queue (timers m' t') = queue (timers m t')" if "p = Joining t' x old" for t' x old using that t r(4) by (cases "t' = t") auto
  have f: "t' \<notin> set ((L(head_of m c := ts)) (head_of m d))" if "p = Moving t' s g" for t' s g
  proof (cases "d = c")
    case True
    then show ?thesis using p that ts by (cases "t' = t") auto
  next
    case False
    then have "head_of m d \<noteq> head_of m c" using p that c by (auto simp: inj_on_def)
    then show ?thesis using p that by simp
  qed
  show ?thesis using p q j f by (cases p) (auto simp: r(1-3))
qed

text \<open>A section that concerns one timer and one queue, run by CPU \<open>a\<close>.\<close>

lemma section_ok:
  assumes ok: "tm_ok TT L S" and data: "tm_data TT (L(head_of (tmem S) c := ts)) m'" and rest: "same_rest t c (tmem S) m'" and c: "c < num_cpus (tmem S)"
    and ts: "\<And>t'. t' \<noteq> t \<Longrightarrow> t' \<in> set ts \<longleftrightarrow> t' \<in> set (L (head_of (tmem S) c))"
      "t \<in> set ts \<Longrightarrow> t \<in> set (L (head_of (tmem S) c)) \<or> online (timer_queues (tmem S) c)"
    and place: "\<And>e. queue (timers m' t) = Some e \<Longrightarrow> e < num_cpus (tmem S) \<and>
      (t \<in> set ((L(head_of (tmem S) c := ts)) (head_of (tmem S) e)) \<or> in_flight t (if e = a then v else tpc S e))"
    and v: "tpc_ok TT (L(head_of (tmem S) c := ts)) m' a v" "\<And>t'. t' \<noteq> t \<Longrightarrow> in_flight t' (tpc S a) \<Longrightarrow> in_flight t' v"
      "\<And>d t'. holds t' v \<Longrightarrow> holds t' (tpc S d) \<Longrightarrow> d = a" "migrating v = migrating (tpc S a)"
    and others: "\<And>d. d \<noteq> a \<Longrightarrow> holds t (tpc S d) \<Longrightarrow>
      queue (timers m' t) = queue (timers (tmem S) t) \<or> queue (timers m' t) = None \<and> (\<forall>x old. tpc S d \<noteq> Joining t x old)"
    and arm: "armed (tmem S) c \<longrightarrow> armed m' c"
  shows "tm_ok TT (L(head_of (tmem S) c := ts)) (set_tpc a v (S\<lparr>tmem := m'\<rparr>))"
proof (rule tm_okI)
  let ?S = "set_tpc a v (S\<lparr>tmem := m'\<rparr>)" and ?L = "L(head_of (tmem S) c := ts)"
  note r = same_restD [OF rest]
  have sim: "tmem ?S = m'" "expiring ?S = expiring S" "tpc ?S d = (if d = a then v else tpc S d)" for d by (simp_all add: set_tpc_def)
  show "tm_data TT ?L (tmem ?S)" using data by (simp add: sim)
  show "tpc_ok TT ?L (tmem ?S) d (tpc ?S d)" for d
  proof (cases "d = a")
    case False
    have "tpc_ok TT ?L m' d (tpc S d)"
      by (rule tpc_other [OF tm_okD(3) [OF ok] rest]) (use ts c others False tm_dataD(1) [OF tm_okD(1) [OF ok]] in auto)
    then show ?thesis using False by (simp add: sim)
  qed (simp add: sim v(1))
  show "d = e" if "holds t' (tpc ?S d)" "holds t' (tpc ?S e)" for d e t'
    using that v(3) [of t' d] v(3) [of t' e] tm_okD(4) [OF ok, of t' d e] by (auto simp: sim split: if_splits)
  show "armed (tmem ?S) d" if "d < num_cpus (tmem ?S)" "expiring ?S d = None" "\<not> migrating (tpc ?S d)" for d
  proof -
    have "armed (tmem S) d" using tm_okD(5) [OF ok, of d] that v(4) by (auto simp: sim r(1) split: if_splits)
    then show ?thesis using arm r(5) by (cases "d = c") (auto simp: sim)
  qed
  show "expiring ?S d \<noteq> Some TIMER_INVALID_TIMEOUT" for d using tm_okD(6) [OF ok] by (simp add: sim)
  show "placed TT ?L ?S"
  proof (rule placedI)
    fix t' e assume t': "t' \<in> TT" "queue (timers (tmem ?S) t') = Some e"
    show "e < num_cpus (tmem ?S) \<and> (t' \<in> set (?L (head_of (tmem ?S) e)) \<or> in_flight t' (tpc ?S e))"
    proof (cases "t' = t")
      case False
      then have "e < num_cpus (tmem S) \<and> (t' \<in> set (L (head_of (tmem S) e)) \<or> in_flight t' (tpc S e))"
        using placedD [OF tm_okD(2) [OF ok] t'(1)] t'(2) r(4) by (simp add: sim)
      then show ?thesis using ts(1) [OF False] v(2) [OF False] by (auto simp: sim r(1,2))
    qed (use place t'(2) in \<open>simp add: sim r(1,2)\<close>)
  qed
qed

lemma set_tpc_same: "set_tpc c (tpc S c) (S\<lparr>tmem := m\<rparr>) = S\<lparr>tmem := m\<rparr>"
  by (simp add: set_tpc_def)

text \<open>A change of the program counter alone.\<close>

lemma tpc_step:
  assumes ok: "tm_ok TT L S" and v: "tpc_ok TT L (tmem S) a v" "\<And>d t. holds t v \<Longrightarrow> d \<noteq> a \<Longrightarrow> \<not> holds t (tpc S d)"
    "\<And>t. in_flight t (tpc S a) \<Longrightarrow> queue (timers (tmem S) t) \<noteq> Some a \<or> in_flight t v"
    "a < num_cpus (tmem S) \<Longrightarrow> migrating (tpc S a) \<Longrightarrow> migrating v \<or> armed (tmem S) a"
  shows "tm_ok TT L (set_tpc a v S)"
proof (rule tm_okI)
  have sim: "tmem (set_tpc a v S) = tmem S" "expiring (set_tpc a v S) = expiring S" "tpc (set_tpc a v S) d = (if d = a then v else tpc S d)" for d
    by (simp_all add: set_tpc_def)
  show "tm_data TT L (tmem (set_tpc a v S))" using tm_okD(1) [OF ok] by (simp add: sim)
  show "placed TT L (set_tpc a v S)" using placedD [OF tm_okD(2) [OF ok]] v(3) by (intro placedI) (auto simp: sim)
  show "tpc_ok TT L (tmem (set_tpc a v S)) c (tpc (set_tpc a v S) c)" for c using v(1) tm_okD(3) [OF ok] by (simp add: sim)
  show "c = d" if "holds t (tpc (set_tpc a v S) c)" "holds t (tpc (set_tpc a v S) d)" for c d t
    using that v(2) [of t c] v(2) [of t d] tm_okD(4) [OF ok, of t c d] by (auto simp: sim split: if_splits)
  show "armed (tmem (set_tpc a v S)) c"
    if "c < num_cpus (tmem (set_tpc a v S))" "expiring (set_tpc a v S) c = None" "\<not> migrating (tpc (set_tpc a v S) c)" for c
    using that v(4) tm_okD(5) [OF ok, of c] by (auto simp: sim split: if_splits)
  show "expiring (set_tpc a v S) c \<noteq> Some TIMER_INVALID_TIMEOUT" for c using tm_okD(6) [OF ok] by (simp add: sim)
qed

text \<open>A timer leaves the list of a queue, or is in no list.\<close>

lemma dequeue_section:
  assumes d: "tm_data TT L m" and c: "c < num_cpus m" and t: "t \<in> TT" "t \<in> set (L (head_of m c)) \<or> unlisted L m t"
  shows "\<exists>nt m' ts. timer_dequeue_internal c t clr m = Some (nt, m') \<and> tm_data TT (L(head_of m c := ts)) m' \<and> same_rest t c m m' \<and>
    set ts = set (L (head_of m c)) - {t} \<and> timers m' t = (if clr then (timers m t)\<lparr>queue := None\<rparr> else timers m t) \<and>
    (armed m c \<longrightarrow> armed m' c)"
proof (cases "t \<in> set (L (head_of m c))")
  case True
  then obtain xs ys where xy: "L (head_of m c) = xs @ t # ys" by (meson split_list)
  have "set (xs @ ys) = set (L (head_of m c)) - {t}" using tm_list [OF d c] xy by (auto simp: is_list_def)
  then show ?thesis using dequeue_listed [OF d c xy, of clr] armed_max by blast
next
  case False
  then have u: "unlisted L m t" using t by blast
  let ?m = "if clr then upd_timer t (\<lambda>t. t\<lparr>queue := None\<rparr>) m else m"
  have "tm_data TT L ?m" using d upd_unlisted [OF d u] by simp
  then show ?thesis using dequeue_unlisted [OF d c t(1) u, of clr] False
    by (intro exI [of _ "L (head_of m c) = []"] exI [of _ ?m] exI [of _ "L (head_of m c)"]) (auto simp: same_rest_def armed_def)
qed

lemma dequeue_locked_section:
  assumes d: "tm_data TT L m" and c: "c < num_cpus m" and t: "t \<in> TT" "t \<in> set (L (head_of m c)) \<or> unlisted L m t"
  shows "\<exists>m' ts. timer_dequeue_locked a c t m = Some m' \<and> tm_data TT (L(head_of m c := ts)) m' \<and> same_rest t c m m' \<and>
    set ts = set (L (head_of m c)) - {t} \<and> queue (timers m' t) = None \<and> (armed m c \<longrightarrow> armed m' c)"
proof -
  obtain nt m1 ts where m1: "timer_dequeue_internal c t True m = Some (nt, m1)" "tm_data TT (L(head_of m c := ts)) m1" "same_rest t c m m1"
      "set ts = set (L (head_of m c)) - {t}" "timers m1 t = (timers m t)\<lparr>queue := None\<rparr>" "armed m c \<longrightarrow> armed m1 c"
    using dequeue_section [OF d c t, of True] by auto
  show ?thesis
  proof (cases "nt \<and> c = a")
    case True
    obtain m' where m': "timer_update_timeout c c m1 = Some m'" "armed m' c" "timers m' = timers m1" "timer_queues m' = timer_queues m1"
        "timer_nodes m' = timer_nodes m1" "num_cpus m' = num_cpus m1" "platform_cpu_functional m' = platform_cpu_functional m1"
        "timer_actions m' = timer_actions m1" "ipi_pending m' = ipi_pending m1" "\<forall>d. d \<noteq> c \<longrightarrow> platform_timer m' d = platform_timer m1 d"
      using update_timeout_simps by blast
    have "same_rest t c m m'" using m1(3) m'(3-10) by (simp add: same_rest_def)
    moreover have "tm_data TT (L(head_of m c := ts)) m'" using m'(4) by (intro tm_data_cong [OF m1(2) m'(3,5,6)]) simp
    ultimately show ?thesis using True m1 m' by (auto simp: timer_dequeue_locked_def)
  next
    case False
    then show ?thesis using m1 by (auto simp: timer_dequeue_locked_def)
  qed
qed

section \<open>Steps\<close>

lemma enqueue_step:
  assumes ok: "tm_ok TT L S" and en: "tm_enabled TT (Enqueue c t x) S"
  shows "\<exists>S' L'. tm_exec (Enqueue c t x) S = Some S' \<and> tm_ok TT L' S'"
proof -
  let ?m = "tmem S"
  have u: "unlisted L ?m t" using en by (intro queue_unlisted [OF tm_okD(1) [OF ok] refl]) auto
  obtain m' ys zs where m': "timer_enqueue_internal c c t x ?m = Some m'" "L (head_of ?m c) = ys @ zs"
      "tm_data TT (L(head_of ?m c := ys @ t # zs)) m'" "same_rest t c ?m m'" "timers m' t = (timers ?m t)\<lparr>queue := Some c, timeout := x\<rparr>"
      "armed ?m c \<longrightarrow> armed m' c"
    using enqueue_section [OF tm_okD(1) [OF ok] _ _ _ u, of c x] en by auto
  have "tm_ok TT (L(head_of ?m c := ys @ t # zs)) (set_tpc c (tpc S c) (S\<lparr>tmem := m'\<rparr>))"
    by (rule section_ok [OF ok m'(3,4)]) (use en m'(2,5,6) tm_okD(4) [OF ok] in \<open>auto simp: unlocked_def dest: holds_busy [OF tm_okD(3) [OF ok]]\<close>)
  moreover have "t \<noteq> NULL" using tm_dataD(4) [OF tm_okD(1) [OF ok]] en by simp
  then have "tm_exec (Enqueue c t x) S = Some (S\<lparr>tmem := m'\<rparr>)" using m'(1) by (simp add: timer_enqueue_def)
  ultimately show ?thesis unfolding set_tpc_same by blast
qed

lemma unlocked_not: "tm_ok TT L S \<Longrightarrow> unlocked t S \<Longrightarrow> \<not> holds t (tpc S d)"
  using holds_busy [OF tm_okD(3)] unfolding unlocked_def by blast

lemma dequeue_step:
  assumes ok: "tm_ok TT L S" and en: "tm_enabled TT (Dequeue c t) S"
  shows "\<exists>S' L'. tm_exec (Dequeue c t) S = Some S' \<and> tm_ok TT L' S'"
proof -
  have "tq < num_cpus (tmem S)" if "queue (timers (tmem S) t) = Some tq" for tq using placedD [OF tm_okD(2) [OF ok] _ that] en by simp
  moreover have "\<not> holds t (tpc S d)" for d using unlocked_not [OF ok] en by simp
  ultimately have "tm_ok TT L (set_tpc c (case queue (timers (tmem S) t) of Some tq \<Rightarrow> Dequeuing t tq | None \<Rightarrow> Idle) S)"
    using en by (intro tpc_step [OF ok]) (auto split: option.splits)
  then show ?thesis by (intro exI) auto
qed

lemma dequeue_locked_step:
  assumes ok: "tm_ok TT L S" and en: "tm_enabled TT (Dequeue_locked c) S"
  shows "\<exists>S' L'. tm_exec (Dequeue_locked c) S = Some S' \<and> tm_ok TT L' S'"
proof -
  let ?m = "tmem S"
  obtain t tq where p: "tpc S c = Dequeuing t tq" using en by auto
  have q: "t \<in> TT" "tq < num_cpus ?m" "queue (timers ?m t) \<in> {None, Some tq}" using tm_okD(3) [OF ok, of c] p by auto
  obtain m' ts where m': "timer_dequeue_locked c tq t ?m = Some m'" "tm_data TT (L(head_of ?m tq := ts)) m'" "same_rest t tq ?m m'"
      "set ts = set (L (head_of ?m tq)) - {t}" "queue (timers m' t) = None" "armed ?m tq \<longrightarrow> armed m' tq"
    using dequeue_locked_section [OF tm_okD(1) [OF ok] q(2,1) here_or_nowhere [OF ok q(1,3)], of c] by blast
  have lk: "\<not> holds t (tpc S d)" if "d \<noteq> c" for d using tm_okD(4) [OF ok, of t c d] p that by auto
  have "tm_ok TT (L(head_of ?m tq := ts)) (set_tpc c Idle (S\<lparr>tmem := m'\<rparr>))"
    by (rule section_ok [OF ok m'(2,3) q(2)]) (use m'(4-6) lk p in auto)
  then show ?thesis using m'(1) p by (intro exI) auto
qed

lemma update_step:
  assumes ok: "tm_ok TT L S" and en: "tm_enabled TT (Update c t x) S"
  shows "\<exists>S' L'. tm_exec (Update c t x) S = Some S' \<and> tm_ok TT L' S'"
proof -
  have "tq < num_cpus (tmem S)" if "queue (timers (tmem S) t) = Some tq" for tq using placedD [OF tm_okD(2) [OF ok] _ that] en by simp
  moreover have "\<not> holds t (tpc S d)" for d using unlocked_not [OF ok] en by simp
  ultimately have "tm_ok TT L (set_tpc c (case queue (timers (tmem S) t) of
       Some tq \<Rightarrow> if tq \<noteq> c then Leaving t x tq else Joining t x (Some tq) | None \<Rightarrow> Joining t x None) S)"
    using en by (intro tpc_step [OF ok]) (auto split: option.splits if_splits)
  then show ?thesis by (intro exI) auto
qed

lemma update_leave_step:
  assumes ok: "tm_ok TT L S" and en: "tm_enabled TT (Update_leave c) S"
  shows "\<exists>S' L'. tm_exec (Update_leave c) S = Some S' \<and> tm_ok TT L' S'"
proof -
  let ?m = "tmem S"
  obtain t x tq where p: "tpc S c = Leaving t x tq" using en by auto
  have q: "t \<in> TT" "tq < num_cpus ?m" "queue (timers ?m t) \<in> {None, Some tq}" "tq \<noteq> c" "c < num_cpus ?m" "online (timer_queues ?m c)"
    using tm_okD(3) [OF ok, of c] p by auto
  obtain nt m' ts where m': "timer_dequeue_internal tq t True ?m = Some (nt, m')" "tm_data TT (L(head_of ?m tq := ts)) m'" "same_rest t tq ?m m'"
      "set ts = set (L (head_of ?m tq)) - {t}" "queue (timers m' t) = None" "armed ?m tq \<longrightarrow> armed m' tq"
    using dequeue_section [OF tm_okD(1) [OF ok] q(2,1) here_or_nowhere [OF ok q(1,3)], of True] by auto
  have lk: "\<not> holds t (tpc S d)" if "d \<noteq> c" for d using tm_okD(4) [OF ok, of t c d] p that by auto
  have "tm_ok TT (L(head_of ?m tq := ts)) (set_tpc c (Joining t x (Some tq)) (S\<lparr>tmem := m'\<rparr>))"
    by (rule section_ok [OF ok m'(2,3) q(2)]) (use m'(4-6) lk p q same_restD(1,3) [OF m'(3)] in auto)
  then show ?thesis using m'(1) p q(4) by (intro exI) (auto simp: timer_update_leave_def)
qed

lemma update_join_step:
  assumes ok: "tm_ok TT L S" and en: "tm_enabled TT (Update_join c) S"
  shows "\<exists>S' L'. tm_exec (Update_join c) S = Some S' \<and> tm_ok TT L' S'"
proof -
  let ?m = "tmem S"
  obtain t x old where p: "tpc S c = Joining t x old" using en by auto
  have q: "t \<in> TT" "c < num_cpus ?m" "online (timer_queues ?m c)" "queue (timers ?m t) = (if old = Some c then Some c else None)"
    using tm_okD(3) [OF ok, of c] p by auto
  have lk: "\<not> holds t (tpc S d)" if "d \<noteq> c" for d using tm_okD(4) [OF ok, of t c d] p that by auto
  obtain m' ts where m': "timer_update_join c old t x ?m = Some m'" "tm_data TT (L(head_of ?m c := ts)) m'" "same_rest t c ?m m'"
      "set ts = insert t (set (L (head_of ?m c)))" "queue (timers m' t) = Some c" "armed ?m c \<longrightarrow> armed m' c"
  proof (cases "old = Some c")
    case True
    then have t: "t \<in> set (L (head_of ?m c))" using placedD [OF tm_okD(2) [OF ok] q(1)] q(4) p by auto
    show thesis using update_section [OF tm_okD(1) [OF ok] q(2,3) t, of x] True t q(4) that by (auto simp: timer_update_join_def insert_absorb)
  next
    case False
    then have u: "unlisted L ?m t" using q(4) by (intro queue_unlisted [OF tm_okD(1) [OF ok] refl]) auto
    show thesis using enqueue_section [OF tm_okD(1) [OF ok] q(2,3,1) u, of x] False q(4) that by (fastforce simp: timer_update_join_def)
  qed
  have "tm_ok TT (L(head_of ?m c := ts)) (set_tpc c Idle (S\<lparr>tmem := m'\<rparr>))"
    by (rule section_ok [OF ok m'(2,3) q(2)]) (use m'(4-6) lk p q in auto)
  then show ?thesis using m'(1) p by (intro exI) auto
qed

text \<open>Steps that change neither timers nor lists.\<close>

lemma sys_cong:
  assumes ok: "tm_ok TT L S"
    and m: "timers (tmem S') = timers (tmem S)" "timer_nodes (tmem S') = timer_nodes (tmem S)" "num_cpus (tmem S') = num_cpus (tmem S)"
      "\<And>c. tq_list (timer_queues (tmem S') c) = tq_list (timer_queues (tmem S) c) \<and>
        tq_timeout (timer_queues (tmem S') c) = tq_timeout (timer_queues (tmem S) c)"
    and p: "\<And>d. tpc_ok TT L (tmem S') d (tpc S' d)" "\<And>d t. holds t (tpc S' d) \<Longrightarrow> holds t (tpc S d)"
      "\<And>d t. in_flight t (tpc S d) \<Longrightarrow> in_flight t (tpc S' d)"
    and e: "\<And>c. c < num_cpus (tmem S) \<Longrightarrow> expiring S' c = None \<Longrightarrow> \<not> migrating (tpc S' c) \<Longrightarrow> armed (tmem S') c"
      "\<And>c. expiring S' c \<noteq> Some TIMER_INVALID_TIMEOUT"
  shows "tm_ok TT L S'"
proof (rule tm_okI)
  have h: "head_of (tmem S') = head_of (tmem S)" by (rule head_of_same) (simp add: m)
  show "tm_data TT L (tmem S')" by (rule tm_data_cong [OF tm_okD(1) [OF ok] m])
  show "placed TT L S'" using placedD [OF tm_okD(2) [OF ok]] p(3) by (intro placedI) (auto simp: m h)
  show "c = d" if "holds t (tpc S' c)" "holds t (tpc S' d)" for c d t
    using that [THEN p(2)] by (rule tm_okD(4) [OF ok])
qed (use p(1) e m in auto)

lemma tpc_ok_cong:
  assumes "tpc_ok TT L m d p" "timers m' = timers m" "num_cpus m' = num_cpus m" "head_of m' = head_of m"
    "p \<noteq> Idle \<Longrightarrow> online (timer_queues m' d) = online (timer_queues m d)"
  shows "tpc_ok TT L m' d p"
  using assms by (cases p) auto

lemma expire_step:
  assumes ok: "tm_ok TT L S" and en: "tm_enabled TT (Expire c now) S"
  shows "tm_ok TT L (set_expiring c (Some now) S)"
  using en tm_okD(3,5,6) [OF ok] by (intro sys_cong [OF ok]) (auto simp: set_expiring_def split: if_splits)

lemma sync_step:
  assumes ok: "tm_ok TT L S" and en: "tm_enabled TT (Sync c now) S"
  shows "tm_ok TT L (set_expiring c (Some now) (S\<lparr>tmem := snd (ipi_clear IPI_REASON_TIMER_QUEUE_SYNC c (tmem S))\<rparr>))" (is "tm_ok TT L ?S")
proof (rule sys_cong [OF ok])
  let ?m = "snd (ipi_clear IPI_REASON_TIMER_QUEUE_SYNC c (tmem S))"
  have s: "timers ?m = timers (tmem S)" "num_cpus ?m = num_cpus (tmem S)" "timer_queues ?m = timer_queues (tmem S)" "timer_nodes ?m = timer_nodes (tmem S)"
    by (simp_all add: ipi_clear_def ipi_clear_relaxed_def set_pending_def Let_def)
  have h: "head_of ?m = head_of (tmem S)" by (rule head_of_same) (simp add: s)
  show "tpc_ok TT L (tmem ?S) d (tpc ?S d)" for d
    using tpc_ok_cong [OF tm_okD(3) [OF ok, of d], of ?m] s h by (simp add: set_expiring_def)
  show "armed (tmem ?S) d" if "d < num_cpus (tmem S)" "expiring ?S d = None" "\<not> migrating (tpc ?S d)" for d
  proof -
    have "d \<noteq> c" using that(2) by (auto simp: set_expiring_def)
    then have "armed (tmem S) d" using that tm_okD(5) [OF ok, of d] by (simp add: set_expiring_def)
    then show ?thesis using \<open>d \<noteq> c\<close> by (simp add: set_expiring_def armed_def ipi_clear_def ipi_clear_relaxed_def set_pending_def Let_def)
  qed
qed (use en tm_okD(6) [OF ok] in \<open>auto simp: set_expiring_def ipi_clear_def ipi_clear_relaxed_def set_pending_def Let_def\<close>)

lemma first_head:
  assumes d: "tm_data TT L m" and c: "c < num_cpus m" and ne: "tq_timeout (timer_queues m c) \<noteq> TIMER_INVALID_TIMEOUT"
  shows "\<exists>t ts. L (head_of m c) = t # ts \<and> list_get_head (tq_list (timer_queues m c)) (timer_nodes m) = Some t \<and>
    t \<noteq> NULL \<and> t \<in> TT \<and> queue (timers m t) = Some c \<and> tq_timeout (timer_queues m c) = timeout (timers m t)"
proof -
  obtain t ts where t: "L (head_of m c) = t # ts"
    using ne queue_okD(2) [OF tm_dataD(3) [OF d c]] by (cases "L (head_of m c)") (auto simp: first_timeout_def)
  then show ?thesis using list_queries(2) [OF tm_list [OF d c]] listed_queue [OF d c, of t] tm_dataD(4) [OF d, of t]
      queue_okD(2) [OF tm_dataD(3) [OF d c]] by (simp add: head_of_def first_timeout_def)
qed

lemma expire_one_step:
  assumes ok: "tm_ok TT L S" and en: "tm_enabled TT (Expire_one c) S"
  shows "\<exists>S' L'. tm_exec (Expire_one c) S = Some S' \<and> tm_ok TT L' S'"
proof -
  let ?m = "tmem S"
  have c: "c < num_cpus ?m" "tpc S c = Idle" using en by simp_all
  have "tq_timeout (timer_queues ?m c) \<noteq> TIMER_INVALID_TIMEOUT"
    using en tm_okD(6) [OF ok, of c] by (auto simp: TIMER_INVALID_TIMEOUT_def word_order.extremum_unique)
  then obtain t ts0 where t: "L (head_of ?m c) = t # ts0" "list_get_head (tq_list (timer_queues ?m c)) (timer_nodes ?m) = Some t"
      "t \<noteq> NULL" "t \<in> TT" "queue (timers ?m t) = Some c"
    using first_head [OF tm_okD(1) [OF ok] c(1)] by blast
  obtain nt m' ts where m': "timer_dequeue_internal c t True ?m = Some (nt, m')" "tm_data TT (L(head_of ?m c := ts)) m'" "same_rest t c ?m m'"
      "set ts = set (L (head_of ?m c)) - {t}" "queue (timers m' t) = None" "armed ?m c \<longrightarrow> armed m' c"
    using dequeue_section [OF tm_okD(1) [OF ok] c(1) t(4), of True] t(1) by auto
  have j: "tpc S d \<noteq> Joining t x old" if "d \<noteq> c" for d x old using tm_okD(3) [OF ok, of d] t(5) that by (auto split: if_splits)
  have ok': "tm_ok TT (L(head_of ?m c := ts)) (set_tpc c (tpc S c) (S\<lparr>tmem := m'\<rparr>))"
    by (rule section_ok [OF ok m'(2,3) c(1)]) (use m'(4-6) c j in auto)
  let ?S = "S\<lparr>tmem := m'\<lparr>timer_actions := timer_actions m' @ [(c, t)]\<rparr>\<rparr>"
  have "tm_ok TT (L(head_of ?m c := ts)) ?S"
  proof (rule sys_cong [OF ok' [unfolded set_tpc_same]])
    have "head_of (m'\<lparr>timer_actions := timer_actions m' @ [(c, t)]\<rparr>) = head_of m'" by (rule head_of_same) simp
    then show "tpc_ok TT (L(head_of ?m c := ts)) (tmem ?S) d (tpc ?S d)" for d
      using tpc_ok_cong [OF tm_okD(3) [OF ok' [unfolded set_tpc_same], of d]] by simp
  qed (use tm_okD(5,6) [OF ok' [unfolded set_tpc_same]] in \<open>auto simp: armed_def\<close>)
  then show ?thesis using m'(1) t(2,3) by (intro exI) (auto simp: timer_expire_one_def)
qed

lemma expire_end_step:
  assumes ok: "tm_ok TT L S" and en: "tm_enabled TT (Expire_end c) S"
  shows "\<exists>S'. tm_exec (Expire_end c) S = Some S' \<and> tm_ok TT L S'"
proof -
  obtain m' where m': "timer_update_timeout c c (tmem S) = Some m'" "armed m' c" "timers m' = timers (tmem S)" "timer_queues m' = timer_queues (tmem S)"
      "timer_nodes m' = timer_nodes (tmem S)" "num_cpus m' = num_cpus (tmem S)" "ipi_pending m' = ipi_pending (tmem S)"
      "\<forall>d. d \<noteq> c \<longrightarrow> platform_timer m' d = platform_timer (tmem S) d"
    using update_timeout_simps by blast
  have h: "head_of m' = head_of (tmem S)" by (rule head_of_same) (simp add: m')
  let ?S = "set_expiring c None (S\<lparr>tmem := m'\<rparr>)"
  have "tm_ok TT L ?S"
  proof (rule sys_cong [OF ok])
    show "tpc_ok TT L (tmem ?S) d (tpc ?S d)" for d
      using tpc_ok_cong [OF tm_okD(3) [OF ok, of d], of m'] m' h by (simp add: set_expiring_def)
    show "armed (tmem ?S) d" if "d < num_cpus (tmem S)" "expiring ?S d = None" "\<not> migrating (tpc ?S d)" for d
    proof (cases "d = c")
      case False
      then have "armed (tmem S) d" using that tm_okD(5) [OF ok, of d] by (simp add: set_expiring_def)
      then show ?thesis using False m' by (simp add: set_expiring_def armed_def)
    qed (simp add: set_expiring_def m')
  qed (use m' tm_okD(6) [OF ok] in \<open>auto simp: set_expiring_def\<close>)
  then show ?thesis using m'(1) by simp
qed

lemma online_armed [simp]: "armed (upd_tq c (\<lambda>q. q\<lparr>online := b\<rparr>) m) d = armed m d"
  by (simp add: armed_def)

lemma offline_step:
  assumes ok: "tm_ok TT L S" and en: "tm_enabled TT (Offline c) S"
  shows "tm_ok TT L (set_tpc c (Migrating ((c + 1) mod num_cpus (tmem S))) (S\<lparr>tmem := timer_offline_begin c (tmem S)\<rparr>))" (is "tm_ok TT L ?S")
proof (rule sys_cong [OF ok])
  let ?m = "timer_offline_begin c (tmem S)"
  have m: "timers ?m = timers (tmem S)" "num_cpus ?m = num_cpus (tmem S)" "timer_queues ?m = (timer_queues (tmem S))(c := (timer_queues (tmem S) c)\<lparr>online := False\<rparr>)"
      "\<And>d. d \<noteq> c \<Longrightarrow> armed ?m d = armed (tmem S) d"
    by (simp_all add: timer_offline_begin_def platform_timer_cancel_timeout_def armed_def)
  have h: "head_of ?m = head_of (tmem S)" by (rule head_of_same) (simp add: m)
  have c: "c < num_cpus (tmem S)" "tpc S c = Idle" using en by simp_all
  show "tpc_ok TT L (tmem ?S) d (tpc ?S d)" for d
  proof (cases "d = c")
    case True
    then show ?thesis using c m(2,3) by (simp add: set_tpc_def)
  next
    case False
    then show ?thesis using tpc_ok_cong [OF tm_okD(3) [OF ok, of d] m(1,2) h] m(3) by (simp add: set_tpc_def)
  qed
  show "armed (tmem ?S) d" if "d < num_cpus (tmem S)" "expiring ?S d = None" "\<not> migrating (tpc ?S d)" for d
    using that m(4) tm_okD(5) [OF ok, of d] by (cases "d = c") (simp_all add: set_tpc_def)
qed (use en tm_okD(6) [OF ok] in \<open>auto simp: set_tpc_def timer_offline_begin_def platform_timer_cancel_timeout_def split: if_splits\<close>)

lemma online_step:
  assumes ok: "tm_ok TT L S" and en: "tm_enabled TT (Online c) S"
  shows "tm_ok TT L (S\<lparr>tmem := timer_handle_power_cpu_online c (tmem S)\<rparr>)" (is "tm_ok TT L ?S")
proof (rule sys_cong [OF ok])
  let ?m = "timer_handle_power_cpu_online c (tmem S)"
  have m: "timers ?m = timers (tmem S)" "num_cpus ?m = num_cpus (tmem S)" "timer_queues ?m = (timer_queues (tmem S))(c := (timer_queues (tmem S) c)\<lparr>online := True\<rparr>)"
      "\<And>d. armed ?m d = armed (tmem S) d"
    by (simp_all add: timer_handle_power_cpu_online_def)
  have h: "head_of ?m = head_of (tmem S)" by (rule head_of_same) (simp add: m)
  show "tpc_ok TT L (tmem ?S) d (tpc ?S d)" for d
    using tpc_ok_cong [OF tm_okD(3) [OF ok, of d] m(1,2) h] m(3) en by (cases "d = c") simp_all
qed (use tm_okD(5,6) [OF ok] in \<open>auto simp: timer_handle_power_cpu_online_def\<close>)

lemma offline_take_step:
  assumes ok: "tm_ok TT L S" and en: "tm_enabled TT (Offline_take c) S"
  shows "\<exists>S' L'. tm_exec (Offline_take c) S = Some S' \<and> tm_ok TT L' S'"
proof -
  let ?m = "tmem S"
  obtain s where s: "tpc S c = Migrating s" using en by auto
  have c: "c < num_cpus ?m" "s < num_cpus ?m" "\<not> online (timer_queues ?m c)" using tm_okD(3) [OF ok, of c] s by auto
  obtain t ts0 where t: "L (head_of ?m c) = t # ts0" "list_get_head (tq_list (timer_queues ?m c)) (timer_nodes ?m) = Some t"
      "t \<noteq> NULL" "t \<in> TT" "queue (timers ?m t) = Some c"
    using first_head [OF tm_okD(1) [OF ok] c(1)] en by auto
  obtain nt m' ts where m': "timer_dequeue_internal c t False ?m = Some (nt, m')" "tm_data TT (L(head_of ?m c := ts)) m'" "same_rest t c ?m m'"
      "set ts = set (L (head_of ?m c)) - {t}" "timers m' t = timers ?m t" "armed ?m c \<longrightarrow> armed m' c"
    using dequeue_section [OF tm_okD(1) [OF ok] c(1) t(4), of False] t(1) by auto
  have "tm_ok TT (L(head_of ?m c := ts)) (set_tpc c (Moving t s s) (S\<lparr>tmem := m'\<rparr>))"
    by (rule section_ok [OF ok m'(2,3) c(1)]) (use m'(4-6) c s t(4,5) same_restD [OF m'(3)] in auto)
  then show ?thesis using m'(1) t(2,3) s by (intro exI) (auto simp: timer_offline_take_def)
qed

lemma next_target_less: "0 < n \<Longrightarrow> timer_next_target n c g < n"
  by (simp add: timer_next_target_def Let_def)

text \<open>The search for a target fails only when no CPU is left to try.\<close>

definition no_target :: "tm_sys \<Rightarrow> nat \<Rightarrow> bool" where
  "no_target S c \<longleftrightarrow> (\<exists>t s g. tpc S c = Moving t s g \<and> \<not> (platform_cpu_functional (tmem S) g \<and> online (timer_queues (tmem S) g)) \<and>
    timer_next_target (num_cpus (tmem S)) c g = s)"

lemma offline_try_step:
  assumes ok: "tm_ok TT L S" and en: "tm_enabled TT (Offline_try c) S" and nt: "\<not> no_target S c"
  shows "\<exists>S' L'. tm_exec (Offline_try c) S = Some S' \<and> tm_ok TT L' S'"
proof -
  let ?m = "tmem S"
  obtain t s g where p: "tpc S c = Moving t s g" "unlocked t S" using en by auto
  have q: "c < num_cpus ?m" "t \<in> TT" "s < num_cpus ?m" "g < num_cpus ?m" "\<not> online (timer_queues ?m c)" using tm_okD(3) [OF ok, of c] p by auto
  have lk: "\<not> holds t (tpc S d)" for d using unlocked_not [OF ok p(2)] .
  consider "platform_cpu_functional ?m g" "online (timer_queues ?m g)" "queue (timers ?m t) \<noteq> Some c"
    | "platform_cpu_functional ?m g" "online (timer_queues ?m g)" "queue (timers ?m t) = Some c"
    | "\<not> (platform_cpu_functional ?m g \<and> online (timer_queues ?m g))" by blast
  then show ?thesis
  proof cases
    case 1
    then have "tm_exec (Offline_try c) S = Some (set_tpc c (Migrating g) S)" using p by (simp add: timer_try_move_to_cpu_def)
    moreover have "tm_ok TT L (set_tpc c (Migrating g) S)" using p q 1(3) by (intro tpc_step [OF ok]) auto
    ultimately show ?thesis by blast
  next
    case 2
    have u: "unlisted L ?m t" using in_flight_unlisted [OF ok q(2) 2(3)] p(1) by simp
    obtain m' ys zs where m': "timer_try_move_to_cpu c t g ?m = Some (True, m')" "L (head_of ?m g) = ys @ zs"
        "tm_data TT (L(head_of ?m g := ys @ t # zs)) m'" "same_rest t g ?m m'" "timers m' t = (timers ?m t)\<lparr>queue := Some g\<rparr>"
        "armed ?m g \<longrightarrow> armed m' g"
      using move_section [OF tm_okD(1) [OF ok] q(4) 2(2) q(2) u 2(3)] by blast
    have "tm_ok TT (L(head_of ?m g := ys @ t # zs)) (set_tpc c (Migrating g) (S\<lparr>tmem := m'\<rparr>))"
      by (rule section_ok [OF ok m'(3,4) q(4)]) (use m'(2,5,6) p(1) q lk 2 same_restD [OF m'(4)] in auto)
    then show ?thesis using m'(1) p(1) 2(1) by (intro exI) auto
  next
    case 3
    let ?g = "timer_next_target (num_cpus ?m) c g"
    have "?g \<noteq> s" using nt 3 p(1) by (auto simp: no_target_def)
    then have "tm_exec (Offline_try c) S = Some (set_tpc c (Moving t s ?g) S)" using p(1) 3 by (auto simp: timer_try_move_to_cpu_def Let_def)
    moreover have "tm_ok TT L (set_tpc c (Moving t s ?g) S)"
      using p q next_target_less [of "num_cpus ?m" c g] tm_okD(3) [OF ok, of c] by (intro tpc_step [OF ok]) auto
    ultimately show ?thesis by blast
  qed
qed

lemma offline_end_step:
  assumes ok: "tm_ok TT L S" and en: "tm_enabled TT (Offline_end c) S"
  shows "tm_ok TT L (set_tpc c Idle S)"
  using en by (intro tpc_step [OF ok]) (auto simp: armed_def)

lemma tm_any_step:
  assumes ok: "tm_ok TT L S" and en: "tm_enabled TT l S" and nt: "\<And>c. l = Offline_try c \<Longrightarrow> \<not> no_target S c"
  shows "\<exists>S' L'. tm_exec l S = Some S' \<and> tm_ok TT L' S'"
proof (cases l)
  case (Enqueue c t x)
  show ?thesis using enqueue_step [OF ok en [unfolded Enqueue]] unfolding Enqueue .
next
  case (Dequeue c t)
  show ?thesis using dequeue_step [OF ok en [unfolded Dequeue]] unfolding Dequeue .
next
  case (Dequeue_locked c)
  show ?thesis using dequeue_locked_step [OF ok en [unfolded Dequeue_locked]] unfolding Dequeue_locked .
next
  case (Update c t x)
  show ?thesis using update_step [OF ok en [unfolded Update]] unfolding Update .
next
  case (Update_leave c)
  show ?thesis using update_leave_step [OF ok en [unfolded Update_leave]] unfolding Update_leave .
next
  case (Update_join c)
  show ?thesis using update_join_step [OF ok en [unfolded Update_join]] unfolding Update_join .
next
  case (Expire_one c)
  show ?thesis using expire_one_step [OF ok en [unfolded Expire_one]] unfolding Expire_one .
next
  case (Offline_take c)
  show ?thesis using offline_take_step [OF ok en [unfolded Offline_take]] unfolding Offline_take .
next
  case (Expire c now)
  show ?thesis using expire_step [OF ok en [unfolded Expire]] unfolding Expire tm_exec.simps by blast
next
  case (Sync c now)
  show ?thesis using sync_step [OF ok en [unfolded Sync]] unfolding Sync tm_exec.simps by blast
next
  case (Offline c)
  show ?thesis using offline_step [OF ok en [unfolded Offline]] unfolding Offline tm_exec.simps by blast
next
  case (Offline_end c)
  show ?thesis using offline_end_step [OF ok en [unfolded Offline_end]] unfolding Offline_end tm_exec.simps by blast
next
  case (Online c)
  show ?thesis using online_step [OF ok en [unfolded Online]] unfolding Online tm_exec.simps by blast
next
  case (Expire_end c)
  show ?thesis using expire_end_step [OF ok en [unfolded Expire_end]] unfolding Expire_end by blast
next
  case (Offline_try c)
  show ?thesis using offline_try_step [OF ok en [unfolded Offline_try] nt [OF Offline_try]] unfolding Offline_try .
qed

lemma run_keeps:
  "tm_ok TT L S \<Longrightarrow> tm_run TT ls S = Some S' \<Longrightarrow> \<exists>L'. tm_ok TT L' S'"
proof (induction ls arbitrary: S L)
  case (Cons l ls)
  then obtain S1 where en: "tm_enabled TT l S" "tm_exec l S = Some S1" "tm_run TT ls S1 = Some S'"
    by (auto split: if_splits bind_splits)
  have "\<not> no_target S c" if l: "l = Offline_try c" for c
  proof
    assume "no_target S c"
    then obtain t s g where "tpc S c = Moving t s g" "\<not> (platform_cpu_functional (tmem S) g \<and> online (timer_queues (tmem S) g))"
        "timer_next_target (num_cpus (tmem S)) c g = s" by (auto simp: no_target_def)
    then have "tm_exec (Offline_try c) S = None" by (auto simp: timer_try_move_to_cpu_def Let_def)
    then show False using en(2) l by simp
  qed
  then obtain L' where "tm_ok TT L' S1" using tm_any_step [OF Cons.prems(1) en(1)] en(2) by auto
  then show ?case using Cons.IH en(3) by blast
qed auto

section \<open>Boot\<close>

text \<open>Before boot: the list heads are separate nodes, and no timer is queued.\<close>

definition before_boot :: "ptr set \<Rightarrow> timer_mem \<Rightarrow> bool" where
  "before_boot TT m \<longleftrightarrow> inj_on (head_of m) {..<num_cpus m} \<and> NULL \<notin> TT \<union> heads_of m \<and> TT \<inter> heads_of m = {} \<and>
    (\<forall>t \<in> TT. queue (timers m t) = None \<and> ln_prev (timer_nodes m t) = NULL)"

lemma boot_loop:
  assumes "inj_on (head_of m) (set cs)" "\<forall>c \<in> set cs. head_of m c \<noteq> NULL" "distinct cs"
  shows "\<exists>m'. timer_boot_loop b cs m = Some m' \<and> head_of m' = head_of m \<and> timers m' = timers m \<and> num_cpus m' = num_cpus m \<and>
    (\<forall>p. p \<notin> head_of m ` set cs \<longrightarrow> timer_nodes m' p = timer_nodes m p) \<and>
    (\<forall>c \<in> set cs. is_list (timer_nodes m') (head_of m c) [] \<and> tq_timeout (timer_queues m' c) = TIMER_INVALID_TIMEOUT) \<and>
    (\<forall>c. c \<notin> set cs \<longrightarrow> timer_queues m' c = timer_queues m c)"
  using assms
proof (induction cs arbitrary: m)
  case (Cons c cs)
  let ?h = "head_of m c"
  let ?n = "set_prev ?h ?h (set_next ?h ?h (timer_nodes m))"
  let ?m = "upd_tq c (\<lambda>q. q\<lparr>tq_timeout := TIMER_INVALID_TIMEOUT, online := (c = b)\<rparr>) (m\<lparr>timer_nodes := ?n\<rparr>)"
  have h: "head_of ?m = head_of m" by (rule head_of_same) simp
  have init: "list_init ?h (timer_nodes m) = Some ?n" using Cons.prems(2) by (simp add: list_init_def)
  have il: "is_list ?n ?h []" using init_list [of ?h "timer_nodes m"] init Cons.prems(2) by auto
  obtain m' where m': "timer_boot_loop b cs ?m = Some m'" "head_of m' = head_of m" "timers m' = timers m" "num_cpus m' = num_cpus m"
      "\<forall>p. p \<notin> head_of m ` set cs \<longrightarrow> timer_nodes m' p = ?n p"
      "\<forall>c \<in> set cs. is_list (timer_nodes m') (head_of m c) [] \<and> tq_timeout (timer_queues m' c) = TIMER_INVALID_TIMEOUT"
      "\<forall>d. d \<notin> set cs \<longrightarrow> timer_queues m' d = timer_queues ?m d"
    using Cons.IH [of ?m] Cons.prems unfolding h by auto
  have "?h \<notin> head_of m ` set cs" using Cons.prems(1,3) by (auto simp: inj_on_def)
  then have "timer_nodes m' ?h = ?n ?h" using m'(5) by blast
  then have "is_list (timer_nodes m') ?h []" by (intro is_list_cong [OF il]) simp
  moreover have "timer_boot_loop b (c # cs) m = Some m'" using init m'(1) by (simp add: head_of_def)
  moreover have "?n p = timer_nodes m p" if "p \<noteq> ?h" for p using that by (simp add: set_prev_def set_next_def)
  moreover have "timer_queues m' c = timer_queues ?m c" using m'(7) Cons.prems(3) by simp
  ultimately show ?case using m'(2-7) by (intro exI [of _ m'] conjI) simp_all
qed auto

definition tm_start :: "timer_mem \<Rightarrow> tm_sys" where
  "tm_start m = \<lparr>tmem = m, tpc = \<lambda>_. Idle, expiring = \<lambda>_. None\<rparr>"

lemma boot_data:
  assumes b: "before_boot TT m0" and m: "timer_handle_boot_cold_init b m0 = Some m"
  shows "tm_data TT (\<lambda>_. []) m" "\<And>t. t \<in> TT \<Longrightarrow> queue (timers m t) = None" "\<And>c. c < num_cpus m \<Longrightarrow> tq_timeout (timer_queues m c) = TIMER_INVALID_TIMEOUT"
proof -
  have "inj_on (head_of m0) {..<num_cpus m0}" "\<forall>c \<in> {..<num_cpus m0}. head_of m0 c \<noteq> NULL" using b by (auto simp: before_boot_def heads_of_def)
  then have m': "head_of m = head_of m0" "timers m = timers m0" "num_cpus m = num_cpus m0"
      "\<And>p. p \<notin> heads_of m0 \<Longrightarrow> timer_nodes m p = timer_nodes m0 p"
      "\<And>c. c < num_cpus m0 \<Longrightarrow> is_list (timer_nodes m) (head_of m0 c) []"
      "\<And>c. c < num_cpus m0 \<Longrightarrow> tq_timeout (timer_queues m c) = TIMER_INVALID_TIMEOUT"
    using boot_loop [of m0 "[0..<num_cpus m0]" b] m
    by (auto simp: timer_handle_boot_cold_init_def atLeast0LessThan heads_of_def)
  have hs: "heads_of m = heads_of m0" using m' by (simp add: heads_of_def)
  show "queue (timers m t) = None" if "t \<in> TT" for t using b that m'(2) by (simp add: before_boot_def)
  show "tq_timeout (timer_queues m c) = TIMER_INVALID_TIMEOUT" if "c < num_cpus m" for c using m'(3,6) that by simp
  show "tm_data TT (\<lambda>_. []) m"
  proof (rule tm_dataI)
    show "inj_on (head_of m) {..<num_cpus m}" using b m' by (simp add: before_boot_def)
    show "lists (timer_nodes m) (heads_of m) (\<lambda>_. [])" unfolding lists_def hs using m'(5) by (auto simp: heads_of_def)
    show "queue_ok TT (\<lambda>_. []) m c" if "c < num_cpus m" for c using m'(6) that m'(3) by (simp add: queue_ok_def first_timeout_def)
    show "t \<noteq> NULL \<and> t \<notin> heads_of m" if "t \<in> TT" for t using b that by (auto simp: before_boot_def hs)
    show "ln_prev (timer_nodes m t) = NULL" if "t \<in> TT" for t
    proof -
      have "t \<notin> heads_of m0" "ln_prev (timer_nodes m0 t) = NULL" using b that by (auto simp: before_boot_def)
      then show ?thesis using m'(4) by simp
    qed
  qed
qed

lemma start_ok:
  assumes "before_boot TT m0" "timer_handle_boot_cold_init b m0 = Some m"
  shows "tm_ok TT (\<lambda>_. []) (tm_start m)"
  using boot_data [OF assms] by (intro tm_okI placedI) (auto simp: tm_start_def armed_def)

section \<open>Properties\<close>

lemma first_le:
  assumes d: "tm_data TT L m" and c: "c < num_cpus m" and t: "t \<in> set (L (head_of m c))"
  shows "tq_timeout (timer_queues m c) \<le> timeout (timers m t)"
proof -
  note q = queue_okD [OF tm_dataD(3) [OF d c]]
  show ?thesis using q(1,2) t by (cases "L (head_of m c)") (auto simp: first_timeout_def)
qed

lemma foreach_data:
  assumes "tm_data TT L m" "c < num_cpus m"
  shows "list_foreach (tq_list (timer_queues m c)) (timer_nodes m) = Some (L (head_of m c))"
  using iter_from_list [of "timer_nodes m" "head_of m c" "[]"] tm_list [OF assms] is_list_head by (simp add: list_foreach_def head_of_def)

text \<open>
  C17. No timer is missed. After boot, whatever the CPUs do with timers, and also while timers expire
  and CPUs go offline and hand their timers to others, every section returns, unless a CPU that goes
  offline finds no other CPU for a timer. A queued timer is either being handed over or in the list of
  the CPU that it is queued on. Unless this CPU is just processing its queue, its hardware timer is set
  to no later than the timeout, or the CPU has been interrupted in order to look at its queue.
\<close>

theorem timer_never_missed:
  assumes "before_boot TT m0" "timer_handle_boot_cold_init b m0 = Some m" "tm_run TT ls (tm_start m) = Some S"
  shows "(tm_enabled TT l S \<longrightarrow> (\<forall>c. l = Offline_try c \<longrightarrow> \<not> no_target S c) \<longrightarrow> (\<exists>S'. tm_exec l S = Some S')) \<and>
    (t \<in> TT \<longrightarrow> queue (timers (tmem S) t) = Some c \<longrightarrow> in_flight t (tpc S c) \<or>
      (\<exists>ts. list_foreach (tq_list (timer_queues (tmem S) c)) (timer_nodes (tmem S)) = Some ts \<and> t \<in> set ts) \<and>
      (expiring S c = None \<longrightarrow> \<not> migrating (tpc S c) \<longrightarrow> timeout (timers (tmem S) t) = TIMER_INVALID_TIMEOUT \<or>
        (\<exists>h. platform_timer (tmem S) c = Some h \<and> h \<le> timeout (timers (tmem S) t)) \<or>
        bit (ipi_pending (tmem S) c) (reason_number IPI_REASON_TIMER_QUEUE_SYNC)))"
proof -
  obtain L where ok: "tm_ok TT L S" using run_keeps [OF start_ok [OF assms(1,2)] assms(3)] by blast
  have "in_flight t (tpc S c) \<or>
      (\<exists>ts. list_foreach (tq_list (timer_queues (tmem S) c)) (timer_nodes (tmem S)) = Some ts \<and> t \<in> set ts) \<and>
      (expiring S c = None \<longrightarrow> \<not> migrating (tpc S c) \<longrightarrow> timeout (timers (tmem S) t) = TIMER_INVALID_TIMEOUT \<or>
        (\<exists>h. platform_timer (tmem S) c = Some h \<and> h \<le> timeout (timers (tmem S) t)) \<or>
        bit (ipi_pending (tmem S) c) (reason_number IPI_REASON_TIMER_QUEUE_SYNC))"
    if t: "t \<in> TT" "queue (timers (tmem S) t) = Some c"
  proof (cases "in_flight t (tpc S c)")
    case False
    then have l: "c < num_cpus (tmem S)" "t \<in> set (L (head_of (tmem S) c))" using placedD [OF tm_okD(2) [OF ok] t] by auto
    have "list_foreach (tq_list (timer_queues (tmem S) c)) (timer_nodes (tmem S)) = Some (L (head_of (tmem S) c))"
      by (rule foreach_data [OF tm_okD(1) [OF ok] l(1)])
    moreover have "tq_timeout (timer_queues (tmem S) c) \<le> timeout (timers (tmem S) t)" by (rule first_le [OF tm_okD(1) [OF ok] l])
    ultimately show ?thesis using tm_okD(5) [OF ok l(1)] l(2)
      by (auto simp: armed_def TIMER_INVALID_TIMEOUT_def word_order.extremum_unique)
  qed simp
  moreover have "\<exists>S'. tm_exec l S = Some S'" if "tm_enabled TT l S" "\<forall>c. l = Offline_try c \<longrightarrow> \<not> no_target S c"
    using tm_any_step [OF ok that(1)] that(2) by blast
  ultimately show ?thesis by blast
qed

text \<open>Two CPUs and one timer. CPU 0 goes offline and hands the timer to CPU 1.\<close>

definition ex_timer_mem :: timer_mem where
  "ex_timer_mem = \<lparr>ipi_pending = \<lambda>_. 0, ipi_line = \<lambda>_. False, sched_triggered = \<lambda>_. False, num_cpus = 2,
     timers = \<lambda>_. \<lparr>timeout = 0, action = 0, queue = None\<rparr>,
     timer_queues = \<lambda>c. \<lparr>tq_timeout = 0, tq_list = if c = 0 then 0x10 else 0x20, online = False\<rparr>,
     timer_nodes = \<lambda>_. \<lparr>ln_next = NULL, ln_prev = NULL\<rparr>, platform_timer = \<lambda>_. None, platform_cpu_functional = \<lambda>_. True, timer_actions = []\<rparr>"

lemma ex_before_boot: "before_boot {0x1000} ex_timer_mem"
proof -
  have "{..<2 :: nat} = {0, 1}" by auto
  then show ?thesis by (simp add: before_boot_def ex_timer_mem_def heads_of_def head_of_def)
qed

lemma seek_end: "list_insert_in_order_seek cmp node h m p h = Some (p, h)"
  by (subst list_insert_in_order_seek.simps) simp

lemmas timer_eval = ex_timer_mem_def timer_handle_boot_cold_init_def upt_conv_Cons list_init_def set_next_def set_prev_def upd_tq_def upd_timer_def
  list_insert_in_order_def list_insert_in_order_explicit_def seek_end list_delete_node_def list_get_head_def list_is_empty_def Let_def
  timer_enqueue_def timer_enqueue_internal_def timer_update_timeout_def platform_timer_set_timeout_def platform_timer_cancel_timeout_def
  timer_dequeue_internal_def TIMER_INVALID_TIMEOUT_def

lemma ex_boot: "\<exists>m. timer_handle_boot_cold_init 0 ex_timer_mem = Some m \<and> (\<exists>S. tm_run {0x1000} [Online 1, Enqueue 0 0x1000 5, Offline 0, Offline_take 0, Offline_try 0, Offline_end 0] (tm_start m) = Some S \<and>
    queue (timers (tmem S) 0x1000) = Some 1 \<and> timeout (timers (tmem S) 0x1000) = 5 \<and> tpc S 1 = Idle \<and> expiring S 1 = None \<and> platform_timer (tmem S) 1 = None)"
  by (simp add: timer_eval tm_start_def unlocked_def set_tpc_def set_expiring_def timer_offline_begin_def timer_offline_take_def timer_try_move_to_cpu_def
    timer_handle_power_cpu_online_def ipi_simps waiting_zero)

theorem timer_never_missed_witness:
  "\<exists>m S. timer_handle_boot_cold_init 0 ex_timer_mem = Some m \<and>
    tm_run {0x1000} [Online 1, Enqueue 0 0x1000 5, Offline 0, Offline_take 0, Offline_try 0, Offline_end 0] (tm_start m) = Some S \<and>
    queue (timers (tmem S) 0x1000) = Some 1 \<and> bit (ipi_pending (tmem S) 1) (reason_number IPI_REASON_TIMER_QUEUE_SYNC)"
proof -
  obtain m S where S: "timer_handle_boot_cold_init 0 ex_timer_mem = Some m"
      "tm_run {0x1000} [Online 1, Enqueue 0 0x1000 5, Offline 0, Offline_take 0, Offline_try 0, Offline_end 0] (tm_start m) = Some S"
      "queue (timers (tmem S) 0x1000) = Some 1" "timeout (timers (tmem S) 0x1000) = 5" "tpc S 1 = Idle" "expiring S 1 = None" "platform_timer (tmem S) 1 = None"
    using ex_boot by blast
  then show ?thesis using timer_never_missed [OF ex_before_boot S(1,2), of _ "0x1000" 1] by (auto simp: TIMER_INVALID_TIMEOUT_def)
qed

text \<open>The timers in a list that are due, with their timeouts.\<close>

definition due_of :: "u64 \<Rightarrow> timer_mem \<Rightarrow> ptr list \<Rightarrow> (u64 \<times> ptr) list" where
  "due_of now m ts = map (\<lambda>t. (timeout (timers m t), t)) (filter (\<lambda>t. timeout (timers m t) \<le> now) ts)"

lemma due_of_cong: "(\<And>x. x \<in> set ts \<Longrightarrow> timers m' x = timers m x) \<Longrightarrow> due_of now m' ts = due_of now m ts"
  unfolding due_of_def by (intro map_cong filter_cong) auto

text \<open>
  What may happen while the lock of the queue is dropped, in the action of the timer that has expired and
  on the other CPUs. Timers may be enqueued, updated and dequeued, on every queue, the one that has just
  expired included, as long as the timers of this CPU that are due stay the same. In particular, a
  timer that is set again is set to a later time than the one that is being processed.
\<close>

definition keeps_due :: "ptr set \<Rightarrow> nat \<Rightarrow> u64 \<Rightarrow> (nat \<Rightarrow> ptr \<Rightarrow> timer_mem \<Rightarrow> timer_mem) \<Rightarrow> bool" where
  "keeps_due TT c now act \<longleftrightarrow> (\<forall>k t L m. tm_data TT L m \<longrightarrow> c < num_cpus m \<longrightarrow> t \<in> TT \<longrightarrow> queue (timers m t) = None \<longrightarrow>
    (\<exists>L'. tm_data TT L' (act k t m) \<and> num_cpus (act k t m) = num_cpus m \<and> head_of (act k t m) = head_of m \<and>
      timer_actions (act k t m) = timer_actions m \<and> due_of now (act k t m) (L' (head_of m c)) = due_of now m (L (head_of m c))))"

lemma keeps_dueD:
  assumes "keeps_due TT c now act" "tm_data TT L m" "c < num_cpus m" "t \<in> TT" "queue (timers m t) = None"
  obtains L' where "tm_data TT L' (act k t m)" "num_cpus (act k t m) = num_cpus m" "head_of (act k t m) = head_of m"
    "timer_actions (act k t m) = timer_actions m" "due_of now (act k t m) (L' (head_of m c)) = due_of now m (L (head_of m c))"
  using assms unfolding keeps_due_def by meson

lemma none_due:
  assumes d: "tm_data TT L m" and c: "c < num_cpus m" and n: "now \<noteq> TIMER_INVALID_TIMEOUT"
  shows "tq_timeout (timer_queues m c) \<le> now \<longleftrightarrow> due_of now m (L (head_of m c)) \<noteq> []"
proof (cases "L (head_of m c)")
  case Nil
  then show ?thesis using queue_okD(2) [OF tm_dataD(3) [OF d c]] n
    by (simp add: due_of_def first_timeout_def TIMER_INVALID_TIMEOUT_def word_order.extremum_unique)
next
  case (Cons t ts)
  then have "tq_timeout (timer_queues m c) = timeout (timers m t)" "\<forall>x \<in> set ts. timeout (timers m t) \<le> timeout (timers m x)"
    using queue_okD(1,2) [OF tm_dataD(3) [OF d c]] by (simp_all add: first_timeout_def)
  then show ?thesis using Cons by (force simp: due_of_def filter_empty_conv)
qed

text \<open>One round: the first of the timers that are due leaves the list.\<close>

lemma expire_round:
  assumes d: "tm_data TT L m" and c: "c < num_cpus m" and n: "now \<noteq> TIMER_INVALID_TIMEOUT"
    and due: "due_of now m (L (head_of m c)) = (tmo, t) # ds"
  shows "\<exists>m' ts. timer_expire_one c m = Some (t, m') \<and> tm_data TT (L(head_of m c := ts)) m' \<and> num_cpus m' = num_cpus m \<and> head_of m' = head_of m \<and>
    timer_actions m' = timer_actions m @ [(c, t)] \<and> t \<in> TT \<and> queue (timers m' t) = None \<and> due_of now m' ts = ds"
proof -
  have "tq_timeout (timer_queues m c) \<le> now" using none_due [OF d c n] due by simp
  then obtain ts where ts: "L (head_of m c) = t # ts" "due_of now m ts = ds"
  proof (cases "L (head_of m c)")
    case (Cons x xs)
    moreover have "timeout (timers m x) \<le> now"
      using \<open>tq_timeout (timer_queues m c) \<le> now\<close> queue_okD(2) [OF tm_dataD(3) [OF d c]] Cons by (simp add: first_timeout_def)
    ultimately show ?thesis using due that by (auto simp: due_of_def)
  qed (use due in \<open>simp add: due_of_def\<close>)
  have x: "list_get_head (tq_list (timer_queues m c)) (timer_nodes m) = Some t" "t \<noteq> NULL" "t \<notin> set ts"
    using list_queries(2) [OF tm_list [OF d c]] tm_list [OF d c] ts(1) by (auto simp: head_of_def is_list_def)
  obtain nt m1 where m1: "timer_dequeue_internal c t True m = Some (nt, m1)" "tm_data TT (L(head_of m c := ts)) m1" "same_rest t c m m1"
      "timers m1 t = (timers m t)\<lparr>queue := None\<rparr>"
    using dequeue_listed [OF d c, of "[]" t ts True] ts(1) by auto
  let ?m = "m1\<lparr>timer_actions := timer_actions m1 @ [(c, t)]\<rparr>"
  note r = same_restD [OF m1(3)]
  have "timer_expire_one c m = Some (t, ?m)" using x m1(1) by (simp add: timer_expire_one_def)
  moreover have "tm_data TT (L(head_of m c := ts)) ?m" by (rule tm_data_cong [OF m1(2)]) simp_all
  moreover have "head_of ?m = head_of m" using r(2) by (simp add: head_of_same [of ?m m1])
  moreover have "timers m1 x = timers m x" if "x \<in> set ts" for x using r(4) x(3) that by metis
  then have "due_of now ?m ts = due_of now m ts" by (intro due_of_cong) simp
  moreover have "t \<in> TT" using listed_queue [OF d c] ts(1) by simp
  ultimately show ?thesis using r(1) m1(3,4) ts(2) by (intro exI [of _ ?m] exI [of _ ts]) (simp add: same_rest_def)
qed

lemma expire_loop:
  assumes "keeps_due TT c now act" "tm_data TT L m" "c < num_cpus m" "now \<noteq> TIMER_INVALID_TIMEOUT" "due_of now m (L (head_of m c)) = ds"
  shows "\<exists>m' L'. timer_expire_loop act c now m = Some m' \<and> tm_data TT L' m' \<and> head_of m' = head_of m \<and> num_cpus m' = num_cpus m \<and>
    timer_actions m' = timer_actions m @ map (\<lambda>(_, t). (c, t)) ds \<and> due_of now m' (L' (head_of m c)) = []"
  using assms(2,3,5)
proof (induction ds arbitrary: m L)
  case Nil
  then have "\<not> tq_timeout (timer_queues m c) \<le> now" using none_due [OF Nil(1,2) assms(4)] by simp
  then show ?case using Nil by (subst timer_expire_loop.simps) auto
next
  case (Cons p ds)
  obtain tmo t where p: "p = (tmo, t)" by fastforce
  obtain m1 ts where m1: "timer_expire_one c m = Some (t, m1)" "tm_data TT (L(head_of m c := ts)) m1" "num_cpus m1 = num_cpus m" "head_of m1 = head_of m"
      "timer_actions m1 = timer_actions m @ [(c, t)]" "t \<in> TT" "queue (timers m1 t) = None" "due_of now m1 ts = ds"
    using expire_round [OF Cons.prems(1,2) assms(4)] Cons.prems(3) unfolding p by blast
  have c1: "c < num_cpus m1" using Cons.prems(2) m1(3) by simp
  let ?k = "action (timers m1 t)"
  obtain L2 where m2: "tm_data TT L2 (act ?k t m1)" "num_cpus (act ?k t m1) = num_cpus m1" "head_of (act ?k t m1) = head_of m1"
      "timer_actions (act ?k t m1) = timer_actions m1" "due_of now (act ?k t m1) (L2 (head_of m1 c)) = ds"
    using keeps_dueD [OF assms(1) m1(2) c1 m1(6,7), of ?k] m1(4,8) by auto
  obtain m' L' where m': "timer_expire_loop act c now (act ?k t m1) = Some m'" "tm_data TT L' m'" "head_of m' = head_of m" "num_cpus m' = num_cpus m"
      "timer_actions m' = timer_actions (act ?k t m1) @ map (\<lambda>(_, t). (c, t)) ds" "due_of now m' (L' (head_of m c)) = []"
    using Cons.IH [OF m2(1)] m2(2-5) m1(3,4) Cons.prems(2) by auto
  have "tq_timeout (timer_queues m c) \<le> now" using none_due [OF Cons.prems(1,2) assms(4)] Cons.prems(3) by simp
  then have "timer_expire_loop act c now m = Some m'" using m1(1) m'(1) by (subst timer_expire_loop.simps) simp
  then show ?case using m'(2-6) m2(4) m1(5) p by auto
qed

text \<open>
  C18. The handler of the hardware timer returns, and it triggers the actions of exactly those timers of
  its CPU whose timeout has been reached, each once, in the order of the queue, which is the order of their
  timeouts. The actions are arbitrary, and so is what other CPUs do to the queues while the lock is
  dropped for an action, as long as they keep the lists well-formed and do not change which timers of
  this CPU are due: they may set the timer again to a later time, but not cancel or add timers that are due.
  In the end no timer that is due is left in the queue, and the hardware timer is set to the
  earliest timeout that is left.
\<close>

theorem timer_expiry_exact:
  assumes "tm_data TT L m" "c < num_cpus m" "now \<noteq> TIMER_INVALID_TIMEOUT" "keeps_due TT c now act"
    and "list_foreach (tq_list (timer_queues m c)) (timer_nodes m) = Some ts"
  shows "\<exists>m' rest. timer_handle_platform_timer_expiry act c now m = Some m' \<and>
    timer_actions m' = timer_actions m @ map (Pair c) (filter (\<lambda>t. timeout (timers m t) \<le> now) ts) \<and>
    sorted (map (\<lambda>t. timeout (timers m t)) ts) \<and> distinct ts \<and>
    list_foreach (tq_list (timer_queues m' c)) (timer_nodes m') = Some rest \<and> (\<forall>t \<in> set rest. now < timeout (timers m' t)) \<and>
    platform_timer m' c = (if rest = [] then None
      else let tmo = Min ((\<lambda>t. timeout (timers m' t)) ` set rest) in if tmo = TIMER_INVALID_TIMEOUT then None else Some tmo)"
proof -
  have ts: "L (head_of m c) = ts" using foreach_data [OF assms(1,2)] assms(5) by simp
  obtain m1 L1 where m1: "timer_expire_loop act c now m = Some m1" "tm_data TT L1 m1" "head_of m1 = head_of m" "num_cpus m1 = num_cpus m"
      "timer_actions m1 = timer_actions m @ map (\<lambda>(_, t). (c, t)) (due_of now m ts)" "due_of now m1 (L1 (head_of m c)) = []"
    using expire_loop [OF assms(4,1-3)] ts by blast
  have c1: "c < num_cpus m1" using assms(2) m1(4) by simp
  define rest where "rest = L1 (head_of m c)"
  note q = queue_okD [OF tm_dataD(3) [OF m1(2) c1], unfolded m1(3) rest_def [symmetric]]
  obtain m' where m': "timer_update_timeout c c m1 = Some m'" "timers m' = timers m1" "timer_queues m' = timer_queues m1" "timer_nodes m' = timer_nodes m1"
      "timer_actions m' = timer_actions m1"
      "platform_timer m' c = (if tq_timeout (timer_queues m1 c) = TIMER_INVALID_TIMEOUT then None else Some (tq_timeout (timer_queues m1 c)))"
    by (simp add: timer_update_timeout_def platform_timer_set_timeout_def platform_timer_cancel_timeout_def c_assert_def)
  have "rest = [] \<or> tq_timeout (timer_queues m1 c) = Min ((\<lambda>t. timeout (timers m1 t)) ` set rest)"
    using q(1,2) by (cases rest) (auto simp: first_timeout_def intro!: Min_eqI [symmetric])
  moreover have "rest = [] \<Longrightarrow> tq_timeout (timer_queues m1 c) = TIMER_INVALID_TIMEOUT" using q(2) by (simp add: first_timeout_def)
  moreover have "list_foreach (tq_list (timer_queues m1 c)) (timer_nodes m1) = Some rest" using foreach_data [OF m1(2) c1] m1(3) by (simp add: rest_def)
  moreover have "\<forall>t \<in> set rest. now < timeout (timers m1 t)" using m1(6) by (auto simp: rest_def [symmetric] due_of_def filter_empty_conv)
  moreover have "map (\<lambda>(_, t). (c, t)) (due_of now m ts) = map (Pair c) (filter (\<lambda>t. timeout (timers m t) \<le> now) ts)" by (simp add: due_of_def)
  moreover have "sorted (map (\<lambda>t. timeout (timers m t)) ts)" using queue_okD(1) [OF tm_dataD(3) [OF assms(1,2)]] ts by simp
  moreover have "distinct ts" using tm_list [OF assms(1,2)] ts by (simp add: is_list_def)
  moreover have "timer_handle_platform_timer_expiry act c now m = Some m'"
    using m1(1) m'(1) by (simp add: timer_handle_platform_timer_expiry_def timer_dequeue_expired_def)
  ultimately show ?thesis using m1(5) m'(2-6) by (intro exI [of _ m'] exI [of _ rest]) (auto simp: Let_def)
qed

text \<open>An action that sets its timer again, as the ones of the random number generator and of the power manager do.\<close>

definition rearm :: "nat \<Rightarrow> u64 \<Rightarrow> nat \<Rightarrow> ptr \<Rightarrow> timer_mem \<Rightarrow> timer_mem" where
  "rearm c tmo k t m = (case timer_enqueue c t tmo m of Some m' \<Rightarrow> m' | None \<Rightarrow> m)"

lemma rearm_keeps_due:
  assumes "now < tmo"
  shows "keeps_due TT c now (rearm c tmo)"
  unfolding keeps_due_def
proof (intro allI impI)
  fix k t L m assume d: "tm_data TT L m" "c < num_cpus m" and t: "t \<in> TT" "queue (timers m t) = None"
  show "\<exists>L'. tm_data TT L' (rearm c tmo k t m) \<and> num_cpus (rearm c tmo k t m) = num_cpus m \<and> head_of (rearm c tmo k t m) = head_of m \<and>
      timer_actions (rearm c tmo k t m) = timer_actions m \<and> due_of now (rearm c tmo k t m) (L' (head_of m c)) = due_of now m (L (head_of m c))"
  proof (cases "online (timer_queues m c)")
    case True
    have u: "unlisted L m t" using listed_queue [OF d(1)] t(2) unfolding unlisted_iff by fastforce
    obtain m' ys zs where m': "timer_enqueue_internal c c t tmo m = Some m'" "L (head_of m c) = ys @ zs" "tm_data TT (L(head_of m c := ys @ t # zs)) m'"
        "same_rest t c m m'" "timers m' t = (timers m t)\<lparr>queue := Some c, timeout := tmo\<rparr>"
      using enqueue_section [OF d(1,2) True t(1) u t(2)] by blast
    have r: "rearm c tmo k t m = m'" using m'(1) tm_dataD(4) [OF d(1) t(1)] by (simp add: rearm_def timer_enqueue_def c_assert_def)
    have "t \<notin> set (ys @ zs)" using unlistedD [OF u d(2)] m'(2) by simp
    then have "timers m' x = timers m x" if "x \<in> set (ys @ zs)" for x using same_restD(4) [OF m'(4)] that by metis
    then have "due_of now m' (ys @ t # zs) = due_of now m (ys @ zs)" using assms m'(5) due_of_cong [of ys m' m now] due_of_cong [of zs m' m now]
      by (simp add: due_of_def)
    then show ?thesis using m'(2,3,4) same_restD(1,2) [OF m'(4)] unfolding r by (intro exI [of _ "L(head_of m c := ys @ t # zs)"]) (simp add: same_rest_def)
  next
    case False
    then have "rearm c tmo k t m = m" by (simp add: rearm_def timer_enqueue_def timer_enqueue_internal_def c_assert_def split: option.split)
    then show ?thesis using d(1) by auto
  qed
qed

lemma ex_queue: "\<exists>m m1. timer_handle_boot_cold_init 0 ex_timer_mem = Some m \<and> timer_enqueue_internal 0 0 0x1000 5 m = Some m1 \<and> num_cpus m = 2 \<and>
    online (timer_queues m 0) \<and> timer_actions m1 = [] \<and> num_cpus m1 = 2 \<and> timeout (timers m1 0x1000) = 5"
  by (simp add: timer_eval)

theorem timer_expiry_exact_witness:
  "\<exists>m m'. timer_handle_platform_timer_expiry (rearm 0 9) 0 7 m = Some m' \<and> timer_actions m = [] \<and> timer_actions m' = [(0, 0x1000)]"
proof -
  obtain m m1 where m: "timer_handle_boot_cold_init 0 ex_timer_mem = Some m" "timer_enqueue_internal 0 0 0x1000 5 m = Some m1" "num_cpus m = 2"
      "online (timer_queues m 0)" "timer_actions m1 = []" "num_cpus m1 = 2" "timeout (timers m1 0x1000) = 5"
    using ex_queue by blast
  note d = boot_data [OF ex_before_boot m(1)]
  have "unlisted (\<lambda>_. []) m 0x1000" by (simp add: unlisted_def)
  then have d1: "tm_data {0x1000} ((\<lambda>_. [])(head_of m 0 := [0x1000])) m1" "same_rest 0x1000 0 m m1"
    using enqueue_section [OF d(1), of 0 "0x1000" 5] m d(2) by auto
  have "head_of m1 0 = head_of m 0" using same_restD(2) [OF d1(2)] by simp
  then have "list_foreach (tq_list (timer_queues m1 0)) (timer_nodes m1) = Some [0x1000]"
    using foreach_data [OF d1(1), of 0] m(6) by simp
  from timer_expiry_exact [OF d1(1) _ _ rearm_keeps_due this, of 7 9] m(5-7) show ?thesis by (auto simp: TIMER_INVALID_TIMEOUT_def)
qed

end
