(* ===== verification/Memdb.thy ===== *)
theory Memdb
  imports Allocator_Interface Bitmap Bootmem
begin

text \<open>
  The memory database, \<^verbatim>\<open>hyp/mem/memdb_bitmap\<close>: the model. It records the owner of every piece of
  physical memory in a radix tree. A level of the tree is a table of 256 entries or, where the entries
  are pages, a bitmap of small numbers that name one of at most 16 owners.

  Levels live in a store that is indexed by their addresses. They are allocated from the heap of the
  private partition: its state is the field \<open>private_heap\<close>, and \<^verbatim>\<open>partition_alloc\<close> and
  \<^verbatim>\<open>partition_free\<close> on it are the arguments \<open>alloc\<close> and \<open>dealloc\<close>. A level that is taken out of the
  tree is handed to the read-copy-update mechanism, which is recorded in \<open>rcu_released\<close>. Functions that
  call each other recursively take the depth of the tree below them as an argument. The constants are
  those of the configurations with 36 bits of physical address.
\<close>

section \<open>Data\<close>

definition MEMDB_BITS_PER_LEVEL :: nat where "MEMDB_BITS_PER_LEVEL = 8"
definition MEMDB_NUM_ENTRIES :: nat where "MEMDB_NUM_ENTRIES = 2 ^ MEMDB_BITS_PER_LEVEL"
definition MEMDB_MAX_BITS :: nat where "MEMDB_MAX_BITS = 36"
definition MEMDB_PAGE_BITS :: nat where "MEMDB_PAGE_BITS = 12"

definition MEMDB_START_BITS :: nat where
  "MEMDB_START_BITS = MEMDB_PAGE_BITS +
    (MEMDB_MAX_BITS - MEMDB_PAGE_BITS + (MEMDB_BITS_PER_LEVEL - 1)) div MEMDB_BITS_PER_LEVEL * MEMDB_BITS_PER_LEVEL"

definition MEMDB_ROOT_ENTRY_BITS :: nat where
  "MEMDB_ROOT_ENTRY_BITS = MEMDB_START_BITS - MEMDB_BITS_PER_LEVEL"

definition MEMDB_MIN_BITS :: nat where
  "MEMDB_MIN_BITS = MEMDB_PAGE_BITS - MEMDB_PAGE_BITS div MEMDB_BITS_PER_LEVEL * MEMDB_BITS_PER_LEVEL"

definition MEMDB_OBJECT_ALIGN_P2 :: nat where "MEMDB_OBJECT_ALIGN_P2 = 3"
definition MEMDB_BITMAP_ID_BITS :: nat where "MEMDB_BITMAP_ID_BITS = 4"
definition MEMDB_BITMAP_SIZE :: nat where "MEMDB_BITMAP_SIZE = MEMDB_BITMAP_ID_BITS * MEMDB_NUM_ENTRIES"
definition MEMDB_BITMAP_OBJECTS :: nat where "MEMDB_BITMAP_OBJECTS = 2 ^ MEMDB_BITMAP_ID_BITS"

lemmas memdb_constants = MEMDB_BITS_PER_LEVEL_def MEMDB_NUM_ENTRIES_def MEMDB_MAX_BITS_def MEMDB_PAGE_BITS_def
  MEMDB_START_BITS_def MEMDB_ROOT_ENTRY_BITS_def MEMDB_MIN_BITS_def MEMDB_OBJECT_ALIGN_P2_def
  MEMDB_BITMAP_ID_BITS_def MEMDB_BITMAP_SIZE_def MEMDB_BITMAP_OBJECTS_def

datatype memdb_type =
    MEMDB_TYPE_NOTYPE
  | MEMDB_TYPE_PARTITION
  | MEMDB_TYPE_ALLOCATOR
  | MEMDB_TYPE_EXTENT
  | MEMDB_TYPE_TRACE
  | MEMDB_TYPE_LEVEL_TABLE
  | MEMDB_TYPE_LEVEL_BITMAP

text \<open>An entry: the type in the low bits of the word and the address, without its low bits, above.\<close>

record memdb_entry =
  entry_type :: memdb_type
  entry_ptr :: ptr

definition memdb_entry_default :: memdb_entry where
  "memdb_entry_default = \<lparr>entry_type = MEMDB_TYPE_NOTYPE, entry_ptr = 0\<rparr>"

definition memdb_entry_set :: "ptr \<Rightarrow> memdb_type \<Rightarrow> memdb_entry" where
  "memdb_entry_set p t = \<lparr>entry_type = t, entry_ptr = p AND NOT (util_mask MEMDB_OBJECT_ALIGN_P2)\<rparr>"

type_synonym memdb_level_table = "nat \<Rightarrow> memdb_entry"

record memdb_level_bitmap =
  lb_bitmap :: bitmap
  lb_objects :: "nat \<Rightarrow> memdb_entry"
  lb_counts :: "nat \<Rightarrow> u16"

datatype memdb_rcu_class = MEMDB_RELEASE_LEVEL_TABLE | MEMDB_RELEASE_LEVEL_BITMAP

record 'h memdb_mem =
  level_tables :: "ptr \<Rightarrow> memdb_level_table"
  level_bitmaps :: "ptr \<Rightarrow> memdb_level_bitmap"
  memdb_root :: ptr
  private_heap :: 'h
  rcu_released :: "(memdb_rcu_class \<times> ptr) list"

text \<open>The sizes of the two structures, with 16 bytes for the contained \<^verbatim>\<open>rcu_entry\<close>.\<close>

definition sizeof_memdb_level_table :: u64 where "sizeof_memdb_level_table = 256 * 8 + 16"
definition sizeof_memdb_level_bitmap :: u64 where "sizeof_memdb_level_bitmap = 128 + 16 * 8 + 16 * 2 + 16"

definition upd_table :: "ptr \<Rightarrow> memdb_level_table \<Rightarrow> 'h memdb_mem \<Rightarrow> 'h memdb_mem" where
  "upd_table p t s = s\<lparr>level_tables := (level_tables s)(p := t)\<rparr>"

definition upd_bitmap :: "ptr \<Rightarrow> memdb_level_bitmap \<Rightarrow> 'h memdb_mem \<Rightarrow> 'h memdb_mem" where
  "upd_bitmap p b s = s\<lparr>level_bitmaps := (level_bitmaps s)(p := b)\<rparr>"

definition upd_entry :: "ptr \<Rightarrow> nat \<Rightarrow> memdb_entry \<Rightarrow> 'h memdb_mem \<Rightarrow> 'h memdb_mem" where
  "upd_entry p i e s = upd_table p ((level_tables s p)(i := e)) s"

section \<open>Levels\<close>

definition memdb_range_check :: "u64 \<Rightarrow> u64 \<Rightarrow> error_t" where
  "memdb_range_check start_addr end_addr =
    (if start_addr \<ge> end_addr then ERROR_ARGUMENT_INVALID
     else if end_addr \<ge> util_bit MEMDB_MAX_BITS then ERROR_ARGUMENT_SIZE
     else if \<not> util_is_p2aligned start_addr MEMDB_MIN_BITS \<or> \<not> util_is_p2aligned (end_addr + 1) MEMDB_MIN_BITS
       then ERROR_ARGUMENT_ALIGNMENT
     else OK)"

definition memdb_release_level_table :: "ptr \<Rightarrow> 'h memdb_mem \<Rightarrow> 'h memdb_mem" where
  "memdb_release_level_table table s = s\<lparr>rcu_released := rcu_released s @ [(MEMDB_RELEASE_LEVEL_TABLE, table)]\<rparr>"

definition memdb_release_level_bitmap :: "ptr \<Rightarrow> 'h memdb_mem \<Rightarrow> 'h memdb_mem" where
  "memdb_release_level_bitmap bm s = s\<lparr>rcu_released := rcu_released s @ [(MEMDB_RELEASE_LEVEL_BITMAP, bm)]\<rparr>"

definition memdb_bitmap_free_level_table :: "'h dealloc_fn \<Rightarrow> ptr \<Rightarrow> 'h memdb_mem \<Rightarrow> 'h memdb_mem option" where
  "memdb_bitmap_free_level_table dealloc table s = do {
     h \<leftarrow> dealloc (private_heap s) table sizeof_memdb_level_table;
     Some (s\<lparr>private_heap := h\<rparr>)
   }"

definition memdb_bitmap_free_level_bitmap :: "'h dealloc_fn \<Rightarrow> ptr \<Rightarrow> 'h memdb_mem \<Rightarrow> 'h memdb_mem option" where
  "memdb_bitmap_free_level_bitmap dealloc bm s = do {
     h \<leftarrow> dealloc (private_heap s) bm sizeof_memdb_level_bitmap;
     Some (s\<lparr>private_heap := h\<rparr>)
   }"

definition memdb_entry_for_object :: "ptr \<Rightarrow> memdb_type \<Rightarrow> memdb_entry option" where
  "memdb_entry_for_object object obj_type = do {
     c_assert (util_is_p2aligned object MEMDB_OBJECT_ALIGN_P2);
     Some (memdb_entry_set object obj_type)
   }"

text \<open>An allocation of a level: on success the new level is initialised.\<close>

definition memdb_alloc ::
    "'h alloc_fn \<Rightarrow> u64 \<Rightarrow> (ptr \<Rightarrow> 'h memdb_mem \<Rightarrow> 'h memdb_mem) \<Rightarrow> 'h memdb_mem \<Rightarrow> (ptr result \<times> 'h memdb_mem) option" where
  "memdb_alloc alloc sz init s = do {
     (r, h) \<leftarrow> alloc (private_heap s) sz 8;
     let s = s\<lparr>private_heap := h\<rparr>;
     Some (r, (case r of Inl _ \<Rightarrow> s | Inr p \<Rightarrow> init p s))
   }"

definition memdb_create_bitmap :: "'h alloc_fn \<Rightarrow> memdb_entry \<Rightarrow> 'h memdb_mem \<Rightarrow> (ptr result \<times> 'h memdb_mem) option" where
  "memdb_create_bitmap alloc initial_entry s =
     memdb_alloc alloc sizeof_memdb_level_bitmap (\<lambda>p. upd_bitmap p
       \<lparr>lb_bitmap = replicate (BITMAP_NUM_WORDS MEMDB_BITMAP_SIZE) 0,
        lb_objects = (\<lambda>_. memdb_entry_default)(0 := initial_entry),
        lb_counts = (\<lambda>_. 0)(0 := of_nat MEMDB_NUM_ENTRIES)\<rparr>) s"

definition memdb_create_table :: "'h alloc_fn \<Rightarrow> memdb_entry \<Rightarrow> 'h memdb_mem \<Rightarrow> (ptr result \<times> 'h memdb_mem) option" where
  "memdb_create_table alloc initial_entry s =
     memdb_alloc alloc sizeof_memdb_level_table (\<lambda>p. upd_table p (\<lambda>_. initial_entry)) s"

text \<open>The identifier that a bitmap has at an index.\<close>

definition memdb_bitmap_id :: "memdb_level_bitmap \<Rightarrow> nat \<Rightarrow> nat option" where
  "memdb_bitmap_id bm i =
     map_option unat (bitmap_atomic_extract (lb_bitmap bm) (i * MEMDB_BITMAP_ID_BITS) MEMDB_BITMAP_ID_BITS)"

fun memdb_convert_loop :: "memdb_level_bitmap \<Rightarrow> nat list \<Rightarrow> memdb_level_table \<Rightarrow> memdb_level_table option" where
  "memdb_convert_loop bm [] t = Some t"
| "memdb_convert_loop bm (i # is) t = do {
     cur_id \<leftarrow> memdb_bitmap_id bm i;
     memdb_convert_loop bm is (t(i := lb_objects bm cur_id))
   }"

definition memdb_convert_bitmap :: "'h alloc_fn \<Rightarrow> ptr \<Rightarrow> 'h memdb_mem \<Rightarrow> (ptr result \<times> 'h memdb_mem) option" where
  "memdb_convert_bitmap alloc bm s = do {
     (r, s) \<leftarrow> memdb_create_table alloc memdb_entry_default s;
     case r of Inl e \<Rightarrow> Some (Inl e, s)
     | Inr p \<Rightarrow> do {
         t \<leftarrow> memdb_convert_loop (level_bitmaps s bm) [0..<MEMDB_NUM_ENTRIES] (level_tables s p);
         Some (Inr p, upd_table p t s)
       }
   }"

definition memdb_duplicate_bitmap :: "'h alloc_fn \<Rightarrow> ptr \<Rightarrow> 'h memdb_mem \<Rightarrow> (ptr result \<times> 'h memdb_mem) option" where
  "memdb_duplicate_bitmap alloc bm s =
     (let b = level_bitmaps s bm in
      memdb_alloc alloc sizeof_memdb_level_bitmap (\<lambda>p. upd_bitmap p
        \<lparr>lb_bitmap = lb_bitmap b,
         lb_objects = (\<lambda>i. if lb_counts b i \<noteq> 0 then lb_objects b i else memdb_entry_default),
         lb_counts = lb_counts b\<rparr>) s)"

definition memdb_entry_index :: "u64 \<Rightarrow> nat \<Rightarrow> nat" where
  "memdb_entry_index addr entry_bits = unat (drop_bit entry_bits addr AND util_mask MEMDB_BITS_PER_LEVEL)"

text \<open>The number of address bits below an entry of the next level, in the arithmetic of 32-bit indices.\<close>

definition next_bits :: "nat \<Rightarrow> nat" where
  "next_bits entry_bits = (entry_bits + 2 ^ 32 - MEMDB_BITS_PER_LEVEL) mod 2 ^ 32"

section \<open>Updating a bitmap\<close>

fun memdb_check_ids :: "memdb_level_bitmap \<Rightarrow> nat \<Rightarrow> nat list \<Rightarrow> bool option" where
  "memdb_check_ids bm oid [] = Some True"
| "memdb_check_ids bm oid (i # is) = do {
     cur_id \<leftarrow> memdb_bitmap_id bm i;
     if cur_id \<noteq> oid then Some False else memdb_check_ids bm oid is
   }"

definition memdb_update_bitmap_check_owner :: "nat \<Rightarrow> nat \<Rightarrow> memdb_entry \<Rightarrow> memdb_level_bitmap \<Rightarrow> nat result option" where
  "memdb_update_bitmap_check_owner start_index end_index old_entry bm =
    (case find (\<lambda>id. lb_counts bm id \<noteq> 0 \<and> lb_objects bm id = old_entry) [0..<MEMDB_BITMAP_OBJECTS] of
       None \<Rightarrow> Some (Inl ERROR_MEMDB_NOT_OWNER)
     | Some old_id \<Rightarrow> do {
         all \<leftarrow> memdb_check_ids bm old_id [start_index..<end_index + 1];
         Some (if all then Inr old_id else Inl ERROR_MEMDB_NOT_OWNER)
       })"

text \<open>The search for an identifier that can be claimed.\<close>

fun memdb_claim_id :: "memdb_level_bitmap \<Rightarrow> nat list \<Rightarrow> bool \<Rightarrow> nat result" where
  "memdb_claim_id bm [] should_retry = Inl (if should_retry then ERROR_RETRY else ERROR_BUSY)"
| "memdb_claim_id bm (new_id # ids) should_retry =
    (if lb_counts bm new_id \<noteq> 0 then memdb_claim_id bm ids should_retry
     else if lb_objects bm new_id = memdb_entry_default then Inr new_id
     else memdb_claim_id bm ids True)"

fun memdb_insert_ids :: "nat \<Rightarrow> nat list \<Rightarrow> bitmap \<Rightarrow> bitmap option" where
  "memdb_insert_ids new_id [] b = Some b"
| "memdb_insert_ids new_id (i # is) b = do {
     b \<leftarrow> bitmap_atomic_insert b (i * MEMDB_BITMAP_ID_BITS) MEMDB_BITMAP_ID_BITS (of_nat new_id);
     memdb_insert_ids new_id is b
   }"

definition memdb_level_assert :: "u64 \<Rightarrow> u64 \<Rightarrow> nat \<Rightarrow> unit option" where
  "memdb_level_assert start end' entry_bits = c_assert (entry_bits \<le> MEMDB_ROOT_ENTRY_BITS \<and>
     drop_bit (entry_bits + MEMDB_BITS_PER_LEVEL) start = drop_bit (entry_bits + MEMDB_BITS_PER_LEVEL) end')"

definition memdb_update_bitmap ::
    "u64 \<Rightarrow> u64 \<Rightarrow> memdb_entry \<Rightarrow> memdb_entry \<Rightarrow> ptr \<Rightarrow> nat \<Rightarrow> 'h memdb_mem \<Rightarrow> (bool result \<times> 'h memdb_mem) option" where
  "memdb_update_bitmap start end' old_entry new_entry p entry_bits s = do {
     memdb_level_assert start end' entry_bits;
     let bm = level_bitmaps s p;
     let start_index = memdb_entry_index start entry_bits;
     let end_index = memdb_entry_index end' entry_bits;
     let changed_bits = end_index + 1 - start_index;
     old_id_r \<leftarrow> memdb_update_bitmap_check_owner start_index end_index old_entry bm;
     case old_id_r of Inl e \<Rightarrow> Some (Inl e, s)
     | Inr old_id \<Rightarrow>
         if \<not> util_is_p2aligned start entry_bits \<or> \<not> util_is_p2aligned (end' + 1) entry_bits
         then Some (Inl ERROR_ARGUMENT_ALIGNMENT, s)
         else (case (case find (\<lambda>id. lb_objects bm id = new_entry) [0..<MEMDB_BITMAP_OBJECTS] of
                       Some oid \<Rightarrow> Inr oid
                     | None \<Rightarrow> memdb_claim_id bm [0..<MEMDB_BITMAP_OBJECTS] False) of
                 Inl e \<Rightarrow> Some (Inl e, s)
               | Inr new_id \<Rightarrow> do {
                   c_assert (new_id \<noteq> old_id \<and> new_id < MEMDB_BITMAP_OBJECTS);
                   b \<leftarrow> memdb_insert_ids new_id [start_index..<end_index + 1] (lb_bitmap bm);
                   let bm = bm\<lparr>lb_bitmap := b, lb_objects := (lb_objects bm)(new_id := new_entry)\<rparr>;
                   let bm = bm\<lparr>lb_counts := (lb_counts bm)(new_id := lb_counts bm new_id + of_nat changed_bits)\<rparr>;
                   let bm = bm\<lparr>lb_counts := (lb_counts bm)(old_id := lb_counts bm old_id - of_nat changed_bits)\<rparr>;
                   Some (Inr (lb_counts bm new_id = of_nat MEMDB_NUM_ENTRIES), upd_bitmap p bm s)
                 })
   }"

section \<open>Updating a table\<close>

definition memdb_update_table_check_contig :: "nat \<Rightarrow> nat \<Rightarrow> memdb_entry \<Rightarrow> memdb_level_table \<Rightarrow> bool" where
  "memdb_update_table_check_contig start_index end_index new_entry table \<longleftrightarrow>
    list_all (\<lambda>i. table i = new_entry) [0..<start_index + 1] \<and>
    list_all (\<lambda>i. table i = new_entry) [end_index..<MEMDB_NUM_ENTRIES]"

text \<open>
  The loop over the entries from \<open>i\<close> to \<open>end_index\<close>; it stops at the first one that fails and also
  returns its index. The second loop undoes what was done before that; it must not fail.
\<close>

function memdb_update_loop ::
    "(nat \<Rightarrow> 's \<Rightarrow> (error_t \<times> 's) option) \<Rightarrow> nat \<Rightarrow> nat \<Rightarrow> 's \<Rightarrow> ((error_t \<times> nat) \<times> 's) option" where
  "memdb_update_loop f i end_index s =
    (if i \<le> end_index then Option.bind (f i s) (\<lambda>(err, s).
       if err = OK then memdb_update_loop f (i + 1) end_index s else Some ((err, i), s))
     else Some ((OK, i), s))"
  by pat_completeness auto

termination
  by (relation "measure (\<lambda>(f, i, n, s). n + 1 - i)") auto

function memdb_rollback_loop :: "(nat \<Rightarrow> 's \<Rightarrow> (error_t \<times> 's) option) \<Rightarrow> nat \<Rightarrow> nat \<Rightarrow> 's \<Rightarrow> 's option" where
  "memdb_rollback_loop f i update_index s =
    (if i < update_index then Option.bind (f i s) (\<lambda>(err, s).
       if err = OK then memdb_rollback_loop f (i + 1) update_index s else None)
     else Some s)"
  by pat_completeness auto

termination
  by (relation "measure (\<lambda>(f, i, n, s). n - i)") auto

declare memdb_update_loop.simps [simp del] memdb_rollback_loop.simps [simp del]

text \<open>The part of the range \<open>start .. end\<close> that lies in an entry of a table that begins at \<open>table_start\<close>.\<close>

definition entry_start :: "u64 \<Rightarrow> u64 \<Rightarrow> nat \<Rightarrow> nat \<Rightarrow> u64" where
  "entry_start start table_start entry_bits i = util_max start (table_start + of_nat i * util_bit entry_bits)"

definition entry_end :: "u64 \<Rightarrow> u64 \<Rightarrow> nat \<Rightarrow> nat \<Rightarrow> u64" where
  "entry_end end' table_start entry_bits i =
    util_min end' (table_start + ((of_nat i + 1) * util_bit entry_bits - 1))"

type_synonym 'h memdb_update_fn =
  "u64 \<Rightarrow> u64 \<Rightarrow> memdb_entry \<Rightarrow> memdb_entry \<Rightarrow> ptr \<Rightarrow> nat \<Rightarrow> 'h memdb_mem \<Rightarrow> (bool result \<times> 'h memdb_mem) option"

type_synonym 'h memdb_update_entry_fn =
  "u64 \<Rightarrow> u64 \<Rightarrow> memdb_entry \<Rightarrow> memdb_entry \<Rightarrow> ptr \<Rightarrow> nat \<Rightarrow> nat \<Rightarrow> 'h memdb_mem \<Rightarrow> (error_t \<times> 'h memdb_mem) option"

definition memdb_update_table_with :: "'h memdb_update_entry_fn \<Rightarrow> 'h memdb_update_fn" where
  "memdb_update_table_with update_entry start end' old_entry new_entry table entry_bits s = do {
     memdb_level_assert start end' entry_bits;
     let start_index = memdb_entry_index start entry_bits;
     let end_index = memdb_entry_index end' entry_bits;
     let table_start = start AND NOT (util_mask (entry_bits + MEMDB_BITS_PER_LEVEL));
     ((err, update_index), s) \<leftarrow> memdb_update_loop (\<lambda>i. update_entry (entry_start start table_start entry_bits i)
         (entry_end end' table_start entry_bits i) old_entry new_entry table entry_bits i) start_index end_index s;
     if err \<noteq> OK then do {
       s \<leftarrow> memdb_rollback_loop (\<lambda>i. update_entry (entry_start start table_start entry_bits i)
         (entry_end end' table_start entry_bits i) new_entry old_entry table entry_bits i) start_index update_index s;
       Some (Inl err, s)
     } else Some (Inr (memdb_update_table_check_contig start_index end_index new_entry (level_tables s table)), s)
   }"

text \<open>The value field of a result, which is zero in the case of an error.\<close>

definition result_true :: "bool result \<Rightarrow> bool" where
  "result_true r = (case r of Inl _ \<Rightarrow> False | Inr b \<Rightarrow> b)"

text \<open>The functions for one entry. Their argument \<open>update_table\<close> is the recursive call for the level below.\<close>

definition memdb_update_table_entry_level_table ::
    "'h memdb_update_fn \<Rightarrow> u64 \<Rightarrow> u64 \<Rightarrow> memdb_entry \<Rightarrow> memdb_entry \<Rightarrow> ptr \<Rightarrow> nat \<Rightarrow> memdb_entry \<Rightarrow> nat \<Rightarrow>
      'h memdb_mem \<Rightarrow> (error_t \<times> 'h memdb_mem) option" where
  "memdb_update_table_entry_level_table update_table start end' old_entry new_entry table entry_bits cur_entry entry_index s = do {
     let next_table = entry_ptr cur_entry;
     (is_contig, s) \<leftarrow> update_table start end' old_entry new_entry next_table (next_bits entry_bits) s;
     Some (result_e is_contig,
       if result_true is_contig then memdb_release_level_table next_table (upd_entry table entry_index new_entry s) else s)
   }"

definition memdb_update_table_entry_level_bitmap ::
    "'h memdb_update_fn \<Rightarrow> 'h alloc_fn \<Rightarrow> u64 \<Rightarrow> u64 \<Rightarrow> memdb_entry \<Rightarrow> memdb_entry \<Rightarrow> ptr \<Rightarrow> nat \<Rightarrow> memdb_entry \<Rightarrow> nat \<Rightarrow>
      'h memdb_mem \<Rightarrow> (error_t \<times> 'h memdb_mem) option" where
  "memdb_update_table_entry_level_bitmap update_table alloc start end' old_entry new_entry table entry_bits cur_entry entry_index s = do {
     let next_bitmap = entry_ptr cur_entry;
     (is_contig, s) \<leftarrow> memdb_update_bitmap start end' old_entry new_entry next_bitmap (next_bits entry_bits) s;
     let err = result_e is_contig;
     ((err, is_contig), s) \<leftarrow>
       (if err = ERROR_BUSY \<or> err = ERROR_ARGUMENT_ALIGNMENT then do {
          (table_ret, s) \<leftarrow> memdb_convert_bitmap alloc next_bitmap s;
          case table_ret of Inl e \<Rightarrow> Some ((e, is_contig), s)
          | Inr t \<Rightarrow> do {
              (is_contig, s) \<leftarrow> update_table start end' old_entry new_entry t (next_bits entry_bits) s;
              Some ((OK, is_contig),
                if \<not> result_true is_contig
                then memdb_release_level_bitmap next_bitmap (upd_entry table entry_index (memdb_entry_set t MEMDB_TYPE_LEVEL_TABLE) s)
                else memdb_release_level_table t s)
            }
        } else if err = ERROR_RETRY then do {
          (bitmap_ret, s) \<leftarrow> memdb_duplicate_bitmap alloc next_bitmap s;
          case bitmap_ret of Inl e \<Rightarrow> Some ((e, is_contig), s)
          | Inr b \<Rightarrow> do {
              (is_contig, s) \<leftarrow> memdb_update_bitmap start end' old_entry new_entry b (next_bits entry_bits) s;
              Some ((OK, is_contig),
                if \<not> result_true is_contig
                then memdb_release_level_bitmap next_bitmap (upd_entry table entry_index (memdb_entry_set b MEMDB_TYPE_LEVEL_BITMAP) s)
                else memdb_release_level_bitmap b s)
            }
        } else Some ((err, is_contig), s));
     Some (err,
       if err = OK \<and> result_true is_contig
       then memdb_release_level_bitmap next_bitmap (upd_entry table entry_index new_entry s) else s)
   }"

definition memdb_update_table_entry_split_bitmap ::
    "'h alloc_fn \<Rightarrow> u64 \<Rightarrow> u64 \<Rightarrow> memdb_entry \<Rightarrow> memdb_entry \<Rightarrow> ptr \<Rightarrow> nat \<Rightarrow> nat \<Rightarrow>
      'h memdb_mem \<Rightarrow> (error_t \<times> 'h memdb_mem) option" where
  "memdb_update_table_entry_split_bitmap alloc start end' old_entry new_entry table entry_bits entry_index s = do {
     (bitmap_ret, s) \<leftarrow> memdb_create_bitmap alloc old_entry s;
     case bitmap_ret of Inl e \<Rightarrow> Some (e, s)
     | Inr b \<Rightarrow> do {
         (is_contig, s) \<leftarrow> memdb_update_bitmap start end' old_entry new_entry b (next_bits entry_bits) s;
         if result_e is_contig = OK then do {
           c_assert (\<not> result_true is_contig);
           Some (OK, upd_entry table entry_index (memdb_entry_set b MEMDB_TYPE_LEVEL_BITMAP) s)
         } else Some (result_e is_contig, memdb_release_level_bitmap b s)
       }
   }"

definition memdb_update_table_entry_split_table ::
    "'h memdb_update_fn \<Rightarrow> 'h alloc_fn \<Rightarrow> u64 \<Rightarrow> u64 \<Rightarrow> memdb_entry \<Rightarrow> memdb_entry \<Rightarrow> ptr \<Rightarrow> nat \<Rightarrow> nat \<Rightarrow>
      'h memdb_mem \<Rightarrow> (error_t \<times> 'h memdb_mem) option" where
  "memdb_update_table_entry_split_table update_table alloc start end' old_entry new_entry table entry_bits entry_index s = do {
     (table_ret, s) \<leftarrow> memdb_create_table alloc old_entry s;
     case table_ret of Inl e \<Rightarrow> Some (e, s)
     | Inr t \<Rightarrow> do {
         (is_contig, s) \<leftarrow> update_table start end' old_entry new_entry t (next_bits entry_bits) s;
         if result_e is_contig = OK then do {
           c_assert (\<not> result_true is_contig);
           Some (OK, upd_entry table entry_index (memdb_entry_set t MEMDB_TYPE_LEVEL_TABLE) s)
         } else Some (result_e is_contig, memdb_release_level_table t s)
       }
   }"

definition memdb_update_table_entry :: "'h memdb_update_fn \<Rightarrow> 'h alloc_fn \<Rightarrow> 'h memdb_update_entry_fn" where
  "memdb_update_table_entry update_table alloc start end' old_entry new_entry table entry_bits entry_index s = do {
     c_assert (entry_bits \<le> MEMDB_ROOT_ENTRY_BITS \<and> drop_bit entry_bits start = drop_bit entry_bits end');
     let cur_entry = level_tables s table entry_index;
     let cur_type = entry_type cur_entry;
     if cur_type = MEMDB_TYPE_LEVEL_TABLE then
       memdb_update_table_entry_level_table update_table start end' old_entry new_entry table entry_bits cur_entry entry_index s
     else if cur_type = MEMDB_TYPE_LEVEL_BITMAP then
       memdb_update_table_entry_level_bitmap update_table alloc start end' old_entry new_entry table entry_bits cur_entry entry_index s
     else if cur_entry \<noteq> old_entry then Some (ERROR_MEMDB_NOT_OWNER, s)
     else if util_is_p2aligned start entry_bits \<and> util_is_p2aligned (end' + 1) entry_bits then
       Some (OK, upd_entry table entry_index new_entry s)
     else if entry_bits \<le> MEMDB_MIN_BITS then Some (ERROR_ARGUMENT_ALIGNMENT, s)
     else if entry_bits = MEMDB_PAGE_BITS + MEMDB_BITS_PER_LEVEL \<and> util_is_p2aligned start MEMDB_PAGE_BITS \<and>
         util_is_p2aligned (end' + 1) MEMDB_PAGE_BITS then
       memdb_update_table_entry_split_bitmap alloc start end' old_entry new_entry table entry_bits entry_index s
     else memdb_update_table_entry_split_table update_table alloc start end' old_entry new_entry table entry_bits entry_index s
   }"

fun memdb_update_table :: "nat \<Rightarrow> 'h alloc_fn \<Rightarrow> 'h memdb_update_fn" where
  "memdb_update_table 0 alloc = (\<lambda>_ _ _ _ _ _ _. None)"
| "memdb_update_table (Suc depth) alloc =
     memdb_update_table_with (memdb_update_table_entry (memdb_update_table depth alloc) alloc)"

text \<open>The number of levels of the tree.\<close>

definition MEMDB_DEPTH :: nat where
  "MEMDB_DEPTH = (MEMDB_START_BITS - MEMDB_MIN_BITS) div MEMDB_BITS_PER_LEVEL"

definition memdb_update ::
    "'h alloc_fn \<Rightarrow> u64 \<Rightarrow> u64 \<Rightarrow> ptr \<Rightarrow> memdb_type \<Rightarrow> ptr \<Rightarrow> memdb_type \<Rightarrow> 'h memdb_mem \<Rightarrow> (error_t \<times> 'h memdb_mem) option" where
  "memdb_update alloc start_addr end_addr object obj_type prev_object prev_type s = do {
     let err = memdb_range_check start_addr end_addr;
     if err \<noteq> OK then Some (err, s)
     else do {
       new_entry \<leftarrow> memdb_entry_for_object object obj_type;
       old_entry \<leftarrow> memdb_entry_for_object prev_object prev_type;
       (r, s) \<leftarrow> memdb_update_table MEMDB_DEPTH alloc start_addr end_addr old_entry new_entry (memdb_root s) MEMDB_ROOT_ENTRY_BITS s;
       Some (result_e r, s)
     }
   }"

definition memdb_insert ::
    "'h alloc_fn \<Rightarrow> u64 \<Rightarrow> u64 \<Rightarrow> ptr \<Rightarrow> memdb_type \<Rightarrow> 'h memdb_mem \<Rightarrow> (error_t \<times> 'h memdb_mem) option" where
  "memdb_insert alloc start_addr end_addr object obj_type s =
     memdb_update alloc start_addr end_addr object obj_type 0 MEMDB_TYPE_NOTYPE s"

section \<open>Queries\<close>

type_synonym memdb_obj_type = "ptr \<times> memdb_type"

definition memdb_lookup_bitmap :: "u64 \<Rightarrow> memdb_level_bitmap \<Rightarrow> nat \<Rightarrow> memdb_obj_type result option" where
  "memdb_lookup_bitmap addr bm entry_bits = do {
     c_assert (entry_bits \<le> MEMDB_ROOT_ENTRY_BITS);
     object_id \<leftarrow> memdb_bitmap_id bm (memdb_entry_index addr entry_bits);
     let entry = lb_objects bm object_id;
     c_assert (entry_type entry \<noteq> MEMDB_TYPE_LEVEL_TABLE \<and> entry_type entry \<noteq> MEMDB_TYPE_LEVEL_BITMAP);
     Some (if entry_type entry = MEMDB_TYPE_NOTYPE then Inl ERROR_MEMDB_EMPTY else Inr (entry_ptr entry, entry_type entry))
   }"

fun memdb_lookup_table :: "nat \<Rightarrow> u64 \<Rightarrow> ptr \<Rightarrow> nat \<Rightarrow> 'h memdb_mem \<Rightarrow> memdb_obj_type result option" where
  "memdb_lookup_table 0 addr table entry_bits s = None"
| "memdb_lookup_table (Suc depth) addr table entry_bits s = do {
     c_assert (entry_bits \<le> MEMDB_ROOT_ENTRY_BITS);
     let entry = level_tables s table (memdb_entry_index addr entry_bits);
     if entry_type entry = MEMDB_TYPE_NOTYPE then Some (Inl ERROR_MEMDB_EMPTY)
     else if entry_type entry = MEMDB_TYPE_LEVEL_TABLE then
       memdb_lookup_table depth addr (entry_ptr entry) (next_bits entry_bits) s
     else if entry_type entry = MEMDB_TYPE_LEVEL_BITMAP then
       memdb_lookup_bitmap addr (level_bitmaps s (entry_ptr entry)) (next_bits entry_bits)
     else Some (Inr (entry_ptr entry, entry_type entry))
   }"

definition memdb_lookup :: "u64 \<Rightarrow> 'h memdb_mem \<Rightarrow> memdb_obj_type result option" where
  "memdb_lookup addr s =
    (if addr \<ge> util_bit MEMDB_MAX_BITS then Some (Inl ERROR_ARGUMENT_INVALID)
     else memdb_lookup_table MEMDB_DEPTH addr (memdb_root s) MEMDB_ROOT_ENTRY_BITS s)"

definition memdb_is_contig_bitmap :: "u64 \<Rightarrow> u64 \<Rightarrow> memdb_entry \<Rightarrow> memdb_level_bitmap \<Rightarrow> nat \<Rightarrow> bool option" where
  "memdb_is_contig_bitmap start end' entry bm entry_bits = do {
     memdb_level_assert start end' entry_bits;
     case find (\<lambda>id. lb_objects bm id = entry) [0..<MEMDB_BITMAP_OBJECTS] of
       None \<Rightarrow> Some False
     | Some object_id \<Rightarrow>
         memdb_check_ids bm object_id [memdb_entry_index start entry_bits..<memdb_entry_index end' entry_bits + 1]
   }"

text \<open>The loop over the entries of a table, the rest of the range beginning at \<open>entry_start\<close>.\<close>

fun memdb_is_contig_loop ::
    "(u64 \<Rightarrow> u64 \<Rightarrow> memdb_entry \<Rightarrow> bool option) \<Rightarrow> u64 \<Rightarrow> nat \<Rightarrow> memdb_level_table \<Rightarrow> u64 \<Rightarrow> nat list \<Rightarrow> bool option" where
  "memdb_is_contig_loop f end' entry_bits t es [] = Some True"
| "memdb_is_contig_loop f end' entry_bits t es (i # is) = do {
     let ee = util_min end' (es OR util_mask entry_bits);
     is_contig \<leftarrow> f es ee (t i);
     if \<not> is_contig then Some False else memdb_is_contig_loop f end' entry_bits t (ee + 1) is
   }"

definition memdb_is_contig_entry ::
    "(u64 \<Rightarrow> u64 \<Rightarrow> memdb_entry \<Rightarrow> ptr \<Rightarrow> nat \<Rightarrow> 'h memdb_mem \<Rightarrow> bool option) \<Rightarrow>
      u64 \<Rightarrow> u64 \<Rightarrow> memdb_entry \<Rightarrow> memdb_entry \<Rightarrow> nat \<Rightarrow> 'h memdb_mem \<Rightarrow> bool option" where
  "memdb_is_contig_entry is_contig_table start end' entry cur_entry entry_bits s = do {
     c_assert (entry_bits \<le> MEMDB_ROOT_ENTRY_BITS \<and> drop_bit entry_bits start = drop_bit entry_bits end');
     if entry_type cur_entry = MEMDB_TYPE_LEVEL_TABLE then
       is_contig_table start end' entry (entry_ptr cur_entry) (next_bits entry_bits) s
     else if entry_type cur_entry = MEMDB_TYPE_LEVEL_BITMAP then
       memdb_is_contig_bitmap start end' entry (level_bitmaps s (entry_ptr cur_entry)) (next_bits entry_bits)
     else Some (entry = cur_entry)
   }"

fun memdb_is_contig_table :: "nat \<Rightarrow> u64 \<Rightarrow> u64 \<Rightarrow> memdb_entry \<Rightarrow> ptr \<Rightarrow> nat \<Rightarrow> 'h memdb_mem \<Rightarrow> bool option" where
  "memdb_is_contig_table 0 start end' entry table entry_bits s = None"
| "memdb_is_contig_table (Suc depth) start end' entry table entry_bits s = do {
     memdb_level_assert start end' entry_bits;
     memdb_is_contig_loop (\<lambda>es ee cur. memdb_is_contig_entry (memdb_is_contig_table depth) es ee entry cur entry_bits s)
       end' entry_bits (level_tables s table) start [memdb_entry_index start entry_bits..<memdb_entry_index end' entry_bits + 1]
   }"

definition memdb_is_ownership_contiguous :: "u64 \<Rightarrow> u64 \<Rightarrow> ptr \<Rightarrow> memdb_type \<Rightarrow> 'h memdb_mem \<Rightarrow> bool option" where
  "memdb_is_ownership_contiguous start_addr end_addr object obj_type s = do {
     entry \<leftarrow> memdb_entry_for_object object obj_type;
     memdb_is_contig_table MEMDB_DEPTH start_addr end_addr entry (memdb_root s) MEMDB_ROOT_ENTRY_BITS s
   }"

text \<open>
  The walk over the ranges that belong to an object. The function that is called for each range is the
  argument \<open>fn\<close>; its own argument is passed along as a state. The size of the range that is not yet
  complete is the value of a result, which is zero after an error.
\<close>

type_synonym 'a memdb_fnptr = "u64 \<Rightarrow> u64 \<Rightarrow> 'a \<Rightarrow> error_t \<times> 'a"

definition memdb_walk_flush :: "'a memdb_fnptr \<Rightarrow> u64 \<Rightarrow> u64 \<Rightarrow> 'a \<Rightarrow> (error_t \<times> u64) \<times> 'a" where
  "memdb_walk_flush fn end_of_pending pending_size arg =
    (if pending_size \<noteq> 0 then let (err, arg) = fn (end_of_pending - pending_size) pending_size arg in ((err, 0), arg)
     else ((OK, 0), arg))"

fun memdb_walk_bitmap_loop ::
    "'a memdb_fnptr \<Rightarrow> nat \<Rightarrow> u64 \<Rightarrow> nat \<Rightarrow> memdb_level_bitmap \<Rightarrow> u64 \<Rightarrow> nat list \<Rightarrow> u64 \<Rightarrow> 'a \<Rightarrow> ((error_t \<times> u64) \<times> 'a) option" where
  "memdb_walk_bitmap_loop fn object_id end' entry_bits bm es [] r arg = Some ((OK, r), arg)"
| "memdb_walk_bitmap_loop fn object_id end' entry_bits bm es (i # is) r arg = do {
     cur_object_id \<leftarrow> memdb_bitmap_id bm i;
     let ee = util_min end' (es OR util_mask entry_bits);
     if cur_object_id = object_id then
       memdb_walk_bitmap_loop fn object_id end' entry_bits bm (ee + 1) is (r + ((ee - es) + 1)) arg
     else let ((err, r), arg) = memdb_walk_flush fn es r arg
          in if err \<noteq> OK then Some ((err, r), arg)
             else memdb_walk_bitmap_loop fn object_id end' entry_bits bm (ee + 1) is r arg
   }"

definition memdb_walk_bitmap ::
    "memdb_entry \<Rightarrow> u64 \<Rightarrow> u64 \<Rightarrow> memdb_level_bitmap \<Rightarrow> nat \<Rightarrow> 'a memdb_fnptr \<Rightarrow> u64 \<Rightarrow> 'a \<Rightarrow> ((error_t \<times> u64) \<times> 'a) option" where
  "memdb_walk_bitmap entry start end' bm entry_bits fn pending_size arg = do {
     memdb_level_assert start end' entry_bits;
     case find (\<lambda>id. lb_objects bm id = entry) [0..<MEMDB_BITMAP_OBJECTS] of
       None \<Rightarrow> Some (memdb_walk_flush fn start pending_size arg)
     | Some object_id \<Rightarrow> memdb_walk_bitmap_loop fn object_id end' entry_bits bm start
         [memdb_entry_index start entry_bits..<memdb_entry_index end' entry_bits + 1] pending_size arg
   }"

type_synonym ('h, 'a) memdb_walk_fn =
  "memdb_entry \<Rightarrow> u64 \<Rightarrow> u64 \<Rightarrow> ptr \<Rightarrow> nat \<Rightarrow> 'a memdb_fnptr \<Rightarrow> u64 \<Rightarrow> 'a \<Rightarrow> 'h memdb_mem \<Rightarrow> ((error_t \<times> u64) \<times> 'a) option"

definition memdb_walk_entry ::
    "('h, 'a) memdb_walk_fn \<Rightarrow> memdb_entry \<Rightarrow> u64 \<Rightarrow> u64 \<Rightarrow> memdb_entry \<Rightarrow> nat \<Rightarrow> 'a memdb_fnptr \<Rightarrow> u64 \<Rightarrow> 'a \<Rightarrow> 'h memdb_mem \<Rightarrow>
      ((error_t \<times> u64) \<times> 'a) option" where
  "memdb_walk_entry walk_table entry start end' cur_entry entry_bits fn pending_size arg s = do {
     c_assert (entry_bits \<le> MEMDB_ROOT_ENTRY_BITS \<and> drop_bit entry_bits start = drop_bit entry_bits end');
     if entry_type cur_entry = MEMDB_TYPE_LEVEL_TABLE then
       walk_table entry start end' (entry_ptr cur_entry) (next_bits entry_bits) fn pending_size arg s
     else if entry_type cur_entry = MEMDB_TYPE_LEVEL_BITMAP then
       memdb_walk_bitmap entry start end' (level_bitmaps s (entry_ptr cur_entry)) (next_bits entry_bits) fn pending_size arg
     else if entry = cur_entry then Some ((OK, pending_size + (end' - start) + 1), arg)
     else Some (memdb_walk_flush fn start pending_size arg)
   }"

fun memdb_walk_table_loop ::
    "(u64 \<Rightarrow> u64 \<Rightarrow> memdb_entry \<Rightarrow> u64 \<Rightarrow> 'a \<Rightarrow> ((error_t \<times> u64) \<times> 'a) option) \<Rightarrow> u64 \<Rightarrow> nat \<Rightarrow> memdb_level_table \<Rightarrow>
      u64 \<Rightarrow> nat list \<Rightarrow> u64 \<Rightarrow> 'a \<Rightarrow> ((error_t \<times> u64) \<times> 'a) option" where
  "memdb_walk_table_loop f end' entry_bits t es [] r arg = Some ((OK, r), arg)"
| "memdb_walk_table_loop f end' entry_bits t es (i # is) r arg = do {
     let ee = util_min end' (es OR util_mask entry_bits);
     ((err, r), arg) \<leftarrow> f es ee (t i) r arg;
     if err \<noteq> OK then Some ((err, r), arg) else memdb_walk_table_loop f end' entry_bits t (ee + 1) is r arg
   }"

fun memdb_walk_table :: "nat \<Rightarrow> ('h, 'a) memdb_walk_fn" where
  "memdb_walk_table 0 entry start end' table entry_bits fn pending_size arg s = None"
| "memdb_walk_table (Suc depth) entry start end' table entry_bits fn pending_size arg s = do {
     memdb_level_assert start end' entry_bits;
     memdb_walk_table_loop (\<lambda>es ee cur r arg. memdb_walk_entry (memdb_walk_table depth) entry es ee cur entry_bits fn r arg s)
       end' entry_bits (level_tables s table) start
       [memdb_entry_index start entry_bits..<memdb_entry_index end' entry_bits + 1] pending_size arg
   }"

definition memdb_range_walk ::
    "ptr \<Rightarrow> memdb_type \<Rightarrow> u64 \<Rightarrow> u64 \<Rightarrow> 'a memdb_fnptr \<Rightarrow> 'a \<Rightarrow> 'h memdb_mem \<Rightarrow> (error_t \<times> 'a) option" where
  "memdb_range_walk object obj_type start_addr end_addr fn arg s =
    (if obj_type = MEMDB_TYPE_NOTYPE then Some (ERROR_ARGUMENT_INVALID, arg)
     else do {
       entry \<leftarrow> memdb_entry_for_object object obj_type;
       let end' = util_min end_addr (util_mask MEMDB_MAX_BITS);
       if start_addr > end' then Some (OK, arg)
       else do {
         ((e, r), arg) \<leftarrow> memdb_walk_table MEMDB_DEPTH entry start_addr end' (memdb_root s) MEMDB_ROOT_ENTRY_BITS fn 0 arg s;
         Some (if e = OK \<and> r \<noteq> 0 then fn (end' - r + 1) r arg else (e, arg))
       }
     })"

definition memdb_walk :: "ptr \<Rightarrow> memdb_type \<Rightarrow> 'a memdb_fnptr \<Rightarrow> 'a \<Rightarrow> 'h memdb_mem \<Rightarrow> (error_t \<times> 'a) option" where
  "memdb_walk object type fn arg s = memdb_range_walk object type 0 (util_mask MEMDB_MAX_BITS) fn arg s"

section \<open>Event handlers\<close>

text \<open>
  At boot the image belongs to the private partition, and its boot memory to the allocator of this
  partition. The addresses of the image and of the two objects, and the translation of the address of
  the boot memory, are arguments.
\<close>

definition memdb_bitmap_handle_boot_cold_init ::
    "'h alloc_fn \<Rightarrow> ptr \<Rightarrow> ptr \<Rightarrow> u64 \<Rightarrow> u64 \<Rightarrow> (ptr \<Rightarrow> u64) \<Rightarrow> bootmem_allocator_t \<Rightarrow> 'h memdb_mem \<Rightarrow> 'h memdb_mem option" where
  "memdb_bitmap_handle_boot_cold_init alloc hyp_partition allocator image_phys_start image_phys_last virt_to_phys boot s = do {
     c_assert (hyp_partition \<noteq> NULL);
     (err, s) \<leftarrow> memdb_insert alloc image_phys_start image_phys_last hyp_partition MEMDB_TYPE_PARTITION s;
     c_assert (err = OK);
     let (bootmem_virt_base, bootmem_size) = bootmem_get_region boot;
     c_assert (bootmem_size \<noteq> 0 \<and> bootmem_virt_base \<noteq> NULL);
     let bootmem_phys_base = virt_to_phys bootmem_virt_base;
     c_assert (\<not> util_add_overflows bootmem_phys_base (bootmem_size - 1));
     (err, s) \<leftarrow> memdb_update alloc bootmem_phys_base (bootmem_phys_base + (bootmem_size - 1))
       allocator MEMDB_TYPE_ALLOCATOR hyp_partition MEMDB_TYPE_PARTITION s;
     c_assert (err = OK);
     Some s
   }"

definition memdb_bitmap_handle_partition_add_ram_range ::
    "'h alloc_fn \<Rightarrow> ptr \<Rightarrow> u64 \<Rightarrow> u64 \<Rightarrow> 'h memdb_mem \<Rightarrow> (error_t \<times> 'h memdb_mem) option" where
  "memdb_bitmap_handle_partition_add_ram_range alloc owner phys_base sz s = do {
     c_assert (sz > 0);
     c_assert (\<not> util_add_overflows phys_base (sz - 1));
     memdb_insert alloc phys_base (phys_base + (sz - 1)) owner MEMDB_TYPE_PARTITION s
   }"

definition memdb_bitmap_handle_partition_remove_ram_range ::
    "'h alloc_fn \<Rightarrow> ptr \<Rightarrow> u64 \<Rightarrow> u64 \<Rightarrow> 'h memdb_mem \<Rightarrow> (error_t \<times> 'h memdb_mem) option" where
  "memdb_bitmap_handle_partition_remove_ram_range alloc owner phys_base sz s = do {
     c_assert (sz > 0);
     c_assert (\<not> util_add_overflows phys_base (sz - 1));
     memdb_update alloc phys_base (phys_base + (sz - 1)) 0 MEMDB_TYPE_NOTYPE owner MEMDB_TYPE_PARTITION s
   }"

definition memdb_bitmap_handle_partition_get_private_heap_requirement :: "u64 \<Rightarrow> u64 \<Rightarrow> u64" where
  "memdb_bitmap_handle_partition_get_private_heap_requirement ddr_size heap_size =
     heap_size + ddr_size * sizeof_memdb_level_bitmap div (1024 * 1024)"

end
