(* ===== verification/Memdb_Bitmap.thy ===== *)
theory Memdb_Bitmap
  imports Memdb
begin

text \<open>
  The bitmap levels of the memory database: the invariant of a bitmap, the owner that it records for
  each of its 256 pages, and what an update, a duplication and a conversion do to these owners.
\<close>

section \<open>Addresses\<close>

lemma memdb_numbers [simp]:
  "MEMDB_BITS_PER_LEVEL = 8" "MEMDB_NUM_ENTRIES = 256" "MEMDB_MAX_BITS = 36" "MEMDB_PAGE_BITS = 12"
  "MEMDB_ROOT_ENTRY_BITS = 28" "MEMDB_MIN_BITS = 4" "MEMDB_OBJECT_ALIGN_P2 = 3"
  "MEMDB_BITMAP_ID_BITS = 4" "MEMDB_BITMAP_SIZE = 1024" "MEMDB_BITMAP_OBJECTS = 16" "MEMDB_DEPTH = 4"
  by (simp_all add: memdb_constants MEMDB_DEPTH_def)

lemma unat_drop_bit: "unat (drop_bit n (a::u64)) = unat a div 2 ^ n"
  using unat_lt [of a] by (simp add: unsigned_drop_bit_eq take_bit_drop_bit take_bit_nat_eq_self drop_bit_eq_div flip: drop_bit_eq_div)

lemma entry_index_nat: "memdb_entry_index a eb = unat a div 2 ^ eb mod 256"
proof -
  have m: "util_mask MEMDB_BITS_PER_LEVEL = mask 8" by (simp add: util_mask_def util_bit_def mask_eq_exp_minus_1)
  have "unat (drop_bit eb a AND mask 8) = unat (drop_bit eb a) mod 2 ^ 8"
    by (simp only: take_bit_eq_mask [symmetric] unat_take_bit)
  then show ?thesis unfolding memdb_entry_index_def m by (simp add: unat_drop_bit)
qed

lemma entry_index_lt [simp]: "memdb_entry_index a eb < 256"
  by (simp add: entry_index_nat)

lemma drop_bit_eq_nat: "drop_bit n a = drop_bit n b \<longleftrightarrow> unat a div 2 ^ n = unat (b::u64) div 2 ^ n"
  by (metis unat_drop_bit word_unat_eq_iff)

lemma p2aligned_nat: "n < 64 \<Longrightarrow> util_is_p2aligned a n \<longleftrightarrow> 2 ^ n dvd unat a"
proof -
  assume "n < 64"
  have "util_is_p2aligned a n \<longleftrightarrow> a AND mask n = 0" by (simp add: util_is_p2aligned_def util_bit_def mask_eq_exp_minus_1)
  then show ?thesis by (simp add: and_mask_dvd_nat)
qed

section \<open>Identifiers\<close>

definition lb_id :: "bitmap \<Rightarrow> nat \<Rightarrow> nat" where
  "lb_id b i = (case bitmap_atomic_extract b (i * 4) 4 of Some v \<Rightarrow> unat v | None \<Rightarrow> 0)"

lemma field_4: "i < 256 \<Longrightarrow> field_ok (i * 4) 4" "i < 256 \<Longrightarrow> field_last (i * 4) 4 = i * 4 + 3"
proof -
  assume "i < 256"
  then show l: "field_last (i * 4) 4 = i * 4 + 3" by (simp add: field_last_def mod_if)
  have "i * 4 div 64 = (i * 4 + 3) div 64" by presburger
  then show "field_ok (i * 4) 4" using l by (simp add: field_ok_def BITMAP_WORD_def)
qed

lemma extract_4:
  assumes "length b = 16" "i < 256"
  shows "bitmap_atomic_extract b (i * 4) 4 = Some (of_nat (lb_id b i))" "lb_id b i < 16"
    "\<And>j. bit (lb_id b i) j \<longleftrightarrow> j < 4 \<and> bm_bit b (i * 4 + j)"
proof -
  have eq: "bitmap_atomic_extract b (i * 4) 4 = bitmap_extract b (i * 4) 4"
    by (simp add: bitmap_atomic_extract_def bitmap_extract_def)
  obtain v where v: "bitmap_extract b (i * 4) 4 = Some v" "\<And>j. bit v j \<longleftrightarrow> j < 4 \<and> bm_bit b (i * 4 + j)"
    using bitmap_extract_bits [of "i * 4" 4 b] field_4(1) [OF assms(2)] assms by auto
  have id: "lb_id b i = unat v" using v(1) eq by (simp add: lb_id_def)
  then show "bitmap_atomic_extract b (i * 4) 4 = Some (of_nat (lb_id b i))" using v(1) eq by simp
  show bits: "bit (lb_id b i) j \<longleftrightarrow> j < 4 \<and> bm_bit b (i * 4 + j)" for j
    using v(2) [of j] id by (simp add: bit_unsigned_iff)
  have "take_bit 4 v = v" using v(2) by (auto simp: bit_eq_iff bit_simps)
  then have "unat v = unat v mod 16" using unat_take_bit [of 4 v] by simp
  moreover have "unat v mod 16 < 16" by simp
  ultimately show "lb_id b i < 16" using id by linarith
qed

lemma bitmap_id_4: "length (lb_bitmap b) = 16 \<Longrightarrow> i < 256 \<Longrightarrow> memdb_bitmap_id b i = Some (lb_id (lb_bitmap b) i)"
  using extract_4 [of "lb_bitmap b" i] by (simp add: memdb_bitmap_id_def unat_of_nat take_bit_nat_eq_self)

lemma insert_4:
  assumes "length b = 16" "i < 256" "v < 16"
  shows "\<exists>b'. bitmap_atomic_insert b (i * 4) 4 (of_nat v) = Some b' \<and> length b' = 16 \<and>
    (\<forall>j < 256. lb_id b' j = (if j = i then v else lb_id b j))"
proof -
  have eq: "bitmap_atomic_insert b (i * 4) 4 (of_nat v) = bitmap_insert b (i * 4) 4 (of_nat v)"
    using field_4 [OF assms(2)] assms(1,2)
    by (simp add: bitmap_atomic_insert_def bitmap_insert_def Let_def BITMAP_SIZE_ASSERT_def BITMAP_WORD_def)
  obtain b' where b': "bitmap_insert b (i * 4) 4 (of_nat v) = Some b'" "length b' = 16"
      "\<And>j. bm_bit b' j \<longleftrightarrow> (if i * 4 \<le> j \<and> j < i * 4 + 4 then bit (of_nat v :: u64) (j - i * 4) else bm_bit b j)"
    using bitmap_insert_bits [of "i * 4" 4 b "of_nat v"] field_4(1) [OF assms(2)] assms by auto
  have "lb_id b' j = (if j = i then v else lb_id b j)" if j: "j < 256" for j
  proof (rule bit_eqI)
    fix n
    have "take_bit 4 v = v" using assms(3) by (simp add: take_bit_nat_eq_self)
    then have v: "bit v n \<Longrightarrow> n < 4" using bit_take_bit_iff [of 4 v n] by simp
    show "bit (lb_id b' j) n \<longleftrightarrow> bit (if j = i then v else lb_id b j) n"
      using extract_4(3) [OF b'(2) j, of n] extract_4(3) [OF assms(1) j, of n] b'(3) [of "j * 4 + n"] v
      by (cases "j = i") (auto simp: bit_simps)
  qed
  then show ?thesis using b' eq by auto
qed

lemma insert_ids:
  assumes "length b = 16" "v < 16" "\<forall>i \<in> set is. i < 256"
  shows "\<exists>b'. memdb_insert_ids v is b = Some b' \<and> length b' = 16 \<and> (\<forall>j < 256. lb_id b' j = (if j \<in> set is then v else lb_id b j))"
  using assms
proof (induction "is" arbitrary: b)
  case (Cons i "is")
  obtain b1 where b1: "bitmap_atomic_insert b (i * 4) 4 (of_nat v) = Some b1" "length b1 = 16"
      "\<forall>j < 256. lb_id b1 j = (if j = i then v else lb_id b j)"
    using insert_4 [OF Cons.prems(1) _ Cons.prems(2), of i] Cons.prems(3) by auto
  show ?case using Cons.IH [OF b1(2) Cons.prems(2)] Cons.prems(3) b1 by auto
qed simp

lemma check_ids:
  assumes "length (lb_bitmap b) = 16" "\<forall>i \<in> set is. i < 256"
  shows "memdb_check_ids b v is = Some (\<forall>i \<in> set is. lb_id (lb_bitmap b) i = v)"
  using assms by (induction "is") (auto simp: bitmap_id_4)

section \<open>The invariant\<close>

definition is_level :: "memdb_entry \<Rightarrow> bool" where
  "is_level e \<longleftrightarrow> entry_type e = MEMDB_TYPE_LEVEL_TABLE \<or> entry_type e = MEMDB_TYPE_LEVEL_BITMAP"

definition with_id :: "memdb_level_bitmap \<Rightarrow> nat \<Rightarrow> nat set" where
  "with_id b k = {i. i < 256 \<and> lb_id (lb_bitmap b) i = k}"

text \<open>Counts are exact, no two identifiers name the same object, and identifiers name no levels.\<close>

definition lb_ok :: "memdb_level_bitmap \<Rightarrow> bool" where
  "lb_ok b \<longleftrightarrow> length (lb_bitmap b) = 16 \<and> (\<forall>k < 16. unat (lb_counts b k) = card (with_id b k)) \<and>
    (\<forall>j < 16. \<forall>k < 16. lb_objects b j = lb_objects b k \<longrightarrow> lb_objects b j \<noteq> memdb_entry_default \<longrightarrow> j = k) \<and>
    (\<forall>k < 16. \<not> is_level (lb_objects b k))"

definition lb_owner :: "memdb_level_bitmap \<Rightarrow> nat \<Rightarrow> memdb_entry" where
  "lb_owner b i = lb_objects b (lb_id (lb_bitmap b) i)"

lemma lb_okD:
  assumes "lb_ok b"
  shows "length (lb_bitmap b) = 16" "\<And>k. k < 16 \<Longrightarrow> unat (lb_counts b k) = card (with_id b k)"
    "\<And>j k. j < 16 \<Longrightarrow> k < 16 \<Longrightarrow> lb_objects b j = lb_objects b k \<Longrightarrow> lb_objects b j \<noteq> memdb_entry_default \<Longrightarrow> j = k"
    "\<And>k. k < 16 \<Longrightarrow> \<not> is_level (lb_objects b k)"
    "\<And>i. i < 256 \<Longrightarrow> lb_id (lb_bitmap b) i < 16"
  using assms extract_4(2) unfolding lb_ok_def by blast+

lemma lb_okI:
  assumes "length (lb_bitmap b) = 16" "\<And>k. k < 16 \<Longrightarrow> unat (lb_counts b k) = card (with_id b k)"
    "\<And>j k. j < 16 \<Longrightarrow> k < 16 \<Longrightarrow> lb_objects b j = lb_objects b k \<Longrightarrow> lb_objects b j \<noteq> memdb_entry_default \<Longrightarrow> j = k"
    "\<And>k. k < 16 \<Longrightarrow> \<not> is_level (lb_objects b k)"
  shows "lb_ok b"
  using assms unfolding lb_ok_def by blast

lemma finite_with_id [simp]: "finite (with_id b k)"
  by (simp add: with_id_def)

lemma counts_0: "lb_ok b \<Longrightarrow> k < 16 \<Longrightarrow> lb_counts b k = 0 \<longleftrightarrow> with_id b k = {}"
  using lb_okD(2) [of b k] by (metis card_0_eq finite_with_id unat_eq_0)

lemma owner_not_level: "lb_ok b \<Longrightarrow> i < 256 \<Longrightarrow> \<not> is_level (lb_owner b i)"
  unfolding lb_owner_def by (intro lb_okD(4,5))

lemma default_not_level [simp]: "\<not> is_level memdb_entry_default"
  by (simp add: is_level_def memdb_entry_default_def)

section \<open>Checking the owner\<close>

lemma find_upt_Some: "find P [0..<n] = Some k \<Longrightarrow> k < n \<and> P k"
  by (auto simp: find_Some_iff)

lemma find_upt_None: "find P [0..<n] = None \<longleftrightarrow> (\<forall>k < n. \<not> P k)"
  by (auto simp: find_None_iff)

lemma set_upt_Suc: "set [m..<n + 1] = {m..n}"
  by auto

lemma used_id: "lb_ok b \<Longrightarrow> i < 256 \<Longrightarrow> lb_counts b (lb_id (lb_bitmap b) i) \<noteq> 0"
  using counts_0 [of b "lb_id (lb_bitmap b) i"] lb_okD(5) [of b i] by (auto simp: with_id_def)

text \<open>
  The identifier that is looked up for an owner. A page has the owner for the purposes of an update
  if it has this identifier. Only for the empty entry there can be more than one identifier in use.
\<close>

definition owner_id :: "memdb_level_bitmap \<Rightarrow> memdb_entry \<Rightarrow> nat option" where
  "owner_id b e = find (\<lambda>id. lb_counts b id \<noteq> 0 \<and> lb_objects b id = e) [0..<16]"

definition lb_has :: "memdb_level_bitmap \<Rightarrow> memdb_entry \<Rightarrow> nat \<Rightarrow> bool" where
  "lb_has b e i \<longleftrightarrow> owner_id b e = Some (lb_id (lb_bitmap b) i)"

lemma owner_idD: "owner_id b e = Some k \<Longrightarrow> k < 16 \<and> lb_counts b k \<noteq> 0 \<and> lb_objects b k = e"
  unfolding owner_id_def by (drule find_upt_Some) simp

lemma lb_has_owner: "lb_has b e i \<Longrightarrow> lb_owner b i = e"
  unfolding lb_has_def lb_owner_def by (drule owner_idD) simp

lemma owner_lb_has:
  assumes "lb_ok b" "i < 256" "lb_owner b i = e" "e \<noteq> memdb_entry_default"
  shows "lb_has b e i"
proof (cases "owner_id b e")
  case None
  then show ?thesis using used_id [OF assms(1,2)] lb_okD(5) [OF assms(1,2)] assms(3) by (auto simp: owner_id_def find_upt_None lb_owner_def)
next
  case (Some k)
  then show ?thesis using owner_idD [OF Some] lb_okD(3) [OF assms(1), of k "lb_id (lb_bitmap b) i"] lb_okD(5) [OF assms(1,2)] assms(3,4)
    by (simp add: lb_has_def lb_owner_def)
qed

lemma check_owner:
  assumes ok: "lb_ok b" and i: "si \<le> ei" "ei < 256"
  shows "memdb_update_bitmap_check_owner si ei old b =
    Some (if \<forall>i \<in> {si..ei}. lb_has b old i then Inr (the (owner_id b old)) else Inl ERROR_MEMDB_NOT_OWNER)"
proof (cases "owner_id b old")
  case None
  then have "\<not> lb_has b old si" by (simp add: lb_has_def)
  then have "\<not> (\<forall>i \<in> {si..ei}. lb_has b old i)" using i by auto
  then show ?thesis using None by (simp add: memdb_update_bitmap_check_owner_def owner_id_def)
next
  case (Some k)
  have "memdb_check_ids b k [si..<ei + 1] = Some (\<forall>i \<in> {si..ei}. lb_id (lb_bitmap b) i = k)"
    using check_ids [OF lb_okD(1) [OF ok], of "[si..<ei + 1]" k, unfolded set_upt_Suc] i by auto
  moreover have "(\<forall>i \<in> {si..ei}. lb_id (lb_bitmap b) i = k) \<longleftrightarrow> (\<forall>i \<in> {si..ei}. lb_has b old i)" using Some by (auto simp: lb_has_def)
  ultimately show ?thesis using Some by (simp add: memdb_update_bitmap_check_owner_def flip: owner_id_def)
qed

section \<open>Updating\<close>

lemma claim_id:
  "case memdb_claim_id b ids retry of
     Inr k \<Rightarrow> k \<in> set ids \<and> lb_counts b k = 0 \<and> lb_objects b k = memdb_entry_default
   | Inl e \<Rightarrow> (\<forall>k \<in> set ids. lb_counts b k = 0 \<longrightarrow> lb_objects b k \<noteq> memdb_entry_default) \<and>
       (e = ERROR_BUSY \<or> e = ERROR_RETRY \<and> (retry \<or> (\<exists>k \<in> set ids. lb_counts b k = 0)))"
proof (induction ids arbitrary: retry)
  case (Cons k ids)
  show ?case using Cons [of retry] Cons [of True] by (auto split: sum.splits)
qed simp

text \<open>The identifier for the new owner.\<close>

definition new_id :: "memdb_level_bitmap \<Rightarrow> memdb_entry \<Rightarrow> nat result" where
  "new_id b new = (case find (\<lambda>id. lb_objects b id = new) [0..<MEMDB_BITMAP_OBJECTS] of Some oid \<Rightarrow> Inr oid
     | None \<Rightarrow> memdb_claim_id b [0..<MEMDB_BITMAP_OBJECTS] False)"

lemma new_id_ok:
  "case new_id b new of
     Inr k \<Rightarrow> k < 16 \<and> (lb_objects b k = new \<or> lb_counts b k = 0 \<and> lb_objects b k = memdb_entry_default \<and> (\<forall>j < 16. lb_objects b j \<noteq> new))
   | Inl e \<Rightarrow> (\<forall>k < 16. lb_counts b k = 0 \<longrightarrow> lb_objects b k \<noteq> memdb_entry_default) \<and>
       (e = ERROR_BUSY \<or> e = ERROR_RETRY \<and> (\<exists>k < 16. lb_counts b k = 0))"
proof (cases "find (\<lambda>id. lb_objects b id = new) [0..<16]")
  case None
  then have "new_id b new = memdb_claim_id b [0..<16] False" "\<forall>k < 16. lb_objects b k \<noteq> new" by (simp add: new_id_def) (simp add: None [unfolded find_upt_None])
  then show ?thesis using claim_id [where b = b and ids = "[0..<16]" and retry = False] by (auto split: sum.splits)
next
  case (Some k)
  then show ?thesis using find_upt_Some [OF Some] by (simp add: new_id_def)
qed

text \<open>The bitmap after the pages from \<open>si\<close> to \<open>ei\<close> have gone from identifier \<open>j\<close> to \<open>k\<close>.\<close>

definition moved :: "memdb_level_bitmap \<Rightarrow> nat \<Rightarrow> nat \<Rightarrow> nat \<Rightarrow> nat \<Rightarrow> memdb_entry \<Rightarrow> bitmap \<Rightarrow> memdb_level_bitmap" where
  "moved b si ei j k new bits = b\<lparr>lb_bitmap := bits, lb_objects := (lb_objects b)(k := new),
     lb_counts := (lb_counts b)(k := lb_counts b k + of_nat (ei + 1 - si), j := lb_counts b j - of_nat (ei + 1 - si))\<rparr>"

lemma card_with_id: "card (with_id b k) \<le> 256"
  using card_mono [of "{..<256}" "with_id b k"] by (auto simp: with_id_def)

lemma moved_ok:
  assumes ok: "lb_ok b" and i: "si \<le> ei" "ei < 256" and j: "j < 16" "\<forall>i \<in> {si..ei}. lb_id (lb_bitmap b) i = j"
    and k: "k < 16" "k \<noteq> j" "\<not> is_level new"
      "lb_objects b k = new \<or> lb_counts b k = 0 \<and> lb_objects b k = memdb_entry_default \<and> (\<forall>j < 16. lb_objects b j \<noteq> new)"
    and bits: "length bits = 16" "\<forall>n < 256. lb_id bits n = (if n \<in> {si..ei} then k else lb_id (lb_bitmap b) n)"
    and b': "b' = moved b si ei j k new bits"
  shows "lb_ok b'" "\<And>n. n < 256 \<Longrightarrow> lb_owner b' n = (if n \<in> {si..ei} then new else lb_owner b n)"
    "\<And>n. lb_counts b' k = 256 \<Longrightarrow> n < 256 \<Longrightarrow> lb_owner b' n = new" "si = 0 \<Longrightarrow> ei = 255 \<Longrightarrow> lb_counts b' k = 256"
proof -
  let ?b = "moved b si ei j k new bits"
  note o = lb_okD [OF ok]
  have w: "n \<in> with_id ?b m \<longleftrightarrow> n < 256 \<and> (if n \<in> {si..ei} then k = m else n \<in> with_id b m)" for n m
    using bits(2) [rule_format, of n] by (auto simp: with_id_def moved_def)
  have j2: "n \<in> {si..ei} \<Longrightarrow> n < 256 \<and> (n \<in> with_id b m \<longleftrightarrow> m = j)" for n m using j(2) i by (auto simp: with_id_def)
  have lt: "n \<in> with_id b m \<Longrightarrow> n < 256" for n m by (simp add: with_id_def)
  have wk: "with_id ?b k = with_id b k \<union> {si..ei}" by (rule set_eqI) (use w j2 lt k(2) in \<open>auto\<close>)
  have dk: "with_id b k \<inter> {si..ei} = {}" using j(2) k(2) by (auto simp: with_id_def)
  have wj: "with_id ?b j = with_id b j - {si..ei}" by (rule set_eqI) (use w lt k(2) in auto)
  have sj: "{si..ei} \<subseteq> with_id b j" using j(2) i by (auto simp: with_id_def)
  have wo: "with_id ?b n = with_id b n" if "n \<noteq> j" "n \<noteq> k" for n by (rule set_eqI) (use w lt j2 that in auto)
  have ck: "card (with_id ?b k) = card (with_id b k) + (ei + 1 - si)" using card_Un_disjoint [OF _ _ dk] wk by simp
  have cj: "card (with_id ?b j) = card (with_id b j) - (ei + 1 - si)" using card_Diff_subset [OF _ sj] wj by simp
  have lj: "ei + 1 - si \<le> card (with_id b j)" using card_mono [OF _ sj] by simp
  have uk: "unat (lb_counts ?b k) = card (with_id ?b k)"
    using o(2) [OF k(1)] ck card_with_id [of ?b k] k(2) by (simp add: moved_def unat_add_no_overflow unat_of_nat take_bit_nat_eq_self)
  have uj: "unat (lb_counts ?b j) = card (with_id ?b j)"
    using o(2) [OF j(1)] cj lj card_with_id [of b j] by (simp add: moved_def unat_diff_le unat_of_nat take_bit_nat_eq_self)
  have un: "unat (lb_counts ?b n) = card (with_id ?b n)" if "n \<noteq> j" "n \<noteq> k" "n < 16" for n
    using wo [OF that(1,2)] o(2) [OF that(3)] that by (simp add: moved_def)
  have c: "unat (lb_counts ?b n) = card (with_id ?b n)" if "n < 16" for n
    by (cases "n = j"; cases "n = k") (use uk uj un that in blast)+
  have d: "m = n" if "m < 16" "n < 16" "lb_objects ?b m = lb_objects ?b n" "lb_objects ?b m \<noteq> memdb_entry_default" for m n
    using o(3) [of m n] o(3) [of m k] o(3) [of k n] k(1,4) that by (cases "m = k"; cases "n = k") (auto simp: moved_def)
  have l: "\<not> is_level (lb_objects ?b n)" if "n < 16" for n using o(4) [OF that] k(3) by (simp add: moved_def)
  have "length (lb_bitmap ?b) = 16" using bits(1) by (simp add: moved_def)
  then show "lb_ok b'" unfolding b' by (rule lb_okI [OF _ c d l])
  show "lb_owner b' n = (if n \<in> {si..ei} then new else lb_owner b n)" if n: "n < 256" for n
  proof (cases "n \<in> {si..ei}")
    case False
    have "with_id b (lb_id (lb_bitmap b) n) \<noteq> {}" using n by (auto simp: with_id_def)
    then have "lb_counts b (lb_id (lb_bitmap b) n) \<noteq> 0" using counts_0 [OF ok o(5) [OF n]] by simp
    then show ?thesis unfolding b' using False bits(2) n k(4) by (auto simp: lb_owner_def moved_def)
  qed (use bits(2) n b' in \<open>simp add: lb_owner_def moved_def\<close>)
  show "lb_counts b' k = 256" if "si = 0" "ei = 255"
  proof -
    have "with_id ?b k = {..<256}" using wk that lt by auto
    then have "unat (lb_counts ?b k) = 256" using uk by simp
    then have "unat (lb_counts ?b k) = unat (256 :: u16)" by simp
    then show ?thesis unfolding b' by (simp only: word_unat_eq_iff)
  qed
  fix n :: nat assume c: "lb_counts b' k = 256" and n: "n < 256"
  have "card (with_id ?b k) = card {..<256 :: nat}" using uk c b' by simp
  then have "with_id ?b k = {..<256}" by (intro card_subset_eq) (auto simp: with_id_def)
  then have "n \<in> with_id ?b k" using n by simp
  then show "lb_owner b' n = new" by (simp add: b' with_id_def lb_owner_def moved_def)
qed

text \<open>The indices of a range inside one level.\<close>

lemma index_le:
  assumes "start \<le> end'" "unat start div 2 ^ (eb + 8) = unat end' div 2 ^ (eb + 8)"
  shows "memdb_entry_index start eb \<le> memdb_entry_index end' eb"
proof -
  have le: "unat start div 2 ^ eb \<le> unat end' div 2 ^ eb" using assms(1) by (intro div_le_mono) (simp add: word_le_nat_alt)
  have "unat start div 2 ^ eb div 256 = unat end' div 2 ^ eb div 256" using assms(2) by (simp add: div_mult2_eq power_add)
  then show ?thesis using le mult_div_mod_eq [of 256 "unat start div 2 ^ eb"] mult_div_mod_eq [of 256 "unat end' div 2 ^ eb"]
    unfolding entry_index_nat by linarith
qed

lemma level_assert: "memdb_level_assert start end' eb = c_assert (eb \<le> 28 \<and> unat start div 2 ^ (eb + 8) = unat end' div 2 ^ (eb + 8))"
  by (simp add: memdb_level_assert_def drop_bit_eq_nat)

definition lb_aligned :: "u64 \<Rightarrow> u64 \<Rightarrow> nat \<Rightarrow> bool" where
  "lb_aligned start end' eb \<longleftrightarrow> util_is_p2aligned start eb \<and> util_is_p2aligned (end' + 1) eb"

text \<open>After an update the pages of the range have the new owner for the purposes of a further update.\<close>

lemma moved_has:
  assumes ok: "lb_ok b" and k: "new_id b new = Inr k" "k \<noteq> j" and b': "b' = moved b si ei j k new bits" "lb_counts b' k \<noteq> 0" and n: "lb_id bits n = k"
  shows "lb_has b' new n"
proof -
  have k': "k < 16" using new_id_ok [where b = b and new = new] k(1) by simp
  have o: "lb_objects b' = (lb_objects b)(k := new)" "lb_bitmap b' = bits" by (simp_all add: b' moved_def)
  have first: "lb_objects b i \<noteq> new" if "i < k" for i
  proof (cases "find (\<lambda>id. lb_objects b id = new) [0..<16]")
    case None
    then show ?thesis using that k' by (simp add: find_upt_None)
  next
    case (Some l)
    then have "l = k" using k(1) by (simp add: new_id_def)
    then show ?thesis using Some that by (auto simp: find_Some_iff)
  qed
  have "owner_id b' new = Some k"
    unfolding owner_id_def find_Some_iff using k' b'(2) first o(1) by (intro exI [of _ k]) auto
  then show ?thesis using n o(2) by (simp add: lb_has_def)
qed

lemma update_bitmap:
  assumes ok: "lb_ok b" "level_bitmaps s p = b"
    and r: "eb \<le> 28" "unat start div 2 ^ (eb + 8) = unat end' div 2 ^ (eb + 8)" "start \<le> end'"
    and new: "old \<noteq> new" "\<not> is_level new"
    and i: "si = memdb_entry_index start eb" "ei = memdb_entry_index end' eb"
  shows "\<exists>r s'. memdb_update_bitmap start end' old new p eb s = Some (r, s') \<and>
    (case r of
       Inl e \<Rightarrow> s' = s \<and> (e = ERROR_MEMDB_NOT_OWNER \<and> \<not> (\<forall>i \<in> {si..ei}. lb_has b old i) \<or>
         (\<forall>i \<in> {si..ei}. lb_has b old i) \<and> (e = ERROR_ARGUMENT_ALIGNMENT \<and> \<not> lb_aligned start end' eb \<or>
           lb_aligned start end' eb \<and> (\<forall>k < 16. lb_counts b k = 0 \<longrightarrow> lb_objects b k \<noteq> memdb_entry_default) \<and>
             (e = ERROR_BUSY \<or> e = ERROR_RETRY \<and> (\<exists>k < 16. lb_counts b k = 0))))
     | Inr c \<Rightarrow> lb_aligned start end' eb \<and> (\<forall>i \<in> {si..ei}. lb_has b old i) \<and> (\<exists>b'. s' = upd_bitmap p b' s \<and> lb_ok b' \<and>
         (\<forall>n < 256. lb_owner b' n = (if n \<in> {si..ei} then new else lb_owner b n)) \<and> (\<forall>n \<in> {si..ei}. lb_has b' new n) \<and>
         (c \<longrightarrow> (\<forall>n < 256. lb_owner b' n = new)) \<and> (si = 0 \<longrightarrow> ei = 255 \<longrightarrow> c)))"
proof -
  have ie: "si \<le> ei" "ei < 256" using index_le [OF r(3,2)] i by auto
  note co = check_owner [OF ok(1) ie, of old]
  note u0 = memdb_update_bitmap_def [of start end' old new p eb s, unfolded Let_def, folded i, unfolded ok(2) level_assert co]
  show ?thesis
  proof (cases "\<forall>i \<in> {si..ei}. lb_has b old i")
    case False
    then show ?thesis using r(1,2) unfolding u0 if_not_P [OF False] by simp
  next
    case all: True
    have si: "si \<in> {si..ei}" using ie(1) by simp
    obtain j where j: "owner_id b old = Some j" using all [rule_format, OF si] unfolding lb_has_def by blast
    then have j: "owner_id b old = Some j" "\<forall>i \<in> {si..ei}. lb_id (lb_bitmap b) i = j" using all by (auto simp: lb_has_def)
    note j' = owner_idD [OF j(1)]
    have u: "memdb_update_bitmap start end' old new p eb s = (if \<not> lb_aligned start end' eb then Some (Inl ERROR_ARGUMENT_ALIGNMENT, s)
      else (case new_id b new of Inl e \<Rightarrow> Some (Inl e, s) | Inr k \<Rightarrow> do { c_assert (k \<noteq> j \<and> k < 16);
        bits \<leftarrow> memdb_insert_ids k [si..<ei + 1] (lb_bitmap b);
        Some (Inr (lb_counts (moved b si ei j k new bits) k = 256), upd_bitmap p (moved b si ei j k new bits) s) }))"
      unfolding u0 if_P [OF all] new_id_def [symmetric] lb_aligned_def j(1)
      using r(1,2) by (auto simp: moved_def split: sum.split)
    show ?thesis
    proof (cases "new_id b new")
      case (Inl e)
      then show ?thesis using u all new_id_ok [where b = b and new = new] by (cases "lb_aligned start end' eb") auto
    next
      case k: (Inr k)
      have k': "k < 16" "k \<noteq> j" "lb_objects b k = new \<or> lb_counts b k = 0 \<and> lb_objects b k = memdb_entry_default \<and> (\<forall>j < 16. lb_objects b j \<noteq> new)"
        using new_id_ok [where b = b and new = new] k j' new(1) by auto
      obtain bits where bits: "memdb_insert_ids k [si..<ei + 1] (lb_bitmap b) = Some bits" "length bits = 16"
          "\<forall>n < 256. lb_id bits n = (if n \<in> {si..ei} then k else lb_id (lb_bitmap b) n)"
        using insert_ids [OF lb_okD(1) [OF ok(1)] k'(1), of "[si..<ei + 1]", unfolded set_upt_Suc] ie(2) by auto
      have "j < 16" using j' by simp
      note m = moved_ok [OF ok(1) ie this j(2) k'(1,2) new(2) k'(3) bits(2,3) refl]
      let ?b = "moved b si ei j k new bits"
      have "lb_has ?b new n" if "n \<in> {si..ei}" for n
      proof -
        have n: "n < 256" "lb_id bits n = k" using that ie(2) bits(3) by auto
        then have "lb_counts ?b k \<noteq> 0" using used_id [OF m(1) n(1)] by (simp add: moved_def)
        then show ?thesis by (rule moved_has [OF ok(1) k k'(2) refl _ n(2)])
      qed
      then show ?thesis using u k k'(1,2) bits(1) all m by (cases "lb_aligned start end' eb") auto
    qed
  qed
qed

section \<open>New bitmaps and tables\<close>

definition new_bitmap :: "memdb_entry \<Rightarrow> memdb_level_bitmap" where
  "new_bitmap e = \<lparr>lb_bitmap = replicate 16 0, lb_objects = (\<lambda>_. memdb_entry_default)(0 := e), lb_counts = (\<lambda>_. 0)(0 := 256)\<rparr>"

lemma id_replicate: "i < 256 \<Longrightarrow> lb_id (replicate 16 0) i = 0"
  using extract_4(3) [of "replicate 16 0" i] by (intro bit_eqI) (auto simp: bm_bit_def)

lemma new_bitmap_ok: "\<not> is_level e \<Longrightarrow> lb_ok (new_bitmap e)" "i < 256 \<Longrightarrow> lb_owner (new_bitmap e) i = e" "i < 256 \<Longrightarrow> lb_has (new_bitmap e) e i"
proof -
  have "owner_id (new_bitmap e) e = Some 0" unfolding owner_id_def find_Some_iff by (intro exI [of _ 0]) (simp add: new_bitmap_def)
  then show "lb_has (new_bitmap e) e i" if "i < 256" using that by (simp add: lb_has_def new_bitmap_def id_replicate)
  have "with_id (new_bitmap e) k = (if k = 0 then {..<256} else {})" for k
    by (auto simp: with_id_def new_bitmap_def id_replicate)
  then show "lb_ok (new_bitmap e)" if "\<not> is_level e" using that by (intro lb_okI) (auto simp: new_bitmap_def split: if_splits)
  show "lb_owner (new_bitmap e) i = e" if "i < 256" using that by (simp add: lb_owner_def new_bitmap_def id_replicate)
qed

definition dup_bitmap :: "memdb_level_bitmap \<Rightarrow> memdb_level_bitmap" where
  "dup_bitmap b = \<lparr>lb_bitmap = lb_bitmap b,
     lb_objects = (\<lambda>i. if lb_counts b i \<noteq> 0 then lb_objects b i else memdb_entry_default), lb_counts = lb_counts b\<rparr>"

lemma dup_bitmap_ok:
  assumes "lb_ok b"
  shows "lb_ok (dup_bitmap b)" "i < 256 \<Longrightarrow> lb_owner (dup_bitmap b) i = lb_owner b i"
    "lb_has (dup_bitmap b) e i \<longleftrightarrow> lb_has b e i"
    "lb_counts b k = 0 \<Longrightarrow> lb_counts (dup_bitmap b) k = 0 \<and> lb_objects (dup_bitmap b) k = memdb_entry_default"
proof -
  have "owner_id (dup_bitmap b) e = owner_id b e" by (simp add: owner_id_def dup_bitmap_def cong: conj_cong)
  then show "lb_has (dup_bitmap b) e i \<longleftrightarrow> lb_has b e i" by (simp add: lb_has_def dup_bitmap_def)
  have "with_id (dup_bitmap b) = with_id b" by (simp add: with_id_def dup_bitmap_def fun_eq_iff)
  then show "lb_ok (dup_bitmap b)"
    using lb_okD(1-4) [OF assms] by (intro lb_okI) (auto simp: dup_bitmap_def split: if_splits)
  show "lb_owner (dup_bitmap b) i = lb_owner b i" if "i < 256" using used_id [OF assms that] by (simp add: lb_owner_def dup_bitmap_def)
qed (simp add: dup_bitmap_def)

lemma convert_loop:
  assumes "length (lb_bitmap b) = 16" "\<forall>i \<in> set is. i < 256"
  shows "memdb_convert_loop b is t = Some (\<lambda>i. if i \<in> set is then lb_owner b i else t i)"
  using assms by (induction "is" arbitrary: t) (auto simp: bitmap_id_4 lb_owner_def fun_eq_iff)

lemma convert_all: "lb_ok b \<Longrightarrow> memdb_convert_loop b [0..<256] t = Some (\<lambda>i. if i < 256 then lb_owner b i else t i)"
  using convert_loop [of b "[0..<256]" t] lb_okD(1) [of b] by (simp add: atLeast0LessThan)

text \<open>The allocation of the three kinds of levels.\<close>

lemma create_bitmap: "memdb_create_bitmap alloc e s = memdb_alloc alloc sizeof_memdb_level_bitmap (\<lambda>p. upd_bitmap p (new_bitmap e)) s"
  by (simp add: memdb_create_bitmap_def new_bitmap_def BITMAP_NUM_WORDS_def)

lemma duplicate_bitmap:
  "memdb_duplicate_bitmap alloc b s = memdb_alloc alloc sizeof_memdb_level_bitmap (\<lambda>p. upd_bitmap p (dup_bitmap (level_bitmaps s b))) s"
  by (simp add: memdb_duplicate_bitmap_def dup_bitmap_def Let_def)

lemma convert_bitmap:
  assumes "lb_ok (level_bitmaps s b)"
  shows "memdb_convert_bitmap alloc b s = memdb_alloc alloc sizeof_memdb_level_table
    (\<lambda>p. upd_table p (\<lambda>i. if i < 256 then lb_owner (level_bitmaps s b) i else memdb_entry_default)) s"
  using convert_all [OF assms]
  by (cases "alloc (private_heap s) sizeof_memdb_level_table 8")
    (auto simp: memdb_convert_bitmap_def memdb_create_table_def memdb_alloc_def Let_def upd_table_def split: sum.splits)

end
