(* ===== verification/Memdb_Tree.thy ===== *)
theory Memdb_Tree
  imports Memdb_Bitmap
begin

text \<open>
  The tree of the memory database: the owner that an entry records for an address, the levels below an
  entry, the invariant of a tree, and the ranges that an update of a table passes on to its entries.
\<close>

section \<open>Ranges\<close>

text \<open>An entry of level \<open>k\<close> describes \<open>2\<^bsup>lv k\<^esup>\<close> bytes.\<close>

definition lv :: "nat \<Rightarrow> nat" where "lv k = 4 + 8 * k"

lemma lv_Suc: "lv (Suc k) = lv k + 8" "lv 0 = 4" "(2::nat) ^ lv (Suc k) = 2 ^ lv k * 256"
  by (simp_all add: lv_def power_add)

definition range_in :: "nat \<Rightarrow> u64 \<Rightarrow> u64 \<Rightarrow> bool" where
  "range_in k start end' \<longleftrightarrow> start \<le> end' \<and> unat start div 2 ^ lv k = unat end' div 2 ^ lv k \<and> 16 dvd unat start \<and> 16 dvd unat end' + 1"

definition covers :: "u64 \<Rightarrow> u64 \<Rightarrow> nat \<Rightarrow> bool" where
  "covers start end' a \<longleftrightarrow> unat start \<le> a \<and> a \<le> unat end'"

definition same_blk :: "nat \<Rightarrow> nat \<Rightarrow> nat \<Rightarrow> bool" where
  "same_blk k a b \<longleftrightarrow> a div 2 ^ lv k = b div 2 ^ lv k"

abbreviation idx :: "nat \<Rightarrow> nat \<Rightarrow> nat" where "idx k a \<equiv> a div 2 ^ lv k mod 256"

lemma blk_split: "same_blk (Suc k) a b \<Longrightarrow> idx k a = idx k b \<longleftrightarrow> same_blk k a b"
proof -
  assume "same_blk (Suc k) a b"
  then have "a div 2 ^ lv k div 256 = b div 2 ^ lv k div 256" by (simp add: same_blk_def lv_Suc(3) div_mult2_eq)
  then show ?thesis unfolding same_blk_def by (metis div_mult_mod_eq)
qed

lemma blk_up: "same_blk k a b \<Longrightarrow> same_blk (Suc k) a b"
  by (simp add: same_blk_def lv_Suc(3) div_mult2_eq)

lemma covers_blk: "range_in k start end' \<Longrightarrow> covers start end' a \<Longrightarrow> same_blk k a (unat start)"
  using div_le_mono [of "unat start" a "2 ^ lv k"] div_le_mono [of a "unat end'" "2 ^ lv k"]
  by (simp add: range_in_def covers_def same_blk_def)

lemma range_assert: "range_in (Suc k) start end' \<Longrightarrow> k \<le> 3 \<Longrightarrow> memdb_level_assert start end' (lv k) = Some ()"
  by (simp add: level_assert range_in_def lv_Suc(1)) (simp add: lv_def)

text \<open>The part of a range that lies in entry \<open>i\<close> of a table.\<close>

abbreviation tstart :: "nat \<Rightarrow> u64 \<Rightarrow> u64" where
  "tstart k start \<equiv> start AND NOT (util_mask (lv k + 8))"

abbreviation sub_start :: "nat \<Rightarrow> u64 \<Rightarrow> nat \<Rightarrow> u64" where
  "sub_start k start i \<equiv> entry_start start (tstart k start) (lv k) i"

abbreviation sub_end :: "nat \<Rightarrow> u64 \<Rightarrow> u64 \<Rightarrow> nat \<Rightarrow> u64" where
  "sub_end k start end' i \<equiv> entry_end end' (tstart k start) (lv k) i"

lemma unat_tstart: "k \<le> 3 \<Longrightarrow> unat (tstart k start) = unat start div 2 ^ lv (Suc k) * 2 ^ lv (Suc k)"
proof -
  assume k: "k \<le> 3"
  have "tstart k start = start - take_bit (lv (Suc k)) start"
    by (simp add: util_mask_def util_bit_def mask_eq_exp_minus_1 [symmetric] word_and_not_mask lv_Suc(1))
  moreover have "unat (start - take_bit (lv (Suc k)) start) = unat start - unat (take_bit (lv (Suc k)) start)"
    by (rule unat_diff_le) (simp only: unat_take_bit mod_less_eq_dividend)
  ultimately show ?thesis by (simp only: unat_take_bit minus_mod_eq_div_mult)
qed

lemma tstart_top: "k \<le> 3 \<Longrightarrow> unat (tstart k start) + 2 ^ lv (Suc k) \<le> 2 ^ 64"
proof -
  assume k: "k \<le> 3"
  let ?p = "(2::nat) ^ lv (Suc k)" and ?q = "(2::nat) ^ (64 - lv (Suc k))"
  have pq: "(2::nat) ^ 64 = ?q * ?p" using k by (simp flip: power_add add: lv_def)
  have "unat start div ?p < ?q" using unat_lt [of start] pq by (simp add: less_mult_imp_div_less)
  then have "(unat start div ?p + 1) * ?p \<le> ?q * ?p" by (intro mult_right_mono) simp_all
  then show ?thesis unfolding unat_tstart [OF k] pq by simp
qed

lemma unat_sub:
  assumes "k \<le> 3" "i < 256"
  shows "unat (sub_start k start i) = max (unat start) (unat (tstart k start) + i * 2 ^ lv k)"
    "unat (sub_end k start end' i) = min (unat end') (unat (tstart k start) + ((i + 1) * 2 ^ lv k - 1))"
proof -
  let ?p = "(2::nat) ^ lv k"
  have P: "unat (util_bit (lv k)) = ?p" using assms(1) by (simp add: util_bit_def lv_def)
  have i: "unat (of_nat i :: u64) = i" "unat (of_nat i + 1 :: u64) = i + 1" using assms(2)
    by (simp_all add: unat_of_nat take_bit_nat_eq_self unat_add_no_overflow)
  have le: "(i + 1) * ?p \<le> 2 ^ lv (Suc k)" using assms(2) unfolding lv_Suc(3) by (simp add: mult.commute)
  have big: "(2::nat) ^ lv (Suc k) < 2 ^ 64" using assms(1) by (intro power_strict_increasing) (simp_all add: lv_def)
  have L: "LENGTH(64) = 64" by simp
  have lt0: "i * ?p + 1 \<le> (i + 1) * ?p" by (simp add: Suc_leI)
  have lt: "unat (of_nat i :: u64) * unat (util_bit (lv k)) < 2 ^ LENGTH(64)" "unat (of_nat i + 1 :: u64) * unat (util_bit (lv k)) < 2 ^ LENGTH(64)"
    unfolding i P L using le big lt0 by linarith+
  have m1: "unat (of_nat i * util_bit (lv k) :: u64) = i * ?p" using unat_mult_lem [THEN iffD1, OF lt(1)] unfolding i P .
  have m2: "unat ((of_nat i + 1) * util_bit (lv k) :: u64) = (i + 1) * ?p" using unat_mult_lem [THEN iffD1, OF lt(2)] unfolding i P .
  have one: "unat (1 :: u64) = 1" by simp
  have m3: "unat ((of_nat i + 1) * util_bit (lv k) - 1 :: u64) = (i + 1) * ?p - 1"
    using unat_diff_le [of 1 "(of_nat i + 1) * util_bit (lv k) :: u64"] lt0 unfolding m2 one by linarith
  note top = tstart_top [OF assms(1), of start]
  have s: "unat (tstart k start + of_nat i * util_bit (lv k)) = unat (tstart k start) + i * ?p"
    by (subst unat_add_no_overflow) (simp_all only: m1 L, use le top lt0 in linarith)
  have e: "unat (tstart k start + ((of_nat i + 1) * util_bit (lv k) - 1)) = unat (tstart k start) + ((i + 1) * ?p - 1)"
    by (subst unat_add_no_overflow) (simp_all only: m3 L, use le top lt0 in linarith)
  show "unat (sub_start k start i) = max (unat start) (unat (tstart k start) + i * ?p)"
    using s by (auto simp: entry_start_def max_def word_le_nat_alt)
  show "unat (sub_end k start end' i) = min (unat end') (unat (tstart k start) + ((i + 1) * ?p - 1))"
    using e by (auto simp: entry_end_def min_def word_le_nat_alt)
qed
lemma div_eq_iff: "0 < p \<Longrightarrow> a div p = q \<longleftrightarrow> q * p \<le> a \<and> a < (q + 1) * p" for a p q :: nat
proof
  assume p: "0 < p" "a div p = q"
  then show "q * p \<le> a \<and> a < (q + 1) * p" using div_times_less_eq_dividend [of a p] dividend_less_div_times [OF p(1), of a] by simp
next
  assume "0 < p" "q * p \<le> a \<and> a < (q + 1) * p"
  then show "a div p = q" by (intro div_nat_eqI) (auto simp: algebra_simps)
qed

lemma entry_index_idx: "memdb_entry_index a (lv k) = idx k (unat a)"
  by (rule entry_index_nat)

lemma div_idx: "same_blk (Suc k) a b \<Longrightarrow> a div 2 ^ lv k = b div 2 ^ lv (Suc k) * 256 + idx k a"
proof -
  assume "same_blk (Suc k) a b"
  then have "a div 2 ^ lv k div 256 = b div 2 ^ lv (Suc k)" by (simp add: same_blk_def lv_Suc(3) div_mult2_eq)
  then show ?thesis using div_mult_mod_eq [of "a div 2 ^ lv k" 256] by simp
qed

lemma range_blk: "range_in k start end' \<Longrightarrow> same_blk k (unat end') (unat start)"
  by (simp add: range_in_def same_blk_def)

lemma range_idx:
  assumes "range_in (Suc k) start end'"
  shows "idx k (unat start) \<le> idx k (unat end')" "idx k (unat end') < 256"
    "covers start end' a \<Longrightarrow> idx k (unat start) \<le> idx k a \<and> idx k a \<le> idx k (unat end')"
proof -
  have d: "a div 2 ^ lv k = unat start div 2 ^ lv (Suc k) * 256 + idx k a" if "covers start end' a" for a
    using div_idx [OF covers_blk [OF assms that]] .
  have se: "covers start end' (unat start)" "covers start end' (unat end')" using assms by (auto simp: covers_def range_in_def word_le_nat_alt)
  have mono: "idx k a \<le> idx k b" if "covers start end' a" "covers start end' b" "a \<le> b" for a b
    using d [OF that(1)] d [OF that(2)] div_le_mono [OF that(3), of "2 ^ lv k"] by linarith
  show "idx k (unat start) \<le> idx k (unat end')" using mono [OF se] assms by (simp add: range_in_def word_le_nat_alt)
  show "idx k (unat start) \<le> idx k a \<and> idx k a \<le> idx k (unat end')" if "covers start end' a"
    using mono [OF se(1) that] mono [OF that se(2)] that by (simp add: covers_def)
qed simp

lemma sub_covers:
  assumes "k \<le> 3" "i < 256" "range_in (Suc k) start end'"
  shows "covers (sub_start k start i) (sub_end k start end' i) a \<longleftrightarrow> covers start end' a \<and> idx k a = i"
proof -
  let ?p = "(2::nat) ^ lv k" and ?Q = "unat start div 2 ^ lv (Suc k) * 256"
  have T: "unat (tstart k start) = ?Q * ?p" unfolding unat_tstart [OF assms(1)] lv_Suc(3) by (simp add: mult_ac)
  have lt: "1 \<le> (i + 1) * ?p" by (simp add: Suc_leI)
  have "covers (sub_start k start i) (sub_end k start end' i) a \<longleftrightarrow>
      covers start end' a \<and> (?Q + i) * ?p \<le> a \<and> a < (?Q + i + 1) * ?p"
    using lt unfolding covers_def unat_sub [OF assms(1,2)] T max.bounded_iff min.bounded_iff add_mult_distrib by linarith
  also have "\<dots> \<longleftrightarrow> covers start end' a \<and> a div ?p = ?Q + i" by (simp only: div_eq_iff zero_less_power zero_less_numeral)
  also have "\<dots> \<longleftrightarrow> covers start end' a \<and> idx k a = i" using div_idx [OF covers_blk [OF assms(3)], of a] by auto
  finally show ?thesis .
qed

lemma sub_range:
  assumes "k \<le> 3" "range_in (Suc k) start end'" "idx k (unat start) \<le> i" "i \<le> idx k (unat end')"
  shows "range_in k (sub_start k start i) (sub_end k start end' i)" "same_blk (Suc k) (unat (sub_start k start i)) (unat start)"
    "idx k (unat (sub_start k start i)) = i"
proof -
  let ?p = "(2::nat) ^ lv k" and ?Q = "unat start div 2 ^ lv (Suc k) * 256"
  have i: "i < 256" using assms(4) range_idx(2) [OF assms(2)] by simp
  note u = unat_sub [OF assms(1) i]
  have T: "unat (tstart k start) = ?Q * ?p" unfolding unat_tstart [OF assms(1)] lv_Suc(3) by (simp add: mult_ac)
  have r: "unat start \<le> unat end'" "16 dvd unat start" "16 dvd unat end' + 1" using assms(2) by (auto simp: range_in_def word_le_nat_alt)
  have p: "0 < ?p" "16 dvd ?p" by (simp_all add: lv_def power_add)
  have "unat start div ?p = ?Q + idx k (unat start)" "unat end' div ?p = ?Q + idx k (unat end')"
    using div_idx [of k "unat start" "unat start"] div_idx [OF range_blk [OF assms(2)]] by (auto simp: same_blk_def)
  then have "unat start div ?p \<le> ?Q + i" "?Q + i \<le> unat end' div ?p" using assms(3,4) by auto
  then have se: "unat start < (?Q + i + 1) * ?p" "(?Q + i) * ?p \<le> unat end'"
    using div_less_iff_less_mult [OF p(1), of "unat start" "?Q + i + 1"] less_eq_div_iff_mult_less_eq [OF p(1), of "?Q + i" "unat end'"] by simp_all
  have le: "unat (sub_start k start i) \<le> unat (sub_end k start end' i)"
    using se r(1) p(1) unfolding u T max.bounded_iff min.bounded_iff add_mult_distrib by linarith
  then have c: "covers (sub_start k start i) (sub_end k start end' i) (unat (sub_start k start i))"
      "covers (sub_start k start i) (sub_end k start end' i) (unat (sub_end k start end' i))" by (auto simp: covers_def)
  note cc = c [unfolded sub_covers [OF assms(1) i assms(2)]]
  show b: "same_blk (Suc k) (unat (sub_start k start i)) (unat start)" using covers_blk [OF assms(2)] cc by blast
  show x: "idx k (unat (sub_start k start i)) = i" using cc by blast
  have "same_blk (Suc k) (unat (sub_end k start end' i)) (unat start)" using covers_blk [OF assms(2)] cc by blast
  then have "same_blk k (unat (sub_start k start i)) (unat (sub_end k start end' i))" using b cc blk_split [of k "unat (sub_start k start i)" "unat (sub_end k start end' i)"]
    by (simp add: same_blk_def)
  moreover have "16 dvd unat (sub_start k start i)" unfolding u T using r(2) p(2) by (auto simp: max_def)
  moreover have "16 dvd unat (sub_end k start end' i) + 1"
  proof -
    have "?Q * ?p + ((i + 1) * ?p - 1) + 1 = (?Q + i + 1) * ?p" using p(1) by (simp add: algebra_simps)
    then show ?thesis unfolding u T using r(3) p(2) by (auto simp: min_def)
  qed
  ultimately show "range_in k (sub_start k start i) (sub_end k start end' i)" using le by (simp add: range_in_def same_blk_def word_le_nat_alt)
qed

lemma sub_blk:
  assumes "k \<le> 3" "range_in (Suc k) start end'" "idx k (unat start) \<le> i" "i \<le> idx k (unat end')"
  shows "same_blk k a (unat (sub_start k start i)) \<longleftrightarrow> same_blk (Suc k) a (unat start) \<and> idx k a = i"
  using sub_range(2,3) [OF assms] blk_split [of k a "unat (sub_start k start i)"] blk_up [of k a "unat (sub_start k start i)"]
  by (auto simp: same_blk_def)

section \<open>Trees\<close>

text \<open>A level is named by its kind and its address.\<close>

type_synonym node = "memdb_rcu_class \<times> ptr"

abbreviation tab_node :: "ptr \<Rightarrow> node" where "tab_node p \<equiv> (MEMDB_RELEASE_LEVEL_TABLE, p)"
abbreviation map_node :: "ptr \<Rightarrow> node" where "map_node p \<equiv> (MEMDB_RELEASE_LEVEL_BITMAP, p)"

abbreviation is_table :: "memdb_entry \<Rightarrow> bool" where "is_table e \<equiv> entry_type e = MEMDB_TYPE_LEVEL_TABLE"
abbreviation is_bitmap :: "memdb_entry \<Rightarrow> bool" where "is_bitmap e \<equiv> entry_type e = MEMDB_TYPE_LEVEL_BITMAP"

text \<open>
  The owner of an address according to an entry of level \<open>k\<close>, and whether it has the given owner for the
  purposes of an update; the levels below the entry; and the invariant: the levels form a tree, tables
  are at most \<open>k\<close> deep, and bitmaps describe pages.
\<close>

primrec owner :: "'h memdb_mem \<Rightarrow> nat \<Rightarrow> memdb_entry \<Rightarrow> nat \<Rightarrow> memdb_entry" where
  "owner m 0 e a = e"
| "owner m (Suc k) e a =
    (if is_table e then owner m k (level_tables m (entry_ptr e) (idx k a)) a
     else if is_bitmap e then lb_owner (level_bitmaps m (entry_ptr e)) (idx k a) else e)"

primrec has :: "'h memdb_mem \<Rightarrow> nat \<Rightarrow> memdb_entry \<Rightarrow> memdb_entry \<Rightarrow> nat \<Rightarrow> bool" where
  "has m 0 e x a \<longleftrightarrow> e = x"
| "has m (Suc k) e x a \<longleftrightarrow>
    (if is_table e then has m k (level_tables m (entry_ptr e) (idx k a)) x a
     else if is_bitmap e then lb_has (level_bitmaps m (entry_ptr e)) x (idx k a) else e = x)"

primrec nodes :: "'h memdb_mem \<Rightarrow> nat \<Rightarrow> memdb_entry \<Rightarrow> node set" where
  "nodes m 0 e = {}"
| "nodes m (Suc k) e =
    (if is_table e then insert (tab_node (entry_ptr e)) (\<Union>i<256. nodes m k (level_tables m (entry_ptr e) i))
     else if is_bitmap e then {map_node (entry_ptr e)} else {})"

primrec ent_ok :: "'h memdb_mem \<Rightarrow> nat \<Rightarrow> memdb_entry \<Rightarrow> bool" where
  "ent_ok m 0 e \<longleftrightarrow> \<not> is_level e"
| "ent_ok m (Suc k) e \<longleftrightarrow>
    (if is_table e then
       (\<forall>i<256. ent_ok m k (level_tables m (entry_ptr e) i) \<and> tab_node (entry_ptr e) \<notin> nodes m k (level_tables m (entry_ptr e) i)) \<and>
       (\<forall>i<256. \<forall>j<256. i \<noteq> j \<longrightarrow> nodes m k (level_tables m (entry_ptr e) i) \<inter> nodes m k (level_tables m (entry_ptr e) j) = {})
     else if is_bitmap e then k = 1 \<and> lb_ok (level_bitmaps m (entry_ptr e)) else True)"

text \<open>The same for a table whose entries have level \<open>k\<close>.\<close>

definition town :: "'h memdb_mem \<Rightarrow> nat \<Rightarrow> ptr \<Rightarrow> nat \<Rightarrow> memdb_entry" where
  "town m k t a = owner m k (level_tables m t (idx k a)) a"

definition thas :: "'h memdb_mem \<Rightarrow> nat \<Rightarrow> ptr \<Rightarrow> memdb_entry \<Rightarrow> nat \<Rightarrow> bool" where
  "thas m k t x a \<longleftrightarrow> has m k (level_tables m t (idx k a)) x a"

definition tnodes :: "'h memdb_mem \<Rightarrow> nat \<Rightarrow> ptr \<Rightarrow> node set" where
  "tnodes m k t = insert (tab_node t) (\<Union>i<256. nodes m k (level_tables m t i))"

definition tab_ok :: "'h memdb_mem \<Rightarrow> nat \<Rightarrow> ptr \<Rightarrow> bool" where
  "tab_ok m k t \<longleftrightarrow>
    (\<forall>i<256. ent_ok m k (level_tables m t i) \<and> tab_node t \<notin> nodes m k (level_tables m t i)) \<and>
    (\<forall>i<256. \<forall>j<256. i \<noteq> j \<longrightarrow> nodes m k (level_tables m t i) \<inter> nodes m k (level_tables m t j) = {})"

lemma tab_okD:
  assumes "tab_ok m k t"
  shows "i < 256 \<Longrightarrow> ent_ok m k (level_tables m t i)" "i < 256 \<Longrightarrow> tab_node t \<notin> nodes m k (level_tables m t i)"
    "i < 256 \<Longrightarrow> j < 256 \<Longrightarrow> i \<noteq> j \<Longrightarrow> nodes m k (level_tables m t i) \<inter> nodes m k (level_tables m t j) = {}"
  using assms unfolding tab_ok_def by blast+

lemma tab_okI:
  assumes "\<And>i. i < 256 \<Longrightarrow> ent_ok m k (level_tables m t i)" "\<And>i. i < 256 \<Longrightarrow> tab_node t \<notin> nodes m k (level_tables m t i)"
    "\<And>i j. i < 256 \<Longrightarrow> j < 256 \<Longrightarrow> i \<noteq> j \<Longrightarrow> nodes m k (level_tables m t i) \<inter> nodes m k (level_tables m t j) = {}"
  shows "tab_ok m k t"
  using assms unfolding tab_ok_def by blast

lemma tree_table:
  assumes "is_table e"
  shows "owner m (Suc k) e a = town m k (entry_ptr e) a" "has m (Suc k) e x a = thas m k (entry_ptr e) x a"
    "nodes m (Suc k) e = tnodes m k (entry_ptr e)" "ent_ok m (Suc k) e = tab_ok m k (entry_ptr e)"
  using assms by (simp_all add: town_def thas_def tnodes_def tab_ok_def)

lemma tree_leaf:
  assumes "\<not> is_level e"
  shows "owner m k e a = e" "has m k e x a \<longleftrightarrow> e = x" "nodes m k e = {}" "ent_ok m k e"
proof -
  have "\<not> is_table e" "\<not> is_bitmap e" using assms by (auto simp: is_level_def)
  then show "owner m k e a = e" "has m k e x a \<longleftrightarrow> e = x" "nodes m k e = {}" "ent_ok m k e" by (cases k; simp add: assms)+
qed

declare owner.simps(2) [simp del] has.simps(2) [simp del] nodes.simps(2) [simp del] ent_ok.simps(2) [simp del]

lemma tree_bitmap:
  assumes "is_bitmap e"
  shows "owner m (Suc k) e a = lb_owner (level_bitmaps m (entry_ptr e)) (idx k a)" "has m (Suc k) e x a = lb_has (level_bitmaps m (entry_ptr e)) x (idx k a)"
    "nodes m (Suc k) e = {map_node (entry_ptr e)}" "ent_ok m (Suc k) e \<longleftrightarrow> k = 1 \<and> lb_ok (level_bitmaps m (entry_ptr e))"
  using assms by (simp_all add: owner.simps has.simps nodes.simps ent_ok.simps)

lemma has_owner:
  assumes "has m k e x a" shows "owner m k e a = x"
  using assms by (induction k arbitrary: e) (auto simp: owner.simps has.simps dest: lb_has_owner split: if_splits)

lemma owner_has:
  assumes "ent_ok m k e" "owner m k e a = x" "x \<noteq> memdb_entry_default" shows "has m k e x a"
  using assms
proof (induction k arbitrary: e)
  case (Suc k)
  show ?case
  proof (cases "is_table e")
    case True
    then show ?thesis using Suc.IH [of "level_tables m (entry_ptr e) (idx k a)"] Suc.prems tab_okD(1) [of m k "entry_ptr e" "idx k a"]
      by (simp add: tree_table town_def thas_def)
  next
    case False
    then show ?thesis using Suc.prems owner_lb_has [of "level_bitmaps m (entry_ptr e)" "idx k a" x] by (auto simp: owner.simps has.simps ent_ok.simps)
  qed
qed simp

lemma owner_not_level': "ent_ok m k e \<Longrightarrow> \<not> is_level (owner m k e a)"
proof (induction k arbitrary: e)
  case (Suc k)
  then show ?case
    using Suc.IH [of "level_tables m (entry_ptr e) (idx k a)"] Suc.prems owner_not_level [of "level_bitmaps m (entry_ptr e)" "idx k a"]
    by (auto simp: owner.simps ent_ok.simps is_level_def)
qed simp

text \<open>States that agree on the levels below an entry.\<close>

definition agree :: "'h memdb_mem \<Rightarrow> 'h memdb_mem \<Rightarrow> node set \<Rightarrow> bool" where
  "agree m m' N \<longleftrightarrow> (\<forall>p. (tab_node p \<in> N \<longrightarrow> level_tables m' p = level_tables m p) \<and> (map_node p \<in> N \<longrightarrow> level_bitmaps m' p = level_bitmaps m p))"

lemma agreeD: "agree m m' N \<Longrightarrow> tab_node p \<in> N \<Longrightarrow> level_tables m' p = level_tables m p"
  "agree m m' N \<Longrightarrow> map_node p \<in> N \<Longrightarrow> level_bitmaps m' p = level_bitmaps m p"
  by (simp_all add: agree_def)

lemma agree_mono: "agree m m' N \<Longrightarrow> M \<subseteq> N \<Longrightarrow> agree m m' M"
  unfolding agree_def by blast

lemma agree_trans: "agree m m' N \<Longrightarrow> agree m' m'' N \<Longrightarrow> agree m m'' N"
  unfolding agree_def by simp

lemma agree_tree:
  assumes "agree m m' (nodes m k e)"
  shows "nodes m' k e = nodes m k e \<and> ent_ok m' k e = ent_ok m k e \<and> owner m' k e = owner m k e \<and> has m' k e = has m k e"
  using assms
proof (induction k arbitrary: e)
  case (Suc k)
  show ?case
  proof (cases "is_table e")
    case True
    let ?t = "entry_ptr e"
    have t: "level_tables m' ?t = level_tables m ?t" using agreeD(1) [OF Suc.prems] True by (simp add: tree_table tnodes_def)
    have IH: "nodes m' k (level_tables m ?t i) = nodes m k (level_tables m ?t i)" "ent_ok m' k (level_tables m ?t i) = ent_ok m k (level_tables m ?t i)"
      "owner m' k (level_tables m ?t i) = owner m k (level_tables m ?t i)" "has m' k (level_tables m ?t i) = has m k (level_tables m ?t i)" if "i < 256" for i
    proof -
      have "agree m m' (nodes m k (level_tables m ?t i))" by (rule agree_mono [OF Suc.prems]) (use that True in \<open>auto simp: tree_table tnodes_def\<close>)
      from Suc.IH [OF this] show "nodes m' k (level_tables m ?t i) = nodes m k (level_tables m ?t i)" "ent_ok m' k (level_tables m ?t i) = ent_ok m k (level_tables m ?t i)"
        "owner m' k (level_tables m ?t i) = owner m k (level_tables m ?t i)" "has m' k (level_tables m ?t i) = has m k (level_tables m ?t i)" by blast+
    qed
    have "tnodes m' k ?t = tnodes m k ?t" "tab_ok m' k ?t = tab_ok m k ?t" "town m' k ?t = town m k ?t" "thas m' k ?t = thas m k ?t"
      unfolding tnodes_def tab_ok_def town_def thas_def t fun_eq_iff by (simp_all add: IH)
    then show ?thesis using True by (simp add: tree_table fun_eq_iff)
  next
    case False
    then show ?thesis using agreeD(2) [OF Suc.prems, of "entry_ptr e"] by (simp add: owner.simps has.simps nodes.simps ent_ok.simps fun_eq_iff)
  qed
qed (simp add: fun_eq_iff)

lemma agree_ent:
  assumes "agree m m' (nodes m k e)"
  shows "nodes m' k e = nodes m k e" "ent_ok m' k e = ent_ok m k e" "owner m' k e a = owner m k e a" "has m' k e x a = has m k e x a"
  using agree_tree [OF assms] by simp_all

end
