(* ===== verification/Spec2Isabelle.thy ===== *)
theory Spec2Isabelle
  imports Bootmem Heap_Properties RangeTree_Properties Bitmap LinkedList Spinlock Msgqueue Doorbell Cspace_Properties Rcu_Safety Timer_Safety Memdb_Tree
begin

text \<open>
  A verification development for the Gunyah hypervisor. Part after part of the hypervisor is
  translated from its C source into executable definitions, and the properties that make the part
  correct are proved about these definitions.

  \<^bold>\<open>Conventions.\<close> A C function becomes a function with the same name. Machine words are
  \<^typ>\<open>64 word\<close> and wrap; a pointer is such a word. A fallible function returns
  \<^typ>\<open>error_t\<close> or \<open>'a result\<close> (an error or a value). The option type is used for what C has no
  value for: a failed assertion or a loop that does not end is \<^const>\<open>None\<close>, so \<open>f x = Some y\<close>
  says that the call returns. State is passed explicitly, as the record of the C structure; linked
  data lives in an explicit store from addresses to nodes. A lock protects the whole of each
  operation in the code, so an operation is one atomic step here.

  \<^bold>\<open>Theories.\<close>

  \<^item> Gunyah\_Prelude: types, error codes, the macros of \<^verbatim>\<open>hyp/interfaces/util/include/util.h\<close> and
    the lemmas that move word arithmetic to natural numbers.
  \<^item> Allocator\_Interface: the contract between a memory allocator and its clients, as two locales,
    and what every client can rely on.
  \<^item> Bootmem: \<^verbatim>\<open>hyp/mem/allocator_boot/src/bootmem.c\<close>, an instance of the first contract.
  \<^item> Freelist: the code of \<^verbatim>\<open>hyp/mem/allocator_list/src/freelist.c\<close> over a store of list nodes.
    Freelist\_Spec: the reference operations on a list of free blocks. Freelist\_Refine,
    Freelist\_Dealloc, Freelist\_Add, Freelist\_Remove: the code computes the reference operations.
    Heap: the heap invariant, which every operation keeps, and the instance of the second
    contract. Heap\_Properties: what the heap guarantees.

  \<^bold>\<open>Bounds.\<close> Pointer loops are partial functions, and every theorem about them proves that they
  return. The heap theorems assume that no free block reaches into the last 16 MiB of the address
  space (\<^const>\<open>HEAP_TOP\<close>), because rounding an address up to the largest alignment wraps there.
\<close>

end
